(* ===== verification/Prelude.thy ===== *)
theory Prelude
  imports Main "HOL-Library.Word" "HOL-Library.Code_Target_Numeral"
begin

text \<open>
  Shared vocabulary of the development: the C integer types as words, \<open>size_t\<close> arithmetic as
  natural numbers with the wrap-around at \<open>2 ^ 64\<close> written out, readers over byte strings, the
  allocator parameter, big-endian numbers, and the two interfaces (locales) that the encoders and
  decoders of the other theories implement.
\<close>

unbundle bit_operations_syntax

section \<open>Machine types\<close>

type_synonym u8 = "8 word"
type_synonym u16 = "16 word"
type_synonym u32 = "32 word"
type_synonym u64 = "64 word"

type_synonym bytes = "u8 list"

text \<open>
  A \<open>CBS\<close> (\<open>data\<close>, \<open>len\<close>) is the list of the \<open>len\<close> bytes it may read. A reader returns its
  result, \<open>None\<close> where the C function returns zero, together with the \<open>CBS\<close> as it is left,
  also on failure.
\<close>

type_synonym cbs = bytes
type_synonym 'a reader = "cbs \<Rightarrow> 'a option \<times> cbs"

text \<open>
  The allocator of the C library is a parameter: whether a request for so many bytes succeeds.
\<close>

type_synonym allocator = "nat \<Rightarrow> bool"

text \<open>Facts about words as numbers, and about readers; the components add to both.\<close>

named_theorems word_nat_simps
named_theorems reader_simps

text \<open>
  \<open>rbind p f\<close> is \<open>if (!p(cbs, &x)) return 0;\<close> followed by \<open>f x\<close>: failure of \<open>p\<close> returns at
  once and leaves the \<open>CBS\<close> where \<open>p\<close> left it.
\<close>

definition rret :: "'a \<Rightarrow> 'a reader" where
  "rret a c = (Some a, c)"

definition rfail :: "'a reader" where
  "rfail c = (None, c)"

definition rbind :: "'a reader \<Rightarrow> ('a \<Rightarrow> 'b reader) \<Rightarrow> 'b reader" where
  "rbind p f c = (case p c of (None, c') \<Rightarrow> (None, c') | (Some a, c') \<Rightarrow> f a c')"

lemma rret_simp [simp]: "rret a c = (Some a, c)"
  by (simp add: rret_def)

lemma rfail_simp [simp]: "rfail c = (None, c)"
  by (simp add: rfail_def)

lemma rbind_Some [simp]: "p c = (Some a, c') \<Longrightarrow> rbind p f c = f a c'"
  by (simp add: rbind_def)

lemma rbind_None [simp]: "p c = (None, c') \<Longrightarrow> rbind p f c = (None, c')"
  by (simp add: rbind_def)

lemma rbind_eq_Some:
  "rbind p f c = (Some b, r) \<longleftrightarrow> (\<exists>a c'. p c = (Some a, c') \<and> f a c' = (Some b, r))"
  by (auto simp: rbind_def split: prod.splits option.splits)

lemma if_reader_Some:
  "(if P then rfail else q) c = (Some a, r) \<longleftrightarrow> \<not> P \<and> q c = (Some a, r)"
  by simp

text \<open>For runs on concrete inputs.\<close>

lemma run_result: "fst p = a \<Longrightarrow> p = (a, snd p)"
  by (cases p) simp

lemma run_ok: "fst p \<Longrightarrow> p = (True, snd p)"
  by (cases p) simp

section \<open>size\_t\<close>

definition size_max :: nat where
  "size_max = 2 ^ 64"

definition size_add :: "nat \<Rightarrow> nat \<Rightarrow> nat" where
  "size_add a b = (a + b) mod size_max"

definition size_mul :: "nat \<Rightarrow> nat \<Rightarrow> nat" where
  "size_mul a b = (a * b) mod size_max"

lemma size_max_pos [simp]: "0 < size_max"
  by (simp add: size_max_def)

lemma size_add_less [simp]: "size_add a b < size_max"
  by (simp add: size_add_def)

lemma size_add_exact: "a + b < size_max \<Longrightarrow> size_add a b = a + b"
  by (simp add: size_add_def)

text \<open>The overflow test of the C code, \<open>a + b < a\<close>, is exact.\<close>

lemma size_add_overflow:
  assumes "a < size_max" and "b < size_max"
  shows "size_add a b < a \<longleftrightarrow> size_max \<le> a + b"
proof (cases "a + b < size_max")
  case True
  then show ?thesis by (simp add: size_add_exact)
next
  case False
  with assms have "size_add a b = a + b - size_max"
    by (simp add: size_add_def mod_if)
  with False assms show ?thesis by simp
qed

lemma size_add_no_overflow:
  "a < size_max \<Longrightarrow> b < size_max \<Longrightarrow> \<not> size_add a b < a \<Longrightarrow> size_add a b = a + b"
  by (simp add: size_add_overflow size_add_exact)

section \<open>Words as numbers\<close>

lemma bit_bound_word:
  fixes y :: "'a::len word"
  assumes "unat y < 2 ^ n" and "n \<le> i"
  shows "\<not> bit y i"
proof
  assume "bit y i"
  then have "bit (unat y) i"
    by (simp add: bit_unsigned_iff)
  moreover have "take_bit i (unat y) = unat y"
    using assms by (simp add: take_bit_nat_eq_self less_le_trans)
  ultimately show False
    by (metis bit_take_bit_iff less_irrefl)
qed

lemma push_bit_or_disjoint:
  fixes x y :: "'a::len word"
  assumes "unat y < 2 ^ n"
  shows "push_bit n x OR y = push_bit n x + y"
proof -
  have "push_bit n x AND y = 0"
    by (rule bit_word_eqI) (use bit_bound_word [OF assms] in \<open>auto simp: bit_simps\<close>)
  then show ?thesis
    by (simp add: disjunctive_add_eq_or)
qed

lemma unat_byte_less: "unat (b :: u8) < 256"
proof -
  have "unat b < 2 ^ LENGTH(8)" by (rule unsigned_less)
  then show ?thesis by simp
qed

lemma unat_u16_less: "unat (v :: u16) < 2 ^ 16"
proof -
  have "unat v < 2 ^ LENGTH(16)" by (rule unsigned_less)
  then show ?thesis by simp
qed

lemma unat_u32_less: "unat (v :: u32) < 2 ^ 32"
proof -
  have "unat v < 2 ^ LENGTH(32)" by (rule unsigned_less)
  then show ?thesis by simp
qed

lemma unat_u64_less: "unat (v :: u64) < 2 ^ 64"
proof -
  have "unat v < 2 ^ LENGTH(64)" by (rule unsigned_less)
  then show ?thesis by simp
qed

text \<open>Appending a byte at the low end, as every big-endian loop of the code does.\<close>

lemma unat_shift8_or:
  fixes v :: u64 and b :: u8
  shows "unat (push_bit 8 v OR ucast b) = (unat v * 256 + unat b) mod 2 ^ 64"
proof -
  have b: "unat (ucast b :: u64) = unat b"
    by (simp add: unsigned_ucast_eq take_bit_nat_eq_self less_trans [OF unat_byte_less])
  then have "unat (ucast b :: u64) < 2 ^ 8"
    using unat_byte_less [of b] by simp
  then have "push_bit 8 v OR ucast b = v * 2 ^ 8 + ucast b"
    by (simp only: push_bit_or_disjoint) (simp add: push_bit_eq_mult)
  then show ?thesis
    by (simp add: b unat_word_ariths mod_simps)
qed

lemma word_of_nat_unat [simp]: "word_of_nat (unat w) = w"
  by (simp add: word_unat_eq_iff unat_of_nat take_bit_nat_eq_self flip: take_bit_eq_mod)

lemma byte_mod_128: "unat (b :: u8) mod 128 = (if 128 \<le> unat b then unat b - 128 else unat b)"
  using unat_byte_less [of b] by (simp add: le_mod_geq)

text \<open>Masks and shifts of the C code, as arithmetic.\<close>

lemma unat_and_mask: "unat (w AND mask n) = unat w mod 2 ^ n"
  unfolding take_bit_eq_mask [symmetric] unsigned_take_bit_eq by (rule take_bit_eq_mod)

lemma unat_drop_bit: "unat (drop_bit n w) = unat w div 2 ^ n"
  unfolding unsigned_drop_bit_eq take_bit_nat_eq_self [OF unsigned_less] by (rule drop_bit_eq_div)

lemma drop_bit_eq_0_iff: "drop_bit n w = 0 \<longleftrightarrow> unat w < 2 ^ n"
  by (simp add: unat_eq_0 [symmetric] unat_drop_bit div_eq_0_iff)

lemma unat_and_7f [word_nat_simps]: "unat ((b :: u8) AND 0x7F) = unat b mod 128"
proof -
  have "(0x7F :: u8) = mask 7" by (simp add: mask_eq_exp_minus_1)
  then show ?thesis by (simp only: unat_and_mask) simp
qed

lemma and_80_eq_0 [word_nat_simps]: "(b :: u8) AND 0x80 = 0 \<longleftrightarrow> unat b < 128"
proof -
  have "b AND 0x80 = 0 \<longleftrightarrow> \<not> bit b 7"
    using and_exp_eq_0_iff_not_bit [of b 7] by simp
  also have "\<dots> \<longleftrightarrow> even (unat b div 2 ^ 7)"
    using bit_unsigned_iff [where 'a = nat, of b 7] bit_iff_odd [of "unat b" 7] by auto
  also have "\<dots> \<longleftrightarrow> unat b < 128"
  proof (cases "unat b < 128")
    case False
    with unat_byte_less [of b] have "unat b div 128 = 1"
      by (intro div_nat_eqI) auto
    with False show ?thesis by simp
  qed simp
  finally show ?thesis .
qed

section \<open>Big-endian numbers\<close>

definition be_nat :: "bytes \<Rightarrow> nat" where
  "be_nat = foldl (\<lambda>v b. v * 256 + unat b) 0"

fun be_bytes :: "nat \<Rightarrow> nat \<Rightarrow> bytes" where
  "be_bytes 0 v = []"
| "be_bytes (Suc n) v = be_bytes n (v div 256) @ [word_of_nat v]"

lemma be_bytes_1 [simp]: "be_bytes 1 v = [word_of_nat v]"
  by (simp only: One_nat_def be_bytes.simps append_Nil)

lemma be_nat_Nil [simp]: "be_nat [] = 0"
  by (simp add: be_nat_def)

lemma be_nat_snoc [simp]: "be_nat (bs @ [b]) = be_nat bs * 256 + unat b"
  by (simp add: be_nat_def)

lemma be_nat_Cons: "be_nat (b # bs) = unat b * 256 ^ length bs + be_nat bs"
proof (induction bs rule: rev_induct)
  case Nil
  show ?case using be_nat_snoc [of "[]" b] by simp
next
  case (snoc x xs)
  have "be_nat (b # xs @ [x]) = be_nat (b # xs) * 256 + unat x"
    using be_nat_snoc [of "b # xs" x] by simp
  with snoc show ?case by (simp add: algebra_simps)
qed

lemma be_nat_less: "be_nat bs < 256 ^ length bs"
proof (induction bs rule: rev_induct)
  case (snoc x xs)
  have "unat x < 256" by (rule unat_byte_less)
  with snoc show ?case by simp
qed simp

lemma length_be_bytes [simp]: "length (be_bytes n v) = n"
  by (induction n arbitrary: v) simp_all

lemma unat_byte_of_nat [word_nat_simps]: "unat (word_of_nat v :: u8) = v mod 256"
  by (simp add: unat_of_nat)

lemma be_nat_be_bytes: "be_nat (be_bytes n v) = v mod 256 ^ n"
proof (induction n arbitrary: v)
  case (Suc n)
  have "be_nat (be_bytes (Suc n) v) = v div 256 mod 256 ^ n * 256 + v mod 256"
    by (simp add: Suc.IH unat_byte_of_nat)
  also have "\<dots> = v mod (256 * 256 ^ n)"
    by (simp add: mod_mult2_eq)
  finally show ?case by simp
qed simp

lemma be_nat_be_bytes_small [simp]: "v < 256 ^ n \<Longrightarrow> be_nat (be_bytes n v) = v"
  by (simp add: be_nat_be_bytes)

lemma be_bytes_be_nat [simp]: "length bs = n \<Longrightarrow> be_bytes n (be_nat bs) = bs"
proof (induction bs arbitrary: n rule: rev_induct)
  case (snoc x xs)
  have x: "unat x < 256" by (rule unat_byte_less)
  have "(word_of_nat (be_nat xs * 256 + unat x) :: u8) = x"
    by (simp only: word_unat_eq_iff unat_byte_of_nat) (use x in simp)
  with snoc x show ?case by auto
qed simp

lemma be_bytes_nth: "i < n \<Longrightarrow> be_bytes n v ! i = word_of_nat (v div 256 ^ (n - Suc i))"
proof (induction n arbitrary: v)
  case (Suc n)
  show ?case
  proof (cases "i < n")
    case True
    then have "Suc n - Suc i = Suc (n - Suc i)" by simp
    with True Suc show ?thesis by (simp add: nth_append div_mult2_eq)
  next
    case False
    with Suc.prems have "i = n" by simp
    then show ?thesis by (simp add: nth_append)
  qed
qed simp

lemma be_bytes_word:
  "be_bytes n (unat w) = map (\<lambda>i. ucast (drop_bit (8 * (n - Suc i)) w)) [0..<n]"
proof (rule nth_equalityI)
  fix i
  assume "i < length (be_bytes n (unat w))"
  then have i: "i < n" by simp
  have "word_of_nat (unat w div 256 ^ (n - Suc i)) = (ucast (drop_bit (8 * (n - Suc i)) w) :: u8)"
    by (simp add: unsigned_word_eqI unat_of_nat unat_drop_bit unsigned_ucast_eq take_bit_eq_mod
        word_unat_eq_iff power_mult)
  with i show "be_bytes n (unat w) ! i = map (\<lambda>i. ucast (drop_bit (8 * (n - Suc i)) w)) [0..<n] ! i"
    by (simp add: be_bytes_nth)
qed simp

text \<open>The hardware-word loops of the code compute these numbers.\<close>

lemma unat_fold_be:
  "unat (foldl (\<lambda>v b. push_bit 8 v OR ucast b) (v :: u64) bs)
     = (unat v * 256 ^ length bs + be_nat bs) mod 2 ^ 64"
proof (induction bs rule: rev_induct)
  case Nil
  show ?case using unat_u64_less [of v] by simp
next
  case (snoc x xs)
  have "unat (foldl (\<lambda>v b. push_bit 8 v OR ucast b) v (xs @ [x]))
      = ((unat v * 256 ^ length xs + be_nat xs) mod 2 ^ 64 * 256 + unat x) mod 2 ^ 64"
    by (simp add: unat_shift8_or snoc)
  also have "\<dots> = ((unat v * 256 ^ length xs + be_nat xs) * 256 + unat x) mod 2 ^ 64"
    by (metis mod_add_left_eq mod_mult_left_eq)
  finally show ?case by (simp add: algebra_simps)
qed

section \<open>Interfaces of encoders and decoders\<close>

text \<open>
  The contract of an encoder \<open>enc\<close> and a reader \<open>dec\<close>: what was written is read back, and the
  reader stops right behind it, whatever follows.
\<close>

locale codec =
  fixes enc :: "'a \<Rightarrow> bytes"
    and dec :: "'a reader"
    and valid :: "'a \<Rightarrow> bool"
  assumes dec_enc: "valid a \<Longrightarrow> dec (enc a @ r) = (Some a, r)"
begin

lemma dec_enc_exact: "valid a \<Longrightarrow> dec (enc a) = (Some a, [])"
  using dec_enc [of a "[]"] by simp

lemma enc_prefix_free:
  assumes "valid a" and "valid b" and "enc a @ r = enc b @ s"
  shows "a = b \<and> r = s"
  by (metis Pair_inject assms dec_enc option.inject)

lemma enc_inj: "valid a \<Longrightarrow> valid b \<Longrightarrow> enc a = enc b \<Longrightarrow> a = b"
  using enc_prefix_free [of a b "[]" "[]"] by simp

end

text \<open>A canonical format: nothing but an encoder's output is accepted.\<close>

locale canonical_codec = codec +
  assumes enc_dec: "dec c = (Some a, r) \<Longrightarrow> valid a \<and> c = enc a @ r"
begin

lemma dec_iff: "dec c = (Some a, r) \<longleftrightarrow> valid a \<and> c = enc a @ r"
proof
  show "dec c = (Some a, r) \<Longrightarrow> valid a \<and> c = enc a @ r" by (rule enc_dec)
  show "valid a \<and> c = enc a @ r \<Longrightarrow> dec c = (Some a, r)" by (simp add: dec_enc)
qed

lemma dec_fails_iff: "fst (dec c) = None \<longleftrightarrow> (\<forall>a r. valid a \<longrightarrow> c \<noteq> enc a @ r)"
  by (cases "dec c"; cases "fst (dec c)") (auto simp: dec_enc dest: enc_dec)

lemma dec_suffix: "dec c = (Some a, r) \<Longrightarrow> r = drop (length (enc a)) c"
  using enc_dec by fastforce

end

text \<open>A conversion of the value, such as a narrowing or a byte swap, keeps the contract.\<close>

lemma canonical_codec_map:
  assumes codec: "canonical_codec enc dec valid"
    and g: "\<And>b. valid' b \<Longrightarrow> valid (g b) \<and> f (g b) = b"
    and f: "\<And>a. valid a \<Longrightarrow> valid' (f a) \<and> g (f a) = a"
    and enc': "\<And>b. enc' b = enc (g b)"
  shows "canonical_codec enc' (rbind dec (\<lambda>a. rret (f a))) valid'"
proof unfold_locales
  fix b r
  assume "valid' b"
  with g [of b] show "rbind dec (\<lambda>a. rret (f a)) (enc' b @ r) = (Some b, r)"
    by (auto simp: rbind_eq_Some canonical_codec.dec_iff [OF codec] enc')
next
  fix c b r
  assume "rbind dec (\<lambda>a. rret (f a)) c = (Some b, r)"
  with f show "valid' b \<and> c = enc' b @ r"
    by (auto simp: rbind_eq_Some canonical_codec.dec_iff [OF codec] enc')
qed

end
