(* ===== verification/Mem.thy ===== *)
theory Mem
  imports Prelude
begin

text \<open>
  \<open>crypto/mem.c\<close>: the allocation wrapper with its size prefix, the constant-time comparison, the
  FNV-1a string hash, and the bounded C string functions. A C object is the list of its bytes; a
  read or a write past its end is undefined behaviour and is the result \<open>None\<close>.
\<close>

section \<open>Allocation\<close>

definition OPENSSL_MALLOC_PREFIX :: nat where
  "OPENSSL_MALLOC_PREFIX = 8"

text \<open>The number of bytes asked of the C library for an object of \<open>sz\<close> bytes.\<close>

definition malloc_request :: "nat \<Rightarrow> nat" where
  "malloc_request sz = size_add sz OPENSSL_MALLOC_PREFIX"

definition OPENSSL_malloc :: "allocator \<Rightarrow> nat \<Rightarrow> bool" where
  "OPENSSL_malloc al sz = al (malloc_request sz)"

text \<open>
  \<open>fresh\<close> is what the new block happens to hold; the old object is freed on success and kept on
  failure (\<open>None\<close>).
\<close>

definition OPENSSL_realloc :: "allocator \<Rightarrow> bytes option \<Rightarrow> nat \<Rightarrow> bytes \<Rightarrow> bytes option" where
  "OPENSSL_realloc al orig new_size fresh =
     (case orig of
        None \<Rightarrow> if OPENSSL_malloc al new_size then Some fresh else None
      | Some old \<Rightarrow>
          if \<not> OPENSSL_malloc al new_size then None
          else let to_copy = (if length old < new_size then length old else new_size)
               in Some (take to_copy old @ drop to_copy fresh))"

definition OPENSSL_memdup :: "allocator \<Rightarrow> bytes \<Rightarrow> bytes option" where
  "OPENSSL_memdup al data =
     (if length data = 0 then None
      else if \<not> OPENSSL_malloc al (length data) then None else Some data)"

definition OPENSSL_cleanse :: "bytes \<Rightarrow> nat \<Rightarrow> bytes option" where
  "OPENSSL_cleanse obj len =
     (if len \<le> length obj then Some (replicate len 0 @ drop len obj) else None)"

lemma malloc_request_exact:
  assumes "sz < size_max"
  shows "sz + 8 \<le> malloc_request sz \<longleftrightarrow> sz + 8 < size_max"
proof (cases "sz + 8 < size_max")
  case True
  then show ?thesis
    by (simp add: malloc_request_def OPENSSL_MALLOC_PREFIX_def size_add_exact)
next
  case False
  have "size_add sz 8 < size_max" by simp
  with False have "\<not> sz + 8 \<le> size_add sz 8" by linarith
  with False show ?thesis
    by (simp add: malloc_request_def OPENSSL_MALLOC_PREFIX_def)
qed

lemma OPENSSL_realloc_keeps:
  assumes "OPENSSL_realloc al (Some old) n fresh = Some new" and "length fresh = n"
  shows "length new = n" and "take (min (length old) n) new = take (min (length old) n) old"
  using assms by (auto simp: OPENSSL_realloc_def Let_def split: if_splits)

section \<open>Comparison and hashing\<close>

definition CRYPTO_memcmp :: "bytes \<Rightarrow> bytes \<Rightarrow> nat \<Rightarrow> u8" where
  "CRYPTO_memcmp in_a in_b len =
     foldl (\<lambda>x i. x OR (in_a ! i XOR in_b ! i)) 0 [0..<len]"

definition OPENSSL_hash32 :: "bytes \<Rightarrow> u32" where
  "OPENSSL_hash32 ptr = foldl (\<lambda>h c. (h XOR ucast c) * 16777619) 2166136261 ptr"

lemma or_eq_0_iff: "(a :: 'a::len word) OR b = 0 \<longleftrightarrow> a = 0 \<and> b = 0"
  by (auto simp: bit_eq_iff bit_simps)

lemma xor_eq_0_iff: "(a :: 'a::len word) XOR b = 0 \<longleftrightarrow> a = b"
  by (auto simp: bit_eq_iff bit_simps)

lemma CRYPTO_memcmp_zero:
  "CRYPTO_memcmp a b n = 0 \<longleftrightarrow> (\<forall>i<n. a ! i = b ! i)"
  by (induction n) (auto simp: CRYPTO_memcmp_def or_eq_0_iff xor_eq_0_iff less_Suc_eq)

text \<open>The result is zero exactly when the two objects agree on their first \<open>n\<close> bytes.\<close>

lemma CRYPTO_memcmp_equal:
  assumes "n \<le> length a" and "n \<le> length b"
  shows "CRYPTO_memcmp a b n = 0 \<longleftrightarrow> take n a = take n b"
  using assms by (auto simp: CRYPTO_memcmp_zero list_eq_iff_nth_eq)

section \<open>C strings\<close>

fun strlen :: "bytes \<Rightarrow> nat option" where
  "strlen [] = None"
| "strlen (c # s) = (if c = 0 then Some 0 else map_option Suc (strlen s))"

fun OPENSSL_strnlen :: "bytes \<Rightarrow> nat \<Rightarrow> nat option" where
  "OPENSSL_strnlen s 0 = Some 0"
| "OPENSSL_strnlen [] (Suc n) = None"
| "OPENSSL_strnlen (c # s) (Suc n) =
     (if c = 0 then Some 0 else map_option Suc (OPENSSL_strnlen s n))"

text \<open>The outer \<open>None\<close> is undefined behaviour, the inner one a failed allocation.\<close>

definition OPENSSL_strndup :: "allocator \<Rightarrow> bytes \<Rightarrow> nat \<Rightarrow> bytes option option" where
  "OPENSSL_strndup al str sz =
     map_option (\<lambda>n. let alloc_size = size_add n 1 in
        if alloc_size < n then None
        else if \<not> OPENSSL_malloc al alloc_size then None
        else Some (take n str @ [0]))
     (OPENSSL_strnlen str sz)"

definition OPENSSL_strdup :: "allocator \<Rightarrow> bytes \<Rightarrow> bytes option option" where
  "OPENSSL_strdup al s =
     map_option (\<lambda>n. let len = size_add n 1 in
        if \<not> OPENSSL_malloc al len then None else Some (take len s))
     (strlen s)"

text \<open>Characters are compared as the \<open>int\<close> the byte promotes to.\<close>

definition OPENSSL_tolower :: "int \<Rightarrow> int" where
  "OPENSSL_tolower c = (if 65 \<le> c \<and> c \<le> 90 then c + (97 - 65) else c)"

fun OPENSSL_strcasecmp :: "bytes \<Rightarrow> bytes \<Rightarrow> int option" where
  "OPENSSL_strcasecmp (a # s) (b # t) =
     (let aa = OPENSSL_tolower (sint a); bb = OPENSSL_tolower (sint b) in
      if aa < bb then Some (-1)
      else if aa > bb then Some 1
      else if aa = 0 then Some 0
      else OPENSSL_strcasecmp s t)"
| "OPENSSL_strcasecmp _ _ = None"

fun OPENSSL_strncasecmp :: "bytes \<Rightarrow> bytes \<Rightarrow> nat \<Rightarrow> int option" where
  "OPENSSL_strncasecmp _ _ 0 = Some 0"
| "OPENSSL_strncasecmp (a # s) (b # t) (Suc n) =
     (let aa = OPENSSL_tolower (sint a); bb = OPENSSL_tolower (sint b) in
      if aa < bb then Some (-1)
      else if aa > bb then Some 1
      else if aa = 0 then Some 0
      else OPENSSL_strncasecmp s t n)"
| "OPENSSL_strncasecmp _ _ (Suc n) = None"

text \<open>
  \<open>strlcpy\<close> returns the length it would have liked to write and the destination as it is left.
  The loop copies while room for the terminator remains and the source has not ended.
\<close>

fun strlcpy_loop :: "bytes \<Rightarrow> bytes \<Rightarrow> nat \<Rightarrow> nat \<Rightarrow> (nat \<times> bytes) option" where
  "strlcpy_loop dst [] dst_size l = None"
| "strlcpy_loop dst (c # src) dst_size l =
     (if dst_size > 1 \<and> c \<noteq> 0
      then case dst of
             [] \<Rightarrow> None
           | _ # d \<Rightarrow> map_option (\<lambda>(n, d'). (n, c # d')) (strlcpy_loop d src (dst_size - 1) (Suc l))
      else case strlen (c # src) of
             None \<Rightarrow> None
           | Some m \<Rightarrow>
               if dst_size = 0 then Some (l + m, dst)
               else case dst of [] \<Rightarrow> None | _ # d \<Rightarrow> Some (l + m, 0 # d))"

definition OPENSSL_strlcpy :: "bytes \<Rightarrow> bytes \<Rightarrow> nat \<Rightarrow> (nat \<times> bytes) option" where
  "OPENSSL_strlcpy dst src dst_size = strlcpy_loop dst src dst_size 0"

fun strlcat_loop :: "bytes \<Rightarrow> bytes \<Rightarrow> nat \<Rightarrow> nat \<Rightarrow> (nat \<times> bytes) option" where
  "strlcat_loop dst src 0 l = map_option (\<lambda>(n, d). (l + n, d)) (OPENSSL_strlcpy dst src 0)"
| "strlcat_loop [] src (Suc n) l = None"
| "strlcat_loop (c # d) src (Suc n) l =
     (if c \<noteq> 0 then map_option (\<lambda>(r, d'). (r, c # d')) (strlcat_loop d src n (Suc l))
      else map_option (\<lambda>(r, d'). (l + r, d')) (OPENSSL_strlcpy (c # d) src (Suc n)))"

definition OPENSSL_strlcat :: "bytes \<Rightarrow> bytes \<Rightarrow> nat \<Rightarrow> (nat \<times> bytes) option" where
  "OPENSSL_strlcat dst src dst_size = strlcat_loop dst src dst_size 0"

lemma strlen_append0: "0 \<notin> set s \<Longrightarrow> strlen (s @ 0 # t) = Some (length s)"
  by (induction s) auto

lemma strlcpy_loop_spec:
  assumes "0 \<notin> set s" and "n \<le> length dst" and "0 < n"
  shows "strlcpy_loop dst (s @ 0 # t) n l =
           Some (l + length s, take (n - 1) s @ 0 # drop (Suc (min (n - 1) (length s))) dst)"
  using assms
proof (induction s arbitrary: dst n l)
  case Nil
  then show ?case by (cases dst) auto
next
  case (Cons c s)
  then show ?case
    by (cases dst; cases n; cases "n - 1") (auto simp: strlen_append0)
qed

text \<open>
  \<open>strlcpy\<close> writes inside the \<open>n\<close> bytes of room, always terminates the copy, truncates it to
  \<open>n - 1\<close> characters and reports the length of the whole source.
\<close>

lemma OPENSSL_strlcpy_spec:
  assumes "0 \<notin> set s" and "n \<le> length dst" and "0 < n"
  shows "OPENSSL_strlcpy dst (s @ 0 # t) n =
           Some (length s, take (n - 1) s @ 0 # drop (Suc (min (n - 1) (length s))) dst)"
  using strlcpy_loop_spec [OF assms] by (simp add: OPENSSL_strlcpy_def)

lemma OPENSSL_strlcpy_zero: "0 \<notin> set s \<Longrightarrow> OPENSSL_strlcpy dst (s @ 0 # t) 0 = Some (length s, dst)"
  by (cases s) (auto simp: OPENSSL_strlcpy_def strlen_append0)

lemma strlcat_loop_spec:
  assumes "0 \<notin> set s" and "0 \<notin> set d" and "length d < n" and "n \<le> length d + Suc (length e)"
  shows "strlcat_loop (d @ 0 # e) (s @ 0 # t) n l =
           Some (l + length d + length s,
                 d @ take (n - length d - 1) s @ 0 # drop (min (n - length d - 1) (length s)) e)"
  using assms
proof (induction d arbitrary: n l)
  case Nil
  then show ?case
    using OPENSSL_strlcpy_spec [of s n "0 # e" t] by (cases n) auto
next
  case (Cons c d)
  then show ?case by (cases n) auto
qed

text \<open>
  \<open>strlcat\<close> appends after the string already in the destination, inside its \<open>n\<close> bytes, and
  reports the length the whole concatenation would have.
\<close>

lemma OPENSSL_strlcat_spec:
  assumes "0 \<notin> set s" and "0 \<notin> set d" and "length d < n" and "n \<le> length d + Suc (length e)"
  shows "OPENSSL_strlcat (d @ 0 # e) (s @ 0 # t) n =
           Some (length d + length s,
                 d @ take (n - length d - 1) s @ 0 # drop (min (n - length d - 1) (length s)) e)"
  using strlcat_loop_spec [OF assms] by (simp add: OPENSSL_strlcat_def)

section \<open>Properties\<close>

text \<open>
  \<open>CRYPTO_memcmp\<close>, which has no data-dependent branch, returns zero exactly when the two
  objects agree on their first \<open>len\<close> bytes.
\<close>

theorem memcmp_decides_equality:
  assumes "len \<le> length in_a" and "len \<le> length in_b"
  shows "CRYPTO_memcmp in_a in_b len = 0 \<longleftrightarrow> take len in_a = take len in_b"
  using assms by (rule CRYPTO_memcmp_equal)

theorem memcmp_decides_equality_witness:
  "CRYPTO_memcmp [1, 2, 3] [1, 2, 4] 2 = 0 \<and> CRYPTO_memcmp [1, 2, 3] [1, 2, 4] 3 \<noteq> 0"
  using memcmp_decides_equality [of 2 "[1, 2, 3]" "[1, 2, 4]"]
    memcmp_decides_equality [of 3 "[1, 2, 3]" "[1, 2, 4]"] by simp

text \<open>
  \<open>OPENSSL_strlcat\<close> never writes past \<open>dst_size\<close>: of the source it appends what fits before
  the terminator, leaves the rest of the object alone and returns the length it tried to build.
\<close>

theorem strlcat_truncates:
  assumes "0 \<notin> set s" and "0 \<notin> set d" and "length d < n" and "n \<le> length d + Suc (length e)"
  shows "OPENSSL_strlcat (d @ 0 # e) (s @ 0 # t) n =
           Some (length d + length s,
                 d @ take (n - length d - 1) s @ 0 # drop (min (n - length d - 1) (length s)) e)"
  using assms by (rule OPENSSL_strlcat_spec)

theorem strlcat_truncates_witness:
  "OPENSSL_strlcat [97, 0, 7, 8, 9] [98, 99, 100, 0] 3 = Some (4, [97, 98, 0, 8, 9])"
  using strlcat_truncates [of "[98, 99, 100]" "[97]" 3 "[7, 8, 9]" "[]"] by simp



end
