(* ===== verification/Cbs.thy ===== *)
theory Cbs
  imports Mem
begin

text \<open>
  \<open>crypto/bytestring/cbs.c\<close>: the \<open>CBS\<close> reader. Every function reads from the front of the byte
  string and returns the rest; the ASN.1 element parser works on a copy of the \<open>CBS\<close>, which the
  model keeps as a second byte string. The conversion of OIDs to text is in theory \<open>Oid\<close>,
  because it writes through a \<open>CBB\<close>.
\<close>

section \<open>Byte access\<close>

text \<open>\<open>data\<close> is the memory from the pointer on; \<open>len\<close> of its bytes may be read.\<close>

definition CBS_init :: "bytes \<Rightarrow> nat \<Rightarrow> cbs" where
  "CBS_init data len = take len data"

definition cbs_get :: "nat \<Rightarrow> bytes reader" where
  "cbs_get n c = (if length c < n then (None, c) else (Some (take n c), drop n c))"

definition CBS_skip :: "nat \<Rightarrow> unit reader" where
  "CBS_skip len = rbind (cbs_get len) (\<lambda>_. rret ())"

definition CBS_len :: "cbs \<Rightarrow> nat" where
  "CBS_len c = length c"

text \<open>The result is the success flag and the new copy, \<open>None\<close> being the null pointer.\<close>

definition CBS_stow :: "allocator \<Rightarrow> cbs \<Rightarrow> bool \<times> bytes option" where
  "CBS_stow al c =
     (if length c = 0 then (True, None)
      else case OPENSSL_memdup al c of None \<Rightarrow> (False, None) | Some p \<Rightarrow> (True, Some p))"

definition CBS_strdup :: "allocator \<Rightarrow> cbs \<Rightarrow> bytes option option" where
  "CBS_strdup al c = OPENSSL_strndup al c (length c)"

definition CBS_contains_zero_byte :: "cbs \<Rightarrow> bool" where
  "CBS_contains_zero_byte c = list_ex (\<lambda>b. b = 0) c"

definition CBS_mem_equal :: "cbs \<Rightarrow> bytes \<Rightarrow> nat \<Rightarrow> bool" where
  "CBS_mem_equal c data len =
     (if len \<noteq> length c then False else CRYPTO_memcmp c data len = 0)"

definition cbs_get_u :: "nat \<Rightarrow> u64 reader" where
  "cbs_get_u len = rbind (cbs_get len)
     (\<lambda>data. rret (foldl (\<lambda>result b. push_bit 8 result OR ucast b) 0 data))"

definition CBS_get_u8 :: "u8 reader" where
  "CBS_get_u8 = rbind (cbs_get 1) (\<lambda>v. rret (v ! 0))"

definition CBS_get_u16 :: "u16 reader" where
  "CBS_get_u16 = rbind (cbs_get_u 2) (\<lambda>v. rret (ucast v))"

definition CRYPTO_bswap2 :: "u16 \<Rightarrow> u16" where
  "CRYPTO_bswap2 x = drop_bit 8 x OR push_bit 8 x"

definition CRYPTO_bswap4 :: "u32 \<Rightarrow> u32" where
  "CRYPTO_bswap4 x0 =
     (let x = drop_bit 16 x0 OR push_bit 16 x0
      in drop_bit 8 (x AND 0xff00ff00) OR push_bit 8 (x AND 0x00ff00ff))"

definition CRYPTO_bswap8 :: "u64 \<Rightarrow> u64" where
  "CRYPTO_bswap8 x =
     ucast (CRYPTO_bswap4 (ucast (drop_bit 32 x)))
     OR push_bit 32 (ucast (CRYPTO_bswap4 (ucast x)))"

definition CBS_get_u16le :: "u16 reader" where
  "CBS_get_u16le = rbind CBS_get_u16 (\<lambda>v. rret (CRYPTO_bswap2 v))"

definition CBS_get_u24 :: "u32 reader" where
  "CBS_get_u24 = rbind (cbs_get_u 3) (\<lambda>v. rret (ucast v))"

definition CBS_get_u32 :: "u32 reader" where
  "CBS_get_u32 = rbind (cbs_get_u 4) (\<lambda>v. rret (ucast v))"

definition CBS_get_u32le :: "u32 reader" where
  "CBS_get_u32le = rbind CBS_get_u32 (\<lambda>v. rret (CRYPTO_bswap4 v))"

definition CBS_get_u64 :: "u64 reader" where
  "CBS_get_u64 = cbs_get_u 8"

definition CBS_get_u64le :: "u64 reader" where
  "CBS_get_u64le = rbind (cbs_get_u 8) (\<lambda>v. rret (CRYPTO_bswap8 v))"

definition CBS_get_last_u8 :: "u8 reader" where
  "CBS_get_last_u8 c =
     (if length c = 0 then (None, c) else (Some (c ! (length c - 1)), take (length c - 1) c))"

definition CBS_get_bytes :: "nat \<Rightarrow> cbs reader" where
  "CBS_get_bytes len = rbind (cbs_get len) (\<lambda>v. rret (CBS_init v len))"

text \<open>The destination holds at least \<open>len\<close> bytes and is returned as it is left.\<close>

definition CBS_copy_bytes :: "bytes \<Rightarrow> nat \<Rightarrow> bytes reader" where
  "CBS_copy_bytes out len = rbind (cbs_get len) (\<lambda>v. rret (v @ drop len out))"

definition cbs_get_length_prefixed :: "nat \<Rightarrow> cbs reader" where
  "cbs_get_length_prefixed len_len =
     rbind (cbs_get_u len_len) (\<lambda>len. CBS_get_bytes (unat len))"

definition CBS_get_u8_length_prefixed :: "cbs reader" where
  "CBS_get_u8_length_prefixed = cbs_get_length_prefixed 1"

definition CBS_get_u16_length_prefixed :: "cbs reader" where
  "CBS_get_u16_length_prefixed = cbs_get_length_prefixed 2"

definition CBS_get_u24_length_prefixed :: "cbs reader" where
  "CBS_get_u24_length_prefixed = cbs_get_length_prefixed 3"

section \<open>ASN.1 tags and elements\<close>

abbreviation (input) CBS_ASN1_TAG_SHIFT :: nat where
  "CBS_ASN1_TAG_SHIFT \<equiv> 24"

definition CBS_ASN1_CONSTRUCTED :: u32 where
  "CBS_ASN1_CONSTRUCTED = push_bit CBS_ASN1_TAG_SHIFT 0x20"

definition CBS_ASN1_TAG_NUMBER_MASK :: u32 where
  "CBS_ASN1_TAG_NUMBER_MASK = push_bit (5 + CBS_ASN1_TAG_SHIFT) 1 - 1"

definition CBS_ASN1_BOOLEAN :: u32 where "CBS_ASN1_BOOLEAN = 1"
definition CBS_ASN1_INTEGER :: u32 where "CBS_ASN1_INTEGER = 2"
definition CBS_ASN1_BITSTRING :: u32 where "CBS_ASN1_BITSTRING = 3"
definition CBS_ASN1_OCTETSTRING :: u32 where "CBS_ASN1_OCTETSTRING = 4"

fun parse_base128_loop :: "u64 \<Rightarrow> u64 reader" where
  "parse_base128_loop v [] = (None, [])"
| "parse_base128_loop v (b # c) =
     (if drop_bit (64 - 7) v \<noteq> 0 then (None, c)
      else if v = 0 \<and> b = 0x80 then (None, c)
      else let v' = push_bit 7 v OR ucast (b AND 0x7f)
           in if b AND 0x80 \<noteq> 0 then parse_base128_loop v' c else (Some v', c))"

definition parse_base128_integer :: "u64 reader" where
  "parse_base128_integer = parse_base128_loop 0"

definition parse_asn1_tag :: "u32 reader" where
  "parse_asn1_tag = rbind CBS_get_u8 (\<lambda>tag_byte.
     let tag = push_bit CBS_ASN1_TAG_SHIFT (ucast tag_byte AND 0xe0);
         tag_number = ucast (tag_byte AND 0x1f)
     in if tag_number = 0x1f
        then rbind parse_base128_integer (\<lambda>v.
               if v > ucast CBS_ASN1_TAG_NUMBER_MASK \<or> v < 0x1f then rfail
               else rret (tag OR ucast v))
        else rret (tag OR tag_number))"

text \<open>
  The element parser returns the element (header included), its tag and the length of its header.
  \<open>header\<close> is the copy it reads the header from.
\<close>

definition cbs_get_any_asn1_element :: "bool \<Rightarrow> (cbs \<times> u32 \<times> nat) reader" where
  "cbs_get_any_asn1_element ber_ok c =
     (case parse_asn1_tag c of
        (None, _) \<Rightarrow> (None, c)
      | (Some tag, header) \<Rightarrow>
     (case CBS_get_u8 header of
        (None, _) \<Rightarrow> (None, c)
      | (Some length_byte, header) \<Rightarrow>
     (let header_len = CBS_len c - CBS_len header in
      if length_byte AND 0x80 = 0 then
        rbind (CBS_get_bytes (size_add (unat length_byte) header_len))
          (\<lambda>out. rret (out, tag, header_len)) c
      else
        (let num_bytes = unat (length_byte AND 0x7f) in
         if ber_ok \<and> tag AND CBS_ASN1_CONSTRUCTED \<noteq> 0 \<and> num_bytes = 0 then
           rbind (CBS_get_bytes header_len) (\<lambda>out. rret (out, tag, header_len)) c
         else if num_bytes = 0 \<or> num_bytes > 4 then (None, c)
         else
           (case cbs_get_u num_bytes header of
              (None, _) \<Rightarrow> (None, c)
            | (Some len64, _) \<Rightarrow>
                if len64 < 128 then (None, c)
                else if drop_bit ((num_bytes - 1) * 8) len64 = 0 then (None, c)
                else
                  (let len = unat len64 in
                   if size_add (size_add len header_len) num_bytes < len then (None, c)
                   else
                     rbind (CBS_get_bytes (size_add len (size_add header_len num_bytes)))
                       (\<lambda>out. rret (out, tag, size_add header_len num_bytes)) c))))))"

definition CBS_get_any_asn1_element :: "(cbs \<times> u32 \<times> nat) reader" where
  "CBS_get_any_asn1_element = cbs_get_any_asn1_element False"

definition CBS_get_any_ber_asn1_element :: "(cbs \<times> u32 \<times> nat) reader" where
  "CBS_get_any_ber_asn1_element = cbs_get_any_asn1_element True"

definition CBS_get_any_asn1 :: "(u32 \<times> cbs) reader" where
  "CBS_get_any_asn1 = rbind CBS_get_any_asn1_element (\<lambda>(out, tag, header_len) c.
     case CBS_skip header_len out of
       (None, _) \<Rightarrow> (None, c)
     | (Some _, out) \<Rightarrow> (Some (tag, out), c))"

definition cbs_get_asn1 :: "u32 \<Rightarrow> bool \<Rightarrow> cbs reader" where
  "cbs_get_asn1 tag_value skip_header = rbind CBS_get_any_asn1_element (\<lambda>(out, tag, header_len) c.
     if tag \<noteq> tag_value then (None, c)
     else if skip_header
       then case CBS_skip header_len out of
              (None, _) \<Rightarrow> (None, c)
            | (Some _, out) \<Rightarrow> (Some out, c)
       else (Some out, c))"

definition CBS_get_asn1 :: "u32 \<Rightarrow> cbs reader" where
  "CBS_get_asn1 tag_value = cbs_get_asn1 tag_value True"

definition CBS_get_asn1_element :: "u32 \<Rightarrow> cbs reader" where
  "CBS_get_asn1_element tag_value = cbs_get_asn1 tag_value False"

definition CBS_peek_asn1_tag :: "cbs \<Rightarrow> u32 \<Rightarrow> bool" where
  "CBS_peek_asn1_tag c tag_value =
     (if CBS_len c < 1 then False
      else case parse_asn1_tag c of
             (None, _) \<Rightarrow> False
           | (Some actual_tag, _) \<Rightarrow> tag_value = actual_tag)"

section \<open>Typed ASN.1 values\<close>

text \<open>The loop of \<open>CBS_get_asn1_uint64\<close>: fails as soon as a shift would lose bits.\<close>

fun asn1_uint64_loop :: "u64 \<Rightarrow> bytes \<Rightarrow> u64 option" where
  "asn1_uint64_loop out [] = Some out"
| "asn1_uint64_loop out (b # data) =
     (if drop_bit 56 out \<noteq> 0 then None
      else asn1_uint64_loop (push_bit 8 out OR ucast b) data)"

definition CBS_get_asn1_uint64 :: "u64 reader" where
  "CBS_get_asn1_uint64 = rbind (CBS_get_asn1 CBS_ASN1_INTEGER) (\<lambda>data c.
     if length data = 0 then (None, c)
     else if data ! 0 AND 0x80 \<noteq> 0 then (None, c)
     else if data ! 0 = 0 \<and> length data > 1 \<and> data ! 1 AND 0x80 = 0 then (None, c)
     else (asn1_uint64_loop 0 data, c))"

text \<open>
  The union of \<open>CBS_get_asn1_int64\<close> is read in the byte order of the target, which is little
  endian on every platform the pod is built for: \<open>u.bytes[i]\<close> has weight \<open>256 ^ i\<close>.
\<close>

fun le_u64 :: "bytes \<Rightarrow> u64" where
  "le_u64 [] = 0"
| "le_u64 (b # bs) = ucast b OR push_bit 8 (le_u64 bs)"

definition CBS_get_asn1_int64 :: "int reader" where
  "CBS_get_asn1_int64 = rbind (CBS_get_asn1 CBS_ASN1_INTEGER) (\<lambda>data c.
     let len = length data in
     if len = 0 \<or> len > 8 then (None, c)
     else if len > 1 \<and> data ! 0 = 0 \<and> data ! 1 AND 0x80 = 0 then (None, c)
     else if len > 1 \<and> data ! 0 = 0xff \<and> data ! 1 AND 0x80 \<noteq> 0 then (None, c)
     else
       let is_negative = (data ! 0 AND 0x80 \<noteq> 0);
           u = map (\<lambda>i. if i < len then data ! (len - i - 1)
                        else if is_negative then 0xff else 0) [0..<8]
       in (Some (sint (le_u64 u)), c))"

definition CBS_get_asn1_bool :: "bool reader" where
  "CBS_get_asn1_bool = rbind (CBS_get_asn1 CBS_ASN1_BOOLEAN) (\<lambda>bs c.
     if length bs \<noteq> 1 then (None, c)
     else let val = bs ! 0 in
       if val \<noteq> 0 \<and> val \<noteq> 0xff then (None, c) else (Some (val \<noteq> 0), c))"

text \<open>The optional element: its contents when it is present.\<close>

definition CBS_get_optional_asn1 :: "u32 \<Rightarrow> cbs option reader" where
  "CBS_get_optional_asn1 tag c =
     (if CBS_peek_asn1_tag c tag
      then rbind (CBS_get_asn1 tag) (\<lambda>out. rret (Some out)) c
      else (Some None, c))"

definition CBS_get_optional_asn1_octet_string :: "u32 \<Rightarrow> (cbs \<times> bool) reader" where
  "CBS_get_optional_asn1_octet_string tag = rbind (CBS_get_optional_asn1 tag) (\<lambda>r c.
     case r of
       None \<Rightarrow> (Some ([], False), c)
     | Some child \<Rightarrow>
         (case CBS_get_asn1 CBS_ASN1_OCTETSTRING child of
            (None, _) \<Rightarrow> (None, c)
          | (Some out, child) \<Rightarrow>
              if length child \<noteq> 0 then (None, c) else (Some (out, True), c)))"

definition CBS_get_optional_asn1_uint64 :: "u32 \<Rightarrow> u64 \<Rightarrow> u64 reader" where
  "CBS_get_optional_asn1_uint64 tag default_value = rbind (CBS_get_optional_asn1 tag) (\<lambda>r c.
     case r of
       None \<Rightarrow> (Some default_value, c)
     | Some child \<Rightarrow>
         (case CBS_get_asn1_uint64 child of
            (None, _) \<Rightarrow> (None, c)
          | (Some out, child) \<Rightarrow> if length child \<noteq> 0 then (None, c) else (Some out, c)))"

definition CBS_get_optional_asn1_bool :: "u32 \<Rightarrow> int \<Rightarrow> int reader" where
  "CBS_get_optional_asn1_bool tag default_value = rbind (CBS_get_optional_asn1 tag) (\<lambda>r c.
     case r of
       None \<Rightarrow> (Some default_value, c)
     | Some child \<Rightarrow>
         (case CBS_get_asn1 CBS_ASN1_BOOLEAN child of
            (None, _) \<Rightarrow> (None, c)
          | (Some child2, child) \<Rightarrow>
              if length child2 \<noteq> 1 \<or> length child \<noteq> 0 then (None, c)
              else let boolean = child2 ! 0 in
                if boolean = 0 then (Some 0, c)
                else if boolean = 0xff then (Some 1, c)
                else (None, c)))"

definition CBS_is_valid_asn1_bitstring :: "cbs \<Rightarrow> bool" where
  "CBS_is_valid_asn1_bitstring c =
     (case CBS_get_u8 c of
        (None, _) \<Rightarrow> False
      | (Some num_unused_bits, c') \<Rightarrow>
          if num_unused_bits > 7 then False
          else if num_unused_bits = 0 then True
          else case CBS_get_last_u8 c' of
                 (None, _) \<Rightarrow> False
               | (Some lst, _) \<Rightarrow>
                   \<not> (lst AND (push_bit (unat num_unused_bits) 1 - 1) \<noteq> 0))"

text \<open>\<open>bit\<close> is an \<open>unsigned\<close>: the byte number is computed with 32 bits.\<close>

definition CBS_asn1_bitstring_has_bit :: "cbs \<Rightarrow> u32 \<Rightarrow> bool" where
  "CBS_asn1_bitstring_has_bit c bit_index =
     (if \<not> CBS_is_valid_asn1_bitstring c then False
      else let byte_num = unat (drop_bit 3 bit_index + 1);
               bit_num = unat (7 - (bit_index AND 7))
           in byte_num < CBS_len c \<and> c ! byte_num AND push_bit bit_num 1 \<noteq> 0)"

section \<open>What the readers read\<close>

lemma CBS_get_u8_Nil [simp]: "CBS_get_u8 [] = (None, [])"
  by (simp add: CBS_get_u8_def rbind_def cbs_get_def)

lemma CBS_get_u8_Cons [simp]: "CBS_get_u8 (b # c) = (Some b, c)"
  by (simp add: CBS_get_u8_def rbind_def cbs_get_def)

lemma CBS_get_u8_Some [reader_simps]: "CBS_get_u8 c = (Some b, r) \<longleftrightarrow> c = b # r"
  by (cases c) auto

lemma CBS_get_u8_None [reader_simps]: "CBS_get_u8 c = (None, r) \<longleftrightarrow> c = [] \<and> r = []"
  by (cases c) auto

lemma cbs_get_append [simp]: "length xs = n \<Longrightarrow> cbs_get n (xs @ r) = (Some xs, r)"
  by (simp add: cbs_get_def)

lemma cbs_get_Some [reader_simps]: "cbs_get n c = (Some xs, r) \<longleftrightarrow> length xs = n \<and> c = xs @ r"
  by (auto simp: cbs_get_def)

lemma CBS_skip_Some [reader_simps]: "CBS_skip n c = (Some u, r) \<longleftrightarrow> n \<le> length c \<and> r = drop n c"
  by (auto simp: CBS_skip_def rbind_def cbs_get_def)

lemma CBS_get_bytes_eq_cbs_get: "CBS_get_bytes n = cbs_get n"
  by (rule ext) (simp add: CBS_get_bytes_def CBS_init_def rbind_def cbs_get_def)

lemma CBS_get_last_u8_Some [reader_simps]: "CBS_get_last_u8 c = (Some b, r) \<longleftrightarrow> c = r @ [b]"
  by (cases c rule: rev_cases) (auto simp: CBS_get_last_u8_def)

text \<open>Every reader built from \<open>cbs_get\<close> either takes its bytes from the front or nothing.\<close>

lemma cbs_get_conserves: "snd (cbs_get n c) = drop (length (case fst (cbs_get n c) of None \<Rightarrow> [] | Some xs \<Rightarrow> xs)) c"
  by (auto simp: cbs_get_def)

lemma be_word_unat:
  assumes "length bs \<le> 8"
  shows "unat (foldl (\<lambda>result b. push_bit 8 result OR ucast b) (0 :: u64) bs) = be_nat bs"
proof -
  have "be_nat bs < 256 ^ length bs" by (rule be_nat_less)
  also have "(256::nat) ^ length bs \<le> 256 ^ 8"
    using assms by (intro power_increasing) auto
  finally have "be_nat bs < 2 ^ 64" by simp
  then show ?thesis by (simp add: unat_fold_be)
qed

lemma cbs_get_u_append:
  assumes "length bs = n" and "n \<le> 8"
  shows "cbs_get_u n (bs @ r) = (Some (word_of_nat (be_nat bs)), r)"
proof -
  have "foldl (\<lambda>result b. push_bit 8 result OR ucast b) (0 :: u64) bs = word_of_nat (be_nat bs)"
    using assms by (simp flip: be_word_unat)
  with assms show ?thesis by (simp add: cbs_get_u_def)
qed

lemma cbs_get_u_canonical:
  assumes "n \<le> 8"
  shows "canonical_codec (\<lambda>v. be_bytes n (unat v)) (cbs_get_u n) (\<lambda>v. unat v < 256 ^ n)"
proof unfold_locales
  fix a :: u64 and r
  assume "unat a < 256 ^ n"
  with assms show "cbs_get_u n (be_bytes n (unat a) @ r) = (Some a, r)"
    by (simp add: cbs_get_u_append)
next
  fix c a r
  assume "cbs_get_u n c = (Some a, r)"
  then obtain bs where bs: "length bs = n" "c = bs @ r"
    and a: "a = foldl (\<lambda>result b. push_bit 8 result OR ucast b) 0 bs"
    by (auto simp: cbs_get_u_def rbind_eq_Some reader_simps)
  then have "unat a = be_nat bs" using assms be_word_unat [of bs] by simp
  with bs be_nat_less [of bs] show "unat a < 256 ^ n \<and> c = be_bytes n (unat a) @ r"
    by simp
qed

lemma unat_ucast_up:
  "LENGTH('a) \<le> LENGTH('b) \<Longrightarrow> unat (ucast (x :: 'a::len word) :: 'b::len word) = unat x"
  by (simp add: unsigned_ucast_eq take_bit_nat_eq_self
      less_le_trans [OF unsigned_less power_increasing])

lemma unat_ucast_small:
  "unat x < 2 ^ LENGTH('b) \<Longrightarrow> unat (ucast (x :: 'a::len word) :: 'b::len word) = unat x"
  by (simp add: unsigned_ucast_eq take_bit_nat_eq_self)

lemma cbs_get_u_narrow:
  assumes "n \<le> 8" and "256 ^ n \<le> (2::nat) ^ LENGTH('a::len)" and "LENGTH('a) \<le> 64"
  shows "canonical_codec (\<lambda>v :: 'a word. be_bytes n (unat v))
           (rbind (cbs_get_u n) (\<lambda>v. rret (ucast v))) (\<lambda>v. unat v < 256 ^ n)"
proof (rule canonical_codec_map [OF cbs_get_u_canonical [OF assms(1)], where g = ucast])
  fix b :: "'a word"
  assume "unat b < 256 ^ n"
  with assms show "unat (ucast b :: u64) < 256 ^ n \<and> ucast (ucast b :: u64) = b"
    by (simp add: unat_ucast_up word_unat_eq_iff unat_ucast_small)
next
  fix a :: u64
  assume "unat a < 256 ^ n"
  moreover from this assms have "unat (ucast a :: 'a word) = unat a"
    by (intro unat_ucast_small) simp
  ultimately show "unat (ucast a :: 'a word) < 256 ^ n \<and> ucast (ucast a :: 'a word) = a"
    using assms by (simp add: word_unat_eq_iff unat_ucast_up)
next
  fix b :: "'a word"
  show "be_bytes n (unat b) = be_bytes n (unat (ucast b :: u64))"
    using assms by (simp add: unat_ucast_up)
qed

text \<open>The fixed-width readers implement the canonical codec interface.\<close>

interpretation u8_codec: canonical_codec "\<lambda>v. be_bytes 1 (unat v)" CBS_get_u8 "\<lambda>_. True"
proof unfold_locales
  fix a :: u8 and r
  show "CBS_get_u8 (be_bytes 1 (unat a) @ r) = (Some a, r)"
    by simp
next
  fix c a r
  assume "CBS_get_u8 c = (Some a, r)"
  then show "True \<and> c = be_bytes 1 (unat a) @ r"
    by (simp add: reader_simps)
qed

lemma u16_canonical: "canonical_codec (\<lambda>v. be_bytes 2 (unat v)) CBS_get_u16 (\<lambda>_. True)"
proof -
  have "(\<lambda>v :: u16. unat v < 256 ^ 2) = (\<lambda>_. True)"
    using unat_u16_less by auto
  then show "canonical_codec (\<lambda>v. be_bytes 2 (unat v)) CBS_get_u16 (\<lambda>_. True)"
    using cbs_get_u_narrow [of 2, where 'a = 16] by (simp add: CBS_get_u16_def)
qed

interpretation u16_codec: canonical_codec "\<lambda>v. be_bytes 2 (unat v)" CBS_get_u16 "\<lambda>_. True"
  by (rule u16_canonical)

interpretation u24_codec: canonical_codec "\<lambda>v. be_bytes 3 (unat v)" CBS_get_u24 "\<lambda>v. unat v < 2 ^ 24"
  using cbs_get_u_narrow [of 3, where 'a = 32] by (simp add: CBS_get_u24_def)

lemma u32_canonical: "canonical_codec (\<lambda>v. be_bytes 4 (unat v)) CBS_get_u32 (\<lambda>_. True)"
proof -
  have "(\<lambda>v :: u32. unat v < 256 ^ 4) = (\<lambda>_. True)"
    using unat_u32_less by auto
  then show "canonical_codec (\<lambda>v. be_bytes 4 (unat v)) CBS_get_u32 (\<lambda>_. True)"
    using cbs_get_u_narrow [of 4, where 'a = 32] by (simp add: CBS_get_u32_def)
qed

interpretation u32_codec: canonical_codec "\<lambda>v. be_bytes 4 (unat v)" CBS_get_u32 "\<lambda>_. True"
  by (rule u32_canonical)

lemma u64_canonical: "canonical_codec (\<lambda>v. be_bytes 8 (unat v)) CBS_get_u64 (\<lambda>_. True)"
proof -
  have "(\<lambda>v :: u64. unat v < 256 ^ 8) = (\<lambda>_. True)"
    using unat_u64_less by auto
  then show "canonical_codec (\<lambda>v. be_bytes 8 (unat v)) CBS_get_u64 (\<lambda>_. True)"
    using cbs_get_u_canonical [of 8] by (simp add: CBS_get_u64_def)
qed

interpretation u64_codec: canonical_codec "\<lambda>v. be_bytes 8 (unat v)" CBS_get_u64 "\<lambda>_. True"
  by (rule u64_canonical)

text \<open>A byte swap is its own inverse and reverses the encoding.\<close>

lemma not_bit_above: "LENGTH('a) \<le> n \<Longrightarrow> \<not> bit (x :: 'a::len word) n"
  using bit_imp_le_length [of x n] by auto

lemma bit_bswap2: "n < 16 \<Longrightarrow> bit (CRYPTO_bswap2 x) n = bit x (8 * (1 - n div 8) + n mod 8)"
proof -
  have "\<forall>n \<in> set [0..<16]. bit (CRYPTO_bswap2 x) n = bit x (8 * (1 - n div 8) + n mod 8)"
    by (simp add: upt_rec CRYPTO_bswap2_def bit_simps not_bit_above)
       (simp add: eval_nat_numeral)?
  then show "n < 16 \<Longrightarrow> ?thesis" by simp
qed

lemma bit_bswap4: "n < 32 \<Longrightarrow> bit (CRYPTO_bswap4 x) n = bit x (8 * (3 - n div 8) + n mod 8)"
proof -
  have "\<forall>n \<in> set [0..<32]. bit (CRYPTO_bswap4 x) n = bit x (8 * (3 - n div 8) + n mod 8)"
    by (simp add: upt_rec CRYPTO_bswap4_def Let_def bit_simps not_bit_above)
       (simp add: eval_nat_numeral)?
  then show "n < 32 \<Longrightarrow> ?thesis" by simp
qed

lemma bit_bswap8: "n < 64 \<Longrightarrow> bit (CRYPTO_bswap8 x) n = bit x (8 * (7 - n div 8) + n mod 8)"
proof -
  have "\<forall>n \<in> set [0..<64]. bit (CRYPTO_bswap8 x) n = bit x (8 * (7 - n div 8) + n mod 8)"
    by (simp add: upt_rec CRYPTO_bswap8_def bit_bswap4 bit_simps not_bit_above)
       (simp add: eval_nat_numeral)?
  then show "n < 64 \<Longrightarrow> ?thesis" by simp
qed

lemma be_bytes_swapped:
  fixes x y :: "'a::len word"
  assumes "\<And>n. n < 8 * k \<Longrightarrow> bit y n = bit x (8 * (k - 1 - n div 8) + n mod 8)"
  shows "be_bytes k (unat y) = rev (be_bytes k (unat x))"
proof (rule nth_equalityI)
  fix i
  assume "i < length (be_bytes k (unat y))"
  then have i: "i < k" by simp
  have "bit (ucast (drop_bit (8 * (k - Suc i)) y) :: u8) j
      = bit (ucast (drop_bit (8 * i) x) :: u8) j" if "j < 8" for j
  proof -
    have "8 * (k - Suc i) + j < 8 * k" using i that by simp
    moreover have "k - 1 - (8 * (k - Suc i) + j) div 8 = i" using i that by simp
    ultimately show ?thesis using that assms [of "8 * (k - Suc i) + j"]
      by (simp add: bit_simps)
  qed
  then have "(ucast (drop_bit (8 * (k - Suc i)) y) :: u8) = ucast (drop_bit (8 * i) x)"
    by (intro bit_word_eqI) simp
  with i show "be_bytes k (unat y) ! i = rev (be_bytes k (unat x)) ! i"
    by (simp add: be_bytes_word rev_nth Suc_diff_Suc)
qed simp

lemma be_bytes_bswap:
  "be_bytes 2 (unat (CRYPTO_bswap2 x)) = rev (be_bytes 2 (unat x))"
  "be_bytes 4 (unat (CRYPTO_bswap4 y)) = rev (be_bytes 4 (unat y))"
  "be_bytes 8 (unat (CRYPTO_bswap8 z)) = rev (be_bytes 8 (unat z))"
  by (rule be_bytes_swapped, simp add: bit_bswap2 bit_bswap4 bit_bswap8)+

lemma bswap_involution [simp]:
  "CRYPTO_bswap2 (CRYPTO_bswap2 x) = x"
  "CRYPTO_bswap4 (CRYPTO_bswap4 y) = y"
  "CRYPTO_bswap8 (CRYPTO_bswap8 z) = z"
proof -
  have arith: "8 * (k - 1 - n div 8) + n mod 8 < 8 * k"
    "8 * (k - 1 - (8 * (k - 1 - n div 8) + n mod 8) div 8) + (8 * (k - 1 - n div 8) + n mod 8) mod 8 = n"
    if "n < 8 * k" for n k :: nat
    using that by (simp_all add: less_mult_imp_div_less)
  show "CRYPTO_bswap2 (CRYPTO_bswap2 x) = x"
    by (rule bit_word_eqI) (use arith [of _ 2] in \<open>simp add: bit_bswap2\<close>)
  show "CRYPTO_bswap4 (CRYPTO_bswap4 y) = y"
    by (rule bit_word_eqI) (use arith [of _ 4] in \<open>simp add: bit_bswap4\<close>)
  show "CRYPTO_bswap8 (CRYPTO_bswap8 z) = z"
    by (rule bit_word_eqI) (use arith [of _ 8] in \<open>simp add: bit_bswap8\<close>)
qed

text \<open>The little-endian readers accept the reversed encoding.\<close>

interpretation u16le_codec: canonical_codec "\<lambda>v. rev (be_bytes 2 (unat v))" CBS_get_u16le "\<lambda>_. True"
  unfolding CBS_get_u16le_def
  by (rule canonical_codec_map [OF u16_canonical, where g = CRYPTO_bswap2])
     (simp_all add: be_bytes_bswap)

interpretation u32le_codec: canonical_codec "\<lambda>v. rev (be_bytes 4 (unat v))" CBS_get_u32le "\<lambda>_. True"
  unfolding CBS_get_u32le_def
  by (rule canonical_codec_map [OF u32_canonical, where g = CRYPTO_bswap4])
     (simp_all add: be_bytes_bswap)

interpretation u64le_codec: canonical_codec "\<lambda>v. rev (be_bytes 8 (unat v))" CBS_get_u64le "\<lambda>_. True"
  unfolding CBS_get_u64le_def
  by (rule canonical_codec_map [OF u64_canonical [unfolded CBS_get_u64_def], where g = CRYPTO_bswap8])
     (simp_all add: be_bytes_bswap)

end
