(* ===== verification/Der.thy ===== *)
theory Der
  imports Cbs
begin

text \<open>
  What the element parser of \<open>cbs.c\<close> accepts: the Distinguished Encoding Rules as a
  specification (\<open>base128\<close>, \<open>der_tag\<close>, \<open>der_length\<close>, \<open>der_tlv\<close>), and the proof that
  \<open>CBS_get_any_asn1\<close> is the canonical decoder of that format: it returns a tag and a body exactly
  when its input starts with their one encoding.
\<close>

lemma ucast_ucast_back:
  assumes "unat x < 2 ^ LENGTH('b)"
  shows "ucast (ucast (x :: 'a::len word) :: 'b::len word) = x"
proof -
  have b: "unat (ucast x :: 'b word) = unat x"
    using assms by (rule unat_ucast_small)
  then have "unat (ucast (ucast x :: 'b word) :: 'a word) = unat (ucast x :: 'b word)"
    by (intro unat_ucast_small) (simp only: b unsigned_less)
  with b show ?thesis by (simp only: word_unat_eq_iff)
qed

section \<open>Base-128 integers\<close>

text \<open>The digits before the last, each with the continuation bit; none for zero.\<close>

fun base128_hi :: "nat \<Rightarrow> bytes" where
  "base128_hi v = (if v = 0 then [] else base128_hi (v div 128) @ [word_of_nat (128 + v mod 128)])"

declare base128_hi.simps [simp del]

definition base128 :: "nat \<Rightarrow> bytes" where
  "base128 v = base128_hi (v div 128) @ [word_of_nat (v mod 128)]"

lemma base128_hi_0 [simp]: "base128_hi 0 = []"
  by (simp add: base128_hi.simps)

lemma base128_hi_pos:
  "v \<noteq> 0 \<Longrightarrow> base128_hi v = base128_hi (v div 128) @ [word_of_nat (128 + v mod 128)]"
  by (subst base128_hi.simps) simp

lemma base128_ne [simp]: "base128 v \<noteq> []"
  by (simp add: base128_def)

text \<open>One round of the parser's loop, on numbers.\<close>

lemma unat_shift7_or:
  fixes v :: u64 and b :: u8
  assumes "unat v < 2 ^ 57"
  shows "unat (push_bit 7 v OR ucast (b AND 0x7f)) = unat v * 128 + unat b mod 128"
proof -
  have b: "unat (ucast (b AND 0x7f) :: u64) = unat b mod 128"
    by (simp add: unat_ucast_up unat_and_7f)
  then have "unat (ucast (b AND 0x7f) :: u64) < 2 ^ 7" by simp
  then have "push_bit 7 v OR ucast (b AND 0x7f) = v * 2 ^ 7 + ucast (b AND 0x7f)"
    by (simp only: push_bit_or_disjoint) (simp add: push_bit_eq_mult)
  moreover have "unat v * 128 + unat b mod 128 < 2 ^ 64"
    using assms mod_less_divisor [of 128 "unat b"] by simp
  ultimately show ?thesis
    using b by (simp add: unat_word_ariths)
qed

lemma parse_base128_step:
  "parse_base128_loop v (b # c) =
     (if 2 ^ 57 \<le> unat v \<or> (v = 0 \<and> unat b = 128) then (None, c)
      else if 128 \<le> unat b
        then parse_base128_loop (word_of_nat (unat v * 128 + unat b mod 128)) c
        else (Some (word_of_nat (unat v * 128 + unat b mod 128)), c))"
proof -
  have b: "b = 0x80 \<longleftrightarrow> unat b = 128" by (simp add: word_unat_eq_iff)
  have "push_bit 7 v OR ucast (b AND 0x7f) = word_of_nat (unat v * 128 + unat b mod 128)"
    if "unat v < 2 ^ 57"
    using unat_shift7_or [OF that, of b] by (metis word_of_nat_unat)
  then show ?thesis
    by (simp add: drop_bit_eq_0_iff and_80_eq_0 b Let_def not_le not_less)
qed

declare parse_base128_loop.simps(2) [simp del]

lemma parse_base128_hi:
  "v < 2 ^ 57 \<Longrightarrow> parse_base128_loop 0 (base128_hi v @ c) = parse_base128_loop (word_of_nat v) c"
proof (induction v arbitrary: c rule: base128_hi.induct)
  case (1 v)
  show ?case
  proof (cases "v = 0")
    case False
    let ?b = "word_of_nat (128 + v mod 128) :: u8"
    have b: "unat ?b = 128 + v mod 128"
      by (simp add: unat_byte_of_nat del: of_nat_add)
    have "parse_base128_loop 0 (base128_hi v @ c)
        = parse_base128_loop (word_of_nat (v div 128)) (?b # c)"
      using 1 False by (simp add: base128_hi_pos [of v] del: of_nat_add)
    also have "unat (word_of_nat (v div 128) :: u64) = v div 128"
      using 1(2) by (simp add: unat_of_nat)
    then have "parse_base128_loop (word_of_nat (v div 128)) (?b # c) = parse_base128_loop (word_of_nat v) c"
      using 1(2) False b by (auto simp: parse_base128_step simp del: of_nat_add)
    finally show ?thesis .
  qed simp
qed

lemma parse_base128_base128:
  assumes "v < 2 ^ 64"
  shows "parse_base128_integer (base128 v @ c) = (Some (word_of_nat v), c)"
proof -
  let ?b = "word_of_nat (v mod 128) :: u8"
  have b: "unat ?b = v mod 128" by (simp add: unat_byte_of_nat)
  have m: "\<not> 128 \<le> v mod 128" "v mod 128 \<noteq> 128" using mod_less_divisor [of 128 v] by linarith+
  have hi: "v div 128 < 2 ^ 57" using assms by simp
  then have w: "unat (word_of_nat (v div 128) :: u64) = v div 128"
    by (simp add: unat_of_nat)
  have "parse_base128_integer (base128 v @ c) = parse_base128_loop (word_of_nat (v div 128)) (?b # c)"
    using hi by (simp add: parse_base128_integer_def base128_def parse_base128_hi)
  also have "\<dots> = (Some (word_of_nat v), c)"
    using hi w b by (simp add: parse_base128_step m)
  finally show ?thesis .
qed

lemma parse_base128_loop_canonical:
  "parse_base128_loop v c = (Some r, rest) \<Longrightarrow> base128_hi (unat v) @ c = base128 (unat r) @ rest"
proof (induction c arbitrary: v)
  case (Cons b c)
  let ?v' = "unat v * 128 + unat b mod 128"
  from Cons.prems have v: "unat v < 2 ^ 57" and z: "\<not> (v = 0 \<and> unat b = 128)"
    by (auto simp: parse_base128_step split: if_splits)
  have v': "unat (word_of_nat ?v' :: u64) = ?v'"
    using v mod_less_divisor [of 128 "unat b"]
    by (simp add: unat_of_nat del: of_nat_add of_nat_mult)
  have b256: "unat b < 256" by (rule unat_byte_less)
  show ?case
  proof (cases "128 \<le> unat b")
    case True
    with Cons.prems v z have "parse_base128_loop (word_of_nat ?v') c = (Some r, rest)"
      by (simp add: parse_base128_step)
    then have IH: "base128_hi ?v' @ c = base128 (unat r) @ rest"
      using Cons.IH v' by metis
    have "128 + unat b mod 128 = unat b" using True by (simp add: byte_mod_128)
    then have "word_of_nat (128 + unat b mod 128) = b"
      by (metis word_of_nat_unat)
    moreover have "?v' \<noteq> 0"
      using z True unat_gt_0 [of v] by (cases "v = 0") (auto simp: byte_mod_128)
    ultimately have "base128_hi ?v' = base128_hi (unat v) @ [b]"
      by (subst base128_hi_pos) (simp_all del: of_nat_add)
    with IH show ?thesis by simp
  next
    case False
    with Cons.prems v z have r: "r = word_of_nat ?v'" and "rest = c"
      by (auto simp: parse_base128_step)
    moreover have "base128 ?v' = base128_hi (unat v) @ [b]"
      using False by (simp add: base128_def)
    ultimately show ?thesis using v' by simp
  qed
qed simp

interpretation base128_codec: canonical_codec "\<lambda>v. base128 (unat v)" parse_base128_integer "\<lambda>_. True"
proof unfold_locales
  fix v :: u64 and r
  show "parse_base128_integer (base128 (unat v) @ r) = (Some v, r)"
    using parse_base128_base128 [OF unat_u64_less] by simp
next
  fix c v r
  assume "parse_base128_integer c = (Some v, r)"
  then show "True \<and> c = base128 (unat v) @ r"
    using parse_base128_loop_canonical [of 0 c v r] by (simp add: parse_base128_integer_def)
qed

section \<open>Tags\<close>

text \<open>
  A tag in memory: class and constructed bit in the top three bits, the number below. The low form
  holds a number below 31 in the first byte, the high form follows it in base 128.
\<close>

definition tag_bits :: "u32 \<Rightarrow> u8" where
  "tag_bits t = ucast (drop_bit 24 t) AND 0xe0"

definition tag_num :: "u32 \<Rightarrow> u32" where
  "tag_num t = t AND CBS_ASN1_TAG_NUMBER_MASK"

definition der_tag :: "u32 \<Rightarrow> bytes" where
  "der_tag t =
     (if 31 \<le> unat (tag_num t) then (tag_bits t OR 0x1f) # base128 (unat (tag_num t))
      else [tag_bits t OR ucast (tag_num t)])"

lemma bit_consts:
  "bit (0xe0 :: int) i \<longleftrightarrow> 5 \<le> i \<and> i < 8"
  "bit (0x1f :: int) i \<longleftrightarrow> i < 5"
  "bit CBS_ASN1_TAG_NUMBER_MASK i \<longleftrightarrow> i < 29"
proof -
  have eqs: "(0xe0 :: int) = push_bit 5 (mask 3)" "(0x1f :: int) = mask 5"
    "CBS_ASN1_TAG_NUMBER_MASK = mask 29"
    by (simp_all add: mask_eq_exp_minus_1 CBS_ASN1_TAG_NUMBER_MASK_def)
  show "bit (0xe0 :: int) i \<longleftrightarrow> 5 \<le> i \<and> i < 8" "bit (0x1f :: int) i \<longleftrightarrow> i < 5"
    "bit CBS_ASN1_TAG_NUMBER_MASK i \<longleftrightarrow> i < 29"
    unfolding eqs by (auto simp: bit_simps)
qed

lemmas tag_bit_simps = bit_eq_iff bit_simps bit_consts

lemma tag_join: "push_bit 24 (ucast (tag_bits t)) OR tag_num t = t"
  by (auto simp: tag_bits_def tag_num_def tag_bit_simps)

lemma tag_split:
  assumes "b AND 0xe0 = b" and "n AND CBS_ASN1_TAG_NUMBER_MASK = n"
  shows "tag_bits (push_bit 24 (ucast b) OR n) = b" and "tag_num (push_bit 24 (ucast b) OR n) = n"
proof -
  have b: "bit b i \<Longrightarrow> 5 \<le> i \<and> i < 8" for i
    using assms(1) by (metis bit_and_iff bit_consts(1) bit_numeral_word_iff)
  have n: "bit n i \<Longrightarrow> i < 29" for i
    using assms(2) by (metis bit_and_iff bit_consts(3))
  show "tag_bits (push_bit 24 (ucast b) OR n) = b" "tag_num (push_bit 24 (ucast b) OR n) = n"
    by (auto simp: tag_bits_def tag_num_def tag_bit_simps dest: b n)
qed

lemma unat_tag_num: "unat (tag_num t) = unat t mod 2 ^ 29"
proof -
  have "CBS_ASN1_TAG_NUMBER_MASK = mask 29"
    by (simp add: mask_eq_exp_minus_1 CBS_ASN1_TAG_NUMBER_MASK_def)
  then show ?thesis unfolding tag_num_def by (metis unat_and_mask)
qed

lemma unat_and_1f: "unat ((b :: u8) AND 0x1f) = unat b mod 32"
proof -
  have "(0x1f :: u8) = mask 5" by (simp add: mask_eq_exp_minus_1)
  then show ?thesis by (simp only: unat_and_mask) simp
qed

text \<open>The first byte holds the two fields.\<close>

lemma first_byte:
  assumes "b AND 0xe0 = b" and "n AND 0x1f = n"
  shows "(b OR n) AND (0xe0 :: u8) = b" and "(b OR n) AND 0x1f = n"
  using assms by (auto simp: tag_bit_simps)

lemma first_byte_join: "((b :: u8) AND 0xe0) OR (b AND 0x1f) = b"
  by (auto simp: tag_bit_simps)

lemma ucast_and_e0: "ucast (b :: u8) AND (0xe0 :: u32) = ucast (b AND 0xe0)"
  by (auto simp: tag_bit_simps)

lemma tag_bits_and_e0 [simp]: "tag_bits t AND 0xe0 = tag_bits t"
  by (auto simp: tag_bits_def tag_bit_simps)

text \<open>The parser, with its fields named.\<close>

lemma parse_asn1_tag_Cons:
  "parse_asn1_tag (b # c) =
     (let t = push_bit 24 (ucast (b AND 0xe0)) in
      if unat b mod 32 = 31
      then rbind parse_base128_integer (\<lambda>v.
             if 2 ^ 29 \<le> unat v \<or> unat v < 31 then rfail else rret (t OR ucast v)) c
      else (Some (t OR ucast (b AND 0x1f)), c))"
proof -
  have "(ucast (b AND 0x1f) :: u32) = 0x1f \<longleftrightarrow> unat b mod 32 = 31"
    by (simp add: word_unat_eq_iff unat_ucast_up unat_and_1f)
  moreover have "(v > ucast CBS_ASN1_TAG_NUMBER_MASK) = (2 ^ 29 \<le> unat v)" for v :: u64
    by (simp add: word_less_nat_alt CBS_ASN1_TAG_NUMBER_MASK_def) (simp add: less_eq_Suc_le)
  ultimately show ?thesis
    by (simp add: parse_asn1_tag_def ucast_and_e0 Let_def word_less_nat_alt)
qed

lemma parse_asn1_tag_der_tag: "parse_asn1_tag (der_tag t @ r) = (Some t, r)"
proof (cases "31 \<le> unat (tag_num t)")
  case True
  have fb: "(tag_bits t OR 0x1f) AND 0xe0 = tag_bits t" "(tag_bits t OR 0x1f) AND 0x1f = 0x1f"
    by (rule first_byte; simp)+
  then have "unat (tag_bits t OR 0x1f) mod 32 = 31"
    using unat_and_1f [of "tag_bits t OR 0x1f"] by simp
  moreover have num: "unat (tag_num t) < 2 ^ 29" by (simp add: unat_tag_num)
  moreover have "parse_base128_integer (base128 (unat (tag_num t)) @ r) = (Some (ucast (tag_num t)), r)"
    using base128_codec.dec_enc [of "ucast (tag_num t)" r] by (simp add: unat_ucast_up)
  moreover have "ucast (ucast (tag_num t) :: u64) = tag_num t"
    by (rule ucast_ucast_back) (use num in simp)
  ultimately show ?thesis
    using True fb by (simp add: der_tag_def parse_asn1_tag_Cons Let_def unat_ucast_up tag_join)
next
  case False
  have n: "ucast (tag_num t) AND 0x1f = (ucast (tag_num t) :: u8)" and
    u: "unat (ucast (tag_num t) :: u8) = unat (tag_num t)"
  proof -
    show u: "unat (ucast (tag_num t) :: u8) = unat (tag_num t)"
      using False by (intro unat_ucast_small) simp
    show "ucast (tag_num t) AND 0x1f = (ucast (tag_num t) :: u8)"
      using False u by (simp add: word_unat_eq_iff unat_and_1f)
  qed
  let ?b = "tag_bits t OR ucast (tag_num t)"
  have fb: "?b AND 0xe0 = tag_bits t" "?b AND 0x1f = ucast (tag_num t)"
    by (rule first_byte; simp add: n)+
  then have "unat ?b mod 32 = unat (tag_num t)"
    using unat_and_1f [of ?b] u by simp
  moreover have "ucast (ucast (tag_num t) :: u8) = tag_num t"
    using u by (simp add: word_unat_eq_iff unat_ucast_up)
  ultimately show ?thesis
    using False fb by (simp add: der_tag_def parse_asn1_tag_Cons Let_def tag_join)
qed

lemma parse_asn1_tag_canonical:
  assumes "parse_asn1_tag c = (Some t, r)"
  shows "c = der_tag t @ r"
proof (cases c)
  case Nil
  with assms show ?thesis by (simp add: parse_asn1_tag_def rbind_def)
next
  case (Cons b c')
  have e0: "(b AND 0xe0) AND 0xe0 = b AND 0xe0" by (simp add: and.assoc)
  have mask: "n AND CBS_ASN1_TAG_NUMBER_MASK = n" if "unat n < 2 ^ 29" for n
    using that unat_tag_num [of n] by (simp add: word_unat_eq_iff tag_num_def)
  note split = tag_split [OF e0 mask]
  show ?thesis
  proof (cases "unat b mod 32 = 31")
    case True
    with assms Cons obtain v c'' where v: "parse_base128_integer c' = (Some v, c'')"
      and v1: "unat v < 2 ^ 29" and v2: "31 \<le> unat v" and "c'' = r"
      and t: "t = push_bit 24 (ucast (b AND 0xe0)) OR ucast v"
      by (auto simp: parse_asn1_tag_Cons Let_def rbind_eq_Some split: if_splits)
    have uv: "unat (ucast v :: u32) = unat v" using v1 by (intro unat_ucast_small) simp
    with v1 have "unat (ucast v :: u32) < 2 ^ 29" by simp
    note fields = split [OF this, folded t]
    have "b AND 0x1f = 0x1f" using True by (simp add: word_unat_eq_iff unat_and_1f)
    then have "(b AND 0xe0) OR 0x1f = b" by (metis first_byte_join)
    with fields uv v2 have "der_tag t = b # base128 (unat v)" by (simp add: der_tag_def)
    with v \<open>c'' = r\<close> Cons show ?thesis by (simp add: base128_codec.dec_iff)
  next
    case False
    with assms Cons have t: "t = push_bit 24 (ucast (b AND 0xe0)) OR ucast (b AND 0x1f)" and "c' = r"
      by (auto simp: parse_asn1_tag_Cons Let_def)
    have u: "unat (ucast (b AND 0x1f) :: u32) = unat b mod 32"
      by (simp add: unat_ucast_up unat_and_1f)
    have lt: "unat b mod 32 < 31" using False mod_less_divisor [of 32 "unat b"] by linarith
    with u have "unat (ucast (b AND 0x1f) :: u32) < 2 ^ 29" by simp
    note fields = split [OF this, folded t]
    have "ucast (ucast (b AND 0x1f) :: u32) = b AND 0x1f"
      by (rule ucast_ucast_back) (use unat_byte_less [of "b AND 0x1f"] in simp)
    with fields u False lt Cons \<open>c' = r\<close> show ?thesis
      by (simp add: der_tag_def first_byte_join)
  qed
qed

interpretation tag_codec: canonical_codec der_tag parse_asn1_tag "\<lambda>_. True"
  by unfold_locales (simp_all add: parse_asn1_tag_der_tag parse_asn1_tag_canonical)

section \<open>Lengths and elements\<close>

definition len_octets :: "nat \<Rightarrow> nat" where
  "len_octets n = (if n > 0xffffff then 4 else if n > 0xffff then 3 else if n > 0xff then 2 else 1)"

definition der_length :: "nat \<Rightarrow> bytes" where
  "der_length n =
     (if n < 128 then [word_of_nat n]
      else word_of_nat (128 + len_octets n) # be_bytes (len_octets n) n)"

definition der_tlv :: "u32 \<Rightarrow> bytes \<Rightarrow> bytes" where
  "der_tlv t body = der_tag t @ der_length (length body) @ body"

definition der_header_len :: "u32 \<Rightarrow> bytes \<Rightarrow> nat" where
  "der_header_len t body = length (der_tag t) + length (der_length (length body))"

lemma length_base128_hi: "v < 128 ^ k \<Longrightarrow> length (base128_hi v) \<le> k"
proof (induction k arbitrary: v)
  case (Suc k)
  then show ?case
    by (cases "v = 0") (simp_all add: base128_hi_pos less_mult_imp_div_less mult.commute)
qed simp

lemma length_der_tag: "length (der_tag t) \<le> 6" "der_tag t \<noteq> []"
proof -
  have "unat (tag_num t) div 128 < 128 ^ 4"
    by (rule less_mult_imp_div_less) (simp add: unat_tag_num less_trans [OF mod_less_divisor])
  then show "length (der_tag t) \<le> 6"
    using length_base128_hi [of "unat (tag_num t) div 128" 4] by (simp add: der_tag_def base128_def)
qed (simp add: der_tag_def)

lemma len_octets_bounds:
  assumes "128 \<le> n" and "n < 2 ^ 32"
  shows "1 \<le> len_octets n" and "len_octets n \<le> 4"
    and "256 ^ (len_octets n - 1) \<le> n" and "n < 256 ^ len_octets n"
  using assms by (simp_all add: len_octets_def)

lemma len_octets_unique:
  assumes "1 \<le> k" and "k \<le> 4" and "256 ^ (k - 1) \<le> n" and "n < 256 ^ k"
  shows "len_octets n = k"
proof -
  from assms(1,2) consider "k = 1" | "k = 2" | "k = 3" | "k = 4" by linarith
  then show ?thesis using assms(3,4) by cases (simp_all add: len_octets_def)
qed

lemma length_der_length: "length (der_length n) \<le> 5" "der_length n \<noteq> []"
  by (simp_all add: der_length_def len_octets_def)

text \<open>The two outcomes of the element parser: a DER element, or, for BER, an indefinite header.\<close>

definition der_element :: "cbs \<Rightarrow> cbs \<Rightarrow> u32 \<Rightarrow> nat \<Rightarrow> cbs \<Rightarrow> bool" where
  "der_element c out t hl r \<longleftrightarrow>
     (\<exists>body. length body < 2 ^ 32 \<and> out = der_tlv t body \<and> hl = der_header_len t body \<and> c = out @ r)"

definition indefinite_element :: "cbs \<Rightarrow> cbs \<Rightarrow> u32 \<Rightarrow> nat \<Rightarrow> cbs \<Rightarrow> bool" where
  "indefinite_element c out t hl r \<longleftrightarrow>
     t AND CBS_ASN1_CONSTRUCTED \<noteq> 0 \<and> out = der_tag t @ [0x80] \<and> hl = length out \<and> c = out @ r"

lemma long_length_byte:
  assumes "unat lb = 128 + k" and "1 \<le> k" and "k \<le> 4"
    and "256 ^ (k - 1) \<le> n" and "n < 256 ^ k" and "128 \<le> n"
  shows "der_length n = lb # be_bytes k n"
proof -
  have "word_of_nat (128 + k) = lb" using assms(1) by (metis word_of_nat_unat)
  then show ?thesis
    using assms len_octets_unique [OF assms(2-5)] by (simp add: der_length_def del: of_nat_add)
qed

lemma element_intro:
  assumes c: "c = der_tag t @ lb # h" and lb: "der_length n = lb # oct" and h: "h = oct @ h'"
    and n: "n < 2 ^ 32" "n \<le> length h'"
    and out: "out = take (length (der_tag t) + Suc (length oct) + n) c"
    and r: "r = drop (length (der_tag t) + Suc (length oct) + n) c"
  shows "der_element c out t (length (der_tag t) + Suc (length oct)) r"
proof -
  let ?body = "take n h'"
  have "length ?body = n" using n by simp
  moreover have "out = der_tag t @ lb # oct @ ?body" using c h out by simp
  moreover have "r = drop n h'" using c h r by simp
  ultimately show ?thesis
    unfolding der_element_def der_tlv_def der_header_len_def
    using n by (intro exI [of _ ?body]) (simp add: lb c h)
qed

lemma CBS_get_bytes_out:
  "rbind (CBS_get_bytes n) (\<lambda>out. rret (out, t, hl)) c = (Some (out', t', hl'), r) \<longleftrightarrow>
     n \<le> length c \<and> out' = take n c \<and> r = drop n c \<and> t' = t \<and> hl' = hl"
  by (auto simp: CBS_get_bytes_eq_cbs_get rbind_def cbs_get_def)

lemma drop_bit_octets:
  "drop_bit ((k - Suc 0) * 8) (v :: u64) = 0 \<longleftrightarrow> unat v < 256 ^ (k - Suc 0)"
proof -
  have "(2::nat) ^ ((k - Suc 0) * 8) = 256 ^ (k - Suc 0)"
    using power_mult [of "2::nat" 8 "k - Suc 0"] by (simp add: mult.commute)
  then show ?thesis by (simp only: drop_bit_eq_0_iff)
qed

text \<open>The parser, once the tag has been read, as a condition on the length octets.\<close>

lemma element_after_tag:
  fixes t c lb h
  defines "hl \<equiv> length (der_tag t) + 1" and "k \<equiv> unat (lb AND 0x7f)"
  assumes c: "c = der_tag t @ lb # h"
  shows "cbs_get_any_asn1_element ber_ok c =
    (if unat lb < 128 then
       rbind (CBS_get_bytes (unat lb + hl)) (\<lambda>out. rret (out, t, hl)) c
     else if ber_ok \<and> t AND CBS_ASN1_CONSTRUCTED \<noteq> 0 \<and> k = 0 then
       rbind (CBS_get_bytes hl) (\<lambda>out. rret (out, t, hl)) c
     else if k = 0 \<or> k > 4 \<or> length h < k then (None, c)
     else let n = be_nat (take k h) in
       if n < 128 \<or> n < 256 ^ (k - 1) then (None, c)
       else rbind (CBS_get_bytes (n + hl + k)) (\<lambda>out. rret (out, t, hl + k)) c)"
proof -
  have hl: "CBS_len c - CBS_len h = hl" by (simp add: c hl_def CBS_len_def)
  have hl7: "hl \<le> 7" using length_der_tag(1) [of t] by (simp add: hl_def)
  have small: "size_add (unat lb) hl = unat lb + hl"
    using unat_byte_less [of lb] hl7 by (intro size_add_exact) (simp add: size_max_def)
  have nk: "be_nat (take k h) < 2 ^ 32" if "k \<le> 4" "\<not> length h < k"
  proof -
    have "be_nat (take k h) < 256 ^ k" using be_nat_less [of "take k h"] that by (simp add: min_def split: if_splits)
    also have "(256::nat) ^ k \<le> 256 ^ 4" using that by (intro power_increasing) auto
    finally show ?thesis by simp
  qed
  have sums: "size_add (size_add (be_nat (take k h)) hl) k = be_nat (take k h) + hl + k"
    "size_add (be_nat (take k h)) (hl + k) = be_nat (take k h) + hl + k"
    "size_add hl k = hl + k" if "k \<le> 4" "\<not> length h < k"
    using nk [OF that] that hl7 by (simp_all add: size_add_def size_max_def)
  have get: "cbs_get_u k h = (if length h < k then (None, h)
      else (Some (word_of_nat (be_nat (take k h))), drop k h))" if "k \<le> 4"
    using that cbs_get_u_append [of "take k h" k "drop k h"]
    by (auto simp: cbs_get_u_def rbind_def cbs_get_def)
  have un: "unat (word_of_nat (be_nat (take k h)) :: u64) = be_nat (take k h)"
    if "k \<le> 4" "\<not> length h < k"
    using nk [OF that] by (simp add: unat_of_nat)
  show ?thesis
    unfolding cbs_get_any_asn1_element_def c parse_asn1_tag_der_tag
    unfolding c [symmetric]
    by (simp add: hl small k_def [symmetric] and_80_eq_0 get sums un Let_def drop_bit_octets
        word_less_nat_alt not_less)
qed

lemma element_tag_split:
  assumes "cbs_get_any_asn1_element ok c = (Some (out, t, hl), r)"
  obtains lb h where "c = der_tag t @ lb # h"
proof -
  from assms obtain t' h where h: "parse_asn1_tag c = (Some t', h)"
    by (auto simp: cbs_get_any_asn1_element_def split: prod.splits option.splits)
  with assms obtain lb h' where "CBS_get_u8 h = (Some lb, h')"
    by (auto simp: cbs_get_any_asn1_element_def split: prod.splits option.splits)
  then have c: "c = der_tag t' @ lb # h'"
    using h by (simp add: tag_codec.dec_iff reader_simps)
  have "t' = t"
    using assms unfolding element_after_tag [OF c]
    by (auto simp: CBS_get_bytes_out Let_def split: if_splits)
  with c show ?thesis using that by simp
qed

lemma element_sound:
  assumes "cbs_get_any_asn1_element ok c = (Some (out, t, hl), r)"
  shows "der_element c out t hl r \<or> ok \<and> indefinite_element c out t hl r"
proof -
  from assms obtain lb h where c: "c = der_tag t @ lb # h" by (rule element_tag_split)
  define k where "k = unat (lb AND 0x7f)"
  note eq = assms [unfolded element_after_tag [OF c], folded k_def]
  consider "unat lb < 128" | "128 \<le> unat lb" "k = 0" | "128 \<le> unat lb" "k \<noteq> 0" by linarith
  then show ?thesis
  proof cases
    case 1
    have "der_length (unat lb) = lb # []" using 1 by (simp add: der_length_def)
    moreover have "unat lb \<le> length h" "out = take (length (der_tag t) + Suc (length []) + unat lb) c"
      "r = drop (length (der_tag t) + Suc (length []) + unat lb) c" "hl = length (der_tag t) + Suc (length [])"
      using eq 1 c by (simp_all add: CBS_get_bytes_out add.commute add.left_commute)
    ultimately have "der_element c out t hl r"
      using element_intro [OF c, of "unat lb" "[]" h out r] 1 by simp
    then show ?thesis ..
  next
    case 2
    then have lb: "lb = 0x80"
      by (simp add: k_def unat_and_7f byte_mod_128 word_unat_eq_iff)
    with eq 2 c have "ok" "indefinite_element c out t hl r"
      by (auto simp: CBS_get_bytes_out indefinite_element_def split: if_splits)
    then show ?thesis by blast
  next
    case 3
    define n where "n = be_nat (take k h)"
    have lb: "unat lb = 128 + k" using 3 by (simp add: k_def unat_and_7f byte_mod_128)
    from eq 3 have k: "1 \<le> k" "k \<le> 4" "k \<le> length h" "128 \<le> n" "256 ^ (k - 1) \<le> n"
      and out: "n + (length (der_tag t) + 1) + k \<le> length c"
        "out = take (n + (length (der_tag t) + 1) + k) c"
        "r = drop (n + (length (der_tag t) + 1) + k) c" "hl = length (der_tag t) + 1 + k"
      by (auto simp: CBS_get_bytes_out Let_def n_def split: if_splits)
    have len: "length (take k h) = k" using k by simp
    have "n < 256 ^ k" using be_nat_less [of "take k h"] len by (simp add: n_def)
    moreover have "(256::nat) ^ k \<le> 256 ^ 4" using k by (intro power_increasing) auto
    ultimately have n32: "n < 2 ^ 32" by simp
    have "der_length n = lb # be_bytes k n"
      using long_length_byte [OF lb k(1,2,5) \<open>n < 256 ^ k\<close> k(4)] .
    also have "be_bytes k n = take k h" using len by (simp add: n_def)
    finally have "der_length n = lb # take k h" .
    moreover have "n \<le> length (drop k h)" using out(1) c k by simp
    ultimately have "der_element c out t (length (der_tag t) + Suc (length (take k h))) r"
      using element_intro [OF c, of n "take k h" "drop k h" out r] n32 out len
      by (simp add: add.commute add.left_commute)
    then show ?thesis using out(4) len by simp
  qed
qed

lemma element_complete:
  assumes "der_element c out t hl r"
  shows "cbs_get_any_asn1_element ok c = (Some (out, t, hl), r)"
proof -
  from assms obtain body where n32: "length body < 2 ^ 32" and out: "out = der_tlv t body"
    and hl: "hl = der_header_len t body" and c: "c = out @ r"
    by (auto simp: der_element_def)
  define n where "n = length body"
  show ?thesis
  proof (cases "n < 128")
    case True
    then have u: "unat (word_of_nat n :: u8) = n" by (simp add: unat_of_nat)
    have c': "c = der_tag t @ word_of_nat n # (body @ r)"
      using c out True by (simp add: der_tlv_def der_length_def n_def)
    show ?thesis
      unfolding element_after_tag [OF c'] using True u c out hl
      by (simp add: CBS_get_bytes_out der_tlv_def der_header_len_def der_length_def n_def)
  next
    case False
    let ?k = "len_octets n"
    note b = len_octets_bounds [of n, OF _ n32 [folded n_def]]
    let ?lb = "word_of_nat (128 + ?k) :: u8"
    have k: "1 \<le> ?k" "?k \<le> 4" "256 ^ (?k - 1) \<le> n" "n < 256 ^ ?k" using b False by simp_all
    then have u: "unat ?lb = 128 + ?k" by (simp add: unat_of_nat del: of_nat_add)
    then have k7: "unat (?lb AND 0x7f) = ?k" using k by (simp only: unat_and_7f) simp
    have c': "c = der_tag t @ ?lb # (be_bytes ?k n @ body @ r)"
      using c out False by (simp add: der_tlv_def der_length_def n_def)
    show ?thesis
      unfolding element_after_tag [OF c'] k7 using False u k c out hl
      by (simp add: CBS_get_bytes_out der_tlv_def der_header_len_def der_length_def n_def
          Let_def del: of_nat_add)
  qed
qed

lemma indefinite_complete:
  assumes "indefinite_element c out t hl r"
  shows "cbs_get_any_asn1_element True c = (Some (out, t, hl), r)"
proof -
  from assms have c: "c = der_tag t @ 0x80 # r" and t: "t AND CBS_ASN1_CONSTRUCTED \<noteq> 0"
    and out: "out = der_tag t @ [0x80]" "hl = length out"
    by (simp_all add: indefinite_element_def)
  show ?thesis
    unfolding element_after_tag [OF c] using t out
    by (simp add: CBS_get_bytes_out c unat_and_7f)
qed

lemma element_iff:
  "cbs_get_any_asn1_element ok c = (Some (out, t, hl), r) \<longleftrightarrow>
     der_element c out t hl r \<or> ok \<and> indefinite_element c out t hl r"
proof
  assume "der_element c out t hl r \<or> ok \<and> indefinite_element c out t hl r"
  then show "cbs_get_any_asn1_element ok c = (Some (out, t, hl), r)"
    by (cases ok) (auto intro: element_complete indefinite_complete)
qed (rule element_sound)

text \<open>On failure the element parser leaves its \<open>CBS\<close> alone: it works on a copy.\<close>

lemma get_bytes_failure_keeps:
  "fst (rbind (CBS_get_bytes n) (\<lambda>out. rret (out, t, hl)) c) = None \<Longrightarrow>
   snd (rbind (CBS_get_bytes n) (\<lambda>out. rret (out, t, hl)) c) = c"
  by (auto simp: CBS_get_bytes_eq_cbs_get rbind_def cbs_get_def split: if_splits)

lemma element_failure_keeps:
  assumes "fst (cbs_get_any_asn1_element ok c) = None"
  shows "snd (cbs_get_any_asn1_element ok c) = c"
proof (cases "\<exists>t lb h. c = der_tag t @ lb # h")
  case True
  then obtain t lb h where c: "c = der_tag t @ lb # h" by blast
  show ?thesis
    using assms unfolding element_after_tag [OF c]
    by (simp only: Let_def split: if_split_asm) (simp_all add: get_bytes_failure_keeps)
next
  case False
  show ?thesis
  proof (cases "parse_asn1_tag c")
    case (Pair x h)
    show ?thesis
    proof (cases x)
      case None
      with Pair show ?thesis by (simp add: cbs_get_any_asn1_element_def)
    next
      case (Some t)
      with Pair have c: "c = der_tag t @ h" by (simp add: tag_codec.dec_iff)
      with False have "h = []" by (cases h) auto
      with Pair Some show ?thesis by (simp add: cbs_get_any_asn1_element_def)
    qed
  qed
qed

lemma der_header_len_ge: "2 \<le> der_header_len t body"
proof -
  have "1 \<le> length (der_tag t)" using length_der_tag(2) [of t] by (cases "der_tag t") auto
  moreover have "1 \<le> length (der_length (length body))"
    using length_der_length(2) [of "length body"] by (cases "der_length (length body)") auto
  ultimately show ?thesis by (simp add: der_header_len_def)
qed

lemma length_der_tlv: "length (der_tlv t body) = der_header_len t body + length body"
  by (simp add: der_tlv_def der_header_len_def)

lemma element_decreases:
  assumes "cbs_get_any_asn1_element ok c = (Some (out, t, hl), r)"
  shows "c = out @ r" and "hl \<le> length out" and "2 \<le> hl"
proof -
  have t: "1 \<le> length (der_tag t)" using length_der_tag(2) [of t] by (cases "der_tag t") auto
  from assms t show "c = out @ r" "hl \<le> length out" "2 \<le> hl"
    using der_header_len_ge [of t]
    by (auto simp: element_iff der_element_def indefinite_element_def length_der_tlv)
qed

section \<open>The element readers as codecs\<close>

lemma drop_der_header [simp]: "drop (der_header_len t body) (der_tlv t body) = body"
  by (simp add: der_tlv_def der_header_len_def)

lemma der_header_le [simp]: "\<not> length (der_tlv t body) < der_header_len t body"
  by (simp add: length_der_tlv)

interpretation der_codec: canonical_codec
  "\<lambda>(t, body). der_tlv t body" CBS_get_any_asn1 "\<lambda>(t, body). length body < 2 ^ 32"
proof unfold_locales
  fix a :: "u32 \<times> cbs" and r
  obtain t body where a: "a = (t, body)" by (cases a)
  assume "case a of (t, body) \<Rightarrow> length body < 2 ^ 32"
  then have "der_element (der_tlv t body @ r) (der_tlv t body) t (der_header_len t body) r"
    by (auto simp: a der_element_def)
  then show "CBS_get_any_asn1 ((case a of (t, body) \<Rightarrow> der_tlv t body) @ r) = (Some a, r)"
    by (simp add: a CBS_get_any_asn1_def CBS_get_any_asn1_element_def element_complete
        CBS_skip_def rbind_def cbs_get_def)
next
  fix c and a :: "u32 \<times> cbs" and r
  obtain t body where a: "a = (t, body)" by (cases a)
  assume "CBS_get_any_asn1 c = (Some a, r)"
  then obtain out t' hl c' where e: "der_element c out t' hl c'"
    and s: "(case CBS_skip hl out of (None, _) \<Rightarrow> (None, c') | (Some _, out) \<Rightarrow> (Some (t', out), c'))
      = (Some a, r)"
    by (auto simp: CBS_get_any_asn1_def CBS_get_any_asn1_element_def rbind_eq_Some element_iff)
  from e obtain body' where b: "length body' < 2 ^ 32" "out = der_tlv t' body'"
    "hl = der_header_len t' body'" "c = out @ c'"
    by (auto simp: der_element_def)
  with s a have "t' = t" "body' = body" "c' = r"
    by (auto simp: CBS_skip_def rbind_def cbs_get_def)
  with b a show "(case a of (t, body) \<Rightarrow> length body < 2 ^ 32) \<and> c = (case a of (t, body) \<Rightarrow> der_tlv t body) @ r"
    by simp
qed

text \<open>The \<open>assert(0)\<close> in \<open>CBS_get_any_asn1\<close> is never reached: the header is part of the element.\<close>

lemma CBS_get_any_asn1_None:
  "fst (CBS_get_any_asn1 c) = None \<longleftrightarrow> fst (CBS_get_any_asn1_element c) = None"
  by (cases "CBS_get_any_asn1_element c"; cases "fst (CBS_get_any_asn1_element c)")
     (auto simp: CBS_get_any_asn1_def CBS_get_any_asn1_element_def rbind_def CBS_skip_def cbs_get_def
       split: prod.splits option.splits dest: element_decreases)

lemma CBS_get_asn1_eq:
  "CBS_get_asn1 t c = (case CBS_get_any_asn1 c of
     (None, c') \<Rightarrow> (None, c')
   | (Some (t', body), c') \<Rightarrow> if t' = t then (Some body, c') else (None, c'))"
  by (auto simp: CBS_get_asn1_def cbs_get_asn1_def CBS_get_any_asn1_def CBS_get_any_asn1_element_def
      rbind_def CBS_skip_def cbs_get_def split: prod.splits option.splits dest: element_decreases)

lemma CBS_get_asn1_canonical:
  "canonical_codec (der_tlv t) (CBS_get_asn1 t) (\<lambda>body. length body < 2 ^ 32)"
proof unfold_locales
  fix body :: bytes and r
  assume "length body < 2 ^ 32"
  then show "CBS_get_asn1 t (der_tlv t body @ r) = (Some body, r)"
    using der_codec.dec_enc [of "(t, body)" r] by (simp add: CBS_get_asn1_eq)
next
  fix c body r
  assume "CBS_get_asn1 t c = (Some body, r)"
  then have "CBS_get_any_asn1 c = (Some (t, body), r)"
    by (auto simp: CBS_get_asn1_eq split: prod.splits option.splits if_splits)
  then show "length body < 2 ^ 32 \<and> c = der_tlv t body @ r"
    by (simp add: der_codec.dec_iff)
qed

interpretation asn1_codec: canonical_codec "der_tlv t" "CBS_get_asn1 t" "\<lambda>body. length body < 2 ^ 32" for t
  by (rule CBS_get_asn1_canonical)

section \<open>Properties\<close>

text \<open>
  C13: \<open>CBS_get_any_asn1\<close> accepts exactly the distinguished encodings: it returns a tag and a body
  if and only if the input starts with the one DER encoding of them, and stops right behind it.
\<close>

theorem get_any_asn1_accepts_der:
  "CBS_get_any_asn1 c = (Some (t, body), r) \<longleftrightarrow> length body < 2 ^ 32 \<and> c = der_tlv t body @ r"
  using der_codec.dec_iff [of c "(t, body)" r] by simp

text \<open>
  C14: the element parser behind all ASN.1 getters accepts a DER element, header length included,
  and where BER is allowed also the header of a constructed element of indefinite length; nothing
  else.
\<close>

theorem asn1_element_accepts:
  "cbs_get_any_asn1_element ber_ok c = (Some (out, t, hl), r) \<longleftrightarrow>
     der_element c out t hl r \<or> ber_ok \<and> indefinite_element c out t hl r"
  by (rule element_iff)

text \<open>C20: on failure the element parser leaves the \<open>CBS\<close> where it was.\<close>

theorem asn1_element_failure_unchanged:
  assumes "fst (cbs_get_any_asn1_element ber_ok c) = None"
  shows "snd (cbs_get_any_asn1_element ber_ok c) = c"
  using assms by (rule element_failure_keeps)

theorem asn1_element_failure_unchanged_witness:
  "cbs_get_any_asn1_element False [0x30, 0x80, 0, 0] = (None, [0x30, 0x80, 0, 0])"
proof -
  have "fst (cbs_get_any_asn1_element False [0x30, 0x80, 0, 0]) = None" by code_simp
  from this asn1_element_failure_unchanged [OF this] show ?thesis by (simp add: prod_eq_iff)
qed

text \<open>
  \<open>CBS_get_asn1\<close> with an expected tag succeeds exactly on DER elements of that tag.
\<close>

theorem get_asn1_accepts_der:
  "CBS_get_asn1 t c = (Some body, r) \<longleftrightarrow> length body < 2 ^ 32 \<and> c = der_tlv t body @ r"
  by (rule asn1_codec.dec_iff)



end
