(* ===== verification/Der_Values.thy ===== *)
theory Der_Values
  imports Der
begin

text \<open>
  The typed values of \<open>cbs.c\<close>: what \<open>CBS_get_asn1_uint64\<close>, \<open>CBS_get_asn1_int64\<close> and
  \<open>CBS_get_asn1_bool\<close> accept is exactly the minimal DER encoding of the value they return.
\<close>

section \<open>Unsigned integers\<close>

fun be_min :: "nat \<Rightarrow> bytes" where
  "be_min v = (if v = 0 then [] else be_min (v div 256) @ [word_of_nat v])"

declare be_min.simps [simp del]

definition uint_body :: "nat \<Rightarrow> bytes" where
  "uint_body v =
     (let m = be_min v in if m = [] \<or> 128 \<le> unat (hd m) then 0 # m else m)"

text \<open>No redundant leading byte, and the sign bit clear.\<close>

definition minimal_uint :: "bytes \<Rightarrow> bool" where
  "minimal_uint bs \<longleftrightarrow>
     bs \<noteq> [] \<and> unat (hd bs) < 128 \<and> \<not> (hd bs = 0 \<and> 1 < length bs \<and> unat (bs ! 1) < 128)"

lemma be_min_0 [simp]: "be_min 0 = []"
  by (simp add: be_min.simps)

lemma be_min_pos: "v \<noteq> 0 \<Longrightarrow> be_min v = be_min (v div 256) @ [word_of_nat v]"
  by (subst be_min.simps) simp

lemma be_nat_be_min [simp]: "be_nat (be_min v) = v"
proof (induction v rule: be_min.induct)
  case (1 v)
  then show ?case by (cases "v = 0") (simp_all add: be_min_pos unat_byte_of_nat)
qed

lemma hd_be_min: "v \<noteq> 0 \<Longrightarrow> be_min v \<noteq> [] \<and> hd (be_min v) \<noteq> 0"
proof (induction v rule: be_min.induct)
  case (1 v)
  show ?case
  proof (cases "v div 256 = 0")
    case True
    then have "v < 256" by simp
    moreover from this have "unat (word_of_nat v :: u8) = v" by (simp add: unat_of_nat)
    ultimately show ?thesis
      using 1(2) True by (auto simp: be_min_pos)
  next
    case False
    with 1 show ?thesis by (simp add: be_min_pos [OF 1(2)])
  qed
qed

lemma be_nat_eq_0: "be_nat bs = 0 \<longleftrightarrow> (\<forall>b \<in> set bs. b = 0)"
  by (induction bs rule: rev_induct) (auto simp: unat_eq_0)

lemma be_min_be_nat: "be_min (be_nat bs) = dropWhile (\<lambda>b. b = 0) bs"
proof (induction bs rule: rev_induct)
  case (snoc x xs)
  have x: "(be_nat xs * 256 + unat x) div 256 = be_nat xs"
    using unat_byte_less [of x] by simp
  have w: "(word_of_nat (be_nat xs * 256 + unat x) :: u8) = x"
    by (simp only: word_unat_eq_iff unat_byte_of_nat) (use unat_byte_less [of x] in simp)
  show ?case
  proof (cases "be_nat xs * 256 + unat x = 0")
    case True
    then have n: "be_nat (xs @ [x]) = 0" by simp
    then have "\<forall>b \<in> set (xs @ [x]). b = 0" by (simp only: be_nat_eq_0)
    then have "dropWhile (\<lambda>b. b = 0) (xs @ [x]) = []" by (simp only: dropWhile_eq_Nil_conv)
    with n show ?thesis by (simp only: be_min_0)
  next
    case False
    then have "be_min (be_nat (xs @ [x])) = dropWhile (\<lambda>b. b = 0) xs @ [x]"
      using snoc x w by (simp add: be_min_pos del: of_nat_add of_nat_mult)
    moreover have "dropWhile (\<lambda>b. b = 0) (xs @ [x]) = dropWhile (\<lambda>b. b = 0) xs @ [x]"
      using False be_nat_eq_0 [of xs] by (cases "be_nat xs = 0") (auto simp: dropWhile_append dropWhile_eq_Nil_conv)
    ultimately show ?thesis by simp
  qed
qed simp

lemma uint_body_unique:
  assumes "minimal_uint bs"
  shows "uint_body (be_nat bs) = bs"
proof -
  from assms obtain b r where bs: "bs = b # r" by (cases bs) (auto simp: minimal_uint_def)
  show ?thesis
  proof (cases "b = 0")
    case True
    with assms bs have "r = [] \<or> 128 \<le> unat (hd r)"
      by (cases r) (auto simp: minimal_uint_def)
    then have "dropWhile (\<lambda>b. b = 0) r = r"
      by (cases r) (auto simp: unat_eq_0)
    with True bs \<open>r = [] \<or> 128 \<le> unat (hd r)\<close> show ?thesis
      by (simp add: uint_body_def be_min_be_nat Let_def)
  next
    case False
    with assms bs show ?thesis
      by (simp add: uint_body_def be_min_be_nat Let_def minimal_uint_def)
  qed
qed

lemma be_nat_Cons_0 [simp]: "be_nat (0 # bs) = be_nat bs"
  by (simp add: be_nat_Cons)

lemma be_nat_uint_body [simp]: "be_nat (uint_body v) = v"
  by (simp add: uint_body_def Let_def)

lemma minimal_uint_body: "minimal_uint (uint_body v)"
proof (cases "v = 0")
  case False
  with hd_be_min [OF this] show ?thesis
    by (cases "be_min v") (auto simp: uint_body_def minimal_uint_def Let_def)
qed (simp add: uint_body_def minimal_uint_def)

lemma uint64_loop:
  "asn1_uint64_loop out bs =
     (let n = unat out * 256 ^ length bs + be_nat bs
      in if n < 2 ^ 64 then Some (word_of_nat n) else None)"
proof (induction bs arbitrary: out)
  case Nil
  show ?case using unat_u64_less [of out] by simp
next
  case (Cons b bs)
  show ?case
  proof (cases "unat out < 2 ^ 56")
    case True
    have "unat (push_bit 8 out OR ucast b) = unat out * 256 + unat b"
      using True unat_byte_less [of b] by (simp add: unat_shift8_or)
    with True Cons show ?thesis
      by (simp add: drop_bit_eq_0_iff be_nat_Cons algebra_simps)
  next
    case False
    have "2 ^ 56 * 256 \<le> unat out * 256 ^ Suc (length bs)"
      using False by (intro mult_le_mono) simp_all
    then have "\<not> unat out * 256 ^ Suc (length bs) + be_nat (b # bs) < 2 ^ 64" by simp
    with False show ?thesis by (simp add: drop_bit_eq_0_iff Let_def)
  qed
qed

text \<open>The checks of the C function, as the minimality of the body.\<close>

lemma CBS_get_asn1_uint64_eq:
  "CBS_get_asn1_uint64 c = (case CBS_get_asn1 CBS_ASN1_INTEGER c of
     (None, r) \<Rightarrow> (None, r)
   | (Some body, r) \<Rightarrow>
       (if minimal_uint body \<and> be_nat body < 2 ^ 64 then Some (word_of_nat (be_nat body)) else None, r))"
proof -
  have "(if length body = 0 then (None, r)
     else if body ! 0 AND 0x80 \<noteq> 0 then (None, r)
     else if body ! 0 = 0 \<and> length body > 1 \<and> body ! 1 AND 0x80 = 0 then (None, r)
     else (asn1_uint64_loop 0 body, r)) =
     (if minimal_uint body \<and> be_nat body < 2 ^ 64 then Some (word_of_nat (be_nat body)) else None, r)"
    for body :: bytes and r :: cbs
    by (cases body) (auto simp: minimal_uint_def uint64_loop and_80_eq_0 Let_def)
  then show ?thesis
    by (auto simp: CBS_get_asn1_uint64_def rbind_def split: prod.splits option.splits)
qed

lemma length_be_min: "v < 256 ^ k \<Longrightarrow> length (be_min v) \<le> k"
proof (induction k arbitrary: v)
  case (Suc k)
  then show ?case
    by (cases "v = 0") (simp_all add: be_min_pos less_mult_imp_div_less mult.commute)
qed simp

lemma length_uint_body: "v < 256 ^ k \<Longrightarrow> length (uint_body v) \<le> Suc k"
  using length_be_min [of v k] by (auto simp: uint_body_def Let_def)

lemma uint64_body_short: "length (uint_body (unat (v :: u64))) < 2 ^ 32"
  using length_uint_body [of "unat v" 8] unat_u64_less [of v] by simp

interpretation uint64_codec: canonical_codec
  "\<lambda>v. der_tlv CBS_ASN1_INTEGER (uint_body (unat v))" CBS_get_asn1_uint64 "\<lambda>_. True"
proof unfold_locales
  fix v :: u64 and r
  show "CBS_get_asn1_uint64 (der_tlv CBS_ASN1_INTEGER (uint_body (unat v)) @ r) = (Some v, r)"
    by (simp only: CBS_get_asn1_uint64_eq asn1_codec.dec_enc [OF uint64_body_short])
       (simp add: minimal_uint_body unat_u64_less [simplified])
next
  fix c v r
  assume "CBS_get_asn1_uint64 c = (Some v, r)"
  then obtain body where b: "CBS_get_asn1 CBS_ASN1_INTEGER c = (Some body, r)"
    "minimal_uint body" "be_nat body < 2 ^ 64" "v = word_of_nat (be_nat body)"
    by (auto simp: CBS_get_asn1_uint64_eq split: prod.splits option.splits if_splits)
  then have "unat v = be_nat body" by (simp add: unat_of_nat)
  with b show "True \<and> c = der_tlv CBS_ASN1_INTEGER (uint_body (unat v)) @ r"
    by (simp add: asn1_codec.dec_iff uint_body_unique)
qed

section \<open>Signed integers\<close>

text \<open>The value of a two's complement body, and the body without redundant sign bytes.\<close>

definition sval :: "bytes \<Rightarrow> int" where
  "sval bs = int (be_nat bs) - (if 128 \<le> unat (hd bs) then 256 ^ length bs else 0)"

fun drop_ff :: "bytes \<Rightarrow> bytes" where
  "drop_ff (a # b # r) = (if a = 0xff \<and> 128 \<le> unat b then drop_ff (b # r) else a # b # r)"
| "drop_ff bs = bs"

definition int_body :: "int \<Rightarrow> bytes" where
  "int_body v = (if 0 \<le> v then uint_body (nat v) else drop_ff (be_bytes 8 (nat (v + 2 ^ 64))))"

definition minimal_int :: "bytes \<Rightarrow> bool" where
  "minimal_int bs \<longleftrightarrow>
     bs \<noteq> [] \<and> \<not> (1 < length bs \<and> hd bs = 0 \<and> unat (bs ! 1) < 128)
     \<and> \<not> (1 < length bs \<and> hd bs = 0xff \<and> 128 \<le> unat (bs ! 1))"

definition padded :: "bytes \<Rightarrow> bytes" where
  "padded bs = replicate (8 - length bs) (if 128 \<le> unat (hd bs) then 0xff else 0) @ bs"

lemma unat_le_u64: "length bs \<le> 8 \<Longrightarrow> unat (le_u64 bs) = be_nat (rev bs)"
proof (induction bs)
  case (Cons b bs)
  have "be_nat (rev bs) < 256 ^ length bs" using be_nat_less [of "rev bs"] by simp
  also have "(256::nat) ^ length bs \<le> 256 ^ 7" using Cons.prems by (intro power_increasing) auto
  finally have "be_nat (rev bs) * 256 + unat b < 2 ^ 64" using unat_byte_less [of b] by simp
  then show ?case using Cons unat_shift8_or [of "le_u64 bs" b] by (simp add: or.commute)
qed simp

lemma le_bytes_padded:
  assumes "bs \<noteq> []" and "length bs \<le> 8"
  shows "map (\<lambda>i. if i < length bs then bs ! (length bs - i - 1)
            else if bs ! 0 AND 0x80 \<noteq> 0 then 0xff else 0) [0..<8] = rev (padded bs)"
proof (rule nth_equalityI)
  show "length (map (\<lambda>i. if i < length bs then bs ! (length bs - i - 1)
            else if bs ! 0 AND 0x80 \<noteq> 0 then 0xff else 0) [0..<8]) = length (rev (padded bs))"
    using assms by (simp add: padded_def)
next
  fix i
  assume "i < length (map (\<lambda>i. if i < length bs then bs ! (length bs - i - 1)
            else if bs ! 0 AND 0x80 \<noteq> 0 then 0xff else 0 :: u8) [0..<8])"
  then have i: "i < 8" by simp
  with assms show "map (\<lambda>i. if i < length bs then bs ! (length bs - i - 1)
            else if bs ! 0 AND 0x80 \<noteq> 0 then 0xff else 0) [0..<8] ! i = rev (padded bs) ! i"
    by (auto simp: padded_def rev_nth nth_append hd_conv_nth and_80_eq_0)
qed

lemma be_nat_append: "be_nat (xs @ ys) = be_nat xs * 256 ^ length ys + be_nat ys"
  by (induction ys rule: rev_induct) (simp_all add: algebra_simps flip: append_assoc)

lemma be_nat_replicate: "be_nat (replicate k 0) = 0" "be_nat (replicate k 0xff) + 1 = 256 ^ k"
  by (induction k) (simp_all add: be_nat_Cons)

lemma hd_bound:
  assumes "bs \<noteq> []"
  shows "128 \<le> unat (hd bs) \<longleftrightarrow> 128 * 256 ^ (length bs - 1) \<le> be_nat bs"
proof -
  from assms obtain b r where bs: "bs = b # r" by (cases bs) auto
  have r: "be_nat r < 256 ^ length r" by (rule be_nat_less)
  show ?thesis
  proof (cases "128 \<le> unat b")
    case True
    then have "128 * 256 ^ length r \<le> unat b * 256 ^ length r + be_nat r"
      by (intro trans_le_add1 mult_le_mono1)
    with True bs show ?thesis by (simp add: be_nat_Cons)
  next
    case False
    then have "unat b * 256 ^ length r + be_nat r < Suc (unat b) * 256 ^ length r" using r by simp
    also have "\<dots> \<le> 128 * 256 ^ length r" using False by (intro mult_le_mono1) simp
    finally show ?thesis using False bs by (simp add: be_nat_Cons)
  qed
qed

lemma sint_u64: "sint (w :: u64) = (if uint w < 2 ^ 63 then uint w else uint w - 2 ^ 64)"
proof -
  have range: "0 \<le> uint w" "uint w < 2 ^ 64"
    using unsigned_less [where 'a = int, of w] by simp_all
  have "bit (uint w) 63 \<longleftrightarrow> \<not> uint w < 2 ^ 63"
  proof (cases "uint w < 2 ^ 63")
    case True
    with range have "uint w div 2 ^ 63 = 0" by simp
    then have "\<not> bit (uint w) 63" by (simp add: bit_iff_odd)
    with True show ?thesis by simp
  next
    case False
    with range have "uint w div 2 ^ 63 = 1" by (intro int_div_pos_eq [of _ _ _ "uint w - 2 ^ 63"]) simp_all
    then have "bit (uint w) 63" by (simp add: bit_iff_odd)
    with False show ?thesis by simp
  qed
  moreover have "sint w = signed_take_bit 63 (uint w)"
    by (simp add: sint_uint)
  moreover have "take_bit 64 (uint w) = uint w"
    using range by (intro take_bit_int_eq_self)
  ultimately show ?thesis
    by (simp add: signed_take_bit_eq_take_bit_minus)
qed

lemma sint_padded:
  assumes "bs \<noteq> []" and "length bs \<le> 8"
  shows "sint (le_u64 (rev (padded bs))) = sval bs"
proof -
  let ?k = "8 - length bs"
  have len: "length (padded bs) = 8" using assms by (simp add: padded_def)
  then have u: "unat (le_u64 (rev (padded bs))) = be_nat (padded bs)"
    by (simp add: unat_le_u64)
  have ui: "uint (le_u64 (rev (padded bs))) = int (be_nat (padded bs))"
    using u by (simp only: uint_nat)
  have hd: "128 \<le> unat (hd (padded bs)) \<longleftrightarrow> 128 \<le> unat (hd bs)"
    using assms by (cases ?k) (auto simp: padded_def)
  have top: "be_nat (padded bs) < 2 ^ 63 \<longleftrightarrow> unat (hd bs) < 128"
    using hd_bound [of "padded bs"] hd len by (cases "padded bs") (auto simp: not_le)
  have p: "(256::nat) ^ ?k * 256 ^ length bs = 2 ^ 64"
    using assms(2) by (simp flip: power_add)
  show ?thesis
  proof (cases "unat (hd bs) < 128")
    case True
    then have "be_nat (padded bs) = be_nat bs"
      by (simp add: padded_def be_nat_append be_nat_replicate)
    with True top show ?thesis by (simp add: sint_u64 ui sval_def)
  next
    case False
    then have "be_nat (padded bs) + 256 ^ length bs = (be_nat (replicate ?k 0xff) + 1) * 256 ^ length bs + be_nat bs"
      by (simp add: padded_def be_nat_append algebra_simps)
    also have "\<dots> = 2 ^ 64 + be_nat bs" by (simp only: be_nat_replicate p)
    finally have "int (be_nat (padded bs) + 256 ^ length bs) = int (2 ^ 64 + be_nat bs)"
      by (rule arg_cong)
    with False top show ?thesis by (simp add: sint_u64 ui sval_def)
  qed
qed

lemma CBS_get_asn1_int64_eq:
  "CBS_get_asn1_int64 c = (case CBS_get_asn1 CBS_ASN1_INTEGER c of
     (None, r) \<Rightarrow> (None, r)
   | (Some body, r) \<Rightarrow> (if minimal_int body \<and> length body \<le> 8 then Some (sval body) else None, r))"
proof -
  have "(let len = length data in
     if len = 0 \<or> len > 8 then (None, c)
     else if len > 1 \<and> data ! 0 = 0 \<and> data ! 1 AND 0x80 = 0 then (None, c)
     else if len > 1 \<and> data ! 0 = 0xff \<and> data ! 1 AND 0x80 \<noteq> 0 then (None, c)
     else
       let is_negative = (data ! 0 AND 0x80 \<noteq> 0);
           u = map (\<lambda>i. if i < len then data ! (len - i - 1)
                        else if is_negative then 0xff else 0) [0..<8]
       in (Some (sint (le_u64 u)), c)) =
     (if minimal_int data \<and> length data \<le> 8 then Some (sval data) else None, c)"
    for data :: bytes and c :: cbs
  proof (cases "data \<noteq> [] \<and> length data \<le> 8")
    case True
    then have hd: "data ! 0 = hd data" by (simp add: hd_conv_nth)
    show ?thesis
      using True unfolding Let_def le_bytes_padded [OF conjunct1 [OF True] conjunct2 [OF True]]
      by (auto simp: minimal_int_def sint_padded hd and_80_eq_0)
  next
    case False
    then show ?thesis by (auto simp: minimal_int_def Let_def)
  qed
  then show ?thesis
    by (auto simp: CBS_get_asn1_int64_def rbind_def split: prod.splits option.splits)
qed

text \<open>Dropping redundant sign bytes keeps the value, and there is one minimal body per value.\<close>

lemma drop_ff_ne: "bs \<noteq> [] \<Longrightarrow> drop_ff bs \<noteq> []"
  by (induction bs rule: drop_ff.induct) auto

lemma length_drop_ff: "length (drop_ff bs) \<le> length bs"
  by (induction bs rule: drop_ff.induct) auto

lemma hd_drop_ff: "128 \<le> unat (hd bs) \<Longrightarrow> 128 \<le> unat (hd (drop_ff bs))"
  by (induction bs rule: drop_ff.induct) auto

lemma sval_drop_ff: "sval (drop_ff bs) = sval bs"
proof (induction bs rule: drop_ff.induct)
  case (1 a b r)
  show ?case
  proof (cases "a = 0xff \<and> 128 \<le> unat b")
    case True
    then have "sval (a # b # r) = sval (b # r)"
      by (simp add: sval_def be_nat_Cons [of 255 "b # r"])
    with 1 True show ?thesis by simp
  qed auto
qed auto

lemma minimal_drop_ff: "128 \<le> unat (hd bs) \<Longrightarrow> bs \<noteq> [] \<Longrightarrow> minimal_int (drop_ff bs)"
  by (induction bs rule: drop_ff.induct) (auto simp: minimal_int_def)

lemma drop_ff_minimal: "minimal_int bs \<Longrightarrow> drop_ff bs = bs"
  by (cases bs rule: drop_ff.cases) (auto simp: minimal_int_def)

lemma drop_ff_replicate:
  "128 \<le> unat (hd bs) \<Longrightarrow> bs \<noteq> [] \<Longrightarrow> drop_ff (replicate k 0xff @ bs) = drop_ff bs"
proof (induction k)
  case (Suc k)
  then have "128 \<le> unat (hd (replicate k 0xff @ bs))" "replicate k 0xff @ bs \<noteq> []"
    by (cases k; simp)+
  with Suc show ?case by (cases "replicate k 0xff @ bs") auto
qed simp

lemma sval_range:
  assumes "bs \<noteq> []" and "length bs \<le> 8"
  shows "- (2 ^ 63) \<le> sval bs \<and> sval bs < 2 ^ 63" and "sval bs < 0 \<longleftrightarrow> 128 \<le> unat (hd bs)"
proof -
  have "sint (w :: u64) < 2 ^ 63 \<and> - (2 ^ 63) \<le> sint w" for w
    using sint_ge [of w] sint_lt [of w] by simp
  then show "- (2 ^ 63) \<le> sval bs \<and> sval bs < 2 ^ 63"
    using sint_padded [OF assms] by metis
  have "int (be_nat bs) < int (256 ^ length bs)" using be_nat_less by (simp only: of_nat_less_iff)
  then show "sval bs < 0 \<longleftrightarrow> 128 \<le> unat (hd bs)" by (auto simp: sval_def)
qed

lemma minimal_uint_int: "minimal_uint bs \<longleftrightarrow> minimal_int bs \<and> unat (hd bs) < 128"
  by (cases bs) (auto simp: minimal_uint_def minimal_int_def)

lemma int_body_sval:
  assumes "minimal_int bs" and "length bs \<le> 8"
  shows "int_body (sval bs) = bs"
proof -
  have ne: "bs \<noteq> []" using assms by (simp add: minimal_int_def)
  note range = sval_range [OF ne assms(2)]
  show ?thesis
  proof (cases "unat (hd bs) < 128")
    case True
    then have "sval bs = int (be_nat bs)" by (simp add: sval_def)
    with True assms show ?thesis
      by (simp add: int_body_def uint_body_unique minimal_uint_int)
  next
    case False
    have u: "be_nat (padded bs) = nat (sval bs + 2 ^ 64)"
    proof -
      have len: "length (padded bs) = 8" using assms by (simp add: padded_def)
      have "sval (padded bs) = sval bs"
        using False sval_drop_ff [of bs] sval_drop_ff [of "padded bs"] drop_ff_replicate [OF _ ne]
        by (simp add: padded_def)
      moreover have "128 \<le> unat (hd (padded bs))"
        using False by (cases "8 - length bs") (auto simp: padded_def)
      ultimately show ?thesis using len by (simp add: sval_def)
    qed
    have "be_bytes 8 (be_nat (padded bs)) = padded bs"
      using assms by (intro be_bytes_be_nat) (simp add: padded_def)
    moreover have "drop_ff (padded bs) = bs"
      using False ne drop_ff_minimal [OF assms(1)] by (simp add: padded_def drop_ff_replicate)
    moreover have "int_body (sval bs) = drop_ff (be_bytes 8 (nat (sval bs + 2 ^ 64)))"
      using False range by (simp add: int_body_def)
    ultimately show ?thesis by (simp only: u)
  qed
qed

lemma int_body_ok:
  assumes "- (2 ^ 63) \<le> v" and "v < 2 ^ 63"
  shows "minimal_int (int_body v) \<and> length (int_body v) \<le> 8 \<and> sval (int_body v) = v"
proof (cases "0 \<le> v")
  case True
  have m: "minimal_uint (uint_body (nat v))" by (rule minimal_uint_body)
  have "length (uint_body (nat v)) \<le> 8"
  proof (rule ccontr)
    assume "\<not> ?thesis"
    moreover have "length (be_min (nat v)) \<le> 8"
      using assms by (intro length_be_min) simp
    ultimately have l: "length (be_min (nat v)) = 8" and h: "128 \<le> unat (hd (be_min (nat v)))"
      by (auto simp: uint_body_def Let_def split: if_splits)
    then have "128 * 256 ^ 7 \<le> nat v"
      using hd_bound [of "be_min (nat v)", unfolded be_nat_be_min] by (cases "be_min (nat v)") auto
    with assms show False by simp
  qed
  with m True show ?thesis by (simp add: int_body_def minimal_uint_int sval_def)
next
  case False
  let ?bs = "be_bytes 8 (nat (v + 2 ^ 64))"
  have n: "be_nat ?bs = nat (v + 2 ^ 64)"
    using assms False by (intro be_nat_be_bytes_small) simp
  have ne: "?bs \<noteq> []" by (metis length_be_bytes list.size(3) zero_neq_numeral)
  have hd: "128 \<le> unat (hd ?bs)"
    using hd_bound [OF ne] n assms False by simp
  have "sval ?bs = v" using hd n assms False by (simp add: sval_def)
  with hd ne False length_drop_ff [of ?bs] show ?thesis
    by (simp add: int_body_def minimal_drop_ff sval_drop_ff)
qed

interpretation int64_codec: canonical_codec
  "\<lambda>v. der_tlv CBS_ASN1_INTEGER (int_body v)" CBS_get_asn1_int64
  "\<lambda>v. - (2 ^ 63) \<le> v \<and> v < 2 ^ 63"
proof unfold_locales
  fix v :: int and r
  assume v: "- (2 ^ 63) \<le> v \<and> v < 2 ^ 63"
  then have ok: "minimal_int (int_body v)" "length (int_body v) \<le> 8" "sval (int_body v) = v"
    using int_body_ok by blast+
  then have "length (int_body v) < 2 ^ 32" by simp
  then show "CBS_get_asn1_int64 (der_tlv CBS_ASN1_INTEGER (int_body v) @ r) = (Some v, r)"
    by (simp only: CBS_get_asn1_int64_eq asn1_codec.dec_enc) (simp add: ok)
next
  fix c v r
  assume "CBS_get_asn1_int64 c = (Some v, r)"
  then obtain body where b: "CBS_get_asn1 CBS_ASN1_INTEGER c = (Some body, r)"
    "minimal_int body" "length body \<le> 8" "v = sval body"
    by (auto simp: CBS_get_asn1_int64_eq split: prod.splits option.splits if_splits)
  then have "body \<noteq> []" by (simp add: minimal_int_def)
  with b show "(- (2 ^ 63) \<le> v \<and> v < 2 ^ 63) \<and> c = der_tlv CBS_ASN1_INTEGER (int_body v) @ r"
    using sval_range(1) [of body] by (simp add: asn1_codec.dec_iff int_body_sval)
qed

section \<open>Booleans and bit strings\<close>

definition bool_body :: "bool \<Rightarrow> bytes" where
  "bool_body b = [if b then 0xff else 0]"

interpretation bool_codec: canonical_codec
  "\<lambda>b. der_tlv CBS_ASN1_BOOLEAN (bool_body b)" CBS_get_asn1_bool "\<lambda>_. True"
proof unfold_locales
  fix b :: bool and r
  have "length (bool_body b) < 2 ^ 32" by (simp add: bool_body_def)
  from asn1_codec.dec_enc [OF this]
  show "CBS_get_asn1_bool (der_tlv CBS_ASN1_BOOLEAN (bool_body b) @ r) = (Some b, r)"
    by (simp add: CBS_get_asn1_bool_def bool_body_def)
next
  fix c b r
  assume "CBS_get_asn1_bool c = (Some b, r)"
  then obtain bs where "CBS_get_asn1 CBS_ASN1_BOOLEAN c = (Some bs, r)" "bs = bool_body b"
    by (auto simp: CBS_get_asn1_bool_def rbind_eq_Some bool_body_def Let_def length_Suc_conv
        split: if_splits)
  then show "True \<and> c = der_tlv CBS_ASN1_BOOLEAN (bool_body b) @ r"
    by (simp add: asn1_codec.dec_iff)
qed

section \<open>Properties\<close>

text \<open>
  \<open>CBS_get_asn1_uint64\<close> reads exactly the minimal encodings of the numbers below \<open>2 ^ 64\<close>:
  no redundant leading byte, no negative number, nothing that does not fit.
\<close>

theorem get_asn1_uint64_accepts:
  "CBS_get_asn1_uint64 c = (Some v, r) \<longleftrightarrow> c = der_tlv CBS_ASN1_INTEGER (uint_body (unat v)) @ r"
  using uint64_codec.dec_iff [of c v r] by simp

text \<open>
  \<open>CBS_get_asn1_int64\<close> reads exactly the minimal two's complement encodings of the numbers
  from \<open>- 2 ^ 63\<close> to \<open>2 ^ 63 - 1\<close>, sign-extending through the union.
\<close>

theorem get_asn1_int64_accepts:
  "CBS_get_asn1_int64 c = (Some v, r) \<longleftrightarrow>
     (- (2 ^ 63) \<le> v \<and> v < 2 ^ 63) \<and> c = der_tlv CBS_ASN1_INTEGER (int_body v) @ r"
  by (rule int64_codec.dec_iff)

text \<open>\<open>CBS_get_asn1_bool\<close> reads exactly the two DER booleans.\<close>

theorem get_asn1_bool_accepts:
  "CBS_get_asn1_bool c = (Some b, r) \<longleftrightarrow> c = der_tlv CBS_ASN1_BOOLEAN (bool_body b) @ r"
  using bool_codec.dec_iff [of c b r] by simp

end
