(* ===== verification/Cbb.thy ===== *)
theory Cbb
  imports Cbs
begin

text \<open>
  \<open>crypto/bytestring/cbb.c\<close>: the \<open>CBB\<close> builder. A top-level \<open>CBB\<close> owns a buffer; an open child
  (and its open child, and so on) is a length prefix still to be filled in. The model keeps the
  buffer and the chain of open children, outermost first, and names a \<open>CBB\<close> by its depth in the
  chain: 0 is the top-level one, \<open>Suc d\<close> the open child of \<open>d\<close>. A depth beyond the chain is a
  \<open>CBB\<close> that was closed, whose \<open>base\<close> is the null pointer.
\<close>

section \<open>State\<close>

text \<open>
  \<open>cb_data\<close> holds the \<open>len\<close> bytes written so far; the bytes between \<open>len\<close> and \<open>cap\<close> carry no
  information and are not kept.
\<close>

record cbb_buffer =
  cb_data :: bytes
  cb_cap :: nat
  can_resize :: bool
  cb_error :: bool

record cbb_child =
  offset :: nat
  pending_len_len :: nat
  pending_is_asn1 :: bool

record cbb =
  cbb_base :: "cbb_buffer option"
  children :: "cbb_child list"

definition CBB_zero :: cbb where
  "CBB_zero = \<lparr>cbb_base = None, children = []\<rparr>"

abbreviation (input) sizeof_cbb_buffer :: nat where
  "sizeof_cbb_buffer \<equiv> 32"

definition cbb_init :: "allocator \<Rightarrow> nat \<Rightarrow> cbb \<Rightarrow> bool \<times> cbb" where
  "cbb_init al cap s =
     (if \<not> OPENSSL_malloc al sizeof_cbb_buffer then (False, s)
      else (True, s\<lparr>cbb_base :=
        Some \<lparr>cb_data = [], cb_cap = cap, can_resize = True, cb_error = False\<rparr>\<rparr>))"

definition CBB_init :: "allocator \<Rightarrow> nat \<Rightarrow> bool \<times> cbb" where
  "CBB_init al initial_capacity =
     (if initial_capacity > 0 \<and> \<not> OPENSSL_malloc al initial_capacity then (False, CBB_zero)
      else cbb_init al initial_capacity CBB_zero)"

definition CBB_init_fixed :: "allocator \<Rightarrow> nat \<Rightarrow> bool \<times> cbb" where
  "CBB_init_fixed al len =
     (case cbb_init al len CBB_zero of
        (False, s) \<Rightarrow> (False, s)
      | (True, s) \<Rightarrow> (True, s\<lparr>cbb_base := map_option (\<lambda>b. b\<lparr>can_resize := False\<rparr>) (cbb_base s)\<rparr>))"

definition CBB_cleanup :: "cbb \<Rightarrow> cbb" where
  "CBB_cleanup s = s\<lparr>cbb_base := None\<rparr>"

section \<open>The buffer\<close>

definition cbb_buffer_reserve :: "allocator \<Rightarrow> cbb_buffer \<Rightarrow> nat \<Rightarrow> bool \<times> cbb_buffer" where
  "cbb_buffer_reserve al b len =
     (let newlen = size_add (length (cb_data b)) len in
      if newlen < length (cb_data b) then (False, b\<lparr>cb_error := True\<rparr>)
      else if newlen > cb_cap b then
        (let newcap = size_mul (cb_cap b) 2 in
         if \<not> can_resize b then (False, b\<lparr>cb_error := True\<rparr>)
         else
           (let newcap = (if newcap < cb_cap b \<or> newcap < newlen then newlen else newcap) in
            if \<not> OPENSSL_malloc al newcap then (False, b\<lparr>cb_error := True\<rparr>)
            else (True, b\<lparr>cb_cap := newcap\<rparr>)))
      else (True, b))"

text \<open>\<open>bs\<close> is what the caller stores through \<open>*out\<close> into the space it was given.\<close>

definition cbb_buffer_add :: "allocator \<Rightarrow> cbb_buffer \<Rightarrow> bytes \<Rightarrow> bool \<times> cbb_buffer" where
  "cbb_buffer_add al b bs =
     (case cbb_buffer_reserve al b (length bs) of
        (False, b) \<Rightarrow> (False, b)
      | (True, b) \<Rightarrow> (True, b\<lparr>cb_data := cb_data b @ bs\<rparr>))"

text \<open>The loop stores the low bytes of \<open>v\<close> from the last position backwards.\<close>

fun store_be :: "nat \<Rightarrow> u64 \<Rightarrow> bytes" where
  "store_be 0 v = []"
| "store_be (Suc n) v = store_be n (drop_bit 8 v) @ [ucast v]"

definition cbb_buffer_add_u :: "allocator \<Rightarrow> cbb_buffer \<Rightarrow> u64 \<Rightarrow> nat \<Rightarrow> bool \<times> cbb_buffer" where
  "cbb_buffer_add_u al b v len_len =
     (if len_len = 0 then (True, b)
      else case cbb_buffer_add al b (store_be len_len v) of
             (False, b) \<Rightarrow> (False, b)
           | (True, b) \<Rightarrow>
               if drop_bit (8 * len_len) v \<noteq> 0 then (False, b\<lparr>cb_error := True\<rparr>) else (True, b))"

section \<open>Flushing\<close>

definition write_at :: "nat \<Rightarrow> bytes \<Rightarrow> bytes \<Rightarrow> bytes" where
  "write_at off bs buf = take off buf @ bs @ drop (off + length bs) buf"

definition memmove :: "nat \<Rightarrow> nat \<Rightarrow> nat \<Rightarrow> bytes \<Rightarrow> bytes" where
  "memmove dst src n buf = write_at dst (take n (drop src buf)) buf"

text \<open>How many octets \<open>CBB_flush\<close> chooses for an ASN.1 length, and the first of them.\<close>

definition asn1_len_len :: "nat \<Rightarrow> nat \<times> u8" where
  "asn1_len_len len =
     (if len > 0xffffff then (5, 0x80 OR 4)
      else if len > 0xffff then (4, 0x80 OR 3)
      else if len > 0xff then (3, 0x80 OR 2)
      else if len > 0x7f then (2, 0x80 OR 1)
      else (1, word_of_nat len))"

text \<open>
  The two nested cases of the pending prefix. The bytes added for the longer ASN.1 length are
  overwritten by the \<open>memmove\<close>, so their value here (zero) is never seen.
\<close>

definition cbb_write_prefix :: "allocator \<Rightarrow> cbb_buffer \<Rightarrow> cbb_child \<Rightarrow> nat \<Rightarrow> bool \<times> cbb_buffer" where
  "cbb_write_prefix al b c child_start =
     (let len = length (cb_data b) - child_start in
      if pending_is_asn1 c then
        (if len > 0xfffffffe then (False, b\<lparr>cb_error := True\<rparr>)
         else
           (let (len_len, initial_length_byte) = asn1_len_len len;
                rest = (if len_len = 1 then 0 else len);
                extra_bytes = len_len - 1
            in case (if len_len \<noteq> 1 then cbb_buffer_add al b (replicate extra_bytes 0) else (True, b)) of
                 (False, b) \<Rightarrow> (False, b\<lparr>cb_error := True\<rparr>)
               | (True, b) \<Rightarrow>
                   (let moved = (if len_len \<noteq> 1
                                 then memmove (child_start + extra_bytes) child_start len (cb_data b)
                                 else cb_data b);
                        buf = write_at (offset c) [initial_length_byte] moved;
                        b = b\<lparr>cb_data := write_at (offset c + 1) (be_bytes (len_len - 1) rest) buf\<rparr>
                    in if rest div 256 ^ (len_len - 1) \<noteq> 0 then (False, b\<lparr>cb_error := True\<rparr>)
                       else (True, b))))
      else
        (let b = b\<lparr>cb_data := write_at (offset c) (be_bytes (pending_len_len c) len) (cb_data b)\<rparr>
         in if len div 256 ^ pending_len_len c \<noteq> 0 then (False, b\<lparr>cb_error := True\<rparr>)
            else (True, b)))"

text \<open>
  \<open>CBB_flush\<close> on the \<open>CBB\<close> whose open child is the head of the list: the recursion flushes the
  children below first. The result has the chain that is left, empty on success.
\<close>

fun cbb_flush_chain ::
    "allocator \<Rightarrow> cbb_buffer \<Rightarrow> cbb_child list \<Rightarrow> bool \<times> cbb_buffer \<times> cbb_child list" where
  "cbb_flush_chain al b [] = (\<not> cb_error b, b, [])"
| "cbb_flush_chain al b (c # cs) =
     (if cb_error b then (False, b, c # cs)
      else if pending_len_len c = 0 then (True, b, c # cs)
      else
        (let child_start = size_add (offset c) (pending_len_len c) in
         case cbb_flush_chain al b cs of
           (ok, b, cs) \<Rightarrow>
             if \<not> ok \<or> child_start < offset c \<or> length (cb_data b) < child_start
             then (False, b\<lparr>cb_error := True\<rparr>, c # cs)
             else case cbb_write_prefix al b c child_start of
                    (False, b) \<Rightarrow> (False, b, c # cs)
                  | (True, b) \<Rightarrow> (True, b, [])))"

definition CBB_flush :: "allocator \<Rightarrow> nat \<Rightarrow> cbb \<Rightarrow> bool \<times> cbb" where
  "CBB_flush al d s =
     (case cbb_base s of
        None \<Rightarrow> (False, s)
      | Some b \<Rightarrow>
          if length (children s) < d then (False, s)
          else case cbb_flush_chain al b (drop d (children s)) of
                 (ok, b, cs) \<Rightarrow>
                   (ok, s\<lparr>cbb_base := Some b, children := take d (children s) @ cs\<rparr>))"

definition CBB_finish :: "allocator \<Rightarrow> nat \<Rightarrow> bool \<Rightarrow> cbb \<Rightarrow> bytes option \<times> cbb" where
  "CBB_finish al d out_given s =
     (if d > 0 then (None, s)
      else case CBB_flush al d s of
             (False, s) \<Rightarrow> (None, s)
           | (True, s) \<Rightarrow>
               (case cbb_base s of
                  None \<Rightarrow> (None, s)
                | Some b \<Rightarrow>
                    if can_resize b \<and> \<not> out_given then (None, s)
                    else (Some (cb_data b), CBB_cleanup s)))"

section \<open>Reading back what was written\<close>

definition cbb_start :: "nat \<Rightarrow> cbb \<Rightarrow> nat" where
  "cbb_start d s =
     (if d = 0 then 0
      else offset (children s ! (d - 1)) + pending_len_len (children s ! (d - 1)))"

text \<open>\<open>None\<close> is a failed assertion (an open child) or a dead \<open>CBB\<close>.\<close>

definition CBB_data :: "nat \<Rightarrow> cbb \<Rightarrow> bytes option" where
  "CBB_data d s =
     (if length (children s) \<noteq> d then None
      else map_option (\<lambda>b. drop (cbb_start d s) (cb_data b)) (cbb_base s))"

definition CBB_len :: "nat \<Rightarrow> cbb \<Rightarrow> nat option" where
  "CBB_len d s =
     (if length (children s) \<noteq> d then None
      else case cbb_base s of
             None \<Rightarrow> None
           | Some b \<Rightarrow>
               if cbb_start d s \<le> length (cb_data b)
               then Some (length (cb_data b) - cbb_start d s) else None)"

section \<open>Writing\<close>

text \<open>\<open>if (!CBB_flush(cbb)) return 0; return f(cbb->base);\<close>\<close>

definition cbb_flush_then ::
    "allocator \<Rightarrow> nat \<Rightarrow> (cbb_buffer \<Rightarrow> bool \<times> cbb_buffer) \<Rightarrow> cbb \<Rightarrow> bool \<times> cbb" where
  "cbb_flush_then al d f s =
     (case CBB_flush al d s of
        (False, s) \<Rightarrow> (False, s)
      | (True, s) \<Rightarrow>
          (case cbb_base s of
             None \<Rightarrow> (False, s)
           | Some b \<Rightarrow> (case f b of (ok, b) \<Rightarrow> (ok, s\<lparr>cbb_base := Some b\<rparr>))))"

definition cbb_offset :: "cbb \<Rightarrow> nat" where
  "cbb_offset s = (case cbb_base s of None \<Rightarrow> 0 | Some b \<Rightarrow> length (cb_data b))"

definition cbb_open_child :: "nat \<Rightarrow> cbb_child \<Rightarrow> cbb \<Rightarrow> cbb" where
  "cbb_open_child d c s = s\<lparr>children := take d (children s) @ [c]\<rparr>"

definition cbb_add_length_prefixed :: "allocator \<Rightarrow> nat \<Rightarrow> nat \<Rightarrow> cbb \<Rightarrow> bool \<times> cbb" where
  "cbb_add_length_prefixed al d len_len s =
     (case CBB_flush al d s of
        (False, s) \<Rightarrow> (False, s)
      | (True, s) \<Rightarrow>
          (let off = cbb_offset s in
           case cbb_base s of
             None \<Rightarrow> (False, s)
           | Some b \<Rightarrow>
               (case cbb_buffer_add al b (replicate len_len 0) of
                  (False, b) \<Rightarrow> (False, s\<lparr>cbb_base := Some b\<rparr>)
                | (True, b) \<Rightarrow>
                    (True, cbb_open_child d
                       \<lparr>offset = off, pending_len_len = len_len, pending_is_asn1 = False\<rparr>
                       (s\<lparr>cbb_base := Some b\<rparr>)))))"

definition CBB_add_u8_length_prefixed :: "allocator \<Rightarrow> nat \<Rightarrow> cbb \<Rightarrow> bool \<times> cbb" where
  "CBB_add_u8_length_prefixed al d = cbb_add_length_prefixed al d 1"

definition CBB_add_u16_length_prefixed :: "allocator \<Rightarrow> nat \<Rightarrow> cbb \<Rightarrow> bool \<times> cbb" where
  "CBB_add_u16_length_prefixed al d = cbb_add_length_prefixed al d 2"

definition CBB_add_u24_length_prefixed :: "allocator \<Rightarrow> nat \<Rightarrow> cbb \<Rightarrow> bool \<times> cbb" where
  "CBB_add_u24_length_prefixed al d = cbb_add_length_prefixed al d 3"

definition CBB_add_bytes :: "allocator \<Rightarrow> nat \<Rightarrow> bytes \<Rightarrow> cbb \<Rightarrow> bool \<times> cbb" where
  "CBB_add_bytes al d data = cbb_flush_then al d (\<lambda>b. cbb_buffer_add al b data)"

text \<open>\<open>written\<close> is what the caller puts into the space, which counts as written at once.\<close>

definition CBB_add_space :: "allocator \<Rightarrow> nat \<Rightarrow> bytes \<Rightarrow> cbb \<Rightarrow> bool \<times> cbb" where
  "CBB_add_space al d written = cbb_flush_then al d (\<lambda>b. cbb_buffer_add al b written)"

definition CBB_reserve :: "allocator \<Rightarrow> nat \<Rightarrow> nat \<Rightarrow> cbb \<Rightarrow> bool \<times> cbb" where
  "CBB_reserve al d len = cbb_flush_then al d (\<lambda>b. cbb_buffer_reserve al b len)"

text \<open>Only the innermost \<open>CBB\<close> has no open child; a closed one must not be passed at all.\<close>

definition CBB_did_write :: "nat \<Rightarrow> bytes \<Rightarrow> cbb \<Rightarrow> bool \<times> cbb" where
  "CBB_did_write d written s =
     (case cbb_base s of
        None \<Rightarrow> (False, s)
      | Some b \<Rightarrow>
          (let newlen = size_add (length (cb_data b)) (length written) in
           if d \<noteq> length (children s) \<or> newlen < length (cb_data b) \<or> newlen > cb_cap b
           then (False, s)
           else (True, s\<lparr>cbb_base := Some (b\<lparr>cb_data := cb_data b @ written\<rparr>)\<rparr>)))"

definition CBB_add_u8 :: "allocator \<Rightarrow> nat \<Rightarrow> u8 \<Rightarrow> cbb \<Rightarrow> bool \<times> cbb" where
  "CBB_add_u8 al d v = cbb_flush_then al d (\<lambda>b. cbb_buffer_add_u al b (ucast v) 1)"

definition CBB_add_u16 :: "allocator \<Rightarrow> nat \<Rightarrow> u16 \<Rightarrow> cbb \<Rightarrow> bool \<times> cbb" where
  "CBB_add_u16 al d v = cbb_flush_then al d (\<lambda>b. cbb_buffer_add_u al b (ucast v) 2)"

definition CBB_add_u16le :: "allocator \<Rightarrow> nat \<Rightarrow> u16 \<Rightarrow> cbb \<Rightarrow> bool \<times> cbb" where
  "CBB_add_u16le al d v = CBB_add_u16 al d (CRYPTO_bswap2 v)"

definition CBB_add_u24 :: "allocator \<Rightarrow> nat \<Rightarrow> u32 \<Rightarrow> cbb \<Rightarrow> bool \<times> cbb" where
  "CBB_add_u24 al d v = cbb_flush_then al d (\<lambda>b. cbb_buffer_add_u al b (ucast v) 3)"

definition CBB_add_u32 :: "allocator \<Rightarrow> nat \<Rightarrow> u32 \<Rightarrow> cbb \<Rightarrow> bool \<times> cbb" where
  "CBB_add_u32 al d v = cbb_flush_then al d (\<lambda>b. cbb_buffer_add_u al b (ucast v) 4)"

definition CBB_add_u32le :: "allocator \<Rightarrow> nat \<Rightarrow> u32 \<Rightarrow> cbb \<Rightarrow> bool \<times> cbb" where
  "CBB_add_u32le al d v = CBB_add_u32 al d (CRYPTO_bswap4 v)"

definition CBB_add_u64 :: "allocator \<Rightarrow> nat \<Rightarrow> u64 \<Rightarrow> cbb \<Rightarrow> bool \<times> cbb" where
  "CBB_add_u64 al d v = cbb_flush_then al d (\<lambda>b. cbb_buffer_add_u al b v 8)"

definition CBB_add_u64le :: "allocator \<Rightarrow> nat \<Rightarrow> u64 \<Rightarrow> cbb \<Rightarrow> bool \<times> cbb" where
  "CBB_add_u64le al d v = CBB_add_u64 al d (CRYPTO_bswap8 v)"

definition CBB_discard_child :: "nat \<Rightarrow> cbb \<Rightarrow> cbb" where
  "CBB_discard_child d s =
     (if length (children s) \<le> d then s
      else s\<lparr>cbb_base := map_option (\<lambda>b. b\<lparr>cb_data := take (offset (children s ! d)) (cb_data b)\<rparr>) (cbb_base s),
             children := take d (children s)\<rparr>)"

section \<open>Writing ASN.1\<close>

text \<open>Sequencing of calls whose failure returns zero at once.\<close>

definition cbb_seq :: "(cbb \<Rightarrow> bool \<times> cbb) \<Rightarrow> (cbb \<Rightarrow> bool \<times> cbb) \<Rightarrow> cbb \<Rightarrow> bool \<times> cbb" where
  "cbb_seq f g s = (case f s of (False, s) \<Rightarrow> (False, s) | (True, s) \<Rightarrow> g s)"

function base128_len_len :: "u64 \<Rightarrow> nat" where
  "base128_len_len copy = (if copy = 0 then 0 else Suc (base128_len_len (drop_bit 7 copy)))"
  by pat_completeness auto
termination
proof (relation "measure unat")
  fix copy :: u64
  assume "copy \<noteq> 0"
  then have "0 < unat copy" by (simp add: unat_gt_0)
  then show "(drop_bit 7 copy, copy) \<in> measure unat" by (simp add: unat_drop_bit)
qed simp

declare base128_len_len.simps [simp del]

text \<open>The loop runs \<open>i\<close> from \<open>len_len - 1\<close> down to zero.\<close>

fun add_base128_loop :: "allocator \<Rightarrow> nat \<Rightarrow> u64 \<Rightarrow> nat \<Rightarrow> cbb \<Rightarrow> bool \<times> cbb" where
  "add_base128_loop al d v 0 s = (True, s)"
| "add_base128_loop al d v (Suc i) s =
     (let byt = ucast (drop_bit (7 * i) v) AND 0x7f;
          byt = (if i \<noteq> 0 then byt OR 0x80 else byt)
      in case CBB_add_u8 al d byt s of
           (False, s) \<Rightarrow> (False, s)
         | (True, s) \<Rightarrow> add_base128_loop al d v i s)"

definition add_base128_integer :: "allocator \<Rightarrow> nat \<Rightarrow> u64 \<Rightarrow> cbb \<Rightarrow> bool \<times> cbb" where
  "add_base128_integer al d v =
     (let len_len = base128_len_len v;
          len_len = (if len_len = 0 then 1 else len_len)
      in add_base128_loop al d v len_len)"

definition CBB_add_asn1 :: "allocator \<Rightarrow> nat \<Rightarrow> u32 \<Rightarrow> cbb \<Rightarrow> bool \<times> cbb" where
  "CBB_add_asn1 al d tag s =
     (case CBB_flush al d s of
        (False, s) \<Rightarrow> (False, s)
      | (True, s) \<Rightarrow>
          (let tag_bits = ucast (drop_bit CBS_ASN1_TAG_SHIFT tag) AND 0xe0;
               tag_number = tag AND CBS_ASN1_TAG_NUMBER_MASK
           in case (if tag_number \<ge> 0x1f
                    then cbb_seq (CBB_add_u8 al d (tag_bits OR 0x1f))
                                 (add_base128_integer al d (ucast tag_number)) s
                    else CBB_add_u8 al d (tag_bits OR ucast tag_number) s) of
                (False, s) \<Rightarrow> (False, s)
              | (True, s) \<Rightarrow>
                  (let off = cbb_offset s in
                   case CBB_add_u8 al d 0 s of
                     (False, s) \<Rightarrow> (False, s)
                   | (True, s) \<Rightarrow>
                       (True, cbb_open_child d
                          \<lparr>offset = off, pending_len_len = 1, pending_is_asn1 = True\<rparr> s))))"

fun add_uint64_loop :: "allocator \<Rightarrow> nat \<Rightarrow> u64 \<Rightarrow> nat list \<Rightarrow> bool \<Rightarrow> cbb \<Rightarrow> bool \<times> bool \<times> cbb" where
  "add_uint64_loop al d val [] started s = (True, started, s)"
| "add_uint64_loop al d val (i # is) started s =
     (let byt = ucast (drop_bit (8 * (7 - i)) val) in
      if \<not> started \<and> byt = 0 then add_uint64_loop al d val is started s
      else
        (case (if \<not> started \<and> byt AND 0x80 \<noteq> 0 then CBB_add_u8 al d 0 s else (True, s)) of
           (False, s) \<Rightarrow> (False, started, s)
         | (True, s) \<Rightarrow>
             (case CBB_add_u8 al d byt s of
                (False, s) \<Rightarrow> (False, True, s)
              | (True, s) \<Rightarrow> add_uint64_loop al d val is True s)))"

definition CBB_add_asn1_uint64 :: "allocator \<Rightarrow> nat \<Rightarrow> u64 \<Rightarrow> cbb \<Rightarrow> bool \<times> cbb" where
  "CBB_add_asn1_uint64 al d val s =
     (case CBB_add_asn1 al d CBS_ASN1_INTEGER s of
        (False, s) \<Rightarrow> (False, s)
      | (True, s) \<Rightarrow>
          (case add_uint64_loop al (Suc d) val [0..<8] False s of
             (False, _, s) \<Rightarrow> (False, s)
           | (True, started, s) \<Rightarrow>
               (case (if \<not> started then CBB_add_u8 al (Suc d) 0 s else (True, s)) of
                  (False, s) \<Rightarrow> (False, s)
                | (True, s) \<Rightarrow> CBB_flush al d s)))"

text \<open>The bytes of the union, least significant first, and the index of the first one needed.\<close>

definition int64_bytes :: "int \<Rightarrow> bytes" where
  "int64_bytes v = map (\<lambda>i. ucast (drop_bit (8 * i) (word_of_int v :: u64))) [0..<8]"

fun int64_start :: "bytes \<Rightarrow> nat \<Rightarrow> nat" where
  "int64_start bs 0 = 0"
| "int64_start bs (Suc n) =
     (if bs ! Suc n = 0xff \<and> bs ! n AND 0x80 \<noteq> 0 then int64_start bs n else Suc n)"

fun add_int64_loop :: "allocator \<Rightarrow> nat \<Rightarrow> bytes \<Rightarrow> nat \<Rightarrow> cbb \<Rightarrow> bool \<times> cbb" where
  "add_int64_loop al d bs 0 s = (True, s)"
| "add_int64_loop al d bs (Suc i) s =
     (case CBB_add_u8 al d (bs ! i) s of
        (False, s) \<Rightarrow> (False, s)
      | (True, s) \<Rightarrow> add_int64_loop al d bs i s)"

definition CBB_add_asn1_int64 :: "allocator \<Rightarrow> nat \<Rightarrow> int \<Rightarrow> cbb \<Rightarrow> bool \<times> cbb" where
  "CBB_add_asn1_int64 al d val s =
     (if val \<ge> 0 then CBB_add_asn1_uint64 al d (word_of_int val) s
      else
        (let u = int64_bytes val; start = int64_start u 7
         in cbb_seq (CBB_add_asn1 al d CBS_ASN1_INTEGER)
              (cbb_seq (add_int64_loop al (Suc d) u (Suc start)) (CBB_flush al d)) s))"

definition CBB_add_asn1_octet_string :: "allocator \<Rightarrow> nat \<Rightarrow> bytes \<Rightarrow> cbb \<Rightarrow> bool \<times> cbb" where
  "CBB_add_asn1_octet_string al d data =
     cbb_seq (CBB_add_asn1 al d CBS_ASN1_OCTETSTRING)
       (cbb_seq (CBB_add_bytes al (Suc d) data) (CBB_flush al d))"

definition CBB_add_asn1_bool :: "allocator \<Rightarrow> nat \<Rightarrow> int \<Rightarrow> cbb \<Rightarrow> bool \<times> cbb" where
  "CBB_add_asn1_bool al d val =
     cbb_seq (CBB_add_asn1 al d CBS_ASN1_BOOLEAN)
       (cbb_seq (CBB_add_u8 al (Suc d) (if val \<noteq> 0 then 0xff else 0)) (CBB_flush al d))"

end
