(* ===== verification/Cbb_Spec.thy ===== *)
theory Cbb_Spec
  imports Cbb Der_Values
begin

text \<open>
  What the builder of \<open>cbb.c\<close> promises. The abstract state is a stack of frames, each with the
  bytes written at its level so far; sealing a frame puts its length in front. The contract of a
  writer (locale \<open>writer\<close>) relates a function of \<open>cbb.c\<close> to an operation on frames, for a fixed or
  a growing buffer and any allocator; every writer of \<open>cbb.c\<close> is shown to obey it.
\<close>

section \<open>The buffer\<close>

definition buffer_ok :: "cbb_buffer \<Rightarrow> bool" where
  "buffer_ok b \<longleftrightarrow> length (cb_data b) \<le> cb_cap b \<and> cb_cap b < size_max"

definition infallible :: "allocator \<Rightarrow> bool" where
  "infallible al \<longleftrightarrow> (\<forall>n. al n)"

lemma buffer_reserve:
  assumes "buffer_ok b" and "n < size_max" and "cbb_buffer_reserve al b n = (ok, b')"
  shows "buffer_ok b'" and "cb_data b' = cb_data b" and "can_resize b' = can_resize b"
    and "\<not> can_resize b \<Longrightarrow> cb_cap b' = cb_cap b"
    and "cb_error b' = (cb_error b \<or> \<not> ok)"
    and "ok \<Longrightarrow> length (cb_data b) + n \<le> cb_cap b'"
    and "\<lbrakk>\<not> ok; infallible al; can_resize b\<rbrakk> \<Longrightarrow> size_max \<le> length (cb_data b) + n"
proof -
  let ?l = "length (cb_data b)"
  have l: "?l < size_max" using assms(1) by (simp add: buffer_ok_def)
  have wrap: "size_add ?l n < ?l \<longleftrightarrow> size_max \<le> ?l + n"
    using l assms(2) by (rule size_add_overflow)
  have exact: "size_add ?l n = ?l + n" if "\<not> size_max \<le> ?l + n"
    using that by (simp add: size_add_exact)
  have mul: "size_mul x 2 < size_max" for x by (simp add: size_mul_def)
  note defs = cbb_buffer_reserve_def Let_def wrap buffer_ok_def infallible_def OPENSSL_malloc_def
  show "buffer_ok b'" "cb_data b' = cb_data b" "can_resize b' = can_resize b"
    "\<not> can_resize b \<Longrightarrow> cb_cap b' = cb_cap b" "cb_error b' = (cb_error b \<or> \<not> ok)"
    "ok \<Longrightarrow> length (cb_data b) + n \<le> cb_cap b'"
    "\<lbrakk>\<not> ok; infallible al; can_resize b\<rbrakk> \<Longrightarrow> size_max \<le> ?l + n"
    using assms(1,3) l exact mul by (auto simp: defs split: if_splits)
qed

lemma buffer_add:
  assumes "buffer_ok b" and "length bs < size_max" and "cbb_buffer_add al b bs = (ok, b')"
  shows "buffer_ok b'" and "cb_data b' = (if ok then cb_data b @ bs else cb_data b)"
    and "can_resize b' = can_resize b"
    and "\<not> can_resize b \<Longrightarrow> cb_cap b' = cb_cap b"
    and "cb_error b' = (cb_error b \<or> \<not> ok)"
    and "\<lbrakk>\<not> ok; infallible al; can_resize b\<rbrakk> \<Longrightarrow> size_max \<le> length (cb_data b) + length bs"
proof -
  obtain ok' c where r: "cbb_buffer_reserve al b (length bs) = (ok', c)" by fastforce
  note res = buffer_reserve [OF assms(1,2) r]
  show "buffer_ok b'" "cb_data b' = (if ok then cb_data b @ bs else cb_data b)"
    "can_resize b' = can_resize b" "\<not> can_resize b \<Longrightarrow> cb_cap b' = cb_cap b"
    "cb_error b' = (cb_error b \<or> \<not> ok)"
    "\<lbrakk>\<not> ok; infallible al; can_resize b\<rbrakk> \<Longrightarrow> size_max \<le> length (cb_data b) + length bs"
    using assms(3) r res by (auto simp: cbb_buffer_add_def buffer_ok_def split: bool.splits prod.splits)
qed

lemma store_be_bytes: "store_be n v = be_bytes n (unat v)"
proof (induction n arbitrary: v)
  case (Suc n)
  have "(ucast v :: u8) = word_of_nat (unat v)" by simp
  then show ?case by (simp add: Suc unat_drop_bit)
qed simp

lemma buffer_add_u:
  assumes "buffer_ok b" and "0 < n" and "n \<le> 8" and "cbb_buffer_add_u al b v n = (ok, b')"
  shows "ok \<Longrightarrow> cbb_buffer_add al b (be_bytes n (unat v)) = (True, b') \<and> unat v < 256 ^ n"
    and "\<lbrakk>\<not> ok; unat v < 256 ^ n\<rbrakk> \<Longrightarrow> cbb_buffer_add al b (be_bytes n (unat v)) = (False, b')"
    and "buffer_ok b'" and "can_resize b' = can_resize b"
    and "\<not> can_resize b \<Longrightarrow> cb_cap b' = cb_cap b" and "\<not> ok \<Longrightarrow> cb_error b'"
proof -
  have fit: "drop_bit (8 * n) v = 0 \<longleftrightarrow> unat v < 256 ^ n"
    using power_mult [of "2::nat" 8 n] by (simp only: drop_bit_eq_0_iff) simp
  obtain ok' c where r: "cbb_buffer_add al b (be_bytes n (unat v)) = (ok', c)" by fastforce
  have "length (be_bytes n (unat v)) < size_max" using assms(3) by (simp add: size_max_def)
  note add = buffer_add [OF assms(1) this r]
  show "ok \<Longrightarrow> cbb_buffer_add al b (be_bytes n (unat v)) = (True, b') \<and> unat v < 256 ^ n"
    "\<lbrakk>\<not> ok; unat v < 256 ^ n\<rbrakk> \<Longrightarrow> cbb_buffer_add al b (be_bytes n (unat v)) = (False, b')"
    "buffer_ok b'" "can_resize b' = can_resize b"
    "\<not> can_resize b \<Longrightarrow> cb_cap b' = cb_cap b" "\<not> ok \<Longrightarrow> cb_error b'"
    using assms(2,4) r add
    by (auto simp: cbb_buffer_add_u_def store_be_bytes fit buffer_ok_def split: bool.splits if_splits)
qed

section \<open>Frames\<close>

text \<open>How the length of a frame is written: not at all, in so many bytes, or in DER.\<close>

datatype kind = Root | Fixed nat | Asn1

type_synonym frame = "kind \<times> bytes"

fun holes :: "kind \<Rightarrow> nat" where
  "holes Root = 0"
| "holes (Fixed n) = n"
| "holes Asn1 = 1"

fun len_prefix :: "kind \<Rightarrow> nat \<Rightarrow> bytes" where
  "len_prefix Root l = []"
| "len_prefix (Fixed n) l = be_bytes n l"
| "len_prefix Asn1 l = der_length l"

fun len_fits :: "kind \<Rightarrow> nat \<Rightarrow> bool" where
  "len_fits Root l = True"
| "len_fits (Fixed n) l = (l < 256 ^ n)"
| "len_fits Asn1 l = (l \<le> 0xfffffffe)"

text \<open>The bytes a stack of frames seals to, and whether every length fits its prefix.\<close>

fun sealed :: "frame list \<Rightarrow> bytes" where
  "sealed [] = []"
| "sealed ((k, b) # fs) = (let body = b @ sealed fs in len_prefix k (length body) @ body)"

fun fits :: "frame list \<Rightarrow> bool" where
  "fits [] = True"
| "fits ((k, b) # fs) = (fits fs \<and> len_fits k (length (b @ sealed fs)))"

text \<open>What the buffer and the chain of children look like while the frames are open.\<close>

fun layout :: "frame list \<Rightarrow> bytes" where
  "layout [] = []"
| "layout ((k, b) # fs) = replicate (holes k) 0 @ b @ layout fs"

fun layout_children :: "nat \<Rightarrow> frame list \<Rightarrow> cbb_child list" where
  "layout_children off [] = []"
| "layout_children off ((k, b) # fs) =
     \<lparr>offset = off, pending_len_len = holes k, pending_is_asn1 = (k = Asn1)\<rparr>
     # layout_children (off + holes k + length b) fs"

definition frames_ok :: "frame list \<Rightarrow> bool" where
  "frames_ok fs \<longleftrightarrow> (\<forall>(k, b) \<in> set fs. 0 < holes k)"

lemma frames_ok_simps [simp]:
  "frames_ok []" "frames_ok ((k, b) # fs) \<longleftrightarrow> 0 < holes k \<and> frames_ok fs"
  "frames_ok (fs @ gs) \<longleftrightarrow> frames_ok fs \<and> frames_ok gs"
  by (auto simp: frames_ok_def)

lemma frames_ok_drop: "frames_ok fs \<Longrightarrow> frames_ok (drop n fs)"
  by (auto simp: frames_ok_def dest: in_set_dropD)

lemma frames_ok_take: "frames_ok fs \<Longrightarrow> frames_ok (take n fs)"
  by (auto simp: frames_ok_def dest: in_set_takeD)

lemma layout_append [simp]: "layout (fs @ gs) = layout fs @ layout gs"
  by (induction fs rule: layout.induct) auto

lemma length_layout_children [simp]: "length (layout_children off fs) = length fs"
  by (induction off fs rule: layout_children.induct) auto

lemma layout_children_append [simp]:
  "layout_children off (fs @ gs) = layout_children off fs @ layout_children (off + length (layout fs)) gs"
  by (induction off fs rule: layout_children.induct) (auto simp: add.assoc)

lemma layout_children_drop:
  "drop n (layout_children off fs) = layout_children (off + length (layout (take n fs))) (drop n fs)"
proof -
  have "layout_children off fs = layout_children off (take n fs @ drop n fs)" by simp
  then show ?thesis
    by (cases "n \<le> length fs") (simp_all only: layout_children_append, simp_all)
qed

lemma layout_children_take: "take n (layout_children off fs) = layout_children off (take n fs)"
proof -
  have "layout_children off fs = layout_children off (take n fs @ drop n fs)" by simp
  then show ?thesis
    by (cases "n \<le> length fs") (simp_all only: layout_children_append, simp_all)
qed

lemma holes_le_prefix: "holes k \<le> length (len_prefix k l)"
  by (cases k) (use length_der_length(2) [of l] in \<open>auto simp: Suc_le_eq\<close>)

lemma length_layout_le: "length (layout fs) \<le> length (sealed fs)"
proof (induction fs rule: sealed.induct)
  case (2 k b fs)
  then show ?case
    using holes_le_prefix [of k "length (b @ sealed fs)"] by (simp add: Let_def)
qed simp

lemma layout_split: "layout (take n fs) @ layout (drop n fs) = layout fs"
  by (metis append_take_drop_id layout_append)

section \<open>Writing a length prefix\<close>

lemma write_at_middle [simp]:
  "length bs = length old \<Longrightarrow> write_at (length pre) bs (pre @ old @ post) = pre @ bs @ post"
  by (simp add: write_at_def)

text \<open>The long form of the length moves the body along first.\<close>

lemma memmove_body:
  assumes "length zs = e"
  shows "memmove (length pre + e) (length pre) (length body) (pre @ body @ zs)
           = pre @ take e (body @ zs) @ body"
proof -
  have "take (length pre + e) (pre @ body @ zs) = pre @ take e (body @ zs)" by simp
  moreover have "take (length body) (drop (length pre) (pre @ body @ zs)) = body" by simp
  moreover have "drop (length pre + e + length body) (pre @ body @ zs) = []" using assms by simp
  ultimately show ?thesis by (simp add: memmove_def write_at_def)
qed

lemma asn1_len_len_der:
  assumes "asn1_len_len n = (l, b)" and "n \<le> 0xfffffffe"
  shows "der_length n = b # be_bytes (l - 1) (if l = 1 then 0 else n)"
    and "l \<noteq> 1 \<Longrightarrow> n < 256 ^ (l - 1)" and "1 \<le> l" and "l \<le> 5"
  using assms
  by (auto simp: asn1_len_len_def der_length_def len_octets_def split: if_splits)

text \<open>The prefix of one frame whose body is already in place behind its hole.\<close>

lemma cbb_write_prefix_fixed:
  assumes "cb_data b = pre @ replicate (holes k) 0 @ body" and "k = Fixed n"
    and "c = \<lparr>offset = length pre, pending_len_len = holes k, pending_is_asn1 = (k = Asn1)\<rparr>"
  shows "cbb_write_prefix al b c (length pre + holes k) =
    (let b' = b\<lparr>cb_data := pre @ len_prefix k (length body) @ body\<rparr>
     in if len_fits k (length body) then (True, b') else (False, b'\<lparr>cb_error := True\<rparr>))"
  using assms by (simp add: cbb_write_prefix_def Let_def div_eq_0_iff)

lemma cbb_write_prefix_asn1:
  assumes ok: "buffer_ok b" and data: "cb_data b = pre @ 0 # body"
    and c: "c = \<lparr>offset = length pre, pending_len_len = 1, pending_is_asn1 = True\<rparr>"
    and w: "cbb_write_prefix al b c (length pre + 1) = (r, b')"
  shows "buffer_ok b'" and "can_resize b' = can_resize b"
    and "\<not> can_resize b \<Longrightarrow> cb_cap b' = cb_cap b" and "cb_error b' = (cb_error b \<or> \<not> r)"
    and "r \<Longrightarrow> length body \<le> 0xfffffffe \<and> cb_data b' = pre @ der_length (length body) @ body"
    and "\<lbrakk>\<not> r; infallible al; can_resize b; length body \<le> 0xfffffffe\<rbrakk>
          \<Longrightarrow> size_max \<le> length (pre @ der_length (length body) @ body)"
proof -
  obtain l i where li: "asn1_len_len (length body) = (l, i)" by fastforce
  let ?e = "l - 1"
  obtain r1 b1 where add: "(if l \<noteq> 1 then cbb_buffer_add al b (replicate ?e 0) else (True, b)) = (r1, b1)"
    by fastforce
  have len: "length (cb_data b) - (length pre + 1) = length body"
    "length (cb_data b) - Suc (length pre) = length body" by (simp_all add: data)
  have goal: "buffer_ok b' \<and> can_resize b' = can_resize b \<and> (\<not> can_resize b \<longrightarrow> cb_cap b' = cb_cap b)
    \<and> cb_error b' = (cb_error b \<or> \<not> r)
    \<and> (r \<longrightarrow> length body \<le> 0xfffffffe \<and> cb_data b' = pre @ der_length (length body) @ body)
    \<and> (\<not> r \<and> infallible al \<and> can_resize b \<and> length body \<le> 0xfffffffe
        \<longrightarrow> size_max \<le> length (pre @ der_length (length body) @ body))"
  proof (cases "length body \<le> 0xfffffffe")
    case False
    then have "\<not> length body \<le> 4294967294" by simp
    with w ok show ?thesis
      by (auto simp: cbb_write_prefix_def Let_def len c buffer_ok_def)
  next
    case True
    note der = asn1_len_len_der [OF li True]
    have room: "length (replicate ?e (0::u8)) < size_max" using der(4) by (simp add: size_max_def)
    have data1: "cb_data b1 = (if r1 then cb_data b @ replicate ?e 0 else cb_data b)"
      and b1: "buffer_ok b1" "can_resize b1 = can_resize b" "\<not> can_resize b \<Longrightarrow> cb_cap b1 = cb_cap b"
      "cb_error b1 = (cb_error b \<or> \<not> r1)"
      and fail: "\<lbrakk>\<not> r1; infallible al; can_resize b\<rbrakk> \<Longrightarrow> size_max \<le> length (cb_data b) + ?e"
      using add ok buffer_add [OF ok room, of al r1 b1] by (auto split: if_splits)
    have unfold: "cbb_write_prefix al b c (length pre + 1) =
      (if \<not> r1 then (False, b1\<lparr>cb_error := True\<rparr>)
       else (True, b1\<lparr>cb_data := write_at (length pre + 1) (be_bytes ?e (if l = 1 then 0 else length body))
          (write_at (length pre) [i] (if l \<noteq> 1 then memmove (length pre + 1 + ?e) (length pre + 1)
             (length body) (cb_data b1) else cb_data b1))\<rparr>))"
      using True der(2) add
      by (auto simp: cbb_write_prefix_def Let_def len c li div_eq_0_iff split: bool.splits)
    show ?thesis
    proof (cases r1)
      case False
      then have b': "\<not> r" "b' = b1\<lparr>cb_error := True\<rparr>"
        using w [unfolded unfold] by simp_all
      have "length (pre @ der_length (length body) @ body) = length (cb_data b) + ?e"
        by (simp add: der(1) data)
      with False b1 fail b' show ?thesis by (simp add: buffer_ok_def)
    next
      case r1: True
      have moved: "(if l \<noteq> 1 then memmove (length pre + 1 + ?e) (length pre + 1) (length body) (cb_data b1)
          else cb_data b1) = pre @ [0] @ take ?e (body @ replicate ?e 0) @ body"
        using memmove_body [of "replicate ?e 0" ?e "pre @ [0]" body] r1 der(3)
        by (auto simp: data1 data)
      have "write_at (length pre + 1) (be_bytes ?e n)
          (write_at (length pre) [i] (pre @ [0] @ take ?e (body @ replicate ?e 0) @ body))
          = pre @ i # be_bytes ?e n @ body" for n
        using write_at_middle [of "[i]" "[0]" pre]
          write_at_middle [of "be_bytes ?e n" "take ?e (body @ replicate ?e 0)" "pre @ [i]" body]
        by simp
      then have b': "r" "b' = b1\<lparr>cb_data := pre @ der_length (length body) @ body\<rparr>"
        using w [unfolded unfold moved] r1 by (simp_all add: der(1))
      moreover have "length (der_length (length body)) = Suc ?e" by (simp add: der(1))
      ultimately show ?thesis using b1 True data1 r1 by (simp add: buffer_ok_def data)
    qed
  qed
  then show "buffer_ok b'" "can_resize b' = can_resize b" "\<not> can_resize b \<Longrightarrow> cb_cap b' = cb_cap b"
    "cb_error b' = (cb_error b \<or> \<not> r)"
    "r \<Longrightarrow> length body \<le> 0xfffffffe \<and> cb_data b' = pre @ der_length (length body) @ body"
    "\<lbrakk>\<not> r; infallible al; can_resize b; length body \<le> 0xfffffffe\<rbrakk>
      \<Longrightarrow> size_max \<le> length (pre @ der_length (length body) @ body)"
    by blast+
qed

text \<open>Both cases, for a frame of any kind that has a prefix.\<close>

definition same_buffer :: "cbb_buffer \<Rightarrow> cbb_buffer \<Rightarrow> bool" where
  "same_buffer b b' \<longleftrightarrow>
     can_resize b' = can_resize b \<and> (\<not> can_resize b \<longrightarrow> cb_cap b' = cb_cap b)"

lemma same_buffer_refl [simp]: "same_buffer b b"
  by (simp add: same_buffer_def)

lemma same_buffer_trans: "same_buffer a b \<Longrightarrow> same_buffer b c \<Longrightarrow> same_buffer a c"
  by (auto simp: same_buffer_def)

lemma same_buffer_update [simp]:
  "same_buffer a (b\<lparr>cb_data := d\<rparr>) = same_buffer a b"
  "same_buffer a (b\<lparr>cb_error := e\<rparr>) = same_buffer a b"
  by (auto simp: same_buffer_def)

lemma cbb_write_prefix:
  assumes ok: "buffer_ok b" "\<not> cb_error b" and k: "0 < holes k"
    and data: "cb_data b = pre @ replicate (holes k) 0 @ body"
    and c: "c = \<lparr>offset = length pre, pending_len_len = holes k, pending_is_asn1 = (k = Asn1)\<rparr>"
    and w: "cbb_write_prefix al b c (length pre + holes k) = (r, b')"
  shows "buffer_ok b'" and "same_buffer b b'" and "cb_error b' = (\<not> r)"
    and "r \<Longrightarrow> len_fits k (length body) \<and> cb_data b' = pre @ len_prefix k (length body) @ body"
    and "\<lbrakk>\<not> r; infallible al; can_resize b; len_fits k (length body)\<rbrakk>
          \<Longrightarrow> size_max \<le> length (pre @ len_prefix k (length body) @ body)"
proof -
  let ?post = "buffer_ok b' \<and> same_buffer b b' \<and> cb_error b' = (\<not> r) \<and>
    (r \<longrightarrow> len_fits k (length body) \<and> cb_data b' = pre @ len_prefix k (length body) @ body) \<and>
    (\<not> r \<and> infallible al \<and> can_resize b \<and> len_fits k (length body) \<longrightarrow>
       size_max \<le> length (pre @ len_prefix k (length body) @ body))"
  have ?post
  proof (cases k)
    case Root
    with k show ?post by simp
  next
    case (Fixed n)
    have "(let b' = b\<lparr>cb_data := pre @ len_prefix k (length body) @ body\<rparr>
       in if len_fits k (length body) then (True, b') else (False, b'\<lparr>cb_error := True\<rparr>)) = (r, b')"
      using w cbb_write_prefix_fixed [OF data Fixed c, of al] by simp
    with ok data Fixed show ?post by (auto simp: Let_def buffer_ok_def split: if_splits)
  next
    case Asn1
    have data1: "cb_data b = pre @ 0 # body" using data Asn1 by simp
    have c1: "c = \<lparr>offset = length pre, pending_len_len = 1, pending_is_asn1 = True\<rparr>"
      using c Asn1 by simp
    have w1: "cbb_write_prefix al b c (length pre + 1) = (r, b')" using w Asn1 by simp
    from cbb_write_prefix_asn1 [OF ok(1) data1 c1 w1] ok(2) Asn1
    show ?post by (simp add: same_buffer_def)
  qed
  then show "buffer_ok b'" "same_buffer b b'" "cb_error b' = (\<not> r)"
    "r \<Longrightarrow> len_fits k (length body) \<and> cb_data b' = pre @ len_prefix k (length body) @ body"
    "\<lbrakk>\<not> r; infallible al; can_resize b; len_fits k (length body)\<rbrakk>
      \<Longrightarrow> size_max \<le> length (pre @ len_prefix k (length body) @ body)"
    by blast+
qed

section \<open>Flushing a chain of children\<close>

lemma cbb_flush_chain:
  assumes "buffer_ok b" and "\<not> cb_error b" and "frames_ok fs" and "cb_data b = pre @ layout fs"
    and "cbb_flush_chain al b (layout_children (length pre) fs) = (ok, b', cs)"
  shows "buffer_ok b' \<and> same_buffer b b' \<and> cb_error b' = (\<not> ok) \<and>
    (ok \<longrightarrow> cs = [] \<and> fits fs \<and> cb_data b' = pre @ sealed fs) \<and>
    (\<not> ok \<and> infallible al \<and> can_resize b \<and> fits fs \<longrightarrow> size_max \<le> length (pre @ sealed fs))"
  using assms
proof (induction fs arbitrary: pre b ok b' cs rule: sealed.induct)
  case (2 k bs fs)
  let ?c = "\<lparr>offset = length pre, pending_len_len = holes k, pending_is_asn1 = (k = Asn1)\<rparr>"
  let ?hole = "replicate (holes k) (0 :: u8)"
  have k: "0 < holes k" and fs: "frames_ok fs" using "2.prems"(3) by simp_all
  have data: "cb_data b = (pre @ ?hole @ bs) @ layout fs" using "2.prems"(4) by simp
  have "length (pre @ ?hole @ bs) = length pre + holes k + length bs" by simp
  then obtain ok1 b1 cs1 where inner:
    "cbb_flush_chain al b (layout_children (length (pre @ ?hole @ bs)) fs) = (ok1, b1, cs1)"
    by (metis prod_cases3)
  note IH = "2.IH" [OF "2.prems"(1,2) fs data inner]
  have small: "length pre + holes k < size_max"
    using "2.prems"(1) data by (simp add: buffer_ok_def)
  have step: "cbb_flush_chain al b (layout_children (length pre) ((k, bs) # fs)) =
    (if \<not> ok1 then (False, b1\<lparr>cb_error := True\<rparr>, ?c # cs1)
     else case cbb_write_prefix al b1 ?c (length pre + holes k) of
            (False, b) \<Rightarrow> (False, b, ?c # cs1) | (True, b) \<Rightarrow> (True, b, []))"
    using "2.prems"(2) k inner IH
    by (auto simp: size_add_exact [OF small] Let_def add.assoc not_le)
  show ?case
  proof (cases ok1)
    case False
    have "length (sealed fs) \<le> length (sealed ((k, bs) # fs))" by (simp add: Let_def)
    moreover have "length (pre @ ?hole @ bs @ sealed fs) \<le> length (pre @ sealed ((k, bs) # fs))"
      using holes_le_prefix [of k "length (bs @ sealed fs)"] by (simp add: Let_def)
    moreover have "ok = False" "b' = b1\<lparr>cb_error := True\<rparr>"
      using "2.prems"(5) step False by auto
    ultimately show ?thesis using IH False
      by (auto simp: buffer_ok_def)
  next
    case True
    with IH have b1: "buffer_ok b1" "\<not> cb_error b1" "same_buffer b b1" "fits fs"
      "cb_data b1 = pre @ ?hole @ (bs @ sealed fs)" by simp_all
    obtain r b2 where w: "cbb_write_prefix al b1 ?c (length pre + holes k) = (r, b2)" by fastforce
    note post = cbb_write_prefix [OF b1(1,2) k b1(5) refl w]
    have "ok = r" "b' = b2" "ok \<Longrightarrow> cs = []"
      using "2.prems"(5) step True w by (auto split: bool.splits)
    with post b1(3,4) same_buffer_trans [OF b1(3) post(2)] show ?thesis
      by (auto simp: Let_def same_buffer_def)
  qed
qed simp

section \<open>The contract of a writer\<close>

definition repr :: "cbb \<Rightarrow> frame list \<Rightarrow> bool" where
  "repr s fs \<longleftrightarrow>
     (case cbb_base s of
        None \<Rightarrow> False
      | Some b \<Rightarrow> buffer_ok b \<and> \<not> cb_error b \<and> fs \<noteq> [] \<and> fst (hd fs) = Root \<and> frames_ok (tl fs)
          \<and> cb_data b = layout fs \<and> children s = tl (layout_children 0 fs))"

definition same_base :: "cbb \<Rightarrow> cbb \<Rightarrow> bool" where
  "same_base s s' \<longleftrightarrow> (\<exists>b b'. cbb_base s = Some b \<and> cbb_base s' = Some b' \<and> same_buffer b b')"

definition growable :: "cbb \<Rightarrow> bool" where
  "growable s \<longleftrightarrow> (\<exists>b. cbb_base s = Some b \<and> can_resize b)"

lemma repr_base: "repr s fs \<Longrightarrow> \<exists>b. cbb_base s = Some b"
  by (auto simp: repr_def split: option.splits)

lemma same_base_refl: "repr s fs \<Longrightarrow> same_base s s"
  using repr_base [of s fs] by (auto simp: same_base_def)

lemma same_base_trans: "same_base s t \<Longrightarrow> same_base t u \<Longrightarrow> same_base s u"
  by (auto simp: same_base_def intro: same_buffer_trans)

lemma same_base_growable: "same_base s t \<Longrightarrow> growable t = growable s"
  by (auto simp: same_base_def growable_def same_buffer_def)

text \<open>An error was recorded: the buffer is still within its bounds, its contents undefined.\<close>

definition halted :: "cbb \<Rightarrow> bool" where
  "halted s \<longleftrightarrow> (\<exists>b. cbb_base s = Some b \<and> buffer_ok b \<and> cb_error b)"

locale writer =
  fixes al :: allocator
    and f :: "cbb \<Rightarrow> bool \<times> cbb"
    and F :: "frame list \<Rightarrow> frame list option"
  assumes sound: "\<lbrakk>repr s fs; f s = (True, s')\<rbrakk>
      \<Longrightarrow> \<exists>fs'. F fs = Some fs' \<and> repr s' fs' \<and> same_base s s'"
    and complete: "\<lbrakk>repr s fs; f s = (False, s'); infallible al; growable s; F fs = Some fs'\<rbrakk>
      \<Longrightarrow> size_max \<le> length (sealed fs')"
    and fails: "\<lbrakk>repr s fs; f s = (False, s')\<rbrakk>
      \<Longrightarrow> same_base s s' \<and> (halted s' \<or> (\<exists>fs'. repr s' fs'))"
    and grows: "F fs = Some fs' \<Longrightarrow> length (sealed fs) \<le> length (sealed fs')"
begin

text \<open>A growing buffer and an allocator that never fails: the writer does what it should.\<close>

lemma runs:
  assumes "repr s fs" and "infallible al" and "growable s" and "F fs = Some fs'"
    and "length (sealed fs') < size_max"
  shows "\<exists>s'. f s = (True, s') \<and> repr s' fs' \<and> growable s'"
proof (cases "f s")
  case (Pair ok s')
  show ?thesis
  proof (cases ok)
    case True
    with Pair sound [OF assms(1), of s'] assms(3,4) show ?thesis
      by (auto simp: same_base_growable)
  next
    case False
    with Pair complete [OF assms(1) _ assms(2,3,4), of s'] assms(5) show ?thesis by auto
  qed
qed

text \<open>A fixed buffer is never outgrown.\<close>

lemma fixed_bound:
  assumes "repr s fs" and "f s = (ok, s')" and "cbb_base s = Some b" and "\<not> can_resize b"
  shows "\<exists>b'. cbb_base s' = Some b' \<and> cb_cap b' = cb_cap b \<and> length (cb_data b') \<le> cb_cap b"
proof -
  have "same_base s s' \<and> (halted s' \<or> (\<exists>fs'. repr s' fs'))"
    using sound [OF assms(1), of s'] fails [OF assms(1), of s'] assms(2) by (cases ok) auto
  with assms(3,4) show ?thesis
    by (auto simp: repr_def halted_def same_base_def same_buffer_def buffer_ok_def split: option.splits)
qed

end

text \<open>A strict writer does nothing once an error was recorded.\<close>

locale strict_writer = writer +
  assumes stuck: "halted s \<Longrightarrow> f s = (False, s)"
begin

text \<open>Success means that there was no error before.\<close>

lemma success_not_halted: "f s = (True, s') \<Longrightarrow> \<not> halted s"
  using stuck by fastforce

end

lemma writer_seq:
  assumes f: "writer al f F" and g: "writer al g G"
  shows "writer al (cbb_seq f g) (\<lambda>fs. Option.bind (F fs) G)"
proof
  fix s fs s'
  assume s: "repr s fs" and t: "cbb_seq f g s = (True, s')"
  from t obtain s1 where "f s = (True, s1)" "g s1 = (True, s')"
    by (auto simp: cbb_seq_def split: prod.splits bool.splits)
  with s show "\<exists>fs'. Option.bind (F fs) G = Some fs' \<and> repr s' fs' \<and> same_base s s'"
    using writer.sound [OF f, of s fs s1] writer.sound [OF g, of s1 _ s'] same_base_trans by fastforce
next
  fix s fs s' fs'
  assume s: "repr s fs" and t: "cbb_seq f g s = (False, s')" and al: "infallible al" "growable s"
    and F: "Option.bind (F fs) G = Some fs'"
  from F obtain fs1 where F1: "F fs = Some fs1" and G1: "G fs1 = Some fs'"
    by (auto simp: bind_eq_Some_conv)
  obtain ok s1 where f1: "f s = (ok, s1)" by fastforce
  show "size_max \<le> length (sealed fs')"
  proof (cases ok)
    case False
    with writer.complete [OF f s _ al F1] f1 writer.grows [OF g G1] show ?thesis by fastforce
  next
    case True
    with t f1 have g1: "g s1 = (False, s')" by (simp add: cbb_seq_def)
    from writer.sound [OF f s] f1 True F1 have "repr s1 fs1" "same_base s s1" by auto
    with writer.complete [OF g _ g1 al(1) _ G1] al(2) show ?thesis by (simp add: same_base_growable)
  qed
next
  fix s fs s'
  assume s: "repr s fs" and t: "cbb_seq f g s = (False, s')"
  obtain ok s1 where f1: "f s = (ok, s1)" by fastforce
  show "same_base s s' \<and> (halted s' \<or> (\<exists>fs'. repr s' fs'))"
  proof (cases ok)
    case True
    with writer.sound [OF f s, of s1] f1 obtain fs1 where r: "repr s1 fs1" "same_base s s1" by auto
    have "g s1 = (False, s')" using t f1 True by (simp add: cbb_seq_def)
    from writer.fails [OF g r(1) this] r(2) same_base_trans show ?thesis by blast
  next
    case False
    with writer.fails [OF f s, of s1] f1 t show ?thesis by (simp add: cbb_seq_def)
  qed
next
  fix fs fs'
  assume "Option.bind (F fs) G = Some fs'"
  then show "length (sealed fs) \<le> length (sealed fs')"
    using writer.grows [OF f] writer.grows [OF g] by (fastforce simp: bind_eq_Some_conv)
qed

lemma strict_writer_seq:
  "strict_writer al f F \<Longrightarrow> writer al g G \<Longrightarrow> strict_writer al (cbb_seq f g) (\<lambda>fs. Option.bind (F fs) G)"
  by (intro strict_writer.intro strict_writer_axioms.intro writer_seq)
    (auto simp: cbb_seq_def strict_writer.stuck dest: strict_writer.axioms(1))

lemma strict_writer_cong: "strict_writer al f F \<Longrightarrow> (\<And>fs. G fs = F fs) \<Longrightarrow> strict_writer al f G"
  by (metis ext)

lemma writer_cong: "writer al f F \<Longrightarrow> (\<And>fs. G fs = F fs) \<Longrightarrow> writer al f G"
  by (metis ext)

section \<open>Closing, appending and opening frames\<close>

definition close_at :: "nat \<Rightarrow> frame list \<Rightarrow> frame list option" where
  "close_at d fs =
     (if d < length fs \<and> fits (drop (Suc d) fs)
      then Some (take d fs @ [(fst (fs ! d), snd (fs ! d) @ sealed (drop (Suc d) fs))]) else None)"

definition extend_last :: "bytes \<Rightarrow> frame list \<Rightarrow> frame list" where
  "extend_last bs fs = butlast fs @ [(fst (last fs), snd (last fs) @ bs)]"

definition append_at :: "nat \<Rightarrow> bytes \<Rightarrow> frame list \<Rightarrow> frame list option" where
  "append_at d bs fs = map_option (extend_last bs) (close_at d fs)"

definition open_at :: "nat \<Rightarrow> kind \<Rightarrow> frame list \<Rightarrow> frame list option" where
  "open_at d k fs = map_option (\<lambda>fs. fs @ [(k, [])]) (close_at d fs)"

lemma sealed_cons_cong: "sealed gs = sealed hs \<Longrightarrow> sealed (fs @ gs) = sealed (fs @ hs)"
  by (induction fs rule: sealed.induct) (auto simp: Let_def)

lemma sealed_shorter:
  "length (sealed gs) \<le> length (sealed hs) \<Longrightarrow>
     (\<And>k l m. l \<le> m \<Longrightarrow> length (len_prefix k l) \<le> length (len_prefix k m)) \<Longrightarrow>
     length (sealed (fs @ gs)) \<le> length (sealed (fs @ hs))"
  by (induction fs rule: sealed.induct) (auto simp: Let_def intro: add_mono)

lemma len_prefix_mono: "l \<le> m \<Longrightarrow> length (len_prefix k l) \<le> length (len_prefix k m)"
  by (cases k) (auto simp: der_length_def len_octets_def)

lemma sealed_mono:
  "length (sealed gs) \<le> length (sealed hs) \<Longrightarrow> length (sealed (fs @ gs)) \<le> length (sealed (fs @ hs))"
  by (rule sealed_shorter) (auto intro: len_prefix_mono)

lemma sealed_close: "close_at d fs = Some fs' \<Longrightarrow> sealed fs' = sealed fs"
proof -
  assume c: "close_at d fs = Some fs'"
  then have d: "d < length fs" by (simp add: close_at_def split: if_splits)
  have "sealed (take d fs @ [(fst (fs ! d), snd (fs ! d) @ sealed (drop (Suc d) fs))])
      = sealed (take d fs @ fs ! d # drop (Suc d) fs)"
    by (rule sealed_cons_cong) (cases "fs ! d", simp add: Let_def)
  also have "\<dots> = sealed fs" by (simp only: id_take_nth_drop [OF d, symmetric])
  finally show ?thesis using c by (auto simp: close_at_def split: if_splits)
qed

lemma extend_last_snoc [simp]: "extend_last bs (fs @ [(k, b)]) = fs @ [(k, b @ bs)]"
  by (simp add: extend_last_def)

lemma close_at_Some:
  "close_at d fs = Some fs' \<Longrightarrow> length fs' = Suc d \<and> (\<exists>gs k b. fs' = gs @ [(k, b)] \<and> length gs = d)"
  by (auto simp: close_at_def split: if_splits)

lemma extend_extend: "fs \<noteq> [] \<Longrightarrow> extend_last b (extend_last a fs) = extend_last (a @ b) fs"
  by (cases fs rule: rev_cases) (auto simp: extend_last_def)

lemma close_at_closed: "length fs = Suc d \<Longrightarrow> close_at d fs = Some fs"
  by (cases fs rule: rev_cases) (auto simp: close_at_def nth_append)

lemma sealed_extend: "fs \<noteq> [] \<Longrightarrow> length (sealed fs) \<le> length (sealed (extend_last bs fs))"
proof (cases fs rule: rev_cases)
  case (snoc gs f)
  have "length (sealed [f]) \<le> length (sealed [(fst f, snd f @ bs)])"
    by (cases f) (auto simp: Let_def intro: trans_le_add1 len_prefix_mono)
  then have "length (sealed (gs @ [f])) \<le> length (sealed (gs @ [(fst f, snd f @ bs)]))"
    by (rule sealed_mono)
  with snoc show ?thesis by (cases f) simp
qed simp


text \<open>Each function of \<open>cbb.c\<close> obeys the contract.\<close>

lemma repr_flush:
  assumes s: "repr s fs" and f: "CBB_flush al d s = (ok, s')"
  shows "ok \<Longrightarrow> \<exists>fs'. close_at d fs = Some fs' \<and> repr s' fs' \<and> same_base s s'"
    and "\<lbrakk>\<not> ok; infallible al; growable s; close_at d fs = Some fs'\<rbrakk>
          \<Longrightarrow> size_max \<le> length (sealed fs')"
    and "\<not> ok \<Longrightarrow> same_base s s' \<and> (halted s' \<or> repr s' fs)"
proof -
  from s obtain b where b: "cbb_base s = Some b" "buffer_ok b" "\<not> cb_error b"
    and fs: "fs \<noteq> []" "fst (hd fs) = Root" "frames_ok (tl fs)"
    and data: "cb_data b = layout fs" and cs: "children s = tl (layout_children 0 fs)"
    by (auto simp: repr_def split: option.splits)
  let ?hs = "take (Suc d) fs" and ?gs = "drop (Suc d) fs"
  have lcs: "length (children s) = length fs - 1" by (simp add: cs)
  have "(ok \<longrightarrow> (\<exists>fs'. close_at d fs = Some fs' \<and> repr s' fs' \<and> same_base s s')) \<and>
    (\<not> ok \<and> infallible al \<and> growable s \<and> close_at d fs = Some fs' \<longrightarrow> size_max \<le> length (sealed fs')) \<and>
    (\<not> ok \<longrightarrow> same_base s s' \<and> (halted s' \<or> repr s' fs))"
  proof (cases "d < length fs")
    case False
    with f b(1) fs(1) s same_base_refl [OF s] show ?thesis
      by (cases fs) (auto simp: CBB_flush_def lcs close_at_def)
  next
    case True
    then have nd: "\<not> length (children s) < d" using lcs by simp
    have drop: "drop d (children s) = layout_children (length (layout ?hs)) ?gs"
      by (simp add: cs drop_Suc [symmetric] layout_children_drop)
    have "frames_ok ?gs" using frames_ok_drop [OF fs(3), of d] by (simp add: drop_Suc)
    moreover have data': "cb_data b = layout ?hs @ layout ?gs" by (simp add: data layout_split)
    moreover obtain b' cs' where chain:
      "cbb_flush_chain al b (layout_children (length (layout ?hs)) ?gs) = (ok, b', cs')"
      and s': "s' = s\<lparr>cbb_base := Some b', children := take d (children s) @ cs'\<rparr>"
      using f b(1) drop nd by (auto simp: CBB_flush_def split: prod.splits)
    ultimately have post: "buffer_ok b'" "same_buffer b b'" "cb_error b' = (\<not> ok)"
      "ok \<Longrightarrow> cs' = [] \<and> fits ?gs \<and> cb_data b' = layout ?hs @ sealed ?gs"
      "\<lbrakk>\<not> ok; infallible al; can_resize b; fits ?gs\<rbrakk> \<Longrightarrow> size_max \<le> length (layout ?hs @ sealed ?gs)"
      using cbb_flush_chain [OF b(2,3)] by blast+
    obtain k c where f: "fs ! d = (k, c)" by fastforce
    let ?fs' = "take d fs @ [(k, c @ sealed ?gs)]"
    have hs: "?hs = take d fs @ [(k, c)]" using True f by (simp add: take_Suc_conv_app_nth)
    have lay: "layout ?fs' = layout ?hs @ sealed ?gs" by (simp add: hs)
    have chn: "layout_children 0 ?fs' = take (Suc d) (layout_children 0 fs)"
      by (simp add: layout_children_take hs)
    have rest: "?fs' \<noteq> []" "fst (hd ?fs') = Root" "frames_ok (tl ?fs')"
      using fs True frames_ok_take [OF fs(3), of d] hs
      by (cases d; cases fs; auto simp: frames_ok_def split: prod.splits)+
    show ?thesis
    proof (cases ok)
      case ok: True
      have "tl (take (Suc d) (layout_children 0 fs)) = take d (children s)"
        by (cases "layout_children 0 fs") (simp_all add: cs)
      then have "repr s' ?fs'"
        using post(1,3,4) ok rest
        by (simp add: repr_def s' lay chn del: layout_append layout_children_append)
      moreover have "close_at d fs = Some ?fs'" using post(4) ok True f by (simp add: close_at_def)
      ultimately show ?thesis using ok b(1) post(2) by (auto simp: same_base_def s')
    next
      case nok: False
      show ?thesis
      proof (intro conjI impI)
        assume a: "\<not> ok \<and> infallible al \<and> growable s \<and> close_at d fs = Some fs'"
        then have fits: "fits ?gs" and fs': "fs' = ?fs'" using True f by (auto simp: close_at_def split: if_splits)
        have "length (layout ?hs @ sealed ?gs) \<le> length (sealed fs')"
          unfolding fs' lay [symmetric] by (rule length_layout_le)
        with post(5) nok a b(1) fits show "size_max \<le> length (sealed fs')" by (auto simp: growable_def)
      next
        show "same_base s s'" using b(1) post(2) by (simp add: same_base_def s')
        show "halted s' \<or> repr s' fs" using post(1,3) nok by (simp add: halted_def s')
      qed (use nok in simp)
    qed
  qed
  then show "ok \<Longrightarrow> \<exists>fs'. close_at d fs = Some fs' \<and> repr s' fs' \<and> same_base s s'"
    "\<lbrakk>\<not> ok; infallible al; growable s; close_at d fs = Some fs'\<rbrakk> \<Longrightarrow> size_max \<le> length (sealed fs')"
    "\<not> ok \<Longrightarrow> same_base s s' \<and> (halted s' \<or> repr s' fs)"
    by blast+
qed

lemma flush_halted: "halted s \<Longrightarrow> CBB_flush al d s = (False, s)"
  using append_take_drop_id [of d "children s"]
  by (cases "drop d (children s)") (auto simp: halted_def CBB_flush_def intro: cbb.equality)

interpretation flush_writer: strict_writer al "CBB_flush al d" "close_at d" for al d
proof
  fix s fs s'
  assume "repr s fs" and "CBB_flush al d s = (True, s')"
  then show "\<exists>fs'. close_at d fs = Some fs' \<and> repr s' fs' \<and> same_base s s'"
    using repr_flush(1) by blast
next
  fix s fs s' fs'
  assume "repr s fs" and "CBB_flush al d s = (False, s')" and "infallible al" and "growable s"
    and "close_at d fs = Some fs'"
  then show "size_max \<le> length (sealed fs')" using repr_flush(2) by blast
next
  fix s fs s'
  assume "repr s fs" and "CBB_flush al d s = (False, s')"
  then show "same_base s s' \<and> (halted s' \<or> (\<exists>fs'. repr s' fs'))" using repr_flush(3) by blast
next
  show "halted s \<Longrightarrow> CBB_flush al d s = (False, s)" for s by (rule flush_halted)
next
  fix fs fs'
  assume "close_at d fs = Some fs'"
  then show "length (sealed fs) \<le> length (sealed fs')" by (simp add: sealed_close)
qed


lemma layout_extend: "fs \<noteq> [] \<Longrightarrow> layout (extend_last bs fs) = layout fs @ bs"
  by (cases fs rule: rev_cases) (auto simp: extend_last_def)

lemma layout_children_extend: "fs \<noteq> [] \<Longrightarrow> layout_children off (extend_last bs fs) = layout_children off fs"
  by (cases fs rule: rev_cases) (auto simp: extend_last_def)

lemma frames_extend:
  assumes "fs \<noteq> []"
  shows "extend_last bs fs \<noteq> []" and "fst (hd (extend_last bs fs)) = fst (hd fs)"
    and "frames_ok (tl (extend_last bs fs)) = frames_ok (tl fs)"
    and "length (extend_last bs fs) = length fs"
proof -
  from assms obtain gs k b where "fs = gs @ [(k, b)]" by (cases fs rule: rev_cases) auto
  then show "extend_last bs fs \<noteq> []" "fst (hd (extend_last bs fs)) = fst (hd fs)"
    "frames_ok (tl (extend_last bs fs)) = frames_ok (tl fs)"
    "length (extend_last bs fs) = length fs"
    by (cases gs; simp add: extend_last_def)+
qed

lemma repr_extend:
  assumes "repr s fs" and "cbb_base s = Some b" and "buffer_ok b'" and "\<not> cb_error b'"
    and "cb_data b' = cb_data b @ bs"
  shows "repr (s\<lparr>cbb_base := Some b'\<rparr>) (extend_last bs fs)"
  using assms by (simp add: repr_def frames_extend layout_extend layout_children_extend)

lemma repr_open:
  assumes s: "repr s fs" "cbb_base s = Some b" "length fs = Suc d" and k: "0 < holes k"
    and b': "buffer_ok b'" "\<not> cb_error b'" "cb_data b' = cb_data b @ replicate (holes k) 0"
  shows "repr (cbb_open_child d
      \<lparr>offset = length (cb_data b), pending_len_len = holes k, pending_is_asn1 = (k = Asn1)\<rparr>
      (s\<lparr>cbb_base := Some b'\<rparr>)) (fs @ [(k, [])])"
proof -
  from s(3) obtain f gs where fs: "fs = f # gs" by (cases fs) auto
  with s have "length (children s) = d" by (simp add: repr_def)
  then show ?thesis
    using s k b' fs by (cases f) (auto simp: repr_def cbb_open_child_def)
qed

text \<open>What a writer of bytes does to the buffer once the children are flushed.\<close>

definition appends :: "allocator \<Rightarrow> bytes \<Rightarrow> cbb_buffer \<Rightarrow> bool \<Rightarrow> cbb_buffer \<Rightarrow> bool" where
  "appends al bs b ok b' \<longleftrightarrow>
     buffer_ok b' \<and> same_buffer b b' \<and> cb_error b' = (\<not> ok) \<and> (ok \<longrightarrow> cb_data b' = cb_data b @ bs) \<and>
     (\<not> ok \<and> infallible al \<and> can_resize b \<longrightarrow> size_max \<le> length (cb_data b) + length bs)"

lemma flush_then_halted: "halted s \<Longrightarrow> cbb_flush_then al d g s = (False, s)"
  by (simp add: cbb_flush_then_def flush_halted)

lemma flush_then_fails:
  assumes s: "repr s fs" and t: "cbb_flush_then al d g s = (False, s')"
    and g: "\<And>b b'. \<lbrakk>buffer_ok b; \<not> cb_error b; g b = (False, b')\<rbrakk> \<Longrightarrow>
      buffer_ok b' \<and> same_buffer b b' \<and> cb_error b'"
  shows "same_base s s' \<and> (halted s' \<or> (\<exists>fs'. repr s' fs'))"
proof -
  obtain ok s1 where f: "CBB_flush al d s = (ok, s1)" by fastforce
  show ?thesis
  proof (cases ok)
    case False
    with f t have "s' = s1" by (simp add: cbb_flush_then_def)
    with False f flush_writer.fails [OF s, of al d s1] show ?thesis by simp
  next
    case True
    with flush_writer.sound [OF s, of al d s1] f obtain fs1 where r: "repr s1 fs1" "same_base s s1" by auto
    from repr_base [OF r(1)] obtain b where b: "cbb_base s1 = Some b" by blast
    with r(1) have ok: "buffer_ok b" "\<not> cb_error b" by (simp_all add: repr_def)
    obtain okg b' where gb: "g b = (okg, b')" by fastforce
    with t f True b have "\<not> okg" "s' = s1\<lparr>cbb_base := Some b'\<rparr>" by (simp_all add: cbb_flush_then_def)
    with g [OF ok, of b'] gb r(2) b show ?thesis
      by (auto simp: halted_def intro: same_base_trans simp: same_base_def same_buffer_trans)
  qed
qed

lemma flush_then_writer:
  assumes g: "\<And>b ok b'. \<lbrakk>buffer_ok b; \<not> cb_error b; g b = (ok, b')\<rbrakk> \<Longrightarrow>
    appends al bs b ok b'"
  shows "strict_writer al (cbb_flush_then al d g) (append_at d bs)"
proof
  fix s fs s'
  assume s: "repr s fs" and t: "cbb_flush_then al d g s = (True, s')"
  obtain ok s1 where f: "CBB_flush al d s = (ok, s1)" by fastforce
  with t have ok by (cases ok) (simp_all add: cbb_flush_then_def)
  with flush_writer.sound [OF s, of al d s1] f obtain fs1 where c: "close_at d fs = Some fs1"
    and r: "repr s1 fs1" "same_base s s1" by auto
  from repr_base [OF r(1)] obtain b where b: "cbb_base s1 = Some b" by blast
  obtain okg b' where gb: "g b = (okg, b')" by fastforce
  have okg "s' = s1\<lparr>cbb_base := Some b'\<rparr>"
    using t f \<open>ok\<close> b gb by (simp_all add: cbb_flush_then_def)
  moreover have b0: "buffer_ok b" "\<not> cb_error b" using r(1) b by (simp_all add: repr_def)
  ultimately have "repr s' (extend_last bs fs1)" "same_base s1 s'"
    using g [OF b0 gb, unfolded appends_def] repr_extend [OF r(1) b, of b' bs] b
    by (simp_all add: same_base_def)
  with c r(2) show "\<exists>fs'. append_at d bs fs = Some fs' \<and> repr s' fs' \<and> same_base s s'"
    by (auto simp: append_at_def intro: same_base_trans)
next
  fix s fs s' fs'
  assume s: "repr s fs" and t: "cbb_flush_then al d g s = (False, s')" and al: "infallible al" "growable s"
    and F: "append_at d bs fs = Some fs'"
  from F obtain fs1 where c: "close_at d fs = Some fs1" and fs': "fs' = extend_last bs fs1"
    by (auto simp: append_at_def)
  have ne: "fs1 \<noteq> []" using close_at_Some [OF c] by auto
  obtain ok s1 where f: "CBB_flush al d s = (ok, s1)" by fastforce
  show "size_max \<le> length (sealed fs')"
  proof (cases ok)
    case False
    with f have "size_max \<le> length (sealed fs1)" by (intro flush_writer.complete [OF s _ al c]) simp
    also have "\<dots> \<le> length (sealed fs')" unfolding fs' by (rule sealed_extend [OF ne])
    finally show ?thesis .
  next
    case True
    with flush_writer.sound [OF s, of al d s1] f c have r: "repr s1 fs1" "same_base s s1" by auto
    from repr_base [OF r(1)] obtain b where b: "cbb_base s1 = Some b" by blast
    with r(1) have ok: "buffer_ok b" "\<not> cb_error b" "cb_data b = layout fs1" by (simp_all add: repr_def)
    obtain okg b' where gb: "g b = (okg, b')" by fastforce
    with t f True b have "\<not> okg" by (simp add: cbb_flush_then_def)
    moreover have "can_resize b" using al(2) same_base_growable [OF r(2)] b by (simp add: growable_def)
    ultimately have "size_max \<le> length (layout (extend_last bs fs1))"
      using g [OF ok(1,2) gb] al(1) unfolding appends_def by (simp add: ok(3) layout_extend [OF ne])
    also have "\<dots> \<le> length (sealed fs')" unfolding fs' by (rule length_layout_le)
    finally show ?thesis .
  qed
next
  fix s fs s'
  assume s: "repr s fs" and t: "cbb_flush_then al d g s = (False, s')"
  then show "same_base s s' \<and> (halted s' \<or> (\<exists>fs'. repr s' fs'))"
    by (rule flush_then_fails) (drule (2) g, simp add: appends_def)
next
  show "halted s \<Longrightarrow> cbb_flush_then al d g s = (False, s)" for s by (rule flush_then_halted)
next
  fix fs fs'
  assume "append_at d bs fs = Some fs'"
  then obtain fs1 where c: "close_at d fs = Some fs1" and fs': "fs' = extend_last bs fs1"
    by (auto simp: append_at_def)
  have "fs1 \<noteq> []" using close_at_Some [OF c] by auto
  then show "length (sealed fs) \<le> length (sealed fs')"
    unfolding fs' sealed_close [OF c, symmetric] by (rule sealed_extend)
qed

section \<open>The writers of fixed-width data\<close>

lemma buffer_add_contract:
  assumes "length bs < size_max" and "buffer_ok b" and "\<not> cb_error b"
    and "cbb_buffer_add al b bs = (ok, b')"
  shows "appends al bs b ok b'"
  using buffer_add [OF assms(2,1,4)] assms(3) by (auto simp: same_buffer_def appends_def)

lemma CBB_add_bytes_writer:
  assumes "length bs < size_max"
  shows "strict_writer al (CBB_add_bytes al d bs) (append_at d bs)"
    and "strict_writer al (CBB_add_space al d bs) (append_at d bs)"
  unfolding CBB_add_bytes_def CBB_add_space_def
  by (rule flush_then_writer, erule (2) buffer_add_contract [OF assms])+

lemma add_u_writer:
  assumes "0 < n" and "n \<le> 8" and fit: "unat v < 256 ^ n"
  shows "strict_writer al (cbb_flush_then al d (\<lambda>b. cbb_buffer_add_u al b v n))
    (append_at d (be_bytes n (unat v)))"
proof (rule flush_then_writer)
  fix b ok b'
  assume b: "buffer_ok b" "\<not> cb_error b" and a: "cbb_buffer_add_u al b v n = (ok, b')"
  note u = buffer_add_u [OF b(1) assms(1,2) a]
  have "cbb_buffer_add al b (be_bytes n (unat v)) = (ok, b')" using u(1,2) fit by (cases ok) simp_all
  moreover have "length (be_bytes n (unat v)) < size_max" using assms(2) by (simp add: size_max_def)
  ultimately show "appends al (be_bytes n (unat v)) b ok b'" by (intro buffer_add_contract b)
qed

text \<open>A number that is too large for its width makes the writer fail for good.\<close>

lemma add_u_overflow:
  assumes "0 < n" and "n \<le> 8" and big: "\<not> unat v < 256 ^ n"
  shows "strict_writer al (cbb_flush_then al d (\<lambda>b. cbb_buffer_add_u al b v n)) (\<lambda>_. None)"
proof unfold_locales
  let ?f = "cbb_flush_then al d (\<lambda>b. cbb_buffer_add_u al b v n)"
  fix s fs s'
  assume s: "repr s fs"
  show "?f s = (False, s') \<Longrightarrow> same_base s s' \<and> (halted s' \<or> (\<exists>fs'. repr s' fs'))"
    by (rule flush_then_fails [OF s])
      (use buffer_add_u [OF _ assms(1,2)] in \<open>auto simp: same_buffer_def\<close>)
  assume t: "?f s = (True, s')"
  obtain ok s1 where f: "CBB_flush al d s = (ok, s1)" by fastforce
  with t have ok by (cases ok) (simp_all add: cbb_flush_then_def)
  with flush_writer.sound [OF s, of al d s1] f obtain fs1 where r: "repr s1 fs1" by auto
  from repr_base [OF r] obtain b where b: "cbb_base s1 = Some b" by blast
  with r have "buffer_ok b" by (simp add: repr_def)
  then have "fst (cbb_buffer_add_u al b v n) = False"
    using buffer_add_u(1) [OF _ assms(1,2), of b al v True] big by (cases "cbb_buffer_add_u al b v n") auto
  with t f \<open>ok\<close> b show "\<exists>fs'. None = Some fs' \<and> repr s' fs' \<and> same_base s s'"
    by (simp add: cbb_flush_then_def split: prod.splits)
qed (simp_all add: flush_then_halted)

interpretation u8_writer: strict_writer al "CBB_add_u8 al d v" "append_at d [v]" for al d v
proof -
  have "unat (ucast v :: u64) = unat v" by (rule unat_ucast_up) simp
  then show "strict_writer al (CBB_add_u8 al d v) (append_at d [v])"
    using add_u_writer [of 1 "ucast v" al d] unat_byte_less [of v] by (simp add: CBB_add_u8_def)
qed

interpretation u16_writer: strict_writer al "CBB_add_u16 al d v" "append_at d (be_bytes 2 (unat v))" for al d v
proof -
  have "unat (ucast v :: u64) = unat v" by (rule unat_ucast_up) simp
  then show "strict_writer al (CBB_add_u16 al d v) (append_at d (be_bytes 2 (unat v)))"
    using add_u_writer [of 2 "ucast v" al d] unat_u16_less [of v] by (simp add: CBB_add_u16_def)
qed

interpretation u24_writer: strict_writer al "CBB_add_u24 al d v"
  "if unat v < 2 ^ 24 then append_at d (be_bytes 3 (unat v)) else (\<lambda>_. None)" for al d v
proof -
  have "unat (ucast v :: u64) = unat v" by (rule unat_ucast_up) simp
  then show "strict_writer al (CBB_add_u24 al d v)
      (if unat v < 2 ^ 24 then append_at d (be_bytes 3 (unat v)) else (\<lambda>_. None))"
    using add_u_writer [of 3 "ucast v" al d] add_u_overflow [of 3 "ucast v" al d]
    by (simp add: CBB_add_u24_def)
qed

interpretation u32_writer: strict_writer al "CBB_add_u32 al d v" "append_at d (be_bytes 4 (unat v))" for al d v
proof -
  have "unat (ucast v :: u64) = unat v" by (rule unat_ucast_up) simp
  then show "strict_writer al (CBB_add_u32 al d v) (append_at d (be_bytes 4 (unat v)))"
    using add_u_writer [of 4 "ucast v" al d] unat_u32_less [of v] by (simp add: CBB_add_u32_def)
qed

interpretation u64_writer: strict_writer al "CBB_add_u64 al d v" "append_at d (be_bytes 8 (unat v))" for al d v
  using add_u_writer [of 8 v al d] unat_u64_less [of v] by (simp add: CBB_add_u64_def)

end
