(* ===== verification/Cbb_Asn1.thy ===== *)
theory Cbb_Asn1
  imports Cbb_Spec
begin

text \<open>
  The writers of \<open>cbb.c\<close> that open children and those that write ASN.1, shown to obey the contract
  of \<open>Cbb_Spec\<close>; and whole documents, written through any nesting of them.
\<close>

section \<open>Opening a child\<close>

lemma strict_writer_eq:
  assumes g: "strict_writer al g F" and eq: "\<And>s fs. repr s fs \<Longrightarrow> f s = g s"
    and eqh: "\<And>s. halted s \<Longrightarrow> f s = g s"
  shows "strict_writer al f F"
proof -
  note w = strict_writer.axioms(1) [OF g]
  show ?thesis
    by unfold_locales (simp_all only: eq eqh writer.sound [OF w] writer.complete [OF w]
        writer.fails [OF w] writer.grows [OF w] strict_writer.stuck [OF g])
qed

definition open_hole :: "allocator \<Rightarrow> nat \<Rightarrow> kind \<Rightarrow> cbb \<Rightarrow> bool \<times> cbb" where
  "open_hole al d k s =
     (case CBB_add_space al d (replicate (holes k) 0) s of
        (False, s) \<Rightarrow> (False, s)
      | (True, s) \<Rightarrow>
          (True, cbb_open_child d
             \<lparr>offset = cbb_offset s - holes k, pending_len_len = holes k, pending_is_asn1 = (k = Asn1)\<rparr> s))"

lemma repr_reopen:
  assumes s: "repr s (extend_last (replicate (holes k) 0) fs)" and d: "length fs = Suc d"
    and k: "0 < holes k"
  shows "repr (cbb_open_child d
      \<lparr>offset = cbb_offset s - holes k, pending_len_len = holes k, pending_is_asn1 = (k = Asn1)\<rparr> s)
      (fs @ [(k, [])])" and "same_base s (cbb_open_child d c s)"
proof -
  from d obtain f gs where fs: "fs = f # gs" by (cases fs) auto
  then have ne: "fs \<noteq> []" by simp
  from repr_base [OF s] obtain b where b: "cbb_base s = Some b" by blast
  with s have facts: "cb_data b = layout fs @ replicate (holes k) 0" "children s = tl (layout_children 0 fs)"
    "fst (hd fs) = Root" "frames_ok (tl fs)" "buffer_ok b" "\<not> cb_error b"
    by (simp_all add: repr_def layout_extend [OF ne] layout_children_extend [OF ne] frames_extend [OF ne])
  have "cbb_offset s = length (layout fs) + holes k" "length (children s) = d"
    using b d facts by (simp_all add: cbb_offset_def)
  then show "repr (cbb_open_child d
      \<lparr>offset = cbb_offset s - holes k, pending_len_len = holes k, pending_is_asn1 = (k = Asn1)\<rparr> s)
      (fs @ [(k, [])])"
    using b k facts fs by (cases f) (auto simp: repr_def cbb_open_child_def)
  show "same_base s (cbb_open_child d c s)" using b by (simp add: same_base_def cbb_open_child_def)
qed

lemma open_hole_writer:
  assumes k: "0 < holes k" "holes k < size_max"
  shows "strict_writer al (open_hole al d k) (open_at d k)"
proof -
  let ?z = "replicate (holes k) (0 :: u8)"
  have strict: "strict_writer al (CBB_add_space al d ?z) (append_at d ?z)"
    using k by (intro CBB_add_bytes_writer(2)) simp
  note w = strict_writer.axioms(1) [OF strict]
  have room: "length (sealed (extend_last ?z fs)) \<le> length (sealed (fs @ [(k, [])]))"
    if "fs \<noteq> []" for fs
  proof (cases fs rule: rev_cases)
    case (snoc gs f)
    obtain k' b' where f: "f = (k', b')" by (cases f)
    have "length (sealed [(k', b' @ ?z)]) \<le> length (sealed [(k', b'), (k, [])])"
      using holes_le_prefix [of k 0] by (auto simp: Let_def intro: add_mono len_prefix_mono)
    then have "length (sealed (gs @ [(k', b' @ ?z)])) \<le> length (sealed (gs @ [(k', b'), (k, [])]))"
      by (rule sealed_mono)
    then show ?thesis by (simp add: snoc f)
  qed (use that in simp)
  show ?thesis
  proof
    fix s fs s'
    assume s: "repr s fs" and t: "open_hole al d k s = (True, s')"
    obtain ok s1 where a: "CBB_add_space al d ?z s = (ok, s1)" by fastforce
    with t have ok and s': "s' = cbb_open_child d
      \<lparr>offset = cbb_offset s1 - holes k, pending_len_len = holes k, pending_is_asn1 = (k = Asn1)\<rparr> s1"
      by (auto simp: open_hole_def split: bool.splits)
    with writer.sound [OF w s, of s1] a obtain fs1 where c: "close_at d fs = Some fs1"
      and r: "repr s1 (extend_last ?z fs1)" "same_base s s1" by (auto simp: append_at_def)
    have "length fs1 = Suc d" using close_at_Some [OF c] by simp
    from repr_reopen [OF r(1) this k(1)] c r(2) show
      "\<exists>fs'. open_at d k fs = Some fs' \<and> repr s' fs' \<and> same_base s s'"
      by (auto simp: open_at_def s' intro: same_base_trans)
  next
    fix s fs s' fs'
    assume s: "repr s fs" and t: "open_hole al d k s = (False, s')" and al: "infallible al" "growable s"
      and F: "open_at d k fs = Some fs'"
    from F obtain fs1 where c: "close_at d fs = Some fs1" and fs': "fs' = fs1 @ [(k, [])]"
      by (auto simp: open_at_def)
    have ne: "fs1 \<noteq> []" using close_at_Some [OF c] by auto
    have app: "append_at d ?z fs = Some (extend_last ?z fs1)" by (simp add: append_at_def c)
    obtain ok s1 where a: "CBB_add_space al d ?z s = (ok, s1)" by fastforce
    with t have "\<not> ok" by (auto simp: open_hole_def)
    with a have "size_max \<le> length (sealed (extend_last ?z fs1))"
      using writer.complete [OF w s _ al app] by simp
    also have "\<dots> \<le> length (sealed fs')" unfolding fs' by (rule room [OF ne])
    finally show "size_max \<le> length (sealed fs')" .
  next
    fix s fs s'
    assume s: "repr s fs" and t: "open_hole al d k s = (False, s')"
    obtain ok s1 where a: "CBB_add_space al d ?z s = (ok, s1)" by fastforce
    with t have "\<not> ok" "s' = s1" by (auto simp: open_hole_def split: bool.splits)
    with a writer.fails [OF w s, of s1] show "same_base s s' \<and> (halted s' \<or> (\<exists>fs'. repr s' fs'))"
      by simp
  next
    show "halted s \<Longrightarrow> open_hole al d k s = (False, s)" for s
      using strict_writer.stuck [OF strict] by (simp add: open_hole_def)
  next
    fix fs fs'
    assume "open_at d k fs = Some fs'"
    then obtain fs1 where c: "close_at d fs = Some fs1" and fs': "fs' = fs1 @ [(k, [])]"
      by (auto simp: open_at_def)
    have ne: "fs1 \<noteq> []" using close_at_Some [OF c] by auto
    have "length (sealed fs) \<le> length (sealed (extend_last ?z fs1))"
      unfolding sealed_close [OF c, symmetric] by (rule sealed_extend [OF ne])
    also have "\<dots> \<le> length (sealed fs')" unfolding fs' by (rule room [OF ne])
    finally show "length (sealed fs) \<le> length (sealed fs')" .
  qed
qed

lemma cbb_add_length_prefixed_eq: "cbb_add_length_prefixed al d n s = open_hole al d (Fixed n) s"
proof -
  have "cb_data b' = cb_data b @ bs" if "cbb_buffer_add al b bs = (True, b')" for b bs b'
    using that by (auto simp: cbb_buffer_add_def cbb_buffer_reserve_def Let_def split: if_splits)
  then show ?thesis
    by (auto simp: cbb_add_length_prefixed_def open_hole_def CBB_add_space_def cbb_flush_then_def
        cbb_offset_def Let_def split: prod.splits bool.splits option.splits)
qed

interpretation u8_prefix_writer: strict_writer al "CBB_add_u8_length_prefixed al d" "open_at d (Fixed 1)" for al d
  using open_hole_writer [of "Fixed 1" al d]
  by (simp add: CBB_add_u8_length_prefixed_def cbb_add_length_prefixed_eq [abs_def] size_max_def)

interpretation u16_prefix_writer: strict_writer al "CBB_add_u16_length_prefixed al d" "open_at d (Fixed 2)" for al d
  using open_hole_writer [of "Fixed 2" al d]
  by (simp add: CBB_add_u16_length_prefixed_def cbb_add_length_prefixed_eq [abs_def] size_max_def)

interpretation u24_prefix_writer: strict_writer al "CBB_add_u24_length_prefixed al d" "open_at d (Fixed 3)" for al d
  using open_hole_writer [of "Fixed 3" al d]
  by (simp add: CBB_add_u24_length_prefixed_def cbb_add_length_prefixed_eq [abs_def] size_max_def)

section \<open>Byte by byte\<close>

text \<open>The ASN.1 writers put out their bytes one call of \<open>CBB_add_u8\<close> at a time.\<close>

fun add_each :: "allocator \<Rightarrow> nat \<Rightarrow> bytes \<Rightarrow> cbb \<Rightarrow> bool \<times> cbb" where
  "add_each al d [] s = (True, s)"
| "add_each al d (b # bs) s = cbb_seq (CBB_add_u8 al d b) (add_each al d bs) s"

lemma add_each_Cons: "add_each al d (b # bs) = cbb_seq (CBB_add_u8 al d b) (add_each al d bs)"
  by (rule ext) simp

lemma cbb_seq_skip: "cbb_seq f (\<lambda>s. (True, s)) = f"
  by (rule ext) (simp add: cbb_seq_def split: prod.splits bool.splits)

lemma cbb_seq_cong: "(\<And>t. f s = (True, t) \<Longrightarrow> g t = h t) \<Longrightarrow> cbb_seq f g s = cbb_seq f h s"
  by (auto simp: cbb_seq_def split: prod.splits bool.splits)

lemma append_append: "Option.bind (append_at d a fs) (append_at d b) = append_at d (a @ b) fs"
proof (cases "close_at d fs")
  case (Some fs1)
  then have l: "length fs1 = Suc d" using close_at_Some by blast
  then have ne: "fs1 \<noteq> []" by auto
  have "length (extend_last a fs1) = Suc d" using frames_extend(4) [OF ne] l by simp
  then show ?thesis by (simp add: append_at_def Some close_at_closed extend_extend [OF ne])
qed (simp add: append_at_def)

lemma add_each_writer: "bs \<noteq> [] \<Longrightarrow> strict_writer al (add_each al d bs) (append_at d bs)"
proof (induction bs)
  case (Cons b bs)
  show ?case
  proof (cases "bs = []")
    case True
    have "add_each al d [b] = CBB_add_u8 al d b"
      by (rule ext) (simp add: cbb_seq_skip [simplified] cbb_seq_def split: prod.splits bool.splits)
    with True u8_writer.strict_writer_axioms show ?thesis by simp
  next
    case False
    with Cons.IH have "strict_writer al (add_each al d bs) (append_at d bs)" by simp
    from strict_writer_seq [OF u8_writer.strict_writer_axioms [of al d b] strict_writer.axioms(1) [OF this]]
    show ?thesis by (simp add: add_each_Cons append_append)
  qed
qed simp


section \<open>Tags\<close>

fun hi_digits :: "nat \<Rightarrow> nat \<Rightarrow> bytes" where
  "hi_digits 0 v = []"
| "hi_digits (Suc n) v = hi_digits n (v div 128) @ [word_of_nat (128 + v mod 128)]"

lemma rev_upt_Suc: "rev [0..<Suc n] = map Suc (rev [0..<n]) @ [0]"
  by (simp add: upt_conv_Cons rev_map del: upt_Suc flip: map_Suc_upt)

lemma hi_digits_map: "hi_digits n v = map (\<lambda>j. word_of_nat (128 + v div 128 ^ j mod 128)) (rev [0..<n])"
proof (induction n arbitrary: v)
  case (Suc n)
  show ?case by (simp add: rev_upt_Suc Suc div_mult2_eq comp_def del: upt_Suc)
qed simp

lemma base128_hi_digits: "base128_hi (unat v) = hi_digits (base128_len_len v) (unat v)"
proof (induction v rule: base128_len_len.induct)
  case (1 v)
  show ?case
  proof (cases "v = 0")
    case False
    then have "unat v \<noteq> 0" by (simp add: unat_eq_0)
    with False 1 show ?thesis
      by (simp add: base128_hi_pos base128_len_len.simps [of v] unat_drop_bit)
  qed (simp add: base128_len_len.simps)
qed

text \<open>The byte of round \<open>i\<close>.\<close>

definition base128_byte :: "u64 \<Rightarrow> nat \<Rightarrow> u8" where
  "base128_byte v i =
     (let byt = ucast (drop_bit (7 * i) v) AND 0x7f in if i \<noteq> 0 then byt OR 0x80 else byt)"

lemma base128_byte_nat:
  "base128_byte v i = word_of_nat ((if i \<noteq> 0 then 128 else 0) + unat v div 128 ^ i mod 128)"
proof -
  let ?b = "ucast (drop_bit (7 * i) v) AND 0x7f :: u8"
  have p: "(2::nat) ^ (7 * i) = 128 ^ i" by (simp add: power_mult)
  have "unat (ucast (drop_bit (7 * i) v) :: u8) = unat v div 128 ^ i mod 256"
    by (simp add: unsigned_ucast_eq unat_drop_bit p take_bit_eq_mod)
  then have b: "unat ?b = unat v div 128 ^ i mod 128"
    by (simp add: unat_and_7f mod_mod_cancel)
  have small: "unat v div 128 ^ i mod 128 < 2 ^ 7" by simp
  have "unat (?b OR 0x80) = 128 + unat v div 128 ^ i mod 128"
  proof -
    have "?b OR 0x80 = push_bit 7 1 OR ?b" by (simp add: or.commute)
    also have "\<dots> = push_bit 7 1 + ?b" by (rule push_bit_or_disjoint) (simp add: b)
    finally show ?thesis using small by (simp add: unat_word_ariths b)
  qed
  then show ?thesis
    using small b
    by (cases "i = 0") (simp_all add: base128_byte_def Let_def word_unat_eq_iff unat_byte_of_nat
        del: of_nat_add)
qed

lemma add_base128_loop_each: "add_base128_loop al d v i s = add_each al d (map (base128_byte v) (rev [0..<i])) s"
proof (induction i arbitrary: s)
  case (Suc i)
  have "add_base128_loop al d v (Suc i) s = (case CBB_add_u8 al d (base128_byte v i) s of
      (False, s) \<Rightarrow> (False, s) | (True, s) \<Rightarrow> add_base128_loop al d v i s)"
    by (simp add: base128_byte_def Let_def)
  also have "\<dots> = add_each al d (map (base128_byte v) (rev [0..<Suc i])) s"
    by (simp add: cbb_seq_def Suc cong: prod.case_cong bool.case_cong)
  finally show ?case .
qed simp

lemma map_byte_digits:
  "map (base128_byte v) (rev [0..<Suc n]) = hi_digits n (unat v div 128) @ [word_of_nat (unat v mod 128)]"
  by (simp add: rev_upt_Suc hi_digits_map base128_byte_nat div_mult2_eq del: upt_Suc)

lemma add_base128_integer_each: "add_base128_integer al d v = add_each al d (base128 (unat v))"
proof (cases "v = 0")
  case True
  have "base128_byte 0 0 = 0" by (simp add: base128_byte_def)
  then show ?thesis
    by (intro ext) (simp add: True add_base128_integer_def base128_len_len.simps add_base128_loop_each
        base128_def)
next
  case False
  then obtain n where n: "base128_len_len v = Suc n" "base128_len_len (drop_bit 7 v) = n"
    by (simp add: base128_len_len.simps [of v])
  have "base128_hi (unat v div 128) = hi_digits n (unat v div 128)"
    using base128_hi_digits [of "drop_bit 7 v"] by (simp add: n unat_drop_bit)
  then show ?thesis
    by (intro ext) (simp add: add_base128_integer_def n add_base128_loop_each map_byte_digits base128_def
        del: upt_Suc)
qed

definition add_tag :: "allocator \<Rightarrow> nat \<Rightarrow> u32 \<Rightarrow> cbb \<Rightarrow> bool \<times> cbb" where
  "add_tag al d tag =
     (if 0x1f \<le> tag_num tag
      then cbb_seq (CBB_add_u8 al d (tag_bits tag OR 0x1f)) (add_base128_integer al d (ucast (tag_num tag)))
      else CBB_add_u8 al d (tag_bits tag OR ucast (tag_num tag)))"

lemma add_tag_each: "add_tag al d tag = add_each al d (der_tag tag)"
proof -
  have "unat (ucast (tag_num tag) :: u64) = unat (tag_num tag)" by (rule unat_ucast_up) simp
  moreover have "0x1f \<le> tag_num tag \<longleftrightarrow> 31 \<le> unat (tag_num tag)" by (simp add: word_le_nat_alt)
  ultimately show ?thesis
    by (intro ext) (simp add: add_tag_def der_tag_def add_base128_integer_each cbb_seq_def
        split: prod.splits bool.splits)
qed

interpretation tag_writer: strict_writer al "add_tag al d t" "append_at d (der_tag t)" for al d t
  unfolding add_tag_each by (rule add_each_writer) (rule length_der_tag(2))

lemma CBB_add_asn1_tag:
  "CBB_add_asn1 al d tag s =
     cbb_seq (CBB_flush al d) (cbb_seq (add_tag al d tag)
       (\<lambda>s. let off = cbb_offset s in
          case CBB_add_u8 al d 0 s of
            (False, s) \<Rightarrow> (False, s)
          | (True, s) \<Rightarrow> (True, cbb_open_child d
                \<lparr>offset = off, pending_len_len = 1, pending_is_asn1 = True\<rparr> s))) s"
  by (auto simp: CBB_add_asn1_def add_tag_def cbb_seq_def Let_def tag_bits_def tag_num_def
      split: prod.splits bool.splits)


text \<open>Behind a complete tag nothing is open, so the length byte is one more hole.\<close>

lemma add_zero_space: "CBB_add_u8 al d 0 = CBB_add_space al d [0]"
proof -
  have "cbb_buffer_add_u al b 0 1 = cbb_buffer_add al b [0]" for b
    by (simp add: cbb_buffer_add_u_def store_be_bytes split: prod.splits bool.splits)
  then show ?thesis by (intro ext) (simp add: CBB_add_u8_def CBB_add_space_def)
qed

lemma hole_after_flush:
  assumes s: "repr s fs" and d: "length fs = Suc d"
  shows "(let off = cbb_offset s in
      case CBB_add_u8 al d 0 s of
        (False, s) \<Rightarrow> (False, s)
      | (True, s) \<Rightarrow> (True, cbb_open_child d
            \<lparr>offset = off, pending_len_len = 1, pending_is_asn1 = True\<rparr> s)) = open_hole al d Asn1 s"
proof -
  obtain ok s1 where a: "CBB_add_space al d [0] s = (ok, s1)" by fastforce
  have "cbb_offset s1 - 1 = cbb_offset s" if ok
  proof -
    have "length ([0] :: bytes) < size_max" by (simp add: size_max_def)
    from writer.sound [OF strict_writer.axioms(1) [OF CBB_add_bytes_writer(2) [OF this]] s, of al d s1] a that
    have r: "repr s1 (extend_last [0] fs)" by (auto simp: append_at_def close_at_closed [OF d])
    have ne: "fs \<noteq> []" using d by auto
    from repr_base [OF s] repr_base [OF r] s r show ?thesis
      by (auto simp: repr_def cbb_offset_def layout_extend [OF ne])
  qed
  then show ?thesis by (cases ok) (simp_all add: open_hole_def add_zero_space a)
qed

definition open_asn1 :: "nat \<Rightarrow> u32 \<Rightarrow> frame list \<Rightarrow> frame list option" where
  "open_asn1 d tag fs = Option.bind (append_at d (der_tag tag) fs) (open_at d Asn1)"

lemma bind_close_append: "Option.bind (close_at d fs) (append_at d bs) = append_at d bs fs"
  by (cases "close_at d fs") (auto simp: append_at_def close_at_closed dest: close_at_Some)

interpretation asn1_writer: strict_writer al "CBB_add_asn1 al d tag" "open_asn1 d tag" for al d tag
proof -
  have "strict_writer al (open_hole al d Asn1) (open_at d Asn1)"
    by (rule open_hole_writer) (simp_all add: size_max_def)
  from strict_writer_seq [OF flush_writer.strict_writer_axioms [of al d]
      writer_seq [OF tag_writer.writer_axioms [of al d tag] strict_writer.axioms(1) [OF this]]]
  have "strict_writer al (cbb_seq (CBB_flush al d) (cbb_seq (add_tag al d tag) (open_hole al d Asn1)))
    (open_asn1 d tag)"
    by (rule strict_writer_cong) (simp add: open_asn1_def bind_close_append flip: bind_assoc)
  then show "strict_writer al (CBB_add_asn1 al d tag) (open_asn1 d tag)"
  proof (rule strict_writer_eq)
    fix s fs
    assume s: "repr s fs"
    let ?H = "\<lambda>s. let off = cbb_offset s in
      case CBB_add_u8 al d 0 s of
        (False, s) \<Rightarrow> (False, s)
      | (True, s) \<Rightarrow> (True, cbb_open_child d
            \<lparr>offset = off, pending_len_len = 1, pending_is_asn1 = True\<rparr> s)"
    have "?H s2 = open_hole al d Asn1 s2"
      if f: "CBB_flush al d s = (True, s1)" and t: "add_tag al d tag s1 = (True, s2)" for s1 s2
    proof -
      from flush_writer.sound [OF s f] obtain fs1 where r1: "repr s1 fs1" by blast
      from tag_writer.sound [OF r1 t] obtain fs2 fs3
        where "close_at d fs1 = Some fs2" and "fs3 = extend_last (der_tag tag) fs2" and r: "repr s2 fs3"
        by (auto simp: append_at_def)
      then have "length fs3 = Suc d" using close_at_Some frames_extend(4) [of fs2] by auto
      from hole_after_flush [OF r this] show ?thesis .
    qed
    then show "CBB_add_asn1 al d tag s
        = cbb_seq (CBB_flush al d) (cbb_seq (add_tag al d tag) (open_hole al d Asn1)) s"
      unfolding CBB_add_asn1_tag by (intro cbb_seq_cong)
  next
    show "CBB_add_asn1 al d tag s
        = cbb_seq (CBB_flush al d) (cbb_seq (add_tag al d tag) (open_hole al d Asn1)) s"
      if "halted s" for s
      using flush_halted [OF that] by (simp add: CBB_add_asn1_def cbb_seq_def)
  qed
qed

section \<open>Elements\<close>

text \<open>An element whose body is written at one level below and then closed.\<close>

lemma close_nested:
  "Suc d < length fs \<Longrightarrow> close_at d fs = Option.bind (close_at (Suc d) fs) (close_at d)"
proof -
  assume d: "Suc d < length fs"
  have "drop (Suc d) fs = fs ! Suc d # drop (Suc (Suc d)) fs" using d by (simp add: Cons_nth_drop_Suc)
  moreover have "take (Suc d) fs = take d fs @ [fs ! d]" using d by (simp add: take_Suc_conv_app_nth)
  ultimately show ?thesis
    using d by (cases "fs ! Suc d") (auto simp: close_at_def nth_append Let_def)
qed

lemma close_child:
  assumes "close_at d fs = Some fs1"
  shows "close_at d (fs1 @ [(k, body)]) =
    (if len_fits k (length body)
     then append_at d (len_prefix k (length body) @ body) fs else None)"
proof -
  have l: "length fs1 = Suc d" and "fs1 \<noteq> []" using close_at_Some [OF assms] by auto
  then obtain gs f where "fs1 = gs @ [f]" by (cases fs1 rule: rev_cases) auto
  with l assms show ?thesis
    by (cases f) (auto simp: append_at_def close_at_def nth_append Let_def extend_last_def)
qed

lemma open_close:
  "Option.bind (Option.bind (open_at d k fs) (append_at (Suc d) body)) (close_at d) =
     (if len_fits k (length body) then append_at d (len_prefix k (length body) @ body) fs else None)"
proof (cases "close_at d fs")
  case (Some fs1)
  then have "length fs1 = Suc d" using close_at_Some by blast
  then have "close_at (Suc d) (fs1 @ [(k, [])]) = Some (fs1 @ [(k, [])])"
    by (intro close_at_closed) simp
  then show ?thesis by (simp add: open_at_def Some append_at_def close_child [OF Some])
qed (simp add: open_at_def append_at_def)

lemma open_asn1_close:
  assumes "length body \<le> 0xfffffffe"
  shows "Option.bind (Option.bind (open_asn1 d t fs) (append_at (Suc d) body)) (close_at d) =
     append_at d (der_tlv t body) fs"
  using open_close [of d Asn1 _ body] assms
  by (simp add: open_asn1_def bind_assoc append_append der_tlv_def)

lemma element_writer:
  assumes "strict_writer al f (append_at (Suc d) body)" and "length body \<le> 0xfffffffe"
  shows "strict_writer al (cbb_seq (CBB_add_asn1 al d t) (cbb_seq f (CBB_flush al d)))
    (append_at d (der_tlv t body))"
  using strict_writer_seq [OF asn1_writer.strict_writer_axioms [of al d t]
      writer_seq [OF strict_writer.axioms(1) [OF assms(1)] flush_writer.writer_axioms [of al d]]]
  by (rule strict_writer_cong) (simp add: open_asn1_close [OF assms(2)] flip: bind_assoc)

lemma octet_string_writer:
  "length data \<le> 0xfffffffe \<Longrightarrow>
     strict_writer al (CBB_add_asn1_octet_string al d data) (append_at d (der_tlv CBS_ASN1_OCTETSTRING data))"
  unfolding CBB_add_asn1_octet_string_def
  by (intro element_writer CBB_add_bytes_writer) (simp_all add: size_max_def)

interpretation bool_writer: strict_writer al "CBB_add_asn1_bool al d v"
  "append_at d (der_tlv CBS_ASN1_BOOLEAN (bool_body (v \<noteq> 0)))" for al d v
proof -
  have "bool_body (v \<noteq> 0) = [if v \<noteq> 0 then 0xff else 0]" by (simp add: bool_body_def)
  then show "strict_writer al (CBB_add_asn1_bool al d v)
      (append_at d (der_tlv CBS_ASN1_BOOLEAN (bool_body (v \<noteq> 0))))"
    unfolding CBB_add_asn1_bool_def
    by (simp only:) (rule element_writer [OF u8_writer.strict_writer_axioms], simp)
qed


section \<open>Integers\<close>

lemma add_each_append: "add_each al d (xs @ ys) s = cbb_seq (add_each al d xs) (add_each al d ys) s"
  by (induction xs arbitrary: s) (simp_all add: cbb_seq_def split: prod.splits bool.splits)

definition u64_byte :: "u64 \<Rightarrow> nat \<Rightarrow> u8" where
  "u64_byte v i = ucast (drop_bit (8 * (7 - i)) v)"

lemma be_bytes_u64: "be_bytes 8 (unat v) = map (u64_byte v) [0..<8]"
  using be_bytes_word [of 8 v] by (simp add: u64_byte_def upt_rec)

lemma add_uint64_started:
  "add_uint64_loop al d v is True s =
     (case add_each al d (map (u64_byte v) is) s of (ok, s) \<Rightarrow> (ok, True, s))"
  by (induction "is" arbitrary: s)
     (auto simp: Let_def u64_byte_def cbb_seq_def split: prod.splits bool.splits)

lemma add_uint64_loop_each:
  "(case add_uint64_loop al d v is False s of
      (False, _, s) \<Rightarrow> (False, s)
    | (True, started, s) \<Rightarrow> if \<not> started then CBB_add_u8 al d 0 s else (True, s)) =
   (let m = dropWhile (\<lambda>b. b = 0) (map (u64_byte v) is)
    in add_each al d (if m = [] \<or> 128 \<le> unat (hd m) then 0 # m else m) s)"
proof (induction "is" arbitrary: s)
  case Nil
  show ?case by (simp add: cbb_seq_def split: prod.splits bool.splits)
next
  case (Cons i "is")
  show ?case
  proof (cases "u64_byte v i = 0")
    case True
    then show ?thesis using Cons.IH [of s] by (simp add: u64_byte_def Let_def)
  next
    case False
    then show ?thesis
      by (auto simp: add_uint64_started Let_def u64_byte_def [symmetric] and_80_eq_0 cbb_seq_def
          split: prod.splits bool.splits)
  qed
qed

lemma CBB_add_asn1_uint64_each:
  "CBB_add_asn1_uint64 al d v =
     cbb_seq (CBB_add_asn1 al d CBS_ASN1_INTEGER)
       (cbb_seq (add_each al (Suc d) (uint_body (unat v))) (CBB_flush al d))"
proof -
  have "dropWhile (\<lambda>b. b = 0) (map (u64_byte v) [0..<8]) = be_min (unat v)"
    using be_min_be_nat [of "be_bytes 8 (unat v)"] be_nat_be_bytes_small [of "unat v" 8] unat_u64_less [of v]
    by (simp add: be_bytes_u64 del: be_nat_be_bytes_small)
  then have body: "(case add_uint64_loop al (Suc d) v [0..<8] False s of
      (False, _, s) \<Rightarrow> (False, s)
    | (True, started, s) \<Rightarrow> if \<not> started then CBB_add_u8 al (Suc d) 0 s else (True, s)) =
    add_each al (Suc d) (uint_body (unat v)) s" for s
    unfolding add_uint64_loop_each uint_body_def Let_def by simp
  show ?thesis
    by (rule ext) (auto simp: CBB_add_asn1_uint64_def cbb_seq_def body [symmetric]
        split: prod.splits bool.splits)
qed

interpretation uint64_writer: strict_writer al "CBB_add_asn1_uint64 al d v"
  "append_at d (der_tlv CBS_ASN1_INTEGER (uint_body (unat v)))" for al d v
proof -
  have "minimal_uint (uint_body (unat v))" by (rule minimal_uint_body)
  then have "uint_body (unat v) \<noteq> []" by (simp add: minimal_uint_def)
  moreover have "length (uint_body (unat v)) \<le> 9"
    using length_uint_body [of "unat v" 8] unat_u64_less [of v] by simp
  ultimately show "strict_writer al (CBB_add_asn1_uint64 al d v)
      (append_at d (der_tlv CBS_ASN1_INTEGER (uint_body (unat v))))"
    unfolding CBB_add_asn1_uint64_each by (intro element_writer add_each_writer) simp_all
qed

lemma add_int64_loop_each: "n \<le> length bs \<Longrightarrow> add_int64_loop al d bs n s = add_each al d (rev (take n bs)) s"
proof (induction n arbitrary: s)
  case (Suc n)
  then have "rev (take (Suc n) bs) = bs ! n # rev (take n bs)" by (simp add: take_Suc_conv_app_nth)
  with Suc show ?case by (auto simp: cbb_seq_def split: prod.splits bool.splits)
qed simp

lemma int64_start_drop_ff:
  "n < length bs \<Longrightarrow> drop_ff (rev (take (Suc n) bs)) = rev (take (Suc (int64_start bs n)) bs)
     \<and> int64_start bs n \<le> n"
proof (induction n)
  case 0
  then show ?case by (cases bs) simp_all
next
  case (Suc n)
  then have "rev (take (Suc (Suc n)) bs) = bs ! Suc n # bs ! n # rev (take n bs)"
    "rev (take (Suc n) bs) = bs ! n # rev (take n bs)" by (simp_all add: take_Suc_conv_app_nth)
  with Suc show ?case by (auto simp: and_80_eq_0 not_le)
qed

lemma rev_int64_bytes: "rev (int64_bytes v) = be_bytes 8 (unat (word_of_int v :: u64))"
proof -
  have "rev [0..<8::nat] = [7, 6, 5, 4, 3, 2, 1, 0]" by (simp add: upt_rec)
  then show ?thesis by (simp add: int64_bytes_def be_bytes_word rev_map)
qed

lemma CBB_add_asn1_int64_each:
  assumes "- (2 ^ 63) \<le> v" and "v < 2 ^ 63"
  shows "CBB_add_asn1_int64 al d v =
     cbb_seq (CBB_add_asn1 al d CBS_ASN1_INTEGER)
       (cbb_seq (add_each al (Suc d) (int_body v)) (CBB_flush al d))"
proof (cases "0 \<le> v")
  case True
  have "unat (word_of_int v :: u64) = nat v"
    using True assms(2) by (simp add: unsigned_of_int take_bit_eq_mod)
  with True show ?thesis
    by (intro ext) (simp add: CBB_add_asn1_int64_def CBB_add_asn1_uint64_each int_body_def)
next
  case False
  let ?u = "int64_bytes v"
  have "v mod 2 ^ 64 = v + 2 ^ 64"
  proof -
    have "v mod 2 ^ 64 = (v + 2 ^ 64) mod 2 ^ 64" by simp
    also have "\<dots> = v + 2 ^ 64" using False assms(1) by (intro mod_pos_pos_trivial) simp_all
    finally show ?thesis .
  qed
  then have "unat (word_of_int v :: u64) = nat (v + 2 ^ 64)"
    by (simp add: unsigned_of_int take_bit_eq_mod)
  then have "int_body v = drop_ff (rev ?u)" using False by (simp add: int_body_def rev_int64_bytes)
  moreover have l: "length ?u = 8" by (simp add: int64_bytes_def)
  moreover have "drop_ff (rev (take 8 ?u)) = rev (take (Suc (int64_start ?u 7)) ?u) \<and> int64_start ?u 7 \<le> 7"
    using int64_start_drop_ff [of 7 ?u] l by simp
  ultimately have "add_int64_loop al (Suc d) ?u (Suc (int64_start ?u 7)) s
      = add_each al (Suc d) (int_body v) s" for s
    by (subst add_int64_loop_each) simp_all
  then show ?thesis using False by (intro ext) (simp add: CBB_add_asn1_int64_def Let_def cbb_seq_def
      split: prod.splits bool.splits)
qed

lemma int64_writer:
  assumes "- (2 ^ 63) \<le> v" and "v < 2 ^ 63"
  shows "strict_writer al (CBB_add_asn1_int64 al d v) (append_at d (der_tlv CBS_ASN1_INTEGER (int_body v)))"
proof -
  have "int_body v \<noteq> []" "length (int_body v) \<le> 0xfffffffe"
    using int_body_ok [OF assms] by (auto simp: minimal_int_def)
  then show ?thesis
    unfolding CBB_add_asn1_int64_each [OF assms] by (intro element_writer add_each_writer)
qed


section \<open>Documents\<close>

text \<open>
  A document is what a caller writes: raw bytes and, nested in any way, children with a length
  prefix of one, two or three bytes and ASN.1 elements. \<open>write_items\<close> is the sequence of calls;
  no child is flushed by hand, the next call on its parent closes it.
\<close>

datatype prefix = U8 | U16 | U24

datatype item = Raw bytes | Prefixed prefix "item list" | Tagged u32 "item list"

fun prefix_len :: "prefix \<Rightarrow> nat" where
  "prefix_len U8 = 1"
| "prefix_len U16 = 2"
| "prefix_len U24 = 3"

fun add_prefixed :: "allocator \<Rightarrow> nat \<Rightarrow> prefix \<Rightarrow> cbb \<Rightarrow> bool \<times> cbb" where
  "add_prefixed al d U8 = CBB_add_u8_length_prefixed al d"
| "add_prefixed al d U16 = CBB_add_u16_length_prefixed al d"
| "add_prefixed al d U24 = CBB_add_u24_length_prefixed al d"

fun write_item :: "allocator \<Rightarrow> nat \<Rightarrow> item \<Rightarrow> cbb \<Rightarrow> bool \<times> cbb"
  and write_items :: "allocator \<Rightarrow> nat \<Rightarrow> item list \<Rightarrow> cbb \<Rightarrow> bool \<times> cbb" where
  "write_item al d (Raw b) = CBB_add_bytes al d b"
| "write_item al d (Prefixed p is) = cbb_seq (add_prefixed al d p) (write_items al (Suc d) is)"
| "write_item al d (Tagged t is) = cbb_seq (CBB_add_asn1 al d t) (write_items al (Suc d) is)"
| "write_items al d [] = (\<lambda>s. (True, s))"
| "write_items al d (i # is) = cbb_seq (write_item al d i) (write_items al d is)"

text \<open>What the document stands for, and whether each length fits its prefix.\<close>

fun serialise_item :: "item \<Rightarrow> bytes" and serialise :: "item list \<Rightarrow> bytes" where
  "serialise_item (Raw b) = b"
| "serialise_item (Prefixed p is) = be_bytes (prefix_len p) (length (serialise is)) @ serialise is"
| "serialise_item (Tagged t is) = der_tlv t (serialise is)"
| "serialise [] = []"
| "serialise (i # is) = serialise_item i @ serialise is"

fun item_fits :: "item \<Rightarrow> bool" and items_fit :: "item list \<Rightarrow> bool" where
  "item_fits (Raw b) = True"
| "item_fits (Prefixed p is) = (items_fit is \<and> length (serialise is) < 256 ^ prefix_len p)"
| "item_fits (Tagged t is) = (items_fit is \<and> length (serialise is) \<le> 0xfffffffe)"
| "items_fit [] = True"
| "items_fit (i # is) = (item_fits i \<and> items_fit is)"

text \<open>Every C object is smaller than the address space.\<close>

fun item_sized :: "item \<Rightarrow> bool" and items_sized :: "item list \<Rightarrow> bool" where
  "item_sized (Raw b) = (length b < size_max)"
| "item_sized (Prefixed p is) = items_sized is"
| "item_sized (Tagged t is) = items_sized is"
| "items_sized [] = True"
| "items_sized (i # is) = (item_sized i \<and> items_sized is)"

fun item_at :: "nat \<Rightarrow> item \<Rightarrow> frame list \<Rightarrow> frame list option"
  and items_at :: "nat \<Rightarrow> item list \<Rightarrow> frame list \<Rightarrow> frame list option" where
  "item_at d (Raw b) fs = append_at d b fs"
| "item_at d (Prefixed p is) fs = Option.bind (open_at d (Fixed (prefix_len p)) fs) (items_at (Suc d) is)"
| "item_at d (Tagged t is) fs = Option.bind (open_asn1 d t fs) (items_at (Suc d) is)"
| "items_at d [] fs = Some fs"
| "items_at d (i # is) fs = Option.bind (item_at d i fs) (items_at d is)"

lemma add_prefixed_writer: "strict_writer al (add_prefixed al d p) (open_at d (Fixed (prefix_len p)))"
  by (cases p) (use u8_prefix_writer.strict_writer_axioms u16_prefix_writer.strict_writer_axioms
      u24_prefix_writer.strict_writer_axioms in simp_all)

lemma done_writer: "writer al (\<lambda>s. (True, s)) Some"
  by unfold_locales (auto dest: same_base_refl)

lemma item_writer:
  "item_sized i \<Longrightarrow> strict_writer al (write_item al d i) (item_at d i)"
  "items_sized is \<Longrightarrow> writer al (write_items al d is) (items_at d is)"
proof (induction i and "is" arbitrary: d and d rule: item_sized_items_sized.induct)
  case (1 b)
  then have "strict_writer al (CBB_add_bytes al d b) (append_at d b)"
    by (intro CBB_add_bytes_writer) simp
  then show ?case unfolding write_item.simps by (rule strict_writer_cong) simp
next
  case (2 p "is")
  then have "writer al (write_items al (Suc d) is) (items_at (Suc d) is)" by simp
  from strict_writer_seq [OF add_prefixed_writer [of al d p] this] show ?case
    unfolding write_item.simps by (rule strict_writer_cong) simp
next
  case (3 t "is")
  then have "writer al (write_items al (Suc d) is) (items_at (Suc d) is)" by simp
  from strict_writer_seq [OF asn1_writer.strict_writer_axioms [of al d t] this] show ?case
    unfolding write_item.simps by (rule strict_writer_cong) simp
next
  case 4
  show ?case unfolding write_items.simps by (rule writer_cong [OF done_writer]) simp
next
  case (5 i "is")
  then have "writer al (write_item al d i) (item_at d i)" "writer al (write_items al d is) (items_at d is)"
    by (simp_all add: strict_writer.axioms(1))
  from writer_seq [OF this] show ?case unfolding write_items.simps by (rule writer_cong) simp
qed

lemma open_length: "open_at d k fs = Some g \<Longrightarrow> length g = Suc (Suc d)"
  by (auto simp: open_at_def dest: close_at_Some)

lemma open_asn1_length: "open_asn1 d t fs = Some g \<Longrightarrow> length g = Suc (Suc d)"
  by (auto simp: open_asn1_def bind_eq_Some_conv dest: open_length)

lemma append_length: "append_at d b fs = Some g \<Longrightarrow> length g = Suc d"
  using close_at_Some frames_extend(4) by (fastforce simp: append_at_def)

lemma item_length:
  "item_at d i fs = Some g \<Longrightarrow> d < length g"
  "items_at d is fs = Some g \<Longrightarrow> d < length fs \<Longrightarrow> d < length g"
proof (induction d i fs and d "is" fs arbitrary: g and g rule: item_at_items_at.induct)
  case (1 d b fs)
  then show ?case by (auto dest: append_length)
next
  case (2 d p "is" fs)
  then obtain h where h: "open_at d (Fixed (prefix_len p)) fs = Some h" "items_at (Suc d) is h = Some g"
    by (auto simp: bind_eq_Some_conv)
  with 2 open_length [OF h(1)] show ?case by fastforce
next
  case (3 d t "is" fs)
  then obtain h where h: "open_asn1 d t fs = Some h" "items_at (Suc d) is h = Some g"
    by (auto simp: bind_eq_Some_conv)
  with 3 open_asn1_length [OF h(1)] show ?case by fastforce
next
  case (5 d i "is" fs)
  then show ?case by (auto simp: bind_eq_Some_conv)
qed simp

lemma bind_append_close: "Option.bind (append_at d b fs) (close_at d) = append_at d b fs"
  by (cases "append_at d b fs") (auto simp: close_at_closed dest: append_length)

lemma append_Nil_close: "append_at d [] fs = close_at d fs"
proof (cases "close_at d fs")
  case (Some g)
  then obtain gs k b where "g = gs @ [(k, b)]" using close_at_Some by blast
  with Some show ?thesis by (simp add: append_at_def)
qed (simp add: append_at_def)

lemma child_close:
  assumes open_len: "\<And>g. og = Some g \<Longrightarrow> length g = Suc (Suc d)"
    and body: "\<And>g. og = Some g \<Longrightarrow> Option.bind (items_at (Suc d) is g) (close_at (Suc d)) =
      (if ok then append_at (Suc d) body g else None)"
  shows "Option.bind (Option.bind og (items_at (Suc d) is)) (close_at d) =
     (if ok then Option.bind (Option.bind og (append_at (Suc d) body)) (close_at d) else None)"
proof (cases og)
  case (Some g)
  have "Option.bind (items_at (Suc d) is g) (close_at d) =
      Option.bind (Option.bind (items_at (Suc d) is g) (close_at (Suc d))) (close_at d)"
  proof (cases "items_at (Suc d) is g")
    case h: (Some h)
    then have "Suc d < length h" using item_length(2) [OF h] open_len [OF Some] by simp
    then show ?thesis by (simp add: h close_nested)
  qed simp
  then show ?thesis by (simp add: Some body [OF Some])
qed simp

lemma items_close:
  "Option.bind (item_at d i fs) (close_at d) =
     (if item_fits i then append_at d (serialise_item i) fs else None)"
  "Option.bind (items_at d is fs) (close_at d) =
     (if items_fit is then append_at d (serialise is) fs else None)"
proof (induction d i fs and d "is" fs rule: item_at_items_at.induct)
  case (1 d b fs)
  show ?case by (simp add: bind_append_close)
next
  case (2 d p "is" fs)
  have "Option.bind (item_at d (Prefixed p is) fs) (close_at d) =
    (if items_fit is then Option.bind (Option.bind (open_at d (Fixed (prefix_len p)) fs)
       (append_at (Suc d) (serialise is))) (close_at d) else None)"
    unfolding item_at.simps by (rule child_close, erule open_length, erule 2)
  then show ?case using open_close [of d "Fixed (prefix_len p)" fs "serialise is"] by simp
next
  case (3 d t "is" fs)
  have "Option.bind (item_at d (Tagged t is) fs) (close_at d) =
    (if items_fit is then Option.bind (Option.bind (open_asn1 d t fs)
       (append_at (Suc d) (serialise is))) (close_at d) else None)"
    unfolding item_at.simps by (rule child_close, erule open_asn1_length, erule 3)
  also have "\<dots> = (if items_fit is \<and> length (serialise is) \<le> 0xfffffffe
      then append_at d (der_tlv t (serialise is)) fs else None)"
    using open_close [of d Asn1 _ "serialise is"]
    by (simp add: open_asn1_def bind_assoc append_append der_tlv_def)
  finally show ?case by simp
next
  case (4 d fs)
  show ?case by (simp add: append_Nil_close)
next
  case (5 d i "is" fs)
  have "Option.bind (items_at d (i # is) fs) (close_at d) =
      Option.bind (item_at d i fs) (\<lambda>g. if items_fit is then append_at d (serialise is) g else None)"
    by (simp add: bind_assoc 5(2) cong: Option.bind_cong)
  also have "\<dots> = (if items_fit is then Option.bind (Option.bind (item_at d i fs) (close_at d))
      (append_at d (serialise is)) else None)"
    by (simp add: bind_assoc bind_close_append cong: Option.bind_cong)
  also have "\<dots> = (if items_fit (i # is) then append_at d (serialise (i # is)) fs else None)"
    by (simp add: 5(1) append_append)
  finally show ?case .
qed

end
