(* ===== verification/Cbb_Doc.thy ===== *)
theory Cbb_Doc
  imports Cbb_Asn1
begin

text \<open>
  The life of a builder: initialisation, any sequence of calls, \<open>CBB_finish\<close>. Whole documents come
  out as their serialisation, values written are read back by \<open>cbs.c\<close>, and no sequence of calls,
  failing ones included, writes outside the buffer.
\<close>

section \<open>The first and the last call\<close>

lemma init_repr:
  assumes "CBB_init al cap = (True, s)" and "cap < size_max"
  shows "repr s [(Root, [])]" and "growable s"
  using assms by (auto simp: CBB_init_def cbb_init_def CBB_zero_def repr_def growable_def buffer_ok_def
      split: if_splits)

lemma init_fixed_repr:
  assumes "CBB_init_fixed al len = (True, s)" and "len < size_max"
  shows "repr s [(Root, [])]"
    and "\<exists>b. cbb_base s = Some b \<and> \<not> can_resize b \<and> cb_cap b = len"
  using assms by (auto simp: CBB_init_fixed_def cbb_init_def CBB_zero_def repr_def buffer_ok_def
      split: if_splits)

lemma init_succeeds: "infallible al \<Longrightarrow> \<exists>s. CBB_init al cap = (True, s)"
  by (auto simp: CBB_init_def cbb_init_def infallible_def OPENSSL_malloc_def)

lemma close_root: "close_at 0 fs = Some g \<Longrightarrow> fst (hd fs) = Root \<Longrightarrow> g = [(Root, sealed fs)]"
  by (cases fs) (auto simp: close_at_def Let_def split: if_splits prod.splits)

lemma repr_root: "repr s fs \<Longrightarrow> fst (hd fs) = Root"
  by (simp add: repr_def split: option.splits)

text \<open>What \<open>CBB_finish\<close> hands out is the sealed stack of frames.\<close>

lemma finish_output:
  assumes s: "repr s fs" and f: "CBB_finish al 0 given s = (Some out, s')"
  shows "close_at 0 fs = Some [(Root, out)]" and "cbb_base s' = None"
proof -
  obtain ok t where fl: "CBB_flush al 0 s = (ok, t)" by fastforce
  with f have ok by (cases ok) (simp_all add: CBB_finish_def)
  with flush_writer.sound [OF s, of al 0 t] fl obtain g where c: "close_at 0 fs = Some g" and r: "repr t g"
    by auto
  from close_root [OF c repr_root [OF s]] have g: "g = [(Root, sealed fs)]" .
  with f fl \<open>ok\<close> r have "out = sealed fs" "cbb_base s' = None"
    by (auto simp: CBB_finish_def repr_def CBB_cleanup_def split: option.splits if_splits)
  with c g show "close_at 0 fs = Some [(Root, out)]" "cbb_base s' = None" by simp_all
qed

lemma finish_succeeds:
  assumes s: "repr s fs" and al: "infallible al" "growable s" and c: "close_at 0 fs = Some g"
    and l: "length (sealed fs) < size_max"
  shows "fst (CBB_finish al 0 True s) = Some (sealed fs)"
proof -
  have "length (sealed g) < size_max" using l sealed_close [OF c] by simp
  from flush_writer.runs [OF s al c this] obtain t where fl: "CBB_flush al 0 s = (True, t)"
    and r: "repr t g" by blast
  with close_root [OF c repr_root [OF s]] show ?thesis
    by (auto simp: CBB_finish_def repr_def split: option.splits)
qed

section \<open>Documents\<close>

lemma items_at_start:
  "Option.bind (items_at 0 is [(Root, [])]) (close_at 0) =
     (if items_fit is then Some [(Root, serialise is)] else None)"
  unfolding items_close by (simp add: append_at_def close_at_def extend_last_def)

lemma document_output:
  assumes s: "repr s0 [(Root, [])]" and "items_sized is"
    and w: "write_items al 0 is s0 = (True, s)" and f: "CBB_finish al 0 given s = (Some out, s')"
  shows "out = serialise is" and "items_fit is" and "cbb_base s' = None"
proof -
  from writer.sound [OF item_writer(2) [OF assms(2)] s w] obtain fs
    where i: "items_at 0 is [(Root, [])] = Some fs" and r: "repr s fs" by blast
  from finish_output [OF r f] items_at_start [of "is"] i
  show "out = serialise is" "items_fit is" "cbb_base s' = None" by (auto split: if_splits)
qed

lemma sized_if_short:
  "length (serialise_item i) < size_max \<Longrightarrow> item_sized i"
  "length (serialise is) < size_max \<Longrightarrow> items_sized is"
  by (induction i and "is" rule: item_sized_items_sized.induct) (auto simp: der_tlv_def)

lemma document_succeeds:
  assumes s: "repr s0 [(Root, [])]" and al: "infallible al" "growable s0" and fit: "items_fit is"
    and l: "length (serialise is) < size_max"
  shows "\<exists>s. write_items al 0 is s0 = (True, s) \<and> fst (CBB_finish al 0 True s) = Some (serialise is)"
proof -
  from fit items_at_start [of "is"] obtain fs where i: "items_at 0 is [(Root, [])] = Some fs"
    and c: "close_at 0 fs = Some [(Root, serialise is)]" by (auto simp: bind_eq_Some_conv)
  have len: "sealed fs = serialise is" using sealed_close [OF c] by simp
  have w: "writer al (write_items al 0 is) (items_at 0 is)" by (rule item_writer(2) [OF sized_if_short(2) [OF l]])
  from writer.runs [OF w s al i] len l obtain s where "write_items al 0 is s0 = (True, s)"
    and "repr s fs" and "growable s" by auto
  with finish_succeeds [OF _ al(1) _ c] len l show ?thesis by auto
qed


section \<open>Any sequence of calls\<close>

datatype call =
    Flush nat | Add_bytes nat bytes | Add_space nat bytes | Reserve nat nat | Did_write nat bytes
  | Add_u8 nat u8 | Add_u16 nat u16 | Add_u24 nat u32 | Add_u32 nat u32 | Add_u64 nat u64
  | Add_prefixed nat prefix | Add_asn1 nat u32 | Add_uint64 nat u64 | Add_int64 nat int
  | Add_octets nat bytes | Add_bool nat int | Discard nat

fun run_call :: "allocator \<Rightarrow> call \<Rightarrow> cbb \<Rightarrow> bool \<times> cbb" where
  "run_call al (Flush d) s = CBB_flush al d s"
| "run_call al (Add_bytes d bs) s = CBB_add_bytes al d bs s"
| "run_call al (Add_space d bs) s = CBB_add_space al d bs s"
| "run_call al (Reserve d n) s = CBB_reserve al d n s"
| "run_call al (Did_write d bs) s = CBB_did_write d bs s"
| "run_call al (Add_u8 d v) s = CBB_add_u8 al d v s"
| "run_call al (Add_u16 d v) s = CBB_add_u16 al d v s"
| "run_call al (Add_u24 d v) s = CBB_add_u24 al d v s"
| "run_call al (Add_u32 d v) s = CBB_add_u32 al d v s"
| "run_call al (Add_u64 d v) s = CBB_add_u64 al d v s"
| "run_call al (Add_prefixed d p) s = add_prefixed al d p s"
| "run_call al (Add_asn1 d t) s = CBB_add_asn1 al d t s"
| "run_call al (Add_uint64 d v) s = CBB_add_asn1_uint64 al d v s"
| "run_call al (Add_int64 d v) s = CBB_add_asn1_int64 al d v s"
| "run_call al (Add_octets d bs) s = CBB_add_asn1_octet_string al d bs s"
| "run_call al (Add_bool d v) s = CBB_add_asn1_bool al d v s"
| "run_call al (Discard d) s = (True, CBB_discard_child d s)"

text \<open>The arguments fit their C types.\<close>

fun call_ok :: "call \<Rightarrow> bool" where
  "call_ok (Add_bytes d bs) = (length bs < size_max)"
| "call_ok (Add_space d bs) = (length bs < size_max)"
| "call_ok (Did_write d bs) = (length bs < size_max)"
| "call_ok (Add_octets d bs) = (length bs < size_max)"
| "call_ok (Reserve d n) = (n < size_max)"
| "call_ok (Add_int64 d v) = (- (2 ^ 63) \<le> v \<and> v < 2 ^ 63)"
| "call_ok _ = True"

fun run_calls :: "allocator \<Rightarrow> call list \<Rightarrow> cbb \<Rightarrow> cbb" where
  "run_calls al [] s = s"
| "run_calls al (c # cs) s = run_calls al cs (snd (run_call al c s))"

text \<open>Either an error was recorded, or the builder holds a stack of frames.\<close>

definition safe :: "cbb \<Rightarrow> bool" where
  "safe s \<longleftrightarrow> halted s \<or> (\<exists>fs. repr s fs)"

lemma strict_writer_safe:
  assumes "strict_writer al f F" and "safe s" and "f s = (ok, s')"
  shows "safe s' \<and> same_base s s'"
proof (cases "halted s")
  case True
  with assms strict_writer.stuck [OF assms(1), of s] show ?thesis
    by (auto simp: safe_def halted_def same_base_def)
next
  case False
  with assms(2) obtain fs where r: "repr s fs" by (auto simp: safe_def)
  note w = strict_writer.axioms(1) [OF assms(1)]
  show ?thesis
    using assms(3) writer.sound [OF w r, of s'] writer.fails [OF w r, of s'] by (cases ok) (auto simp: safe_def)
qed

lemma reserve_safe:
  assumes n: "n < size_max" and s: "safe s" and f: "CBB_reserve al d n s = (ok, s')"
  shows "safe s' \<and> same_base s s'"
proof (cases "halted s")
  case True
  with f flush_then_halted [OF True, of al d] show ?thesis
    by (auto simp: CBB_reserve_def safe_def halted_def same_base_def)
next
  case False
  with s obtain fs where r: "repr s fs" by (auto simp: safe_def)
  note f' = f [unfolded CBB_reserve_def]
  show ?thesis
  proof (cases ok)
    case False
    have "same_base s s' \<and> (halted s' \<or> (\<exists>fs'. repr s' fs'))"
      by (rule flush_then_fails [OF r, where g = "\<lambda>b. cbb_buffer_reserve al b n" and al = al and d = d])
        (use f' False buffer_reserve [OF _ n] in \<open>auto simp: same_buffer_def\<close>)
    then show ?thesis by (auto simp: safe_def)
  next
    case True
    obtain ok1 s1 where f1: "CBB_flush al d s = (ok1, s1)" by fastforce
    with f' True have ok1 by (cases ok1) (simp_all add: cbb_flush_then_def)
    with flush_writer.sound [OF r, of al d s1] f1 obtain fs1 where r1: "repr s1 fs1" "same_base s s1" by auto
    from repr_base [OF r1(1)] obtain b where b: "cbb_base s1 = Some b" by blast
    obtain ok2 b' where gb: "cbb_buffer_reserve al b n = (ok2, b')" by fastforce
    have s': "s' = s1\<lparr>cbb_base := Some b'\<rparr>" and ok2
      using f' f1 \<open>ok1\<close> b gb True by (simp_all add: cbb_flush_then_def)
    have b0: "buffer_ok b" "\<not> cb_error b" using r1(1) b by (simp_all add: repr_def)
    note res = buffer_reserve [OF b0(1) n gb]
    have "repr s' fs1" using r1(1) b res b0 \<open>ok2\<close> by (simp add: repr_def s')
    moreover have "same_base s1 s'" using b res by (simp add: same_base_def s' same_buffer_def)
    ultimately show ?thesis using r1(2) same_base_trans by (auto simp: safe_def)
  qed
qed

lemma did_write_safe:
  assumes n: "length bs < size_max" and s: "safe s" and f: "CBB_did_write d bs s = (ok, s')"
  shows "safe s' \<and> same_base s s'"
proof -
  from s obtain b where b: "cbb_base s = Some b" and bo: "buffer_ok b"
    by (auto simp: safe_def halted_def repr_def split: option.splits)
  let ?n = "size_add (length (cb_data b)) (length bs)"
  let ?b = "b\<lparr>cb_data := cb_data b @ bs\<rparr>"
  show ?thesis
  proof (cases "d \<noteq> length (children s) \<or> ?n < length (cb_data b) \<or> ?n > cb_cap b")
    case True
    with f b s show ?thesis by (auto simp: CBB_did_write_def Let_def same_base_def)
  next
    case False
    with f b have s': "s' = s\<lparr>cbb_base := Some ?b\<rparr>" by (auto simp: CBB_did_write_def Let_def)
    have "?n = length (cb_data b) + length bs"
      using False n bo by (intro size_add_no_overflow) (auto simp: buffer_ok_def)
    with False bo have ok: "buffer_ok ?b" by (simp add: buffer_ok_def)
    show ?thesis
    proof (cases "cb_error b")
      case True
      with ok b show ?thesis by (simp add: safe_def halted_def s' same_base_def)
    next
      case err: False
      with s b obtain fs where "repr s fs" by (auto simp: safe_def halted_def)
      then have "repr s' (extend_last bs fs)" unfolding s' by (rule repr_extend [OF _ b ok]) (simp_all add: err)
      with b show ?thesis by (auto simp: safe_def s' same_base_def)
    qed
  qed
qed

lemma discard_repr:
  assumes s: "repr s fs" and d: "d < length (children s)"
  shows "repr (CBB_discard_child d s) (take (Suc d) fs)"
proof -
  from s obtain b where b: "cbb_base s = Some b" "buffer_ok b" "\<not> cb_error b"
    and fs: "fs \<noteq> []" "fst (hd fs) = Root" "frames_ok (tl fs)"
    and data: "cb_data b = layout fs" and cs: "children s = tl (layout_children 0 fs)"
    by (auto simp: repr_def split: option.splits)
  have d': "Suc d < length fs" using d fs(1) by (simp add: cs)
  let ?hs = "take (Suc d) fs"
  have "children s ! d = hd (drop (Suc d) (layout_children 0 fs))"
    using d by (simp add: cs nth_tl hd_drop_conv_nth)
  also have "\<dots> = hd (layout_children (length (layout ?hs)) (drop (Suc d) fs))"
    by (simp add: layout_children_drop)
  finally have off: "offset (children s ! d) = length (layout ?hs)"
    using d' by (cases "drop (Suc d) fs") auto
  have "layout fs = layout ?hs @ layout (drop (Suc d) fs)" by (simp add: layout_split)
  then have data': "take (offset (children s ! d)) (cb_data b) = layout ?hs"
    by (simp add: data off)
  have "take d (children s) = tl (layout_children 0 ?hs)"
    by (cases "layout_children 0 fs") (simp_all add: cs flip: layout_children_take)
  moreover have "?hs \<noteq> []" "fst (hd ?hs) = Root" "frames_ok (tl ?hs)"
    using fs frames_ok_take [OF fs(3), of d] by (cases fs; simp)+
  moreover have "length (layout ?hs) \<le> cb_cap b"
    using b(2) data \<open>layout fs = _\<close> by (simp add: buffer_ok_def)
  ultimately show ?thesis
    using b d data' by (simp add: repr_def CBB_discard_child_def buffer_ok_def)
qed

lemma discard_safe: "safe s \<Longrightarrow> safe (CBB_discard_child d s) \<and> same_base s (CBB_discard_child d s)"
proof (cases "d < length (children s)")
  case False
  assume "safe s"
  with False show ?thesis
    by (auto simp: CBB_discard_child_def safe_def halted_def same_base_def repr_def split: option.splits)
next
  case d: True
  assume "safe s"
  then consider "halted s" | fs where "repr s fs" by (auto simp: safe_def)
  then show ?thesis
  proof cases
    case 1
    with d show ?thesis
      by (auto simp: CBB_discard_child_def safe_def halted_def same_base_def buffer_ok_def)
  next
    case 2
    from discard_repr [OF 2 d] repr_base [OF 2] d show ?thesis
      by (auto simp: safe_def same_base_def CBB_discard_child_def)
  qed
qed

lemma octets_safe:
  assumes "length bs < size_max" and "safe s" and "CBB_add_asn1_octet_string al d bs s = (ok, s')"
  shows "safe s' \<and> same_base s s'"
  using strict_writer_safe [OF strict_writer_seq [OF asn1_writer.strict_writer_axioms [of al d CBS_ASN1_OCTETSTRING]
    writer_seq [OF strict_writer.axioms(1) [OF CBB_add_bytes_writer(1) [OF assms(1), of al "Suc d"]]
      flush_writer.writer_axioms [of al d]]] assms(2)] assms(3)
  by (simp add: CBB_add_asn1_octet_string_def)

lemma run_call_safe:
  assumes ok: "call_ok c" and s: "safe s" and f: "run_call al c s = (r, s')"
  shows "safe s' \<and> same_base s s'"
proof (cases c)
  case (Reserve d n)
  with assms reserve_safe show ?thesis by simp
next
  case (Did_write d bs)
  with assms did_write_safe show ?thesis by simp
next
  case (Discard d)
  with assms discard_safe show ?thesis by auto
next
  case (Add_octets d bs)
  with assms octets_safe show ?thesis by simp
next
  case (Flush d)
  from strict_writer_safe [OF flush_writer.strict_writer_axioms s] f show ?thesis by (simp add: Flush)
next
  case (Add_u8 d v)
  from strict_writer_safe [OF u8_writer.strict_writer_axioms s] f show ?thesis by (simp add: Add_u8)
next
  case (Add_u16 d v)
  from strict_writer_safe [OF u16_writer.strict_writer_axioms s] f show ?thesis by (simp add: Add_u16)
next
  case (Add_u24 d v)
  from strict_writer_safe [OF u24_writer.strict_writer_axioms s] f show ?thesis by (simp add: Add_u24)
next
  case (Add_u32 d v)
  from strict_writer_safe [OF u32_writer.strict_writer_axioms s] f show ?thesis by (simp add: Add_u32)
next
  case (Add_u64 d v)
  from strict_writer_safe [OF u64_writer.strict_writer_axioms s] f show ?thesis by (simp add: Add_u64)
next
  case (Add_prefixed d p)
  from strict_writer_safe [OF add_prefixed_writer s] f show ?thesis by (simp add: Add_prefixed)
next
  case (Add_asn1 d t)
  from strict_writer_safe [OF asn1_writer.strict_writer_axioms s] f show ?thesis by (simp add: Add_asn1)
next
  case (Add_uint64 d v)
  from strict_writer_safe [OF uint64_writer.strict_writer_axioms s] f show ?thesis by (simp add: Add_uint64)
next
  case (Add_bool d v)
  from strict_writer_safe [OF bool_writer.strict_writer_axioms s] f show ?thesis by (simp add: Add_bool)
next
  case (Add_bytes d bs)
  with ok have "length bs < size_max" by simp
  from strict_writer_safe [OF CBB_add_bytes_writer(1) [OF this] s] f show ?thesis by (simp add: Add_bytes)
next
  case (Add_space d bs)
  with ok have "length bs < size_max" by simp
  from strict_writer_safe [OF CBB_add_bytes_writer(2) [OF this] s] f show ?thesis by (simp add: Add_space)
next
  case (Add_int64 d v)
  with ok have "- (2 ^ 63) \<le> v" "v < 2 ^ 63" by simp_all
  from strict_writer_safe [OF int64_writer [OF this] s] f show ?thesis by (simp add: Add_int64)
qed

lemma run_calls_safe:
  "list_all call_ok cs \<Longrightarrow> safe s \<Longrightarrow> safe (run_calls al cs s) \<and> same_base s (run_calls al cs s)"
proof (induction cs arbitrary: s)
  case Nil
  then show ?case
    using same_base_refl by (auto simp: safe_def halted_def same_base_def)
next
  case (Cons c cs)
  then have "safe (snd (run_call al c s)) \<and> same_base s (snd (run_call al c s))"
    using run_call_safe [of c s al] by (cases "run_call al c s") simp
  with Cons show ?case by (auto intro: same_base_trans)
qed


lemma init_safe:
  assumes "CBB_init_fixed al len = (True, s)" and "len < size_max"
  shows "safe s" and "\<exists>b. cbb_base s = Some b \<and> \<not> can_resize b \<and> cb_cap b = len"
  using init_fixed_repr [OF assms] by (auto simp: safe_def)

text \<open>A single value, written into a fresh builder.\<close>

lemma value_output:
  assumes w: "writer al f (append_at 0 bs)" and s0: "repr s0 [(Root, [])]" and f: "f s0 = (True, s)"
    and fin: "CBB_finish al 0 given s = (Some out, s')"
  shows "out = bs"
proof -
  have "append_at 0 bs [(Root, [])] = Some [(Root, bs)]"
    by (simp add: append_at_def close_at_def extend_last_def)
  with writer.sound [OF w s0 f] have "repr s [(Root, bs)]" by auto
  from finish_output(1) [OF this fin] show ?thesis by (simp add: close_at_def)
qed

section \<open>Properties\<close>

text \<open>
  C15: a document written through \<open>CBB\<close> calls, nested to any depth, comes out of \<open>CBB_finish\<close> as its
  serialisation: every length prefix, of one to three bytes or in DER, holds the length of what
  follows it. This holds for every allocator, whenever all calls report success.
\<close>

theorem cbb_document_sound:
  assumes "CBB_init al cap = (True, s0)" and "cap < size_max" and "items_sized is"
    and "write_items al 0 is s0 = (True, s)" and "CBB_finish al 0 given s = (Some out, s')"
  shows "out = serialise is \<and> items_fit is \<and> cbb_base s' = None"
  using document_output [OF init_repr(1) [OF assms(1,2)] assms(3-5)] by simp

theorem cbb_document_sound_witness:
  "fst (CBB_finish (\<lambda>_. True) 0 True (snd (write_items (\<lambda>_. True) 0
     [Tagged 0x20000010 [Raw [1, 2], Prefixed U16 [Raw [3]]], Raw [4]] (snd (CBB_init (\<lambda>_. True) 2)))))
   = Some (serialise [Tagged 0x20000010 [Raw [1, 2], Prefixed U16 [Raw [3]]], Raw [4]])"
proof -
  let ?al = "\<lambda>_ :: nat. True"
  let ?is = "[Tagged 0x20000010 [Raw [1, 2], Prefixed U16 [Raw [3]]], Raw [4]]"
  let ?init = "snd (CBB_init ?al 2)"
  let ?s = "snd (write_items ?al 0 ?is ?init)"
  let ?f = "CBB_finish ?al 0 True ?s"
  have "fst (CBB_init ?al 2)" by code_simp
  then have s0: "CBB_init ?al 2 = (True, ?init)" by (rule run_ok)
  have "fst (write_items ?al 0 ?is ?init)" by code_simp
  then have w: "write_items ?al 0 ?is ?init = (True, ?s)" by (rule run_ok)
  have f: "fst ?f = Some [0x30, 5, 1, 2, 0, 1, 3, 4]" by code_simp
  then have "?f = (Some [0x30, 5, 1, 2, 0, 1, 3, 4], snd ?f)" by (rule run_result)
  from cbb_document_sound [OF s0 _ _ w this] f show ?thesis by (simp add: size_max_def)
qed

text \<open>
  C16: and it succeeds: when the allocator does not fail, every length fits its prefix and the output
  fits in memory, the calls return one and \<open>CBB_finish\<close> hands out the serialisation, whatever the
  initial capacity.
\<close>

theorem cbb_document_complete:
  assumes "infallible al" and "cap < size_max" and "items_fit is" and "length (serialise is) < size_max"
  shows "\<exists>s0 s. CBB_init al cap = (True, s0) \<and> write_items al 0 is s0 = (True, s)
    \<and> fst (CBB_finish al 0 True s) = Some (serialise is)"
proof -
  from init_succeeds [OF assms(1)] obtain s0 where s0: "CBB_init al cap = (True, s0)" by blast
  from document_succeeds [OF init_repr(1) [OF s0 assms(2)] assms(1) init_repr(2) [OF s0 assms(2)] assms(3,4)]
    s0 show ?thesis by blast
qed

theorem cbb_document_complete_witness:
  "\<exists>s0 s. CBB_init (\<lambda>_. True) 1 = (True, s0)
    \<and> write_items (\<lambda>_. True) 0 [Prefixed U8 [Raw [7], Tagged 4 []]] s0 = (True, s)
    \<and> fst (CBB_finish (\<lambda>_. True) 0 True s) = Some (serialise [Prefixed U8 [Raw [7], Tagged 4 []]])"
proof (rule cbb_document_complete)
  show "length (serialise [Prefixed U8 [Raw [7], Tagged 4 []]]) < size_max"
    using length_der_tag(1) [of 4] length_der_length(1) [of 0] by (simp add: size_max_def der_tlv_def)
  show "items_fit [Prefixed U8 [Raw [7], Tagged 4 []]]"
    using length_der_tag(1) [of 4] length_der_length(1) [of 0] by (simp add: der_tlv_def)
qed (simp_all add: infallible_def size_max_def)

text \<open>
  C17: no sequence of calls on a builder with a fixed buffer, whatever their order and whether they
  succeed or fail, ever holds more bytes than the buffer has, or moves to another one.
\<close>

theorem cbb_fixed_never_overflows:
  assumes "CBB_init_fixed al len = (True, s)" and "len < size_max" and "list_all call_ok cs"
  shows "\<exists>b. cbb_base (run_calls al cs s) = Some b \<and> cb_cap b = len \<and> length (cb_data b) \<le> len"
  using run_calls_safe [OF assms(3) init_safe(1) [OF assms(1,2)], of al] init_safe(2) [OF assms(1,2)]
  by (auto simp: safe_def halted_def repr_def buffer_ok_def same_base_def same_buffer_def
      split: option.splits)

theorem cbb_fixed_never_overflows_witness:
  "\<exists>b. cbb_base (run_calls (\<lambda>_. True) [Add_asn1 0 2, Add_bytes 1 [1, 2, 3], Add_u16 0 5, Flush 0]
       (snd (CBB_init_fixed (\<lambda>_. True) 6))) = Some b \<and> cb_cap b = 6 \<and> length (cb_data b) \<le> 6"
proof (rule cbb_fixed_never_overflows)
  have "fst (CBB_init_fixed (\<lambda>_. True) 6)" by code_simp
  then show "CBB_init_fixed (\<lambda>_. True) 6 = (True, snd (CBB_init_fixed (\<lambda>_. True) 6))"
    by (rule run_ok)
qed (simp_all add: size_max_def)



end
