(* ===== verification/Oid.thy ===== *)
theory Oid
  imports Cbb_Doc
begin

text \<open>
  Object identifiers as text and in DER: \<open>CBS_asn1_oid_to_text\<close> of \<open>cbs.c\<close> and
  \<open>CBB_add_asn1_oid_from_text\<close> of \<open>cbb.c\<close>. Both are shown to be the two directions of one
  correspondence between dotted text and DER contents.
\<close>

section \<open>The code\<close>

text \<open>\<open>BIO_snprintf\<close> with the format of an unsigned 64-bit number: its decimal digits.\<close>

fun decimal :: "nat \<Rightarrow> bytes" where
  "decimal v = (if v < 10 then [word_of_nat (48 + v)] else decimal (v div 10) @ [word_of_nat (48 + v mod 10)])"

declare decimal.simps [simp del]

definition add_decimal :: "allocator \<Rightarrow> nat \<Rightarrow> u64 \<Rightarrow> cbb \<Rightarrow> bool \<times> cbb" where
  "add_decimal al d v = CBB_add_bytes al d (decimal (unat v))"

lemma parse_base128_shorter: "parse_base128_integer c = (Some v, r) \<Longrightarrow> length r < length c"
  by (auto simp: base128_codec.dec_iff length_greater_0_conv [THEN iffD2, OF base128_ne])

text \<open>The components behind the first, each with its dot.\<close>

function oid_to_text_loop :: "allocator \<Rightarrow> cbs \<Rightarrow> cbb \<Rightarrow> bool \<times> cbb" where
  "oid_to_text_loop al copy s =
     (if CBS_len copy = 0 then (True, s)
      else case parse_base128_integer copy of
             (None, _) \<Rightarrow> (False, s)
           | (Some v, copy') \<Rightarrow>
               (case cbb_seq (CBB_add_u8 al 0 46) (add_decimal al 0 v) s of
                  (False, s) \<Rightarrow> (False, s)
                | (True, s) \<Rightarrow> oid_to_text_loop al copy' s))"
  by pat_completeness auto
termination
  by (relation "measure (\<lambda>(al, c, s). length c)") (auto dest: parse_base128_shorter [OF sym])

declare oid_to_text_loop.simps [simp del]

text \<open>\<open>None\<close> is the null pointer; the text ends with its terminator.\<close>

definition CBS_asn1_oid_to_text :: "allocator \<Rightarrow> cbs \<Rightarrow> bytes option" where
  "CBS_asn1_oid_to_text al c =
     (case CBB_init al 32 of
        (False, _) \<Rightarrow> None
      | (True, s) \<Rightarrow>
          (case parse_base128_integer c of
             (None, _) \<Rightarrow> None
           | (Some v, copy) \<Rightarrow>
               (case (if v \<ge> 80
                      then cbb_seq (CBB_add_bytes al 0 [50, 46]) (add_decimal al 0 (v - 80)) s
                      else cbb_seq (add_decimal al 0 (v div 40))
                             (cbb_seq (CBB_add_u8 al 0 46) (add_decimal al 0 (v mod 40))) s) of
                  (False, _) \<Rightarrow> None
                | (True, s) \<Rightarrow>
                    (case cbb_seq (oid_to_text_loop al copy) (CBB_add_u8 al 0 0) s of
                       (False, _) \<Rightarrow> None
                     | (True, s) \<Rightarrow> fst (CBB_finish al 0 True s)))))"

text \<open>\<open>out\<close> and \<open>seen\<close> are the value so far and \<open>seen_digit\<close>.\<close>

fun dotted_loop :: "u64 \<Rightarrow> bool \<Rightarrow> u64 reader" where
  "dotted_loop out seen [] = (if seen then Some out else None, [])"
| "dotted_loop out seen (u # c) =
     (if u = 46 \<and> CBS_len c > 0 then (if seen then Some out else None, c)
      else if u < 48 \<or> u > 57 \<or> (seen \<and> out = 0) \<or> out > (- 1) div 10
              \<or> out * 10 > - 1 - (ucast u - 48)
        then (None, c)
      else dotted_loop (out * 10 + (ucast u - 48)) True c)"

definition parse_dotted_decimal :: "u64 reader" where
  "parse_dotted_decimal = dotted_loop 0 False"

lemma dotted_loop_shorter: "dotted_loop out seen c = (Some v, r) \<Longrightarrow> length r \<le> length c \<and> (\<not> seen \<longrightarrow> length r < length c)"
  by (induction out seen c arbitrary: v r rule: dotted_loop.induct) (fastforce split: if_splits)+

lemma parse_dotted_shorter: "parse_dotted_decimal c = (Some v, r) \<Longrightarrow> length r < length c"
  unfolding parse_dotted_decimal_def by (drule dotted_loop_shorter) simp

function oid_from_text_loop :: "allocator \<Rightarrow> nat \<Rightarrow> cbs \<Rightarrow> cbb \<Rightarrow> bool \<times> cbb" where
  "oid_from_text_loop al d c s =
     (if \<not> CBS_len c > 0 then (True, s)
      else case parse_dotted_decimal c of
             (None, _) \<Rightarrow> (False, s)
           | (Some a, c') \<Rightarrow>
               (case add_base128_integer al d a s of
                  (False, s) \<Rightarrow> (False, s)
                | (True, s) \<Rightarrow> oid_from_text_loop al d c' s))"
  by pat_completeness auto
termination
  by (relation "measure (\<lambda>(al, d, c, s). length c)") (auto dest: parse_dotted_shorter [OF sym])

declare oid_from_text_loop.simps [simp del]

definition CBB_add_asn1_oid_from_text :: "allocator \<Rightarrow> nat \<Rightarrow> bytes \<Rightarrow> nat \<Rightarrow> cbb \<Rightarrow> bool \<times> cbb" where
  "CBB_add_asn1_oid_from_text al d txt len s =
     (case CBB_flush al d s of
        (False, s) \<Rightarrow> (False, s)
      | (True, s) \<Rightarrow>
          (case parse_dotted_decimal (CBS_init txt len) of
             (None, _) \<Rightarrow> (False, s)
           | (Some a, c1) \<Rightarrow>
               (case parse_dotted_decimal c1 of
                  (None, _) \<Rightarrow> (False, s)
                | (Some b, c2) \<Rightarrow>
                    if a > 2 \<or> (a < 2 \<and> b > 39) \<or> b > - 1 - 80 then (False, s)
                    else (case add_base128_integer al d (40 * a + b) s of
                            (False, s) \<Rightarrow> (False, s)
                          | (True, s) \<Rightarrow> oid_from_text_loop al d c2 s))))"

section \<open>Decimal numbers\<close>

lemma decimal_ne [simp]: "decimal v \<noteq> []"
  by (subst decimal.simps) simp

lemma decimal_digits: "b \<in> set (decimal v) \<Longrightarrow> 48 \<le> unat b \<and> unat b \<le> 57"
proof (induction v rule: decimal.induct)
  case (1 v)
  have m: "v mod 10 < 10" by simp
  have "unat (word_of_nat (48 + n) :: u8) = 48 + n" if "n < 10" for n
    using that by (simp only: unat_byte_of_nat) simp
  with 1 m show ?case
    by (cases "v < 10") (auto simp: decimal.simps [of v] simp del: of_nat_add)
qed

lemma decimal_snoc: "v \<noteq> 0 \<Longrightarrow> n < 10 \<Longrightarrow> decimal (v * 10 + n) = decimal v @ [word_of_nat (48 + n)]"
  by (subst decimal.simps) simp

text \<open>One digit, on numbers: the two overflow tests are exact together.\<close>

lemma dotted_step:
  fixes out :: u64 and u :: u8
  assumes "48 \<le> unat u" and "unat u \<le> 57"
  defines "n \<equiv> unat out * 10 + (unat u - 48)"
  shows "out > (- 1) div 10 \<or> out * 10 > - 1 - (ucast u - 48) \<longleftrightarrow> \<not> n < 2 ^ 64"
    and "n < 2 ^ 64 \<Longrightarrow> out * 10 + (ucast u - 48) = word_of_nat n"
proof -
  let ?d = "ucast u - 48 :: u64"
  have u: "unat (ucast u :: u64) = unat u" by (rule unat_ucast_up) simp
  have "(48 :: u64) \<le> ucast u" using assms(1) by (simp add: word_le_nat_alt u)
  then have d: "unat ?d = unat u - 48" by (simp add: unat_sub u)
  have max: "unat (- 1 :: u64) = 2 ^ 64 - 1" by (simp add: unsigned_minus_1_eq_mask mask_eq_exp_minus_1)
  have div: "unat ((- 1 :: u64) div 10) = 1844674407370955161" by (simp add: unat_div_distrib max)
  have "?d \<le> - 1" by (rule word_order.extremum)
  then have sub: "unat (- 1 - ?d) = 2 ^ 64 - 1 - (unat u - 48)" by (simp only: unat_sub max d)
  have small: "unat u - 48 \<le> 9" using assms by simp
  show "out > (- 1) div 10 \<or> out * 10 > - 1 - ?d \<longleftrightarrow> \<not> n < 2 ^ 64"
  proof (cases "1844674407370955161 < unat out")
    case True
    then show ?thesis by (simp add: word_less_nat_alt div n_def)
  next
    case False
    then have "unat (out * 10) = unat out * 10" by (simp add: unat_word_ariths)
    moreover have "word_of_nat 47 - ucast u = - 1 - ?d" by simp
    ultimately show ?thesis
      using False small sub by (simp add: word_less_nat_alt div n_def) linarith
  qed
  have "word_of_nat n = (word_of_nat (unat out) * 10 + word_of_nat (unat ?d) :: u64)"
    by (simp add: n_def d)
  then show "n < 2 ^ 64 \<Longrightarrow> out * 10 + ?d = word_of_nat n" by (simp only: word_of_nat_unat)
qed


text \<open>A whole number is read back, and only its shortest form.\<close>

definition separated :: "bytes \<Rightarrow> bytes \<Rightarrow> bool" where
  "separated t r \<longleftrightarrow> t = [] \<and> r = [] \<or> t = 46 # r \<and> r \<noteq> []"

lemma dotted_loop_decimal:
  assumes "v < 2 ^ 64"
  shows "dotted_loop 0 False (decimal v @ t) = dotted_loop (word_of_nat v) True t"
  using assms
proof (induction v arbitrary: t rule: decimal.induct)
  case (1 v)
  let ?u = "word_of_nat (48 + v mod 10) :: u8"
  have "v mod 10 < 10" by simp
  then have u: "unat ?u = 48 + v mod 10" by (simp only: unat_byte_of_nat) simp
  then have nd: "?u \<noteq> 46" "\<not> ?u < 48" "\<not> ?u > 57"
    using \<open>v mod 10 < 10\<close> by (auto simp: word_less_nat_alt simp del: of_nat_add)
  show ?case
  proof (cases "v < 10")
    case True
    then have "decimal v = [?u]" by (simp add: decimal.simps [of v])
    moreover have "unat (0 :: u64) * 10 + (unat ?u - 48) = v" using u True by simp
    ultimately show ?thesis
      using nd dotted_step [of ?u 0] u 1(2) True by (simp del: of_nat_add)
  next
    case False
    let ?w = "word_of_nat (v div 10) :: u64"
    have w: "unat ?w = v div 10" using 1(2) by (simp add: unat_of_nat)
    have "unat ?w * 10 + (unat ?u - 48) = v" unfolding w u by simp
    moreover have "?w \<noteq> 0" using w False by (metis div_greater_zero_iff le_less_linear less_irrefl unat_0 zero_less_numeral)
    moreover have "dotted_loop 0 False (decimal v @ t) = dotted_loop ?w True (?u # t)"
      using False 1 by (simp add: decimal.simps [of v])
    ultimately show ?thesis
      using nd dotted_step [of ?u ?w] u 1(2) by (simp del: of_nat_add)
  qed
qed


lemma parse_dotted_complete:
  assumes "v < 2 ^ 64" and "separated t r"
  shows "parse_dotted_decimal (decimal v @ t) = (Some (word_of_nat v), r)"
  using assms(2) dotted_loop_decimal [OF assms(1)]
  by (auto simp: parse_dotted_decimal_def separated_def CBS_len_def)

lemma dotted_loop_sound:
  "dotted_loop out seen c = (Some v, r) \<Longrightarrow> seen \<or> out = 0 \<Longrightarrow>
     \<exists>t. (if seen then decimal (unat out) else []) @ c = decimal (unat v) @ t \<and> separated t r"
proof (induction out seen c arbitrary: v r rule: dotted_loop.induct)
  case (1 out seen)
  then show ?case by (auto simp: separated_def split: if_splits)
next
  case (2 out seen u c)
  show ?case
  proof (cases "u = 46 \<and> CBS_len c > 0")
    case True
    with 2(2) show ?thesis by (auto simp: separated_def CBS_len_def split: if_splits)
  next
    case False
    let ?bad = "u < 48 \<or> u > 57 \<or> (seen \<and> out = 0) \<or> out > (- 1) div 10 \<or> out * 10 > - 1 - (ucast u - 48)"
    from 2(2) False have ok: "\<not> ?bad" by (auto split: if_splits)
    then have u: "48 \<le> unat u" "unat u \<le> 57" by (auto simp: word_less_nat_alt not_less)
    let ?n = "unat out * 10 + (unat u - 48)"
    from dotted_step(1) [OF u, of out] ok have n: "?n < 2 ^ 64" by blast
    have step: "out * 10 + (ucast u - 48) = word_of_nat ?n" by (rule dotted_step(2) [OF u n])
    have "dotted_loop (out * 10 + (ucast u - 48)) True c = (Some v, r)"
      using 2(2) False ok by auto
    with 2(1) [OF False ok] obtain t where t: "decimal (unat (out * 10 + (ucast u - 48))) @ c = decimal (unat v) @ t"
      "separated t r" by auto
    have "unat (word_of_nat ?n :: u64) = ?n"
      using n by (simp add: unat_of_nat del: of_nat_add of_nat_mult)
    moreover have "decimal ?n = (if seen then decimal (unat out) else []) @ [u]"
    proof -
      have "word_of_nat (48 + (unat u - 48)) = u" using u by simp
      moreover have "\<not> seen \<Longrightarrow> out = 0" using 2(3) by simp
      moreover have "seen \<Longrightarrow> unat out \<noteq> 0" using ok by (simp add: unat_eq_0)
      ultimately show ?thesis
        using decimal_snoc [of "unat out" "unat u - 48"] u decimal.simps [of "unat u - 48"] by auto
    qed
    ultimately show ?thesis using t by (simp add: step)
  qed
qed

lemma parse_dotted_sound:
  "parse_dotted_decimal c = (Some v, r) \<Longrightarrow> \<exists>t. c = decimal (unat v) @ t \<and> separated t r"
  unfolding parse_dotted_decimal_def by (drule dotted_loop_sound) auto

section \<open>Dotted text\<close>

fun dots :: "nat list \<Rightarrow> bytes" where
  "dots [] = []"
| "dots (v # vs) = decimal v @ (if vs = [] then [] else 46 # dots vs)"

fun oid_valid :: "nat list \<Rightarrow> bool" where
  "oid_valid (a # b # vs) \<longleftrightarrow>
     a \<le> 2 \<and> (a < 2 \<longrightarrow> b < 40) \<and> 40 * a + b < 2 ^ 64 \<and> (\<forall>v \<in> set vs. v < 2 ^ 64)"
| "oid_valid _ \<longleftrightarrow> False"

definition components :: "nat list \<Rightarrow> bytes" where
  "components vs = concat (map base128 vs)"

fun oid_der :: "nat list \<Rightarrow> bytes" where
  "oid_der (a # b # vs) = base128 (40 * a + b) @ components vs"
| "oid_der _ = []"

lemma dots_eq_Nil [simp]: "dots vs = [] \<longleftrightarrow> vs = []"
  by (cases vs) simp_all

lemma separated_dots: "separated (if vs = [] then [] else 46 # dots vs) (dots vs)"
  by (simp add: separated_def)

lemma parse_dots: "v < 2 ^ 64 \<Longrightarrow> parse_dotted_decimal (dots (v # vs)) = (Some (word_of_nat v), dots vs)"
  using parse_dotted_complete [OF _ separated_dots [of vs], of v] by simp

lemma dots_parsed:
  assumes "parse_dotted_decimal c = (Some v, dots vs)"
  shows "c = dots (unat v # vs)"
  using parse_dotted_sound [OF assms] by (auto simp: separated_def)

lemma from_text_loop_complete:
  "\<forall>v \<in> set vs. v < 2 ^ 64 \<Longrightarrow> oid_from_text_loop al d (dots vs) s = add_each al d (components vs) s"
proof (induction vs arbitrary: s)
  case Nil
  show ?case by (simp add: components_def CBS_len_def oid_from_text_loop.simps)
next
  case (Cons v vs)
  then have v: "v < 2 ^ 64" by simp
  then have u: "unat (word_of_nat v :: u64) = v" by (simp add: unat_of_nat)
  show ?case
    using Cons by (subst oid_from_text_loop.simps)
      (simp add: parse_dots [OF v, simplified] add_base128_integer_each u components_def
        add_each_append cbb_seq_def CBS_len_def cong: prod.case_cong bool.case_cong)
qed

lemma from_text_loop_sound:
  "oid_from_text_loop al d c s = (True, s') \<Longrightarrow>
     \<exists>vs. c = dots vs \<and> (\<forall>v \<in> set vs. v < 2 ^ 64) \<and> add_each al d (components vs) s = (True, s')"
proof (induction al d c s arbitrary: s' rule: oid_from_text_loop.induct)
  case (1 al d c s)
  show ?case
  proof (cases "c = []")
    case True
    with 1(2) show ?thesis
      by (intro exI [of _ "[]"]) (simp add: oid_from_text_loop.simps CBS_len_def components_def)
  next
    case False
    with 1(2) obtain a c' s1 where p: "parse_dotted_decimal c = (Some a, c')"
      and w: "add_base128_integer al d a s = (True, s1)" and l: "oid_from_text_loop al d c' s1 = (True, s')"
      by (subst (asm) oid_from_text_loop.simps)
        (auto simp: CBS_len_def split: prod.splits option.splits bool.splits)
    have "CBS_len c > 0" using False by (simp add: CBS_len_def)
    with 1(1) p w l obtain vs where "c' = dots vs" "\<forall>v \<in> set vs. v < 2 ^ 64"
      "add_each al d (components vs) s1 = (True, s')" by fastforce
    with dots_parsed p w show ?thesis
      by (intro exI [of _ "unat a # vs"])
        (auto simp: unat_u64_less [simplified] components_def add_base128_integer_each add_each_append cbb_seq_def
          split: if_splits)
  qed
qed

lemma components_Cons: "components (v # vs) = base128 v @ components vs"
  by (simp add: components_def)

lemma oid_der_ne: "oid_valid vs \<Longrightarrow> oid_der vs \<noteq> []"
  by (cases vs rule: oid_der.cases) simp_all


section \<open>From text to DER\<close>

text \<open>The range test of the first two components is exact.\<close>

lemma first_components:
  fixes a b :: u64
  shows "\<not> (a > 2 \<or> (a < 2 \<and> b > 39) \<or> b > - 1 - 80) \<longleftrightarrow>
      unat a \<le> 2 \<and> (unat a < 2 \<longrightarrow> unat b < 40) \<and> 40 * unat a + unat b < 2 ^ 64"
    and "40 * unat a + unat b < 2 ^ 64 \<Longrightarrow> unat (40 * a + b) = 40 * unat a + unat b"
proof -
  have c: "unat (- 1 - 80 :: u64) = 18446744073709551535" by simp
  show "\<not> (a > 2 \<or> (a < 2 \<and> b > 39) \<or> b > - 1 - 80) \<longleftrightarrow>
      unat a \<le> 2 \<and> (unat a < 2 \<longrightarrow> unat b < 40) \<and> 40 * unat a + unat b < 2 ^ 64"
    using unat_u64_less [of b] by (auto simp: word_less_nat_alt c)
  show "unat (40 * a + b) = 40 * unat a + unat b" if "40 * unat a + unat b < 2 ^ 64"
    using that by (simp add: unat_word_ariths)
qed

lemma from_text_complete:
  assumes "oid_valid vs"
  shows "CBB_add_asn1_oid_from_text al d (dots vs) (length (dots vs)) =
    cbb_seq (CBB_flush al d) (add_each al d (oid_der vs))"
proof
  fix s
  from assms obtain a b rest where vs: "vs = a # b # rest" by (cases vs rule: oid_valid.cases) auto
  let ?a = "word_of_nat a :: u64" and ?b = "word_of_nat b :: u64"
  have ab: "a < 2 ^ 64" "b < 2 ^ 64" using assms by (auto simp: vs)
  then have u: "unat ?a = a" "unat ?b = b" by (simp_all add: unat_of_nat)
  then have ok: "\<not> (?a > 2 \<or> (?a < 2 \<and> ?b > 39) \<or> ?b > - 1 - 80)" and sum: "unat (40 * ?a + ?b) = 40 * a + b"
    using assms first_components [of ?a ?b] by (simp_all add: vs)
  have p1: "parse_dotted_decimal (dots vs) = (Some ?a, dots (b # rest))"
    unfolding vs by (rule parse_dots [OF ab(1)])
  have p2: "parse_dotted_decimal (dots (b # rest)) = (Some ?b, dots rest)" by (rule parse_dots [OF ab(2)])
  have rest: "\<forall>v \<in> set rest. v < 2 ^ 64" using assms by (simp add: vs)
  show "CBB_add_asn1_oid_from_text al d (dots vs) (length (dots vs)) s =
    cbb_seq (CBB_flush al d) (add_each al d (oid_der vs)) s"
    unfolding CBB_add_asn1_oid_from_text_def CBS_init_def take_all [OF order_refl] p1
    by (simp only: prod.case option.case p2 ok if_False)
      (simp add: cbb_seq_def add_base128_integer_each sum from_text_loop_complete [OF rest] vs
        add_each_append cong: prod.case_cong bool.case_cong)
qed

lemma from_text_sound:
  assumes "CBB_add_asn1_oid_from_text al d txt len s = (True, s')"
  shows "\<exists>vs. oid_valid vs \<and> take len txt = dots vs \<and>
    cbb_seq (CBB_flush al d) (add_each al d (oid_der vs)) s = (True, s')"
proof -
  from assms obtain s1 a c1 where f: "CBB_flush al d s = (True, s1)"
    and p1: "parse_dotted_decimal (take len txt) = (Some a, c1)"
    by (auto simp: CBB_add_asn1_oid_from_text_def CBS_init_def split: prod.splits option.splits bool.splits)
  note eq1 = assms [unfolded CBB_add_asn1_oid_from_text_def CBS_init_def f p1 prod.case bool.case option.case]
  from eq1 obtain b c2 where p2: "parse_dotted_decimal c1 = (Some b, c2)"
    by (auto split: prod.splits option.splits)
  note eq2 = eq1 [unfolded p2 prod.case option.case]
  from eq2 obtain s2 where ok: "\<not> (a > 2 \<or> (a < 2 \<and> b > 39) \<or> b > - 1 - 80)"
    and w: "add_base128_integer al d (40 * a + b) s1 = (True, s2)" and l: "oid_from_text_loop al d c2 s2 = (True, s')"
    by (auto split: prod.splits bool.splits if_splits)
  from from_text_loop_sound [OF l] obtain rest where rest: "c2 = dots rest" "\<forall>v \<in> set rest. v < 2 ^ 64"
    "add_each al d (components rest) s2 = (True, s')" by blast
  let ?vs = "unat a # unat b # rest"
  have c1: "c1 = dots (unat b # rest)" using dots_parsed p2 rest(1) by blast
  have "take len txt = dots ?vs" using p1 unfolding c1 by (rule dots_parsed)
  moreover have valid: "oid_valid ?vs" using ok rest(2) first_components(1) [of a b] by simp
  moreover have "cbb_seq (CBB_flush al d) (add_each al d (oid_der ?vs)) s = (True, s')"
    using f w rest(3) valid first_components(2) [of a b]
    by (simp add: cbb_seq_def add_each_append add_base128_integer_each)
  ultimately show ?thesis by blast
qed

lemma oid_writer:
  assumes "oid_valid vs"
  shows "strict_writer al (CBB_add_asn1_oid_from_text al d (dots vs) (length (dots vs)))
    (append_at d (oid_der vs))"
  unfolding from_text_complete [OF assms]
  using strict_writer_seq [OF flush_writer.strict_writer_axioms
      strict_writer.axioms(1) [OF add_each_writer [OF oid_der_ne [OF assms]]]]
  by (rule strict_writer_cong) (simp add: bind_close_append)

section \<open>From DER to text\<close>

lemma length_decimal: "v < 10 ^ Suc k \<Longrightarrow> length (decimal v) \<le> Suc k"
proof (induction k arbitrary: v)
  case 0
  then show ?case by (simp add: decimal.simps)
next
  case (Suc k)
  then show ?case
    by (cases "v < 10") (simp_all add: decimal.simps [of v] less_mult_imp_div_less mult.commute)
qed

lemma add_decimal_writer: "strict_writer al (add_decimal al d v) (append_at d (decimal (unat v)))"
proof -
  have "length (decimal (unat v)) \<le> Suc 19"
    using unat_u64_less [of v] by (intro length_decimal) simp
  then show ?thesis unfolding add_decimal_def by (intro CBB_add_bytes_writer) (simp add: size_max_def)
qed

definition text_rest :: "nat list \<Rightarrow> bytes" where
  "text_rest vs = concat (map (\<lambda>v. 46 # decimal v) vs)"

lemma dots_text_rest: "dots (v # vs) = decimal v @ text_rest vs"
  by (induction vs arbitrary: v) (simp_all add: text_rest_def)

lemma dot_decimal_writer:
  "strict_writer al (cbb_seq (CBB_add_u8 al 0 46) (add_decimal al 0 v)) (append_at 0 (46 # decimal (unat v)))"
  using strict_writer_seq [OF u8_writer.strict_writer_axioms [of al 0 46]
      strict_writer.axioms(1) [OF add_decimal_writer [of al 0 v]]]
  by (rule strict_writer_cong) (simp add: append_append)

lemma append_nil_some: "append_at 0 [] [(Root, b)] = Some [(Root, b)]"
  by (simp add: append_at_def close_at_def extend_last_def)


text \<open>Writers on a builder without open children.\<close>

lemma append_root: "append_at 0 bs [(Root, b)] = Some [(Root, b @ bs)]"
  by (simp add: append_at_def close_at_def extend_last_def)

lemma root_step:
  assumes "strict_writer al f (append_at 0 bs)" and "repr s [(Root, b)]" and "f s = (True, s')"
  shows "repr s' [(Root, b @ bs)] \<and> growable s' = growable s"
  using writer.sound [OF strict_writer.axioms(1) [OF assms(1)] assms(2,3)]
  by (auto simp: append_root same_base_growable)

lemma root_run:
  assumes "strict_writer al f (append_at 0 bs)" and "repr s [(Root, b)]" and "infallible al" and "growable s"
    and "length b + length bs < size_max"
  shows "\<exists>s'. f s = (True, s') \<and> repr s' [(Root, b @ bs)] \<and> growable s'"
  using writer.runs [OF strict_writer.axioms(1) [OF assms(1)] assms(2-4) append_root] assms(5) by simp

lemma to_text_loop_sound:
  "oid_to_text_loop al c s = (True, s') \<Longrightarrow> repr s [(Root, b)] \<Longrightarrow>
     \<exists>vs. c = components vs \<and> (\<forall>v \<in> set vs. v < 2 ^ 64) \<and> repr s' [(Root, b @ text_rest vs)]"
proof (induction al c s arbitrary: s' b rule: oid_to_text_loop.induct)
  case (1 al c s)
  show ?case
  proof (cases "CBS_len c = 0")
    case True
    with 1(2,3) show ?thesis
      by (intro exI [of _ "[]"]) (simp add: oid_to_text_loop.simps CBS_len_def components_def text_rest_def)
  next
    case False
    with 1(2) obtain v c' s1 where p: "parse_base128_integer c = (Some v, c')"
      and w: "cbb_seq (CBB_add_u8 al 0 46) (add_decimal al 0 v) s = (True, s1)"
      and l: "oid_to_text_loop al c' s1 = (True, s')"
      by (subst (asm) oid_to_text_loop.simps) (auto split: prod.splits option.splits bool.splits)
    from root_step [OF dot_decimal_writer 1(3) w] have r: "repr s1 [(Root, b @ 46 # decimal (unat v))]" by simp
    from 1(1) [OF False p [symmetric] refl w [symmetric] refl l r] obtain vs where "c' = components vs"
      "\<forall>v \<in> set vs. v < 2 ^ 64" "repr s' [(Root, (b @ 46 # decimal (unat v)) @ text_rest vs)]" by auto
    with p show ?thesis
      by (intro exI [of _ "unat v # vs"])
        (auto simp: base128_codec.dec_iff components_Cons text_rest_def unat_u64_less [simplified])
  qed
qed

lemma to_text_loop_complete:
  assumes "infallible al" and "\<forall>v \<in> set vs. v < 2 ^ 64" and "repr s [(Root, b)]" and "growable s"
    and "length b + length (text_rest vs) < size_max"
  shows "\<exists>s'. oid_to_text_loop al (components vs) s = (True, s') \<and> repr s' [(Root, b @ text_rest vs)]
    \<and> growable s'"
  using assms
proof (induction vs arbitrary: s b)
  case Nil
  then show ?case by (simp add: oid_to_text_loop.simps CBS_len_def components_def text_rest_def)
next
  case (Cons v vs)
  let ?v = "word_of_nat v :: u64"
  have u: "unat ?v = v" using Cons.prems(2) by (simp add: unat_of_nat)
  have p: "parse_base128_integer (components (v # vs)) = (Some ?v, components vs)"
    using base128_codec.dec_enc [of ?v "components vs"] by (simp add: u components_Cons)
  have "length b + length (46 # decimal (unat ?v)) < size_max"
    using Cons.prems(5) by (simp add: text_rest_def u)
  from root_run [OF dot_decimal_writer Cons.prems(3,1,4) this] obtain s1
    where w: "cbb_seq (CBB_add_u8 al 0 46) (add_decimal al 0 ?v) s = (True, s1)"
      and r: "repr s1 [(Root, b @ 46 # decimal v)]" "growable s1" by (auto simp: u)
  have "length (b @ 46 # decimal v) + length (text_rest vs) < size_max" "\<forall>v \<in> set vs. v < 2 ^ 64"
    using Cons.prems(2,5) by (simp_all add: text_rest_def)
  from Cons.IH [OF Cons.prems(1) this(2) r this(1)] obtain s'
    where "oid_to_text_loop al (components vs) s1 = (True, s')"
      "repr s' [(Root, (b @ 46 # decimal v) @ text_rest vs)]" "growable s'" by blast
  moreover have "components (v # vs) \<noteq> []" by (simp add: components_Cons)
  ultimately show ?case
    by (subst oid_to_text_loop.simps) (simp add: CBS_len_def p w text_rest_def)
qed

text \<open>The first component stands for two.\<close>

definition split_first :: "nat \<Rightarrow> nat list" where
  "split_first v = (if 80 \<le> v then [2, v - 80] else [v div 40, v mod 40])"

lemma split_first_valid:
  "v < 2 ^ 64 \<Longrightarrow> \<forall>v \<in> set rest. v < 2 ^ 64 \<Longrightarrow> oid_valid (split_first v @ rest)"
  "oid_der (split_first v @ rest) = base128 v @ components rest"
proof -
  assume "v < 2 ^ 64" and r: "\<forall>v \<in> set rest. v < 2 ^ 64"
  then show "oid_valid (split_first v @ rest)" by (auto simp: split_first_def)
next
  show "oid_der (split_first v @ rest) = base128 v @ components rest" by (simp add: split_first_def)
qed

lemma split_first_join: "oid_valid (a # b # rest) \<Longrightarrow> split_first (40 * a + b) = [a, b]"
proof -
  assume v: "oid_valid (a # b # rest)"
  then consider "a = 2" | "a < 2" "b < 40" by fastforce
  then show ?thesis by cases (auto simp: split_first_def)
qed

definition first_writer :: "allocator \<Rightarrow> u64 \<Rightarrow> cbb \<Rightarrow> bool \<times> cbb" where
  "first_writer al v s =
     (if v \<ge> 80
      then cbb_seq (CBB_add_bytes al 0 [50, 46]) (add_decimal al 0 (v - 80)) s
      else cbb_seq (add_decimal al 0 (v div 40))
             (cbb_seq (CBB_add_u8 al 0 46) (add_decimal al 0 (v mod 40))) s)"

lemma first_writer: "strict_writer al (first_writer al v) (append_at 0 (dots (split_first (unat v))))"
proof (cases "80 \<le> v")
  case True
  have v: "unat (v - 80) = unat v - 80" "80 \<le> unat v" using True by (simp_all add: unat_sub word_le_nat_alt)
  have b: "strict_writer al (CBB_add_bytes al 0 [50, 46]) (append_at 0 [50, 46])"
    by (intro CBB_add_bytes_writer) (simp add: size_max_def)
  from strict_writer_seq [OF b strict_writer.axioms(1) [OF add_decimal_writer [of al 0 "v - 80"]]]
  have "strict_writer al (cbb_seq (CBB_add_bytes al 0 [50, 46]) (add_decimal al 0 (v - 80)))
    (append_at 0 (dots (split_first (unat v))))"
    by (rule strict_writer_cong)
      (simp add: append_append split_first_def v decimal.simps [of 2])
  with True show ?thesis by (simp add: first_writer_def [abs_def])
next
  case False
  have v: "unat (v div 40) = unat v div 40" "unat (v mod 40) = unat v mod 40" "\<not> 80 \<le> unat v"
    using False by (simp_all add: unat_div_distrib unat_mod_distrib word_le_nat_alt)
  from strict_writer_seq [OF add_decimal_writer [of al 0 "v div 40"]
      strict_writer.axioms(1) [OF dot_decimal_writer [of al "v mod 40"]]]
  have "strict_writer al (cbb_seq (add_decimal al 0 (v div 40))
      (cbb_seq (CBB_add_u8 al 0 46) (add_decimal al 0 (v mod 40)))) (append_at 0 (dots (split_first (unat v))))"
    by (rule strict_writer_cong) (simp add: append_append split_first_def v)
  with False show ?thesis by (simp add: first_writer_def [abs_def])
qed

lemma dots_split_first: "dots (split_first v @ rest) = dots (split_first v) @ text_rest rest"
  using dots_text_rest [of _ rest] by (simp add: split_first_def text_rest_def split: if_splits)


lemma to_text_sound:
  assumes "CBS_asn1_oid_to_text al c = Some t"
  shows "\<exists>vs. oid_valid vs \<and> c = oid_der vs \<and> t = dots vs @ [0]"
proof -
  obtain ok s0 where i: "CBB_init al 32 = (ok, s0)" by fastforce
  with assms have ok by (cases ok) (simp_all add: CBS_asn1_oid_to_text_def)
  with i have r0: "repr s0 [(Root, [])]" using init_repr(1) [of al 32 s0] by (simp add: size_max_def)
  from assms i \<open>ok\<close> obtain v copy where p: "parse_base128_integer c = (Some v, copy)"
    by (auto simp: CBS_asn1_oid_to_text_def split: prod.splits option.splits)
  note eq = assms [unfolded CBS_asn1_oid_to_text_def i p prod.case option.case, folded first_writer_def]
  from eq \<open>ok\<close> obtain s1 s2 where f: "first_writer al v s0 = (True, s1)"
    and l: "cbb_seq (oid_to_text_loop al copy) (CBB_add_u8 al 0 0) s1 = (True, s2)"
    and fin: "fst (CBB_finish al 0 True s2) = Some t"
    by (auto split: prod.splits bool.splits)
  from l obtain s3 where l: "oid_to_text_loop al copy s1 = (True, s3)" and z: "CBB_add_u8 al 0 0 s3 = (True, s2)"
    by (auto simp: cbb_seq_def split: prod.splits bool.splits)
  let ?hd = "split_first (unat v)"
  from root_step [OF first_writer r0 f] have r1: "repr s1 [(Root, dots ?hd)]" by simp
  from to_text_loop_sound [OF l r1] obtain vs where vs: "copy = components vs" "\<forall>v \<in> set vs. v < 2 ^ 64"
    and r3: "repr s3 [(Root, dots ?hd @ text_rest vs)]" by blast
  from root_step [OF u8_writer.strict_writer_axioms r3 z]
  have r2: "repr s2 [(Root, dots (?hd @ vs) @ [0])]" by (simp add: dots_split_first)
  from fin obtain s4 where "CBB_finish al 0 True s2 = (Some t, s4)" by (metis prod.collapse)
  from finish_output(1) [OF r2 this] have "t = dots (?hd @ vs) @ [0]" by (simp add: close_at_def)
  moreover have "c = oid_der (?hd @ vs)"
    using p vs(1) by (simp add: base128_codec.dec_iff split_first_valid(2))
  ultimately show ?thesis using split_first_valid(1) [OF unat_u64_less vs(2)] by blast
qed

lemma to_text_complete:
  assumes al: "infallible al" and valid: "oid_valid vs" and len: "length (dots vs) + 1 < size_max"
  shows "CBS_asn1_oid_to_text al (oid_der vs) = Some (dots vs @ [0])"
proof -
  from valid obtain a b rest where vs: "vs = a # b # rest" by (cases vs rule: oid_valid.cases) auto
  let ?v = "word_of_nat (40 * a + b) :: u64"
  have u: "unat ?v = 40 * a + b" using valid by (simp add: vs unat_of_nat del: of_nat_add of_nat_mult)
  have p: "parse_base128_integer (oid_der vs) = (Some ?v, components rest)"
    using base128_codec.dec_enc [of ?v "components rest"] u by (simp add: vs del: of_nat_add of_nat_mult)
  have dtext: "dots vs = dots (split_first (unat ?v)) @ text_rest rest"
    using dots_split_first [of "unat ?v" rest] split_first_join [of a b rest] valid
    unfolding u by (simp add: vs)
  from init_succeeds [OF al] obtain s0 where i: "CBB_init al 32 = (True, s0)" by blast
  then have r0: "repr s0 [(Root, [])]" "growable s0" using init_repr [of al 32 s0] by (simp_all add: size_max_def)
  have l1: "length [] + length (dots (split_first (unat ?v))) < size_max" using len dtext by simp
  from root_run [OF first_writer r0(1) al r0(2) l1]
  obtain s1 where f: "first_writer al ?v s0 = (True, s1)"
    and r1: "repr s1 [(Root, dots (split_first (unat ?v)))]" "growable s1" by auto
  have l2: "length (dots (split_first (unat ?v))) + length (text_rest rest) < size_max" using len dtext by simp
  have bounds: "\<forall>v \<in> set rest. v < 2 ^ 64" using valid by (simp add: vs)
  from to_text_loop_complete [OF al bounds r1 l2] obtain s2 where
    l: "oid_to_text_loop al (components rest) s1 = (True, s2)" and r2: "repr s2 [(Root, dots vs)]" "growable s2"
    by (auto simp: dtext)
  have l3: "length (dots vs) + length [0 :: u8] < size_max" using len by simp
  from root_run [OF u8_writer.strict_writer_axioms r2(1) al r2(2) l3] obtain s3
    where z: "CBB_add_u8 al 0 0 s2 = (True, s3)" and r3: "repr s3 [(Root, dots vs @ [0])]" "growable s3" by blast
  have c: "close_at 0 [(Root, dots vs @ [0])] = Some [(Root, dots vs @ [0])]" by (simp add: close_at_def)
  have "fst (CBB_finish al 0 True s3) = Some (dots vs @ [0])"
    using finish_succeeds [OF r3(1) al r3(2) c] len by simp
  then show ?thesis
    unfolding CBS_asn1_oid_to_text_def i p prod.case option.case bool.case first_writer_def [symmetric] f
    by (simp add: cbb_seq_def l z)
qed

lemma length_text_rest:
  "\<forall>v \<in> set vs. v < 2 ^ 64 \<Longrightarrow> length (text_rest vs) \<le> 21 * length (components vs)"
proof (induction vs)
  case (Cons v vs)
  have "length (decimal v) \<le> Suc 19" using Cons.prems by (intro length_decimal) simp
  moreover have "1 \<le> length (base128 v)" by (simp add: Suc_le_eq)
  ultimately show ?case using Cons by (simp add: text_rest_def components_Cons)
qed (simp add: text_rest_def)

lemma length_dots:
  assumes "oid_valid vs"
  shows "length (dots vs) \<le> 22 * length (oid_der vs)"
proof -
  from assms obtain a b rest where vs: "vs = a # b # rest" by (cases vs rule: oid_valid.cases) auto
  have "length (decimal a) = 1" using assms by (simp add: vs decimal.simps)
  moreover have "length (decimal b) \<le> Suc 19" using assms by (intro length_decimal) (simp add: vs)
  moreover have "1 \<le> length (base128 (40 * a + b))" by (simp add: Suc_le_eq)
  moreover have "length (text_rest rest) \<le> 21 * length (components rest)"
    using assms by (intro length_text_rest) (simp add: vs)
  ultimately show ?thesis using dots_text_rest [of b rest] by (simp add: vs)
qed

section \<open>Properties\<close>

text \<open>
  \<open>CBS_asn1_oid_to_text\<close> turns exactly the minimal DER contents of object identifiers into
  text: the dotted decimal components, the first two recovered from the first base-128 number. (The
  bound says that the text, at most 22 times as long, fits in memory.)
\<close>

theorem oid_to_text_correct:
  assumes "infallible al" and "22 * length c + 1 < size_max"
  shows "CBS_asn1_oid_to_text al c = Some t \<longleftrightarrow> (\<exists>vs. oid_valid vs \<and> c = oid_der vs \<and> t = dots vs @ [0])"
proof
  show "CBS_asn1_oid_to_text al c = Some t \<Longrightarrow> \<exists>vs. oid_valid vs \<and> c = oid_der vs \<and> t = dots vs @ [0]"
    by (rule to_text_sound)
next
  assume "\<exists>vs. oid_valid vs \<and> c = oid_der vs \<and> t = dots vs @ [0]"
  then obtain vs where vs: "oid_valid vs" "c = oid_der vs" "t = dots vs @ [0]" by blast
  have "length (dots vs) + 1 < size_max" using length_dots [OF vs(1)] assms(2) by (simp add: vs(2))
  from to_text_complete [OF assms(1) vs(1) this] show "CBS_asn1_oid_to_text al c = Some t"
    by (simp add: vs)
qed

theorem oid_to_text_correct_witness:
  "CBS_asn1_oid_to_text (\<lambda>_. True) (oid_der [2, 5, 29]) = Some (dots [2, 5, 29] @ [0])"
proof -
  have "22 * length (oid_der [2, 5, 29]) + 1 < size_max"
    by (simp add: components_def base128_def size_max_def)
  from oid_to_text_correct [OF _ this, of "\<lambda>_. True"] show ?thesis
    by (simp only: infallible_def simp_thms) (rule exI [of _ "[2, 5, 29]"], simp)
qed

text \<open>
  C27: \<open>CBB_add_asn1_oid_from_text\<close> followed by \<open>CBS_asn1_oid_to_text\<close> gives the same text: whatever
  text the first accepts and writes, the second prints back, with a terminator.
\<close>

theorem oid_text_roundtrip:
  assumes "CBB_init al cap = (True, s0)" and "cap < size_max" and "infallible al"
    and "CBB_add_asn1_oid_from_text al 0 txt len s0 = (True, s)"
    and "CBB_finish al 0 given s = (Some out, s')" and "len + 1 < size_max"
  shows "CBS_asn1_oid_to_text al out = Some (take len txt @ [0])"
proof -
  from from_text_sound [OF assms(4)] obtain vs where vs: "oid_valid vs" "take len txt = dots vs"
    and w: "cbb_seq (CBB_flush al 0) (add_each al 0 (oid_der vs)) s0 = (True, s)" by blast
  have "writer al (cbb_seq (CBB_flush al 0) (add_each al 0 (oid_der vs))) (append_at 0 (oid_der vs))"
    using strict_writer.axioms(1) [OF oid_writer [OF vs(1), of al 0]]
    unfolding from_text_complete [OF vs(1)] .
  from value_output [OF this init_repr(1) [OF assms(1,2)] w assms(5)] have out: "out = oid_der vs" .
  have "length (dots vs) \<le> len" unfolding vs(2) [symmetric] by simp
  with assms(6) have "length (dots vs) + 1 < size_max" by linarith
  from to_text_complete [OF assms(3) vs(1) this] show ?thesis by (simp add: out vs(2))
qed

theorem oid_text_roundtrip_witness:
  "CBS_asn1_oid_to_text (\<lambda>_. True) [0x2a] = Some ([49, 46, 50] @ [0])"
proof -
  let ?al = "\<lambda>_ :: nat. True"
  let ?txt = "[49, 46, 50] :: bytes"
  let ?init = "snd (CBB_init ?al 0)"
  let ?s = "snd (CBB_add_asn1_oid_from_text ?al 0 ?txt 3 ?init)"
  let ?f = "CBB_finish ?al 0 True ?s"
  have "fst (CBB_init ?al 0)" by code_simp
  then have s0: "CBB_init ?al 0 = (True, ?init)" by (rule run_ok)
  have "fst (CBB_add_asn1_oid_from_text ?al 0 ?txt 3 ?init)" by code_simp
  then have w: "CBB_add_asn1_oid_from_text ?al 0 ?txt 3 ?init = (True, ?s)" by (rule run_ok)
  have "fst ?f = Some [0x2a]" by code_simp
  then have "?f = (Some [0x2a], snd ?f)" by (rule run_result)
  from oid_text_roundtrip [OF s0 _ _ w this] show ?thesis by (simp add: size_max_def infallible_def)
qed

end
