(* ===== verification/Memcmp.thy ===== *)
theory Memcmp
  imports Prelude "HOL-Library.List_Lexorder"
begin

text \<open>
  \<open>memcmp\<close> of the C library, and the comparison of two byte strings that is built on it in several
  places of the code: the lexicographic order, in which a beginning comes before the whole.
\<close>

text \<open>Only the sign of the result of \<open>memcmp\<close> is defined.\<close>

fun memcmp :: "bytes \<Rightarrow> bytes \<Rightarrow> nat \<Rightarrow> int" where
  "memcmp (x # xs) (y # ys) n =
     (if n = 0 then 0 else if x < y then -1 else if y < x then 1 else memcmp xs ys (n - 1))"
| "memcmp _ _ _ = 0"

lemma memcmp_cases:
  "min (length a) (length b) = n \<Longrightarrow>
     (memcmp a b n < 0 \<longrightarrow> a < b) \<and> (memcmp a b n > 0 \<longrightarrow> b < a) \<and>
     (memcmp a b n = 0 \<longrightarrow> take n a = take n b)"
  by (induction a b n rule: memcmp.induct) auto

lemma prefix_less: "length a < length b \<Longrightarrow> take (length a) b = a \<Longrightarrow> a < (b :: bytes)"
proof (induction a arbitrary: b)
  case (Cons x a)
  then show ?case by (cases b) auto
qed (auto simp: neq_Nil_conv)

text \<open>A comparison by \<open>memcmp\<close> first and the lengths second is this order.\<close>

lemma memcmp_then_length:
  assumes "r = memcmp a b (min (length a) (length b))"
    and c: "c = (if r \<noteq> 0 then r else if length a < length b then -1 else if length b < length a then 1 else 0)"
  shows "c < 0 \<longleftrightarrow> a < b" and "c = 0 \<longleftrightarrow> a = b" and "0 < c \<longleftrightarrow> b < a"
proof -
  let ?n = "min (length a) (length b)"
  note m = memcmp_cases [OF refl, of a b, folded assms(1)]
  consider "r < 0" | "r > 0" | "r = 0" "length a = length b" | "r = 0" "length a < length b" | "r = 0" "length b < length a"
    by linarith
  then have "(c < 0 \<longleftrightarrow> a < b) \<and> (c = 0 \<longleftrightarrow> a = b) \<and> (0 < c \<longleftrightarrow> b < a)"
  proof cases
    case 4
    with m have "take (length a) b = a" by (simp add: min_def)
    from prefix_less [OF 4(2) this] 4 c show ?thesis by auto
  next
    case 5
    with m have "take (length b) a = b" by (simp add: min_def)
    from prefix_less [OF 5(2) this] 5 c show ?thesis by auto
  qed (use m c in auto)
  then show "c < 0 \<longleftrightarrow> a < b" "c = 0 \<longleftrightarrow> a = b" "0 < c \<longleftrightarrow> b < a" by blast+
qed

end
