(* ===== verification/Cbb_SetOf.thy ===== *)
theory Cbb_SetOf
  imports Cbb_Doc Memcmp "HOL-Library.Multiset"
begin

text \<open>
  \<open>CBB_flush_asn1_set_of\<close> of \<open>cbb.c\<close>: DER wants the elements of a SET OF in ascending order of
  their encodings. The code parses what was written, sorts it and writes it back in place.
\<close>

section \<open>The code\<close>

definition compare_set_of_element :: "cbs \<Rightarrow> cbs \<Rightarrow> int" where
  "compare_set_of_element a b =
     (let a_len = CBS_len a; b_len = CBS_len b;
          min_len = (if a_len < b_len then a_len else b_len);
          ret = memcmp a b min_len
      in if ret \<noteq> 0 then ret
         else if a_len = b_len then 0
         else if a_len < b_len then -1 else 1)"

text \<open>\<open>qsort\<close> of the C library with this comparison.\<close>

fun insert_by :: "('a \<Rightarrow> 'a \<Rightarrow> int) \<Rightarrow> 'a \<Rightarrow> 'a list \<Rightarrow> 'a list" where
  "insert_by cmp x [] = [x]"
| "insert_by cmp x (y # ys) = (if cmp x y \<le> 0 then x # y # ys else y # insert_by cmp x ys)"

definition qsort :: "('a \<Rightarrow> 'a \<Rightarrow> int) \<Rightarrow> 'a list \<Rightarrow> 'a list" where
  "qsort cmp xs = foldr (insert_by cmp) xs []"

text \<open>The two parsing loops: all elements, or failure.\<close>

function set_elements :: "cbs \<Rightarrow> cbs list option" where
  "set_elements c =
     (if CBS_len c = 0 then Some []
      else case CBS_get_any_asn1_element c of
             (None, _) \<Rightarrow> None
           | (Some (out, _, _), c') \<Rightarrow> map_option ((#) out) (set_elements c'))"
  by pat_completeness auto
termination
proof (relation "measure length")
  fix c x y x2 a b out tag hl
  assume "(x, y) = CBS_get_any_asn1_element c" "x = Some x2" "(out, a) = x2" "(tag, hl) = a"
  then have "cbs_get_any_asn1_element False c = (Some (out, tag, hl), y)"
    by (auto simp: CBS_get_any_asn1_element_def)
  from element_decreases [OF this] show "(y, c) \<in> measure length" by auto
qed simp

declare set_elements.simps [simp del]

fun add_elements :: "allocator \<Rightarrow> nat \<Rightarrow> cbs list \<Rightarrow> cbb \<Rightarrow> bool \<times> cbb" where
  "add_elements al d [] s = (True, s)"
| "add_elements al d (e # es) s =
     (case CBB_add_bytes al d e s of (False, s) \<Rightarrow> (False, s) | (True, s) \<Rightarrow> add_elements al d es s)"

abbreviation (input) sizeof_CBS :: nat where
  "sizeof_CBS \<equiv> 16"

definition CBB_flush_asn1_set_of :: "allocator \<Rightarrow> nat \<Rightarrow> cbb \<Rightarrow> bool \<times> cbb" where
  "CBB_flush_asn1_set_of al d s =
     (case CBB_flush al d s of
        (False, s) \<Rightarrow> (False, s)
      | (True, s) \<Rightarrow>
          (case CBB_data d s of
             None \<Rightarrow> (False, s)
           | Some data \<Rightarrow>
               (case set_elements data of
                  None \<Rightarrow> (False, s)
                | Some es \<Rightarrow>
                    if length es < 2 then (True, s)
                    else if length es > (size_max - 1) div sizeof_CBS then (False, s)
                    else
                      (case OPENSSL_memdup al data of
                         None \<Rightarrow> (False, s)
                       | Some buf \<Rightarrow>
                           if \<not> OPENSSL_malloc al (length es * sizeof_CBS) then (False, s)
                           else (case set_elements buf of
                                   None \<Rightarrow> (False, s)
                                 | Some es \<Rightarrow>
                                     let s = s\<lparr>cbb_base := map_option
                                           (\<lambda>b. b\<lparr>cb_data := take (cbb_start d s) (cb_data b)\<rparr>) (cbb_base s)\<rparr>
                                     in add_elements al d (qsort compare_set_of_element es) s)))))"

section \<open>The order\<close>

lemma compare_order:
  "compare_set_of_element a b < 0 \<longleftrightarrow> a < b" "compare_set_of_element a b = 0 \<longleftrightarrow> a = b"
proof -
  have "compare_set_of_element a b = (let r = memcmp a b (min (length a) (length b)) in
      if r \<noteq> 0 then r else if length a < length b then -1 else if length b < length a then 1 else 0)"
    by (auto simp: compare_set_of_element_def CBS_len_def Let_def min_def)
  from memcmp_then_length [OF refl this [unfolded Let_def]]
  show "compare_set_of_element a b < 0 \<longleftrightarrow> a < b" "compare_set_of_element a b = 0 \<longleftrightarrow> a = b" by blast+
qed

lemma compare_le: "compare_set_of_element a b \<le> 0 \<longleftrightarrow> a \<le> b"
  using compare_order [of a b] by (auto simp: le_less)

lemma insert_by_insort: "insert_by compare_set_of_element x xs = insort x xs"
  by (induction xs) (auto simp: compare_le)

lemma qsort_sort: "qsort compare_set_of_element xs = sort xs"
  by (induction xs) (simp_all add: qsort_def insert_by_insort)


section \<open>The elements\<close>

definition der_elements :: "bytes list \<Rightarrow> bool" where
  "der_elements es \<longleftrightarrow> (\<forall>e \<in> set es. \<exists>t b. length b < 2 ^ 32 \<and> e = der_tlv t b)"

lemma der_elements_Cons:
  "der_elements (e # es) \<longleftrightarrow> (\<exists>t b. length b < 2 ^ 32 \<and> e = der_tlv t b) \<and> der_elements es"
  by (simp add: der_elements_def)

lemma set_elements_iff: "set_elements c = Some es \<longleftrightarrow> der_elements es \<and> c = concat es"
proof (induction c arbitrary: es rule: set_elements.induct)
  case (1 c)
  show ?case
  proof (cases "c = []")
    case True
    then show ?thesis
      by (cases es) (auto simp: set_elements.simps CBS_len_def der_elements_def der_tlv_def length_der_tag(2))
  next
    case ne: False
    show ?thesis
    proof (cases "fst (CBS_get_any_asn1_element c)")
      case None
      have "\<not> (der_elements es \<and> c = concat es)"
      proof
        assume a: "der_elements es \<and> c = concat es"
        then obtain e es' where es: "es = e # es'" using ne by (cases es) auto
        with a obtain t b where "length b < 2 ^ 32" "e = der_tlv t b" by (auto simp: der_elements_def)
        with a es have "der_element c e t (der_header_len t b) (concat es')" by (auto simp: der_element_def)
        with None show False
          using element_complete [of c e t _ "concat es'" False] by (simp add: CBS_get_any_asn1_element_def)
      qed
      with ne None show ?thesis
        by (cases "CBS_get_any_asn1_element c") (simp add: set_elements.simps [of c] CBS_len_def)
    next
      case (Some o3)
      then obtain out t hl r where p: "CBS_get_any_asn1_element c = (Some (out, t, hl), r)"
        by (cases o3; cases "CBS_get_any_asn1_element c") auto
      then obtain b where b: "length b < 2 ^ 32" "out = der_tlv t b" "c = out @ r"
        using element_iff [of False] by (auto simp: CBS_get_any_asn1_element_def der_element_def)
      have IH: "set_elements r = Some es \<longleftrightarrow> der_elements es \<and> r = concat es" for es
        using 1 [OF _ p [symmetric] refl refl refl] ne by (simp add: CBS_len_def)
      have "set_elements c = Some es \<longleftrightarrow> (\<exists>es'. es = out # es' \<and> der_elements es' \<and> r = concat es')"
        using ne p by (auto simp: set_elements.simps [of c] CBS_len_def IH)
      also have "\<dots> \<longleftrightarrow> der_elements es \<and> c = concat es"
      proof
        assume "\<exists>es'. es = out # es' \<and> der_elements es' \<and> r = concat es'"
        then obtain es' where es': "es = out # es'" "der_elements es'" "r = concat es'" by blast
        moreover have "\<exists>t b. length b < 2 ^ 32 \<and> out = der_tlv t b" using b by blast
        ultimately show "der_elements es \<and> c = concat es" using b(3) by (simp add: der_elements_Cons)
      next
        assume a: "der_elements es \<and> c = concat es"
        then obtain e es' where es: "es = e # es'" using ne by (cases es) auto
        with a obtain t' b' where b': "length b' < 2 ^ 32" "e = der_tlv t' b'" by (auto simp: der_elements_def)
        have "der_tlv t b @ r = der_tlv t' b' @ concat es'" using a b b' es by simp
        with b(1) b'(1) have "t = t' \<and> b = b' \<and> r = concat es'"
          using der_codec.enc_prefix_free [of "(t, b)" "(t', b')" r "concat es'"] by simp
        with a es b b' show "\<exists>es'. es = out # es' \<and> der_elements es' \<and> r = concat es'"
          by (auto simp: der_elements_def)
      qed
      finally show ?thesis .
    qed
  qed
qed

section \<open>Rewriting in place\<close>

lemma cbb_start_top:
  assumes "repr s (gs @ [(k, b)])" and "length gs = d"
  shows "cbb_start d s = length (layout gs) + holes k"
proof (cases gs)
  case Nil
  with assms show ?thesis by (auto simp: repr_def cbb_start_def split: option.splits)
next
  case (Cons f gs')
  then have d: "d = Suc (length gs')" using assms(2) by simp
  have cs: "children s = tl (layout_children 0 (gs @ [(k, b)]))"
    using assms(1) by (auto simp: repr_def split: option.splits)
  have "children s ! (d - 1) = layout_children 0 (gs @ [(k, b)]) ! d"
    unfolding cs using d Cons by (subst nth_tl) simp_all
  also have "\<dots> = \<lparr>offset = length (layout gs), pending_len_len = holes k, pending_is_asn1 = (k = Asn1)\<rparr>"
    using assms(2) by (simp add: nth_append)
  finally show ?thesis using d by (simp add: cbb_start_def)
qed

lemma repr_truncate:
  assumes s: "repr s (gs @ [(k, b)])" and d: "length gs = d"
  shows "repr (s\<lparr>cbb_base := map_option (\<lambda>b. b\<lparr>cb_data := take (cbb_start d s) (cb_data b)\<rparr>) (cbb_base s)\<rparr>)
    (gs @ [(k, [])])"
proof -
  from repr_base [OF s] obtain u where u: "cbb_base s = Some u" by blast
  then have data: "cb_data u = layout gs @ replicate (holes k) 0 @ b" and ok: "buffer_ok u"
    using s by (simp_all add: repr_def)
  then have "take (cbb_start d s) (cb_data u) = layout (gs @ [(k, [])])"
    by (simp add: cbb_start_top [OF s d])
  moreover have "length (layout (gs @ [(k, [])])) \<le> cb_cap u" using ok data by (simp add: buffer_ok_def)
  ultimately show ?thesis
    using s u by (cases gs) (auto simp: repr_def buffer_ok_def)
qed

lemma repr_data:
  assumes s: "repr s (gs @ [(k, b)])" and d: "length gs = d"
  shows "CBB_data d s = Some b" and "length b < size_max"
proof -
  from repr_base [OF s] obtain u where u: "cbb_base s = Some u" by blast
  then have data: "cb_data u = layout gs @ replicate (holes k) 0 @ b" and ok: "buffer_ok u"
    and "length (children s) = d"
    using s d by (simp_all add: repr_def)
  then show "CBB_data d s = Some b" "length b < size_max"
    using cbb_start_top [OF s d] u by (simp_all add: CBB_data_def buffer_ok_def)
qed

lemma add_elements_repr:
  assumes "repr s (gs @ [(k, b)])" and "length gs = d" and "\<forall>e \<in> set es. length e < size_max"
    and "add_elements al d es s = (True, s')"
  shows "repr s' (gs @ [(k, b @ concat es)])"
  using assms
proof (induction es arbitrary: s b)
  case (Cons e es)
  from Cons.prems(4) obtain s1 where a: "CBB_add_bytes al d e s = (True, s1)"
    and r: "add_elements al d es s1 = (True, s')" by (auto split: prod.splits bool.splits)
  have "close_at d (gs @ [(k, b)]) = Some (gs @ [(k, b)])" using Cons.prems(2) by (intro close_at_closed) simp
  then have "append_at d e (gs @ [(k, b)]) = Some (gs @ [(k, b @ e)])" by (simp add: append_at_def)
  with writer.sound [OF strict_writer.axioms(1) [OF CBB_add_bytes_writer(1)] Cons.prems(1) a] Cons.prems(3)
  have "repr s1 (gs @ [(k, b @ e)])" by auto
  from Cons.IH [OF this Cons.prems(2) _ r] Cons.prems(3) show ?case by simp
qed simp

lemma concat_sort_short: "length es < 2 \<Longrightarrow> sort es = es"
  by (cases es; cases "tl es") auto

lemma element_length: "e \<in> set es \<Longrightarrow> length e \<le> length (concat es)"
  by (induction es) auto

lemma flush_set_of_sound:
  assumes s: "repr s fs" and f: "CBB_flush_asn1_set_of al d s = (True, s')"
    and c: "close_at d fs = Some (gs @ [(k, body)])"
  shows "\<exists>es. der_elements es \<and> body = concat es \<and> repr s' (gs @ [(k, concat (sort es))])"
proof -
  have d: "length gs = d" using close_at_Some [OF c] by simp
  from f obtain s1 where f1: "CBB_flush al d s = (True, s1)"
    by (auto simp: CBB_flush_asn1_set_of_def split: prod.splits bool.splits)
  from flush_writer.sound [OF s f1] c have s1: "repr s1 (gs @ [(k, body)])" by auto
  note data = repr_data [OF s1 d]
  from f obtain es where es: "set_elements body = Some es"
    by (auto simp: CBB_flush_asn1_set_of_def f1 data(1) split: option.splits)
  then have e: "der_elements es" "body = concat es" by (simp_all add: set_elements_iff)
  show ?thesis
  proof (cases "length es < 2")
    case True
    with f have "s' = s1" by (simp add: CBB_flush_asn1_set_of_def f1 data(1) es)
    with s1 e concat_sort_short [OF True] show ?thesis by auto
  next
    case False
    let ?t = "s1\<lparr>cbb_base := map_option (\<lambda>b. b\<lparr>cb_data := take (cbb_start d s1) (cb_data b)\<rparr>) (cbb_base s1)\<rparr>"
    have "OPENSSL_memdup al body = None \<or> OPENSSL_memdup al body = Some body"
      by (simp add: OPENSSL_memdup_def)
    with f False have a: "add_elements al d (sort es) ?t = (True, s')"
      by (auto simp: CBB_flush_asn1_set_of_def f1 data(1) es qsort_sort split: if_splits option.splits)
    have "\<forall>e \<in> set (sort es). length e < size_max"
      using element_length [of _ es] data(2) e(2) by (auto intro: le_less_trans)
    from add_elements_repr [OF repr_truncate [OF s1 d] d this a] e show ?thesis by auto
  qed
qed

section \<open>Properties\<close>

text \<open>
  C26: \<open>CBB_flush_asn1_set_of\<close> leaves the same elements, now in ascending order of their encodings,
  with every other open child and all bytes before untouched; and it refuses contents that are not
  a sequence of DER elements.
\<close>

theorem set_of_is_sorted:
  assumes "repr s fs" and "CBB_flush_asn1_set_of al d s = (True, s')"
    and "close_at d fs = Some (gs @ [(k, body)])"
  shows "\<exists>es sorted_es. der_elements es \<and> body = concat es
    \<and> mset sorted_es = mset es \<and> sorted_wrt (\<lambda>a b. compare_set_of_element a b \<le> 0) sorted_es
    \<and> repr s' (gs @ [(k, concat sorted_es)])"
proof -
  from flush_set_of_sound [OF assms] obtain es where "der_elements es" "body = concat es"
    and "repr s' (gs @ [(k, concat (sort es))])" by blast
  moreover have "sorted_wrt (\<lambda>a b. compare_set_of_element a b \<le> 0) (sort es)"
    using sorted_sort [of es] by (simp add: compare_le)
  ultimately show ?thesis by (metis mset_sort)
qed


definition set_of_example :: cbb where
  "set_of_example =
     \<lparr>cbb_base = Some \<lparr>cb_data = [0x31, 0, 2, 1, 5, 2, 1, 3], cb_cap = 8, can_resize = True, cb_error = False\<rparr>,
      children = [\<lparr>offset = 1, pending_len_len = 1, pending_is_asn1 = True\<rparr>]\<rparr>"

theorem set_of_is_sorted_witness:
  "\<exists>es sorted_es. der_elements es \<and> [2, 1, 5, 2, 1, 3] = concat es
    \<and> mset sorted_es = mset es \<and> sorted_wrt (\<lambda>a b. compare_set_of_element a b \<le> 0) sorted_es
    \<and> repr (snd (CBB_flush_asn1_set_of (\<lambda>_. True) 1 set_of_example))
        ([(Root, [0x31])] @ [(Asn1, concat sorted_es)])"
proof (rule set_of_is_sorted)
  show "repr set_of_example [(Root, [0x31]), (Asn1, [2, 1, 5, 2, 1, 3])]"
    by (simp add: set_of_example_def repr_def buffer_ok_def size_max_def)
  have "fst (CBB_flush_asn1_set_of (\<lambda>_. True) 1 set_of_example)" by code_simp
  then show "CBB_flush_asn1_set_of (\<lambda>_. True) 1 set_of_example =
    (True, snd (CBB_flush_asn1_set_of (\<lambda>_. True) 1 set_of_example))" by (rule run_ok)
  show "close_at 1 [(Root, [0x31]), (Asn1, [2, 1, 5, 2, 1, 3])] =
    Some ([(Root, [0x31])] @ [(Asn1, [2, 1, 5, 2, 1, 3])])" by (simp add: close_at_def)
qed

end
