(* ===== verification/Ber.thy ===== *)
theory Ber
  imports Cbb_Doc
begin

text \<open>
  \<open>crypto/bytestring/ber.c\<close>: the conversion of BER to DER. Indefinite lengths become definite ones
  and constructed strings are put together. The specification is a relation between BER input and
  trees of DER elements; the conversion is shown to write the encoding of such a tree.
\<close>

section \<open>The code\<close>

definition kMaxDepth :: nat where
  "kMaxDepth = 2048"

definition prim_tag :: "u32 \<Rightarrow> u32" where
  "prim_tag tag = tag AND NOT CBS_ASN1_CONSTRUCTED"

text \<open>
  BIT, OCTET, UTF8, Numeric, Printable, T61, Videotex, IA5, Graphic, Visible, General, Universal and
  BMP strings.
\<close>

definition is_string_type :: "u32 \<Rightarrow> bool" where
  "is_string_type tag =
     (tag AND NOT CBS_ASN1_CONSTRUCTED
      \<in> {CBS_ASN1_BITSTRING, CBS_ASN1_OCTETSTRING, 0xc, 0x12, 0x13, 0x14, 0x15, 0x16, 0x19, 0x1a, 0x1b, 0x1c, 0x1e})"

text \<open>An element that consists of its header, which ends in the indefinite length.\<close>

definition is_indefinite :: "nat \<Rightarrow> cbs \<Rightarrow> bool" where
  "is_indefinite header_len contents =
     (CBS_len contents = header_len \<and> header_len > 0 \<and> contents ! (header_len - 1) = 0x80)"

lemma ber_element_shorter:
  assumes "CBS_get_any_ber_asn1_element c = (Some (out, t, hl), r)"
  shows "c = out @ r" and "length r < length c" and "length (drop hl out) < length c"
  using element_decreases [of True c out t hl r] assms by (auto simp: CBS_get_any_ber_asn1_element_def)

lemma ber_element_progress:
  "(Some (out, t, hl), r) = CBS_get_any_ber_asn1_element c \<Longrightarrow>
     length r < length c \<and> length (drop hl out) < length c"
  using ber_element_shorter [of c out t hl r] by simp

text \<open>
  The loop of \<open>cbs_find_ber\<close>; \<open>found\<close> is what \<open>*ber_found\<close> holds. The recursive call stores its own
  answer there, starting from zero.
\<close>

function find_ber_loop :: "cbs \<Rightarrow> bool \<Rightarrow> nat \<Rightarrow> bool option" where
  "find_ber_loop c found depth =
     (if CBS_len c = 0 then Some found
      else case CBS_get_any_ber_asn1_element c of
             (None, _) \<Rightarrow> None
           | (Some (contents, tag, header_len), c') \<Rightarrow>
               if is_indefinite header_len contents then Some True
               else if tag AND CBS_ASN1_CONSTRUCTED \<noteq> 0 then
                 if is_string_type tag then Some True
                 else case CBS_skip header_len contents of
                        (None, _) \<Rightarrow> None
                      | (Some _, inner) \<Rightarrow>
                          (case (if depth + 1 > kMaxDepth then None
                                 else find_ber_loop inner False (depth + 1)) of
                             None \<Rightarrow> None
                           | Some found' \<Rightarrow> find_ber_loop c' found' depth)
               else find_ber_loop c' found depth)"
  by pat_completeness auto
termination
  by (relation "measure (\<lambda>(c, f, d). length c)")
    (auto simp: CBS_skip_def cbs_get_def rbind_def dest!: ber_element_progress split: if_splits)

declare find_ber_loop.simps [simp del]

definition cbs_find_ber :: "cbs \<Rightarrow> nat \<Rightarrow> bool option" where
  "cbs_find_ber orig_in depth =
     (if depth > kMaxDepth then None else find_ber_loop orig_in False depth)"

definition is_eoc :: "nat \<Rightarrow> cbs \<Rightarrow> bool" where
  "is_eoc header_len contents = (header_len = 2 \<and> CBS_len contents = 2 \<and> take 2 contents = [0, 0])"

text \<open>
  \<open>out\<close> is the builder at depth \<open>d\<close>. The first step of a round: what \<open>out_contents\<close> is and the string
  tag of the children.
\<close>

definition convert_open :: "allocator \<Rightarrow> nat \<Rightarrow> u32 \<Rightarrow> u32 \<Rightarrow> cbb \<Rightarrow> bool \<times> nat \<times> u32 \<times> cbb" where
  "convert_open al d string_tag tag s =
     (if string_tag \<noteq> 0 then
        (if tag AND NOT CBS_ASN1_CONSTRUCTED \<noteq> string_tag then (False, d, string_tag, s)
         else (True, d, string_tag, s))
      else
        (let str = (tag AND CBS_ASN1_CONSTRUCTED \<noteq> 0 \<and> is_string_type tag);
             out_tag = (if str then tag AND NOT CBS_ASN1_CONSTRUCTED else tag);
             child_string_tag = (if str then out_tag else string_tag)
         in case CBB_add_asn1 al d out_tag s of
              (ok, s) \<Rightarrow> (ok, Suc d, child_string_tag, s)))"

function (domintros) convert_ber_loop ::
    "allocator \<Rightarrow> cbs \<Rightarrow> nat \<Rightarrow> u32 \<Rightarrow> bool \<Rightarrow> nat \<Rightarrow> cbb \<Rightarrow> bool \<times> cbs \<times> cbb" where
  "convert_ber_loop al c d string_tag looking_for_eoc depth s =
     (if CBS_len c = 0 then (\<not> looking_for_eoc, c, s)
      else case CBS_get_any_ber_asn1_element c of
             (None, c') \<Rightarrow> (False, c', s)
           | (Some (contents, tag, header_len), c') \<Rightarrow>
               if is_eoc header_len contents then (looking_for_eoc, c', s)
               else case convert_open al d string_tag tag s of
                      (False, _, _, s) \<Rightarrow> (False, c', s)
                    | (True, d', child_string_tag, s) \<Rightarrow>
                        (case (if is_indefinite header_len contents then
                                 (if depth + 1 > kMaxDepth then (False, c', s)
                                  else convert_ber_loop al c' d' child_string_tag True (depth + 1) s)
                               else (case CBS_skip header_len contents of
                                      (None, _) \<Rightarrow> (False, c', s)
                                    | (Some _, inner) \<Rightarrow>
                                        if tag AND CBS_ASN1_CONSTRUCTED \<noteq> 0 then
                                          (if depth + 1 > kMaxDepth then (False, c', s)
                                           else (case convert_ber_loop al inner d' child_string_tag False (depth + 1) s of
                                                  (ok, _, s) \<Rightarrow> (ok, c', s)))
                                        else (case CBB_add_bytes al d' inner s of (ok, s) \<Rightarrow> (ok, c', s)))) of
                           (False, c', s) \<Rightarrow> (False, c', s)
                         | (True, c', s) \<Rightarrow>
                             (case CBB_flush al d s of
                                (False, s) \<Rightarrow> (False, c', s)
                              | (True, s) \<Rightarrow> convert_ber_loop al c' d string_tag looking_for_eoc depth s)))"
  by pat_completeness auto

text \<open>What is left of the input never grows.\<close>

lemma element_rest_le: "snd (CBS_get_any_ber_asn1_element c) = r \<Longrightarrow> length r \<le> length c"
  using element_failure_keeps [of True c] element_decreases(1) [of True c]
  by (cases "cbs_get_any_asn1_element True c"; cases "fst (cbs_get_any_asn1_element True c)")
    (auto simp: CBS_get_any_ber_asn1_element_def)


text \<open>One round behind an opened element: the result of the body, given the recursive calls.\<close>

definition convert_body ::
    "allocator \<Rightarrow> (cbs \<Rightarrow> bool \<Rightarrow> bool \<times> cbs \<times> cbb) \<Rightarrow> cbs \<Rightarrow> u32 \<Rightarrow> nat \<Rightarrow> cbs \<Rightarrow> nat \<Rightarrow> nat \<Rightarrow> cbb
       \<Rightarrow> bool \<times> cbs \<times> cbb" where
  "convert_body al rec contents tag header_len c' d' depth s =
     (if is_indefinite header_len contents then
        (if depth + 1 > kMaxDepth then (False, c', s) else rec c' True)
      else (case CBS_skip header_len contents of
              (None, _) \<Rightarrow> (False, c', s)
            | (Some _, inner) \<Rightarrow>
                if tag AND CBS_ASN1_CONSTRUCTED \<noteq> 0 then
                  (if depth + 1 > kMaxDepth then (False, c', s)
                   else (case rec inner False of (ok, _, s) \<Rightarrow> (ok, c', s)))
                else (case CBB_add_bytes al d' inner s of (ok, s) \<Rightarrow> (ok, c', s))))"

lemma convert_rest_le:
  "convert_ber_loop_dom (al, c, d, st, e, depth, s) \<Longrightarrow>
     length (fst (snd (convert_ber_loop al c d st e depth s))) \<le> length c"
proof (induction al c d st e depth s rule: convert_ber_loop.pinduct)
  case (1 al c d st e depth s)
  note psimps = convert_ber_loop.psimps [OF 1(1)]
  show ?case
  proof (cases "CBS_len c = 0")
    case True
    then show ?thesis by (simp add: psimps)
  next
    case ne: False
    obtain el r where el: "CBS_get_any_ber_asn1_element c = (el, r)" by fastforce
    have r: "length r \<le> length c" using element_rest_le [of c r] el by simp
    show ?thesis
    proof (cases el)
      case None
      with ne el r show ?thesis by (simp add: psimps)
    next
      case (Some x)
      obtain out t hl where x: "x = (out, t, hl)" by (cases x)
      note e = el [unfolded Some x]
      obtain o1 d1 st1 s1 where co: "convert_open al d st t s = (o1, d1, st1, s1)"
        by (cases "convert_open al d st t s")
      show ?thesis
      proof (cases "is_eoc hl out \<or> \<not> o1")
        case True
        with ne e co r show ?thesis by (auto simp: psimps)
      next
        case False
        then have ok: "\<not> is_eoc hl out" and co: "convert_open al d st t s = (True, d1, st1, s1)"
          using co by simp_all
        let ?body = "convert_body al (\<lambda>c e. convert_ber_loop al c d1 st1 e (depth + 1) s1) out t hl r d1 depth s1"
        obtain ok2 c2 s2 where b: "?body = (ok2, c2, s2)" by (cases ?body)
        have "length c2 \<le> length r"
          using b 1(2) [OF ne e [symmetric] refl refl refl ok co [symmetric] refl refl refl]
          by (auto simp: convert_body_def not_less split: if_splits prod.splits option.splits)
        with r have c2: "length c2 \<le> length c" by simp
        show ?thesis
        proof (cases ok2)
          case False
          with c2 show ?thesis
            using ne e ok co b [unfolded convert_body_def] by (simp add: psimps)
        next
          case True
          then have b': "?body = (True, c2, s2)" using b by simp
          obtain ok3 s3 where f: "CBB_flush al d s2 = (ok3, s3)" by fastforce
          have "ok3 \<Longrightarrow> length (fst (snd (convert_ber_loop al c2 d st e depth s3))) \<le> length c2"
            using 1(4) [OF ne e [symmetric] refl refl refl ok co [symmetric] refl refl refl
                b' [unfolded convert_body_def, symmetric] refl refl] f by simp
          with c2 show ?thesis
            using ne e ok co b [unfolded convert_body_def] f True by (cases ok3) (simp_all add: psimps)
        qed
      qed
    qed
  qed
qed

lemma skip_inner: "(Some u, inner) = CBS_skip n out \<Longrightarrow> inner = drop n out"
  by (auto simp: CBS_skip_def cbs_get_def rbind_def split: if_splits)

termination convert_ber_loop
proof (relation "measure (\<lambda>(al, c, d, st, e, depth, s). length c)", goal_cases)
  case 1
  show ?case by simp
next
  case 2
  then show ?case by (auto dest: ber_element_progress)
next
  case 3
  then show ?case by (auto dest!: ber_element_progress skip_inner)
next
  case (4 al c d st e depth s x r x2 out ya t hl xc yaa d1 yab st1 s1 xf yad c2 s2 xh s3)
  have "length r < length c" using 4 by (auto dest: ber_element_progress)
  moreover have "length c2 \<le> length r"
  proof (cases "is_indefinite hl out")
    case True
    with 4 have rec: "convert_ber_loop al r d1 st1 True (depth + 1) s1 = (True, c2, s2)"
      and dom: "convert_ber_loop_dom (al, r, d1, st1, True, depth + 1, s1)"
      by (auto split: if_splits)
    from convert_rest_le [OF dom] show ?thesis by (simp add: rec [simplified])
  next
    case False
    with 4 show ?thesis by (auto split: if_splits prod.splits option.splits)
  qed
  ultimately show ?case by simp
qed

lemma convert_ber_loop_eq:
  "convert_ber_loop al c d string_tag e depth s =
     (if c = [] then (\<not> e, c, s)
      else case CBS_get_any_ber_asn1_element c of
             (None, c') \<Rightarrow> (False, c', s)
           | (Some (contents, tag, header_len), c') \<Rightarrow>
               if is_eoc header_len contents then (e, c', s)
               else case convert_open al d string_tag tag s of
                      (False, _, _, s) \<Rightarrow> (False, c', s)
                    | (True, d', st', s) \<Rightarrow>
                        (case convert_body al (\<lambda>c e. convert_ber_loop al c d' st' e (depth + 1) s)
                                contents tag header_len c' d' depth s of
                           (False, c', s) \<Rightarrow> (False, c', s)
                         | (True, c', s) \<Rightarrow>
                             (case CBB_flush al d s of
                                (False, s) \<Rightarrow> (False, c', s)
                              | (True, s) \<Rightarrow> convert_ber_loop al c' d string_tag e depth s)))"
  by (subst convert_ber_loop.simps) (simp only: convert_body_def CBS_len_def length_0_conv)

declare convert_ber_loop.simps [simp del]

definition cbs_convert_ber ::
    "allocator \<Rightarrow> cbs \<Rightarrow> nat \<Rightarrow> u32 \<Rightarrow> bool \<Rightarrow> nat \<Rightarrow> cbb \<Rightarrow> bool \<times> cbs \<times> cbb" where
  "cbs_convert_ber al c d string_tag looking_for_eoc depth s =
     (if depth > kMaxDepth then (False, c, s)
      else convert_ber_loop al c d string_tag looking_for_eoc depth s)"

text \<open>
  The results also say whether \<open>out\<close> lies in storage of its own (\<open>*out_storage\<close> is not null).
\<close>

definition CBS_asn1_ber_to_der :: "allocator \<Rightarrow> (cbs \<times> bool) reader" where
  "CBS_asn1_ber_to_der al c =
     (case cbs_find_ber c 0 of
        None \<Rightarrow> (None, c)
      | Some False \<Rightarrow>
          (case CBS_get_any_asn1_element c of
             (None, c') \<Rightarrow> (None, c')
           | (Some (out, _, _), c') \<Rightarrow> (Some (out, False), c'))
      | Some True \<Rightarrow>
          (case CBB_init al (CBS_len c) of
             (False, _) \<Rightarrow> (None, c)
           | (True, s) \<Rightarrow>
               (case cbs_convert_ber al c 0 0 False 0 s of
                  (False, c', _) \<Rightarrow> (None, c')
                | (True, c', s) \<Rightarrow>
                    (case CBB_finish al 0 True s of
                       (None, _) \<Rightarrow> (None, c')
                     | (Some out, _) \<Rightarrow> (Some (out, True), c')))))"

lemma get_asn1_shorter: "CBS_get_asn1 t c = (Some b, r) \<Longrightarrow> length r < length c"
  using der_header_len_ge [of t b] by (auto simp: asn1_codec.dec_iff length_der_tlv)

function implicit_chunks :: "allocator \<Rightarrow> cbs \<Rightarrow> u32 \<Rightarrow> cbb \<Rightarrow> bool \<times> cbb" where
  "implicit_chunks al child inner_tag s =
     (if \<not> CBS_len child > 0 then (True, s)
      else case CBS_get_asn1 inner_tag child of
             (None, _) \<Rightarrow> (False, s)
           | (Some chunk, child') \<Rightarrow>
               (case CBB_add_bytes al 0 chunk s of
                  (False, s) \<Rightarrow> (False, s)
                | (True, s) \<Rightarrow> implicit_chunks al child' inner_tag s))"
  by pat_completeness auto
termination
  by (relation "measure (\<lambda>(al, c, t, s). length c)")
    (auto dest: get_asn1_shorter [OF sym])

declare implicit_chunks.simps [simp del]

definition CBS_get_asn1_implicit_string :: "allocator \<Rightarrow> u32 \<Rightarrow> u32 \<Rightarrow> (cbs \<times> bool) reader" where
  "CBS_get_asn1_implicit_string al outer_tag inner_tag c =
     (if CBS_peek_asn1_tag c outer_tag
      then (case CBS_get_asn1 outer_tag c of
              (None, c') \<Rightarrow> (None, c') | (Some out, c') \<Rightarrow> (Some (out, False), c'))
      else
        (case CBB_init al (CBS_len c) of
           (False, _) \<Rightarrow> (None, c)
         | (True, s) \<Rightarrow>
             (case CBS_get_asn1 (outer_tag OR CBS_ASN1_CONSTRUCTED) c of
                (None, c') \<Rightarrow> (None, c')
              | (Some child, c') \<Rightarrow>
                  (case implicit_chunks al child inner_tag s of
                     (False, _) \<Rightarrow> (None, c')
                   | (True, s) \<Rightarrow>
                       (case CBB_finish al 0 True s of
                          (None, _) \<Rightarrow> (None, c')
                        | (Some out, _) \<Rightarrow> (Some (out, True), c'))))))"


section \<open>The specification\<close>

definition constructed :: "u32 \<Rightarrow> bool" where
  "constructed t \<longleftrightarrow> t AND CBS_ASN1_CONSTRUCTED \<noteq> 0"

definition string_constructed :: "u32 \<Rightarrow> bool" where
  "string_constructed t \<longleftrightarrow> constructed t \<and> is_string_type t"

definition out_tag :: "u32 \<Rightarrow> u32" where
  "out_tag t = (if string_constructed t then prim_tag t else t)"

definition child_string :: "u32 \<Rightarrow> u32" where
  "child_string t = (if string_constructed t then prim_tag t else 0)"

text \<open>
  \<open>ber_out st e c w r\<close>: reading \<open>c\<close>, up to an end-of-contents marker if \<open>e\<close> and to the end
  otherwise, stands for the DER bytes \<open>w\<close> and leaves \<open>r\<close>. Inside a constructed string of tag \<open>st\<close>
  only the contents of the fragments count; \<open>st = 0\<close> is the outside.
\<close>

inductive ber_out :: "u32 \<Rightarrow> bool \<Rightarrow> cbs \<Rightarrow> bytes \<Rightarrow> cbs \<Rightarrow> bool" where
  all_read: "ber_out st False [] [] []"
| eoc: "ber_out st True (0 # 0 # r) [] r"
| fragment: "\<lbrakk>st \<noteq> 0; prim_tag t = st; \<not> constructed t; der_tlv t body \<noteq> [0, 0]; length body < 2 ^ 32;
    ber_out st e r w r'\<rbrakk> \<Longrightarrow> ber_out st e (der_tlv t body @ r) (body @ w) r'"
| fragments: "\<lbrakk>st \<noteq> 0; prim_tag t = st; constructed t; length body < 2 ^ 32; ber_out st False body v [];
    ber_out st e r w r'\<rbrakk> \<Longrightarrow> ber_out st e (der_tlv t body @ r) (v @ w) r'"
| fragments_indefinite: "\<lbrakk>st \<noteq> 0; prim_tag t = st; constructed t; ber_out st True c v r;
    ber_out st e r w r'\<rbrakk> \<Longrightarrow> ber_out st e (der_tag t @ 0x80 # c) (v @ w) r'"
| primitive: "\<lbrakk>\<not> constructed t; der_tlv t body \<noteq> [0, 0]; length body \<le> 0xfffffffe; ber_out 0 e r w r'\<rbrakk>
    \<Longrightarrow> ber_out 0 e (der_tlv t body @ r) (der_tlv t body @ w) r'"
| struct: "\<lbrakk>constructed t; length body < 2 ^ 32; ber_out (child_string t) False body v [];
    length v \<le> 0xfffffffe; ber_out 0 e r w r'\<rbrakk>
    \<Longrightarrow> ber_out 0 e (der_tlv t body @ r) (der_tlv (out_tag t) v @ w) r'"
| struct_indefinite: "\<lbrakk>constructed t; ber_out (child_string t) True c v r;
    length v \<le> 0xfffffffe; ber_out 0 e r w r'\<rbrakk>
    \<Longrightarrow> ber_out 0 e (der_tag t @ 0x80 # c) (der_tlv (out_tag t) v @ w) r'"

lemma ber_out_all: "ber_out st e c w r \<Longrightarrow> \<not> e \<Longrightarrow> r = []"
  by (induction rule: ber_out.induct) auto

section \<open>The conversion writes what the specification says\<close>

lemma der_element_shape:
  assumes "der_element c out t hl r"
  shows "\<not> is_indefinite hl out"
    and "\<exists>body. length body < 2 ^ 32 \<and> out = der_tlv t body \<and> drop hl out = body \<and> c = der_tlv t body @ r
      \<and> hl \<le> length out"
proof -
  from assms obtain body where b: "length body < 2 ^ 32" "out = der_tlv t body"
    "hl = der_header_len t body" "c = out @ r" by (auto simp: der_element_def)
  show "\<not> is_indefinite hl out"
  proof
    assume i: "is_indefinite hl out"
    then have "body = []" using b by (simp add: is_indefinite_def CBS_len_def length_der_tlv)
    with i b show False by (simp add: is_indefinite_def der_tlv_def der_header_len_def der_length_def nth_append)
  qed
  show "\<exists>body. length body < 2 ^ 32 \<and> out = der_tlv t body \<and> drop hl out = body \<and> c = der_tlv t body @ r
      \<and> hl \<le> length out"
    using b by (auto simp: length_der_tlv)
qed

lemma indefinite_element_shape:
  assumes "indefinite_element c out t hl r"
  shows "is_indefinite hl out" and "c = der_tag t @ 0x80 # r" and "constructed t" and "\<not> is_eoc hl out"
proof -
  show "is_indefinite hl out" "c = der_tag t @ 0x80 # r" "constructed t"
    using assms by (simp_all add: indefinite_element_def is_indefinite_def CBS_len_def constructed_def nth_append)
  have "last out = 0x80" using assms by (simp add: indefinite_element_def)
  moreover have "last out = 0" if "is_eoc hl out"
  proof -
    have "out = [0, 0]" using that take_all [of out 2] by (simp add: is_eoc_def CBS_len_def)
    then show ?thesis by simp
  qed
  ultimately show "\<not> is_eoc hl out" by auto
qed

lemma eoc_shape:
  assumes "CBS_get_any_ber_asn1_element c = (Some (out, t, hl), r)"
  shows "is_eoc hl out \<longleftrightarrow> out = [0, 0]" and "is_eoc hl out \<Longrightarrow> c = 0 # 0 # r"
proof -
  note sh = element_decreases [OF assms [unfolded CBS_get_any_ber_asn1_element_def]]
  show eq: "is_eoc hl out \<longleftrightarrow> out = [0, 0]"
    using sh(2,3) by (auto simp: is_eoc_def CBS_len_def length_Suc_conv numeral_2_eq_2)
  show "is_eoc hl out \<Longrightarrow> c = 0 # 0 # r" using sh(1) eq by simp
qed

lemma string_tag_nonzero: "string_constructed t \<Longrightarrow> prim_tag t \<noteq> 0"
  by (auto simp: string_constructed_def is_string_type_def prim_tag_def CBS_ASN1_BITSTRING_def
      CBS_ASN1_OCTETSTRING_def)


lemma open_sound:
  assumes "convert_open al d st t s = (True, d1, st1, s1)" and "repr s fs" and "length fs = Suc d"
  shows "st \<noteq> 0 \<and> prim_tag t = st \<and> d1 = d \<and> st1 = st \<and> s1 = s \<or>
    st = 0 \<and> d1 = Suc d \<and> st1 = child_string t \<and>
      repr s1 (extend_last (der_tag (out_tag t)) fs @ [(Asn1, [])])"
proof (cases "st = 0")
  case False
  with assms(1) show ?thesis by (auto simp: convert_open_def prim_tag_def split: if_splits)
next
  case True
  have o: "CBB_add_asn1 al d (out_tag t) s = (True, s1)" and "d1 = Suc d" "st1 = child_string t"
    using assms(1) True
    by (auto simp: convert_open_def out_tag_def child_string_def string_constructed_def constructed_def
        prim_tag_def Let_def split: prod.splits if_splits)
  moreover have "open_asn1 d (out_tag t) fs = Some (extend_last (der_tag (out_tag t)) fs @ [(Asn1, [])])"
  proof -
    have ne: "fs \<noteq> []" using assms(3) by auto
    have "length (extend_last (der_tag (out_tag t)) fs) = Suc d" using assms(3) frames_extend(4) [OF ne] by simp
    then show ?thesis
      by (simp add: open_asn1_def append_at_def open_at_def close_at_closed assms(3))
  qed
  ultimately show ?thesis using asn1_writer.sound [OF assms(2) o] True by auto
qed

text \<open>What a round has read, \<open>v\<close> being the contents it wrote.\<close>

definition round_shape :: "u32 \<Rightarrow> cbs \<Rightarrow> u32 \<Rightarrow> bytes \<Rightarrow> cbs \<Rightarrow> bool" where
  "round_shape st1 c t v c2 \<longleftrightarrow>
     (\<exists>body. c = der_tlv t body @ c2 \<and> length body < 2 ^ 32 \<and> der_tlv t body \<noteq> [0, 0]
        \<and> (if constructed t then ber_out st1 False body v [] else v = body))
     \<or> (constructed t \<and> (\<exists>c0. c = der_tag t @ 0x80 # c0 \<and> ber_out st1 True c0 v c2))"

lemma body_sound:
  assumes el: "CBS_get_any_ber_asn1_element c = (Some (out, t, hl), c')" and eoc: "\<not> is_eoc hl out"
    and s: "repr s1 fs1" "length fs1 = Suc d1"
    and rec1: "\<And>r s'. is_indefinite hl out \<Longrightarrow> rec c' True = (True, r, s') \<Longrightarrow>
      depth + 1 \<le> kMaxDepth \<Longrightarrow> \<exists>w. ber_out st1 True c' w r \<and> repr s' (extend_last w fs1)"
    and rec2: "\<And>r s'. rec (drop hl out) False = (True, r, s') \<Longrightarrow> \<not> is_indefinite hl out \<Longrightarrow>
      constructed t \<Longrightarrow> hl \<le> length out \<Longrightarrow>
      depth + 1 \<le> kMaxDepth \<Longrightarrow> \<exists>w. ber_out st1 False (drop hl out) w r \<and> repr s' (extend_last w fs1)"
    and b: "convert_body al rec out t hl c' d1 depth s1 = (True, c2, s2)"
  shows "\<exists>v. round_shape st1 c t v c2 \<and> repr s2 (extend_last v fs1)"
proof -
  from el have "der_element c out t hl c' \<or> indefinite_element c out t hl c'"
    by (simp add: CBS_get_any_ber_asn1_element_def element_iff)
  then show ?thesis
  proof
    assume i: "indefinite_element c out t hl c'"
    note sh = indefinite_element_shape [OF i]
    have "rec c' True = (True, c2, s2)" "depth + 1 \<le> kMaxDepth"
      using b sh(1) by (auto simp: convert_body_def split: if_splits)
    from rec1 [OF sh(1) this] sh show ?thesis by (auto simp: round_shape_def)
  next
    assume e: "der_element c out t hl c'"
    from der_element_shape(2) [OF e] obtain body where body: "length body < 2 ^ 32" "out = der_tlv t body"
      "drop hl out = body" "c = der_tlv t body @ c'" "hl \<le> length out" by blast
    have ne: "der_tlv t body \<noteq> [0, 0]" using eoc_shape(1) [OF el] eoc body(2) by simp
    have skip: "CBS_skip hl out = (Some (), body)"
      using body(3,5) by (simp add: CBS_skip_def cbs_get_def rbind_def)
    note ni = der_element_shape(1) [OF e]
    show ?thesis
    proof (cases "constructed t")
      case True
      with b skip ni obtain r where r: "rec body False = (True, r, s2)" "c2 = c'" "depth + 1 \<le> kMaxDepth"
        by (auto simp: convert_body_def constructed_def split: if_splits prod.splits)
      from rec2 [unfolded body(3), OF r(1) ni True body(5) r(3)] obtain w
        where w: "ber_out st1 False body w r" "repr s2 (extend_last w fs1)" by blast
      with ber_out_all [OF w(1)] body ne True r(2) show ?thesis by (auto simp: round_shape_def)
    next
      case False
      with b skip ni have a: "CBB_add_bytes al d1 body s1 = (True, s2)" "c2 = c'"
        by (auto simp: convert_body_def constructed_def split: if_splits prod.splits)
      have "length body < size_max" using body(1) by (simp add: size_max_def)
      from writer.sound [OF strict_writer.axioms(1) [OF CBB_add_bytes_writer(1) [OF this]] s(1) a(1)]
      have "repr s2 (extend_last body fs1)" by (auto simp: append_at_def close_at_closed [OF s(2)])
      with body ne False a(2) show ?thesis by (auto simp: round_shape_def)
    qed
  qed
qed

text \<open>Closing the round and going on.\<close>

lemma round_fragment:
  assumes "st \<noteq> 0" and "prim_tag t = st" and "round_shape st c t v c2" and "ber_out st e c2 w r"
  shows "ber_out st e c (v @ w) r"
  using assms by (cases "constructed t") (auto simp: round_shape_def intro: ber_out.intros)

lemma round_element:
  assumes "round_shape (child_string t) c t v c2" and "length v \<le> 0xfffffffe" and "ber_out 0 e c2 w r"
  shows "ber_out 0 e c (der_tlv (out_tag t) v @ w) r"
proof -
  have "\<not> constructed t \<Longrightarrow> out_tag t = t" by (simp add: out_tag_def string_constructed_def)
  with assms show ?thesis
    by (cases "constructed t") (auto simp: round_shape_def intro: ber_out.intros)
qed

lemma flush_element:
  assumes "repr s2 (extend_last v (extend_last (der_tag ot) fs @ [(Asn1, [])]))" and "length fs = Suc d"
    and "CBB_flush al d s2 = (True, s3)"
  shows "length v \<le> 0xfffffffe" and "repr s3 (extend_last (der_tlv ot v) fs)"
proof -
  have ne: "fs \<noteq> []" using assms(2) by auto
  let ?fs1 = "extend_last (der_tag ot) fs"
  have "length ?fs1 = Suc d" using assms(2) frames_extend(4) [OF ne] by simp
  then have "close_at d (?fs1 @ [(Asn1, v)]) =
    (if length v \<le> 0xfffffffe then append_at d (der_length (length v) @ v) ?fs1 else None)"
    using close_child [of d ?fs1 ?fs1 Asn1 v] by (simp add: close_at_closed)
  also have "append_at d (der_length (length v) @ v) ?fs1 = Some (extend_last (der_tlv ot v) fs)"
    using \<open>length ?fs1 = Suc d\<close> by (simp add: append_at_def close_at_closed extend_extend [OF ne] der_tlv_def)
  finally show "length v \<le> 0xfffffffe" "repr s3 (extend_last (der_tlv ot v) fs)"
    using flush_writer.sound [OF assms(1,3)] by (auto split: if_splits)
qed


lemma convert_sound:
  "convert_ber_loop al c d st e depth s = (True, r, s') \<Longrightarrow> repr s fs \<Longrightarrow> length fs = Suc d \<Longrightarrow>
     \<exists>w. ber_out st e c w r \<and> repr s' (extend_last w fs)"
proof (induction al c d st e depth s arbitrary: r s' fs rule: convert_ber_loop.induct)
  case (1 al c d st e depth s)
  note eq = 1(4) [unfolded convert_ber_loop_eq [of al c]]
  have nil: "extend_last [] fs = fs"
    using 1(6) by (cases fs rule: rev_cases) (auto simp: extend_last_def)
  show ?case
  proof (cases "c = []")
    case True
    with eq 1(5) show ?thesis by (intro exI [of _ "[]"]) (auto simp: nil intro: ber_out.intros)
  next
    case False
    then have ne: "CBS_len c \<noteq> 0" by (simp add: CBS_len_def)
    from eq False obtain out t hl c' where el: "CBS_get_any_ber_asn1_element c = (Some (out, t, hl), c')"
      by (auto split: prod.splits option.splits)
    note eq1 = eq [unfolded el, simplified False if_False prod.case option.case]
    show ?thesis
    proof (cases "is_eoc hl out")
      case True
      with eq1 have e "r = c'" "s' = s" by auto
      with eoc_shape(2) [OF el True] 1(5) show ?thesis
        by (intro exI [of _ "[]"]) (auto simp: nil intro: ber_out.intros)
    next
      case neoc: False
      obtain o1 d1 st1 s1 where co0: "convert_open al d st t s = (o1, d1, st1, s1)"
        by (cases "convert_open al d st t s")
      have o1 using eq1 neoc co0 by (cases o1) simp_all
      with co0 have co: "convert_open al d st t s = (True, d1, st1, s1)" by simp
      let ?rec = "\<lambda>c e. convert_ber_loop al c d1 st1 e (depth + 1) s1"
      obtain o2 c2 s2 where b0: "convert_body al ?rec out t hl c' d1 depth s1 = (o2, c2, s2)"
        by (cases "convert_body al ?rec out t hl c' d1 depth s1")
      have o2 using eq1 neoc co b0 by (cases o2) simp_all
      with b0 have b: "convert_body al ?rec out t hl c' d1 depth s1 = (True, c2, s2)" by simp
      obtain o3 s3 where f0: "CBB_flush al d s2 = (o3, s3)" by fastforce
      have o3 using eq1 neoc co b f0 by (cases o3) simp_all
      with f0 have f: "CBB_flush al d s2 = (True, s3)" by simp
      have rest: "convert_ber_loop al c2 d st e depth s3 = (True, r, s')"
        using eq1 neoc co b f by simp
      note IH1 = 1(1) [OF ne el [symmetric] refl refl refl neoc co [symmetric] refl refl refl]
      note IH2 = 1(2) [OF ne el [symmetric] refl refl refl neoc co [symmetric] refl refl refl]
      note IH3 = 1(3) [OF ne el [symmetric] refl refl refl neoc co [symmetric] refl refl refl
          b [unfolded convert_body_def, symmetric] refl refl f [symmetric] refl rest]
      have body: "\<exists>v. round_shape st1 c t v c2 \<and> repr s2 (extend_last v fs1)"
        if "repr s1 fs1" "length fs1 = Suc d1" for fs1
      proof (rule body_sound [OF el neoc that _ _ b])
        show "\<exists>w. ber_out st1 True c' w r \<and> repr s' (extend_last w fs1)"
          if "is_indefinite hl out" "?rec c' True = (True, r, s')" "depth + 1 \<le> kMaxDepth" for r s'
          using IH1 [OF that(1) _ that(2)] that(3) \<open>repr s1 fs1\<close> \<open>length fs1 = Suc d1\<close> by simp
        show "\<exists>w. ber_out st1 False (drop hl out) w r \<and> repr s' (extend_last w fs1)"
          if "?rec (drop hl out) False = (True, r, s')" "\<not> is_indefinite hl out" "constructed t"
            "hl \<le> length out" "depth + 1 \<le> kMaxDepth" for r s'
        proof -
          have "(Some (), drop hl out) = CBS_skip hl out"
            using that(4) by (simp add: CBS_skip_def cbs_get_def rbind_def)
          from IH2 [OF that(2) this refl _ _ that(1)] that(3,5) \<open>repr s1 fs1\<close> \<open>length fs1 = Suc d1\<close>
          show ?thesis by (simp add: constructed_def)
        qed
      qed
      have ne_fs: "fs \<noteq> []" using 1(6) by auto
      from open_sound [OF co 1(5,6)] show ?thesis
      proof
        assume o: "st \<noteq> 0 \<and> prim_tag t = st \<and> d1 = d \<and> st1 = st \<and> s1 = s"
        with body [of fs] 1(5,6) obtain v where v: "round_shape st c t v c2" "repr s2 (extend_last v fs)" by auto
        have l: "length (extend_last v fs) = Suc d" using 1(6) frames_extend(4) [OF ne_fs] by simp
        from flush_writer.sound [OF v(2) f] have "repr s3 (extend_last v fs)"
          by (auto simp: close_at_closed [OF l])
        from IH3 [OF this l] obtain w where "ber_out st e c2 w r" "repr s' (extend_last w (extend_last v fs))"
          by blast
        with round_fragment [OF _ _ v(1)] o show ?thesis by (auto simp: extend_extend [OF ne_fs])
      next
        assume o: "st = 0 \<and> d1 = Suc d \<and> st1 = child_string t \<and>
          repr s1 (extend_last (der_tag (out_tag t)) fs @ [(Asn1, [])])"
        have "length (extend_last (der_tag (out_tag t)) fs @ [(Asn1, [])]) = Suc d1"
          using o 1(6) frames_extend(4) [OF ne_fs] by simp
        then have "\<exists>v. round_shape st1 c t v c2 \<and>
            repr s2 (extend_last v (extend_last (der_tag (out_tag t)) fs @ [(Asn1, [])]))"
          using o by (intro body) blast+
        with o obtain v where v: "round_shape (child_string t) c t v c2"
          "repr s2 (extend_last v (extend_last (der_tag (out_tag t)) fs @ [(Asn1, [])]))" by blast
        note fl = flush_element [OF v(2) 1(6) f]
        have l: "length (extend_last (der_tlv (out_tag t) v) fs) = Suc d"
          using 1(6) frames_extend(4) [OF ne_fs] by simp
        from IH3 [OF fl(2) l] obtain w where "ber_out st e c2 w r"
          "repr s' (extend_last w (extend_last (der_tlv (out_tag t) v) fs))" by blast
        with round_element [OF v(1) fl(1)] o show ?thesis by (auto simp: extend_extend [OF ne_fs])
      qed
    qed
  qed
qed


section \<open>The output is DER\<close>

datatype der = Prim u32 bytes | Struct u32 "der list"

fun der_encode :: "der \<Rightarrow> bytes" and der_encodes :: "der list \<Rightarrow> bytes" where
  "der_encode (Prim t b) = der_tlv t b"
| "der_encode (Struct t ds) = der_tlv t (der_encodes ds)"
| "der_encodes [] = []"
| "der_encodes (d # ds) = der_encode d @ der_encodes ds"

text \<open>Constructed means structured: strings are primitive.\<close>

fun der_ok :: "der \<Rightarrow> bool" and ders_ok :: "der list \<Rightarrow> bool" where
  "der_ok (Prim t b) \<longleftrightarrow> \<not> constructed t \<and> length b \<le> 0xfffffffe"
| "der_ok (Struct t ds) \<longleftrightarrow>
     constructed t \<and> \<not> is_string_type t \<and> length (der_encodes ds) \<le> 0xfffffffe \<and> ders_ok ds"
| "ders_ok [] \<longleftrightarrow> True"
| "ders_ok (d # ds) \<longleftrightarrow> der_ok d \<and> ders_ok ds"

lemma prim_tag_not_constructed: "\<not> constructed (prim_tag t)"
  by (auto simp: constructed_def prim_tag_def bit_eq_iff bit_simps)

lemma ber_out_der: "ber_out st e c w r \<Longrightarrow> st = 0 \<Longrightarrow> \<exists>ds. ders_ok ds \<and> w = der_encodes ds"
proof (induction rule: ber_out.induct)
  case (primitive t body e r w r')
  then obtain ds where "ders_ok ds" "w = der_encodes ds" by auto
  with primitive show ?case by (intro exI [of _ "Prim t body # ds"]) simp
next
  case (struct t body v e r w r')
  then obtain ds where ds: "ders_ok ds" "w = der_encodes ds" by auto
  show ?case
  proof (cases "string_constructed t")
    case True
    with ds struct show ?thesis
      by (intro exI [of _ "Prim (out_tag t) v # ds"]) (simp add: out_tag_def prim_tag_not_constructed)
  next
    case False
    with struct obtain ds1 where "ders_ok ds1" "v = der_encodes ds1" by (auto simp: child_string_def)
    with False ds struct show ?thesis
      by (intro exI [of _ "Struct t ds1 # ds"]) (simp add: out_tag_def string_constructed_def)
  qed
next
  case (struct_indefinite t c v r e w r')
  then obtain ds where ds: "ders_ok ds" "w = der_encodes ds" by auto
  show ?case
  proof (cases "string_constructed t")
    case True
    with ds struct_indefinite show ?thesis
      by (intro exI [of _ "Prim (out_tag t) v # ds"]) (simp add: out_tag_def prim_tag_not_constructed)
  next
    case False
    with struct_indefinite obtain ds1 where "ders_ok ds1" "v = der_encodes ds1" by (auto simp: child_string_def)
    with False ds struct_indefinite show ?thesis
      by (intro exI [of _ "Struct t ds1 # ds"]) (simp add: out_tag_def string_constructed_def)
  qed
qed (auto intro: exI [of _ "[]"])

lemma ber_element_der:
  assumes "length body \<le> 0xfffffffe"
  shows "CBS_get_any_ber_asn1_element (der_tlv t body @ r) = (Some (der_tlv t body, t, der_header_len t body), r)"
  unfolding CBS_get_any_ber_asn1_element_def
  by (rule element_complete, unfold der_element_def, rule exI [of _ body]) (use assms in simp)

lemma not_indefinite_der: "length body \<le> 0xfffffffe \<Longrightarrow> \<not> is_indefinite (der_header_len t body) (der_tlv t body)"
  by (rule der_element_shape(1) [where c = "der_tlv t body" and r = "[]" and t = t],
      unfold der_element_def, rule exI [of _ body]) simp

lemma skip_header: "CBS_skip (der_header_len t body) (der_tlv t body) = (Some (), body)"
  by (simp add: CBS_skip_def cbs_get_def rbind_def)

lemma find_ber_der:
  "ders_ok ds \<Longrightarrow> c = der_encodes ds \<Longrightarrow> \<not> found \<Longrightarrow> find_ber_loop c found depth \<noteq> Some True"
proof (induction c found depth arbitrary: ds rule: find_ber_loop.induct)
  case (1 c found depth)
  show ?case
  proof (cases ds)
    case Nil
    with 1 show ?thesis by (simp add: find_ber_loop.simps CBS_len_def)
  next
    case (Cons d ds')
    define t body where tb: "t = (case d of Prim t b \<Rightarrow> t | Struct t ds \<Rightarrow> t)"
      "body = (case d of Prim t b \<Rightarrow> b | Struct t ds \<Rightarrow> der_encodes ds)"
    have c: "c = der_tlv t body @ der_encodes ds'" using 1(5) Cons tb by (cases d) simp_all
    have body: "length body \<le> 0xfffffffe" using 1(4) Cons tb by (cases d) simp_all
    have ne: "CBS_len c \<noteq> 0" by (simp add: c CBS_len_def der_tlv_def length_der_tag(2))
    note el = ber_element_der [OF body, of t "der_encodes ds'", folded c]
    note ni = not_indefinite_der [OF body, of t]
    note eq = find_ber_loop.simps [of c found depth]
    show ?thesis
    proof (cases d)
      case (Prim t0 b0)
      then have nc: "t AND CBS_ASN1_CONSTRUCTED = 0" using 1(4) Cons tb by (simp add: constructed_def)
      have "find_ber_loop (der_encodes ds') found depth \<noteq> Some True"
        using 1(3) [OF ne el [symmetric] refl refl refl ni] nc 1(4,6) Cons by simp
      then show ?thesis using ne el ni nc by (simp add: eq)
    next
      case (Struct t0 ds0)
      then have cons: "t AND CBS_ASN1_CONSTRUCTED \<noteq> 0" and ns: "\<not> is_string_type t"
        and inner: "body = der_encodes ds0" "ders_ok ds0" and rest: "ders_ok ds'"
        using 1(4) Cons tb by (simp_all add: constructed_def)
      let ?r = "if depth + 1 > kMaxDepth then None else find_ber_loop body False (depth + 1)"
      show ?thesis
      proof (cases ?r)
        case None
        then show ?thesis using ne el ni cons ns by (simp add: eq skip_header)
      next
        case (Some f)
        then have lim: "\<not> kMaxDepth < depth + 1" and f: "find_ber_loop body False (depth + 1) = Some f"
          by (auto split: if_splits)
        have "find_ber_loop body False (depth + 1) \<noteq> Some True"
          using 1(1) [OF ne el [symmetric] refl refl refl ni cons ns skip_header [symmetric] refl lim inner(2,1)]
          by simp
        with f have "\<not> f" by (cases f) simp_all
        moreover have "find_ber_loop (der_encodes ds') f depth \<noteq> Some True"
          using 1(2) [OF ne el [symmetric] refl refl refl ni cons ns skip_header [symmetric] refl _ rest refl]
            Some \<open>\<not> f\<close> by simp
        ultimately show ?thesis using ne el ni cons ns Some by (simp add: eq skip_header)
      qed
    qed
  qed
qed

lemma ber_to_der_sound:
  assumes "CBS_asn1_ber_to_der al c = (Some (out, True), r)" and "length c < size_max"
  shows "ber_out 0 False c out [] \<and> r = []"
proof -
  from assms(1) have needed: "cbs_find_ber c 0 = Some True"
    by (auto simp: CBS_asn1_ber_to_der_def split: option.splits bool.splits prod.splits)
  obtain ok s0 where i: "CBB_init al (CBS_len c) = (ok, s0)" by fastforce
  with assms(1) needed have ok by (cases ok) (simp_all add: CBS_asn1_ber_to_der_def)
  with i init_repr(1) [of al "CBS_len c" s0] assms(2) have s0: "repr s0 [(Root, [])]"
    by (simp add: CBS_len_def)
  from assms(1) needed i \<open>ok\<close> obtain c' s s1 where
    conv: "convert_ber_loop al c 0 0 False 0 s0 = (True, c', s)" and fin: "CBB_finish al 0 True s = (Some out, s1)"
    and r: "r = c'"
    by (auto simp: CBS_asn1_ber_to_der_def cbs_convert_ber_def split: prod.splits bool.splits option.splits)
  from convert_sound [OF conv s0] obtain w where w: "ber_out 0 False c w c'" "repr s [(Root, w)]"
    by (auto simp: extend_last_def)
  from finish_output(1) [OF w(2) fin] have "out = w" by (simp add: close_at_def)
  with w(1) ber_out_all [OF w(1)] r show ?thesis by simp
qed


section \<open>Properties\<close>

text \<open>An example: an OCTET STRING of indefinite length in one fragment.\<close>

definition ber_example :: bytes where
  "ber_example = [0x24, 0x80, 4, 1, 5, 0, 0]"

lemma ber_example_run: "fst (CBS_asn1_ber_to_der (\<lambda>_. True) ber_example) = Some ([4, 1, 5], True)"
  by code_simp



text \<open>
  C23: the output of a conversion is DER all the way down: it is the encoding of a forest of
  primitive and structured elements without constructed strings, and a second walk finds nothing to
  convert in it.
\<close>

theorem ber_to_der_is_der:
  assumes "CBS_asn1_ber_to_der al c = (Some (out, True), r)" and "length c < size_max"
  shows "(\<exists>ds. ders_ok ds \<and> out = der_encodes ds) \<and> cbs_find_ber out 0 \<noteq> Some True"
proof -
  from ber_to_der_sound [OF assms] ber_out_der obtain ds where ds: "ders_ok ds" "out = der_encodes ds" by blast
  with find_ber_der [OF ds, of False 0] show ?thesis by (auto simp: cbs_find_ber_def)
qed

theorem ber_to_der_is_der_witness: "cbs_find_ber [4, 1, 5] 0 \<noteq> Some True"
  using ber_to_der_is_der [OF run_result [OF ber_example_run]] by (simp add: ber_example_def size_max_def)

definition missed_ber :: bytes where
  "missed_ber = [0x30, 8, 0x30, 4, 0x30, 0x80, 0, 0, 0x30, 0]"

text \<open>
  C25: the walk that decides whether to convert forgets what it found. A SEQUENCE whose first member
  holds an element of indefinite length is returned unconverted when a constructed member follows:
  the recursive call for that one clears \<open>*ber_found\<close>. The result is not DER, its innermost element
  is refused by the DER parser.
\<close>

theorem ber_to_der_misses_ber:
  "CBS_asn1_ber_to_der al missed_ber = (Some (missed_ber, False), [])
     \<and> CBS_get_any_asn1 missed_ber = (Some (0x20000010, [0x30, 4, 0x30, 0x80, 0, 0, 0x30, 0]), [])
     \<and> CBS_get_any_asn1 [0x30, 4, 0x30, 0x80, 0, 0, 0x30, 0] = (Some (0x20000010, [0x30, 0x80, 0, 0]), [0x30, 0])
     \<and> fst (CBS_get_any_asn1 [0x30, 0x80, 0, 0]) = None"
proof -
  let ?body = "[0x30, 4, 0x30, 0x80, 0, 0, 0x30, 0] :: bytes"
  have el: "CBS_get_any_ber_asn1_element missed_ber = (Some (missed_ber, 0x20000010, 2), [])"
    "CBS_get_any_ber_asn1_element ?body = (Some ([0x30, 4, 0x30, 0x80, 0, 0], 0x20000010, 2), [0x30, 0])"
    "CBS_get_any_ber_asn1_element [0x30, 0x80, 0, 0] = (Some ([0x30, 0x80], 0x20000010, 2), [0, 0])"
    "CBS_get_any_ber_asn1_element [0x30, 0] = (Some ([0x30, 0], 0x20000010, 2), [])"
    by code_simp+
  have tag: "0x20000010 AND CBS_ASN1_CONSTRUCTED \<noteq> 0" "\<not> is_string_type 0x20000010" by code_simp+
  note walk = CBS_len_def CBS_skip_def cbs_get_def rbind_def is_indefinite_def kMaxDepth_def
  have inner: "find_ber_loop [0x30, 0x80, 0, 0] False d = Some True" for d
    by (simp add: find_ber_loop.simps [of "[0x30, 0x80, 0, 0]"] walk el)
  have empty: "find_ber_loop [] found d = Some found" for found d
    by (simp add: find_ber_loop.simps CBS_len_def)
  have next_one: "find_ber_loop [0x30, 0] True d = (if kMaxDepth < d + 1 then None else Some False)" for d
    using tag by (simp add: find_ber_loop.simps [of "[0x30, 0]"] walk el empty)
  have "find_ber_loop ?body False 1 = Some False"
    using tag by (simp add: find_ber_loop.simps [of ?body] el inner next_one walk)
  moreover have "length missed_ber = 10" "drop 2 missed_ber = ?body" by (simp_all add: missed_ber_def)
  ultimately have "cbs_find_ber missed_ber 0 = Some False"
    using tag by (simp add: cbs_find_ber_def find_ber_loop.simps [of missed_ber] el walk empty)
  moreover have "CBS_get_any_asn1_element missed_ber = (Some (missed_ber, 0x20000010, 2), [])" by code_simp
  moreover have "CBS_get_any_asn1 missed_ber = (Some (0x20000010, ?body), [])" by code_simp
  moreover have "CBS_get_any_asn1 ?body = (Some (0x20000010, [0x30, 0x80, 0, 0]), [0x30, 0])" by code_simp
  moreover have "fst (CBS_get_any_asn1 [0x30, 0x80, 0, 0]) = None" by code_simp
  ultimately show ?thesis by (simp add: CBS_asn1_ber_to_der_def)
qed

end
