(* ===== verification/Unicode.thy ===== *)
theory Unicode
  imports Cbb_Doc
begin

text \<open>
  \<open>crypto/bytestring/unicode.c\<close>: reading and writing code points in UTF-8, Latin-1, UCS-2 and
  UTF-32. Each format is a canonical codec on the code points it can hold, and the writers put out
  exactly what the readers accept.
\<close>

section \<open>The code\<close>

definition is_valid_code_point :: "u32 \<Rightarrow> bool" where
  "is_valid_code_point v =
     (if v > 0x10ffff \<or> v AND 0xfffe = 0xfffe \<or> (v \<ge> 0xfdd0 \<and> v \<le> 0xfdef) \<or> (v \<ge> 0xd800 \<and> v \<le> 0xdfff)
      then False else True)"

definition BOTTOM_BITS :: "nat \<Rightarrow> u8" where
  "BOTTOM_BITS n = mask n"

definition TOP_BITS :: "nat \<Rightarrow> u8" where
  "TOP_BITS n = NOT (BOTTOM_BITS (8 - n))"

text \<open>The loop over the continuation bytes.\<close>

fun utf8_rest :: "nat \<Rightarrow> u32 \<Rightarrow> u32 reader" where
  "utf8_rest 0 v = rret v"
| "utf8_rest (Suc len) v = rbind CBS_get_u8 (\<lambda>c.
     if c AND TOP_BITS 2 \<noteq> TOP_BITS 1 then rfail
     else utf8_rest len (push_bit 6 v OR ucast (c AND BOTTOM_BITS 6)))"

definition utf8_multi :: "u32 \<Rightarrow> nat \<Rightarrow> u32 \<Rightarrow> u32 reader" where
  "utf8_multi v len lower_bound = rbind (utf8_rest len v) (\<lambda>v.
     if \<not> is_valid_code_point v \<or> v < lower_bound then rfail else rret v)"

definition cbs_get_utf8 :: "u32 reader" where
  "cbs_get_utf8 = rbind CBS_get_u8 (\<lambda>c.
     if c \<le> 0x7f then rret (ucast c)
     else if c AND TOP_BITS 3 = TOP_BITS 2 then utf8_multi (ucast (c AND BOTTOM_BITS 5)) 1 0x80
     else if c AND TOP_BITS 4 = TOP_BITS 3 then utf8_multi (ucast (c AND BOTTOM_BITS 4)) 2 0x800
     else if c AND TOP_BITS 5 = TOP_BITS 4 then utf8_multi (ucast (c AND BOTTOM_BITS 3)) 3 0x10000
     else rfail)"

definition cbs_get_latin1 :: "u32 reader" where
  "cbs_get_latin1 = rbind CBS_get_u8 (\<lambda>c. rret (ucast c))"

definition cbs_get_ucs2_be :: "u32 reader" where
  "cbs_get_ucs2_be = rbind CBS_get_u16 (\<lambda>c. if \<not> is_valid_code_point (ucast c) then rfail else rret (ucast c))"

definition cbs_get_utf32_be :: "u32 reader" where
  "cbs_get_utf32_be = rbind CBS_get_u32 (\<lambda>v. if is_valid_code_point v then rret v else rfail)"

definition cbb_get_utf8_len :: "u32 \<Rightarrow> nat" where
  "cbb_get_utf8_len u = (if u \<le> 0x7f then 1 else if u \<le> 0x7ff then 2 else if u \<le> 0xffff then 3 else 4)"

definition cbb_add_utf8 :: "allocator \<Rightarrow> nat \<Rightarrow> u32 \<Rightarrow> cbb \<Rightarrow> bool \<times> cbb" where
  "cbb_add_utf8 al d u s =
     (if \<not> is_valid_code_point u then (False, s)
      else if u \<le> 0x7f then CBB_add_u8 al d (ucast u) s
      else if u \<le> 0x7ff then
        cbb_seq (CBB_add_u8 al d (TOP_BITS 2 OR ucast (drop_bit 6 u)))
          (CBB_add_u8 al d (TOP_BITS 1 OR (ucast u AND BOTTOM_BITS 6))) s
      else if u \<le> 0xffff then
        cbb_seq (CBB_add_u8 al d (TOP_BITS 3 OR ucast (drop_bit 12 u)))
          (cbb_seq (CBB_add_u8 al d (TOP_BITS 1 OR (ucast (drop_bit 6 u) AND BOTTOM_BITS 6)))
            (CBB_add_u8 al d (TOP_BITS 1 OR (ucast u AND BOTTOM_BITS 6)))) s
      else if u \<le> 0x10ffff then
        cbb_seq (CBB_add_u8 al d (TOP_BITS 4 OR ucast (drop_bit 18 u)))
          (cbb_seq (CBB_add_u8 al d (TOP_BITS 1 OR (ucast (drop_bit 12 u) AND BOTTOM_BITS 6)))
            (cbb_seq (CBB_add_u8 al d (TOP_BITS 1 OR (ucast (drop_bit 6 u) AND BOTTOM_BITS 6)))
              (CBB_add_u8 al d (TOP_BITS 1 OR (ucast u AND BOTTOM_BITS 6))))) s
      else (False, s))"

definition cbb_add_latin1 :: "allocator \<Rightarrow> nat \<Rightarrow> u32 \<Rightarrow> cbb \<Rightarrow> bool \<times> cbb" where
  "cbb_add_latin1 al d u s = (if u \<le> 0xff then CBB_add_u8 al d (ucast u) s else (False, s))"

definition cbb_add_ucs2_be :: "allocator \<Rightarrow> nat \<Rightarrow> u32 \<Rightarrow> cbb \<Rightarrow> bool \<times> cbb" where
  "cbb_add_ucs2_be al d u s =
     (if u \<le> 0xffff \<and> is_valid_code_point u then CBB_add_u16 al d (ucast u) s else (False, s))"

definition cbb_add_utf32_be :: "allocator \<Rightarrow> nat \<Rightarrow> u32 \<Rightarrow> cbb \<Rightarrow> bool \<times> cbb" where
  "cbb_add_utf32_be al d u s = (if is_valid_code_point u then CBB_add_u32 al d u s else (False, s))"

section \<open>Masks\<close>

lemma unat_top: "unat (c AND NOT (mask k) :: u8) = unat c div 2 ^ k * 2 ^ k"
proof -
  have "c AND NOT (mask k) = push_bit k (drop_bit k c)"
    by (rule bit_word_eqI) (auto simp: bit_simps)
  moreover have "unat c div 2 ^ k * 2 ^ k < 2 ^ 8"
    using unat_byte_less [of c] by (simp add: le_less_trans [OF div_times_less_eq_dividend])
  moreover have "unat (push_bit k (drop_bit k c)) = take_bit 8 (push_bit k (unat c div 2 ^ k))"
    by (simp add: unsigned_push_bit_eq unat_drop_bit)
  ultimately show ?thesis by (simp add: push_bit_eq_mult take_bit_nat_eq_self)
qed

lemma unat_bits:
  "unat (TOP_BITS 1) = 128" "unat (TOP_BITS 2) = 192" "unat (TOP_BITS 3) = 224" "unat (TOP_BITS 4) = 240"
  "unat (TOP_BITS 5) = 248"
  by (simp_all add: TOP_BITS_def BOTTOM_BITS_def mask_eq_exp_minus_1)

lemma top_bits_and:
  assumes "k \<le> 8"
  shows "c AND TOP_BITS k = x \<longleftrightarrow> unat c div 2 ^ (8 - k) * 2 ^ (8 - k) = unat x"
  unfolding word_unat_eq_iff TOP_BITS_def BOTTOM_BITS_def unat_top by (rule refl)

lemma unat_bottom: "unat (c AND BOTTOM_BITS k) = unat c mod 2 ^ k"
  unfolding BOTTOM_BITS_def by (rule unat_and_mask)

text \<open>The tests of the decoder, as ranges of the byte.\<close>

lemma div_mult_eq:
  fixes c :: nat
  assumes "0 < m"
  shows "c div m * m = k * m \<longleftrightarrow> k * m \<le> c \<and> c < Suc k * m"
proof -
  have "c div m = k \<longleftrightarrow> k * m \<le> c \<and> c < Suc k * m"
    using assms by (metis div_nat_eqI dividend_less_times_div div_times_less_eq_dividend mult.commute mult_Suc_right)
  with assms show ?thesis by simp
qed

lemma byte_class:
  "c AND TOP_BITS 2 = TOP_BITS 1 \<longleftrightarrow> 128 \<le> unat c \<and> unat c < 192"
  "c AND TOP_BITS 3 = TOP_BITS 2 \<longleftrightarrow> 192 \<le> unat c \<and> unat c < 224"
  "c AND TOP_BITS 4 = TOP_BITS 3 \<longleftrightarrow> 224 \<le> unat c \<and> unat c < 240"
  "c AND TOP_BITS 5 = TOP_BITS 4 \<longleftrightarrow> 240 \<le> unat c \<and> unat c < 248"
  using div_mult_eq [of 64 "unat c" 2] div_mult_eq [of 32 "unat c" 6] div_mult_eq [of 16 "unat c" 14]
    div_mult_eq [of 8 "unat c" 30]
  by (simp_all add: top_bits_and unat_bits unat_bits(1) [simplified])

section \<open>UTF-8\<close>

definition cont :: "nat \<Rightarrow> nat \<Rightarrow> u8" where
  "cont n k = word_of_nat (128 + n div 64 ^ k mod 64)"

definition utf8_tail :: "nat \<Rightarrow> nat \<Rightarrow> bytes" where
  "utf8_tail k n = map (cont n) (rev [0..<k])"

definition utf8 :: "nat \<Rightarrow> bytes" where
  "utf8 n =
     (if n < 0x80 then [word_of_nat n]
      else if n < 0x800 then word_of_nat (192 + n div 64) # utf8_tail 1 n
      else if n < 0x10000 then word_of_nat (224 + n div 64 ^ 2) # utf8_tail 2 n
      else word_of_nat (240 + n div 64 ^ 3) # utf8_tail 3 n)"

lemma unat_cont: "unat (cont n k) = 128 + n div 64 ^ k mod 64"
proof -
  have "n div 64 ^ k mod 64 < 64" by simp
  then have "128 + n div 64 ^ k mod 64 < 256" by linarith
  then show ?thesis unfolding cont_def unat_byte_of_nat by simp
qed

lemma utf8_tail_Suc [simp]: "utf8_tail (Suc k) n = cont n k # utf8_tail k n" "utf8_tail 0 n = []"
  by (simp_all add: utf8_tail_def)

text \<open>One continuation byte, on numbers.\<close>

lemma unat_shift6_or:
  fixes v :: u32 and c :: u8
  assumes "unat v < 2 ^ 26"
  shows "unat (push_bit 6 v OR ucast (c AND BOTTOM_BITS 6)) = unat v * 64 + unat c mod 64"
proof -
  have c: "unat (ucast (c AND BOTTOM_BITS 6) :: u32) = unat c mod 64"
    by (simp add: unat_ucast_up unat_bottom)
  then have "unat (ucast (c AND BOTTOM_BITS 6) :: u32) < 2 ^ 6" by simp
  then have "push_bit 6 v OR ucast (c AND BOTTOM_BITS 6) = push_bit 6 v + ucast (c AND BOTTOM_BITS 6)"
    by (rule push_bit_or_disjoint)
  moreover have "unat c mod 64 < 64" by simp
  ultimately show ?thesis
    using assms c by (simp add: push_bit_eq_mult unat_word_ariths)
qed

lemma utf8_rest_Cons:
  assumes "unat v < 2 ^ 26"
  shows "utf8_rest (Suc k) v (b # c) =
    (if 128 \<le> unat b \<and> unat b < 192 then utf8_rest k (word_of_nat (unat v * 64 + unat b mod 64)) c
     else (None, c))"
proof -
  have "push_bit 6 v OR ucast (b AND BOTTOM_BITS 6) = word_of_nat (unat v * 64 + unat b mod 64)"
    by (metis unat_shift6_or [OF assms] word_of_nat_unat)
  then show ?thesis
    using byte_class(1) [of b] by (simp add: rbind_def CBS_get_u8_def cbs_get_def)
qed


lemma room_step:
  fixes a :: nat
  assumes "(a + 1) * 64 ^ Suc k \<le> 2 ^ 32"
  shows "a < 2 ^ 26"
proof -
  have "(a + 1) * 64 * 1 \<le> (a + 1) * 64 * 64 ^ k" by (rule mult_le_mono2) simp
  also have "\<dots> \<le> 2 ^ 32" using assms by (simp only: power_Suc mult.assoc)
  finally show ?thesis by simp
qed

lemma add_lead: "(n::nat) < 64 \<Longrightarrow> (128 + n) mod 64 = n"
proof -
  assume "n < 64"
  moreover have "(128 + n) mod 64 = (n + 2 * 64) mod 64" by (simp add: add.commute)
  ultimately show ?thesis by (metis mod_less mod_mult_self1)
qed

lemma utf8_rest_tail:
  "(unat v + 1) * 64 ^ k \<le> 2 ^ 32 \<Longrightarrow>
     utf8_rest k v (utf8_tail k n @ r) = (Some (word_of_nat (unat v * 64 ^ k + n mod 64 ^ k)), r)"
proof (induction k arbitrary: v)
  case (Suc k)
  let ?b = "n div 64 ^ k mod 64"
  have v26: "unat v < 2 ^ 26" using Suc.prems(1) by (rule room_step)
  have b: "?b < 64" by simp
  let ?w = "word_of_nat (unat v * 64 + ?b) :: u32"
  have w: "unat ?w = unat v * 64 + ?b"
    using v26 b by (simp add: unat_of_nat del: of_nat_add of_nat_mult)
  have "(unat ?w + 1) * 64 ^ k \<le> (unat v + 1) * 64 * 64 ^ k" unfolding w using b by (intro mult_right_mono) simp_all
  then have le: "(unat ?w + 1) * 64 ^ k \<le> 2 ^ 32" using Suc.prems by (simp add: algebra_simps)
  have "unat ?w * 64 ^ k + n mod 64 ^ k = unat v * 64 ^ Suc k + n mod 64 ^ Suc k"
    unfolding w using mod_mult2_eq [of n "64 ^ k" 64] by (simp add: algebra_simps)
  moreover have "128 \<le> unat (cont n k) \<and> unat (cont n k) < 192"
    unfolding unat_cont using b by linarith
  moreover have "unat (cont n k) mod 64 = ?b" unfolding unat_cont by (metis b add_lead)
  ultimately show ?case
    using Suc.IH [OF le] by (simp add: utf8_rest_Cons [OF v26] del: utf8_rest.simps of_nat_add of_nat_mult)
qed (simp del: of_nat_add of_nat_mult)

lemma utf8_rest_sound:
  "(unat v + 1) * 64 ^ k \<le> 2 ^ 32 \<Longrightarrow> utf8_rest k v c = (Some w, r) \<Longrightarrow>
     c = utf8_tail k (unat w) @ r \<and> unat w div 64 ^ k = unat v"
proof (induction k arbitrary: v c)
  case (Suc k)
  have v26: "unat v < 2 ^ 26" using Suc.prems(1) by (rule room_step)
  obtain b c' where c: "c = b # c'"
    using Suc.prems(2) by (cases c) (auto simp: rbind_def CBS_get_u8_def cbs_get_def)
  let ?w = "word_of_nat (unat v * 64 + unat b mod 64) :: u32"
  have rng: "128 \<le> unat b" "unat b < 192" and rest: "utf8_rest k ?w c' = (Some w, r)"
    using Suc.prems(2) unfolding c utf8_rest_Cons [OF v26] by (simp_all split: if_splits)
  have m: "unat b mod 64 < 64" by simp
  have uw: "unat ?w = unat v * 64 + unat b mod 64"
    using v26 m by (simp add: unat_of_nat del: of_nat_add of_nat_mult)
  have "(unat ?w + 1) * 64 ^ k \<le> (unat v + 1) * 64 * 64 ^ k" unfolding uw using m by (intro mult_right_mono) simp_all
  then have le: "(unat ?w + 1) * 64 ^ k \<le> 2 ^ 32" using Suc.prems(1) by (simp add: algebra_simps)
  from Suc.IH [OF le rest] have IH: "c' = utf8_tail k (unat w) @ r" "unat w div 64 ^ k = unat ?w" by simp_all
  have "unat b = 128 + unat b mod 64"
  proof -
    have "unat b = 2 * 64 + (unat b - 128)" using rng by simp
    then have "unat b mod 64 = (unat b - 128) mod 64" by (metis add.commute mod_mult_self1)
    with rng show ?thesis by simp
  qed
  then have "cont (unat w) k = b" unfolding word_unat_eq_iff unat_cont IH(2) uw by simp
  moreover have "unat w div 64 ^ Suc k = unat v"
    unfolding power_Suc2 div_mult2_eq IH(2) uw using m by simp
  ultimately show ?case using IH(1) by (simp add: c)
qed simp

lemma valid_range: "is_valid_code_point u \<Longrightarrow> unat u \<le> 0x10ffff"
  by (auto simp: is_valid_code_point_def word_less_nat_alt not_less split: if_splits)

lemma valid_small: "u \<le> 0x7f \<Longrightarrow> is_valid_code_point u"
proof -
  assume u: "u \<le> 0x7f"
  have "u AND 0xfffe \<noteq> 0xfffe"
  proof
    assume "u AND 0xfffe = 0xfffe"
    then have "0xfffe \<le> u" by (metis word_and_le1 and.commute)
    with u show False by (simp add: word_le_nat_alt)
  qed
  with u show ?thesis by (auto simp: is_valid_code_point_def word_le_nat_alt word_less_nat_alt)
qed


text \<open>The multi-byte branches, for a lead byte with \<open>x\<close> value bits.\<close>

lemma utf8_multi_iff:
  assumes "(unat v + 1) * 64 ^ k \<le> 2 ^ 32"
  shows "utf8_multi v k lb c = (Some u, r) \<longleftrightarrow>
    is_valid_code_point u \<and> lb \<le> u \<and> unat u div 64 ^ k = unat v \<and> c = utf8_tail k (unat u) @ r"
proof
  assume "utf8_multi v k lb c = (Some u, r)"
  then have "utf8_rest k v c = (Some u, r)" "is_valid_code_point u" "lb \<le> u"
    by (auto simp: utf8_multi_def rbind_eq_Some split: if_splits)
  with utf8_rest_sound [OF assms] show
    "is_valid_code_point u \<and> lb \<le> u \<and> unat u div 64 ^ k = unat v \<and> c = utf8_tail k (unat u) @ r" by blast
next
  assume a: "is_valid_code_point u \<and> lb \<le> u \<and> unat u div 64 ^ k = unat v \<and> c = utf8_tail k (unat u) @ r"
  then have "unat v * 64 ^ k + unat u mod 64 ^ k = unat u" by (metis div_mult_mod_eq)
  with a utf8_rest_tail [OF assms, of "unat u" r] show "utf8_multi v k lb c = (Some u, r)"
    by (simp add: utf8_multi_def rbind_def not_less [symmetric] del: of_nat_add of_nat_mult)
qed

lemma lead_byte:
  assumes "n < m" and "a + m \<le> 256" and "a mod m = 0"
  shows "unat (word_of_nat (a + n) :: u8) = a + n" and "(a + n) mod m = n"
proof -
  show "unat (word_of_nat (a + n) :: u8) = a + n" unfolding unat_byte_of_nat using assms by simp
  show "(a + n) mod m = n" using assms by (metis add.left_neutral mod_add_left_eq mod_less)
qed

lemma get_utf8_Cons:
  "cbs_get_utf8 (b # c) =
     (if unat b < 128 then (Some (ucast b), c)
      else if 192 \<le> unat b \<and> unat b < 224 then utf8_multi (word_of_nat (unat b mod 32)) 1 0x80 c
      else if 224 \<le> unat b \<and> unat b < 240 then utf8_multi (word_of_nat (unat b mod 16)) 2 0x800 c
      else if 240 \<le> unat b \<and> unat b < 248 then utf8_multi (word_of_nat (unat b mod 8)) 3 0x10000 c
      else (None, c))"
proof -
  have "b \<le> 0x7f \<longleftrightarrow> unat b < 128" by (auto simp: word_le_nat_alt)
  moreover have bits: "ucast (b AND BOTTOM_BITS k) = (word_of_nat (unat b mod 2 ^ k) :: u32)" for k
  proof -
    have "ucast (b AND BOTTOM_BITS k) = (word_of_nat (unat (b AND BOTTOM_BITS k)) :: u32)" by simp
    then show ?thesis unfolding unat_bottom .
  qed
  ultimately show ?thesis
    using byte_class [of b] bits [of 5] bits [of 4] bits [of 3]
    by (simp add: cbs_get_utf8_def rbind_def CBS_get_u8_def cbs_get_def)
qed


text \<open>A lead byte from the range \<open>a ..< a + m\<close> holds the bits of the code point above the tail.\<close>

lemma lead_branch:
  assumes b: "a \<le> unat b" "unat b < a + m" and a: "a + m \<le> 256" "a mod m = 0" and m: "m * 64 ^ k \<le> 2 ^ 32" "m \<le> 32"
  shows "utf8_multi (word_of_nat (unat b mod m)) k lb c = (Some u, r) \<longleftrightarrow>
    is_valid_code_point u \<and> lb \<le> u \<and> unat u div 64 ^ k < m
    \<and> b # c = word_of_nat (a + unat u div 64 ^ k) # utf8_tail k (unat u) @ r"
proof -
  have mpos: "0 < m" using b by linarith
  define x where "x = unat b mod m"
  have x: "x < m" using mpos by (simp add: x_def)
  have bx: "unat b = a + x"
  proof -
    have "unat b - a < m" using b by linarith
    then have "(a + (unat b - a)) mod m = unat b - a" by (rule lead_byte(2) [OF _ a])
    with b(1) show ?thesis by (simp only: x_def le_add_diff_inverse)
  qed
  have ux: "unat (word_of_nat x :: u32) = x"
  proof -
    have "x < 2 ^ LENGTH(32)" using x m(2) by simp
    then show ?thesis by (rule of_nat_inverse [OF refl])
  qed
  have "(x + 1) * 64 ^ k \<le> m * 64 ^ k" using x by (intro mult_right_mono) simp_all
  then have "(unat (word_of_nat x :: u32) + 1) * 64 ^ k \<le> 2 ^ 32" unfolding ux using m(1) by linarith
  from utf8_multi_iff [OF this, of lb c u r]
  have "utf8_multi (word_of_nat x) k lb c = (Some u, r) \<longleftrightarrow>
    is_valid_code_point u \<and> lb \<le> u \<and> unat u div 64 ^ k = x \<and> c = utf8_tail k (unat u) @ r" unfolding ux .
  moreover have "unat u div 64 ^ k = x \<longleftrightarrow> unat u div 64 ^ k < m \<and> b = word_of_nat (a + unat u div 64 ^ k)"
  proof
    assume "unat u div 64 ^ k = x"
    then show "unat u div 64 ^ k < m \<and> b = word_of_nat (a + unat u div 64 ^ k)"
      using x by (simp only: bx [symmetric] word_of_nat_unat)
  next
    assume y: "unat u div 64 ^ k < m \<and> b = word_of_nat (a + unat u div 64 ^ k)"
    then have "unat b = a + unat u div 64 ^ k"
      using lead_byte(1) [of "unat u div 64 ^ k" m a, OF _ a] by (simp only:)
    with bx show "unat u div 64 ^ k = x" by simp
  qed
  ultimately show ?thesis unfolding x_def [symmetric] list.inject by blast
qed

lemma div_less_iff: "0 < m \<Longrightarrow> (n::nat) div m < k \<longleftrightarrow> n < k * m"
  by (simp add: div_less_iff_less_mult)

text \<open>The encoding, by its first byte.\<close>

lemma utf8_first:
  assumes n: "n < 0x200000"
  shows "b # c = utf8 n @ r \<longleftrightarrow>
    (if unat b < 128 then n < 0x80 \<and> unat b = n \<and> c = r
     else if 192 \<le> unat b \<and> unat b < 224 then 0x80 \<le> n \<and> n < 0x800 \<and> b # c = word_of_nat (192 + n div 64) # utf8_tail 1 n @ r
     else if 224 \<le> unat b \<and> unat b < 240 then 0x800 \<le> n \<and> n < 0x10000 \<and> b # c = word_of_nat (224 + n div 64 ^ 2) # utf8_tail 2 n @ r
     else if 240 \<le> unat b \<and> unat b < 248 then 0x10000 \<le> n \<and> b # c = word_of_nat (240 + n div 64 ^ 3) # utf8_tail 3 n @ r
     else False)"
proof -
  have d: "n < 0x800 \<Longrightarrow> n div 64 < 32" "n < 0x10000 \<Longrightarrow> n div 64 ^ 2 < 16" "n div 64 ^ 3 < 8"
    using n div_less_iff [of "64" n 32] div_less_iff [of "64 ^ 2" n 16] div_less_iff [of "64 ^ 3" n 8] by simp_all
  have h: "n < 0x80 \<Longrightarrow> unat (word_of_nat n :: u8) = n"
    "n < 0x800 \<Longrightarrow> unat (word_of_nat (192 + n div 64) :: u8) = 192 + n div 64"
    "n < 0x10000 \<Longrightarrow> unat (word_of_nat (224 + n div 64 ^ 2) :: u8) = 224 + n div 64 ^ 2"
    "unat (word_of_nat (240 + n div 64 ^ 3) :: u8) = 240 + n div 64 ^ 3"
    using lead_byte(1) [of n 128 0] lead_byte(1) [of "n div 64" 32 192, OF d(1)]
      lead_byte(1) [of "n div 64 ^ 2" 16 224, OF d(2)] lead_byte(1) [of "n div 64 ^ 3" 8 240, OF d(3)] by simp_all
  consider "n < 0x80" | "0x80 \<le> n" "n < 0x800" | "0x800 \<le> n" "n < 0x10000" | "0x10000 \<le> n" by linarith
  then show ?thesis
  proof cases
    case 1
    then have "utf8 n = [word_of_nat n]" by (simp add: utf8_def)
    moreover have "b = word_of_nat n \<longleftrightarrow> unat b = n" by (simp only: word_unat_eq_iff h(1) [OF 1])
    ultimately show ?thesis using 1 by auto
  next
    case 2
    then have e: "utf8 n = word_of_nat (192 + n div 64) # utf8_tail 1 n" by (simp add: utf8_def del: of_nat_add)
    show ?thesis
    proof (cases "b = word_of_nat (192 + n div 64)")
      case True
      then have "unat b = 192 + n div 64" using h(2) [OF 2(2)] by (simp only:)
      with d(1) [OF 2(2)] 2 show ?thesis unfolding e by simp
    qed (use 2 in \<open>auto simp: e\<close>)
  next
    case 3
    then have e: "utf8 n = word_of_nat (224 + n div 64 ^ 2) # utf8_tail 2 n" by (simp add: utf8_def del: of_nat_add)
    show ?thesis
    proof (cases "b = word_of_nat (224 + n div 64 ^ 2)")
      case True
      then have "unat b = 224 + n div 64 ^ 2" using h(3) [OF 3(2)] by (simp only:)
      with d(2) [OF 3(2)] 3 show ?thesis unfolding e by simp
    qed (use 3 in \<open>auto simp: e\<close>)
  next
    case 4
    then have e: "utf8 n = word_of_nat (240 + n div 64 ^ 3) # utf8_tail 3 n" by (simp add: utf8_def del: of_nat_add)
    show ?thesis
    proof (cases "b = word_of_nat (240 + n div 64 ^ 3)")
      case True
      then have "unat b = 240 + n div 64 ^ 3" using h(4) by (simp only:)
      with d(3) 4 show ?thesis unfolding e by simp
    qed (use 4 in \<open>auto simp: e\<close>)
  qed
qed

lemma get_utf8_iff: "cbs_get_utf8 c = (Some u, r) \<longleftrightarrow> is_valid_code_point u \<and> c = utf8 (unat u) @ r"
proof (cases c)
  case Nil
  then show ?thesis by (simp add: cbs_get_utf8_def rbind_def CBS_get_u8_def cbs_get_def utf8_def)
next
  case (Cons b c')
  let ?n = "unat u"
  have le: "(0x80 :: u32) \<le> u \<longleftrightarrow> 0x80 \<le> ?n" "(0x800 :: u32) \<le> u \<longleftrightarrow> 0x800 \<le> ?n" "(0x10000 :: u32) \<le> u \<longleftrightarrow> 0x10000 \<le> ?n"
    by (simp_all add: word_le_nat_alt)
  have d: "?n div 64 < 32 \<longleftrightarrow> ?n < 0x800" "?n div 64 ^ 2 < 16 \<longleftrightarrow> ?n < 0x10000" "?n div 64 ^ 3 < 8 \<longleftrightarrow> ?n < 0x200000"
    using div_less_iff [of "64" ?n 32] div_less_iff [of "64 ^ 2" ?n 16] div_less_iff [of "64 ^ 3" ?n 8] by simp_all
  have rng: "is_valid_code_point u \<Longrightarrow> ?n < 0x200000" using valid_range [of u] by simp
  have top: "is_valid_code_point u \<Longrightarrow> ?n div 262144 < 8" using rng d(3) by simp
  note first = utf8_first [of ?n b c' r]
  consider "unat b < 128" | "192 \<le> unat b" "unat b < 192 + 32" | "224 \<le> unat b" "unat b < 224 + 16"
    | "240 \<le> unat b" "unat b < 240 + 8" | "128 \<le> unat b" "unat b < 192" | "248 \<le> unat b" by linarith
  then show ?thesis
  proof cases
    case 1
    have "ucast b = u \<longleftrightarrow> unat b = ?n" by (simp add: word_unat_eq_iff unat_ucast_up)
    moreover have "unat b = ?n \<Longrightarrow> is_valid_code_point u" using 1 by (intro valid_small) (simp add: word_le_nat_alt)
    ultimately show ?thesis using 1 rng first by (auto simp: Cons get_utf8_Cons)
  next
    case 2
    then have "cbs_get_utf8 c = utf8_multi (word_of_nat (unat b mod 32)) 1 0x80 c'" by (simp add: Cons get_utf8_Cons)
    with lead_branch [OF 2, of 1 "0x80" c' u r] first 2 show ?thesis
      by (auto simp: Cons le d rng simp del: of_nat_add)
  next
    case 3
    then have "cbs_get_utf8 c = utf8_multi (word_of_nat (unat b mod 16)) 2 0x800 c'" by (simp add: Cons get_utf8_Cons)
    with lead_branch [OF 3, of 2 "0x800" c' u r] first 3 show ?thesis
      by (auto simp: Cons le d rng simp del: of_nat_add)
  next
    case 4
    then have "cbs_get_utf8 c = utf8_multi (word_of_nat (unat b mod 8)) 3 0x10000 c'" by (simp add: Cons get_utf8_Cons)
    with lead_branch [OF 4, of 3 "0x10000" c' u r] first 4 top show ?thesis
      by (auto simp: Cons le rng simp del: of_nat_add)
  next
    case 5
    with rng first show ?thesis by (auto simp: Cons get_utf8_Cons)
  next
    case 6
    with rng first show ?thesis by (auto simp: Cons get_utf8_Cons)
  qed
qed

interpretation utf8_codec: canonical_codec "\<lambda>u. utf8 (unat u)" cbs_get_utf8 is_valid_code_point
  by unfold_locales (simp_all add: get_utf8_iff)

text \<open>The other formats.\<close>

lemma ucast_u8_u32: "unat u < 256 \<Longrightarrow> ucast (ucast (u :: u32) :: u8) = u"
  by (simp add: word_unat_eq_iff unat_ucast_up unsigned_ucast_eq unsigned_take_bit_eq take_bit_nat_eq_self)

lemma ucast_u16_u32: "unat u < 2 ^ 16 \<Longrightarrow> ucast (ucast (u :: u32) :: u16) = u"
  by (simp add: word_unat_eq_iff unat_ucast_up unsigned_ucast_eq unsigned_take_bit_eq take_bit_nat_eq_self)

lemma ucast_narrow [simp]: "ucast (ucast (b :: u8) :: u32) = b" "ucast (ucast (h :: u16) :: u32) = h"
  by (rule bit_word_eqI; simp add: bit_simps)+

interpretation latin1_codec: canonical_codec "\<lambda>u. [ucast (u :: u32)]" cbs_get_latin1 "\<lambda>u. unat u < 256"
proof unfold_locales
  fix u :: u32 and r :: bytes
  assume "unat u < 256"
  then show "cbs_get_latin1 ([ucast u] @ r) = (Some u, r)"
    by (simp add: cbs_get_latin1_def rbind_def CBS_get_u8_def cbs_get_def ucast_u8_u32)
next
  fix c :: bytes and u :: u32 and r :: bytes
  assume "cbs_get_latin1 c = (Some u, r)"
  then show "unat u < 256 \<and> c = [ucast u] @ r"
    using unat_byte_less
    by (cases c) (auto simp: cbs_get_latin1_def rbind_def CBS_get_u8_def cbs_get_def unat_ucast_up)
qed

interpretation utf32_codec: canonical_codec "\<lambda>u. be_bytes 4 (unat u)" cbs_get_utf32_be is_valid_code_point
  by unfold_locales (auto simp: cbs_get_utf32_be_def rbind_eq_Some u32_codec.dec_iff split: if_splits)

interpretation ucs2_codec: canonical_codec "\<lambda>u. be_bytes 2 (unat (ucast (u :: u32) :: u16))" cbs_get_ucs2_be
    "\<lambda>u. is_valid_code_point u \<and> unat u < 2 ^ 16"
proof unfold_locales
  fix u :: u32 and r
  assume "is_valid_code_point u \<and> unat u < 2 ^ 16"
  then show "cbs_get_ucs2_be (be_bytes 2 (unat (ucast u :: u16)) @ r) = (Some u, r)"
    by (simp add: cbs_get_ucs2_be_def rbind_def u16_codec.dec_enc ucast_u16_u32)
next
  fix c :: bytes and u :: u32 and r :: bytes
  assume "cbs_get_ucs2_be c = (Some u, r)"
  then obtain h :: u16 where "c = be_bytes 2 (unat h) @ r" "is_valid_code_point (ucast h)" "u = ucast h"
    by (auto simp: cbs_get_ucs2_be_def rbind_eq_Some u16_codec.dec_iff split: if_splits)
  then show "(is_valid_code_point u \<and> unat u < 2 ^ 16) \<and> c = be_bytes 2 (unat (ucast u :: u16)) @ r"
    using unat_u16_less [of h] by (simp add: unat_ucast_up)
qed

section \<open>The writers\<close>

text \<open>A writer behind a test of its argument.\<close>

lemma rejecting_writer:
  assumes "strict_writer al f F"
  shows "strict_writer al (\<lambda>s. if P then f s else (False, s)) (\<lambda>fs. if P then F fs else None)"
proof (cases P)
  case False
  have "strict_writer al (\<lambda>s. (False, s)) (\<lambda>_. None)" by unfold_locales (auto simp: same_base_refl)
  with False show ?thesis by simp
qed (simp add: assms)

text \<open>The bytes the writer computes.\<close>

lemma top_or:
  assumes x: "unat x < 2 ^ (8 - n)" and n: "n \<le> 8"
  shows "TOP_BITS n OR x = word_of_nat (unat (TOP_BITS n) + unat x)"
proof -
  have "TOP_BITS n = push_bit (8 - n) (mask n)"
    by (rule bit_word_eqI) (use n in \<open>auto simp: TOP_BITS_def BOTTOM_BITS_def bit_simps\<close>)
  with push_bit_or_disjoint [OF x, of "mask n"] show ?thesis by simp
qed

lemma unat_low_byte: "unat (ucast (drop_bit k (u :: u32)) :: u8) = unat u div 2 ^ k mod 256"
  by (simp add: unsigned_ucast_eq unsigned_take_bit_eq unat_drop_bit take_bit_eq_mod)

lemma cont_byte: "TOP_BITS 1 OR (ucast (drop_bit (6 * k) (u :: u32)) AND BOTTOM_BITS 6) = cont (unat u) k"
proof -
  have m: "unat (ucast (drop_bit (6 * k) u) AND BOTTOM_BITS 6) = unat u div 64 ^ k mod 64"
  proof -
    have "(2::nat) ^ (6 * k) = 64 ^ k" unfolding power_mult by simp
    moreover have "x mod 256 mod 64 = x mod 64" for x :: nat by (rule mod_mod_cancel) simp
    ultimately show ?thesis by (simp only: unat_bottom unat_low_byte) simp
  qed
  have "unat u div 64 ^ k mod 64 < 64" by simp
  with m have "unat (ucast (drop_bit (6 * k) u) AND BOTTOM_BITS 6) < 2 ^ (8 - 1)"
    by simp
  from top_or [OF this] show ?thesis unfolding m unat_bits by (simp add: cont_def)
qed

lemma utf8_lead_bits:
  assumes "unat u div 2 ^ k < 2 ^ (8 - n)" and "n \<le> 8"
  shows "TOP_BITS n OR ucast (drop_bit k (u :: u32)) = word_of_nat (unat (TOP_BITS n) + unat u div 2 ^ k)"
proof -
  have "(2 :: nat) ^ (8 - n) \<le> 2 ^ 8" by (rule power_increasing) simp_all
  then have "unat (ucast (drop_bit k u) :: u8) = unat u div 2 ^ k"
    using assms(1) by (simp add: unat_low_byte)
  with top_or [of "ucast (drop_bit k u)" n] assms show ?thesis by (simp only:)
qed

lemma add_utf8_each:
  "cbb_add_utf8 al d u s = (if is_valid_code_point u then add_each al d (utf8 (unat u)) s else (False, s))"
proof (cases "is_valid_code_point u")
  case True
  note top = valid_range [OF True]
  let ?n = "unat u"
  have le: "u \<le> 0x7f \<longleftrightarrow> ?n < 0x80" "u \<le> 0x7ff \<longleftrightarrow> ?n < 0x800" "u \<le> 0xffff \<longleftrightarrow> ?n < 0x10000" "u \<le> 0x10ffff"
    using top by (auto simp: word_le_nat_alt)
  have c: "TOP_BITS 1 OR (ucast u AND BOTTOM_BITS 6) = cont ?n 0"
    "TOP_BITS 1 OR (ucast (drop_bit 6 u) AND BOTTOM_BITS 6) = cont ?n 1"
    "TOP_BITS 1 OR (ucast (drop_bit 12 u) AND BOTTOM_BITS 6) = cont ?n 2"
    using cont_byte [of 0 u] cont_byte [of 1 u] cont_byte [of 2 u] by simp_all
  have f: "?n < 0x800 \<Longrightarrow> TOP_BITS 2 OR ucast (drop_bit 6 u) = word_of_nat (192 + ?n div 64)"
    "?n < 0x10000 \<Longrightarrow> TOP_BITS 3 OR ucast (drop_bit 12 u) = word_of_nat (224 + ?n div 64 ^ 2)"
    "TOP_BITS 4 OR ucast (drop_bit 18 u) = word_of_nat (240 + ?n div 64 ^ 3)"
    using utf8_lead_bits [of u 6 2] utf8_lead_bits [of u 12 3] utf8_lead_bits [of u 18 4] top unat_bits(2-4)
      div_less_iff [of 64 ?n 32] div_less_iff [of 4096 ?n 16] div_less_iff [of 262144 ?n 8] by simp_all
  have tails: "utf8_tail 1 ?n = [cont ?n 0]" "utf8_tail 2 ?n = [cont ?n 1, cont ?n 0]"
    "utf8_tail 3 ?n = [cont ?n 2, cont ?n 1, cont ?n 0]"
    by (simp_all add: utf8_tail_def eval_nat_numeral)
  have one: "cbb_seq f (add_each al d []) = f" for f
    using cbb_seq_skip [of f] by (simp add: add_each.simps(1) [abs_def])
  show ?thesis
    using True f le by (auto simp: cbb_add_utf8_def utf8_def c c [simplified] tails tails(1) [simplified] add_each_Cons one simp del: add_each.simps)
qed (simp add: cbb_add_utf8_def)

interpretation utf8_writer: strict_writer al "cbb_add_utf8 al d u"
    "\<lambda>fs. if is_valid_code_point u then append_at d (utf8 (unat u)) fs else None" for al d u
proof -
  have "utf8 (unat u) \<noteq> []" by (simp add: utf8_def)
  from rejecting_writer [OF add_each_writer [OF this], where P = "is_valid_code_point u"]
  show "strict_writer al (cbb_add_utf8 al d u)
      (\<lambda>fs. if is_valid_code_point u then append_at d (utf8 (unat u)) fs else None)"
    by (simp add: add_utf8_each [abs_def])
qed

interpretation latin1_writer: strict_writer al "cbb_add_latin1 al d u"
    "\<lambda>fs. if u \<le> 0xff then append_at d [ucast u] fs else None" for al d u
  using rejecting_writer [OF u8_writer.strict_writer_axioms, where P = "u \<le> 0xff"]
  by (simp add: cbb_add_latin1_def [abs_def])

interpretation ucs2_writer: strict_writer al "cbb_add_ucs2_be al d u"
    "\<lambda>fs. if u \<le> 0xffff \<and> is_valid_code_point u then append_at d (be_bytes 2 (unat (ucast u :: u16))) fs else None" for al d u
  using rejecting_writer [OF u16_writer.strict_writer_axioms, where P = "u \<le> 0xffff \<and> is_valid_code_point u"]
  by (simp add: cbb_add_ucs2_be_def [abs_def])

interpretation utf32_writer: strict_writer al "cbb_add_utf32_be al d u"
    "\<lambda>fs. if is_valid_code_point u then append_at d (be_bytes 4 (unat u)) fs else None" for al d u
  using rejecting_writer [OF u32_writer.strict_writer_axioms, where P = "is_valid_code_point u"]
  by (simp add: cbb_add_utf32_be_def [abs_def])

lemma utf8_length: "unat u \<le> 0x10ffff \<Longrightarrow> length (utf8 (unat u)) = cbb_get_utf8_len u"
  by (auto simp: utf8_def utf8_tail_def cbb_get_utf8_len_def word_le_nat_alt)

lemma nonchar_bits: "(u :: u32) AND 0xfffe = 0xfffe \<longleftrightarrow> 0xfffe \<le> unat u mod 2 ^ 16"
proof -
  let ?m = "mask 15 :: u32"
  have e: "(0xfffe :: u32) = push_bit 1 ?m" by (simp add: push_bit_eq_mult mask_eq_exp_minus_1)
  have "u AND push_bit 1 ?m = push_bit 1 ?m \<longleftrightarrow> drop_bit 1 u AND ?m = ?m" (is "?l \<longleftrightarrow> ?r")
  proof -
    have "u AND push_bit n ?m = push_bit n (drop_bit n u AND ?m)" for n
      by (rule bit_word_eqI) (auto simp: bit_simps)
    moreover have "n + 15 \<le> 32 \<Longrightarrow> drop_bit n (push_bit n (x AND ?m)) = x AND ?m" for n and x :: u32
      by (rule bit_word_eqI) (auto simp: bit_simps)
    from this [of 1 "drop_bit 1 u"] this [of 1 ?m]
    have "drop_bit 1 (push_bit 1 (drop_bit 1 u AND ?m)) = drop_bit 1 u AND ?m" "drop_bit 1 (push_bit 1 ?m) = ?m"
      by simp_all
    ultimately show ?thesis by metis
  qed
  also have "\<dots> \<longleftrightarrow> unat u div 2 mod 2 ^ 15 = 2 ^ 15 - 1"
    unfolding word_unat_eq_iff unat_and_mask unat_drop_bit by (simp add: mask_eq_exp_minus_1)
  also have "\<dots> \<longleftrightarrow> 0xfffe \<le> unat u mod 2 ^ 16"
    using mod_mult2_eq [of "unat u" 2 "2 ^ 15"] by simp linarith
  finally show ?thesis unfolding e .
qed

lemma valid_nat:
  "is_valid_code_point u \<longleftrightarrow> unat u \<le> 0x10ffff \<and> unat u mod 2 ^ 16 < 0xfffe
     \<and> \<not> (0xfdd0 \<le> unat u \<and> unat u \<le> 0xfdef) \<and> \<not> (0xd800 \<le> unat u \<and> unat u \<le> 0xdfff)"
  unfolding is_valid_code_point_def nonchar_bits word_le_nat_alt word_less_nat_alt
  by (simp add: not_less not_le)

section \<open>Properties\<close>

text \<open>
  C28: \<open>cbs_get_utf8\<close> accepts exactly the UTF-8 encodings of the valid code points: no overlong form,
  no surrogate, no non-character, nothing above \<open>0x10ffff\<close>; and it stops right behind the encoding.
\<close>

theorem utf8_accepts:
  "cbs_get_utf8 c = (Some u, r) \<longleftrightarrow>
     unat u \<le> 0x10ffff \<and> unat u mod 2 ^ 16 < 0xfffe \<and> \<not> (0xfdd0 \<le> unat u \<and> unat u \<le> 0xfdef)
     \<and> \<not> (0xd800 \<le> unat u \<and> unat u \<le> 0xdfff) \<and> c = utf8 (unat u) @ r"
  unfolding utf8_codec.dec_iff valid_nat by blast

text \<open>
  A code point that \<open>cbb_add_utf8\<close> writes takes \<open>cbb_get_utf8_len\<close> bytes and is read back by
  \<open>cbs_get_utf8\<close>.
\<close>

theorem utf8_write_read:
  assumes "CBB_init al cap = (True, s0)" and "cap < size_max"
    and "cbb_add_utf8 al 0 u s0 = (True, s)" and "CBB_finish al 0 given s = (Some out, s')"
  shows "cbs_get_utf8 (out @ r) = (Some u, r) \<and> length out = cbb_get_utf8_len u"
proof -
  have v: "is_valid_code_point u" using assms(3) by (rule contrapos_pp) (simp add: cbb_add_utf8_def)
  have w: "writer al (cbb_add_utf8 al 0 u) (append_at 0 (utf8 (unat u)))"
    using utf8_writer.writer_axioms [of al 0 u] v by simp
  from value_output [OF w init_repr(1) [OF assms(1,2)] assms(3,4)] have "out = utf8 (unat u)" .
  with v utf8_codec.dec_enc [OF v] utf8_length [OF valid_range [OF v]] show ?thesis by simp
qed

theorem utf8_write_read_witness:
  "cbs_get_utf8 ([0xe2, 0x82, 0xac] @ [1]) = (Some 0x20ac, [1]) \<and> length [0xe2, 0x82, 0xac :: u8] = cbb_get_utf8_len 0x20ac"
proof -
  let ?al = "\<lambda>_ :: nat. True"
  let ?init = "snd (CBB_init ?al 0)"
  let ?s = "snd (cbb_add_utf8 ?al 0 0x20ac ?init)"
  let ?f = "CBB_finish ?al 0 True ?s"
  have "fst (CBB_init ?al 0)" by code_simp
  then have s0: "CBB_init ?al 0 = (True, ?init)" by (rule run_ok)
  have "fst (cbb_add_utf8 ?al 0 0x20ac ?init)" by code_simp
  then have w: "cbb_add_utf8 ?al 0 0x20ac ?init = (True, ?s)" by (rule run_ok)
  have "fst ?f = Some [0xe2, 0x82, 0xac]" by code_simp
  then have "?f = (Some [0xe2, 0x82, 0xac], snd ?f)" by (rule run_result)
  from utf8_write_read [OF s0 _ w this] show ?thesis by (simp add: size_max_def)
qed

end
