(* ===== verification/Ldb_Coding.thy ===== *)
theory Ldb_Coding
  imports Prelude
begin

text \<open>
  \<open>leveldb-library/util/coding.cc\<close> and \<open>coding.h\<close>: fixed-width and variable-length integers and
  length-prefixed strings, with which every file format of LevelDB is built. A \<open>Slice\<close> is the list
  of its bytes; the encoders return the bytes they put out. \<open>port::kLittleEndian\<close> is true on the
  platforms of the application: there \<open>memcpy\<close> of the value moves the bytes that the portable
  branch, which is modelled, names one by one.
\<close>

type_synonym slice = bytes

section \<open>The code\<close>

subsection \<open>Fixed width\<close>

definition EncodeFixed32 :: "u32 \<Rightarrow> bytes" where
  "EncodeFixed32 v =
     [ucast (v AND 0xff), ucast (drop_bit 8 v AND 0xff), ucast (drop_bit 16 v AND 0xff), ucast (drop_bit 24 v AND 0xff)]"

definition EncodeFixed64 :: "u64 \<Rightarrow> bytes" where
  "EncodeFixed64 v =
     [ucast (v AND 0xff), ucast (drop_bit 8 v AND 0xff), ucast (drop_bit 16 v AND 0xff), ucast (drop_bit 24 v AND 0xff),
      ucast (drop_bit 32 v AND 0xff), ucast (drop_bit 40 v AND 0xff), ucast (drop_bit 48 v AND 0xff),
      ucast (drop_bit 56 v AND 0xff)]"

definition PutFixed32 :: "bytes \<Rightarrow> u32 \<Rightarrow> bytes" where
  "PutFixed32 dst v = dst @ EncodeFixed32 v"

definition PutFixed64 :: "bytes \<Rightarrow> u64 \<Rightarrow> bytes" where
  "PutFixed64 dst v = dst @ EncodeFixed64 v"

text \<open>The decoders read behind the pointer without a bound; their callers check it.\<close>

definition DecodeFixed32 :: "bytes \<Rightarrow> u32" where
  "DecodeFixed32 p =
     ucast (p ! 0) OR push_bit 8 (ucast (p ! 1)) OR push_bit 16 (ucast (p ! 2)) OR push_bit 24 (ucast (p ! 3))"

definition DecodeFixed64 :: "bytes \<Rightarrow> u64" where
  "DecodeFixed64 p = push_bit 32 (ucast (DecodeFixed32 (drop 4 p))) OR ucast (DecodeFixed32 p)"

subsection \<open>Variable length\<close>

definition EncodeVarint32 :: "u32 \<Rightarrow> bytes" where
  "EncodeVarint32 v =
     (let B = 128 in
      if v < push_bit 7 1 then [ucast v]
      else if v < push_bit 14 1 then [ucast (v OR B), ucast (drop_bit 7 v)]
      else if v < push_bit 21 1 then [ucast (v OR B), ucast (drop_bit 7 v OR B), ucast (drop_bit 14 v)]
      else if v < push_bit 28 1 then
        [ucast (v OR B), ucast (drop_bit 7 v OR B), ucast (drop_bit 14 v OR B), ucast (drop_bit 21 v)]
      else [ucast (v OR B), ucast (drop_bit 7 v OR B), ucast (drop_bit 14 v OR B), ucast (drop_bit 21 v OR B),
            ucast (drop_bit 28 v)])"

definition PutVarint32 :: "bytes \<Rightarrow> u32 \<Rightarrow> bytes" where
  "PutVarint32 dst v = dst @ EncodeVarint32 v"

lemma shift7_smaller: "128 \<le> (v :: u64) \<Longrightarrow> unat (drop_bit 7 v) < unat v"
  by (simp add: unat_drop_bit word_le_nat_alt)

function EncodeVarint64 :: "u64 \<Rightarrow> bytes" where
  "EncodeVarint64 v = (if v \<ge> 128 then ucast (v OR 128) # EncodeVarint64 (drop_bit 7 v) else [ucast v])"
  by pat_completeness auto
termination by (relation "measure unat") (auto intro: shift7_smaller)

declare EncodeVarint64.simps [simp del]

definition PutVarint64 :: "bytes \<Rightarrow> u64 \<Rightarrow> bytes" where
  "PutVarint64 dst v = dst @ EncodeVarint64 v"

definition PutLengthPrefixedSlice :: "bytes \<Rightarrow> slice \<Rightarrow> bytes" where
  "PutLengthPrefixedSlice dst v = PutVarint32 dst (word_of_nat (length v)) @ v"

function VarintLength :: "u64 \<Rightarrow> nat" where
  "VarintLength v = (if v \<ge> 128 then Suc (VarintLength (drop_bit 7 v)) else 1)"
  by pat_completeness auto
termination by (relation "measure unat") (auto intro: shift7_smaller)

declare VarintLength.simps [simp del]

text \<open>
  The pointer variants return the bytes behind what they read, \<open>None\<close> for a null pointer. The loops
  for 32 and for 64 bits differ in the width and in the last shift.
\<close>

fun varint_loop :: "nat \<Rightarrow> nat \<Rightarrow> 'a::len word \<Rightarrow> bytes \<Rightarrow> ('a word \<times> bytes) option" where
  "varint_loop last_shift shift result p =
     (if shift \<le> last_shift then
        (case p of [] \<Rightarrow> None
         | b # p \<Rightarrow>
           if b AND 128 \<noteq> 0 then varint_loop last_shift (shift + 7) (result OR push_bit shift (ucast b AND 127)) p
           else Some (result OR push_bit shift (ucast b), p))
      else None)"

declare varint_loop.simps [simp del]

definition GetVarint32PtrFallback :: "bytes \<Rightarrow> (u32 \<times> bytes) option" where
  "GetVarint32PtrFallback p = varint_loop 28 0 0 p"

definition GetVarint32Ptr :: "bytes \<Rightarrow> (u32 \<times> bytes) option" where
  "GetVarint32Ptr p =
     (case p of [] \<Rightarrow> GetVarint32PtrFallback p
      | b # p' \<Rightarrow> if ucast b AND (128 :: u32) = 0 then Some (ucast b, p') else GetVarint32PtrFallback p)"

definition GetVarint64Ptr :: "bytes \<Rightarrow> (u64 \<times> bytes) option" where
  "GetVarint64Ptr p = varint_loop 63 0 0 p"

definition GetVarint32 :: "u32 reader" where
  "GetVarint32 input = (case GetVarint32Ptr input of None \<Rightarrow> (None, input) | Some (v, q) \<Rightarrow> (Some v, q))"

definition GetVarint64 :: "u64 reader" where
  "GetVarint64 input = (case GetVarint64Ptr input of None \<Rightarrow> (None, input) | Some (v, q) \<Rightarrow> (Some v, q))"

definition GetLengthPrefixedSlicePtr :: "bytes \<Rightarrow> (slice \<times> bytes) option" where
  "GetLengthPrefixedSlicePtr p =
     (case GetVarint32Ptr p of None \<Rightarrow> None
      | Some (len, p) \<Rightarrow> if length p < unat len then None else Some (take (unat len) p, drop (unat len) p))"

text \<open>A failure after the length leaves the slice behind the length.\<close>

definition GetLengthPrefixedSlice :: "slice reader" where
  "GetLengthPrefixedSlice = rbind GetVarint32 (\<lambda>len input.
     if unat len \<le> length input then (Some (take (unat len) input), drop (unat len) input) else (None, input))"

section \<open>Fixed width\<close>

lemma or_push_bit: "unat (x :: 'a::len word) < 2 ^ n \<Longrightarrow> x OR push_bit n y = x + push_bit n y"
  using push_bit_or_disjoint [of x n y] by (simp only: or.commute add.commute)

lemma ucast_and_ff [simp]: "ucast (v AND 0xff) = (ucast (v :: 'a::len word) :: u8)"
proof -
  have e: "(0xff :: 'a word) = mask 8" by (simp add: mask_eq_exp_minus_1)
  show ?thesis unfolding e by (rule bit_word_eqI) (auto simp: bit_simps dest: bit_imp_le_length)
qed

lemma EncodeFixed32_be: "EncodeFixed32 v = rev (be_bytes 4 (unat v))"
  unfolding be_bytes_word by (simp add: EncodeFixed32_def upt_rec)

lemma EncodeFixed64_be: "EncodeFixed64 v = rev (be_bytes 8 (unat v))"
  unfolding be_bytes_word by (simp add: EncodeFixed64_def upt_rec)

lemma length_EncodeFixed [simp]: "length (EncodeFixed32 v) = 4" "length (EncodeFixed64 w) = 8"
  by (simp_all add: EncodeFixed32_def EncodeFixed64_def)

text \<open>One more byte at the high end.\<close>

lemma or_high_byte:
  assumes "unat (x :: 'a::len word) < 2 ^ k" and "8 \<le> LENGTH('a)"
  shows "x OR push_bit k (ucast (b :: u8)) = word_of_nat (unat x + unat b * 2 ^ k)"
proof -
  have "(ucast b :: 'a word) = word_of_nat (unat b)" by simp
  then show ?thesis unfolding or_push_bit [OF assms(1)] by (simp add: push_bit_eq_mult)
qed

lemma unat_small: "n < 2 ^ LENGTH('a) \<Longrightarrow> unat (word_of_nat n :: 'a::len word) = n"
  by (rule of_nat_inverse [OF refl])

lemma DecodeFixed32_be:
  assumes "4 \<le> length p"
  shows "DecodeFixed32 p = word_of_nat (be_nat (rev (take 4 p)))"
proof -
  obtain b0 b1 b2 b3 q where p: "p = b0 # b1 # b2 # b3 # q"
    using assms by (auto simp: Suc_le_length_iff eval_nat_numeral)
  have lt: "unat b0 < 256" "unat b1 < 256" "unat b2 < 256" "unat b3 < 256" by (rule unat_byte_less)+
  have be: "be_nat (rev (take 4 p)) = unat b0 + unat b1 * 2 ^ 8 + unat b2 * 2 ^ 16 + unat b3 * 2 ^ 24"
    by (simp add: p be_nat_def)
  have 0: "unat (ucast b0 :: u32) = unat b0" by (simp add: unsigned_ucast_eq take_bit_nat_eq_self less_trans [OF lt(1)])
  let ?w1 = "ucast b0 OR push_bit 8 (ucast b1) :: u32"
  have w1: "?w1 = word_of_nat (unat b0 + unat b1 * 2 ^ 8)"
    using or_high_byte [of "ucast b0 :: u32" 8 b1] lt by (simp only: 0) simp
  have 1: "unat ?w1 = unat b0 + unat b1 * 2 ^ 8" unfolding w1 by (rule unat_small) (use lt in simp)
  let ?w2 = "?w1 OR push_bit 16 (ucast b2)"
  have w2: "?w2 = word_of_nat (unat b0 + unat b1 * 2 ^ 8 + unat b2 * 2 ^ 16)"
    using or_high_byte [of ?w1 16 b2] lt by (simp only: 1) simp
  have 2: "unat ?w2 = unat b0 + unat b1 * 2 ^ 8 + unat b2 * 2 ^ 16" unfolding w2 by (rule unat_small) (use lt in simp)
  have "?w2 OR push_bit 24 (ucast b3) = word_of_nat (unat b0 + unat b1 * 2 ^ 8 + unat b2 * 2 ^ 16 + unat b3 * 2 ^ 24)"
    using or_high_byte [of ?w2 24 b3] lt by (simp only: 2) simp
  then show ?thesis unfolding be by (simp add: DecodeFixed32_def p or.assoc del: of_nat_add of_nat_mult)
qed

lemma be_nat_cat: "be_nat (xs @ ys) = be_nat xs * 256 ^ length ys + be_nat ys"
  by (induction ys rule: rev_induct) (simp_all add: algebra_simps flip: append_assoc)

lemma DecodeFixed64_be:
  assumes "8 \<le> length p"
  shows "DecodeFixed64 p = word_of_nat (be_nat (rev (take 8 p)))"
proof -
  have l: "be_nat (rev (take 4 q)) < 2 ^ 32" if "4 \<le> length q" for q
    using be_nat_less [of "rev (take 4 q)"] that by simp
  have u: "unat (ucast (DecodeFixed32 q) :: u64) = be_nat (rev (take 4 q))" if "4 \<le> length q" for q
  proof -
    have "unat (DecodeFixed32 q) = be_nat (rev (take 4 q))"
      unfolding DecodeFixed32_be [OF that] by (rule unat_small) (use l [OF that] in simp)
    then show ?thesis using l [OF that] by (simp add: unsigned_ucast_eq take_bit_nat_eq_self)
  qed
  let ?lo = "ucast (DecodeFixed32 p) :: u64" and ?hi = "ucast (DecodeFixed32 (drop 4 p)) :: u64"
  have lo: "unat ?lo = be_nat (rev (take 4 p))" and hi: "unat ?hi = be_nat (rev (take 4 (drop 4 p)))"
    using assms by (auto intro: u)
  have "take 8 p = take 4 p @ take 4 (drop 4 p)" using take_add [of 4 4 p] by simp
  then have "be_nat (rev (take 8 p)) = unat ?hi * 2 ^ 32 + unat ?lo"
    using assms by (simp add: be_nat_cat lo hi)
  moreover have "unat ?lo < 2 ^ 32" using lo l assms by simp
  then have "push_bit 32 ?hi OR ?lo = word_of_nat (unat ?hi * 2 ^ 32 + unat ?lo)"
    unfolding push_bit_or_disjoint [OF \<open>unat ?lo < 2 ^ 32\<close>] by (simp add: push_bit_eq_mult)
  ultimately show ?thesis by (simp add: DecodeFixed64_def)
qed

lemma Decode_Encode32 [simp]: "DecodeFixed32 (EncodeFixed32 v @ r) = v"
  using unat_u32_less [of v] by (simp add: DecodeFixed32_be EncodeFixed32_be)

lemma Decode_Encode64 [simp]: "DecodeFixed64 (EncodeFixed64 v @ r) = v"
  using unat_u64_less [of v] by (simp add: DecodeFixed64_be EncodeFixed64_be)

lemma Encode_Decode32:
  assumes "4 \<le> length p"
  shows "EncodeFixed32 (DecodeFixed32 p) = take 4 p"
proof -
  have "length (rev (take 4 p)) = 4" using assms by simp
  with be_nat_less [of "rev (take 4 p)"] have "be_nat (rev (take 4 p)) < 2 ^ LENGTH(32)" by simp
  then have "unat (DecodeFixed32 p) = be_nat (rev (take 4 p))"
    unfolding DecodeFixed32_be [OF assms] by (rule unat_small)
  with assms show ?thesis by (simp add: EncodeFixed32_be)
qed

lemma Encode_Decode64:
  assumes "8 \<le> length p"
  shows "EncodeFixed64 (DecodeFixed64 p) = take 8 p"
proof -
  have "length (rev (take 8 p)) = 8" using assms by simp
  with be_nat_less [of "rev (take 8 p)"] have "be_nat (rev (take 8 p)) < 2 ^ LENGTH(64)" by simp
  then have "unat (DecodeFixed64 p) = be_nat (rev (take 8 p))"
    unfolding DecodeFixed64_be [OF assms] by (rule unat_small)
  with assms show ?thesis by (simp add: EncodeFixed64_be)
qed

lemma EncodeFixed_inj [simp]: "EncodeFixed32 v = EncodeFixed32 w \<longleftrightarrow> v = w" "EncodeFixed64 x = EncodeFixed64 y \<longleftrightarrow> x = y"
  by (metis Decode_Encode32) (metis Decode_Encode64)

text \<open>An array of 32-bit integers.\<close>

lemma drop_words: "i < length ws \<Longrightarrow> take 4 (drop (i * 4) (concat (map EncodeFixed32 ws) @ r)) = EncodeFixed32 (ws ! i)"
proof (induction ws arbitrary: i)
  case (Cons w ws)
  then show ?case by (cases i) simp_all
qed simp

lemma DecodeFixed32_take: "take 4 p = EncodeFixed32 w \<Longrightarrow> DecodeFixed32 p = w"
  using Decode_Encode32 [of w "drop 4 p"] by (metis append_take_drop_id)

lemma length_words [simp]: "length (concat (map EncodeFixed32 ws)) = length ws * 4"
  by (induction ws) simp_all

lemma DecodeFixed32_word:
  assumes "i < length ws"
  shows "DecodeFixed32 (drop (length p + i * 4) (p @ concat (map EncodeFixed32 ws) @ r)) = ws ! i"
  using DecodeFixed32_take [OF drop_words [OF assms]] by simp

section \<open>Variable length\<close>

text \<open>Seven bits a byte, the low ones first; all bytes but the last have the top bit set.\<close>

fun le128 :: "bytes \<Rightarrow> nat" where
  "le128 [] = 0"
| "le128 (b # bs) = unat b mod 128 + 128 * le128 bs"

function varint :: "nat \<Rightarrow> bytes" where
  "varint n = (if n < 128 then [word_of_nat n] else word_of_nat (128 + n mod 128) # varint (n div 128))"
  by pat_completeness auto
termination by (relation "measure id") auto

declare varint.simps [simp del]

lemma two_7: "(2::nat) ^ 7 = 128"
  by simp

lemma mod_le_127: "(n::nat) mod 128 \<le> 127"
  using mod_less_divisor [of 128 n] by simp

lemma unat_and_127: "8 \<le> LENGTH('a::len) \<Longrightarrow> (ucast (b :: u8) AND 127 :: 'a word) = word_of_nat (unat b mod 128)"
proof -
  assume l: "8 \<le> LENGTH('a)"
  have m: "(127 :: 'a word) = mask 7" by (simp add: mask_eq_exp_minus_1)
  have "unat (ucast b AND 127 :: 'a word) = unat (ucast b :: 'a word) mod 2 ^ 7" unfolding m by (rule unat_and_mask)
  also have "unat (ucast b :: 'a word) = unat b"
    using l unat_byte_less [of b] power_increasing [OF l, of "2 :: nat"]
    by (simp add: unsigned_ucast_eq take_bit_nat_eq_self)
  finally show ?thesis by (metis word_of_nat_unat two_7)
qed

lemma and_128_eq_0: "(b :: u8) AND 128 = 0 \<longleftrightarrow> unat b < 128"
  using and_80_eq_0 [of b] by simp

lemma varint_loop_iff:
  fixes result :: "'a::len word"
  assumes len: "8 \<le> LENGTH('a)"
  shows "unat result < 2 ^ shift \<Longrightarrow> varint_loop last_shift shift result p = Some (v, r) \<longleftrightarrow>
    (\<exists>bs b. p = bs @ b # r \<and> (\<forall>x\<in>set bs. 128 \<le> unat x) \<and> unat b < 128 \<and> shift + 7 * length bs \<le> last_shift
      \<and> v = result + word_of_nat (2 ^ shift * le128 (bs @ [b])))"
proof (induction p arbitrary: shift result)
  case (Cons b p)
  define result' where "result' = result + word_of_nat (2 ^ shift * (unat b mod 128))"
  have low: "result OR push_bit shift (ucast b AND 127) = result'"
    unfolding unat_and_127 [OF len] or_push_bit [OF Cons.prems] result'_def by (simp add: push_bit_eq_mult mult.commute)
  have "unat result' \<le> unat result + 2 ^ shift * (unat b mod 128)"
    unfolding result'_def unat_word_ariths unat_of_nat
    by (meson add_left_mono mod_less_eq_dividend order_trans)
  also have "\<dots> < 2 ^ shift + 2 ^ shift * 127"
    using Cons.prems by (intro add_less_le_mono mult_le_mono2) (simp_all add: mod_le_127)
  also have "\<dots> = 2 ^ (shift + 7)" by (simp add: power_add)
  finally have small: "unat result' < 2 ^ (shift + 7)" .
  show ?case
  proof (cases "unat b < 128")
    case True
    then have "b AND 128 = 0" by (simp add: and_128_eq_0)
    moreover have "(ucast b :: 'a word) = ucast b AND 127"
      using True unfolding unat_and_127 [OF len] by simp
    ultimately have "varint_loop last_shift shift result (b # p) = Some (v, r) \<longleftrightarrow>
        shift \<le> last_shift \<and> v = result' \<and> r = p"
      using low by (subst varint_loop.simps) auto
    moreover have "(\<exists>bs b'. b # p = bs @ b' # r \<and> (\<forall>x\<in>set bs. 128 \<le> unat x) \<and> P bs b') \<longleftrightarrow> p = r \<and> P [] b" for P
    proof
      assume "\<exists>bs b'. b # p = bs @ b' # r \<and> (\<forall>x\<in>set bs. 128 \<le> unat x) \<and> P bs b'"
      then obtain bs b' where bs: "b # p = bs @ b' # r" "\<forall>x\<in>set bs. 128 \<le> unat x" "P bs b'" by blast
      with True have "bs = []" by (cases bs) auto
      with bs show "p = r \<and> P [] b" by simp
    qed auto
    ultimately show ?thesis using True by (auto simp: result'_def)
  next
    case False
    then have "b AND 128 \<noteq> 0" by (simp add: and_128_eq_0)
    then have "varint_loop last_shift shift result (b # p) = Some (v, r) \<longleftrightarrow>
        shift \<le> last_shift \<and> varint_loop last_shift (shift + 7) result' p = Some (v, r)"
      using low by (subst varint_loop.simps) auto
    also have "\<dots> \<longleftrightarrow> (\<exists>bs b'. b # p = (b # bs) @ b' # r \<and> (\<forall>x\<in>set (b # bs). 128 \<le> unat x) \<and> unat b' < 128
        \<and> shift + 7 * length (b # bs) \<le> last_shift \<and> v = result + word_of_nat (2 ^ shift * le128 ((b # bs) @ [b'])))"
    proof -
      have "result' + word_of_nat (2 ^ (shift + 7) * n) = result + word_of_nat (2 ^ shift * (unat b mod 128 + 128 * n))" for n
        unfolding result'_def by (simp add: power_add algebra_simps)
      with False show ?thesis unfolding Cons.IH [OF small] by (auto simp del: of_nat_add of_nat_mult)
    qed
    also have "\<dots> \<longleftrightarrow> (\<exists>bs b'. b # p = bs @ b' # r \<and> (\<forall>x\<in>set bs. 128 \<le> unat x) \<and> unat b' < 128
        \<and> shift + 7 * length bs \<le> last_shift \<and> v = result + word_of_nat (2 ^ shift * le128 (bs @ [b'])))" (is "?l \<longleftrightarrow> ?r")
    proof
      assume ?r
      then obtain bs b' where bs: "b # p = bs @ b' # r" "unat b' < 128" and
        rest: "\<forall>x\<in>set bs. 128 \<le> unat x" "shift + 7 * length bs \<le> last_shift"
          "v = result + word_of_nat (2 ^ shift * le128 (bs @ [b']))" by blast
      with False obtain bs' where "bs = b # bs'" by (cases bs) auto
      with bs rest show ?l by blast
    qed blast
    finally show ?thesis .
  qed
qed (simp add: varint_loop.simps)

text \<open>Groups of seven bits, and their number.\<close>

lemma le128_varint: "\<exists>bs b. varint n = bs @ [b] \<and> (\<forall>x\<in>set bs. 128 \<le> unat x) \<and> unat b < 128 \<and> le128 (varint n) = n"
proof (induction n rule: varint.induct)
  case (1 n)
  show ?case
  proof (cases "n < 128")
    case True
    then have "varint n = [word_of_nat n]" by (subst varint.simps) simp
    moreover have "unat (word_of_nat n :: u8) = n" using True by (simp add: unat_byte_of_nat)
    ultimately show ?thesis using True by auto
  next
    case False
    with 1 obtain bs b where IH: "varint (n div 128) = bs @ [b]" "\<forall>x\<in>set bs. 128 \<le> unat x" "unat b < 128"
      "le128 (varint (n div 128)) = n div 128" by blast
    have v: "varint n = word_of_nat (128 + n mod 128) # varint (n div 128)" using False by (subst varint.simps) simp
    have u: "unat (word_of_nat (128 + n mod 128) :: u8) = 128 + n mod 128"
      by (rule unat_small) (use mod_le_127 [of n] in simp)
    then have "unat (word_of_nat (128 + n mod 128) :: u8) mod 128 = n mod 128"
      by (simp only: mod_add_self1 mod_mod_trivial)
    then have "le128 (varint n) = n" unfolding v le128.simps IH(4) by simp
    moreover have "varint n = (word_of_nat (128 + n mod 128) # bs) @ [b]" unfolding v IH(1) by simp
    ultimately show ?thesis using IH(2,3) u by (metis le_add1 set_ConsD)
  qed
qed

lemma length_varint: "n < 128 ^ Suc k \<Longrightarrow> length (varint n) \<le> Suc k"
proof (induction k arbitrary: n)
  case 0
  then show ?case by (subst varint.simps) simp
next
  case (Suc k)
  then have "n div 128 < 128 ^ Suc k" by (simp add: div_less_iff_less_mult)
  from Suc.IH [OF this] show ?case by (subst varint.simps) simp
qed

lemma varint_loop_varint:
  assumes "8 \<le> LENGTH('a::len)" and "n < 128 ^ Suc k" and "7 * k \<le> last_shift"
  shows "varint_loop last_shift 0 0 (varint n @ r) = Some (word_of_nat n :: 'a word, r)"
proof -
  obtain bs b where b: "varint n = bs @ [b]" "\<forall>x\<in>set bs. 128 \<le> unat x" "unat b < 128" "le128 (varint n) = n"
    using le128_varint by blast
  moreover have "7 * length bs \<le> last_shift" using length_varint [OF assms(2)] assms(3) b(1) by simp
  ultimately show ?thesis
    using varint_loop_iff [OF assms(1), of 0 0 last_shift "varint n @ r" "word_of_nat n" r] by auto
qed

lemma bit_128: "bit (128 :: 'a::len word) n \<longleftrightarrow> n = 7 \<and> 8 \<le> LENGTH('a)"
  using bit_exp_iff [of 7 n, where 'a = "'a word"] by auto

lemma ucast_or_128:
  assumes "8 \<le> LENGTH('a::len)"
  shows "(ucast (v OR 128) :: u8) = word_of_nat (128 + unat (v :: 'a word) mod 128)"
proof -
  have l: "ucast (v OR 128) = (128 OR ucast (take_bit 7 v) :: u8)"
  proof (rule bit_word_eqI)
    fix n
    assume "n < LENGTH(8)"
    then show "bit (ucast (v OR 128) :: u8) n = bit (128 OR ucast (take_bit 7 v) :: u8) n"
      using assms bit_128 [where 'a = 8, of n] bit_128 [where 'a = 'a, of n] by (auto simp: bit_or_iff bit_ucast_iff bit_take_bit_iff)
  qed
  have u: "unat (ucast (take_bit 7 v) :: u8) = unat v mod 128"
  proof -
    have "unat (take_bit 7 v) = unat v mod 128"
      by (simp only: unsigned_take_bit_eq take_bit_eq_mod [of 7 "unat v"] two_7)
    moreover have "unat (ucast (take_bit 7 v) :: u8) = unat (take_bit 7 v) mod 2 ^ 8"
      unfolding unsigned_ucast_eq unsigned_take_bit_eq take_bit_eq_mod by simp
    moreover have "unat v mod 128 < 2 ^ 8" using mod_le_127 [of "unat v"] by simp
    ultimately show ?thesis by (simp only: mod_less)
  qed
  moreover have "unat v mod 128 < 2 ^ 7" by simp
  ultimately have "unat (ucast (take_bit 7 v) :: u8) < 2 ^ 7" by (simp only:)
  note disjoint = push_bit_or_disjoint [OF this, of 1]
  have "push_bit 7 1 = (128 :: u8)" by simp
  then have c: "128 OR ucast (take_bit 7 v) = (128 + ucast (take_bit 7 v) :: u8)" using disjoint by (simp only:)
  have d: "ucast (take_bit 7 v) = (word_of_nat (unat v mod 128) :: u8)"
    unfolding u [symmetric] by (rule word_of_nat_unat [symmetric])
  show ?thesis unfolding l unfolding c unfolding d by simp
qed

lemma varint_small: "n < 128 \<Longrightarrow> varint n = [word_of_nat n]"
  by (subst varint.simps) simp

lemma varint_step: "128 \<le> n \<Longrightarrow> varint n = word_of_nat (128 + n mod 128) # varint (n div 128)"
  by (subst varint.simps) simp

lemma ucast_u8: "(ucast (v :: 'a::len word) :: u8) = word_of_nat (unat v)"
  by simp

lemma EncodeVarint64_varint: "EncodeVarint64 v = varint (unat v)"
proof (induction v rule: EncodeVarint64.induct)
  case (1 v)
  show ?case
  proof (cases "128 \<le> v")
    case True
    then have "128 \<le> unat v" by (simp add: word_le_nat_alt)
    with True 1 show ?thesis
      by (subst EncodeVarint64.simps) (simp add: varint_step ucast_or_128 unat_drop_bit del: of_nat_add)
  next
    case False
    then have "unat v < 128" by (simp add: word_le_nat_alt)
    with False show ?thesis by (subst EncodeVarint64.simps) (simp add: varint_small)
  qed
qed

lemma EncodeVarint32_varint: "EncodeVarint32 v = varint (unat v)"
proof -
  let ?n = "unat v"
  have lt: "v < push_bit 7 1 \<longleftrightarrow> ?n < 128" "v < push_bit 14 1 \<longleftrightarrow> ?n < 128 ^ 2" "v < push_bit 21 1 \<longleftrightarrow> ?n < 128 ^ 3"
    "v < push_bit 28 1 \<longleftrightarrow> ?n < 128 ^ 4"
    by (simp_all add: word_less_nat_alt)
  have top: "?n < 128 ^ 5" using unat_u32_less [of v] by simp
  have b: "ucast (drop_bit k v OR 128) = (word_of_nat (128 + ?n div 2 ^ k mod 128) :: u8)"
    "ucast (drop_bit k v) = (word_of_nat (?n div 2 ^ k) :: u8)" for k
    by (simp_all add: ucast_or_128 unat_drop_bit del: of_nat_add) (simp add: ucast_u8 unat_drop_bit)
  have b0: "ucast (v OR 128) = (word_of_nat (128 + ?n mod 128) :: u8)" by (simp add: ucast_or_128 del: of_nat_add)
  have small: "?n div 128 ^ j < 128" if "?n < 128 ^ Suc j" for j
    using that by (simp add: div_less_iff_less_mult mult.commute)
  have big: "128 \<le> ?n div 128 ^ j" if "\<not> ?n < 128 ^ Suc j" for j
    using that by (simp add: less_eq_div_iff_mult_less_eq mult.commute not_less)
  have step: "varint (?n div 128 ^ j) = word_of_nat (128 + ?n div 128 ^ j mod 128) # varint (?n div 128 ^ Suc j)"
    if "\<not> ?n < 128 ^ Suc j" for j
    unfolding varint_step [OF big [OF that]] by (simp add: div_mult2_eq [symmetric] mult.commute)
  note b' = b [of 7, simplified] b [of 14, simplified] b [of 21, simplified] b [of 28, simplified]
  note step' = step [of 0, simplified] step [of 1, simplified] step [of 2, simplified] step [of 3, simplified]
  note last' = varint_small [OF small [of 0]] varint_small [OF small [of 1]] varint_small [OF small [of 2]]
    varint_small [OF small [of 3]] varint_small [OF small [of 4]]
  note last' = this [simplified]
  consider "?n < 128" | "128 \<le> ?n" "?n < 128 ^ 2" | "128 ^ 2 \<le> ?n" "?n < 128 ^ 3"
    | "128 ^ 3 \<le> ?n" "?n < 128 ^ 4" | "128 ^ 4 \<le> ?n" by linarith
  then show ?thesis
    using step' last' top
    by cases (simp_all add: EncodeVarint32_def lt [simplified] b' b0 Let_def)
qed

text \<open>The short path of \<open>GetVarint32Ptr\<close> does what the loop does.\<close>

lemma GetVarint32Ptr_loop: "GetVarint32Ptr p = varint_loop 28 0 0 p"
proof (cases p)
  case (Cons b p')
  have z: "ucast b AND (128 :: u32) = 0 \<longleftrightarrow> b AND 128 = 0"
  proof -
    have "ucast b AND (2 ^ 7 :: u32) = 0 \<longleftrightarrow> b AND 2 ^ 7 = 0"
      unfolding and_exp_eq_0_iff_not_bit by (simp add: bit_ucast_iff)
    then show ?thesis by simp
  qed
  then show ?thesis
    by (cases "b AND 128 = 0") (simp_all add: Cons GetVarint32Ptr_def GetVarint32PtrFallback_def varint_loop.simps)
qed (simp add: GetVarint32Ptr_def GetVarint32PtrFallback_def)

lemma GetVarint32Ptr_varint: "n < 2 ^ 32 \<Longrightarrow> GetVarint32Ptr (varint n @ r) = Some (word_of_nat n, r)"
  unfolding GetVarint32Ptr_loop by (rule varint_loop_varint [where k = 4]) simp_all

lemma GetVarint64Ptr_varint: "n < 2 ^ 64 \<Longrightarrow> GetVarint64Ptr (varint n @ r) = Some (word_of_nat n, r)"
  unfolding GetVarint64Ptr_def by (rule varint_loop_varint [where k = 9]) simp_all

interpretation varint32_codec: codec EncodeVarint32 GetVarint32 "\<lambda>_. True"
  using GetVarint32Ptr_varint [OF unat_u32_less] by unfold_locales (simp add: GetVarint32_def EncodeVarint32_varint)

interpretation varint64_codec: codec EncodeVarint64 GetVarint64 "\<lambda>_. True"
  using GetVarint64Ptr_varint [OF unat_u64_less] by unfold_locales (simp add: GetVarint64_def EncodeVarint64_varint)

interpretation slice_codec: codec "PutLengthPrefixedSlice []" GetLengthPrefixedSlice "\<lambda>s. length s < 2 ^ 32"
proof
  fix s r :: bytes
  assume "length s < 2 ^ 32"
  then have "unat (word_of_nat (length s) :: u32) = length s" by (intro unat_small) simp
  then show "GetLengthPrefixedSlice (PutLengthPrefixedSlice [] s @ r) = (Some s, r)"
    by (simp add: GetLengthPrefixedSlice_def PutLengthPrefixedSlice_def PutVarint32_def varint32_codec.dec_enc)
qed

lemma GetVarint32_shorter: "GetVarint32 c = (Some v, r) \<Longrightarrow> length r < length c"
  using varint_loop_iff [of "0 :: u32" 0 28 c v r]
  by (auto simp: GetVarint32_def GetVarint32Ptr_loop split: option.splits)

lemma GetVarint64_shorter: "GetVarint64 c = (Some v, r) \<Longrightarrow> length r < length c"
  using varint_loop_iff [of "0 :: u64" 0 63 c v r]
  by (auto simp: GetVarint64_def GetVarint64Ptr_def split: option.splits)

lemma GetLengthPrefixedSlice_shorter: "GetLengthPrefixedSlice c = (Some v, r) \<Longrightarrow> length r < length c"
  by (auto simp: GetLengthPrefixedSlice_def rbind_eq_Some dest!: GetVarint32_shorter split: if_splits)

lemma VarintLength_varint: "VarintLength v = length (EncodeVarint64 v)"
proof (induction v rule: VarintLength.induct)
  case (1 v)
  then show ?case by (subst VarintLength.simps, subst EncodeVarint64.simps) simp
qed

lemma PutLengthPrefixedSlice_append: "PutLengthPrefixedSlice b v = b @ PutLengthPrefixedSlice [] v"
  by (simp add: PutLengthPrefixedSlice_def PutVarint32_def)

lemma GetLengthPrefixedSlice_Put:
  assumes "length v < 2 ^ 32"
  shows "GetLengthPrefixedSlice (PutLengthPrefixedSlice [] v @ r) = (Some v, r)"
proof -
  have "GetVarint32 (varint (length v) @ v @ r) = (Some (word_of_nat (length v)), v @ r)"
    using GetVarint32Ptr_varint [OF assms] by (simp add: GetVarint32_def)
  with assms show ?thesis
    by (simp add: GetLengthPrefixedSlice_def PutLengthPrefixedSlice_def PutVarint32_def EncodeVarint32_varint unat_small)
qed

lemma GetVarint_Encode:
  "GetVarint32 (EncodeVarint32 v @ r) = (Some v, r)" "GetVarint64 (EncodeVarint64 w @ r) = (Some w, r)"
  using GetVarint32Ptr_varint [OF unat_u32_less, of v r] GetVarint64Ptr_varint [OF unat_u64_less, of w r]
  by (simp_all add: GetVarint32_def GetVarint64_def EncodeVarint32_varint EncodeVarint64_varint)

section \<open>Properties\<close>

text \<open>
  C33: what \<open>GetVarint32\<close> accepts: at most five groups of seven bits, low ones first, all but the
  last with the top bit set. Its value is their number modulo \<open>2 ^ 32\<close>, as bits that do not fit are
  dropped without an error; nothing behind the last group is read.
\<close>

theorem get_varint32_accepts:
  "GetVarint32 c = (Some v, r) \<longleftrightarrow>
     (\<exists>bs b. c = bs @ b # r \<and> list_all (\<lambda>x. 128 \<le> unat x) bs \<and> unat b < 128 \<and> length bs \<le> 4
       \<and> v = word_of_nat (le128 (bs @ [b])))"
proof -
  have "7 * length bs \<le> 28 \<longleftrightarrow> length bs \<le> 4" for bs :: bytes by linarith
  then show ?thesis
    using varint_loop_iff [of "0 :: u32" 0 28 c v r]
    by (cases "varint_loop 28 0 (0 :: u32) c") (auto simp: GetVarint32_def GetVarint32Ptr_loop list_all_iff)
qed

text \<open>
  C32: every encoder of this file is undone by its decoder, which stops right behind the encoding.
\<close>

theorem coding_roundtrip:
  "GetVarint32 (PutVarint32 [] v @ r) = (Some v, r) \<and> GetVarint64 (PutVarint64 [] w @ r) = (Some w, r)
     \<and> DecodeFixed32 (PutFixed32 [] v @ r) = v \<and> DecodeFixed64 (PutFixed64 [] w @ r) = w
     \<and> length (PutVarint64 [] w) = VarintLength w"
  by (simp add: PutVarint32_def PutVarint64_def PutFixed32_def PutFixed64_def varint32_codec.dec_enc
      varint64_codec.dec_enc VarintLength_varint)

end
