(* ===== verification/Ldb_Env.thy ===== *)
theory Ldb_Env
  imports Ldb_Coding
begin

text \<open>
  \<open>leveldb-library/util/status.cc\<close> and the files of \<open>util/env_posix.cc\<close>: the status value every
  operation returns, the buffered \<open>PosixWritableFile\<close> and the \<open>PosixSequentialFile\<close>. The answers
  of the operating system are a parameter: a script of results for the coming system calls, behind
  which every call does all it is asked for. The interface of a writable file that the log rests on
  is a locale; the buffered file is proved to implement it under every script.
\<close>

section \<open>Status\<close>

datatype code = kNotFound | kCorruption | kNotSupported | kInvalidArgument | kIOError

text \<open>The state array of a status without its length; \<open>None\<close> is the null pointer of success.\<close>

type_synonym status = "(code \<times> string) option"

definition OK :: status where
  "OK = None"

definition Status :: "code \<Rightarrow> string \<Rightarrow> string \<Rightarrow> status" where
  "Status c msg msg2 = Some (c, msg @ (if msg2 \<noteq> [] then '': '' @ msg2 else []))"

definition NotFound :: "string \<Rightarrow> string \<Rightarrow> status" where
  "NotFound msg msg2 = Status kNotFound msg msg2"

definition Corruption :: "string \<Rightarrow> string \<Rightarrow> status" where
  "Corruption msg msg2 = Status kCorruption msg msg2"

definition NotSupported :: "string \<Rightarrow> string \<Rightarrow> status" where
  "NotSupported msg msg2 = Status kNotSupported msg msg2"

definition InvalidArgument :: "string \<Rightarrow> string \<Rightarrow> status" where
  "InvalidArgument msg msg2 = Status kInvalidArgument msg msg2"

definition IOError :: "string \<Rightarrow> string \<Rightarrow> status" where
  "IOError msg msg2 = Status kIOError msg msg2"

definition ok :: "status \<Rightarrow> bool" where
  "ok s \<longleftrightarrow> s = None"

definition status_code :: "status \<Rightarrow> code option" where
  "status_code s = map_option fst s"

definition IsNotFound :: "status \<Rightarrow> bool" where
  "IsNotFound s \<longleftrightarrow> status_code s = Some kNotFound"

definition IsCorruption :: "status \<Rightarrow> bool" where
  "IsCorruption s \<longleftrightarrow> status_code s = Some kCorruption"

definition IsIOError :: "status \<Rightarrow> bool" where
  "IsIOError s \<longleftrightarrow> status_code s = Some kIOError"

definition status_ToString :: "status \<Rightarrow> string" where
  "status_ToString s =
     (case s of None \<Rightarrow> ''OK''
      | Some (c, msg) \<Rightarrow>
        (case c of kNotFound \<Rightarrow> ''NotFound: '' | kCorruption \<Rightarrow> ''Corruption: ''
         | kNotSupported \<Rightarrow> ''Not implemented: '' | kInvalidArgument \<Rightarrow> ''Invalid argument: ''
         | kIOError \<Rightarrow> ''IO error: '') @ msg)"

lemma ok_simps [simp]: "ok OK" "\<not> ok (NotFound m m')" "\<not> ok (Corruption m m')" "\<not> ok (NotSupported m m')"
  "\<not> ok (InvalidArgument m m')" "\<not> ok (IOError m m')"
  by (simp_all add: ok_def OK_def NotFound_def Corruption_def NotSupported_def InvalidArgument_def IOError_def Status_def)

lemma ok_iff: "ok s \<longleftrightarrow> s = OK"
  by (simp add: ok_def OK_def)

section \<open>System calls\<close>

text \<open>
  What \<open>read\<close> or \<open>write\<close> answers: that so many bytes were moved (at most what there was to
  move), or an error number with its text.
\<close>

datatype sys_result = Moved nat | Errno nat string

definition EINTR :: nat where
  "EINTR = 4"

definition ENOENT :: nat where
  "ENOENT = 2"

definition PosixError :: "string \<Rightarrow> nat \<Rightarrow> string \<Rightarrow> status" where
  "PosixError context error_number strerror =
     (if error_number = ENOENT then NotFound context strerror else IOError context strerror)"

lemma PosixError_not_ok [simp]: "\<not> ok (PosixError c n e)"
  by (simp add: PosixError_def)

section \<open>The writable file\<close>

definition kWritableFileBufferSize :: nat where
  "kWritableFileBufferSize = 65536"

text \<open>
  \<open>buf\<close> is \<open>buf_[0, pos_ - 1]\<close>, \<open>on_disk\<close> what was written to \<open>fd_\<close>, \<open>script\<close> the answers of the
  coming calls of \<open>write\<close>.
\<close>

record posix_file =
  filename :: string
  buf :: bytes
  on_disk :: bytes
  script :: "sys_result list"

fun WriteUnbuffered_loop :: "string \<Rightarrow> sys_result list \<Rightarrow> bytes \<Rightarrow> bytes \<Rightarrow> status \<times> bytes \<times> sys_result list" where
  "WriteUnbuffered_loop name sys disk data =
     (if data = [] then (OK, disk, sys)
      else case sys of
        [] \<Rightarrow> (OK, disk @ data, [])
      | Errno n e # sys \<Rightarrow>
          if n = EINTR then WriteUnbuffered_loop name sys disk data else (PosixError name n e, disk, sys)
      | Moved k # sys \<Rightarrow> WriteUnbuffered_loop name sys (disk @ take k data) (drop k data))"

declare WriteUnbuffered_loop.simps [simp del]

definition WriteUnbuffered :: "posix_file \<Rightarrow> bytes \<Rightarrow> status \<times> posix_file" where
  "WriteUnbuffered f data =
     (case WriteUnbuffered_loop (filename f) (script f) (on_disk f) data of
        (s, disk, sys) \<Rightarrow> (s, f\<lparr>on_disk := disk, script := sys\<rparr>))"

definition FlushBuffer :: "posix_file \<Rightarrow> status \<times> posix_file" where
  "FlushBuffer f = (case WriteUnbuffered f (buf f) of (s, f) \<Rightarrow> (s, f\<lparr>buf := []\<rparr>))"

definition posix_Append :: "posix_file \<Rightarrow> slice \<Rightarrow> status \<times> posix_file" where
  "posix_Append f data =
     (let copy_size = min (length data) (kWritableFileBufferSize - length (buf f));
          f = f\<lparr>buf := buf f @ take copy_size data\<rparr>;
          data = drop copy_size data
      in if data = [] then (OK, f)
         else case FlushBuffer f of (s, f) \<Rightarrow>
           if \<not> ok s then (s, f)
           else if length data < kWritableFileBufferSize then (OK, f\<lparr>buf := data\<rparr>)
           else WriteUnbuffered f data)"

definition posix_Flush :: "posix_file \<Rightarrow> status \<times> posix_file" where
  "posix_Flush f = FlushBuffer f"

text \<open>\<open>dir\<close> is the status of \<open>SyncDirIfManifest\<close>, \<open>fd\<close> that of \<open>SyncFd\<close> on the file.\<close>

definition posix_Sync :: "status \<Rightarrow> (posix_file \<Rightarrow> status) \<Rightarrow> posix_file \<Rightarrow> status \<times> posix_file" where
  "posix_Sync dir fd f =
     (if \<not> ok dir then (dir, f)
      else case FlushBuffer f of (s, f) \<Rightarrow> if \<not> ok s then (s, f) else (fd f, f))"

subsection \<open>Its contract\<close>

text \<open>
  A \<open>WritableFile\<close> as its users see it, an object with two virtual functions: a success means that
  the bytes follow those before; a failure leaves a beginning of them. \<open>accepted\<close> is all that was
  handed over, \<open>durable\<close> what the operating system has.
\<close>

record 'f file_ops =
  Append :: "'f \<Rightarrow> slice \<Rightarrow> status \<times> 'f"
  Flush :: "'f \<Rightarrow> status \<times> 'f"

definition begins :: "bytes \<Rightarrow> bytes \<Rightarrow> bool" where
  "begins xs ys \<longleftrightarrow> take (length xs) ys = xs"

lemma begins_refl [simp]: "begins xs xs"
  by (simp add: begins_def)

lemma begins_append [simp]: "begins xs (xs @ ys)"
  by (simp add: begins_def)

lemma begins_iff: "begins xs ys \<longleftrightarrow> (\<exists>zs. ys = xs @ zs)"
  by (metis append_eq_conv_conj append_take_drop_id begins_def)

lemma begins_trans: "begins xs ys \<Longrightarrow> begins ys zs \<Longrightarrow> begins xs zs"
  unfolding begins_iff by auto

lemma begins_extend: "begins xs ys \<Longrightarrow> begins xs (ys @ zs)"
  unfolding begins_iff by auto

locale writable_file =
  fixes ops :: "'f file_ops"
    and accepted :: "'f \<Rightarrow> bytes"
    and durable :: "'f \<Rightarrow> bytes"
  assumes append_ok: "Append ops f d = (s, f') \<Longrightarrow> ok s \<Longrightarrow> accepted f' = accepted f @ d"
    and append_error: "Append ops f d = (s, f') \<Longrightarrow> \<not> ok s \<Longrightarrow> begins (durable f') (accepted f @ d)"
    and flush_ok: "Flush ops f = (s, f') \<Longrightarrow> ok s \<Longrightarrow> accepted f' = accepted f \<and> durable f' = accepted f"
    and flush_error: "Flush ops f = (s, f') \<Longrightarrow> \<not> ok s \<Longrightarrow> begins (durable f') (accepted f)"
    and behind: "begins (durable f) (accepted f)"
    and append_grows: "Append ops f d = (s, f') \<Longrightarrow> begins (durable f) (durable f')"
    and flush_grows: "Flush ops f = (s, f') \<Longrightarrow> begins (durable f) (durable f')"
    and append_small: "Append ops f d = (s, f') \<Longrightarrow> durable f = accepted f \<Longrightarrow> length d \<le> 4096 \<Longrightarrow> ok s"

definition posix_ops :: "posix_file file_ops" where
  "posix_ops = \<lparr>Append = posix_Append, Flush = posix_Flush\<rparr>"

definition posix_accepted :: "posix_file \<Rightarrow> bytes" where
  "posix_accepted f = on_disk f @ buf f"

lemma WriteUnbuffered_loop_spec:
  "WriteUnbuffered_loop name sys disk data = (s, disk', sys') \<Longrightarrow>
     (if ok s then disk' = disk @ data else begins disk' (disk @ data))"
proof (induction name sys disk data rule: WriteUnbuffered_loop.induct)
  case (1 name sys disk data)
  show ?case
  proof (cases "data = []")
    case True
    with "1.prems" show ?thesis by (auto simp: WriteUnbuffered_loop.simps)
  next
    case False
    show ?thesis
    proof (cases sys)
      case Nil
      with "1.prems" False show ?thesis by (auto simp: WriteUnbuffered_loop.simps [of name "[]"])
    next
      case (Cons r sys1)
      show ?thesis
      proof (cases r)
        case (Moved k)
        with Cons False "1.prems" have "WriteUnbuffered_loop name sys1 (disk @ take k data) (drop k data) = (s, disk', sys')"
          by (simp add: WriteUnbuffered_loop.simps [of name "x # xs" for x xs])
        from "1.IH"(1) [OF False Cons Moved this] show ?thesis by (simp split: if_splits)
      next
        case (Errno n e)
        show ?thesis
        proof (cases "n = EINTR")
          case True
          with Cons False Errno "1.prems" have "WriteUnbuffered_loop name sys1 disk data = (s, disk', sys')"
            by (simp add: WriteUnbuffered_loop.simps [of name "x # xs" for x xs])
          from "1.IH"(2) [OF \<open>data \<noteq> []\<close> Cons Errno True this] show ?thesis .
        next
          case False
          with Cons \<open>data \<noteq> []\<close> Errno "1.prems" show ?thesis
            by (auto simp: WriteUnbuffered_loop.simps [of name "x # xs" for x xs])
        qed
      qed
    qed
  qed
qed

lemma WriteUnbuffered_loop_grows:
  "WriteUnbuffered_loop name sys disk data = (s, disk', sys') \<Longrightarrow> begins disk disk'"
proof (induction name sys disk data rule: WriteUnbuffered_loop.induct)
  case (1 name sys disk data)
  have "begins disk disk'" if "begins (disk @ take k data) disk'" for k
    using that begins_trans begins_append by blast
  with 1 show ?case
    by (cases "data = []"; cases sys; cases "hd sys")
      (auto simp: WriteUnbuffered_loop.simps [of name "x # xs" for x xs] WriteUnbuffered_loop.simps [of name "[]"]
        WriteUnbuffered_loop.simps [of _ _ _ "[]"] split: if_splits)
qed

lemma WriteUnbuffered_grows: "WriteUnbuffered f data = (s, f') \<Longrightarrow> begins (on_disk f) (on_disk f')"
  by (auto simp: WriteUnbuffered_def split: prod.splits dest: WriteUnbuffered_loop_grows)

lemma FlushBuffer_grows: "FlushBuffer f = (s, f') \<Longrightarrow> begins (on_disk f) (on_disk f')"
  by (auto simp: FlushBuffer_def split: prod.splits dest: WriteUnbuffered_grows)

lemma posix_Append_grows: "posix_Append f data = (s, f') \<Longrightarrow> begins (on_disk f) (on_disk f')"
  by (auto simp: posix_Append_def Let_def split: prod.splits if_splits
      dest!: FlushBuffer_grows WriteUnbuffered_grows intro: begins_trans)

lemma posix_Append_small:
  "posix_Append f data = (s, f') \<Longrightarrow> buf f = [] \<Longrightarrow> length data \<le> 4096 \<Longrightarrow> ok s"
  by (auto simp: posix_Append_def Let_def kWritableFileBufferSize_def)

lemma WriteUnbuffered_spec:
  assumes "WriteUnbuffered f data = (s, f')"
  shows "buf f' = buf f \<and> (if ok s then on_disk f' = on_disk f @ data else begins (on_disk f') (on_disk f @ data))"
proof -
  obtain s1 disk sys where l: "WriteUnbuffered_loop (filename f) (script f) (on_disk f) data = (s1, disk, sys)"
    by (metis prod.exhaust)
  with assms have "s1 = s" "f' = f\<lparr>on_disk := disk, script := sys\<rparr>" by (auto simp: WriteUnbuffered_def)
  with WriteUnbuffered_loop_spec [OF l] show ?thesis by simp
qed

lemma FlushBuffer_spec:
  assumes "FlushBuffer f = (s, f')"
  shows "buf f' = [] \<and> (if ok s then on_disk f' = posix_accepted f else begins (on_disk f') (posix_accepted f))"
proof -
  obtain s1 f1 where w: "WriteUnbuffered f (buf f) = (s1, f1)" by fastforce
  with assms have "s1 = s" "f' = f1\<lparr>buf := []\<rparr>" by (auto simp: FlushBuffer_def)
  with WriteUnbuffered_spec [OF w] show ?thesis by (simp add: posix_accepted_def)
qed

lemma posix_Append_spec:
  assumes "posix_Append f data = (s, f')"
  shows "if ok s then posix_accepted f' = posix_accepted f @ data else begins (on_disk f') (posix_accepted f @ data)"
proof -
  define k where "k = min (length data) (kWritableFileBufferSize - length (buf f))"
  define g where "g = f\<lparr>buf := buf f @ take k data\<rparr>"
  have split: "posix_accepted g @ drop k data = posix_accepted f @ data"
    by (simp add: g_def posix_accepted_def)
  show ?thesis
  proof (cases "drop k data = []")
    case True
    with assms have "s = OK" "f' = g" by (auto simp: posix_Append_def Let_def k_def g_def)
    with True split show ?thesis by simp
  next
    case False
    obtain s1 f1 where fl: "FlushBuffer g = (s1, f1)" by fastforce
    note F = FlushBuffer_spec [OF fl]
    show ?thesis
    proof (cases "ok s1")
      case True
      note o = this
      show ?thesis
      proof (cases "length (drop k data) < kWritableFileBufferSize")
        case True
        with assms False fl o have "s = OK" "f' = f1\<lparr>buf := drop k data\<rparr>"
          unfolding posix_Append_def Let_def k_def [symmetric] g_def [symmetric] by auto
        with F o split show ?thesis by (simp add: posix_accepted_def [of f1] posix_accepted_def [of "f1\<lparr>buf := x\<rparr>" for x])
      next
        case big: False
        with assms False fl o have w: "WriteUnbuffered f1 (drop k data) = (s, f')"
          unfolding posix_Append_def Let_def k_def [symmetric] g_def [symmetric] by auto
        have "on_disk f1 @ drop k data = posix_accepted f @ data" "buf f1 = []" using F o split by simp_all
        with WriteUnbuffered_spec [OF w] show ?thesis by (simp add: posix_accepted_def [of f'] split: if_splits)
      qed
    next
      case bad: False
      with assms False fl have "s = s1" "f' = f1"
        unfolding posix_Append_def Let_def k_def [symmetric] g_def [symmetric] by auto
      with F bad split show ?thesis by (metis begins_extend)
    qed
  qed
qed

interpretation posix_file: writable_file posix_ops posix_accepted on_disk
proof
  fix f d s f'
  assume "Append posix_ops f d = (s, f')"
  then have "posix_Append f d = (s, f')" by (simp add: posix_ops_def)
  note spec = posix_Append_spec [OF this]
  show "ok s \<Longrightarrow> posix_accepted f' = posix_accepted f @ d" using spec by simp
  show "\<not> ok s \<Longrightarrow> begins (on_disk f') (posix_accepted f @ d)" using spec by simp
  show "begins (on_disk f) (on_disk f')" using posix_Append_grows [OF \<open>posix_Append f d = (s, f')\<close>] .
  show "on_disk f = posix_accepted f \<Longrightarrow> length d \<le> 4096 \<Longrightarrow> ok s"
    using posix_Append_small [OF \<open>posix_Append f d = (s, f')\<close>] by (simp add: posix_accepted_def)
next
  fix f s f'
  assume "Flush posix_ops f = (s, f')"
  then have "FlushBuffer f = (s, f')" by (simp add: posix_ops_def posix_Flush_def)
  note spec = FlushBuffer_spec [OF this]
  show "ok s \<Longrightarrow> posix_accepted f' = posix_accepted f \<and> on_disk f' = posix_accepted f"
    using spec by (simp add: posix_accepted_def [of f'])
  show "\<not> ok s \<Longrightarrow> begins (on_disk f') (posix_accepted f)" using spec by simp
  show "begins (on_disk f) (on_disk f')" using FlushBuffer_grows [OF \<open>FlushBuffer f = (s, f')\<close>] .
next
  show "begins (on_disk f) (posix_accepted f)" for f by (simp add: posix_accepted_def)
qed

section \<open>The sequential file\<close>

record seq_file =
  seq_name :: string
  unread :: bytes
  seq_script :: "sys_result list"

text \<open>\<open>read\<close> moves at most what is asked for and what is there; \<open>None\<close> leaves the result as it was.\<close>

fun seq_Read_loop :: "string \<Rightarrow> sys_result list \<Rightarrow> bytes \<Rightarrow> nat \<Rightarrow> status \<times> bytes option \<times> bytes \<times> sys_result list" where
  "seq_Read_loop name [] rest n = (OK, Some (take n rest), drop n rest, [])"
| "seq_Read_loop name (Moved k # sys) rest n = (OK, Some (take (min k n) rest), drop (min k n) rest, sys)"
| "seq_Read_loop name (Errno m e # sys) rest n =
     (if m = EINTR then seq_Read_loop name sys rest n else (PosixError name m e, None, rest, sys))"

definition seq_Read :: "seq_file \<Rightarrow> nat \<Rightarrow> bytes \<Rightarrow> status \<times> bytes \<times> seq_file" where
  "seq_Read f n result =
     (case seq_Read_loop (seq_name f) (seq_script f) (unread f) n of
        (s, r, rest, sys) \<Rightarrow>
          (s, case r of None \<Rightarrow> result | Some r \<Rightarrow> r, f\<lparr>unread := rest, seq_script := sys\<rparr>))"

definition seq_Skip :: "seq_file \<Rightarrow> nat \<Rightarrow> status \<times> seq_file" where
  "seq_Skip f n =
     (case seq_script f of
        Errno m e # sys \<Rightarrow> (PosixError (seq_name f) m e, f\<lparr>seq_script := sys\<rparr>)
      | _ # sys \<Rightarrow> (OK, f\<lparr>unread := drop n (unread f), seq_script := sys\<rparr>)
      | [] \<Rightarrow> (OK, f\<lparr>unread := drop n (unread f)\<rparr>))"

lemma seq_Read_loop_splits:
  "seq_Read_loop name sys rest n = (s, r, rest', sys') \<Longrightarrow>
     (if ok s then \<exists>d. r = Some d \<and> rest = d @ rest' \<and> length d \<le> n else r = None \<and> rest' = rest)"
  by (induction name sys rest n rule: seq_Read_loop.induct) (auto split: if_splits)

lemma seq_Read_splits:
  assumes "seq_Read f n x = (s, d, f')"
  shows "if ok s then unread f = d @ unread f' \<and> length d \<le> n else d = x \<and> unread f' = unread f"
proof -
  obtain s1 r rest sys where l: "seq_Read_loop (seq_name f) (seq_script f) (unread f) n = (s1, r, rest, sys)"
    by (metis prod.exhaust)
  with assms have "s1 = s" "d = (case r of None \<Rightarrow> x | Some r \<Rightarrow> r)" "unread f' = rest"
    by (auto simp: seq_Read_def)
  with seq_Read_loop_splits [OF l] show ?thesis by (auto split: if_splits)
qed

end
