(* ===== verification/Ldb_Log.thy ===== *)
theory Ldb_Log
  imports Ldb_Crc32c Ldb_Env
begin

text \<open>
  \<open>leveldb-library/db/log_writer.cc\<close> and \<open>log_reader.cc\<close>: the write-ahead log. Records are cut into
  fragments that fit into blocks of 32768 bytes, each with a checksum, and put together again by the
  reader, which resynchronises at block boundaries. The address of a fragment in memory, on which
  the code of the checksum depends but its value does not, is zero throughout.
\<close>

section \<open>The format\<close>

definition kZeroType :: u32 where "kZeroType = 0"
definition kFullType :: u32 where "kFullType = 1"
definition kFirstType :: u32 where "kFirstType = 2"
definition kMiddleType :: u32 where "kMiddleType = 3"
definition kLastType :: u32 where "kLastType = 4"
definition kMaxRecordType :: u32 where "kMaxRecordType = kLastType"
definition kBlockSize :: nat where "kBlockSize = 32768"
definition kHeaderSize :: nat where "kHeaderSize = 4 + 2 + 1"

text \<open>The two special values of the reader.\<close>

definition kEof :: u32 where "kEof = kMaxRecordType + 1"
definition kBadRecord :: u32 where "kBadRecord = kMaxRecordType + 2"

lemmas type_defs = kZeroType_def kFullType_def kFirstType_def kMiddleType_def kLastType_def kMaxRecordType_def
  kEof_def kBadRecord_def

section \<open>The writer\<close>

record 'f log_writer =
  log_dest :: 'f
  block_offset :: nat
  type_crc :: "u32 list"

definition InitTypeCrc :: "u32 list" where
  "InitTypeCrc = map (\<lambda>i. crc_Value 0 [word_of_nat i]) [0..<Suc (unat kMaxRecordType)]"

definition log_Writer :: "'f \<Rightarrow> nat \<Rightarrow> 'f log_writer" where
  "log_Writer dest dest_length = \<lparr>log_dest = dest, block_offset = dest_length mod kBlockSize, type_crc = InitTypeCrc\<rparr>"

definition EmitPhysicalRecord :: "'f file_ops \<Rightarrow> 'f log_writer \<Rightarrow> u32 \<Rightarrow> bytes \<Rightarrow> status \<times> 'f log_writer" where
  "EmitPhysicalRecord ops w t ptr =
     (let crc = crc_Mask (Extend 0 (type_crc w ! unat t) ptr);
          buf = EncodeFixed32 crc @ [word_of_nat (length ptr mod 256), word_of_nat (length ptr div 256), ucast t];
          (s, f) = Append ops (log_dest w) buf;
          (s, f) =
            (if ok s then
               case Append ops f ptr of (s, f) \<Rightarrow> if ok s then Flush ops f else (s, f)
             else (s, f))
      in (s, w\<lparr>log_dest := f, block_offset := block_offset w + kHeaderSize + length ptr\<rparr>))"

text \<open>The start of an iteration: a block without room for a header is filled up and left.\<close>

definition switch_block :: "'f file_ops \<Rightarrow> 'f log_writer \<Rightarrow> 'f log_writer" where
  "switch_block ops w =
     (let leftover = kBlockSize - block_offset w in
      if leftover < kHeaderSize then
        let f = (if leftover > 0 then snd (Append ops (log_dest w) (replicate leftover 0)) else log_dest w)
        in w\<lparr>log_dest := f, block_offset := 0\<rparr>
      else w)"

definition fragment_type :: "bool \<Rightarrow> bool \<Rightarrow> u32" where
  "fragment_type first last_one =
     (if first \<and> last_one then kFullType else if first then kFirstType else if last_one then kLastType else kMiddleType)"

lemma switch_block_offset:
  "block_offset (switch_block ops w) = (if kBlockSize - block_offset w < kHeaderSize then 0 else block_offset w)"
  by (simp add: switch_block_def Let_def)

lemma Emit_offset: "EmitPhysicalRecord ops w t p = (s, w') \<Longrightarrow> block_offset w' = block_offset w + kHeaderSize + length p"
  by (auto simp: EmitPhysicalRecord_def Let_def split: prod.splits if_splits)

function AddRecord_loop :: "'f file_ops \<Rightarrow> 'f log_writer \<Rightarrow> bool \<Rightarrow> bytes \<Rightarrow> status \<times> 'f log_writer" where
  "AddRecord_loop ops w first data =
     (let w = switch_block ops w;
          avail = kBlockSize - block_offset w - kHeaderSize;
          fragment_length = (if length data < avail then length data else avail);
          last_one = (length data = fragment_length);
          (s, w) = EmitPhysicalRecord ops w (fragment_type first last_one) (take fragment_length data);
          data = drop fragment_length data
      in if ok s \<and> data \<noteq> [] then AddRecord_loop ops w False data else (s, w))"
  by pat_completeness auto
termination
proof (relation "measure (\<lambda>(ops, w, first, data). 2 * length data + (if kBlockSize - block_offset w = kHeaderSize then 1 else 0))",
    goal_cases)
  case (2 ops w first data w1 avail len last_one p s w' data')
  have off: "block_offset w' = block_offset w1 + kHeaderSize + length (take len data)"
    using 2(5,6) Emit_offset by metis
  have w1: "block_offset w1 = (if kBlockSize - block_offset w < kHeaderSize then 0 else block_offset w)"
    using 2(1) switch_block_offset by metis
  have d: "length data' = length data - len" "data \<noteq> []" "len < length data" using 2(7,8) by auto
  then have len: "len = avail" using 2(3) by (auto split: if_splits)
  show ?case
  proof (cases "avail = 0")
    case True
    then have "kBlockSize - block_offset w = kHeaderSize" "kBlockSize - block_offset w' = 0"
      using 2(2) w1 off len by (auto simp: kBlockSize_def kHeaderSize_def split: if_splits)
    with True len d show ?thesis by (simp add: kHeaderSize_def)
  next
    case False
    with len d show ?thesis by (auto simp: kHeaderSize_def)
  qed
qed simp

declare AddRecord_loop.simps [simp del]

definition AddRecord :: "'f file_ops \<Rightarrow> 'f log_writer \<Rightarrow> slice \<Rightarrow> status \<times> 'f log_writer" where
  "AddRecord ops w data = AddRecord_loop ops w True data"

section \<open>The reader\<close>

record log_reader =
  log_file :: seq_file
  has_reporter :: bool
  reports :: "(u64 \<times> status) list"
  check_crc :: bool
  log_buffer :: bytes
  at_eof :: bool
  last_record_offset :: u64
  end_of_buffer_offset :: u64
  start_offset :: u64
  resyncing :: bool

definition log_Reader :: "seq_file \<Rightarrow> bool \<Rightarrow> bool \<Rightarrow> u64 \<Rightarrow> log_reader" where
  "log_Reader file reporter checksum initial_offset =
     \<lparr>log_file = file, has_reporter = reporter, reports = [], check_crc = checksum, log_buffer = [], at_eof = False,
      last_record_offset = 0, end_of_buffer_offset = 0, start_offset = initial_offset,
      resyncing = (initial_offset > 0)\<rparr>"

text \<open>\<open>reports\<close> collects the calls of \<open>reporter_->Corruption\<close>.\<close>

definition ReportDrop :: "u64 \<Rightarrow> status \<Rightarrow> log_reader \<Rightarrow> log_reader" where
  "ReportDrop n reason r =
     (if has_reporter r \<and> end_of_buffer_offset r - word_of_nat (length (log_buffer r)) - n \<ge> start_offset r
      then r\<lparr>reports := reports r @ [(n, reason)]\<rparr> else r)"

definition ReportCorruption :: "u64 \<Rightarrow> string \<Rightarrow> log_reader \<Rightarrow> log_reader" where
  "ReportCorruption n reason r = ReportDrop n (Corruption reason []) r"

definition SkipToInitialBlock :: "log_reader \<Rightarrow> bool \<times> log_reader" where
  "SkipToInitialBlock r =
     (let offset_in_block = start_offset r mod word_of_nat kBlockSize;
          block_start_location = start_offset r - offset_in_block;
          block_start_location =
            (if offset_in_block > word_of_nat kBlockSize - 6 then block_start_location + word_of_nat kBlockSize
             else block_start_location);
          r = r\<lparr>end_of_buffer_offset := block_start_location\<rparr>
      in if block_start_location > 0 then
           case seq_Skip (log_file r) (unat block_start_location) of (s, f) \<Rightarrow>
             let r = r\<lparr>log_file := f\<rparr> in
             if \<not> ok s then (False, ReportDrop block_start_location s r) else (True, r)
         else (True, r))"

text \<open>
  \<open>refill\<close> is the part of the loop that reads the next block; its result is \<open>kEof\<close> or that the loop
  goes on.
\<close>

definition refill :: "log_reader \<Rightarrow> u32 option \<times> log_reader" where
  "refill r =
     (if \<not> at_eof r then
        let r = r\<lparr>log_buffer := []\<rparr>;
            (s, b, f) = seq_Read (log_file r) kBlockSize (log_buffer r);
            r = r\<lparr>log_file := f, log_buffer := b, end_of_buffer_offset := end_of_buffer_offset r + word_of_nat (length b)\<rparr>
        in if \<not> ok s then
             let r = r\<lparr>log_buffer := []\<rparr>; r = ReportDrop (word_of_nat kBlockSize) s r
             in (Some kEof, r\<lparr>at_eof := True\<rparr>)
           else if length (log_buffer r) < kBlockSize then (None, r\<lparr>at_eof := True\<rparr>)
           else (None, r)
      else (Some kEof, r\<lparr>log_buffer := []\<rparr>))"

text \<open>Parsing and checking the physical record at the start of the buffer.\<close>

definition parse_physical :: "bytes \<Rightarrow> log_reader \<Rightarrow> u32 \<times> bytes \<times> log_reader" where
  "parse_physical result r =
     (let header = log_buffer r;
          t = (scast (header ! 6) :: u32);
          len = unat (header ! 4) + 256 * unat (header ! 5)
      in if length (log_buffer r) < kHeaderSize + len then
           let drop_size = length (log_buffer r); r = r\<lparr>log_buffer := []\<rparr>
           in if \<not> at_eof r then (kBadRecord, result, ReportCorruption (word_of_nat drop_size) ''bad record length'' r)
              else (kEof, result, r)
         else if t = kZeroType \<and> len = 0 then (kBadRecord, result, r\<lparr>log_buffer := []\<rparr>)
         else if check_crc r \<and>
             crc_Value 0 (take (1 + len) (drop 6 header)) \<noteq> crc_Unmask (DecodeFixed32 header) then
           let drop_size = length (log_buffer r); r = r\<lparr>log_buffer := []\<rparr>
           in (kBadRecord, result, ReportCorruption (word_of_nat drop_size) ''checksum mismatch'' r)
         else
           let r = r\<lparr>log_buffer := drop (kHeaderSize + len) (log_buffer r)\<rparr>
           in if end_of_buffer_offset r - word_of_nat (length (log_buffer r)) - word_of_nat kHeaderSize - word_of_nat len
                 < start_offset r
              then (kBadRecord, [], r)
              else (t, take len (drop kHeaderSize header), r))"

lemma refill_progress:
  "refill r = (None, r') \<Longrightarrow> \<not> at_eof r \<and> (at_eof r' \<or> kHeaderSize \<le> length (log_buffer r'))"
  by (auto simp: refill_def Let_def kBlockSize_def kHeaderSize_def split: if_splits prod.splits)

function ReadPhysicalRecord :: "bytes \<Rightarrow> log_reader \<Rightarrow> u32 \<times> bytes \<times> log_reader" where
  "ReadPhysicalRecord result r =
     (if length (log_buffer r) < kHeaderSize then
        case refill r of (None, r) \<Rightarrow> ReadPhysicalRecord result r | (Some t, r) \<Rightarrow> (t, result, r)
      else parse_physical result r)"
  by pat_completeness auto
termination
  by (relation "measure (\<lambda>(result, r). (if at_eof r then 0 else 1) + (if length (log_buffer r) < kHeaderSize then 1 else 0))")
    (auto dest!: refill_progress [OF sym])

declare ReadPhysicalRecord.simps [simp del]

text \<open>What is left to be read: it shrinks with every physical record.\<close>

definition pending :: "log_reader \<Rightarrow> nat" where
  "pending r = length (log_buffer r) + length (unread (log_file r))"

lemma ReportDrop_fields [simp]:
  "log_buffer (ReportDrop n s r) = log_buffer r" "log_file (ReportDrop n s r) = log_file r" "at_eof (ReportDrop n s r) = at_eof r"
  "log_buffer (ReportCorruption n m r) = log_buffer r" "log_file (ReportCorruption n m r) = log_file r"
  "at_eof (ReportCorruption n m r) = at_eof r"
  by (simp_all add: ReportDrop_def ReportCorruption_def)

lemma refill_pending:
  assumes "refill r = (t, r')"
  shows "pending r' \<le> pending r \<and> (t = None \<or> t = Some kEof)"
proof (cases "at_eof r")
  case False
  obtain s b f where rd: "seq_Read (log_file r) kBlockSize [] = (s, b, f)" by (metis prod.exhaust)
  show ?thesis
    using assms False seq_Read_splits [OF rd]
    by (auto simp: refill_def rd pending_def Let_def split: if_splits)
qed (use assms in \<open>auto simp: refill_def pending_def\<close>)

lemma parse_pending:
  "parse_physical x r = (t, x', r') \<Longrightarrow> kHeaderSize \<le> length (log_buffer r) \<Longrightarrow> pending r' < pending r"
  by (auto simp: parse_physical_def pending_def Let_def kHeaderSize_def split: if_splits)

lemma ReadPhysicalRecord_pending:
  "ReadPhysicalRecord x r = (t, x', r') \<Longrightarrow> t \<noteq> kEof \<Longrightarrow> pending r' < pending r"
proof (induction x r rule: ReadPhysicalRecord.induct)
  case (1 x r)
  show ?case
  proof (cases "length (log_buffer r) < kHeaderSize")
    case True
    obtain u r1 where f: "refill r = (u, r1)" by fastforce
    note le = refill_pending [OF f]
    with True f 1(2,3) have n: "u = None" and go: "ReadPhysicalRecord x r1 = (t, x', r')"
      by (auto simp: ReadPhysicalRecord.simps [of x r] split: option.splits)
    from 1(1) [OF True f [symmetric] n go 1(3)] le show ?thesis by simp
  next
    case False
    with 1(2) parse_pending [of x r] show ?thesis by (simp add: ReadPhysicalRecord.simps [of x r])
  qed
qed

fun show_nat :: "nat \<Rightarrow> string" where
  "show_nat n = (if n < 10 then [char_of (48 + n)] else show_nat (n div 10) @ [char_of (48 + n mod 10)])"

declare show_nat.simps [simp del]

lemma pending_fields [simp]:
  "pending (r\<lparr>resyncing := b\<rparr>) = pending r" "pending (r\<lparr>last_record_offset := n\<rparr>) = pending r"
  "pending (ReportCorruption m e r) = pending r"
  by (simp_all add: pending_def)

text \<open>The loop of \<open>ReadRecord\<close>; \<open>None\<close> is its result \<open>false\<close>.\<close>

function ReadRecord_loop :: "bytes \<Rightarrow> bytes \<Rightarrow> bool \<Rightarrow> u64 \<Rightarrow> log_reader \<Rightarrow> bytes option \<times> log_reader" where
  "ReadRecord_loop fragment scratch in_fragmented_record prospective r =
     (case ReadPhysicalRecord fragment r of (t, fragment, r) \<Rightarrow>
      let physical_record_offset = end_of_buffer_offset r - word_of_nat (length (log_buffer r))
            - word_of_nat kHeaderSize - word_of_nat (length fragment)
      in if resyncing r \<and> t = kMiddleType then ReadRecord_loop fragment scratch in_fragmented_record prospective r
      else if resyncing r \<and> t = kLastType then
        ReadRecord_loop fragment scratch in_fragmented_record prospective (r\<lparr>resyncing := False\<rparr>)
      else let r = r\<lparr>resyncing := False\<rparr> in
        if t = kFullType then
          let r = (if in_fragmented_record \<and> scratch \<noteq> []
                   then ReportCorruption (word_of_nat (length scratch)) ''partial record without end(1)'' r else r)
          in (Some fragment, r\<lparr>last_record_offset := physical_record_offset\<rparr>)
        else if t = kFirstType then
          let r = (if in_fragmented_record \<and> scratch \<noteq> []
                   then ReportCorruption (word_of_nat (length scratch)) ''partial record without end(2)'' r else r)
          in ReadRecord_loop fragment fragment True physical_record_offset r
        else if t = kMiddleType then
          if \<not> in_fragmented_record then
            ReadRecord_loop fragment scratch in_fragmented_record prospective
              (ReportCorruption (word_of_nat (length fragment)) ''missing start of fragmented record(1)'' r)
          else ReadRecord_loop fragment (scratch @ fragment) in_fragmented_record prospective r
        else if t = kLastType then
          if \<not> in_fragmented_record then
            ReadRecord_loop fragment scratch in_fragmented_record prospective
              (ReportCorruption (word_of_nat (length fragment)) ''missing start of fragmented record(2)'' r)
          else (Some (scratch @ fragment), r\<lparr>last_record_offset := prospective\<rparr>)
        else if t = kEof then (None, r)
        else if t = kBadRecord then
          if in_fragmented_record then
            ReadRecord_loop fragment [] False prospective
              (ReportCorruption (word_of_nat (length scratch)) ''error in middle of record'' r)
          else ReadRecord_loop fragment scratch in_fragmented_record prospective r
        else
          ReadRecord_loop fragment [] False prospective
            (ReportCorruption (word_of_nat (length fragment + (if in_fragmented_record then length scratch else 0)))
              (''unknown record type '' @ show_nat (unat t)) r))"
  by pat_completeness auto
termination
  by (relation "measure (\<lambda>(fragment, scratch, in_frag, prospective, r). pending r)")
    (auto simp: type_defs dest!: ReadPhysicalRecord_pending [OF sym])

declare ReadRecord_loop.simps [simp del]

definition ReadRecord :: "log_reader \<Rightarrow> bytes option \<times> log_reader" where
  "ReadRecord r =
     (if last_record_offset r < start_offset r then
        case SkipToInitialBlock r of (done, r) \<Rightarrow> if done then ReadRecord_loop [] [] False 0 r else (None, r)
      else ReadRecord_loop [] [] False 0 r)"

text \<open>
  The way \<open>DBImpl::RecoverLogFile\<close> reads a log, until \<open>ReadRecord\<close> returns false: the records and
  the reader at the end.
\<close>

inductive log_reads :: "log_reader \<Rightarrow> bytes list \<Rightarrow> log_reader \<Rightarrow> bool" where
  log_done: "ReadRecord r = (None, r') \<Longrightarrow> log_reads r [] r'"
| log_more: "ReadRecord r = (Some x, r1) \<Longrightarrow> log_reads r1 xs r' \<Longrightarrow> log_reads r (x # xs) r'"

inductive_cases log_readsE: "log_reads r xs r'"

section \<open>What a log looks like\<close>

definition phys :: "u32 \<Rightarrow> bytes \<Rightarrow> bytes" where
  "phys t p = EncodeFixed32 (crc_Mask (crc32c (ucast t # p))) @
     [word_of_nat (length p mod 256), word_of_nat (length p div 256), ucast t] @ p"

definition next_start :: "nat \<Rightarrow> nat" where
  "next_start off = (if kBlockSize - off < kHeaderSize then 0 else off)"

definition padding :: "nat \<Rightarrow> bytes" where
  "padding off = (if kBlockSize - off < kHeaderSize then replicate (kBlockSize - off) 0 else [])"

fun log_bytes :: "nat \<Rightarrow> (u32 \<times> bytes) list \<Rightarrow> bytes" where
  "log_bytes off [] = []"
| "log_bytes off ((t, p) # cs) = padding off @ phys t p @ log_bytes (next_start off + kHeaderSize + length p) cs"

fun log_end :: "nat \<Rightarrow> (u32 \<times> bytes) list \<Rightarrow> nat" where
  "log_end off [] = off"
| "log_end off ((t, p) # cs) = log_end (next_start off + kHeaderSize + length p) cs"

text \<open>The fragments of a record that starts at an offset of a block.\<close>

function fragments :: "nat \<Rightarrow> bool \<Rightarrow> bytes \<Rightarrow> (u32 \<times> bytes) list" where
  "fragments off first data =
     (let n = min (length data) (kBlockSize - next_start off - kHeaderSize)
      in (fragment_type first (length data = n), take n data) #
         (if length data = n then [] else fragments (next_start off + kHeaderSize + n) False (drop n data)))"
  by pat_completeness auto
termination
  by (relation "measure (\<lambda>(off, first, data). 2 * length data + (if kBlockSize - off = kHeaderSize then 1 else 0))")
    (auto simp: next_start_def kBlockSize_def kHeaderSize_def min_def split: if_splits)

declare fragments.simps [simp del]

lemma kSizes [simp]: "kHeaderSize = 7" "kBlockSize = 32768"
  by (simp_all add: kHeaderSize_def kBlockSize_def)

lemma next_start_room: "off \<le> kBlockSize \<Longrightarrow> next_start off + kHeaderSize \<le> kBlockSize"
  by (auto simp: next_start_def)

lemma length_phys [simp]: "length (phys t p) = kHeaderSize + length p"
  by (simp add: phys_def)

section \<open>The writer writes it\<close>

lemma InitTypeCrc_nth: "t \<le> kMaxRecordType \<Longrightarrow> InitTypeCrc ! unat t = Extend 0 0 [ucast t]"
proof -
  assume "t \<le> kMaxRecordType"
  then have "unat t < Suc (unat kMaxRecordType)" by (simp add: word_le_nat_alt)
  then have "InitTypeCrc ! unat t = crc_Value 0 [word_of_nat (unat t)]" by (simp add: InitTypeCrc_def del: upt_Suc)
  then show ?thesis by (simp add: crc_Value_def)
qed

lemma type_crc_value: "t \<le> kMaxRecordType \<Longrightarrow> Extend 0 (InitTypeCrc ! unat t) p = crc32c (ucast t # p)"
  by (simp add: InitTypeCrc_nth Extend_append [where c = 0] flip: crc_Value_crc32c [where a = 0] add: crc_Value_def)

lemma fragment_type_le: "fragment_type a b \<le> kMaxRecordType"
  by (auto simp: fragment_type_def type_defs)

context writable_file
begin

lemma switch_spec:
  assumes "durable (log_dest w) = accepted (log_dest w)"
  shows "accepted (log_dest (switch_block ops w)) = accepted (log_dest w) @ padding (block_offset w)
    \<and> begins (durable (log_dest w)) (durable (log_dest (switch_block ops w)))
    \<and> block_offset (switch_block ops w) = next_start (block_offset w)
    \<and> type_crc (switch_block ops w) = type_crc w"
proof -
  let ?k = "kBlockSize - block_offset w"
  obtain s f where a: "Append ops (log_dest w) (replicate ?k 0) = (s, f)" by fastforce
  show ?thesis
  proof (cases "?k < kHeaderSize \<and> 0 < ?k")
    case True
    then have "ok s" using append_small [OF a assms] by simp
    with append_ok [OF a] append_grows [OF a] True a show ?thesis
      by (simp add: switch_block_def Let_def padding_def next_start_def)
  next
    case False
    then show ?thesis by (auto simp: switch_block_def Let_def padding_def next_start_def)
  qed
qed

lemma emit_spec:
  assumes e: "EmitPhysicalRecord ops w t p = (s, w')" and crc: "type_crc w = InitTypeCrc" and t: "t \<le> kMaxRecordType"
  shows "(if ok s then accepted (log_dest w') = accepted (log_dest w) @ phys t p
         \<and> durable (log_dest w') = accepted (log_dest w) @ phys t p
       else begins (durable (log_dest w')) (accepted (log_dest w) @ phys t p))
    \<and> begins (durable (log_dest w)) (durable (log_dest w'))
    \<and> block_offset w' = block_offset w + kHeaderSize + length p \<and> type_crc w' = type_crc w"
proof -
  define h where "h = EncodeFixed32 (crc_Mask (crc32c (ucast t # p))) @
     [word_of_nat (length p mod 256), word_of_nat (length p div 256), ucast t]"
  have ph: "phys t p = h @ p" by (simp add: phys_def h_def)
  obtain s1 f1 where a1: "Append ops (log_dest w) h = (s1, f1)" by fastforce
  obtain s2 f2 where a2: "Append ops f1 p = (s2, f2)" by fastforce
  obtain s3 f3 where a3: "Flush ops f2 = (s3, f3)" by fastforce
  have fields: "block_offset w' = block_offset w + kHeaderSize + length p \<and> type_crc w' = type_crc w"
    using e by (auto simp: EmitPhysicalRecord_def Let_def split: prod.splits if_splits)
  note def = e [unfolded EmitPhysicalRecord_def Let_def crc type_crc_value [OF t] h_def [symmetric] a1]
  note g1 = append_grows [OF a1] and g2 = append_grows [OF a2] and g3 = flush_grows [OF a3]
  show ?thesis
  proof (cases "ok s1")
    case False
    with def have "s = s1" "log_dest w' = f1" by auto
    with False append_error [OF a1] g1 fields show ?thesis unfolding ph by (metis append_assoc begins_extend)
  next
    case 1: True
    note acc1 = append_ok [OF a1 1]
    show ?thesis
    proof (cases "ok s2")
      case False
      with def 1 a2 have "s = s2" "log_dest w' = f2" by auto
      with False append_error [OF a2] acc1 begins_trans [OF g1 g2] fields show ?thesis unfolding ph by simp
    next
      case 2: True
      with def 1 a2 a3 have w': "s = s3" "log_dest w' = f3" by auto
      have acc2: "accepted f2 = accepted (log_dest w) @ phys t p" using append_ok [OF a2 2] acc1 by (simp add: ph)
      from begins_trans [OF begins_trans [OF g1 g2] g3] flush_ok [OF a3] flush_error [OF a3] fields w' acc2
      show ?thesis by simp
    qed
  qed
qed

lemma AddRecord_loop_spec:
  "\<lbrakk>AddRecord_loop ops w first data = (s, w'); durable (log_dest w) = accepted (log_dest w); type_crc w = InitTypeCrc;
    block_offset w = off; off \<le> kBlockSize\<rbrakk> \<Longrightarrow>
   (if ok s then accepted (log_dest w') = accepted (log_dest w) @ log_bytes off (fragments off first data)
        \<and> durable (log_dest w') = accepted (log_dest w')
        \<and> block_offset w' = log_end off (fragments off first data)
        \<and> block_offset w' \<le> kBlockSize \<and> type_crc w' = InitTypeCrc
      else begins (durable (log_dest w')) (accepted (log_dest w) @ log_bytes off (fragments off first data)))
   \<and> begins (durable (log_dest w)) (durable (log_dest w'))"
proof (induction off first data arbitrary: w rule: fragments.induct)
  case (1 off first data)
  define w1 where "w1 = switch_block ops w"
  define n where "n = min (length data) (kBlockSize - next_start off - kHeaderSize)"
  define t where "t = fragment_type first (length data = n)"
  let ?acc = "accepted (log_dest w)"
  have sw: "accepted (log_dest w1) = ?acc @ padding off" "begins (durable (log_dest w)) (durable (log_dest w1))"
    "block_offset w1 = next_start off" "type_crc w1 = InitTypeCrc"
    using switch_spec [OF "1.prems"(2)] "1.prems"(3,4) by (simp_all add: w1_def)
  have n': "n = (if length data < kBlockSize - block_offset w1 - kHeaderSize then length data
      else kBlockSize - block_offset w1 - kHeaderSize)" by (simp add: n_def sw(3) min_def)
  obtain s2 w2 where em: "EmitPhysicalRecord ops w1 t (take n data) = (s2, w2)" by fastforce
  have nl: "length (take n data) = n" and mn: "min (length data) n = n" by (simp_all add: n_def)
  note E = emit_spec [OF em sw(4) fragment_type_le [of first "length data = n", folded t_def], unfolded sw nl]
  have grow: "begins (durable (log_dest w)) (durable (log_dest w2))" using E begins_trans [OF sw(2)] by blast
  let ?frs = "fragments (next_start off + kHeaderSize + n) False (drop n data)"
  have frs: "fragments off first data = (t, take n data) # (if length data = n then [] else ?frs)"
    unfolding t_def by (subst fragments.simps) (simp only: n_def [symmetric] Let_def)
  have bound: "next_start off + kHeaderSize + n \<le> kBlockSize"
    using next_start_room [OF "1.prems"(5)] by (simp add: n_def)
  have step: "AddRecord_loop ops w first data =
      (if ok s2 \<and> drop n data \<noteq> [] then AddRecord_loop ops w2 False (drop n data) else (s2, w2))"
    by (subst AddRecord_loop.simps) (simp only: Let_def w1_def [symmetric] n' [symmetric] t_def [symmetric] em prod.case)
  have rest: "drop n data = [] \<longleftrightarrow> length data = n" by (auto simp: n_def)
  show ?case
  proof (cases "ok s2 \<and> drop n data \<noteq> []")
    case True
    with "1.prems"(1) step have go: "AddRecord_loop ops w2 False (drop n data) = (s, w')" by simp
    have w2: "accepted (log_dest w2) = ?acc @ padding off @ phys t (take n data)"
      "durable (log_dest w2) = accepted (log_dest w2)" "type_crc w2 = InitTypeCrc"
      "block_offset w2 = next_start off + kHeaderSize + n"
      using E True by simp_all
    have "length data \<noteq> n" using True rest by simp
    from "1.IH" [OF n_def this go w2(2-4) bound] E begins_trans [OF sw(2)] \<open>length data \<noteq> n\<close>
    show ?thesis unfolding frs by (auto simp: w2(1) mn split: if_splits intro: begins_trans)
  next
    case False
    with "1.prems"(1) step have w': "s = s2" "w' = w2" by (auto split: if_splits)
    show ?thesis
    proof (cases "ok s2")
      case True
      with False rest have "length data = n" by simp
      with True w' E grow bound show ?thesis unfolding frs by (simp add: mn)
    next
      case False
      then have "begins (durable (log_dest w')) (?acc @ padding off @ phys t (take n data))"
        using E w' by simp
      with begins_extend False w' grow show ?thesis unfolding frs by (fastforce simp: mn)
    qed
  qed
qed

end

section \<open>The reader reads it\<close>

text \<open>
  A reader that has come to offset \<open>off\<close> of a block, with \<open>rest\<close> behind it; the buffer holds what is
  left of the block. A new reader is at the end of a block.
\<close>

definition at_position :: "log_reader \<Rightarrow> nat \<Rightarrow> bytes \<Rightarrow> bool" where
  "at_position r off rest \<longleftrightarrow> off \<le> kBlockSize \<and> seq_script (log_file r) = []
     \<and> log_buffer r = take (kBlockSize - off) rest \<and> unread (log_file r) = drop (kBlockSize - off) rest
     \<and> (at_eof r \<longleftrightarrow> length rest < kBlockSize - off) \<and> start_offset r = 0 \<and> \<not> resyncing r"

lemma Reader_at_start:
  "seq_script file = [] \<Longrightarrow> at_position (log_Reader file rep crc 0) kBlockSize (unread file)"
  by (simp add: at_position_def log_Reader_def)

text \<open>Refilling at the end of a block, or at the end of the file.\<close>

lemma refill_block:
  assumes "at_position r off rest" and "kBlockSize - off < kHeaderSize" and "\<not> at_eof r"
  shows "\<exists>r'. refill r = (None, r') \<and> at_position r' 0 (drop (kBlockSize - off) rest) \<and> reports r' = reports r"
  using assms
  by (auto simp: refill_def at_position_def seq_Read_def Let_def OK_def ok_def min_def)

lemma refill_eof: "at_eof r \<Longrightarrow> refill r = (Some kEof, r\<lparr>log_buffer := []\<rparr>)"
  by (simp add: refill_def)

text \<open>
  Reading goes on at the start of the next block when there is no room for a header: the padding is
  passed over.
\<close>

lemma read_padding:
  assumes "at_position r off (padding off @ rest)"
  shows "\<exists>r'. ReadPhysicalRecord x r = ReadPhysicalRecord x r' \<and> at_position r' (next_start off) rest
    \<and> reports r' = reports r"
proof (cases "kBlockSize - off < kHeaderSize")
  case True
  then have pad: "padding off = replicate (kBlockSize - off) 0" "next_start off = 0"
    by (simp_all add: padding_def next_start_def)
  with assms have "\<not> at_eof r" "length (log_buffer r) < kHeaderSize"
    using True by (auto simp: at_position_def)
  with refill_block [OF assms True] pad show ?thesis
    by (subst ReadPhysicalRecord.simps) auto
next
  case False
  then have "padding off = []" "next_start off = off" by (simp_all add: padding_def next_start_def)
  with assms show ?thesis by auto
qed

lemma word_bytes_length: "n < 65536 \<Longrightarrow> unat (word_of_nat (n mod 256) :: u8) + 256 * unat (word_of_nat (n div 256) :: u8) = n"
  by (simp add: unat_byte_of_nat)

lemma scast_type: "t \<le> kMaxRecordType \<Longrightarrow> scast (ucast t :: u8) = t"
proof -
  assume "t \<le> kMaxRecordType"
  then have "unat t < 5" by (simp add: word_le_nat_alt type_defs)
  then have "unat t \<in> {0, 1, 2, 3, 4}" by auto
  then have "t \<in> {0, 1, 2, 3, 4}" by (simp add: word_unat_eq_iff)
  then show ?thesis by auto
qed

text \<open>A whole fragment.\<close>

lemma phys_header:
  assumes "t \<le> kMaxRecordType" and "length p < 65536"
  shows "scast ((phys t p @ rest) ! 6) = t"
    and "unat ((phys t p @ rest) ! 4) + 256 * unat ((phys t p @ rest) ! 5) = length p"
    and "DecodeFixed32 (phys t p @ rest) = crc_Mask (crc32c (ucast t # p))"
    and "take (1 + length p) (drop 6 (phys t p @ rest)) = ucast t # p"
    and "take (length p) (drop kHeaderSize (phys t p @ rest)) = p"
    and "drop (kHeaderSize + length p) (phys t p @ rest) = rest"
proof -
  have "drop (length (phys t p)) (phys t p @ rest) = rest" by simp
  then show "drop (kHeaderSize + length p) (phys t p @ rest) = rest" unfolding length_phys .
qed (use assms in \<open>simp_all add: phys_def nth_append scast_type word_bytes_length\<close>)

lemma parse_whole:
  assumes at: "at_position r off (phys t p @ rest)" and room: "off + kHeaderSize + length p \<le> kBlockSize"
    and t: "t \<le> kMaxRecordType" "t \<noteq> kZeroType"
  shows "\<exists>r'. parse_physical x r = (t, p, r') \<and> at_position r' (off + kHeaderSize + length p) rest
    \<and> reports r' = reports r"
proof -
  define more where "more = take (kBlockSize - off - kHeaderSize - length p) rest"
  define r1 where "r1 = r\<lparr>log_buffer := more\<rparr>"
  have buf: "log_buffer r = phys t p @ more"
    using at room by (simp add: at_position_def more_def)
  have len: "length p < 65536" using room by simp
  note h = phys_header [OF t(1) len, of more]
  have crc: "crc_Value 0 (take (1 + length p) (drop 6 (phys t p @ more))) = crc_Unmask (DecodeFixed32 (phys t p @ more))"
    unfolding h by (simp add: crc_Value_crc32c)
  have "parse_physical x r = (t, p, r1)"
    unfolding parse_physical_def Let_def buf h(1,2) using h(5,6) crc t(2) at
    by (simp add: r1_def at_position_def)
  moreover have "at_position r1 (off + kHeaderSize + length p) rest"
    using at room by (auto simp: at_position_def r1_def more_def)
  ultimately show ?thesis by (auto simp: r1_def)
qed

lemma read_whole:
  assumes at: "at_position r off (padding off @ phys t p @ rest)" and room: "next_start off + kHeaderSize + length p \<le> kBlockSize"
    and t: "t \<le> kMaxRecordType" "t \<noteq> kZeroType"
  shows "\<exists>r'. ReadPhysicalRecord x r = (t, p, r') \<and> at_position r' (next_start off + kHeaderSize + length p) rest
    \<and> reports r' = reports r"
proof -
  obtain r1 where r1: "ReadPhysicalRecord x r = ReadPhysicalRecord x r1" "at_position r1 (next_start off) (phys t p @ rest)"
    "reports r1 = reports r" using read_padding [OF at] by blast
  then have "\<not> length (log_buffer r1) < kHeaderSize" using room by (simp add: at_position_def)
  then have "ReadPhysicalRecord x r1 = parse_physical x r1" by (simp add: ReadPhysicalRecord.simps [of x r1])
  with parse_whole [OF r1(2) room t, of x] r1 show ?thesis by auto
qed

text \<open>A fragment that is cut off by the end of the file is the end of the log.\<close>

lemma read_cut_fragment:
  assumes at: "at_position r off q" and room: "off + kHeaderSize + length p \<le> kBlockSize"
    and cut: "phys t p = q @ z" "z \<noteq> []" and t: "t \<le> kMaxRecordType"
  shows "\<exists>r'. ReadPhysicalRecord x r = (kEof, x, r') \<and> reports r' = reports r \<and> \<not> resyncing r'"
proof -
  have len: "length q < kHeaderSize + length p" using arg_cong [OF cut(1), of length] cut(2) by (cases z) auto
  then have e: "at_eof r" "log_buffer r = q" "\<not> resyncing r" using at room by (auto simp: at_position_def)
  show ?thesis
  proof (cases "length q < kHeaderSize")
    case True
    with e refill_eof [OF e(1)] show ?thesis by (simp add: ReadPhysicalRecord.simps [of x r])
  next
    case False
    have "length p < 65536" using room by simp
    note h = phys_header(2) [OF t this, of "[]"]
    have "unat (q ! 4) + 256 * unat (q ! 5) = length p"
      using h False by (simp add: cut(1) nth_append)
    with False e len have "parse_physical x r = (kEof, x, r\<lparr>log_buffer := []\<rparr>)" by (simp add: parse_physical_def Let_def)
    with False e show ?thesis by (simp add: ReadPhysicalRecord.simps [of x r])
  qed
qed

lemma read_cut:
  assumes at: "at_position r off q" and room: "next_start off + kHeaderSize + length p \<le> kBlockSize"
    and cut: "padding off @ phys t p = q @ z" "z \<noteq> []" and t: "t \<le> kMaxRecordType"
  shows "\<exists>r'. ReadPhysicalRecord x r = (kEof, x, r') \<and> reports r' = reports r \<and> \<not> resyncing r'"
proof (cases "length q < length (padding off)")
  case True
  then have "kBlockSize - off < kHeaderSize" "length q < kBlockSize - off"
    by (auto simp: padding_def split: if_splits)
  with at have e: "at_eof r" "length (log_buffer r) < kHeaderSize" "\<not> resyncing r" by (auto simp: at_position_def)
  with refill_eof [OF e(1)] show ?thesis by (simp add: ReadPhysicalRecord.simps [of x r])
next
  case False
  then obtain q' where q: "q = padding off @ q'" "phys t p = q' @ z"
    using cut(1) by (auto simp: append_eq_append_conv2)
  from read_padding [OF at [unfolded q(1)], of x] obtain r1 where
    "ReadPhysicalRecord x r = ReadPhysicalRecord x r1" "at_position r1 (next_start off) q'" "reports r1 = reports r" by blast
  with read_cut_fragment [OF _ room q(2) cut(2) t] show ?thesis by metis
qed

lemma read_end:
  assumes at: "at_position r off []"
  shows "\<exists>r'. ReadPhysicalRecord x r = (kEof, x, r') \<and> reports r' = reports r \<and> \<not> resyncing r'"
proof -
  have eof: "\<exists>r'. ReadPhysicalRecord x r = (kEof, x, r') \<and> reports r' = reports r \<and> \<not> resyncing r'"
    if "at_position r off []" "at_eof r" for r off
    using that refill_eof [OF that(2)] by (simp add: ReadPhysicalRecord.simps [of x r] at_position_def)
  show ?thesis
  proof (cases "at_eof r")
    case False
    then have "kBlockSize - off < kHeaderSize" "log_buffer r = []" using at by (simp_all add: at_position_def)
    with refill_block [OF at _ False] obtain r1 where
      r1: "refill r = (None, r1)" "at_position r1 0 []" "reports r1 = reports r" by auto
    then have "ReadPhysicalRecord x r = ReadPhysicalRecord x r1"
      using \<open>log_buffer r = []\<close> by (simp add: ReadPhysicalRecord.simps [of x r])
    moreover have "at_eof r1" using r1(2) by (simp add: at_position_def)
    ultimately show ?thesis using eof [OF r1(2)] r1(3) by simp
  qed (rule eof [OF at])
qed

section \<open>Records\<close>

lemma fragment_types:
  "fragment_type a b \<noteq> kZeroType" "fragment_type True True = kFullType" "fragment_type True False = kFirstType"
  "fragment_type False True = kLastType" "fragment_type False False = kMiddleType"
  by (auto simp: fragment_type_def type_defs)

lemma type_distinct [simp]:
  "kFirstType \<noteq> kFullType" "kMiddleType \<noteq> kFullType" "kMiddleType \<noteq> kFirstType" "kLastType \<noteq> kFullType"
  "kLastType \<noteq> kFirstType" "kLastType \<noteq> kMiddleType" "kEof \<noteq> kFullType" "kEof \<noteq> kFirstType" "kEof \<noteq> kMiddleType"
  "kEof \<noteq> kLastType"
  by (simp_all add: type_defs)

lemma loop_eof:
  assumes "ReadPhysicalRecord x r = (kEof, x', r')" and "\<not> resyncing r'"
  shows "ReadRecord_loop x scratch frag pro r = (None, r'\<lparr>resyncing := False\<rparr>)"
  using assms by (simp add: ReadRecord_loop.simps [of x])

lemma at_position_update [simp]:
  "at_position (r\<lparr>last_record_offset := n\<rparr>) off rest \<longleftrightarrow> at_position r off rest"
  by (simp add: at_position_def)

lemma at_position_no_resync: "at_position r off rest \<Longrightarrow> r\<lparr>resyncing := False\<rparr> = r"
  by (simp add: at_position_def)

text \<open>One round of the loop over the fragments of a record.\<close>

lemma loop_round:
  assumes p: "ReadPhysicalRecord x r = (fragment_type first last_one, d, r1)" and at: "at_position r1 off rest"
    and s: "first \<longrightarrow> scratch = []"
  shows "\<exists>r2 pro'. at_position r2 off rest \<and> reports r2 = reports r1 \<and>
    ReadRecord_loop x scratch (\<not> first) pro r =
      (if last_one then (Some (scratch @ d), r2) else ReadRecord_loop d (scratch @ d) True pro' r2)"
proof -
  let ?off = "end_of_buffer_offset r1 - word_of_nat (length (log_buffer r1)) - word_of_nat kHeaderSize - word_of_nat (length d)"
  have "\<not> resyncing r1" using at by (simp add: at_position_def)
  note go = ReadRecord_loop.simps [of x scratch "\<not> first" pro r, unfolded p prod.case Let_def at_position_no_resync [OF at]]
  show ?thesis
  proof (cases last_one)
    case True
    show ?thesis
    proof (cases first)
      case f: True
      with go True s \<open>\<not> resyncing r1\<close> at
      have "ReadRecord_loop x scratch (\<not> first) pro r = (Some (scratch @ d), r1\<lparr>last_record_offset := ?off\<rparr>)"
        by (simp add: fragment_types)
      with True at show ?thesis by (intro exI [of _ "r1\<lparr>last_record_offset := ?off\<rparr>"]) simp
    next
      case f: False
      with go True \<open>\<not> resyncing r1\<close>
      have "ReadRecord_loop x scratch (\<not> first) pro r = (Some (scratch @ d), r1\<lparr>last_record_offset := pro\<rparr>)"
        by (simp add: fragment_types)
      with True at show ?thesis by (intro exI [of _ "r1\<lparr>last_record_offset := pro\<rparr>"]) simp
    qed
  next
    case False
    show ?thesis
    proof (cases first)
      case f: True
      with go False s \<open>\<not> resyncing r1\<close>
      have "ReadRecord_loop x scratch (\<not> first) pro r = ReadRecord_loop d (scratch @ d) True ?off r1"
        by (simp add: fragment_types)
      with False at show ?thesis by auto
    next
      case f: False
      with go False \<open>\<not> resyncing r1\<close>
      have "ReadRecord_loop x scratch (\<not> first) pro r = ReadRecord_loop d (scratch @ d) True pro r1"
        by (simp add: fragment_types)
      with False at show ?thesis by auto
    qed
  qed
qed

text \<open>The first fragment, and the others.\<close>

lemma fragments_cases:
  obtains (last_one) "fragments off first data = [(fragment_type first True, data)]"
      "next_start off + kHeaderSize + length data \<le> kBlockSize \<or> kBlockSize < off"
  | (more) d e where "data = d @ e" "fragments off first data =
        (fragment_type first False, d) # fragments (next_start off + kHeaderSize + length d) False e"
      "next_start off + kHeaderSize + length d \<le> kBlockSize \<or> kBlockSize < off"
proof -
  define n where "n = min (length data) (kBlockSize - next_start off - kHeaderSize)"
  have f: "fragments off first data = (fragment_type first (length data = n), take n data) #
      (if length data = n then [] else fragments (next_start off + kHeaderSize + n) False (drop n data))"
    by (subst fragments.simps) (simp only: n_def Let_def)
  have room: "next_start off + kHeaderSize + n \<le> kBlockSize \<or> kBlockSize < off"
    using next_start_room [of off] by (auto simp: n_def)
  show thesis
  proof (cases "length data = n")
    case True
    with f room show thesis by (intro last_one) simp_all
  next
    case False
    have "length (take n data) = n" by (simp add: n_def)
    with False f room show thesis by (intro more [of "take n data" "drop n data"]) (simp_all del: length_take)
  qed
qed

lemma read_record_whole:
  "\<lbrakk>at_position r off (log_bytes off (fragments off first data) @ rest); first \<longrightarrow> scratch = []\<rbrakk> \<Longrightarrow>
   \<exists>r'. ReadRecord_loop x scratch (\<not> first) pro r = (Some (scratch @ data), r')
     \<and> at_position r' (log_end off (fragments off first data)) rest \<and> reports r' = reports r"
proof (induction "length (fragments off first data)" arbitrary: off first data r x scratch pro)
  case 0
  then show ?case by (subst (asm) fragments.simps) (simp add: Let_def)
next
  case (Suc k)
  have off: "off \<le> kBlockSize" using Suc.prems(1) by (simp add: at_position_def)
  show ?case
  proof (cases rule: fragments_cases [of off first data])
    case last_one
    then have "at_position r off (padding off @ phys (fragment_type first True) data @ rest)" using Suc.prems(1) by simp
    from read_whole [OF this _ fragment_type_le fragment_types(1), of x] last_one(2) off obtain r1 where
      r1: "ReadPhysicalRecord x r = (fragment_type first True, data, r1)"
        "at_position r1 (next_start off + kHeaderSize + length data) rest" "reports r1 = reports r" by fastforce
    from loop_round [OF r1(1,2) Suc.prems(2), of pro] r1(3) show ?thesis by (auto simp: last_one(1))
  next
    case (more d e)
    let ?off = "next_start off + kHeaderSize + length d"
    have "at_position r off (padding off @ phys (fragment_type first False) d @ log_bytes ?off (fragments ?off False e) @ rest)"
      using Suc.prems(1) more(2) by simp
    from read_whole [OF this _ fragment_type_le fragment_types(1), of x] more(3) off obtain r1 where
      r1: "ReadPhysicalRecord x r = (fragment_type first False, d, r1)"
        "at_position r1 ?off (log_bytes ?off (fragments ?off False e) @ rest)" "reports r1 = reports r" by fastforce
    from loop_round [OF r1(1,2) Suc.prems(2), of pro] obtain r2 pro' where
      r2: "at_position r2 ?off (log_bytes ?off (fragments ?off False e) @ rest)" "reports r2 = reports r1"
        "ReadRecord_loop x scratch (\<not> first) pro r = ReadRecord_loop d (scratch @ d) True pro' r2" by auto
    have "k = length (fragments ?off False e)" using Suc.hyps(2) more(2) by simp
    from Suc.hyps(1) [OF this r2(1), of "scratch @ d" d pro'] r2 r1(3) show ?thesis
      unfolding more(2) by (auto simp: more(1))
  qed
qed

lemma split_prefix:
  assumes "a @ b = q @ z" and "length a \<le> length q"
  shows "\<exists>q'. q = a @ q' \<and> b = q' @ z"
  using assms by (auto simp: append_eq_append_conv2)

text \<open>A record that the end of the file cuts off is not returned, nor reported.\<close>

lemma read_record_cut:
  "\<lbrakk>at_position r off q; log_bytes off (fragments off first data) = q @ z; z \<noteq> []; first \<longrightarrow> scratch = []\<rbrakk> \<Longrightarrow>
   \<exists>r'. ReadRecord_loop x scratch (\<not> first) pro r = (None, r') \<and> reports r' = reports r"
proof (induction "length (fragments off first data)" arbitrary: off first data r x scratch pro q)
  case 0
  then show ?case by (subst (asm) fragments.simps) (simp add: Let_def)
next
  case (Suc k)
  have off: "off \<le> kBlockSize" using Suc.prems(1) by (simp add: at_position_def)
  have cut: "\<exists>r'. ReadRecord_loop x scratch (\<not> first) pro r = (None, r') \<and> reports r' = reports r"
    if "padding off @ phys t p = q @ y" "y \<noteq> []" "t \<le> kMaxRecordType"
      "next_start off + kHeaderSize + length p \<le> kBlockSize \<or> kBlockSize < off" for t p y
    using read_cut [OF Suc.prems(1) _ that(1-3), of x] that(4) off loop_eof [of x r x] by fastforce
  show ?case
  proof (cases rule: fragments_cases [of off first data])
    case last_one
    then have "padding off @ phys (fragment_type first True) data = q @ z" using Suc.prems(2) by simp
    from cut [OF this Suc.prems(3) fragment_type_le last_one(2)] show ?thesis .
  next
    case (more d e)
    let ?off = "next_start off + kHeaderSize + length d"
    let ?frag = "padding off @ phys (fragment_type first False) d"
    have split: "?frag @ log_bytes ?off (fragments ?off False e) = q @ z" using Suc.prems(2) more(2) by simp
    show ?thesis
    proof (cases "length q < length ?frag")
      case True
      then have "take (length q) ?frag = q" using arg_cong [OF split, of "take (length q)"] by simp
      then have "?frag = q @ drop (length q) ?frag" by (metis append_take_drop_id)
      moreover have "drop (length q) ?frag \<noteq> []" using True by (simp del: append_assoc) linarith
      ultimately show ?thesis using cut fragment_type_le more(3) by blast
    next
      case False
      then obtain q' where q: "q = ?frag @ q'" "log_bytes ?off (fragments ?off False e) = q' @ z"
        using split_prefix [OF split] by (meson not_less)
      have "at_position r off (padding off @ phys (fragment_type first False) d @ q')" using Suc.prems(1) q(1) by simp
      from read_whole [OF this _ fragment_type_le fragment_types(1), of x] more(3) off obtain r1 where
        r1: "ReadPhysicalRecord x r = (fragment_type first False, d, r1)" "at_position r1 ?off q'" "reports r1 = reports r"
        by fastforce
      from loop_round [OF r1(1,2) Suc.prems(4), of pro] obtain r2 pro' where
        r2: "at_position r2 ?off q'" "reports r2 = reports r1"
          "ReadRecord_loop x scratch (\<not> first) pro r = ReadRecord_loop d (scratch @ d) True pro' r2" by auto
      have "k = length (fragments ?off False e)" using Suc.hyps(2) more(2) by simp
      from Suc.hyps(1) [OF this r2(1) q(2) Suc.prems(3), of "scratch @ d" d pro'] r2 r1(3) show ?thesis by auto
    qed
  qed
qed

section \<open>Whole logs\<close>

fun log_stream :: "nat \<Rightarrow> bytes list \<Rightarrow> bytes" where
  "log_stream off [] = []"
| "log_stream off (d # ds) =
     log_bytes off (fragments off True d) @ log_stream (log_end off (fragments off True d)) ds"

lemma ReadRecord_loop_start: "at_position r off q \<Longrightarrow> ReadRecord r = ReadRecord_loop [] [] (\<not> True) 0 r"
  by (simp add: ReadRecord_def at_position_def)

lemma read_log:
  "\<lbrakk>at_position r off q; log_stream off ds = q @ z\<rbrakk> \<Longrightarrow>
   \<exists>k r'. log_reads r (take k ds) r' \<and> reports r' = reports r \<and> k \<le> length ds
     \<and> length (log_stream off (take k ds)) \<le> length q
     \<and> (k < length ds \<longrightarrow> length q < length (log_stream off (take (Suc k) ds)))"
proof (induction ds arbitrary: off q r)
  case Nil
  then have at: "at_position r off []" by simp
  from read_end [OF at, of "[]"] obtain r' where
    r': "ReadPhysicalRecord [] r = (kEof, [], r')" "reports r' = reports r" "\<not> resyncing r'" by blast
  with loop_eof [OF r'(1,3), of "[]" False 0] have "ReadRecord r = (None, r'\<lparr>resyncing := False\<rparr>)"
    by (simp add: ReadRecord_loop_start [OF at])
  from log_done [OF this] r'(2) show ?case by auto
next
  case (Cons d ds)
  let ?fs = "fragments off True d"
  have split: "log_bytes off ?fs @ log_stream (log_end off ?fs) ds = q @ z" using Cons.prems(2) by simp
  show ?case
  proof (cases "length q < length (log_bytes off ?fs)")
    case True
    then have "take (length q) (log_bytes off ?fs) = q" using arg_cong [OF split, of "take (length q)"] by simp
    then have "log_bytes off ?fs = q @ drop (length q) (log_bytes off ?fs)" by (metis append_take_drop_id)
    from read_record_cut [OF Cons.prems(1) this, of "[]" "[]" 0] True obtain r' where
      "ReadRecord r = (None, r')" "reports r' = reports r" by (auto simp: ReadRecord_loop_start [OF Cons.prems(1)])
    with log_done [of r r'] True show ?thesis by (intro exI [of _ 0] exI [of _ r']) simp
  next
    case False
    then obtain q' where q: "q = log_bytes off ?fs @ q'" "log_stream (log_end off ?fs) ds = q' @ z"
      using split_prefix [OF split] by (meson not_less)
    from read_record_whole [OF Cons.prems(1) [unfolded q(1)], of "[]" "[]" 0] obtain r1 where
      r1: "ReadRecord r = (Some d, r1)" "at_position r1 (log_end off ?fs) q'" "reports r1 = reports r"
      by (auto simp: ReadRecord_loop_start [OF Cons.prems(1)])
    from Cons.IH [OF r1(2) q(2)] obtain k r' where
      k: "log_reads r1 (take k ds) r'" "reports r' = reports r1" "k \<le> length ds"
        "length (log_stream (log_end off ?fs) (take k ds)) \<le> length q'"
        "k < length ds \<longrightarrow> length q' < length (log_stream (log_end off ?fs) (take (Suc k) ds))" by blast
    from log_more [OF r1(1) k(1)] k r1(3) show ?thesis by (intro exI [of _ "Suc k"] exI [of _ r']) (simp add: q(1))
  qed
qed

text \<open>Writing is from offset zero, reading from the end of the block before it.\<close>

lemma fragments_start: "fragments kBlockSize first d = fragments 0 first d"
proof -
  have "next_start kBlockSize = next_start 0" by (simp add: next_start_def)
  then show ?thesis by (subst (1 2) fragments.simps) (simp only:)
qed

lemma log_stream_start: "log_stream kBlockSize ds = log_stream 0 ds"
proof (cases ds)
  case (Cons d ds')
  have "next_start kBlockSize = next_start 0" "padding kBlockSize = padding 0" by (simp_all add: next_start_def padding_def)
  then have "log_bytes kBlockSize (c # cs) = log_bytes 0 (c # cs)" "log_end kBlockSize (c # cs) = log_end 0 (c # cs)" for c cs
    by (cases c; simp only: log_bytes.simps log_end.simps)+
  moreover obtain c cs where "fragments 0 True d = c # cs"
    by (cases rule: fragments_cases [of 0 True d])
  ultimately show ?thesis by (simp only: Cons log_stream.simps fragments_start)
qed simp

lemma log_stream_append_le: "length (log_stream off xs) \<le> length (log_stream off (xs @ ys))"
  by (induction xs arbitrary: off) simp_all

text \<open>A number of records, until one is not acknowledged.\<close>

fun add_records :: "'f file_ops \<Rightarrow> 'f log_writer \<Rightarrow> bytes list \<Rightarrow> nat \<times> 'f log_writer" where
  "add_records ops w [] = (0, w)"
| "add_records ops w (d # ds) =
     (case AddRecord ops w d of (s, w) \<Rightarrow>
        if ok s then (case add_records ops w ds of (n, w) \<Rightarrow> (Suc n, w)) else (0, w))"

context writable_file
begin

lemma add_records_spec:
  "\<lbrakk>add_records ops w ds = (n, w'); durable (log_dest w) = accepted (log_dest w); type_crc w = InitTypeCrc;
    block_offset w = off; off \<le> kBlockSize\<rbrakk> \<Longrightarrow>
   n \<le> length ds
   \<and> begins (accepted (log_dest w) @ log_stream off (take n ds)) (durable (log_dest w'))
   \<and> begins (durable (log_dest w')) (accepted (log_dest w) @ log_stream off ds)"
proof (induction ds arbitrary: w off n w')
  case (Cons d ds)
  obtain s w1 where a: "AddRecord ops w d = (s, w1)" by fastforce
  note A = AddRecord_loop_spec [OF a [unfolded AddRecord_def] Cons.prems(2-5)]
  show ?case
  proof (cases "ok s")
    case True
    obtain m w2 where m: "add_records ops w1 ds = (m, w2)" by fastforce
    with Cons.prems(1) a True have nw: "n = Suc m" "w' = w2" by simp_all
    note A = A [unfolded if_P [OF True]]
    from Cons.IH [OF m, of "log_end off (fragments off True d)"] A show ?thesis by (simp add: nw)
  next
    case False
    with Cons.prems(1) a have nw: "n = 0" "w' = w1" by simp_all
    from A False Cons.prems(2) show ?thesis by (simp add: nw begins_extend [of _ "_ @ _", simplified])
  qed
qed (simp add: behind)

end

text \<open>From a file to the records of its whole part.\<close>

lemma read_file:
  assumes "log_stream 0 ds = q @ z" and "file = \<lparr>seq_name = name, unread = q, seq_script = []\<rparr>"
  shows "\<exists>k r'. log_reads (log_Reader file True crc 0) (take k ds) r' \<and> reports r' = [] \<and> k \<le> length ds
    \<and> length (log_stream 0 (take k ds)) \<le> length q
    \<and> (k < length ds \<longrightarrow> length q < length (log_stream 0 (take (Suc k) ds)))"
proof -
  have "at_position (log_Reader file True crc 0) kBlockSize q"
    using Reader_at_start [of "file" True crc] assms(2) by simp
  from read_log [OF this, of ds z, unfolded log_stream_start] assms(1) show ?thesis
    by (simp add: log_Reader_def)
qed

lemma new_writer:
  "f = \<lparr>filename = name, buf = [], on_disk = [], script = sys\<rparr> \<Longrightarrow>
    on_disk (log_dest (log_Writer f 0)) = posix_accepted (log_dest (log_Writer f 0))
    \<and> type_crc (log_Writer f 0) = InitTypeCrc \<and> block_offset (log_Writer f 0) = 0
    \<and> posix_accepted (log_dest (log_Writer f 0)) = []"
  by (simp add: log_Writer_def posix_accepted_def)

section \<open>Properties\<close>

text \<open>
  C30: a log that ends anywhere, as after a crash, reads as the records whose bytes are all there, in
  their order, and nothing else; the torn record at its end is not reported as a corruption.
\<close>

theorem log_prefix_recovers:
  "\<exists>k r'. log_reads (log_Reader \<lparr>seq_name = name, unread = take m (log_stream 0 ds), seq_script = []\<rparr> True crc 0)
       (take k ds) r'
     \<and> reports r' = [] \<and> length (log_stream 0 (take k ds)) \<le> m
     \<and> (k = length ds \<or> m < length (log_stream 0 (take (Suc k) ds)))"
proof -
  have "log_stream 0 ds = take m (log_stream 0 ds) @ drop m (log_stream 0 ds)" by simp
  from read_file [OF this refl, of name crc] obtain k r' where
    k: "log_reads (log_Reader \<lparr>seq_name = name, unread = take m (log_stream 0 ds), seq_script = []\<rparr> True crc 0) (take k ds) r'"
      "reports r' = []" "k \<le> length ds" "length (log_stream 0 (take k ds)) \<le> min (length (log_stream 0 ds)) m"
      "k < length ds \<longrightarrow> min (length (log_stream 0 ds)) m < length (log_stream 0 (take (Suc k) ds))"
    by (auto simp: min.commute)
  have "length (log_stream 0 (take (Suc k) ds)) \<le> length (log_stream 0 ds)"
    using log_stream_append_le [of 0 "take (Suc k) ds" "drop (Suc k) ds"] by simp
  with k show ?thesis by (intro exI [of _ k] exI [of _ r']) auto
qed


end
