(* ===== verification/Ldb_Key.thy ===== *)
theory Ldb_Key
  imports Ldb_Coding Memcmp
begin

text \<open>
  \<open>leveldb-library/util/comparator.cc\<close> and \<open>db/dbformat.cc\<close>: the order of the keys. A comparator is
  an object with virtual functions, its contract a locale; the bytewise comparator is proved to
  satisfy it, and from any comparator that does, the comparator of internal keys (user key,
  sequence number, type) does too.
\<close>

section \<open>Comparators\<close>

record comparator =
  Compare :: "slice \<Rightarrow> slice \<Rightarrow> int"
  FindShortestSeparator :: "bytes \<Rightarrow> slice \<Rightarrow> bytes"
  FindShortSuccessor :: "bytes \<Rightarrow> bytes"

definition slice_compare :: "slice \<Rightarrow> slice \<Rightarrow> int" where
  "slice_compare a b =
     (let min_len = (if length a < length b then length a else length b);
          r = memcmp a b min_len
      in if r = 0 then (if length a < length b then -1 else if length a > length b then 1 else r) else r)"

text \<open>The loop over the common prefix, with its counter.\<close>

fun diff_index :: "bytes \<Rightarrow> bytes \<Rightarrow> nat" where
  "diff_index (x # xs) (y # ys) = (if x = y then Suc (diff_index xs ys) else 0)"
| "diff_index _ _ = 0"

definition Bytewise_FindShortestSeparator :: "bytes \<Rightarrow> slice \<Rightarrow> bytes" where
  "Bytewise_FindShortestSeparator start limit =
     (let min_length = min (length start) (length limit); i = diff_index start limit in
      if min_length \<le> i then start
      else if start ! i < 0xff \<and> unat (start ! i) + 1 < unat (limit ! i)
      then take (i + 1) (start[i := start ! i + 1])
      else start)"

function successor_loop :: "nat \<Rightarrow> nat \<Rightarrow> bytes \<Rightarrow> bytes" where
  "successor_loop i n key =
     (if i < n then
        (if key ! i \<noteq> 0xff then take (i + 1) (key[i := key ! i + 1]) else successor_loop (i + 1) n key)
      else key)"
  by pat_completeness auto
termination by (relation "measure (\<lambda>(i, n, key). n - i)") auto

declare successor_loop.simps [simp del]

definition Bytewise_FindShortSuccessor :: "bytes \<Rightarrow> bytes" where
  "Bytewise_FindShortSuccessor key = successor_loop 0 (length key) key"

definition BytewiseComparator :: comparator where
  "BytewiseComparator = \<lparr>Compare = slice_compare, FindShortestSeparator = Bytewise_FindShortestSeparator,
     FindShortSuccessor = Bytewise_FindShortSuccessor\<rparr>"

text \<open>
  The contract, with the order of the keys as that of their values in some linear order. Keys that
  are not valid are never compared.
\<close>

locale comparator_contract =
  fixes cmp :: comparator
    and valid :: "slice \<Rightarrow> bool"
    and key :: "slice \<Rightarrow> 'k::linorder"
  assumes compare_less: "valid a \<Longrightarrow> valid b \<Longrightarrow> Compare cmp a b < 0 \<longleftrightarrow> key a < key b"
    and compare_eq: "valid a \<Longrightarrow> valid b \<Longrightarrow> Compare cmp a b = 0 \<longleftrightarrow> key a = key b"
    and separator: "valid a \<Longrightarrow> valid b \<Longrightarrow> key a < key b \<Longrightarrow>
      valid (FindShortestSeparator cmp a b) \<and> key a \<le> key (FindShortestSeparator cmp a b)
      \<and> key (FindShortestSeparator cmp a b) < key b"
    and separator_none: "valid a \<Longrightarrow> valid b \<Longrightarrow> \<not> key a < key b \<Longrightarrow> FindShortestSeparator cmp a b = a"
    and successor: "valid a \<Longrightarrow> valid (FindShortSuccessor cmp a) \<and> key a \<le> key (FindShortSuccessor cmp a)"
begin

lemma compare_greater: "valid a \<Longrightarrow> valid b \<Longrightarrow> 0 < Compare cmp a b \<longleftrightarrow> key b < key a"
proof -
  assume "valid a" "valid b"
  then have "Compare cmp a b < 0 \<longleftrightarrow> key a < key b" "Compare cmp a b = 0 \<longleftrightarrow> key a = key b"
    by (rule compare_less, rule compare_eq)
  then show ?thesis by (cases rule: linorder_cases [of "key a" "key b"]) auto
qed

lemma compare_swap: "valid a \<Longrightarrow> valid b \<Longrightarrow> 0 < Compare cmp a b \<longleftrightarrow> Compare cmp b a < 0"
  by (simp add: compare_greater compare_less)

lemma compare_trans:
  "valid a \<Longrightarrow> valid b \<Longrightarrow> valid c \<Longrightarrow> Compare cmp a b < 0 \<Longrightarrow> Compare cmp b c < 0 \<Longrightarrow> Compare cmp a c < 0"
  by (simp add: compare_less)

end

section \<open>The bytewise comparator\<close>

lemma slice_compare_order:
  "slice_compare a b < 0 \<longleftrightarrow> a < b" "slice_compare a b = 0 \<longleftrightarrow> a = b" "0 < slice_compare a b \<longleftrightarrow> b < a"
proof -
  have "slice_compare a b = (let r = memcmp a b (min (length a) (length b)) in
      if r \<noteq> 0 then r else if length a < length b then -1 else if length b < length a then 1 else 0)"
    by (auto simp: slice_compare_def Let_def min_def)
  from memcmp_then_length [OF refl this [unfolded Let_def]]
  show "slice_compare a b < 0 \<longleftrightarrow> a < b" "slice_compare a b = 0 \<longleftrightarrow> a = b" "0 < slice_compare a b \<longleftrightarrow> b < a"
    by blast+
qed

text \<open>Where two strings differ, the first difference decides.\<close>

lemma diff_index_take: "take (diff_index a b) a = take (diff_index a b) b"
  by (induction a b rule: diff_index.induct) auto

lemma diff_index_le: "diff_index a b \<le> length a" "diff_index a b \<le> length b"
  by (induction a b rule: diff_index.induct) auto

lemma diff_index_less:
  "diff_index a b < length a \<Longrightarrow> diff_index a b < length b \<Longrightarrow> a ! diff_index a b \<noteq> b ! diff_index a b"
  by (induction a b rule: diff_index.induct) auto

lemma first_difference: "(x :: u8) < y \<Longrightarrow> p @ x # a < p @ y # b"
  by (induction p) auto

lemma same_start: "p @ (a :: bytes) \<le> p @ b \<longleftrightarrow> a \<le> b" "p @ a < p @ b \<longleftrightarrow> a < b"
  by (induction p) auto

lemma split_at: "i < length (a :: bytes) \<Longrightarrow> a = take i a @ a ! i # drop (Suc i) a"
  by (rule id_take_nth_drop)

lemma take_update: "i < length (a :: bytes) \<Longrightarrow> take (i + 1) (a[i := x]) = take i a @ [x]"
  by (simp add: take_Suc_conv_app_nth)

lemma byte_inc: "(x :: u8) < 0xff \<Longrightarrow> unat (x + 1) = unat x + 1"
  by (simp add: word_less_nat_alt unat_word_ariths)

lemma bytewise_separator:
  assumes "a < b"
  shows "a \<le> Bytewise_FindShortestSeparator a b \<and> Bytewise_FindShortestSeparator a b < b"
proof -
  define i where "i = diff_index a b"
  show ?thesis
  proof (cases "i < length a \<and> i < length b \<and> a ! i < 0xff \<and> unat (a ! i) + 1 < unat (b ! i)")
    case True
    then have s: "Bytewise_FindShortestSeparator a b = take i a @ [a ! i + 1]"
      using take_update [of i a "a ! i + 1"] by (auto simp: Bytewise_FindShortestSeparator_def Let_def i_def)
    have lt: "a ! i < a ! i + 1" "a ! i + 1 < b ! i"
      using True byte_inc [of "a ! i"] by (simp_all add: word_less_nat_alt)
    have pre: "take i a = take i b" unfolding i_def by (rule diff_index_take)
    have "a < take i a @ [a ! i + 1]"
      using first_difference [OF lt(1), of "take i a" "drop (Suc i) a" "[]"] split_at [of i a] True by simp
    moreover have "take i a @ [a ! i + 1] < b"
      using first_difference [OF lt(2), of "take i b" "[]" "drop (Suc i) b"] split_at [of i b] True pre by simp
    ultimately show ?thesis unfolding s by simp
  next
    case False
    then have "Bytewise_FindShortestSeparator a b = a"
      by (auto simp: Bytewise_FindShortestSeparator_def Let_def i_def [symmetric])
    with assms show ?thesis by simp
  qed
qed

lemma bytewise_separator_none: "\<not> a < b \<Longrightarrow> Bytewise_FindShortestSeparator a b = a"
proof -
  assume n: "\<not> a < b"
  define i where "i = diff_index a b"
  have "\<not> (i < length a \<and> i < length b \<and> a ! i < 0xff \<and> unat (a ! i) + 1 < unat (b ! i))"
  proof
    assume t: "i < length a \<and> i < length b \<and> a ! i < 0xff \<and> unat (a ! i) + 1 < unat (b ! i)"
    then have "a ! i < b ! i" by (simp add: word_less_nat_alt)
    from first_difference [OF this, of "take i a" "drop (Suc i) a" "drop (Suc i) b"] t split_at [of i a] split_at [of i b]
    have "a < b" using diff_index_take [of a b] by (simp add: i_def)
    with n show False ..
  qed
  then show ?thesis by (auto simp: Bytewise_FindShortestSeparator_def Let_def i_def [symmetric])
qed

lemma successor_loop_ge: "n = length key \<Longrightarrow> key \<le> successor_loop i n key"
proof (induction i n key rule: successor_loop.induct)
  case (1 i n key)
  show ?case
  proof (cases "i < n \<and> key ! i \<noteq> 0xff")
    case True
    then have "unat (key ! i) < 255"
      using unat_byte_less [of "key ! i"] by (auto simp: word_unat_eq_iff)
    then have "key ! i < 0xff" by (simp add: word_less_nat_alt)
    with byte_inc [OF this] have "key ! i < key ! i + 1" by (simp add: word_less_nat_alt)
    from first_difference [OF this, of "take i key" "drop (Suc i) key" "[]"] True 1(2) split_at [of i key]
    have "key < take i key @ [key ! i + 1]" by simp
    with True 1(2) take_update [of i key "key ! i + 1"] show ?thesis by (simp add: successor_loop.simps [of i])
  next
    case False
    with 1 show ?thesis by (auto simp: successor_loop.simps [of i])
  qed
qed

interpretation bytewise: comparator_contract BytewiseComparator "\<lambda>_. True" "\<lambda>k. k"
  by unfold_locales
    (simp_all add: BytewiseComparator_def slice_compare_order bytewise_separator bytewise_separator_none
      Bytewise_FindShortSuccessor_def successor_loop_ge)

section \<open>Internal keys\<close>

datatype ValueType = kTypeDeletion | kTypeValue

definition type_value :: "ValueType \<Rightarrow> u64" where
  "type_value t = (case t of kTypeDeletion \<Rightarrow> 0 | kTypeValue \<Rightarrow> 1)"

definition kValueTypeForSeek :: ValueType where
  "kValueTypeForSeek = kTypeValue"

definition kMaxSequenceNumber :: u64 where
  "kMaxSequenceNumber = push_bit 56 1 - 1"

record ParsedInternalKey =
  user_key :: slice
  seq_number :: u64
  value_type :: ValueType

definition InternalKeyEncodingLength :: "ParsedInternalKey \<Rightarrow> nat" where
  "InternalKeyEncodingLength k = length (user_key k) + 8"

definition PackSequenceAndType :: "u64 \<Rightarrow> ValueType \<Rightarrow> u64" where
  "PackSequenceAndType s t = push_bit 8 s OR type_value t"

definition AppendInternalKey :: "bytes \<Rightarrow> ParsedInternalKey \<Rightarrow> bytes" where
  "AppendInternalKey result k = PutFixed64 (result @ user_key k) (PackSequenceAndType (seq_number k) (value_type k))"

definition ExtractUserKey :: "slice \<Rightarrow> slice" where
  "ExtractUserKey k = take (length k - 8) k"

text \<open>On failure the result is in an undefined state, so \<open>None\<close> has none.\<close>

definition ParseInternalKey :: "slice \<Rightarrow> ParsedInternalKey option" where
  "ParseInternalKey k =
     (let n = length k in
      if n < 8 then None
      else
        let num = DecodeFixed64 (drop (n - 8) k);
            c = (ucast (num AND 0xff) :: u8)
        in if c \<le> ucast (type_value kTypeValue)
           then Some \<lparr>user_key = take (n - 8) k, seq_number = drop_bit 8 num,
             value_type = (if c = 0 then kTypeDeletion else kTypeValue)\<rparr>
           else None)"

definition internal_Compare :: "comparator \<Rightarrow> slice \<Rightarrow> slice \<Rightarrow> int" where
  "internal_Compare user_comparator akey bkey =
     (let r = Compare user_comparator (ExtractUserKey akey) (ExtractUserKey bkey) in
      if r = 0 then
        let anum = DecodeFixed64 (drop (length akey - 8) akey);
            bnum = DecodeFixed64 (drop (length bkey - 8) bkey)
        in if anum > bnum then -1 else if anum < bnum then 1 else r
      else r)"

definition internal_FindShortestSeparator :: "comparator \<Rightarrow> bytes \<Rightarrow> slice \<Rightarrow> bytes" where
  "internal_FindShortestSeparator user_comparator start limit =
     (let user_start = ExtractUserKey start; user_limit = ExtractUserKey limit;
          tmp = FindShortestSeparator user_comparator user_start user_limit
      in if length tmp < length user_start \<and> Compare user_comparator user_start tmp < 0
         then PutFixed64 tmp (PackSequenceAndType kMaxSequenceNumber kValueTypeForSeek)
         else start)"

definition internal_FindShortSuccessor :: "comparator \<Rightarrow> bytes \<Rightarrow> bytes" where
  "internal_FindShortSuccessor user_comparator key =
     (let ukey = ExtractUserKey key; tmp = FindShortSuccessor user_comparator ukey
      in if length tmp < length ukey \<and> Compare user_comparator ukey tmp < 0
         then PutFixed64 tmp (PackSequenceAndType kMaxSequenceNumber kValueTypeForSeek)
         else key)"

definition InternalKeyComparator :: "comparator \<Rightarrow> comparator" where
  "InternalKeyComparator user_comparator = \<lparr>Compare = internal_Compare user_comparator,
     FindShortestSeparator = internal_FindShortestSeparator user_comparator,
     FindShortSuccessor = internal_FindShortSuccessor user_comparator\<rparr>"

text \<open>
  The array a \<open>LookupKey\<close> makes, from \<open>start_\<close>, and its three views: \<open>kstart_\<close> is behind the length.
\<close>

definition LookupKey :: "slice \<Rightarrow> u64 \<Rightarrow> bytes \<times> nat" where
  "LookupKey ukey s =
     (let usize = length ukey; klength = EncodeVarint32 (word_of_nat (usize + 8))
      in (klength @ ukey @ EncodeFixed64 (PackSequenceAndType s kValueTypeForSeek), length klength))"

definition memtable_key :: "bytes \<times> nat \<Rightarrow> slice" where
  "memtable_key k = fst k"

definition internal_key :: "bytes \<times> nat \<Rightarrow> slice" where
  "internal_key k = drop (snd k) (fst k)"

definition lookup_user_key :: "bytes \<times> nat \<Rightarrow> slice" where
  "lookup_user_key k = take (length (internal_key k) - 8) (internal_key k)"

section \<open>Their order\<close>

text \<open>User keys ascend, the packed sequence numbers and types below them descend.\<close>

datatype 'k internal_order = IKey 'k u64

instantiation internal_order :: (linorder) linorder
begin

definition less_internal_order :: "'a internal_order \<Rightarrow> 'a internal_order \<Rightarrow> bool" where
  "less_internal_order x y = (case x of IKey k n \<Rightarrow> case y of IKey l m \<Rightarrow> k < l \<or> (k = l \<and> m < n))"

definition less_eq_internal_order :: "'a internal_order \<Rightarrow> 'a internal_order \<Rightarrow> bool" where
  "less_eq_internal_order x y \<longleftrightarrow> x < y \<or> x = y"

instance
  by standard (auto simp: less_internal_order_def less_eq_internal_order_def split: internal_order.splits)

end

lemma IKey_less: "IKey k n < IKey l m \<longleftrightarrow> k < l \<or> (k = l \<and> m < n)"
  by (simp add: less_internal_order_def)

definition key_tag :: "slice \<Rightarrow> u64" where
  "key_tag k = DecodeFixed64 (drop (length k - 8) k)"

lemma ExtractUserKey_Put [simp]: "ExtractUserKey (PutFixed64 u n) = u"
  by (simp add: ExtractUserKey_def PutFixed64_def)

lemma key_tag_Put [simp]: "key_tag (PutFixed64 u n) = n"
  using Decode_Encode64 [of n "[]"] by (simp add: key_tag_def PutFixed64_def)

lemma length_PutFixed64 [simp]: "length (PutFixed64 u n) = length u + 8"
  by (simp add: PutFixed64_def)

lemma pack_less:
  assumes "unat s < 2 ^ 56"
  shows "unat (PackSequenceAndType s t) = unat s * 256 + unat (type_value t)"
proof -
  have "unat (type_value t) \<le> 1" by (cases t) (simp_all add: type_value_def)
  then have "unat (type_value t) < 2 ^ 8" by simp
  from push_bit_or_disjoint [OF this, of s] have "PackSequenceAndType s t = push_bit 8 s + type_value t"
    by (simp add: PackSequenceAndType_def)
  with assms \<open>unat (type_value t) \<le> 1\<close> show ?thesis by (simp add: push_bit_eq_mult unat_word_ariths)
qed

context comparator_contract
begin

lemma internal_contract:
  "comparator_contract (InternalKeyComparator cmp) (\<lambda>k. 8 \<le> length k \<and> valid (ExtractUserKey k))
     (\<lambda>k. IKey (key (ExtractUserKey k)) (key_tag k))"
proof unfold_locales
  fix a b
  assume a: "8 \<le> length a \<and> valid (ExtractUserKey a)" and b: "8 \<le> length b \<and> valid (ExtractUserKey b)"
  let ?u = "ExtractUserKey a" and ?v = "ExtractUserKey b"
  note cmp_defs = InternalKeyComparator_def internal_Compare_def Let_def key_tag_def
  have uv: "Compare cmp ?u ?v < 0 \<longleftrightarrow> key ?u < key ?v" "Compare cmp ?u ?v = 0 \<longleftrightarrow> key ?u = key ?v"
    using a b compare_less compare_eq by blast+
  show "Compare (InternalKeyComparator cmp) a b < 0 \<longleftrightarrow> IKey (key ?u) (key_tag a) < IKey (key ?v) (key_tag b)"
    using uv by (auto simp: cmp_defs IKey_less)
  show "Compare (InternalKeyComparator cmp) a b = 0 \<longleftrightarrow> IKey (key ?u) (key_tag a) = IKey (key ?v) (key_tag b)"
    using uv by (auto simp: cmp_defs)
  let ?t = "FindShortestSeparator cmp ?u ?v"
  let ?s = "FindShortestSeparator (InternalKeyComparator cmp) a b"
  have shorter: "key ?u < key ?t \<and> key ?t < key ?v \<and> valid ?t" if "length ?t < length ?u" "Compare cmp ?u ?t < 0"
  proof (cases "key ?u < key ?v")
    case True
    from separator [OF _ _ this] a b have t: "valid ?t" "key ?t < key ?v" by blast+
    with that(2) a compare_less show ?thesis by blast
  next
    case False
    with separator_none [OF _ _ False] a b that(1) show ?thesis by simp
  qed
  show "\<not> IKey (key ?u) (key_tag a) < IKey (key ?v) (key_tag b) \<Longrightarrow> ?s = a"
    using shorter by (auto simp: InternalKeyComparator_def internal_FindShortestSeparator_def Let_def IKey_less dest: less_trans)
  assume lt: "IKey (key ?u) (key_tag a) < IKey (key ?v) (key_tag b)"
  show "(8 \<le> length ?s \<and> valid (ExtractUserKey ?s)) \<and>
      IKey (key ?u) (key_tag a) \<le> IKey (key (ExtractUserKey ?s)) (key_tag ?s) \<and>
      IKey (key (ExtractUserKey ?s)) (key_tag ?s) < IKey (key ?v) (key_tag b)"
  proof (cases "length ?t < length ?u \<and> Compare cmp ?u ?t < 0")
    case True
    then have "?s = PutFixed64 ?t (PackSequenceAndType kMaxSequenceNumber kValueTypeForSeek)"
      by (simp add: InternalKeyComparator_def internal_FindShortestSeparator_def Let_def)
    with shorter True show ?thesis by (simp add: IKey_less less_imp_le)
  next
    case False
    then have "?s = a" by (auto simp: InternalKeyComparator_def internal_FindShortestSeparator_def Let_def)
    with a lt show ?thesis by simp
  qed
next
  fix a
  assume a: "8 \<le> length a \<and> valid (ExtractUserKey a)"
  let ?u = "ExtractUserKey a"
  let ?t = "FindShortSuccessor cmp ?u" and ?s = "FindShortSuccessor (InternalKeyComparator cmp) a"
  show "(8 \<le> length ?s \<and> valid (ExtractUserKey ?s)) \<and>
      IKey (key ?u) (key_tag a) \<le> IKey (key (ExtractUserKey ?s)) (key_tag ?s)"
  proof (cases "length ?t < length ?u \<and> Compare cmp ?u ?t < 0")
    case True
    then have "?s = PutFixed64 ?t (PackSequenceAndType kMaxSequenceNumber kValueTypeForSeek)"
      by (simp add: InternalKeyComparator_def internal_FindShortSuccessor_def Let_def)
    moreover have "valid ?t" "key ?u < key ?t" using successor a compare_less True by blast+
    ultimately show ?thesis by (simp add: IKey_less less_imp_le)
  next
    case False
    then have "?s = a" by (auto simp: InternalKeyComparator_def internal_FindShortSuccessor_def Let_def)
    with a show ?thesis by simp
  qed
qed

end

interpretation internal: comparator_contract "InternalKeyComparator BytewiseComparator" "\<lambda>k. 8 \<le> length k"
  "\<lambda>k. IKey (ExtractUserKey k) (key_tag k)"
  using bytewise.internal_contract by simp

lemma AppendInternalKey_key [simp]:
  "ExtractUserKey (AppendInternalKey [] k) = user_key k"
  "key_tag (AppendInternalKey [] k) = PackSequenceAndType (seq_number k) (value_type k)"
  "length (AppendInternalKey [] k) = length (user_key k) + 8"
  by (simp_all add: AppendInternalKey_def)

lemma LookupKey_internal:
  "internal_key (LookupKey u s) = AppendInternalKey [] \<lparr>user_key = u, seq_number = s, value_type = kValueTypeForSeek\<rparr>"
  by (simp add: LookupKey_def internal_key_def Let_def AppendInternalKey_def PutFixed64_def)

lemma kMaxSequenceNumber_nat: "s \<le> kMaxSequenceNumber \<longleftrightarrow> unat s < 2 ^ 56"
proof -
  have "unat kMaxSequenceNumber = 72057594037927935" by (simp add: kMaxSequenceNumber_def)
  then show ?thesis unfolding word_le_nat_alt by (simp del: unat_numeral) linarith
qed

lemma pack_order:
  assumes "s \<le> kMaxSequenceNumber" and "s' \<le> kMaxSequenceNumber"
  shows "PackSequenceAndType s t < PackSequenceAndType s' t' \<longleftrightarrow>
    s < s' \<or> (s = s' \<and> t = kTypeDeletion \<and> t' = kTypeValue)"
proof -
  have "s < s' \<longleftrightarrow> unat s < unat s'" "s = s' \<longleftrightarrow> unat s = unat s'"
    by (simp_all add: word_less_nat_alt word_unat_eq_iff)
  moreover have "PackSequenceAndType s t < PackSequenceAndType s' t' \<longleftrightarrow>
      unat s * 256 + unat (type_value t) < unat s' * 256 + unat (type_value t')"
    using assms by (simp add: word_less_nat_alt pack_less kMaxSequenceNumber_nat)
  moreover have "unat (type_value kTypeDeletion) = 0" "unat (type_value kTypeValue) = 1"
    by (simp_all add: type_value_def)
  ultimately show ?thesis by (cases t; cases t') auto
qed

lemma key_tag_split: "8 \<le> length x \<Longrightarrow> PutFixed64 (take (length x - 8) x) (key_tag x) = x"
  using Encode_Decode64 [of "drop (length x - 8) x"] by (simp add: PutFixed64_def key_tag_def)

lemma unat_shr8: "unat (drop_bit 8 (x :: u64)) = unat x div 256"
  using unat_u64_less [of x] by (simp only: unsigned_drop_bit_eq) (simp add: drop_bit_eq_div take_bit_nat_eq_self)

lemma unpack_type:
  fixes num :: u64
  assumes "(ucast (num AND 0xff) :: u8) \<le> 1"
  shows "PackSequenceAndType (drop_bit 8 num) (if (ucast (num AND 0xff) :: u8) = 0 then kTypeDeletion else kTypeValue) = num"
    (is "?p = num")
proof -
  let ?c = "(ucast (num AND 0xff) :: u8)"
  have ff: "(0xff :: u64) = mask 8" by (simp add: mask_eq_exp_minus_1)
  have c: "num AND 0xff = ucast ?c"
    unfolding ff by (rule bit_word_eqI) (auto simp: bit_simps)
  from assms have "unat ?c = 0 \<or> unat ?c = 1" unfolding word_le_nat_alt by auto
  then have "?c = 0 \<or> ?c = 1" by (simp add: word_unat_eq_iff)
  then have "type_value (if ?c = 0 then kTypeDeletion else kTypeValue) = ucast ?c" by (auto simp: type_value_def)
  also note c [symmetric]
  finally have "?p = push_bit 8 (drop_bit 8 num) OR num AND 0xff" by (simp add: PackSequenceAndType_def)
  also have "\<dots> = num" unfolding ff by (rule bit_word_eqI) (auto simp: bit_simps)
  finally show ?thesis .
qed

lemma pack_unpack:
  assumes "s \<le> kMaxSequenceNumber"
  shows "drop_bit 8 (PackSequenceAndType s t) = s"
    and "(ucast (PackSequenceAndType s t AND 0xff) :: u8) = ucast (type_value t)"
proof -
  have "unat (type_value t) < 256" by (cases t) (simp_all add: type_value_def)
  with assms have "unat (PackSequenceAndType s t) div 256 = unat s"
    by (simp add: pack_less kMaxSequenceNumber_nat)
  then show "drop_bit 8 (PackSequenceAndType s t) = s"
    by (simp only: word_unat_eq_iff unat_shr8)
  show "(ucast (PackSequenceAndType s t AND 0xff) :: u8) = ucast (type_value t)"
    by (rule bit_word_eqI) (auto simp: PackSequenceAndType_def bit_simps)
qed

lemma pack_inj:
  assumes "s \<le> kMaxSequenceNumber" and "s' \<le> kMaxSequenceNumber"
  shows "PackSequenceAndType s t = PackSequenceAndType s' t' \<longleftrightarrow> s = s' \<and> t = t'"
proof -
  have "PackSequenceAndType s t = PackSequenceAndType s' t' \<longleftrightarrow>
      \<not> PackSequenceAndType s t < PackSequenceAndType s' t' \<and> \<not> PackSequenceAndType s' t' < PackSequenceAndType s t"
    by (simp add: not_less eq_iff conj_commute)
  also have "\<dots> \<longleftrightarrow> s = s' \<and> t = t'"
    unfolding pack_order [OF assms] pack_order [OF assms(2,1)] by (cases t; cases t') auto
  finally show ?thesis .
qed

lemma shorter_separator:
  "length (FindShortestSeparator (InternalKeyComparator c) a b) \<le> length a"
  "length (FindShortSuccessor (InternalKeyComparator c) a) \<le> length a"
  by (auto simp: InternalKeyComparator_def internal_FindShortestSeparator_def internal_FindShortSuccessor_def
      Let_def ExtractUserKey_def)

lemma internal_key_less:
  assumes "seq_number a \<le> kMaxSequenceNumber" and "seq_number b \<le> kMaxSequenceNumber"
  shows "Compare (InternalKeyComparator BytewiseComparator) (AppendInternalKey [] a) (AppendInternalKey [] b) < 0 \<longleftrightarrow>
    user_key a < user_key b \<or> (user_key a = user_key b \<and> (seq_number b < seq_number a \<or>
      (seq_number b = seq_number a \<and> value_type b = kTypeDeletion \<and> value_type a = kTypeValue)))"
proof -
  have "8 \<le> length (AppendInternalKey [] a)" "8 \<le> length (AppendInternalKey [] b)" by simp_all
  from internal.compare_less [OF this] show ?thesis by (simp add: IKey_less pack_order [OF assms(2,1)])
qed

text \<open>The first entry that is not below a lookup key.\<close>

lemma find_newest:
  assumes "sorted_wrt (\<lambda>a b. Compare (InternalKeyComparator BytewiseComparator)
      (AppendInternalKey [] a) (AppendInternalKey [] b) < 0) entries"
    and "\<forall>e\<in>set entries. seq_number e \<le> kMaxSequenceNumber" and "s \<le> kMaxSequenceNumber"
  shows "case find (\<lambda>e. 0 \<le> Compare (InternalKeyComparator BytewiseComparator)
      (AppendInternalKey [] e) (internal_key (LookupKey ukey s))) entries of
    Some e \<Rightarrow> if user_key e = ukey
      then seq_number e \<le> s \<and> (\<forall>e'\<in>set entries. user_key e' = ukey \<and> seq_number e' \<le> s \<longrightarrow> seq_number e' \<le> seq_number e)
      else (\<forall>e'\<in>set entries. user_key e' = ukey \<longrightarrow> s < seq_number e')
  | None \<Rightarrow> \<forall>e'\<in>set entries. user_key e' = ukey \<longrightarrow> s < seq_number e'"
proof -
  define lk where "lk = \<lparr>user_key = ukey, seq_number = s, value_type = kValueTypeForSeek\<rparr>"
  define ord where "ord a b \<longleftrightarrow> Compare (InternalKeyComparator BytewiseComparator)
      (AppendInternalKey [] a) (AppendInternalKey [] b) < 0" for a b
  have key: "Compare (InternalKeyComparator BytewiseComparator) (AppendInternalKey [] e) (internal_key (LookupKey ukey s)) < 0
      \<longleftrightarrow> user_key e < ukey \<or> (user_key e = ukey \<and> s < seq_number e)" if "e \<in> set entries" for e
    using internal_key_less [of e lk] that assms(2,3) by (simp add: LookupKey_internal lk_def kValueTypeForSeek_def)
  have later: "user_key a < user_key b \<or> (user_key a = user_key b \<and> seq_number b \<le> seq_number a)"
    if "ord a b" "a \<in> set entries" "b \<in> set entries" for a b
    using internal_key_less [of a b] that assms(2) by (auto simp: ord_def)
  show ?thesis (is "case find ?P entries of Some e \<Rightarrow> ?S e | None \<Rightarrow> ?N")
  proof (cases "find ?P entries")
    case None
    then have "\<forall>e\<in>set entries. user_key e < ukey \<or> (user_key e = ukey \<and> s < seq_number e)"
      using key by (simp add: find_None_iff not_le)
    with None show ?thesis by auto
  next
    case (Some e)
    then obtain i where i: "i < length entries" "e = entries ! i" "?P e" "\<forall>j<i. \<not> ?P (entries ! j)"
      by (auto simp: find_Some_iff)
    have e: "ukey < user_key e \<or> (user_key e = ukey \<and> seq_number e \<le> s)"
      using i key [of e] by (auto simp: not_less)
    have split: "(user_key (entries ! j) < ukey \<or> (user_key (entries ! j) = ukey \<and> s < seq_number (entries ! j)))
        \<or> entries ! j = e \<or> ord e (entries ! j)" if "j < length entries" for j
    proof (cases j i rule: linorder_cases)
      case less
      then show ?thesis using i that key [of "entries ! j"] by (auto simp: not_less)
    next
      case greater
      then show ?thesis using assms(1) i that by (auto simp: sorted_wrt_iff_nth_less ord_def)
    qed (use i in simp)
    have "(e' = e \<or> user_key e < user_key e' \<or> (user_key e = user_key e' \<and> seq_number e' \<le> seq_number e))
        \<or> (user_key e' < ukey \<or> (user_key e' = ukey \<and> s < seq_number e'))" if "e' \<in> set entries" for e'
      using that split later [of e e'] i by (metis in_set_conv_nth nth_mem)
    with e have "?S e" by (auto simp: not_less) (metis not_le less_irrefl less_asym less_trans)+
    then show ?thesis using Some by simp
  qed
qed

lemma ParseInternalKey_iff:
  "ParseInternalKey x = Some k \<longleftrightarrow> seq_number k \<le> kMaxSequenceNumber \<and> x = AppendInternalKey [] k"
proof
  assume p: "ParseInternalKey x = Some k"
  then have k: "k = \<lparr>user_key = take (length x - 8) x, seq_number = drop_bit 8 (key_tag x),
      value_type = (if (ucast (key_tag x AND 0xff) :: u8) = 0 then kTypeDeletion else kTypeValue)\<rparr>"
    and l: "8 \<le> length x" "(ucast (key_tag x AND 0xff) :: u8) \<le> 1"
    by (auto simp: ParseInternalKey_def Let_def key_tag_def type_value_def split: if_splits)
  have "unat (drop_bit 8 (key_tag x)) < 2 ^ 56"
    using unat_u64_less [of "key_tag x"] unfolding unat_shr8 by simp
  moreover have "AppendInternalKey [] k = x"
    unfolding k AppendInternalKey_def using unpack_type [OF l(2)] key_tag_split [OF l(1)] by simp
  ultimately show "seq_number k \<le> kMaxSequenceNumber \<and> x = AppendInternalKey [] k"
    by (simp add: k kMaxSequenceNumber_nat)
next
  assume k: "seq_number k \<le> kMaxSequenceNumber \<and> x = AppendInternalKey [] k"
  have "DecodeFixed64 (drop (length (user_key k)) x) = PackSequenceAndType (seq_number k) (value_type k)"
    using AppendInternalKey_key(2) [of k] k by (simp add: key_tag_def)
  moreover have "take (length (user_key k)) x = user_key k"
    using k by (simp add: AppendInternalKey_def PutFixed64_def)
  ultimately show "ParseInternalKey x = Some k"
    using k pack_unpack [of "seq_number k" "value_type k"]
    by (cases "value_type k") (simp_all add: ParseInternalKey_def Let_def type_value_def)
qed

section \<open>Properties\<close>

text \<open>
  C36: \<open>ParseInternalKey\<close> succeeds exactly on what \<open>AppendInternalKey\<close> writes for keys of sequence
  numbers up to \<open>kMaxSequenceNumber\<close>, and gives back that key.
\<close>

theorem internal_key_parses:
  "ParseInternalKey x = Some k \<longleftrightarrow> seq_number k \<le> kMaxSequenceNumber \<and> x = AppendInternalKey [] k"
  by (rule ParseInternalKey_iff)

text \<open>
  Internal keys are ordered by ascending user key, under it by descending sequence number and
  under that with values before deletions; only equal keys compare as equal.
\<close>

theorem internal_key_order:
  assumes "seq_number a \<le> kMaxSequenceNumber" and "seq_number b \<le> kMaxSequenceNumber"
  defines "c \<equiv> Compare (InternalKeyComparator BytewiseComparator) (AppendInternalKey [] a) (AppendInternalKey [] b)"
  shows "(c < 0 \<longleftrightarrow> user_key a < user_key b \<or> (user_key a = user_key b \<and> (seq_number b < seq_number a \<or>
      (seq_number b = seq_number a \<and> value_type b = kTypeDeletion \<and> value_type a = kTypeValue)))) \<and>
    (c = 0 \<longleftrightarrow> a = b)"
proof -
  have l: "8 \<le> length (AppendInternalKey [] a)" "8 \<le> length (AppendInternalKey [] b)" by simp_all
  then have "c = 0 \<longleftrightarrow> user_key a = user_key b \<and>
      PackSequenceAndType (seq_number a) (value_type a) = PackSequenceAndType (seq_number b) (value_type b)"
    unfolding c_def internal.compare_eq [OF l] by simp
  then show ?thesis
    unfolding c_def using internal_key_less [OF assms(1,2)] pack_inj [OF assms(1,2)] by (cases a; cases b) auto
qed

lemma internal_key_order_witness:
  "Compare (InternalKeyComparator BytewiseComparator)
     (AppendInternalKey [] \<lparr>user_key = [97], seq_number = 7, value_type = kTypeDeletion\<rparr>)
     (AppendInternalKey [] \<lparr>user_key = [97], seq_number = 5, value_type = kTypeValue\<rparr>) < 0"
  using internal_key_order [of "\<lparr>user_key = [97], seq_number = 7, value_type = kTypeDeletion\<rparr>"
      "\<lparr>user_key = [97], seq_number = 5, value_type = kTypeValue\<rparr>"]
  by (simp add: kMaxSequenceNumber_def)

text \<open>
  C35: The key that separates two internal keys, which index blocks hold in place of the last key of
  a block, lies between them, at the first or above it and below the second, and is not longer than
  the first; the successor of a key is not below it.
\<close>

theorem internal_separator_between:
  assumes "8 \<le> length a" and "8 \<le> length b"
    and "Compare (InternalKeyComparator BytewiseComparator) a b < 0"
  defines "t \<equiv> FindShortestSeparator (InternalKeyComparator BytewiseComparator) a b"
    and "u \<equiv> FindShortSuccessor (InternalKeyComparator BytewiseComparator) a"
  shows "Compare (InternalKeyComparator BytewiseComparator) a t \<le> 0
    \<and> Compare (InternalKeyComparator BytewiseComparator) t b < 0 \<and> 8 \<le> length t \<and> length t \<le> length a
    \<and> Compare (InternalKeyComparator BytewiseComparator) a u \<le> 0 \<and> 8 \<le> length u \<and> length u \<le> length a"
proof -
  let ?c = "InternalKeyComparator BytewiseComparator"
  have lt: "IKey (ExtractUserKey a) (key_tag a) < IKey (ExtractUserKey b) (key_tag b)"
    using assms(3) unfolding internal.compare_less [OF assms(1,2)] .
  have le: "Compare ?c x y \<le> 0" if "8 \<le> length x" "8 \<le> length y"
    "IKey (ExtractUserKey x) (key_tag x) \<le> IKey (ExtractUserKey y) (key_tag y)" for x y
    using internal.compare_greater [OF that(1,2)] that(3) by (simp add: not_less [symmetric])
  note sep = internal.separator [OF assms(1,2) lt, folded t_def] internal.successor [OF assms(1), folded u_def]
  then show ?thesis
    using le [of a t] le [of a u] assms(1,2) shorter_separator [of BytewiseComparator a] internal.compare_less [of t b]
    unfolding t_def u_def by blast
qed

lemma internal_separator_between_witness:
  defines "a \<equiv> [97, 98, 99, 1, 2, 0, 0, 0, 0, 0, 0]" and "b \<equiv> [97, 101, 1, 1, 0, 0, 0, 0, 0, 0]"
  shows "length (FindShortestSeparator (InternalKeyComparator BytewiseComparator) a b) \<le> 11"
  using internal_separator_between [of a b]
  by (simp add: a_def b_def InternalKeyComparator_def internal_Compare_def BytewiseComparator_def slice_compare_def
      ExtractUserKey_def Let_def)

text \<open>
  C34: The snapshot read: in a list of entries in the order of the internal comparator, the first one
  that is not below the key \<open>LookupKey\<close> makes of a user key and a snapshot is the newest entry of that
  user key visible in the snapshot, if there is one, and otherwise belongs to another user key.
\<close>

theorem lookup_key_finds_newest:
  assumes "sorted_wrt (\<lambda>a b. Compare (InternalKeyComparator BytewiseComparator)
      (AppendInternalKey [] a) (AppendInternalKey [] b) < 0) entries"
    and "\<forall>e\<in>set entries. seq_number e \<le> kMaxSequenceNumber" and "s \<le> kMaxSequenceNumber"
  shows "case find (\<lambda>e. 0 \<le> Compare (InternalKeyComparator BytewiseComparator)
      (AppendInternalKey [] e) (internal_key (LookupKey ukey s))) entries of
    Some e \<Rightarrow> if user_key e = ukey
      then seq_number e \<le> s \<and> (\<forall>e'\<in>set entries. user_key e' = ukey \<and> seq_number e' \<le> s \<longrightarrow> seq_number e' \<le> seq_number e)
      else (\<forall>e'\<in>set entries. user_key e' = ukey \<longrightarrow> s < seq_number e')
  | None \<Rightarrow> \<forall>e'\<in>set entries. user_key e' = ukey \<longrightarrow> s < seq_number e'"
  using assms by (rule find_newest)

lemma lookup_key_finds_newest_witness:
  "\<exists>e. find (\<lambda>e. 0 \<le> Compare (InternalKeyComparator BytewiseComparator)
      (AppendInternalKey [] e) (internal_key (LookupKey [98] 6)))
    [\<lparr>user_key = [97], seq_number = 3, value_type = kTypeValue\<rparr>,
     \<lparr>user_key = [98], seq_number = 5, value_type = kTypeDeletion\<rparr>] = Some e \<and> user_key e = [98]"
proof -
  let ?l = "[\<lparr>user_key = [97], seq_number = 3, value_type = kTypeValue\<rparr>,
     \<lparr>user_key = [98], seq_number = 5, value_type = kTypeDeletion\<rparr>]"
  have m: "3 \<le> kMaxSequenceNumber" "5 \<le> kMaxSequenceNumber" "6 \<le> kMaxSequenceNumber"
    by (simp_all add: kMaxSequenceNumber_def)
  then have "sorted_wrt (\<lambda>a b. Compare (InternalKeyComparator BytewiseComparator)
      (AppendInternalKey [] a) (AppendInternalKey [] b) < 0) ?l"
    by (simp add: internal_key_less)
  from lookup_key_finds_newest [OF this, of 6 "[98]"] m show ?thesis
    by (auto split: option.splits if_splits)
qed

end
