(* ===== verification/Ldb_Filter.thy ===== *)
theory Ldb_Filter
  imports Ldb_Key
begin

text \<open>
  \<open>leveldb-library/util/hash.cc\<close>, \<open>util/bloom.cc\<close>, the filter policy of \<open>db/dbformat.cc\<close> and
  \<open>table/filter_block.cc\<close>: the filters of a table. What a filter policy promises is a locale, its
  instances are the Bloom filter and the wrapper for internal keys, its client the filter block.
  What the filters must never do is deny a key that was added.
\<close>

section \<open>The hash function\<close>

function Hash_loop :: "u32 \<Rightarrow> bytes \<Rightarrow> u32 \<times> bytes" where
  "Hash_loop h data =
     (if 4 \<le> length data then
        let w = DecodeFixed32 data;
            h = h + w;
            h = h * 0xc6a4a793;
            h = h XOR drop_bit 16 h
        in Hash_loop h (drop 4 data)
      else (h, data))"
  by pat_completeness auto
termination by (relation "measure (\<lambda>(h, data). length data)") auto

declare Hash_loop.simps [simp del]

text \<open>The switch falls through from three bytes to two and from two to one.\<close>

definition Hash :: "bytes \<Rightarrow> u32 \<Rightarrow> u32" where
  "Hash data seed =
     (let m = 0xc6a4a793;
          h0 = ucast (ucast seed XOR (word_of_nat (length data) * ucast (m :: u32) :: u64));
          (h, rest) = Hash_loop h0 data;
          h3 = (if length rest = 3 then h + push_bit 16 (ucast (rest ! 2)) else h);
          h2 = (if length rest \<in> {2, 3} then h3 + push_bit 8 (ucast (rest ! 1)) else h3)
      in if length rest \<in> {1, 2, 3} then
           let h1 = h2 + ucast (rest ! 0); h1 = h1 * m in h1 XOR drop_bit 24 h1
         else h2)"

section \<open>Filter policies\<close>

text \<open>
  \<open>CreateFilter\<close> is given an array of keys and the number of its elements as an \<open>int\<close>, and appends
  a filter to a string.
\<close>

record filter_policy =
  CreateFilter :: "slice list \<Rightarrow> int \<Rightarrow> bytes \<Rightarrow> bytes"
  KeyMayMatch :: "slice \<Rightarrow> slice \<Rightarrow> bool"

text \<open>
  The contract, for lists of keys for which there is room: a filter depends on the keys only, and it
  matches each of them.
\<close>

locale filter_contract =
  fixes pol :: filter_policy
    and room :: "nat \<Rightarrow> bool"
    and valid :: "slice \<Rightarrow> bool"
  assumes appends: "room (length ks) \<Longrightarrow> list_all valid ks \<Longrightarrow>
      CreateFilter pol ks (int (length ks)) dst = dst @ CreateFilter pol ks (int (length ks)) []"
    and matches: "room (length ks) \<Longrightarrow> list_all valid ks \<Longrightarrow> k \<in> set ks \<Longrightarrow>
      KeyMayMatch pol k (CreateFilter pol ks (int (length ks)) [])"

section \<open>Bloom filters\<close>

definition BloomHash :: "slice \<Rightarrow> u32" where
  "BloomHash key = Hash key 0xbc9f1d34"

record bloom =
  bloom_bits :: u64
  bloom_k :: u64

text \<open>
  The product with 0.69 is in the type \<open>double\<close>. For less than 100 bits per key it is at least 0.01
  away from every integer other than 0, and from 44 on the result is cut to 30, so the exact product
  rounded down is what the constructor keeps. The number of bits is not negative.
\<close>

definition BloomFilterPolicy :: "nat \<Rightarrow> bloom" where
  "BloomFilterPolicy bits_per_key =
     (let k = bits_per_key * 69 div 100;
          k = (if k < 1 then 1 else k);
          k = (if k > 30 then 30 else k)
      in \<lparr>bloom_bits = word_of_nat bits_per_key, bloom_k = word_of_nat k\<rparr>)"

text \<open>The probes of one key, with the number of those left.\<close>

fun probe_set :: "nat \<Rightarrow> u32 \<Rightarrow> u32 \<Rightarrow> u64 \<Rightarrow> bytes \<Rightarrow> bytes" where
  "probe_set 0 h delta bits array = array"
| "probe_set (Suc j) h delta bits array =
     (let bitpos = unat (ucast (ucast h mod bits) :: u32)
      in probe_set j (h + delta) delta bits
           (array[bitpos div 8 := array ! (bitpos div 8) OR push_bit (bitpos mod 8) 1]))"

definition bloom_add :: "bloom \<Rightarrow> u64 \<Rightarrow> slice \<Rightarrow> bytes \<Rightarrow> bytes" where
  "bloom_add p bits key array =
     (let h = BloomHash key; delta = drop_bit 17 h OR push_bit 15 h
      in probe_set (unat (bloom_k p)) h delta bits array)"

definition bloom_CreateFilter :: "bloom \<Rightarrow> slice list \<Rightarrow> int \<Rightarrow> bytes \<Rightarrow> bytes" where
  "bloom_CreateFilter p keys n dst =
     (let bits = word_of_int n * bloom_bits p;
          bits = (if bits < 64 then 64 else bits);
          nbytes = (bits + 7) div 8;
          bits = nbytes * 8;
          init_size = length dst;
          dst = dst @ replicate (unat nbytes) 0 @ [ucast (bloom_k p)]
      in take init_size dst @ fold (bloom_add p bits) (take (nat n) keys) (drop init_size dst))"

fun probe_test :: "nat \<Rightarrow> u32 \<Rightarrow> u32 \<Rightarrow> u64 \<Rightarrow> bytes \<Rightarrow> bool" where
  "probe_test 0 h delta bits array = True"
| "probe_test (Suc j) h delta bits array =
     (let bitpos = unat (ucast (ucast h mod bits) :: u32)
      in if array ! (bitpos div 8) AND push_bit (bitpos mod 8) 1 = 0 then False
         else probe_test j (h + delta) delta bits array)"

definition bloom_KeyMayMatch :: "slice \<Rightarrow> slice \<Rightarrow> bool" where
  "bloom_KeyMayMatch key bloom_filter =
     (let len = length bloom_filter in
      if len < 2 then False
      else
        let bits = word_of_nat ((len - 1) * 8);
            k = (scast (bloom_filter ! (len - 1)) :: u64)
        in if k > 30 then True
           else
             let h = BloomHash key; delta = drop_bit 17 h OR push_bit 15 h
             in probe_test (unat k) h delta bits bloom_filter)"

definition bloom_policy :: "nat \<Rightarrow> filter_policy" where
  "bloom_policy bits_per_key =
     \<lparr>CreateFilter = bloom_CreateFilter (BloomFilterPolicy bits_per_key), KeyMayMatch = bloom_KeyMayMatch\<rparr>"

text \<open>Every probe tests the bit that was set, and bits are never cleared.\<close>

definition probe_at :: "bytes \<Rightarrow> nat \<Rightarrow> bool" where
  "probe_at array p = bit (array ! (p div 8)) (p mod 8)"

lemma length_probe_set [simp]: "length (probe_set j h d bits array) = length array"
  by (induction j arbitrary: h array) (simp_all add: Let_def)

lemma probe_update:
  assumes "p div 8 < length array"
  shows "probe_at (array[q div 8 := array ! (q div 8) OR 2 ^ (q mod 8)]) p \<longleftrightarrow> probe_at array p \<or> p = q"
proof (cases "p div 8 = q div 8")
  case True
  then have "p = q \<longleftrightarrow> p mod 8 = q mod 8" by (metis div_mult_mod_eq)
  moreover have "p mod 8 < 8" by simp
  ultimately show ?thesis using True assms by (auto simp: probe_at_def bit_or_iff bit_exp_iff)
qed (auto simp: probe_at_def)

lemma probe_set_keeps: "p div 8 < length array \<Longrightarrow> probe_at array p \<Longrightarrow> probe_at (probe_set j h d bits array) p"
  by (induction j arbitrary: h array) (simp_all add: Let_def probe_update)

lemma probe_zero: "array ! (p div 8) AND 2 ^ (p mod 8) = 0 \<longleftrightarrow> \<not> probe_at array p"
  unfolding probe_at_def by (rule and_exp_eq_0_iff_not_bit)

lemma probe_position:
  assumes "0 < bits" and "unat bits = 8 * n"
  shows "unat (ucast (ucast (h :: u32) mod bits :: u64) :: u32) div 8 < n"
proof -
  have h: "unat (ucast h :: u64) = unat h"
    using unat_u32_less [of h] by (simp add: unsigned_ucast_eq take_bit_nat_eq_self)
  have "unat (ucast h mod bits :: u64) < 8 * n"
    using assms by (simp add: unat_mod_distrib word_less_nat_alt)
  moreover have "unat (ucast h mod bits :: u64) < 2 ^ 32"
    using le_less_trans [OF mod_less_eq_dividend unat_u32_less [of h]] by (simp add: unat_mod_distrib h)
  ultimately show ?thesis by (simp add: unsigned_ucast_eq take_bit_nat_eq_self)
qed

text \<open>A probe of the array is answered yes after the same probes have set their bits.\<close>

lemma probe_test_mono:
  assumes "\<forall>p. p div 8 < n \<longrightarrow> probe_at a p \<longrightarrow> probe_at b p" and "0 < bits" and "unat bits = 8 * n"
  shows "probe_test j h d bits a \<Longrightarrow> probe_test j h d bits b"
  using assms probe_position [OF assms(2,3)]
  by (induction j arbitrary: h) (auto simp: Let_def probe_zero split: if_splits)

lemma probe_test_set:
  assumes "0 < bits" and "unat bits = 8 * n" and "n \<le> length array"
  shows "probe_test j h d bits (probe_set j h d bits array)"
  using assms(3)
proof (induction j arbitrary: h array)
  case (Suc j)
  define q where "q = unat (ucast (ucast h mod bits :: u64) :: u32)"
  have q: "q div 8 < length array" using probe_position [OF assms(1,2), of h] Suc.prems by (simp add: q_def)
  have "probe_at (array[q div 8 := array ! (q div 8) OR 2 ^ (q mod 8)]) q" using q by (simp add: probe_update)
  from probe_set_keeps [OF _ this, of j "h + d" d bits] q Suc show ?case
    by (simp add: Let_def q_def [symmetric] probe_zero)
qed simp

lemma length_bloom_add [simp]: "length (bloom_add p bits k array) = length array"
  by (simp add: bloom_add_def Let_def)

lemma length_bloom_adds [simp]: "length (fold (bloom_add p bits) ks array) = length array"
  by (induction ks arbitrary: array) simp_all

lemma bloom_adds_keep:
  "q div 8 < length array \<Longrightarrow> probe_at array q \<Longrightarrow> probe_at (fold (bloom_add p bits) ks array) q"
  by (induction ks arbitrary: array) (simp_all add: bloom_add_def Let_def probe_set_keeps)

lemma bloom_adds_test:
  assumes "0 < bits" and "unat bits = 8 * n" and "n \<le> length array" and "k \<in> set ks"
  shows "probe_test (unat (bloom_k p)) (BloomHash k) (drop_bit 17 (BloomHash k) OR push_bit 15 (BloomHash k)) bits
     (fold (bloom_add p bits) ks array)" (is "probe_test ?j ?h ?d bits _")
  using assms(3,4)
proof (induction ks arbitrary: array)
  case (Cons k' ks)
  show ?case
  proof (cases "k \<in> set ks")
    case True
    with Cons show ?thesis by simp
  next
    case False
    with Cons have k: "k' = k" by simp
    have "probe_test ?j ?h ?d bits (bloom_add p bits k array)"
      using probe_test_set [OF assms(1,2) Cons.prems(1)] by (simp add: bloom_add_def Let_def)
    from probe_test_mono [OF _ assms(1,2) this] Cons.prems(1) bloom_adds_keep
    show ?thesis by (simp add: k)
  qed
qed simp

text \<open>The number of probes, kept behind the array, is not touched by them and read back as it is.\<close>

lemma probe_set_above:
  assumes "0 < bits" and "unat bits = 8 * n" and "n \<le> i"
  shows "probe_set j h d bits array ! i = array ! i"
proof -
  have "unat (ucast (ucast (h :: u32) mod bits :: u64) :: u32) div 8 \<noteq> i" for h
    using probe_position [OF assms(1,2), of h] assms(3) by simp
  then show ?thesis by (induction j arbitrary: h array) (simp_all add: Let_def)
qed

lemma bloom_adds_above:
  assumes "0 < bits" and "unat bits = 8 * n" and "n \<le> i"
  shows "fold (bloom_add p bits) ks array ! i = array ! i"
  by (induction ks arbitrary: array) (simp_all add: bloom_add_def Let_def probe_set_above [OF assms])

lemma probes_range: "bloom_k (BloomFilterPolicy b) = word_of_nat (max 1 (min 30 (b * 69 div 100)))"
  by (auto simp: BloomFilterPolicy_def Let_def max_def min_def)

lemma probes_read:
  "(scast (ucast (bloom_k (BloomFilterPolicy b)) :: u8) :: u64) = bloom_k (BloomFilterPolicy b)"
  "bloom_k (BloomFilterPolicy b) \<le> 30"
proof -
  define k where "k = max 1 (min 30 (b * 69 div 100))"
  then have k: "k \<in> set [1..<31]" by auto
  have "\<forall>k\<in>set [1..<31]. (scast (ucast (word_of_nat k :: u64) :: u8) :: u64) = word_of_nat k \<and> (word_of_nat k :: u64) \<le> 30"
    by (simp add: upt_rec)
  with k show "(scast (ucast (bloom_k (BloomFilterPolicy b)) :: u8) :: u64) = bloom_k (BloomFilterPolicy b)"
    "bloom_k (BloomFilterPolicy b) \<le> 30"
    unfolding probes_range k_def [symmetric] by blast+
qed

lemma bloom_create:
  assumes "length ks < 2 ^ 31" and "b < 2 ^ 31"
  defines "p \<equiv> BloomFilterPolicy b"
  obtains m bits where "unat bits = 8 * m" and "8 \<le> m" and "m < 2 ^ 60"
    and "\<And>dst. bloom_CreateFilter p ks (int (length ks)) dst =
      dst @ fold (bloom_add p bits) ks (replicate m 0 @ [ucast (bloom_k p)])"
proof -
  have "length ks * b \<le> 2 ^ 31 * 2 ^ 31" using assms(1,2) by (intro mult_le_mono) simp_all
  then have prod: "length ks * b \<le> 2 ^ 62" by simp
  define n where "n = max 64 (length ks * b)"
  define m where "m = (n + 7) div 8"
  have m: "8 \<le> m" "m < 2 ^ 60" using prod by (auto simp: m_def n_def)
  define w where "w = (word_of_int (int (length ks)) :: u64) * bloom_bits p"
  have "w = word_of_nat (length ks * b)" by (simp add: w_def p_def BloomFilterPolicy_def Let_def)
  then have "unat w = length ks * b" using prod by (simp add: unat_small del: of_nat_mult)
  then have n: "unat (if w < 64 then 64 else w) = n" by (auto simp: n_def word_less_nat_alt)
  define bits where "bits = ((if w < 64 then 64 else w) + 7) div 8 * 8"
  have "unat ((if w < 64 then 64 else w) + 7) = n + 7"
    using n prod by (simp add: unat_word_ariths n_def del: if_split)
  then have nbytes: "unat (((if w < 64 then 64 else w) + 7) div 8) = m"
    by (simp add: unat_div m_def)
  then have "unat bits = 8 * m" using m by (simp add: bits_def unat_word_ariths)
  moreover have "bloom_CreateFilter p ks (int (length ks)) dst =
      dst @ fold (bloom_add p bits) ks (replicate m 0 @ [ucast (bloom_k p)])" for dst
    unfolding bloom_CreateFilter_def Let_def w_def [symmetric] bits_def [symmetric] nbytes by simp
  ultimately show thesis using that m by blast
qed

lemma bloom_match:
  assumes "length ks < 2 ^ 31" and "b < 2 ^ 31" and "k \<in> set ks"
  shows "bloom_KeyMayMatch k (bloom_CreateFilter (BloomFilterPolicy b) ks (int (length ks)) [])"
proof -
  let ?p = "BloomFilterPolicy b"
  from bloom_create [OF assms(1,2)] obtain m bits where bits: "unat bits = 8 * m" "8 \<le> m" "m < 2 ^ 60"
    and f: "\<And>dst. bloom_CreateFilter ?p ks (int (length ks)) dst =
      dst @ fold (bloom_add ?p bits) ks (replicate m 0 @ [ucast (bloom_k ?p)])" by blast
  let ?a = "fold (bloom_add ?p bits) ks (replicate m 0 @ [ucast (bloom_k ?p)])"
  have "0 < bits" using bits(1,2) by (simp add: word_less_nat_alt)
  note probes = bloom_adds_test [OF this bits(1), of "replicate m 0 @ [ucast (bloom_k ?p)]" k ks ?p]
    and above = bloom_adds_above [OF this bits(1) order_refl, of ?p ks "replicate m 0 @ [ucast (bloom_k ?p)]"]
  have "word_of_nat (m * 8) = bits" using bits(1) by (metis mult.commute word_of_nat_unat)
  with probes above assms(3) bits(2) show ?thesis
    by (simp add: f bloom_KeyMayMatch_def Let_def probes_read nth_append not_less)
qed

interpretation bloom: filter_contract "bloom_policy b" "\<lambda>n. n < 2 ^ 31 \<and> b < 2 ^ 31" "\<lambda>_. True" for b
proof unfold_locales
  fix ks :: "slice list" and dst k
  assume room: "length ks < 2 ^ 31 \<and> b < 2 ^ 31"
  from bloom_create [of ks b] room
  show "CreateFilter (bloom_policy b) ks (int (length ks)) dst = dst @ CreateFilter (bloom_policy b) ks (int (length ks)) []"
    unfolding bloom_policy_def by (metis append_Nil filter_policy.select_convs(1))
  show "k \<in> set ks \<Longrightarrow> KeyMayMatch (bloom_policy b) k (CreateFilter (bloom_policy b) ks (int (length ks)) [])"
    using bloom_match [of ks b k] room by (simp add: bloom_policy_def)
qed

section \<open>Filters for internal keys\<close>

text \<open>The keys of the array are cut to their user keys in place.\<close>

definition InternalFilterPolicy :: "filter_policy \<Rightarrow> filter_policy" where
  "InternalFilterPolicy user_policy =
     \<lparr>CreateFilter = (\<lambda>keys n dst. CreateFilter user_policy
        (map ExtractUserKey (take (nat n) keys) @ drop (nat n) keys) n dst),
      KeyMayMatch = (\<lambda>key f. KeyMayMatch user_policy (ExtractUserKey key) f)\<rparr>"

context filter_contract
begin

lemma internal_contract:
  "filter_contract (InternalFilterPolicy pol) room (\<lambda>k. 8 \<le> length k \<and> valid (ExtractUserKey k))"
proof unfold_locales
  fix ks :: "slice list" and dst k
  assume room: "room (length ks)" and ok: "list_all (\<lambda>k. 8 \<le> length k \<and> valid (ExtractUserKey k)) ks"
  let ?us = "map ExtractUserKey ks"
  have us: "room (length ?us)" "list_all valid ?us" using room ok by (simp_all add: list_all_iff)
  show "CreateFilter (InternalFilterPolicy pol) ks (int (length ks)) dst =
      dst @ CreateFilter (InternalFilterPolicy pol) ks (int (length ks)) []"
    using appends [OF us, of dst] by (simp add: InternalFilterPolicy_def)
  assume "k \<in> set ks"
  then show "KeyMayMatch (InternalFilterPolicy pol) k (CreateFilter (InternalFilterPolicy pol) ks (int (length ks)) [])"
    using matches [OF us, of "ExtractUserKey k"] by (simp add: InternalFilterPolicy_def)
qed

end

interpretation internal_bloom: filter_contract "InternalFilterPolicy (bloom_policy b)"
  "\<lambda>n. n < 2 ^ 31 \<and> b < 2 ^ 31" "\<lambda>k. 8 \<le> length k" for b
  using bloom.internal_contract by simp

section \<open>The filter block\<close>

definition kFilterBaseLg :: nat where
  "kFilterBaseLg = 11"

definition kFilterBase :: nat where
  "kFilterBase = 2 ^ kFilterBaseLg"

record filter_builder =
  fb_policy :: filter_policy
  fb_keys :: bytes
  fb_start :: "nat list"
  fb_result :: bytes
  fb_offsets :: "u32 list"

definition FilterBlockBuilder :: "filter_policy \<Rightarrow> filter_builder" where
  "FilterBlockBuilder policy = \<lparr>fb_policy = policy, fb_keys = [], fb_start = [], fb_result = [], fb_offsets = []\<rparr>"

text \<open>\<open>tmp_keys_\<close> is filled and cleared here; the number of keys is cast to \<open>int\<close>.\<close>

definition GenerateFilter :: "filter_builder \<Rightarrow> filter_builder" where
  "GenerateFilter b =
     (let num_keys = length (fb_start b) in
      if num_keys = 0 then b\<lparr>fb_offsets := fb_offsets b @ [word_of_nat (length (fb_result b))]\<rparr>
      else
        let start = fb_start b @ [length (fb_keys b)];
            tmp_keys = map (\<lambda>i. take (start ! (i + 1) - start ! i) (drop (start ! i) (fb_keys b))) [0..<num_keys];
            n = sint (word_of_nat num_keys :: u32)
        in b\<lparr>fb_offsets := fb_offsets b @ [word_of_nat (length (fb_result b))],
             fb_result := CreateFilter (fb_policy b) tmp_keys n (fb_result b), fb_keys := [], fb_start := []\<rparr>)"

lemma GenerateFilter_offsets [simp]: "length (fb_offsets (GenerateFilter b)) = Suc (length (fb_offsets b))"
  by (simp add: GenerateFilter_def Let_def)

function StartBlock_loop :: "nat \<Rightarrow> filter_builder \<Rightarrow> filter_builder" where
  "StartBlock_loop filter_index b =
     (if length (fb_offsets b) < filter_index then StartBlock_loop filter_index (GenerateFilter b) else b)"
  by pat_completeness auto
termination by (relation "measure (\<lambda>(i, b). i - length (fb_offsets b))") auto

declare StartBlock_loop.simps [simp del]

definition StartBlock :: "u64 \<Rightarrow> filter_builder \<Rightarrow> filter_builder" where
  "StartBlock block_offset b = (let filter_index = unat block_offset div kFilterBase in StartBlock_loop filter_index b)"

definition AddKey :: "slice \<Rightarrow> filter_builder \<Rightarrow> filter_builder" where
  "AddKey key b = b\<lparr>fb_start := fb_start b @ [length (fb_keys b)], fb_keys := fb_keys b @ key\<rparr>"

definition filter_Finish :: "filter_builder \<Rightarrow> slice \<times> filter_builder" where
  "filter_Finish b =
     (let b = (if fb_start b \<noteq> [] then GenerateFilter b else b);
          array_offset = (word_of_nat (length (fb_result b)) :: u32);
          result = fold (\<lambda>off r. PutFixed32 r off) (fb_offsets b) (fb_result b);
          result = PutFixed32 result array_offset @ [word_of_nat kFilterBaseLg]
      in (result, b\<lparr>fb_result := result\<rparr>))"

text \<open>
  The reader; \<open>data_\<close> is a null pointer exactly where \<open>num_\<close> is 0. \<open>offset_\<close> is kept as a distance
  from it. The last byte of the contents is a plain \<open>char\<close>, signed on the platforms of the
  application.
\<close>

record filter_reader =
  fr_policy :: filter_policy
  fr_data :: slice
  fr_offset :: nat
  fr_num :: nat
  fr_base_lg :: u64

definition FilterBlockReader :: "filter_policy \<Rightarrow> slice \<Rightarrow> filter_reader" where
  "FilterBlockReader policy contents =
     (let r = \<lparr>fr_policy = policy, fr_data = [], fr_offset = 0, fr_num = 0, fr_base_lg = 0\<rparr>;
          n = length contents
      in if n < 5 then r
         else
           let r = r\<lparr>fr_base_lg := scast (contents ! (n - 1))\<rparr>;
               last_word = unat (DecodeFixed32 (drop (n - 5) contents))
           in if last_word > n - 5 then r
              else r\<lparr>fr_data := contents, fr_offset := last_word, fr_num := (n - 5 - last_word) div 4\<rparr>)"

text \<open>
  A shift of a 64-bit integer by 64 or more has no defined result in C++, hence \<open>None\<close>.
\<close>

definition block_KeyMayMatch :: "filter_reader \<Rightarrow> u64 \<Rightarrow> slice \<Rightarrow> bool option" where
  "block_KeyMayMatch r block_offset key =
     (if fr_base_lg r \<ge> 64 then None
      else
        let index = unat (drop_bit (unat (fr_base_lg r)) block_offset) in
        if index < fr_num r then
          let start = unat (DecodeFixed32 (drop (fr_offset r + index * 4) (fr_data r)));
              limit = unat (DecodeFixed32 (drop (fr_offset r + index * 4 + 4) (fr_data r)))
          in if start \<le> limit \<and> limit \<le> fr_offset r
             then Some (KeyMayMatch (fr_policy r) key (take (limit - start) (drop start (fr_data r))))
             else if start = limit then Some False
             else Some True
        else Some True)"

section \<open>What a filter block holds\<close>

text \<open>
  A builder stands for the lists of keys whose filters it has generated, in their order, and the
  list of those added since.
\<close>

definition filter_of :: "filter_policy \<Rightarrow> slice list \<Rightarrow> bytes" where
  "filter_of pol ks = (if ks = [] then [] else CreateFilter pol ks (int (length ks)) [])"

definition filters :: "filter_policy \<Rightarrow> slice list list \<Rightarrow> bytes" where
  "filters pol gs = concat (map (filter_of pol) gs)"

definition filter_offsets :: "filter_policy \<Rightarrow> slice list list \<Rightarrow> u32 list" where
  "filter_offsets pol gs = map (\<lambda>i. word_of_nat (length (filters pol (take i gs)))) [0..<length gs]"

definition builder_holds :: "filter_builder \<Rightarrow> filter_policy \<Rightarrow> slice list list \<Rightarrow> slice list \<Rightarrow> bool" where
  "builder_holds b pol gs ks \<longleftrightarrow>
     fb_policy b = pol \<and> fb_result b = filters pol gs \<and> fb_offsets b = filter_offsets pol gs
     \<and> fb_keys b = concat ks \<and> fb_start b = map (\<lambda>i. length (concat (take i ks))) [0..<length ks]"

lemma filters_append: "filters pol (gs @ hs) = filters pol gs @ filters pol hs"
  by (simp add: filters_def)

lemma length_filter_offsets [simp]: "length (filter_offsets pol gs) = length gs"
  by (simp add: filter_offsets_def)

lemma filters_snoc: "filters pol (gs @ [ks]) = filters pol gs @ filter_of pol ks"
  by (simp add: filters_def)

lemma filter_offsets_snoc:
  "filter_offsets pol (gs @ [ks]) = filter_offsets pol gs @ [word_of_nat (length (filters pol gs))]"
  by (simp add: filter_offsets_def)

lemma concat_piece:
  assumes "i < length ks"
  shows "take (length (concat (take (Suc i) ks)) - length (concat (take i ks)))
    (drop (length (concat (take i ks))) (concat ks)) = ks ! i"
proof -
  have ks: "concat ks = concat (take i ks) @ ks ! i @ concat (drop (Suc i) ks)"
    using assms by (metis append.assoc append_take_drop_id concat.simps(2) concat_append id_take_nth_drop)
  have "concat (take (Suc i) ks) = concat (take i ks) @ ks ! i" using assms by (simp add: take_Suc_conv_app_nth)
  then show ?thesis unfolding ks by simp
qed

lemma start_nth:
  "i \<le> length ks \<Longrightarrow> (map (\<lambda>i. length (concat (take i ks))) [0..<length ks] @ [length (concat ks)]) ! i =
    length (concat (take i ks))"
  by (auto simp: nth_append)

lemma sint_count: "n < 2 ^ 31 \<Longrightarrow> sint (word_of_nat n :: u32) = int n"
  by (simp add: sint_uint unat_small uint_nat signed_take_bit_int_eq_self)

lemma holds_new: "builder_holds (FilterBlockBuilder pol) pol [] []"
  by (simp add: builder_holds_def FilterBlockBuilder_def filters_def filter_offsets_def)

lemma holds_AddKey: "builder_holds b pol gs ks \<Longrightarrow> builder_holds (AddKey k b) pol gs (ks @ [k])"
  by (simp add: builder_holds_def AddKey_def)

lemma holds_AddKeys: "builder_holds b pol gs ks \<Longrightarrow> builder_holds (fold AddKey ks' b) pol gs (ks @ ks')"
  by (induction ks' arbitrary: b ks) (use holds_AddKey in fastforce)+

context filter_contract
begin

lemma holds_Generate:
  assumes "builder_holds b pol gs ks" and "room (length ks)" and "list_all valid ks" and "length ks < 2 ^ 31"
  shows "builder_holds (GenerateFilter b) pol (gs @ [ks]) []"
proof (cases "ks = []")
  case True
  with assms(1) show ?thesis
    by (simp add: builder_holds_def GenerateFilter_def filters_snoc filter_offsets_snoc filter_of_def)
next
  case False
  have "map (\<lambda>i. take (length (concat (take (Suc i) ks)) - length (concat (take i ks)))
      (drop (length (concat (take i ks))) (concat ks))) [0..<length ks] = ks"
    by (rule nth_equalityI) (simp_all add: concat_piece)
  moreover have "map (\<lambda>i. take ((fb_start b @ [length (fb_keys b)]) ! (i + 1) - (fb_start b @ [length (fb_keys b)]) ! i)
      (drop ((fb_start b @ [length (fb_keys b)]) ! i) (fb_keys b))) [0..<length ks] = 
    map (\<lambda>i. take (length (concat (take (Suc i) ks)) - length (concat (take i ks)))
      (drop (length (concat (take i ks))) (concat ks))) [0..<length ks]"
    using assms(1) unfolding builder_holds_def by (intro map_cong refl) (simp add: start_nth Suc_le_eq)
  ultimately show ?thesis
    using assms(1) False appends [OF assms(2,3), of "filters pol gs"]
    by (simp add: builder_holds_def GenerateFilter_def filters_snoc filter_offsets_snoc filter_of_def
        sint_count [OF assms(4)] Let_def)
qed

lemma holds_Start:
  assumes "builder_holds b pol gs ks" and "room (length ks)" and "list_all valid ks" and "length ks < 2 ^ 31"
    and "room 0"
  obtains gs' ks' where "builder_holds (StartBlock_loop i b) pol gs' ks'"
    and "length gs' = max i (length gs)" and "\<And>j. j \<le> length gs \<Longrightarrow> (gs' @ [ks']) ! j = (gs @ [ks]) ! j"
    and "ks' = ks \<or> ks' = []" and "set gs' \<subseteq> set gs \<union> {ks, []}"
  using assms(1-4)
proof (induction i b arbitrary: gs ks thesis rule: StartBlock_loop.induct)
  case (1 i b)
  show ?case
  proof (cases "length gs < i")
    case False
    with 1(3) have "StartBlock_loop i b = b"
      by (simp add: StartBlock_loop.simps [of i b] builder_holds_def filter_offsets_def)
    with 1(2) [of gs ks] 1(3) False show ?thesis by (auto simp: max_def)
  next
    case True
    then have l: "length (fb_offsets b) < i" using 1(3) by (simp add: builder_holds_def filter_offsets_def)
    note g = holds_Generate [OF 1(3-6)]
    obtain gs' ks' where r: "builder_holds (StartBlock_loop i (GenerateFilter b)) pol gs' ks'"
      "length gs' = max i (length (gs @ [ks]))"
      "\<And>j. j \<le> length (gs @ [ks]) \<Longrightarrow> (gs' @ [ks']) ! j = (gs @ [ks] @ [[]]) ! j" "ks' = []"
      "set gs' \<subseteq> set (gs @ [ks]) \<union> {[]}"
      using 1(1) [OF l _ g] assms(5) by auto
    show ?thesis
    proof (rule 1(2) [of gs' ks'])
      show "builder_holds (StartBlock_loop i b) pol gs' ks'" using r(1) l by (simp add: StartBlock_loop.simps [of i b])
      show "length gs' = max i (length gs)" using r(2) True by simp
      show "(gs' @ [ks']) ! j = (gs @ [ks]) ! j" if "j \<le> length gs" for j
        using r(3) [of j] that by (simp add: nth_append)
    qed (use r(4,5) in auto)
  qed
qed

text \<open>The bytes of a finished block, and what the reader finds in them.\<close>

lemma holds_Finish:
  assumes "builder_holds b pol gs ks" and "room (length ks)" and "list_all valid ks" and "length ks < 2 ^ 31"
  obtains gs' where "fst (filter_Finish b) = filters pol gs' @ concat (map EncodeFixed32 (filter_offsets pol gs'))
      @ EncodeFixed32 (word_of_nat (length (filters pol gs'))) @ [11]"
    and "\<And>j. j \<le> length gs \<Longrightarrow> (gs @ [ks]) ! j \<noteq> [] \<Longrightarrow> j < length gs' \<and> gs' ! j = (gs @ [ks]) ! j"
    and "set gs' \<subseteq> set (gs @ [ks])"
proof -
  have puts: "fold (\<lambda>off r. r @ EncodeFixed32 off) offs r = r @ concat (map EncodeFixed32 offs)" for offs r
    by (induction offs arbitrary: r) simp_all
  define gs' where "gs' = (if ks = [] then gs else gs @ [ks])"
  have "builder_holds (if fb_start b \<noteq> [] then GenerateFilter b else b) pol gs' (if ks = [] then ks else [])"
    using holds_Generate [OF assms] assms(1) by (auto simp: gs'_def builder_holds_def)
  then have "fst (filter_Finish b) = filters pol gs' @ concat (map EncodeFixed32 (filter_offsets pol gs'))
      @ EncodeFixed32 (word_of_nat (length (filters pol gs'))) @ [11]"
    by (simp add: filter_Finish_def builder_holds_def puts kFilterBaseLg_def PutFixed32_def Let_def)
  moreover have "j < length gs' \<and> gs' ! j = (gs @ [ks]) ! j" if "j \<le> length gs" "(gs @ [ks]) ! j \<noteq> []" for j
    using that by (auto simp: gs'_def nth_append split: if_splits)
  moreover have "set gs' \<subseteq> set (gs @ [ks])" by (auto simp: gs'_def)
  ultimately show thesis using that by blast
qed

end

lemma filters_length_mono: "length (filters pol (take i gs)) \<le> length (filters pol gs)"
  by (metis append_take_drop_id filters_append le_add1 length_append)

lemma filter_piece:
  assumes "i < length gs"
  shows "filters pol gs = filters pol (take i gs) @ filter_of pol (gs ! i) @ filters pol (drop (Suc i) gs)"
    and "filters pol (take (Suc i) gs) = filters pol (take i gs) @ filter_of pol (gs ! i)"
proof -
  show "filters pol gs = filters pol (take i gs) @ filter_of pol (gs ! i) @ filters pol (drop (Suc i) gs)"
    using arg_cong [OF id_take_nth_drop [OF assms], of "filters pol"] by (simp add: filters_def)
  show "filters pol (take (Suc i) gs) = filters pol (take i gs) @ filter_of pol (gs ! i)"
    using assms by (simp add: filters_def take_Suc_conv_app_nth)
qed

lemma reader_finds:
  assumes f: "f = filters pol gs @ concat (map EncodeFixed32 (filter_offsets pol gs))
      @ EncodeFixed32 (word_of_nat (length (filters pol gs))) @ [11]"
    and small: "length f < 2 ^ 32" and i: "unat off div kFilterBase < length gs"
  shows "block_KeyMayMatch (FilterBlockReader pol f) off k =
    Some (KeyMayMatch pol k (filter_of pol (gs ! (unat off div kFilterBase))))"
proof -
  let ?F = "filters pol gs" and ?i = "unat off div kFilterBase"
  have len: "length f = length ?F + length gs * 4 + 5" by (simp add: f)
  have word: "unat (word_of_nat (length (filters pol (take j gs))) :: u32) = length (filters pol (take j gs))" for j
    using filters_length_mono [of pol j gs] len small by (intro unat_small) simp
  define ws where "ws = filter_offsets pol gs @ [word_of_nat (length ?F)]"
  have ws: "length ws = Suc (length gs)" "\<And>j. j \<le> length gs \<Longrightarrow> unat (ws ! j) = length (filters pol (take j gs))"
    using word word [of "length gs"] by (auto simp: ws_def filter_offsets_def nth_append)
  have f': "f = ?F @ concat (map EncodeFixed32 ws) @ [11]" by (simp add: f ws_def)
  have at: "DecodeFixed32 (drop (length ?F + j * 4) f) = ws ! j" if "j \<le> length gs" for j
    using DecodeFixed32_word [of j ws ?F "[11]"] that ws(1) by (simp add: f')
  have "drop (length f - 5) f = drop (length ?F + length gs * 4) f" by (simp add: len)
  then have last: "DecodeFixed32 (drop (length f - 5) f) = ws ! length gs" using at by simp
  have lg: "f ! (length f - Suc 0) = 11" by (simp add: f' nth_append len)
  have r: "FilterBlockReader pol f = \<lparr>fr_policy = pol, fr_data = f, fr_offset = length ?F, fr_num = length gs, fr_base_lg = 11\<rparr>"
    using ws(2) [of "length gs"] by (simp add: FilterBlockReader_def Let_def last lg) (simp add: len)
  have shift: "unat (drop_bit 11 off) = ?i"
    using unat_u64_less [of off]
    by (simp only: unsigned_drop_bit_eq) (simp add: drop_bit_eq_div take_bit_nat_eq_self kFilterBase_def kFilterBaseLg_def)
  have start: "DecodeFixed32 (drop (length ?F + ?i * 4) f) = ws ! ?i"
    and limit: "DecodeFixed32 (drop (length ?F + ?i * 4 + 4) f) = ws ! Suc ?i"
    using at [of ?i] at [of "Suc ?i"] i by (simp_all add: add_ac)
  have piece: "take (length (filters pol (take (Suc ?i) gs)) - length (filters pol (take ?i gs)))
      (drop (length (filters pol (take ?i gs))) f) = filter_of pol (gs ! ?i)"
    unfolding f' using filter_piece [OF i, of pol] by simp
  have "length (filters pol (take ?i gs)) \<le> length (filters pol (take (Suc ?i) gs))"
    "length (filters pol (take (Suc ?i) gs)) \<le> length ?F"
    using filter_piece [OF i, of pol] filters_length_mono by simp_all
  then show ?thesis
    using i ws(2) by (simp add: block_KeyMayMatch_def r Let_def shift start limit piece)
qed

text \<open>The calls of a builder: a \<open>StartBlock\<close> and some \<open>AddKey\<close> for each data block, then \<open>Finish\<close>.\<close>

definition filter_block :: "u64 \<times> slice list \<Rightarrow> filter_builder \<Rightarrow> filter_builder" where
  "filter_block = (\<lambda>(block_offset, ks) b. fold AddKey ks (StartBlock block_offset b))"

definition build_filters :: "filter_policy \<Rightarrow> (u64 \<times> slice list) list \<Rightarrow> slice" where
  "build_filters pol blocks = fst (filter_Finish (fold filter_block blocks (FilterBlockBuilder pol)))"

definition filter_number :: "u64 \<times> slice list \<Rightarrow> nat" where
  "filter_number blk = unat (fst blk) div kFilterBase"

lemma numbers_sorted: "sorted (map (unat \<circ> fst) blocks) \<Longrightarrow> sorted (map filter_number blocks)"
  by (auto simp: sorted_wrt_map filter_number_def elim!: sorted_wrt_mono_rel [rotated] intro: div_le_mono)

context filter_contract
begin

lemma blocks_held:
  assumes "\<forall>n \<le> length (concat (map snd blocks)). room n \<and> n < 2 ^ 31"
    and "list_all valid (concat (map snd blocks))" and "sorted (map filter_number blocks)"
  shows "\<exists>gs ks. builder_holds (fold filter_block blocks (FilterBlockBuilder pol)) pol gs ks
    \<and> (\<forall>g\<in>set (gs @ [ks]). length g \<le> length (concat (map snd blocks)) \<and> list_all valid g)
    \<and> length gs = (if blocks = [] then 0 else filter_number (last blocks))
    \<and> (\<forall>blk\<in>set blocks. filter_number blk \<le> length gs \<and> set (snd blk) \<subseteq> set ((gs @ [ks]) ! filter_number blk))"
  using assms
proof (induction blocks rule: rev_induct)
  case Nil
  then show ?case using holds_new [of pol] by auto
next
  case (snoc blk blocks)
  let ?i = "filter_number blk" and ?n = "length (concat (map snd blocks))"
  from snoc.prems snoc.IH obtain gs ks where
    h: "builder_holds (fold filter_block blocks (FilterBlockBuilder pol)) pol gs ks" and
    sizes: "\<forall>g\<in>set (gs @ [ks]). length g \<le> ?n \<and> list_all valid g" and
    gs: "length gs = (if blocks = [] then 0 else filter_number (last blocks))" and
    in_gs: "\<forall>blk\<in>set blocks. filter_number blk \<le> length gs \<and> set (snd blk) \<subseteq> set ((gs @ [ks]) ! filter_number blk)"
    by (auto simp: sorted_append)
  have le: "length gs \<le> ?i" using gs snoc.prems(3) by (auto simp: sorted_append)
  from sizes have ks: "length ks \<le> ?n" "list_all valid ks" by simp_all
  have room: "room (length ks)" "length ks < 2 ^ 31" "room 0" using snoc.prems(1) ks(1) by auto
  obtain gs' ks' where h': "builder_holds (StartBlock_loop ?i (fold filter_block blocks (FilterBlockBuilder pol))) pol gs' ks'"
    and l: "length gs' = max ?i (length gs)" and same: "\<And>j. j \<le> length gs \<Longrightarrow> (gs' @ [ks']) ! j = (gs @ [ks]) ! j"
    and ks': "ks' = ks \<or> ks' = []" "set gs' \<subseteq> set gs \<union> {ks, []}"
    using holds_Start [OF h room(1) ks(2) room(2,3)] by blast
  have "builder_holds (filter_block blk (fold filter_block blocks (FilterBlockBuilder pol))) pol gs' (ks' @ snd blk)"
    using holds_AddKeys [OF h', of "snd blk"]
    by (simp add: filter_block_def StartBlock_def Let_def filter_number_def case_prod_beta)
  moreover have "set (snd b) \<subseteq> set ((gs' @ [ks' @ snd blk]) ! filter_number b)" if "b \<in> set (blocks @ [blk])" for b
  proof (cases "b = blk")
    case True
    with l le show ?thesis by (simp add: nth_append)
  next
    case False
    with that in_gs have b: "filter_number b \<le> length gs" "set (snd b) \<subseteq> set ((gs @ [ks]) ! filter_number b)" by auto
    with same [OF b(1)] l le show ?thesis by (auto simp: nth_append split: if_splits)
  qed
  moreover have "filter_number b \<le> length gs'" if "b \<in> set (blocks @ [blk])" for b
    using that in_gs l by fastforce
  moreover have "length g \<le> length (concat (map snd (blocks @ [blk]))) \<and> list_all valid g"
    if "g \<in> set (gs' @ [ks' @ snd blk])" for g
  proof (cases "g \<in> set gs'")
    case True
    with ks'(2) sizes show ?thesis by fastforce
  next
    case False
    with that ks ks'(1) snoc.prems(2) show ?thesis by auto
  qed
  ultimately show ?case using l le by (intro exI [of _ gs'] exI [of _ "ks' @ snd blk"]) (simp add: max_def)
qed

lemma filter_block_matches:
  assumes "\<forall>n \<le> length (concat (map snd blocks)). room n \<and> n < 2 ^ 31"
    and "list_all valid (concat (map snd blocks))" and "sorted (map filter_number blocks)"
    and "length (build_filters pol blocks) < 2 ^ 32" and "blk \<in> set blocks" and "k \<in> set (snd blk)"
  shows "\<exists>ks. room (length ks) \<and> list_all valid ks \<and> k \<in> set ks \<and> (\<forall>k'.
    block_KeyMayMatch (FilterBlockReader pol (build_filters pol blocks)) (fst blk) k' =
      Some (KeyMayMatch pol k' (CreateFilter pol ks (int (length ks)) [])))"
proof -
  from blocks_held [OF assms(1-3)] obtain gs ks where
    h: "builder_holds (fold filter_block blocks (FilterBlockBuilder pol)) pol gs ks" and
    sizes: "\<forall>g\<in>set (gs @ [ks]). length g \<le> length (concat (map snd blocks)) \<and> list_all valid g" and
    blk: "filter_number blk \<le> length gs" "k \<in> set ((gs @ [ks]) ! filter_number blk)"
    using assms(5,6) by blast
  have r: "room (length ks)" "list_all valid ks" "length ks < 2 ^ 31" using assms(1) sizes by auto
  from holds_Finish [OF h r] blk obtain gs' where
    f: "build_filters pol blocks = filters pol gs' @ concat (map EncodeFixed32 (filter_offsets pol gs'))
      @ EncodeFixed32 (word_of_nat (length (filters pol gs'))) @ [11]" and
    i: "filter_number blk < length gs'" "k \<in> set (gs' ! filter_number blk)" and
    sub: "set gs' \<subseteq> set (gs @ [ks])"
    unfolding build_filters_def by (metis empty_iff empty_set)
  let ?g = "gs' ! filter_number blk"
  have "?g \<in> set (gs @ [ks])" using sub i(1) nth_mem by blast
  with sizes assms(1) have "room (length ?g)" "list_all valid ?g" by blast+
  moreover have "?g \<noteq> []" using i(2) by auto
  ultimately show ?thesis
    using reader_finds [OF f assms(4) i(1) [unfolded filter_number_def]] i(2)
    by (intro exI [of _ ?g]) (simp add: filter_of_def filter_number_def)
qed

end

section \<open>Properties\<close>

text \<open>
  A Bloom filter, of any number of bits per key and behind whatever was in the string, never
  denies one of its keys.
\<close>

theorem bloom_no_false_negative:
  assumes "length ks < 2 ^ 31" and "b < 2 ^ 31" and "k \<in> set ks"
  shows "bloom_KeyMayMatch k (drop (length dst) (bloom_CreateFilter (BloomFilterPolicy b) ks (int (length ks)) dst))"
proof -
  have room: "length ks < 2 ^ 31 \<and> b < 2 ^ 31" and v: "list_all (\<lambda>_. True) ks"
    using assms by (simp_all add: list_all_iff)
  from bloom.appends [OF room v, of dst] bloom.matches [OF room v assms(3)]
  show ?thesis by (simp add: bloom_policy_def)
qed

theorem bloom_no_false_negative_witness:
  "bloom_KeyMayMatch [104, 105] (drop 1 (bloom_CreateFilter (BloomFilterPolicy 10) [[], [104, 105]] 2 [7]))"
  using bloom_no_false_negative [of "[[], [104, 105]]" 10 "[104, 105]" "[7]"] by simp

text \<open>
  C37: The filter block of a table never hides an entry: with the keys of each data block given to the
  builder behind the offset of the block, and the offsets ascending, the reader that is asked at this
  offset for any internal key of the same user key, whatever its sequence number and type, says that
  the key may be there.
\<close>

theorem filter_block_no_false_negative:
  defines "pol \<equiv> \<lambda>b. InternalFilterPolicy (bloom_policy b)"
  assumes "length (concat (map snd blocks)) < 2 ^ 31" and "b < 2 ^ 31"
    and "\<forall>k\<in>set (concat (map snd blocks)). 8 \<le> length k"
    and "sorted (map (unat \<circ> fst) blocks)" and "length (build_filters (pol b) blocks) < 2 ^ 32"
    and "(off, ks) \<in> set blocks" and "k \<in> set ks" and "ExtractUserKey k' = ExtractUserKey k"
  shows "block_KeyMayMatch (FilterBlockReader (pol b) (build_filters (pol b) blocks)) off k' = Some True"
proof -
  note numbers = numbers_sorted [OF assms(5)]
  have room: "\<forall>n \<le> length (concat (map snd blocks)). (n < 2 ^ 31 \<and> b < 2 ^ 31) \<and> n < 2 ^ 31"
    and v: "list_all (\<lambda>k. 8 \<le> length k) (concat (map snd blocks))"
    using assms(2-4) by (simp_all add: list_all_iff)
  from internal_bloom.filter_block_matches [OF room v numbers assms(6) [unfolded pol_def] assms(7)] assms(8)
  obtain gs where g: "length gs < 2 ^ 31 \<and> b < 2 ^ 31" "list_all (\<lambda>k. 8 \<le> length k) gs" "k \<in> set gs" and
    m: "block_KeyMayMatch (FilterBlockReader (pol b) (build_filters (pol b) blocks)) off k' =
      Some (KeyMayMatch (pol b) k' (CreateFilter (pol b) gs (int (length gs)) []))"
    unfolding pol_def by auto
  have "KeyMayMatch (pol b) k' f = KeyMayMatch (pol b) k f" for f
    using assms(9) by (simp add: pol_def InternalFilterPolicy_def)
  with m internal_bloom.matches [OF g] show ?thesis by (simp add: pol_def)
qed

theorem filter_block_no_false_negative_witness:
  defines "blocks \<equiv> [(0, [[97, 1, 0, 0, 0, 0, 0, 0, 0]]), (5000, [[97, 1, 0, 0, 0, 0, 0, 0, 0], [98, 1, 0, 0, 0, 0, 0, 0, 0]])]"
    and "pol \<equiv> InternalFilterPolicy (bloom_policy 10)"
  shows "block_KeyMayMatch (FilterBlockReader pol (build_filters pol blocks)) 5000 [98, 0, 9, 0, 0, 0, 0, 0, 0] = Some True"
proof -
  have "length (build_filters pol blocks) < 2 ^ 32"
    by (simp add: Let_def blocks_def pol_def build_filters_def filter_block_def StartBlock_def StartBlock_loop.simps
        filter_Finish_def GenerateFilter_def FilterBlockBuilder_def AddKey_def kFilterBase_def kFilterBaseLg_def
        InternalFilterPolicy_def bloom_policy_def bloom_CreateFilter_def BloomFilterPolicy_def PutFixed32_def)
  then show ?thesis
    unfolding pol_def blocks_def
    by (rule filter_block_no_false_negative [rotated 4, where ks = "[[97, 1, 0, 0, 0, 0, 0, 0, 0], [98, 1, 0, 0, 0, 0, 0, 0, 0]]"
          and k = "[98, 1, 0, 0, 0, 0, 0, 0, 0]"]) (simp_all add: ExtractUserKey_def)
qed

text \<open>The last byte of a block is used as a shift count without a check.\<close>

lemma filter_reader_bad_shift: "block_KeyMayMatch (FilterBlockReader pol [0, 0, 0, 0, 64]) off k = None"
  by (simp add: block_KeyMayMatch_def FilterBlockReader_def DecodeFixed32_def Let_def)

end
