(* ===== verification/Ldb_Block.thy ===== *)
theory Ldb_Block
  imports Ldb_Key Ldb_Env
begin

text \<open>
  \<open>leveldb-library/table/block_builder.cc\<close> and \<open>table/block.cc\<close>: the sorted blocks of a table. Keys
  are stored without the start they share with the key before, except at restart points; the
  iterator finds its way by a binary search over these. The theory has the builder and the iterator
  as they are written; what they do is in \<open>Ldb_Block_Spec\<close>.
\<close>

section \<open>The builder\<close>

record block_builder =
  bb_interval :: int
  bb_buffer :: bytes
  bb_restarts :: "u32 list"
  bb_counter :: int
  bb_finished :: bool
  bb_last_key :: bytes

definition BlockBuilder :: "int \<Rightarrow> block_builder" where
  "BlockBuilder block_restart_interval =
     \<lparr>bb_interval = block_restart_interval, bb_buffer = [], bb_restarts = [0], bb_counter = 0,
      bb_finished = False, bb_last_key = []\<rparr>"

definition block_Reset :: "block_builder \<Rightarrow> block_builder" where
  "block_Reset b = b\<lparr>bb_buffer := [], bb_restarts := [0], bb_counter := 0, bb_finished := False, bb_last_key := []\<rparr>"

definition CurrentSizeEstimate :: "block_builder \<Rightarrow> nat" where
  "CurrentSizeEstimate b = length (bb_buffer b) + length (bb_restarts b) * 4 + 4"

definition block_empty :: "block_builder \<Rightarrow> bool" where
  "block_empty b \<longleftrightarrow> bb_buffer b = []"

definition block_Finish :: "block_builder \<Rightarrow> slice \<times> block_builder" where
  "block_Finish b =
     (let buffer = fold (\<lambda>r buffer. PutFixed32 buffer r) (bb_restarts b) (bb_buffer b);
          buffer = PutFixed32 buffer (word_of_nat (length (bb_restarts b)))
      in (buffer, b\<lparr>bb_buffer := buffer, bb_finished := True\<rparr>))"

text \<open>The loop that counts the shared bytes is the one of the bytewise comparator.\<close>

definition block_Add :: "slice \<Rightarrow> slice \<Rightarrow> block_builder \<Rightarrow> block_builder" where
  "block_Add key val b =
     (let (shared, restarts, counter) =
            (if bb_counter b < bb_interval b then (diff_index (bb_last_key b) key, bb_restarts b, bb_counter b)
             else (0, bb_restarts b @ [word_of_nat (length (bb_buffer b))], 0));
          non_shared = length key - shared;
          buffer = PutVarint32 (bb_buffer b) (word_of_nat shared);
          buffer = PutVarint32 buffer (word_of_nat non_shared);
          buffer = PutVarint32 buffer (word_of_nat (length val));
          buffer = buffer @ take non_shared (drop shared key);
          buffer = buffer @ val;
          last_key = take shared (bb_last_key b) @ take non_shared (drop shared key)
      in b\<lparr>bb_buffer := buffer, bb_restarts := restarts, bb_counter := counter + 1, bb_last_key := last_key\<rparr>)"

section \<open>Blocks and their entries\<close>

record block =
  blk_data :: bytes
  blk_size :: nat
  restart_offset :: u32

definition NumRestarts :: "bytes \<Rightarrow> nat \<Rightarrow> u32" where
  "NumRestarts dat sz = DecodeFixed32 (drop (sz - 4) dat)"

definition Block :: "slice \<Rightarrow> block" where
  "Block contents =
     (let sz = length contents in
      if sz < 4 then \<lparr>blk_data = contents, blk_size = 0, restart_offset = 0\<rparr>
      else
        let max_restarts_allowed = (sz - 4) div 4 in
        if unat (NumRestarts contents sz) > max_restarts_allowed
        then \<lparr>blk_data = contents, blk_size = 0, restart_offset = 0\<rparr>
        else \<lparr>blk_data = contents, blk_size = sz,
          restart_offset = word_of_nat (sz - unat (1 + NumRestarts contents sz) * 4)\<rparr>)"

text \<open>
  The bytes from \<open>p\<close> to the limit; the result has those behind the three lengths. The sum of two
  lengths is computed in 32 bits.
\<close>

definition DecodeEntry :: "bytes \<Rightarrow> (u32 \<times> u32 \<times> u32 \<times> bytes) option" where
  "DecodeEntry p =
     (if length p < 3 then None
      else
        let shared = ucast (p ! 0); non_shared = ucast (p ! 1); value_length = ucast (p ! 2) in
        case (if shared OR non_shared OR value_length < (128 :: u32)
              then Some (shared, non_shared, value_length, drop 3 p)
              else case GetVarint32Ptr p of None \<Rightarrow> None
                | Some (shared, p) \<Rightarrow> (case GetVarint32Ptr p of None \<Rightarrow> None
                | Some (non_shared, p) \<Rightarrow> (case GetVarint32Ptr p of None \<Rightarrow> None
                | Some (value_length, p) \<Rightarrow> Some (shared, non_shared, value_length, p)))) of
          None \<Rightarrow> None
        | Some (shared, non_shared, value_length, p) \<Rightarrow>
            if word_of_nat (length p) < non_shared + value_length then None
            else Some (shared, non_shared, value_length, p))"

section \<open>The iterator\<close>

text \<open>
  Pointers into the block are offsets; the value is its offset and its length. A function that would
  read behind the end of the block, which has no defined result, gives \<open>None\<close>.
\<close>

record block_iter =
  it_comparator :: comparator
  it_data :: bytes
  it_restarts :: u32
  it_num_restarts :: u32
  it_current :: u32
  it_restart_index :: u32
  it_key :: bytes
  it_value :: "nat \<times> nat"
  it_status :: status

definition Iter :: "comparator \<Rightarrow> bytes \<Rightarrow> u32 \<Rightarrow> u32 \<Rightarrow> block_iter" where
  "Iter cmp dat restarts num_restarts =
     \<lparr>it_comparator = cmp, it_data = dat, it_restarts = restarts, it_num_restarts = num_restarts,
      it_current = restarts, it_restart_index = num_restarts, it_key = [], it_value = (0, 0), it_status = OK\<rparr>"

definition NextEntryOffset :: "block_iter \<Rightarrow> u32" where
  "NextEntryOffset it = word_of_nat (fst (it_value it) + snd (it_value it))"

definition GetRestartPoint :: "u32 \<Rightarrow> block_iter \<Rightarrow> u32" where
  "GetRestartPoint index it = DecodeFixed32 (drop (unat (it_restarts it) + unat index * 4) (it_data it))"

definition SeekToRestartPoint :: "u32 \<Rightarrow> block_iter \<Rightarrow> block_iter" where
  "SeekToRestartPoint index it =
     it\<lparr>it_key := [], it_restart_index := index, it_value := (unat (GetRestartPoint index it), 0)\<rparr>"

definition iter_Valid :: "block_iter \<Rightarrow> bool" where
  "iter_Valid it \<longleftrightarrow> it_current it < it_restarts it"

definition iter_value :: "block_iter \<Rightarrow> slice option" where
  "iter_value it =
     (case it_value it of (p, n) \<Rightarrow> if p + n \<le> length (it_data it) then Some (take n (drop p (it_data it))) else None)"

definition CorruptionError :: "block_iter \<Rightarrow> block_iter" where
  "CorruptionError it =
     it\<lparr>it_current := it_restarts it, it_restart_index := it_num_restarts it,
        it_status := Corruption ''bad entry in block'' [], it_key := [], it_value := (0, 0)\<rparr>"

text \<open>The addition in the loop's condition is in 32 bits.\<close>

function restart_loop :: "block_iter \<Rightarrow> block_iter" where
  "restart_loop it =
     (if it_restart_index it + 1 < it_num_restarts it
         \<and> GetRestartPoint (it_restart_index it + 1) it < it_current it
      then restart_loop (it\<lparr>it_restart_index := it_restart_index it + 1\<rparr>) else it)"
  by pat_completeness auto
termination
proof (relation "measure (\<lambda>it. unat (- 1 - it_restart_index it) + (if it_restart_index it = - 1 then 2 ^ 32 else 0))")
  fix it :: block_iter
  let ?i = "it_restart_index it"
  assume "?i + 1 < it_num_restarts it \<and> GetRestartPoint (?i + 1) it < it_current it"
  then have lt: "?i + 1 < it_num_restarts it" ..
  show "(it\<lparr>it_restart_index := ?i + 1\<rparr>, it)
    \<in> measure (\<lambda>it. unat (- 1 - it_restart_index it) + (if it_restart_index it = - 1 then 2 ^ 32 else 0))"
  proof (cases "?i = - 1")
    case True
    with unat_u32_less [of "- 1"] show ?thesis by simp
  next
    case False
    then have "1 + ?i \<noteq> 0" by (metis add.commute add_eq_0_iff)
    then have "unat (?i + 1) = Suc (unat ?i)" by (metis add.commute unatSuc)
    moreover have "unat (- 1 - x) = 2 ^ 32 - 1 - unat x" for x :: u32 by (simp add: unat_sub unsigned_minus_1_eq_mask mask_eq_exp_minus_1)
    moreover have "?i + 1 \<noteq> - 1" using lt by (metis word_not_simps(2) word_order.extremum_strict)
    ultimately show ?thesis using False unat_u32_less [of "?i + 1"] by simp
  qed
qed simp

declare restart_loop.simps [simp del]

definition ParseNextKey :: "block_iter \<Rightarrow> (bool \<times> block_iter) option" where
  "ParseNextKey it =
     (let current = NextEntryOffset it; it = it\<lparr>it_current := current\<rparr> in
      if current \<ge> it_restarts it then
        Some (False, it\<lparr>it_current := it_restarts it, it_restart_index := it_num_restarts it\<rparr>)
      else
        let limit = unat (it_restarts it) in
        case DecodeEntry (take (limit - unat current) (drop (unat current) (it_data it))) of
          None \<Rightarrow> Some (False, CorruptionError it)
        | Some (shared, non_shared, value_length, rest) \<Rightarrow>
            if length (it_key it) < unat shared then Some (False, CorruptionError it)
            else
              let p = limit - length rest in
              if length (it_data it) < p + unat non_shared then None
              else Some (True, restart_loop (it\<lparr>
                it_key := take (unat shared) (it_key it) @ take (unat non_shared) (drop p (it_data it)),
                it_value := (p + unat non_shared, unat value_length)\<rparr>)))"

text \<open>Every entry is read behind the last one, so the loops over the entries end.\<close>

lemma restart_loop_index: "\<exists>i. restart_loop it = it\<lparr>it_restart_index := i\<rparr>"
proof (induction it rule: restart_loop.induct)
  case (1 it)
  have "\<exists>i. it = it\<lparr>it_restart_index := i\<rparr>" by (rule exI [of _ "it_restart_index it"]) simp
  with 1 show ?case by (subst restart_loop.simps) auto
qed

lemma restart_loop_fields [simp]:
  "it_comparator (restart_loop it) = it_comparator it" "it_data (restart_loop it) = it_data it"
  "it_restarts (restart_loop it) = it_restarts it" "it_num_restarts (restart_loop it) = it_num_restarts it"
  "it_current (restart_loop it) = it_current it" "it_key (restart_loop it) = it_key it"
  "it_value (restart_loop it) = it_value it" "it_status (restart_loop it) = it_status it"
  using restart_loop_index [of it] by auto

lemma GetVarint32Ptr_shorter: "GetVarint32Ptr c = Some (v, r) \<Longrightarrow> length r < length c"
  by (rule GetVarint32_shorter) (simp add: GetVarint32_def)

lemma DecodeEntry_shorter:
  assumes "DecodeEntry p = Some (shared, non_shared, value_length, rest)"
  shows "length rest < length p" and "\<not> word_of_nat (length rest) < non_shared + value_length"
  using assms by (auto simp: DecodeEntry_def Let_def split: if_splits option.splits dest!: GetVarint32Ptr_shorter)

lemma ParseNextKey_progress:
  assumes "ParseNextKey it = Some (True, it')"
  shows "it_restarts it' = it_restarts it" and "unat (NextEntryOffset it) < unat (it_restarts it)"
    and "unat (NextEntryOffset it) < unat (NextEntryOffset it')"
proof -
  define cur where "cur = NextEntryOffset it"
  define limit where "limit = unat (it_restarts it)"
  from assms obtain shared non_shared value_length rest where c: "cur < it_restarts it" and
    d: "DecodeEntry (take (limit - unat cur) (drop (unat cur) (it_data it))) = Some (shared, non_shared, value_length, rest)" and
    it': "it_restarts it' = it_restarts it"
      "it_value it' = (limit - length rest + unat non_shared, unat value_length)"
    by (auto simp: ParseNextKey_def Let_def cur_def limit_def not_le split: if_splits option.splits)
  show "it_restarts it' = it_restarts it" by (rule it')
  show "unat (NextEntryOffset it) < unat (it_restarts it)" using c by (simp add: cur_def word_less_nat_alt)
  from DecodeEntry_shorter [OF d] have r: "length rest < limit - unat cur" by simp
  have "limit < 2 ^ 32" unfolding limit_def by (rule unat_u32_less)
  then have "unat (word_of_nat (length rest) :: u32) = length rest" using r by (intro unat_small) simp
  with DecodeEntry_shorter(2) [OF d] have s: "unat (non_shared + value_length) \<le> length rest"
    by (simp add: not_less word_le_nat_alt)
  have "NextEntryOffset it' = word_of_nat (limit - length rest + unat (non_shared + value_length))"
    by (simp add: NextEntryOffset_def it'(2) add.assoc)
  also have "unat \<dots> = limit - length rest + unat (non_shared + value_length)"
    using s r \<open>limit < 2 ^ 32\<close> by (intro unat_small) simp
  finally have "unat (NextEntryOffset it') = limit - length rest + unat (non_shared + value_length)" .
  with r show "unat (NextEntryOffset it) < unat (NextEntryOffset it')" by (simp add: cur_def)
qed

lemma ParseNextKey_decreases:
  "ParseNextKey it = Some (True, it') \<Longrightarrow>
    unat (it_restarts it') - unat (NextEntryOffset it') < unat (it_restarts it) - unat (NextEntryOffset it)"
  using ParseNextKey_progress [of it it'] by simp

function skip_loop :: "u32 \<Rightarrow> block_iter \<Rightarrow> block_iter option" where
  "skip_loop original it =
     (case ParseNextKey it of None \<Rightarrow> None
      | Some (parsed, it') \<Rightarrow> if parsed \<and> NextEntryOffset it' < original then skip_loop original it' else Some it')"
  by pat_completeness auto
termination
  by (relation "measure (\<lambda>(original, it). unat (it_restarts it) - unat (NextEntryOffset it))")
    (auto dest: ParseNextKey_decreases)

declare skip_loop.simps [simp del]

definition iter_Next :: "block_iter \<Rightarrow> block_iter option" where
  "iter_Next it = map_option snd (ParseNextKey it)"

text \<open>The index of the last restart point before \<open>original\<close>, \<open>None\<close> if there is none.\<close>

function prev_loop :: "u32 \<Rightarrow> u32 \<Rightarrow> block_iter \<Rightarrow> u32 option" where
  "prev_loop original index it =
     (if GetRestartPoint index it \<ge> original then (if index = 0 then None else prev_loop original (index - 1) it)
      else Some index)"
  by pat_completeness auto
termination by (relation "measure (\<lambda>(original, index, it). unat index)") (auto simp: measure_unat)

declare prev_loop.simps [simp del]

definition iter_Prev :: "block_iter \<Rightarrow> block_iter option" where
  "iter_Prev it =
     (let original = it_current it in
      case prev_loop original (it_restart_index it) it of
        None \<Rightarrow> Some (it\<lparr>it_current := it_restarts it, it_restart_index := it_num_restarts it\<rparr>)
      | Some index \<Rightarrow> skip_loop original (SeekToRestartPoint index it))"

definition SeekToFirst :: "block_iter \<Rightarrow> block_iter option" where
  "SeekToFirst it = map_option snd (ParseNextKey (SeekToRestartPoint 0 it))"

definition SeekToLast :: "block_iter \<Rightarrow> block_iter option" where
  "SeekToLast it = skip_loop (it_restarts it) (SeekToRestartPoint (it_num_restarts it - 1) it)"

text \<open>
  The binary search of \<open>Seek\<close>: the last restart point with a key below the target, \<open>Inl\<close> for an
  entry that cannot be decoded.
\<close>

partial_function (option) search_loop :: "slice \<Rightarrow> block_iter \<Rightarrow> u32 \<Rightarrow> u32 \<Rightarrow> (unit + u32) option" where
  "search_loop target it left right =
     (if left < right then
        let mid = (left + right + 1) div 2;
            region_offset = unat (GetRestartPoint mid it);
            limit = unat (it_restarts it)
        in case DecodeEntry (take (limit - region_offset) (drop region_offset (it_data it))) of
             None \<Rightarrow> Some (Inl ())
           | Some (shared, non_shared, value_length, rest) \<Rightarrow>
               if shared \<noteq> 0 then Some (Inl ())
               else
                 let p = limit - length rest in
                 if length (it_data it) < p + unat non_shared then None
                 else
                   let mid_key = take (unat non_shared) (drop p (it_data it)) in
                   if Compare (it_comparator it) mid_key target < 0 then search_loop target it mid right
                   else search_loop target it left (mid - 1)
      else Some (Inr left))"

function linear_loop :: "slice \<Rightarrow> block_iter \<Rightarrow> block_iter option" where
  "linear_loop target it =
     (case ParseNextKey it of None \<Rightarrow> None
      | Some (parsed, it') \<Rightarrow>
          if \<not> parsed then Some it'
          else if Compare (it_comparator it') (it_key it') target \<ge> 0 then Some it'
          else linear_loop target it')"
  by pat_completeness auto
termination
  by (relation "measure (\<lambda>(target, it). unat (it_restarts it) - unat (NextEntryOffset it))")
    (auto dest: ParseNextKey_decreases)

declare linear_loop.simps [simp del]

definition iter_Seek :: "slice \<Rightarrow> block_iter \<Rightarrow> block_iter option" where
  "iter_Seek target it =
     (case search_loop target it 0 (it_num_restarts it - 1) of None \<Rightarrow> None
      | Some (Inl _) \<Rightarrow> Some (CorruptionError it)
      | Some (Inr left) \<Rightarrow> linear_loop target (SeekToRestartPoint left it))"

datatype iterator = EmptyIterator status | BlockIterator block_iter

definition NewIterator :: "comparator \<Rightarrow> block \<Rightarrow> iterator" where
  "NewIterator cmp b =
     (if blk_size b < 4 then EmptyIterator (Corruption ''bad block contents'' [])
      else
        let num_restarts = NumRestarts (blk_data b) (blk_size b) in
        if num_restarts = 0 then EmptyIterator OK
        else BlockIterator (Iter cmp (blk_data b) (restart_offset b) num_restarts))"

end
