(* ===== verification/Ldb_Block_Spec.thy ===== *)
theory Ldb_Block_Spec
  imports Ldb_Block
begin

text \<open>
  What a block built from a list of entries contains, and how the positions of the iterator
  correspond to the entries: running forward and backward visits each of them in order, and a seek
  stops at the first one that is not below the target, for every comparator that keeps its contract.
\<close>

section \<open>The bytes of a block\<close>

type_synonym entries = "(slice \<times> slice) list"

text \<open>Entry \<open>i\<close> shares bytes with the one before unless its number is a multiple of the interval.\<close>

definition entry_shared :: "nat \<Rightarrow> entries \<Rightarrow> nat \<Rightarrow> nat" where
  "entry_shared k es i = (if i mod k = 0 then 0 else diff_index (fst (es ! (i - 1))) (fst (es ! i)))"

definition entry_code :: "nat \<Rightarrow> entries \<Rightarrow> nat \<Rightarrow> bytes" where
  "entry_code k es i =
     (let shared = entry_shared k es i; key = fst (es ! i); val = snd (es ! i)
      in varint shared @ varint (length key - shared) @ varint (length val) @ drop shared key @ val)"

definition entry_codes :: "nat \<Rightarrow> entries \<Rightarrow> nat \<Rightarrow> bytes" where
  "entry_codes k es n = concat (map (entry_code k es) [0..<n])"

definition entry_start :: "nat \<Rightarrow> entries \<Rightarrow> nat \<Rightarrow> nat" where
  "entry_start k es n = length (entry_codes k es n)"

definition restart_count :: "nat \<Rightarrow> nat \<Rightarrow> nat" where
  "restart_count k n = (if n = 0 then 1 else Suc ((n - 1) div k))"

definition restart_points :: "nat \<Rightarrow> entries \<Rightarrow> u32 list" where
  "restart_points k es = map (\<lambda>j. word_of_nat (entry_start k es (j * k))) [0..<restart_count k (length es)]"

definition build_block :: "nat \<Rightarrow> entries \<Rightarrow> slice" where
  "build_block k es = fst (block_Finish (fold (\<lambda>(key, val). block_Add key val) es (BlockBuilder (int k))))"

lemma length_restart_points [simp]: "length (restart_points k es) = restart_count k (length es)"
  by (simp add: restart_points_def)

lemma entry_start_Suc: "entry_start k es (Suc i) = entry_start k es i + length (entry_code k es i)"
  by (simp add: entry_start_def entry_codes_def)

lemma entry_start_0 [simp]: "entry_start k es 0 = 0"
  by (simp add: entry_start_def entry_codes_def)

lemma entry_start_mono: "i \<le> j \<Longrightarrow> entry_start k es i \<le> entry_start k es j"
  by (rule lift_Suc_mono_le) (simp_all add: entry_start_Suc)

lemma varint_ne [simp]: "varint n \<noteq> []"
  by (subst varint.simps) simp

lemma entry_code_ne [simp]: "entry_code k es i \<noteq> []"
  by (simp add: entry_code_def Let_def)

lemma entry_start_strict: "i < j \<Longrightarrow> entry_start k es i < entry_start k es j"
  by (rule lift_Suc_mono_less [of "entry_start k es"]) (simp_all add: entry_start_Suc)

lemma entry_start_less_iff: "entry_start k es i < entry_start k es j \<longleftrightarrow> i < j"
  by (metis entry_start_strict entry_start_mono not_le not_less)

text \<open>Adding an entry leaves those before it as they are.\<close>

lemma entry_code_append: "i < length es \<Longrightarrow> entry_code k (es @ es') i = entry_code k es i"
  by (auto simp: entry_code_def entry_shared_def nth_append)

lemma entry_codes_append: "n \<le> length es \<Longrightarrow> entry_codes k (es @ es') n = entry_codes k es n"
  by (auto simp: entry_codes_def entry_code_append intro!: arg_cong [where f = concat])

lemma entry_start_append: "n \<le> length es \<Longrightarrow> entry_start k (es @ es') n = entry_start k es n"
  by (simp add: entry_start_def entry_codes_append)

lemma restart_count_Suc:
  "0 < k \<Longrightarrow> restart_count k (Suc n) = (if n mod k = 0 \<and> n \<noteq> 0 then Suc (restart_count k n) else restart_count k n)"
  by (cases n) (auto simp: restart_count_def div_Suc mod_Suc)

lemma restart_below:
  assumes "j < restart_count k n"
  shows "j * k < n \<or> j = 0"
proof (cases "n = 0")
  case False
  with assms have "j \<le> (n - 1) div k" by (simp add: restart_count_def)
  then have "j * k \<le> (n - 1) div k * k" by (rule mult_le_mono1)
  also have "\<dots> \<le> n - 1" by (rule div_times_less_eq_dividend)
  finally have "j * k < Suc (n - 1)" by (simp only: less_Suc_eq_le)
  then show ?thesis using False by simp
qed (use assms in \<open>simp add: restart_count_def\<close>)

lemma restart_count_mult: "0 < k \<Longrightarrow> n \<noteq> 0 \<Longrightarrow> n mod k = 0 \<Longrightarrow> restart_count k n * k = n"
  using div_mult_mod_eq [of n k] div_Suc [of "n - 1" k] by (simp add: restart_count_def)

lemma restart_points_snoc:
  assumes "0 < k"
  shows "restart_points k (es @ [e]) = (if length es mod k = 0 \<and> es \<noteq> []
    then restart_points k es @ [word_of_nat (length (entry_codes k es (length es)))] else restart_points k es)"
proof -
  let ?c = "restart_count k (length es)"
  have old: "map (\<lambda>j. word_of_nat (entry_start k (es @ [e]) (j * k))) [0..<?c] = restart_points k es"
    unfolding restart_points_def using restart_below [of _ k "length es"]
    by (intro map_cong refl arg_cong [where f = word_of_nat] entry_start_append) fastforce
  show ?thesis
  proof (cases "length es mod k = 0 \<and> es \<noteq> []")
    case True
    then have "?c * k = length es" using restart_count_mult [OF assms] by simp
    with True old show ?thesis
      by (simp add: restart_points_def [of k "es @ [e]"] restart_count_Suc [OF assms] entry_start_append)
        (simp add: entry_start_def)
  next
    case False
    with old show ?thesis by (auto simp: restart_points_def [of k "es @ [e]"] restart_count_Suc [OF assms])
  qed
qed

text \<open>What the builder holds after some entries.\<close>

definition builder_entries :: "nat \<Rightarrow> block_builder \<Rightarrow> entries \<Rightarrow> bool" where
  "builder_entries k b es \<longleftrightarrow>
     bb_interval b = int k \<and> bb_buffer b = entry_codes k es (length es) \<and> bb_restarts b = restart_points k es
     \<and> bb_counter b = (if es = [] then 0 else int (Suc ((length es - 1) mod k)))
     \<and> bb_last_key b = (if es = [] then [] else fst (last es))"

lemma put_varint: "n < 2 ^ 32 \<Longrightarrow> PutVarint32 dst (word_of_nat n) = dst @ varint n"
  by (simp add: PutVarint32_def EncodeVarint32_varint unat_small)

lemma shared_start: "take (diff_index a b) a @ drop (diff_index a b) b = b"
  by (metis append_take_drop_id diff_index_take)

lemma builder_new: "builder_entries k (BlockBuilder (int k)) []"
  by (simp add: builder_entries_def BlockBuilder_def entry_codes_def restart_points_def restart_count_def)

lemma builder_add:
  assumes "0 < k" and "builder_entries k b es" and "length key < 2 ^ 32" and "length val < 2 ^ 32"
  shows "builder_entries k (block_Add key val b) (es @ [(key, val)])"
proof -
  let ?n = "length es" and ?es = "es @ [(key, val)]"
  define shared where "shared = entry_shared k ?es ?n"
  have counter: "bb_counter b < bb_interval b \<longleftrightarrow> es = [] \<or> ?n mod k \<noteq> 0"
    using assms(1,2) mod_less_divisor [OF assms(1), of "?n - 1"] by (cases es) (auto simp: builder_entries_def mod_Suc)
  have last: "fst (es ! (?n - 1)) = fst (last es)" if "es \<noteq> []" using that by (simp add: last_conv_nth)
  have sh: "shared = (if bb_counter b < bb_interval b then diff_index (bb_last_key b) key else 0)"
    using assms(2) last unfolding counter by (auto simp: shared_def entry_shared_def builder_entries_def nth_append)
  have le: "shared \<le> length key" using sh diff_index_le(2) by simp
  have key: "take shared (bb_last_key b) @ drop shared key = key" using sh shared_start by simp
  have code: "entry_codes k ?es (Suc ?n) = entry_codes k es ?n @
      varint shared @ varint (length key - shared) @ varint (length val) @ drop shared key @ val"
    using entry_codes_append [of ?n es k "[(key, val)]"]
    by (simp add: entry_codes_def entry_code_def Let_def shared_def)
  have restarts: "restart_points k ?es = (if bb_counter b < bb_interval b then bb_restarts b
      else bb_restarts b @ [word_of_nat (length (bb_buffer b))])"
    using assms(2) unfolding counter restart_points_snoc [OF assms(1)] by (auto simp: builder_entries_def)
  have count: "int (Suc (?n mod k)) = (if bb_counter b < bb_interval b then bb_counter b else 0) + 1"
    using assms(1,2) unfolding counter by (cases es) (auto simp: builder_entries_def mod_Suc)
  have b: "bb_interval b = int k" "bb_buffer b = entry_codes k es ?n" using assms(2) by (simp_all add: builder_entries_def)
  show ?thesis
  proof (cases "bb_counter b < bb_interval b")
    case True
    with b sh le key code restarts count assms(3,4) show ?thesis
      by (simp add: builder_entries_def block_Add_def put_varint)
  next
    case False
    with b sh le key code restarts count assms(3,4) put_varint [of 0] show ?thesis
      by (simp add: builder_entries_def block_Add_def put_varint)
  qed
qed

lemma build_block_bytes:
  assumes "0 < k" and "\<forall>(key, val)\<in>set es. length key < 2 ^ 32 \<and> length val < 2 ^ 32"
  shows "build_block k es = entry_codes k es (length es) @ concat (map EncodeFixed32 (restart_points k es))
    @ EncodeFixed32 (word_of_nat (restart_count k (length es)))"
proof -
  have "builder_entries k (fold (\<lambda>(key, val). block_Add key val) es (BlockBuilder (int k))) es"
    using assms(2)
  proof (induction es rule: rev_induct)
    case (snoc e es)
    then show ?case using builder_add [OF assms(1)] by (cases e) auto
  qed (simp add: builder_new)
  moreover have "fold (\<lambda>r buffer. PutFixed32 buffer r) rs buf = buf @ concat (map EncodeFixed32 rs)" for rs buf
    by (induction rs arbitrary: buf) (simp_all add: PutFixed32_def)
  ultimately show ?thesis
    by (simp add: build_block_def block_Finish_def builder_entries_def Let_def restart_points_def) (simp add: PutFixed32_def)
qed

section \<open>Reading an entry\<close>

lemma or_less_128: "(a :: u32) OR b < 128 \<longleftrightarrow> a < 128 \<and> b < 128"
proof -
  have small: "x < 128 \<longleftrightarrow> drop_bit 7 x = 0" for x :: u32
    using drop_bit_eq_0_iff [of 7 x] by (simp add: word_less_nat_alt)
  show ?thesis unfolding small drop_bit_or by (auto simp: bit_eq_iff bit_or_iff)
qed

lemma varint_first:
  "n < 128 \<Longrightarrow> varint n = [word_of_nat n]"
  "\<not> n < 128 \<Longrightarrow> \<exists>b bs. varint n = b # bs \<and> 128 \<le> b"
proof -
  show "n < 128 \<Longrightarrow> varint n = [word_of_nat n]" by (subst varint.simps) simp
  have "unat (word_of_nat (128 + n mod 128) :: u8) = 128 + n mod 128" by (rule unat_small) simp
  then show "\<not> n < 128 \<Longrightarrow> \<exists>b bs. varint n = b # bs \<and> 128 \<le> b"
    by (subst varint.simps) (simp add: word_le_nat_alt del: of_nat_add)
qed

lemma u8_small: "(ucast (b :: u8) :: u32) < 128 \<longleftrightarrow> b < 128"
  using unat_byte_less [of b] by (simp add: word_less_nat_alt unsigned_ucast_eq take_bit_nat_eq_self)

lemma ucast_small: "n < 128 \<Longrightarrow> (ucast (word_of_nat n :: u8) :: u32) = word_of_nat n"
  by (simp add: word_unat_eq_iff unsigned_ucast_eq unat_small take_bit_nat_eq_self)

lemma DecodeEntry_entry:
  assumes "s < 2 ^ 32" and "length body = n + v" and "length (body @ tail) < 2 ^ 32"
  shows "DecodeEntry (varint s @ varint n @ varint v @ body @ tail) =
    Some (word_of_nat s, word_of_nat n, word_of_nat v, body @ tail)"
proof -
  let ?p = "varint s @ varint n @ varint v @ body @ tail"
  have lt: "n < 2 ^ 32" "v < 2 ^ 32" "n + v < 2 ^ 32" using assms by simp_all
  have "unat (word_of_nat n + word_of_nat v :: u32) = n + v"
    using unat_small [where 'a = 32 and n = "n + v"] lt by simp
  moreover have "unat (word_of_nat (length (body @ tail)) :: u32) = length (body @ tail)"
    using assms(3) by (intro unat_small) simp
  ultimately have room: "\<not> (word_of_nat (length (body @ tail)) :: u32) < word_of_nat n + word_of_nat v"
    using assms(2) by (simp add: word_less_nat_alt del: of_nat_add)
  have len: "\<not> length ?p < 3"
    by (cases "varint s"; cases "varint n"; cases "varint v") simp_all
  show ?thesis
  proof (cases "s < 128 \<and> n < 128 \<and> v < 128")
    case True
    then have small: "(word_of_nat s :: u32) < 128" "(word_of_nat n :: u32) < 128" "(word_of_nat v :: u32) < 128"
      by (simp_all add: word_less_nat_alt unat_small)
    from True have p: "varint s = [word_of_nat s]" "varint n = [word_of_nat n]" "varint v = [word_of_nat v]"
      by (simp_all add: varint_first(1))
    from True small room show ?thesis unfolding p by (simp add: DecodeEntry_def Let_def or_less_128 ucast_small del: of_nat_add)
  next
    case False
    then consider "\<not> s < 128" | "s < 128" "\<not> n < 128" | "s < 128" "n < 128" "\<not> v < 128" by blast
    then have "128 \<le> ?p ! 0 \<or> 128 \<le> ?p ! 1 \<or> 128 \<le> ?p ! 2"
    proof cases
      case 1
      then show ?thesis using varint_first(2) [of s] by auto
    next
      case 2
      then show ?thesis using varint_first(1) [of s] varint_first(2) [of n] by auto
    next
      case 3
      then show ?thesis using varint_first(1) [of s] varint_first(1) [of n] varint_first(2) [of v] by auto
    qed
    then have slow: "\<not> (ucast (?p ! 0) :: u32) OR ucast (?p ! 1) OR ucast (?p ! 2) < 128"
      unfolding or_less_128 u8_small by (auto simp: not_less)
    show ?thesis unfolding DecodeEntry_def Let_def if_not_P [OF len] if_not_P [OF slow]
      using room lt assms(1) by (simp add: GetVarint32Ptr_varint del: of_nat_add)
  qed
qed

section \<open>Positions of the iterator\<close>

text \<open>A list of entries that fits a block: what follows needs no order among the keys.\<close>

definition fits_block :: "nat \<Rightarrow> entries \<Rightarrow> bool" where
  "fits_block k es \<longleftrightarrow> 0 < k \<and> (\<forall>(key, val)\<in>set es. length key < 2 ^ 32 \<and> length val < 2 ^ 32)
     \<and> length (build_block k es) < 2 ^ 32"

definition iter_on :: "nat \<Rightarrow> entries \<Rightarrow> comparator \<Rightarrow> block_iter \<Rightarrow> bool" where
  "iter_on k es cmp it \<longleftrightarrow>
     it_comparator it = cmp \<and> it_data it = build_block k es
     \<and> it_restarts it = word_of_nat (entry_start k es (length es))
     \<and> it_num_restarts it = word_of_nat (restart_count k (length es)) \<and> it_status it = OK"

text \<open>
  At entry \<open>i\<close>; about to parse entry \<open>i\<close>; past the last one. The restart index is that of the last
  restart point not behind the entry, or one less where this is the entry itself.
\<close>

definition iter_at :: "nat \<Rightarrow> entries \<Rightarrow> comparator \<Rightarrow> nat \<Rightarrow> block_iter \<Rightarrow> bool" where
  "iter_at k es cmp i it \<longleftrightarrow>
     iter_on k es cmp it \<and> i < length es \<and> it_current it = word_of_nat (entry_start k es i)
     \<and> it_key it = fst (es ! i)
     \<and> it_value it = (entry_start k es (Suc i) - length (snd (es ! i)), length (snd (es ! i)))
     \<and> (\<exists>r < restart_count k (length es). it_restart_index it = word_of_nat r \<and> r * k \<le> i \<and> i \<le> Suc r * k)"

definition iter_before :: "nat \<Rightarrow> entries \<Rightarrow> comparator \<Rightarrow> nat \<Rightarrow> block_iter \<Rightarrow> bool" where
  "iter_before k es cmp i it \<longleftrightarrow>
     iter_on k es cmp it \<and> i \<le> length es \<and> NextEntryOffset it = word_of_nat (entry_start k es i)
     \<and> (i mod k \<noteq> 0 \<longrightarrow> it_key it = fst (es ! (i - 1)))
     \<and> (\<exists>r < restart_count k (length es). it_restart_index it = word_of_nat r \<and> r * k \<le> i \<and> i \<le> Suc r * k + 1)"

definition iter_past :: "nat \<Rightarrow> entries \<Rightarrow> comparator \<Rightarrow> block_iter \<Rightarrow> bool" where
  "iter_past k es cmp it \<longleftrightarrow> iter_on k es cmp it \<and> it_current it = it_restarts it"

lemma length_build:
  "fits_block k es \<Longrightarrow>
    length (build_block k es) = entry_start k es (length es) + restart_count k (length es) * 4 + 4"
  by (auto simp: build_block_bytes fits_block_def entry_start_def)

lemma fits_small:
  assumes "fits_block k es"
  shows "entry_start k es (length es) < 2 ^ 32" and "restart_count k (length es) < 2 ^ 30" and "0 < k"
  using assms length_build [OF assms] by (auto simp: fits_block_def)

lemma start_word:
  assumes "fits_block k es" and "i \<le> length es"
  shows "unat (word_of_nat (entry_start k es i) :: u32) = entry_start k es i"
  using entry_start_mono [OF assms(2), of k es] fits_small(1) [OF assms(1)] by (intro unat_small) simp

lemma start_word_less:
  assumes "fits_block k es" and "i \<le> length es" and "j \<le> length es"
  shows "(word_of_nat (entry_start k es i) :: u32) < word_of_nat (entry_start k es j) \<longleftrightarrow> i < j"
  by (simp add: word_less_nat_alt start_word [OF assms(1)] assms(2,3) entry_start_less_iff)

lemma count_word:
  assumes "fits_block k es" and "r \<le> restart_count k (length es)"
  shows "unat (word_of_nat r :: u32) = r"
  using fits_small(2) [OF assms(1)] assms(2) by (intro unat_small) simp

lemma restart_index_le: "r < restart_count k (length es) \<Longrightarrow> r * k \<le> length es"
  using restart_below [of r k "length es"] by auto

lemma GetRestartPoint_word:
  assumes "fits_block k es" and "iter_on k es cmp it" and "r < restart_count k (length es)"
  shows "GetRestartPoint (word_of_nat r) it = word_of_nat (entry_start k es (r * k))"
proof -
  have build: "build_block k es = entry_codes k es (length es) @ concat (map EncodeFixed32 (restart_points k es))
      @ EncodeFixed32 (word_of_nat (restart_count k (length es)))"
    using assms(1) build_block_bytes by (auto simp: fits_block_def)
  have "restart_points k es ! r = word_of_nat (entry_start k es (r * k))"
    using assms(3) by (simp add: restart_points_def)
  moreover have "DecodeFixed32 (drop (entry_start k es (length es) + r * 4) (build_block k es)) = restart_points k es ! r"
    unfolding build entry_start_def using assms(3) by (intro DecodeFixed32_word) simp
  ultimately show ?thesis
    using assms by (simp add: GetRestartPoint_def iter_on_def count_word start_word)
qed

lemma iter_on_update [simp]:
  "iter_on k es cmp (it\<lparr>it_current := c\<rparr>) = iter_on k es cmp it"
  "iter_on k es cmp (it\<lparr>it_restart_index := r\<rparr>) = iter_on k es cmp it"
  "iter_on k es cmp (it\<lparr>it_key := key\<rparr>) = iter_on k es cmp it"
  "iter_on k es cmp (it\<lparr>it_value := v\<rparr>) = iter_on k es cmp it"
  by (simp_all add: iter_on_def)

section \<open>Parsing\<close>

lemma entry_codes_split:
  assumes "i < n"
  shows "entry_codes k es n = entry_codes k es i @ entry_code k es i @ concat (map (entry_code k es) [Suc i..<n])"
proof -
  have "[0..<n] = [0..<i] @ i # [Suc i..<n]"
    using assms upt_add_eq_append [of 0 i "n - i"] by (simp add: upt_conv_Cons)
  then show ?thesis by (simp add: entry_codes_def)
qed

lemma shared_le: "entry_shared k es i \<le> length (fst (es ! i))"
  by (simp add: entry_shared_def diff_index_le)

lemma shared_key:
  assumes "i mod k \<noteq> 0 \<longrightarrow> key = fst (es ! (i - 1))"
  shows "entry_shared k es i \<le> length key"
    and "take (entry_shared k es i) key @ drop (entry_shared k es i) (fst (es ! i)) = fst (es ! i)"
  using assms diff_index_le(1) shared_start by (auto simp: entry_shared_def)

text \<open>What is decoded at the start of an entry, in the form in which both searches need it.\<close>

lemma decode_at:
  assumes "fits_block k es" and "i < length es"
  defines "key \<equiv> fst (es ! i)" and "val \<equiv> snd (es ! i)" and "s \<equiv> entry_shared k es i"
    and "n \<equiv> entry_start k es (length es)" and "dat \<equiv> build_block k es"
  obtains rest where "DecodeEntry (take (n - entry_start k es i) (drop (entry_start k es i) dat)) =
      Some (word_of_nat s, word_of_nat (length key - s), word_of_nat (length val), rest)"
    and "n - length rest + (length key - s) = entry_start k es (Suc i) - length val"
    and "n - length rest + (length key - s) \<le> length dat"
    and "take (length key - s) (drop (n - length rest) dat) = drop s key"
    and "take (length val) (drop (n - length rest + (length key - s)) dat) = val"
    and "entry_start k es (Suc i) \<le> length dat" and "length val \<le> entry_start k es (Suc i)"
    and "unat (word_of_nat s :: u32) = s" and "unat (word_of_nat (length key - s) :: u32) = length key - s"
    and "unat (word_of_nat (length val) :: u32) = length val"
proof -
  define hdr where "hdr = varint s @ varint (length key - s) @ varint (length val)"
  define tail where "tail = concat (map (entry_code k es) [Suc i..<length es])"
  define rest where "rest = (drop s key @ val) @ tail"
  obtain xs where dat: "dat = entry_codes k es (length es) @ xs"
    using assms(1) build_block_bytes by (auto simp: fits_block_def dat_def)
  have code: "entry_code k es i = hdr @ drop s key @ val"
    by (simp add: entry_code_def Let_def hdr_def key_def val_def s_def)
  have codes: "entry_codes k es (length es) = entry_codes k es i @ hdr @ rest"
    using entry_codes_split [OF assms(2), of k es] by (simp add: code rest_def tail_def)
  have n: "n = entry_start k es i + length hdr + length rest" by (simp add: n_def entry_start_def codes)
  have Suc: "entry_start k es (Suc i) = entry_start k es i + length hdr + (length key - s) + length val"
    by (simp add: entry_start_Suc code)
  have window: "take (n - entry_start k es i) (drop (entry_start k es i) dat) = hdr @ rest"
    unfolding n by (simp add: dat codes entry_start_def)
  have "(key, val) \<in> set es" using assms(2) by (simp add: key_def val_def)
  then have lens: "length key < 2 ^ 32" "length val < 2 ^ 32" using assms(1) by (auto simp: fits_block_def)
  have s: "s < 2 ^ 32" using lens(1) shared_le [of k es i] by (simp add: s_def key_def)
  have "length rest < 2 ^ 32" using fits_small(1) [OF assms(1)] n by (simp add: n_def)
  then have dec: "DecodeEntry (hdr @ rest) = Some (word_of_nat s, word_of_nat (length key - s), word_of_nat (length val), rest)"
    using DecodeEntry_entry [OF s, of "drop s key @ val" "length key - s" "length val" tail]
    by (simp add: hdr_def rest_def)
  have at: "drop (n - length rest) dat = drop s key @ val @ tail @ xs"
    by (simp add: n dat codes entry_start_def rest_def)
  then have val: "drop (n - length rest + (length key - s)) dat = val @ tail @ xs"
    by (metis (no_types, lifting) append_eq_conv_conj drop_drop add.commute length_drop)
  have le: "entry_start k es (Suc i) \<le> length dat"
    unfolding Suc by (simp add: dat codes entry_start_def rest_def)
  show thesis
  proof (rule that [of rest])
    show "n - length rest + (length key - s) \<le> length dat" using le Suc n by simp
    show "take (length key - s) (drop (n - length rest) dat) = drop s key" by (simp add: at)
    show "take (length val) (drop (n - length rest + (length key - s)) dat) = val" by (simp add: val)
    show "unat (word_of_nat s :: u32) = s" "unat (word_of_nat (length key - s) :: u32) = length key - s"
      "unat (word_of_nat (length val) :: u32) = length val"
      using s lens by (auto intro!: unat_small)
  qed (use dec window Suc n le in simp_all)
qed

lemma restart_loop_at:
  assumes "fits_block k es" and "iter_on k es cmp it" and "it_current it = word_of_nat (entry_start k es i)"
    and "i < length es" and "r < restart_count k (length es)" and "it_restart_index it = word_of_nat r"
    and "r * k \<le> i" and "i \<le> Suc r * k + 1"
  obtains r' where "restart_loop it = it\<lparr>it_restart_index := word_of_nat r'\<rparr>"
    and "r' < restart_count k (length es)" and "r' * k \<le> i" and "i \<le> Suc r' * k"
proof -
  have step: "it_restart_index it + 1 < it_num_restarts it \<and> GetRestartPoint (it_restart_index it + 1) it < it_current it
      \<longleftrightarrow> Suc r < restart_count k (length es) \<and> Suc r * k < i"
    if "iter_on k es cmp it" "it_current it = word_of_nat (entry_start k es i)" "it_restart_index it = word_of_nat r"
      "r < restart_count k (length es)" for it :: block_iter and r
  proof -
    have c: "it_num_restarts it = word_of_nat (restart_count k (length es))" using that(1) by (simp add: iter_on_def)
    have i: "it_restart_index it + 1 = word_of_nat (Suc r)" by (simp add: that(3))
    have "(word_of_nat (Suc r) :: u32) < word_of_nat (restart_count k (length es)) \<longleftrightarrow> Suc r < restart_count k (length es)"
      using that(4) by (simp add: word_less_nat_alt count_word [OF assms(1)] del: of_nat_Suc)
    moreover have "GetRestartPoint (word_of_nat (Suc r)) it < it_current it \<longleftrightarrow> Suc r * k < i"
      if "Suc r < restart_count k (length es)"
      unfolding GetRestartPoint_word [OF assms(1) \<open>iter_on k es cmp it\<close> that] \<open>it_current it = _\<close>
      using restart_index_le [OF that] assms(4) by (intro start_word_less [OF assms(1)]) simp_all
    ultimately show ?thesis unfolding i c by blast
  qed
  show thesis
  proof (cases "Suc r < restart_count k (length es) \<and> Suc r * k < i")
    case True
    let ?it = "it\<lparr>it_restart_index := word_of_nat (Suc r)\<rparr>"
    have "restart_loop it = restart_loop ?it"
      using step [OF assms(2,3,6,5)] True assms(6) by (subst restart_loop.simps) (simp add: add.commute)
    moreover have "restart_loop ?it = ?it"
      using step [of ?it "Suc r"] assms(2,3,8) True fits_small(3) [OF assms(1)] by (subst restart_loop.simps) auto
    ultimately show ?thesis using True that [of "Suc r"] assms(8) fits_small(3) [OF assms(1)] by auto
  next
    case False
    with step [OF assms(2,3,6,5)] have stop: "\<not> (it_restart_index it + 1 < it_num_restarts it
      \<and> GetRestartPoint (it_restart_index it + 1) it < it_current it)" by blast
    have "restart_loop it = it" by (subst restart_loop.simps) (simp only: stop if_False)
    moreover have "i \<le> Suc r * k"
    proof (rule ccontr)
      assume "\<not> i \<le> Suc r * k"
      with False have "restart_count k (length es) \<le> Suc r" "Suc r * k < length es - 1 + 1" using assms(4) by auto
      then have "(length es - 1) div k \<le> r" "Suc r * k \<le> length es - 1"
        using assms(4) by (auto simp: restart_count_def split: if_splits)
      then show False
        using fits_small(3) [OF assms(1)] div_le_mono [of "Suc r * k" "length es - 1" k] by simp
    qed
    ultimately show ?thesis using that [of r] assms(5-7) by simp
  qed
qed

lemma parse_entry:
  assumes "fits_block k es" and "iter_before k es cmp i it" and "i < length es"
  obtains it' where "ParseNextKey it = Some (True, it')" and "iter_at k es cmp i it'"
proof -
  let ?off = "entry_start k es" and ?key = "fst (es ! i)" and ?val = "snd (es ! i)" and ?n = "entry_start k es (length es)"
  define s where "s = entry_shared k es i"
  from assms(2) obtain r where on: "iter_on k es cmp it" and cur: "NextEntryOffset it = word_of_nat (?off i)"
    and key: "i mod k \<noteq> 0 \<longrightarrow> it_key it = fst (es ! (i - 1))"
    and r: "r < restart_count k (length es)" "it_restart_index it = word_of_nat r" "r * k \<le> i" "i \<le> Suc r * k + 1"
    by (auto simp: iter_before_def)
  from decode_at [OF assms(1,3)] obtain rest where
    dec: "DecodeEntry (take (?n - ?off i) (drop (?off i) (build_block k es))) =
      Some (word_of_nat s, word_of_nat (length ?key - s), word_of_nat (length ?val), rest)" and
    pos: "?n - length rest + (length ?key - s) = ?off (Suc i) - length ?val"
      "?n - length rest + (length ?key - s) \<le> length (build_block k es)" and
    delta: "take (length ?key - s) (drop (?n - length rest) (build_block k es)) = drop s ?key" and
    small: "unat (word_of_nat s :: u32) = s" "unat (word_of_nat (length ?key - s) :: u32) = length ?key - s"
      "unat (word_of_nat (length ?val) :: u32) = length ?val"
    unfolding s_def by blast
  have sh: "s \<le> length (it_key it)" "take s (it_key it) @ drop s ?key = ?key"
    using shared_key [of i k "it_key it"] key by (auto simp: s_def)
  have fields: "it_data it = build_block k es" "it_restarts it = word_of_nat ?n" using on by (simp_all add: iter_on_def)
  have lt: "\<not> it_restarts it \<le> NextEntryOffset it"
    using start_word_less [OF assms(1) _ order_refl, of i] assms(3) by (simp add: fields cur not_le)
  define it1 where "it1 = it\<lparr>it_current := word_of_nat (?off i), it_key := ?key,
    it_value := (?off (Suc i) - length ?val, length ?val)\<rparr>"
  have parse: "ParseNextKey it = Some (True, restart_loop it1)"
    using lt dec pos delta sh
    by (simp add: ParseNextKey_def Let_def fields cur start_word [OF assms(1)] less_imp_le [OF assms(3)] small it1_def)
  have "iter_on k es cmp it1" "it_current it1 = word_of_nat (?off i)" "it_restart_index it1 = word_of_nat r"
    using on r(2) by (simp_all add: it1_def)
  from restart_loop_at [OF assms(1) this(1,2) assms(3) r(1) this(3) r(3,4)] obtain r' where
    r': "restart_loop it1 = it1\<lparr>it_restart_index := word_of_nat r'\<rparr>" "r' < restart_count k (length es)"
      "r' * k \<le> i" "i \<le> Suc r' * k" .
  have "iter_at k es cmp i (restart_loop it1)"
    unfolding iter_at_def r'(1) using r'(2-4) on assms(3) by (auto simp: it1_def)
  with parse that show thesis by blast
qed

lemma parse_end:
  assumes "fits_block k es" and "iter_before k es cmp (length es) it"
  obtains it' where "ParseNextKey it = Some (False, it')" and "iter_past k es cmp it'"
proof -
  have "it_restarts it \<le> NextEntryOffset it" "iter_on k es cmp it"
    using assms(2) by (simp_all add: iter_before_def iter_on_def)
  then show thesis
    by (intro that [of "it\<lparr>it_current := it_restarts it, it_restart_index := it_num_restarts it\<rparr>"])
      (simp_all add: ParseNextKey_def Let_def iter_past_def iter_on_def)
qed

lemma at_before:
  assumes "fits_block k es" and "iter_at k es cmp i it"
  shows "iter_before k es cmp (Suc i) it"
proof -
  have i: "i < length es" using assms(2) by (simp add: iter_at_def)
  from decode_at [OF assms(1) i] have "length (snd (es ! i)) \<le> entry_start k es (Suc i)" by blast
  with assms(2) show ?thesis by (auto simp: iter_at_def iter_before_def NextEntryOffset_def Suc_leI)
qed

lemma restart_before:
  assumes "fits_block k es" and "iter_on k es cmp it" and "r < restart_count k (length es)"
  shows "iter_before k es cmp (r * k) (SeekToRestartPoint (word_of_nat r) it)"
proof -
  note off = GetRestartPoint_word [OF assms] start_word [OF assms(1) restart_index_le [OF assms(3)]]
  then show ?thesis
    using assms restart_index_le [OF assms(3)]
    by (auto simp: iter_before_def SeekToRestartPoint_def NextEntryOffset_def intro!: exI [of _ r])
qed

section \<open>Moving\<close>

lemma at_contents:
  assumes "fits_block k es" and "iter_at k es cmp i it"
  shows "iter_Valid it" and "it_key it = fst (es ! i)" and "iter_value it = Some (snd (es ! i))"
proof -
  have i: "i < length es" and cur: "it_current it = word_of_nat (entry_start k es i)"
    and res: "it_restarts it = word_of_nat (entry_start k es (length es))" and dat: "it_data it = build_block k es"
    and val: "it_value it = (entry_start k es (Suc i) - length (snd (es ! i)), length (snd (es ! i)))"
    and key: "it_key it = fst (es ! i)"
    using assms(2) by (simp_all add: iter_at_def iter_on_def)
  show "iter_Valid it" using start_word_less [OF assms(1) less_imp_le [OF i] order_refl] i by (simp add: iter_Valid_def cur res)
  show "it_key it = fst (es ! i)" by (rule key)
  from decode_at [OF assms(1) i] obtain p where
    "p = entry_start k es (Suc i) - length (snd (es ! i))" and
    "take (length (snd (es ! i))) (drop p (build_block k es)) = snd (es ! i)" and
    "entry_start k es (Suc i) \<le> length (build_block k es)" and "length (snd (es ! i)) \<le> entry_start k es (Suc i)"
    by metis
  then show "iter_value it = Some (snd (es ! i))" by (simp add: iter_value_def dat val)
qed

lemma past_invalid: "iter_past k es cmp it \<Longrightarrow> \<not> iter_Valid it"
  by (simp add: iter_past_def iter_Valid_def)

lemma skip_to:
  assumes "fits_block k es" and "iter_before k es cmp i it" and "i < m" and "m \<le> length es"
  shows "\<exists>it'. skip_loop (word_of_nat (entry_start k es m)) it = Some it' \<and> iter_at k es cmp (m - 1) it'"
  using assms(2,3)
proof (induction "m - i" arbitrary: i it)
  case (Suc d)
  from parse_entry [OF assms(1) Suc.prems(1)] Suc.prems(2) assms(4) obtain it' where
    it': "ParseNextKey it = Some (True, it')" "iter_at k es cmp i it'" by (metis le_trans less_le_not_le not_le)
  note before = at_before [OF assms(1) it'(2)]
  then have "NextEntryOffset it' < word_of_nat (entry_start k es m) \<longleftrightarrow> Suc i < m"
    using start_word_less [OF assms(1) _ assms(4), of "Suc i"] by (simp add: iter_before_def)
  then have step: "skip_loop (word_of_nat (entry_start k es m)) it =
      (if Suc i < m then skip_loop (word_of_nat (entry_start k es m)) it' else Some it')"
    by (subst skip_loop.simps) (simp add: it'(1))
  show ?case
  proof (cases "Suc i < m")
    case True
    then show ?thesis unfolding step using Suc.hyps(1) [of "Suc i" it'] Suc.hyps(2) before by simp
  next
    case False
    with Suc.prems(2) have "i = m - 1" by simp
    with False it'(2) step show ?thesis by simp
  qed
qed simp

lemma next_entry:
  assumes "fits_block k es" and "iter_at k es cmp i it"
  obtains it' where "iter_Next it = Some it'"
    and "if Suc i < length es then iter_at k es cmp (Suc i) it' else iter_past k es cmp it'"
proof (cases "Suc i < length es")
  case True
  from parse_entry [OF assms(1) at_before [OF assms] True] obtain it' where
    "ParseNextKey it = Some (True, it')" "iter_at k es cmp (Suc i) it'" .
  with True that [of it'] show thesis by (simp add: iter_Next_def)
next
  case False
  then have "Suc i = length es" using assms(2) by (simp add: iter_at_def)
  with at_before [OF assms] have "iter_before k es cmp (length es) it" by simp
  from parse_end [OF assms(1) this] obtain it' where "ParseNextKey it = Some (False, it')" "iter_past k es cmp it'" .
  with False that [of it'] show thesis by (simp add: iter_Next_def)
qed

lemma prev_restart:
  assumes "fits_block k es" and "iter_on k es cmp it" and "r < restart_count k (length es)" and "i < length es"
    and "r * k \<le> i" and "i \<le> Suc r * k"
  shows "prev_loop (word_of_nat (entry_start k es i)) (word_of_nat r) it =
    (if i = 0 then None else Some (word_of_nat (if r * k < i then r else r - 1)))"
proof -
  have test: "GetRestartPoint (word_of_nat r) it \<ge> word_of_nat (entry_start k es i) \<longleftrightarrow> i \<le> r * k"
    if "r < restart_count k (length es)" for r
    unfolding GetRestartPoint_word [OF assms(1,2) that]
    using start_word_less [OF assms(1) restart_index_le [OF that] less_imp_le [OF assms(4)]] by (simp add: not_less [symmetric])
  have zero: "(word_of_nat r :: u32) = 0 \<longleftrightarrow> r = 0"
    using count_word [OF assms(1) less_imp_le [OF assms(3)]] by (metis of_nat_0 unat_eq_0)
  show ?thesis
  proof (cases "r * k < i")
    case True
    then show ?thesis using test [OF assms(3)] by (subst prev_loop.simps) auto
  next
    case False
    with assms(5) have i: "i = r * k" by simp
    show ?thesis
    proof (cases r)
      case 0
      then show ?thesis using test [OF assms(3)] i by (subst prev_loop.simps) simp
    next
      case (Suc r')
      have r': "(word_of_nat (Suc r') :: u32) - 1 = word_of_nat r'" by simp
      have "r' < restart_count k (length es)" "\<not> i \<le> r' * k"
        using assms(3) i Suc fits_small(3) [OF assms(1)] by simp_all
      then have "prev_loop (word_of_nat (entry_start k es i)) (word_of_nat r') it = Some (word_of_nat r')"
        using test [of r'] by (subst prev_loop.simps) simp
      then show ?thesis
        using test [OF assms(3)] i zero Suc fits_small(3) [OF assms(1)]
        by (subst prev_loop.simps) (simp add: r' del: of_nat_Suc)
    qed
  qed
qed

lemma prev_entry:
  assumes "fits_block k es" and "iter_at k es cmp i it"
  obtains it' where "iter_Prev it = Some it'"
    and "if 0 < i then iter_at k es cmp (i - 1) it' else iter_past k es cmp it'"
proof -
  from assms(2) obtain r where on: "iter_on k es cmp it" and i: "i < length es"
    and cur: "it_current it = word_of_nat (entry_start k es i)" and
    r: "r < restart_count k (length es)" "it_restart_index it = word_of_nat r" "r * k \<le> i" "i \<le> Suc r * k"
    by (auto simp: iter_at_def)
  note prev = prev_restart [OF assms(1) on r(1) i r(3,4)]
  show thesis
  proof (cases "i = 0")
    case True
    with prev that show thesis
      by (simp add: iter_Prev_def Let_def cur r(2) iter_past_def on)
  next
    case False
    define r' where "r' = (if r * k < i then r else r - 1)"
    have r': "r' < restart_count k (length es)" using r(1) by (auto simp: r'_def)
    have lt: "r' * k < i"
      using r(3) False fits_small(3) [OF assms(1)] by (cases r) (auto simp: r'_def)
    have "iter_Prev it = skip_loop (word_of_nat (entry_start k es i)) (SeekToRestartPoint (word_of_nat r') it)"
      using prev False by (simp add: iter_Prev_def Let_def cur r(2) r'_def)
    with skip_to [OF assms(1) restart_before [OF assms(1) on r'] lt less_imp_le [OF i]] False that
    show thesis by auto
  qed
qed

lemma first_entry:
  assumes "fits_block k es" and "iter_on k es cmp it"
  obtains it' where "SeekToFirst it = Some it'" and "if es \<noteq> [] then iter_at k es cmp 0 it' else iter_past k es cmp it'"
proof -
  have "0 < restart_count k (length es)" by (simp add: restart_count_def)
  from restart_before [OF assms this] have before: "iter_before k es cmp 0 (SeekToRestartPoint 0 it)" by simp
  show thesis
  proof (cases "es = []")
    case True
    with before have "iter_before k es cmp (length es) (SeekToRestartPoint 0 it)" by simp
    from parse_end [OF assms(1) this] True that show thesis by (auto simp: SeekToFirst_def)
  next
    case False
    then have "0 < length es" by simp
    from parse_entry [OF assms(1) before this] False that show thesis by (auto simp: SeekToFirst_def)
  qed
qed

lemma last_entry:
  assumes "fits_block k es" and "iter_on k es cmp it"
  obtains it' where "SeekToLast it = Some it'"
    and "if es \<noteq> [] then iter_at k es cmp (length es - 1) it' else iter_past k es cmp it'"
proof -
  define r where "r = restart_count k (length es) - 1"
  have count: "restart_count k (length es) = Suc r" by (simp add: r_def restart_count_def)
  then have "it_num_restarts it - 1 = word_of_nat r" "it_restarts it = word_of_nat (entry_start k es (length es))"
    using assms(2) by (simp_all add: iter_on_def)
  then have seek: "SeekToLast it = skip_loop (word_of_nat (entry_start k es (length es))) (SeekToRestartPoint (word_of_nat r) it)"
    by (simp add: SeekToLast_def)
  have r: "r < restart_count k (length es)" by (simp add: count)
  note before = restart_before [OF assms r]
  show thesis
  proof (cases "es = []")
    case True
    with r have "r * k = length es" by (simp add: restart_count_def)
    with before have "iter_before k es cmp (length es) (SeekToRestartPoint (word_of_nat r) it)" by simp
    from parse_end [OF assms(1) this] obtain it' where
      "ParseNextKey (SeekToRestartPoint (word_of_nat r) it) = Some (False, it')" "iter_past k es cmp it'" .
    then have "SeekToLast it = Some it'" unfolding seek by (subst skip_loop.simps) simp
    with True \<open>iter_past k es cmp it'\<close> that show thesis by simp
  next
    case False
    then have "r * k < length es" using restart_below [OF r] by auto
    from skip_to [OF assms(1) before this order_refl] False that show thesis unfolding seek by auto
  qed
qed

section \<open>Searching\<close>

text \<open>The number of entries below the target.\<close>

definition seek_index :: "comparator \<Rightarrow> slice \<Rightarrow> entries \<Rightarrow> nat" where
  "seek_index cmp target es = length (takeWhile (\<lambda>(key, val). Compare cmp key target < 0) es)"

lemma seek_index_step:
  assumes "i \<le> seek_index cmp target es" and "i < length es"
  shows "Compare cmp (fst (es ! i)) target < 0 \<longleftrightarrow> i < seek_index cmp target es"
proof -
  let ?P = "\<lambda>(key, val). Compare cmp key target < 0"
  have "?P (es ! i) \<longleftrightarrow> i < length (takeWhile ?P es)"
  proof
    assume "i < length (takeWhile ?P es)"
    then show "?P (es ! i)" using nth_mem set_takeWhileD takeWhile_nth by metis
  next
    assume p: "?P (es ! i)"
    show "i < length (takeWhile ?P es)"
    proof (rule ccontr)
      assume "\<not> i < length (takeWhile ?P es)"
      with assms(1) have "i = length (takeWhile ?P es)" by (simp add: seek_index_def)
      with nth_length_takeWhile [of ?P es] assms(2) p show False by simp
    qed
  qed
  then show ?thesis by (simp add: seek_index_def case_prod_beta)
qed

lemma linear_to:
  assumes "fits_block k es" and "iter_before k es cmp i it" and "i \<le> seek_index cmp target es"
  shows "\<exists>it'. linear_loop target it = Some it' \<and>
    (if seek_index cmp target es < length es then iter_at k es cmp (seek_index cmp target es) it' else iter_past k es cmp it')"
  using assms(2,3)
proof (induction "length es - i" arbitrary: i it rule: less_induct)
  case less
  have m: "seek_index cmp target es \<le> length es" by (simp add: seek_index_def length_takeWhile_le)
  show ?case
  proof (cases "i < length es")
    case False
    with less.prems m have i: "i = length es" "seek_index cmp target es = length es" by simp_all
    with less.prems(1) have "iter_before k es cmp (length es) it" by simp
    from parse_end [OF assms(1) this] obtain it' where "ParseNextKey it = Some (False, it')" "iter_past k es cmp it'" .
    then show ?thesis using i(2) by (subst linear_loop.simps) simp
  next
    case True
    from parse_entry [OF assms(1) less.prems(1) True] obtain it' where
      it': "ParseNextKey it = Some (True, it')" "iter_at k es cmp i it'" .
    have "Compare (it_comparator it') (it_key it') target < 0 \<longleftrightarrow> i < seek_index cmp target es"
      using seek_index_step [OF less.prems(2) True] it'(2) by (simp add: iter_at_def iter_on_def)
    then have step: "linear_loop target it = (if i < seek_index cmp target es then linear_loop target it' else Some it')"
      by (subst linear_loop.simps) (auto simp: it'(1))
    show ?thesis
    proof (cases "i < seek_index cmp target es")
      case True
      with less.hyps [OF _ at_before [OF assms(1) it'(2)]] \<open>i < length es\<close> step show ?thesis by simp
    next
      case False
      with less.prems(2) have "seek_index cmp target es = i" by simp
      with it'(2) True False step show ?thesis by simp
    qed
  qed
qed

context comparator_contract
begin

text \<open>The order of the entries is that of the builder's assertion.\<close>

definition sorted_entries :: "entries \<Rightarrow> bool" where
  "sorted_entries es \<longleftrightarrow> list_all (\<lambda>(k, _). valid k) es \<and> sorted_wrt (\<lambda>(a, _) (b, _). Compare cmp a b < 0) es"

lemma entries_below:
  assumes "sorted_entries es" and "valid target" and "i < length es" and "Compare cmp (fst (es ! i)) target < 0"
  shows "i \<le> seek_index cmp target es"
proof (rule ccontr)
  assume "\<not> i \<le> seek_index cmp target es"
  then have lt: "seek_index cmp target es < i" by simp
  let ?j = "seek_index cmp target es"
  have "valid (fst (es ! i))" "valid (fst (es ! ?j))"
    using assms(1,3) lt by (auto simp: sorted_entries_def list_all_length case_prod_beta)
  moreover have "Compare cmp (fst (es ! ?j)) (fst (es ! i)) < 0"
    using assms(1,3) lt by (auto simp: sorted_entries_def sorted_wrt_iff_nth_less case_prod_beta)
  ultimately have "Compare cmp (fst (es ! ?j)) target < 0" using compare_trans assms(2,4) by blast
  with seek_index_step [of ?j cmp target es] lt assms(3) show False by simp
qed

lemma search_finds:
  assumes "fits_block k es" and "iter_on k es cmp it" and "sorted_entries es" and "valid target"
    and "l \<le> r" and "r < restart_count k (length es)" and "l = 0 \<or> Compare cmp (fst (es ! (l * k))) target < 0"
  shows "\<exists>m < restart_count k (length es). search_loop target it (word_of_nat l) (word_of_nat r) = Some (Inr (word_of_nat m))
    \<and> (m = 0 \<or> Compare cmp (fst (es ! (m * k))) target < 0)"
  using assms(5-7)
proof (induction "r - l" arbitrary: l r rule: less_induct)
  case less
  have small: "unat (word_of_nat j :: u32) = j" if "j \<le> 2 * r + 1" for j
    using that fits_small(2) [OF assms(1)] less.prems(2) by (intro unat_small) simp
  have cond: "(word_of_nat l :: u32) < word_of_nat r \<longleftrightarrow> l < r"
    using less.prems(1) by (simp add: word_less_nat_alt small)
  show ?case
  proof (cases "l < r")
    case False
    then show ?thesis using cond less.prems by (subst search_loop.simps) auto
  next
    case True
    define m where "m = (l + r + 1) div 2"
    have m: "l < m" "m \<le> r" using True by (auto simp: m_def)
    then have mc: "m < restart_count k (length es)" using less.prems(2) by simp
    have mid: "((word_of_nat l :: u32) + word_of_nat r + 1) div 2 = word_of_nat m"
    proof -
      have "(word_of_nat l :: u32) + word_of_nat r + 1 = word_of_nat (l + r + 1)" by simp
      also have "unat \<dots> = l + r + 1" using True by (intro small) simp
      finally show ?thesis using small [of m] m by (simp add: word_unat_eq_iff unat_div m_def del: of_nat_add)
    qed
    have i: "m * k < length es" using restart_below [OF mc] m by auto
    let ?key = "fst (es ! (m * k))"
    have region: "GetRestartPoint (word_of_nat m) it = word_of_nat (entry_start k es (m * k))"
      by (rule GetRestartPoint_word [OF assms(1,2) mc])
    have fields: "it_data it = build_block k es" "it_restarts it = word_of_nat (entry_start k es (length es))" "it_comparator it = cmp"
      using assms(2) by (simp_all add: iter_on_def)
    have sh: "entry_shared k es (m * k) = 0" by (simp add: entry_shared_def)
    let ?n = "entry_start k es (length es)"
    define s where "s = entry_shared k es (m * k)"
    from decode_at [OF assms(1) i, folded s_def] obtain rest where
      dec: "DecodeEntry (take (?n - entry_start k es (m * k)) (drop (entry_start k es (m * k)) (build_block k es))) =
        Some (word_of_nat s, word_of_nat (length ?key - s), word_of_nat (length (snd (es ! (m * k)))), rest)" and
      inside: "?n - length rest + (length ?key - s) \<le> length (build_block k es)" and
      key: "take (length ?key - s) (drop (?n - length rest) (build_block k es)) = drop s ?key" and
      len: "unat (word_of_nat (length ?key - s) :: u32) = length ?key - s" by blast
    have s: "s = 0" using sh by (simp add: s_def)
    have m1: "(word_of_nat m :: u32) - 1 = word_of_nat (m - 1)" using m by (cases m) simp_all
    have step: "search_loop target it (word_of_nat l) (word_of_nat r) =
        (if Compare cmp ?key target < 0 then search_loop target it (word_of_nat m) (word_of_nat r)
         else search_loop target it (word_of_nat l) (word_of_nat (m - 1)))"
      using True dec inside key len
      by (subst search_loop.simps)
        (simp add: s cond mid region fields start_word [OF assms(1)] less_imp_le [OF i] m1 Let_def)
    show ?thesis
    proof (cases "Compare cmp ?key target < 0")
      case True
      then show ?thesis unfolding step using less.hyps [of r m] less.prems m True by simp
    next
      case False
      then show ?thesis unfolding step using less.hyps [of "m - 1" l] less.prems m by simp
    qed
  qed
qed

lemma seek_entry:
  assumes "fits_block k es" and "iter_on k es cmp it" and "sorted_entries es" and "valid target"
  shows "\<exists>it'. iter_Seek target it = Some it' \<and>
    (if seek_index cmp target es < length es then iter_at k es cmp (seek_index cmp target es) it' else iter_past k es cmp it')"
proof -
  define r where "r = restart_count k (length es) - 1"
  have count: "restart_count k (length es) = Suc r" by (simp add: r_def restart_count_def)
  then have "it_num_restarts it - 1 = word_of_nat r" using assms(2) by (simp add: iter_on_def)
  moreover from search_finds [OF assms, of 0 r] count obtain m where
    m: "m < restart_count k (length es)" "search_loop target it 0 (word_of_nat r) = Some (Inr (word_of_nat m))"
      "m = 0 \<or> Compare cmp (fst (es ! (m * k))) target < 0" by auto
  ultimately have seek: "iter_Seek target it = linear_loop target (SeekToRestartPoint (word_of_nat m) it)"
    by (simp add: iter_Seek_def)
  have "m * k \<le> seek_index cmp target es"
    using m(3) restart_below [OF m(1)] entries_below [OF assms(3,4), of "m * k"] by auto
  with linear_to [OF assms(1) restart_before [OF assms(1,2) m(1)]] show ?thesis unfolding seek by blast
qed

end

section \<open>Reading a block\<close>

text \<open>What a client reads that moves the iterator forward, or backward, until it is not valid.\<close>

partial_function (option) read_forward :: "block_iter \<Rightarrow> entries option" where
  "read_forward it =
     (if iter_Valid it then
        (case iter_value it of None \<Rightarrow> None | Some val \<Rightarrow>
          (case iter_Next it of None \<Rightarrow> None | Some it' \<Rightarrow>
            Option.bind (read_forward it') (\<lambda>es. Some ((it_key it, val) # es))))
      else Some [])"

partial_function (option) read_backward :: "block_iter \<Rightarrow> entries option" where
  "read_backward it =
     (if iter_Valid it then
        (case iter_value it of None \<Rightarrow> None | Some val \<Rightarrow>
          (case iter_Prev it of None \<Rightarrow> None | Some it' \<Rightarrow>
            Option.bind (read_backward it') (\<lambda>es. Some ((it_key it, val) # es))))
      else Some [])"

text \<open>An iterator on a block, made the way a table makes it.\<close>

definition on_block :: "comparator \<Rightarrow> slice \<Rightarrow> (block_iter \<Rightarrow> 'a option) \<Rightarrow> 'a option" where
  "on_block cmp contents f = (case NewIterator cmp (Block contents) of EmptyIterator _ \<Rightarrow> None | BlockIterator it \<Rightarrow> f it)"

lemma read_past: "iter_past k es cmp it \<Longrightarrow> read_forward it = Some [] \<and> read_backward it = Some []"
  by (auto simp: read_forward.simps [of it] read_backward.simps [of it] past_invalid)

lemma read_forward_at:
  assumes "fits_block k es"
  shows "iter_at k es cmp i it \<Longrightarrow> read_forward it = Some (drop i es)"
proof (induction "length es - i" arbitrary: i it rule: less_induct)
  case less
  then have i: "i < length es" by (simp add: iter_at_def)
  from next_entry [OF assms less.prems] obtain it' where
    it': "iter_Next it = Some it'" "if Suc i < length es then iter_at k es cmp (Suc i) it' else iter_past k es cmp it'" .
  have "read_forward it' = Some (drop (Suc i) es)"
    using it'(2) less.hyps [of "Suc i" it'] read_past [of k es cmp it'] i by (auto split: if_splits)
  with at_contents [OF assms less.prems] it'(1) Cons_nth_drop_Suc [OF i] show ?case
    by (subst read_forward.simps) simp
qed

lemma read_backward_at:
  assumes "fits_block k es"
  shows "iter_at k es cmp i it \<Longrightarrow> read_backward it = Some (rev (take (Suc i) es))"
proof (induction i arbitrary: it)
  case 0
  from prev_entry [OF assms 0] obtain it' where "iter_Prev it = Some it'" "iter_past k es cmp it'" by auto
  moreover have "0 < length es" using 0 by (simp add: iter_at_def)
  ultimately show ?case using at_contents [OF assms 0] read_past [of k es cmp it']
    by (subst read_backward.simps) (simp add: take_Suc_conv_app_nth)
next
  case (Suc i)
  from prev_entry [OF assms Suc.prems] obtain it' where "iter_Prev it = Some it'" "iter_at k es cmp i it'" by auto
  moreover have "Suc i < length es" using Suc.prems by (simp add: iter_at_def)
  ultimately show ?case using at_contents [OF assms Suc.prems] Suc.IH [of it']
    by (subst read_backward.simps) (simp add: take_Suc_conv_app_nth)
qed

lemma on_built_block:
  assumes "fits_block k es"
  obtains it where "on_block cmp (build_block k es) f = f it" and "iter_on k es cmp it"
proof -
  let ?d = "build_block k es" and ?n = "entry_start k es (length es)" and ?c = "restart_count k (length es)"
  have len: "length ?d = ?n + ?c * 4 + 4" by (rule length_build [OF assms])
  have "?d = (entry_codes k es (length es) @ concat (map EncodeFixed32 (restart_points k es))) @ EncodeFixed32 (word_of_nat ?c)"
    using assms build_block_bytes by (auto simp: fits_block_def)
  then have "drop (?n + ?c * 4) ?d = EncodeFixed32 (word_of_nat ?c)" by (simp add: entry_start_def)
  then have num: "NumRestarts ?d (length ?d) = word_of_nat ?c"
    using Decode_Encode32 [of "word_of_nat ?c" "[]"] by (simp add: NumRestarts_def len)
  have c: "unat (word_of_nat ?c :: u32) = ?c" by (rule count_word [OF assms order_refl])
  have "unat (1 + word_of_nat ?c :: u32) = Suc ?c"
    using unat_small [where 'a = 32 and n = "Suc ?c"] fits_small(2) [OF assms] by simp
  then have block: "Block ?d = \<lparr>blk_data = ?d, blk_size = length ?d, restart_offset = word_of_nat ?n\<rparr>"
    using c by (simp add: Block_def Let_def num) (simp add: len)
  have "0 < ?c" by (simp add: restart_count_def)
  then have "(word_of_nat ?c :: u32) \<noteq> 0" using c by (metis less_irrefl unat_0)
  then show thesis
    by (intro that [of "Iter cmp ?d (word_of_nat ?n) (word_of_nat ?c)"])
      (auto simp: on_block_def NewIterator_def Let_def block num num [unfolded len] len Iter_def iter_on_def)
qed

section \<open>Properties\<close>

text \<open>
  C39: A block read from its first entry forward gives exactly the entries that were added to the
  builder, keys, values and order, for every restart interval and whatever the comparator; read
  from the last one backward it gives them in reverse.
\<close>

theorem block_reads_back:
  assumes "0 < k" and "\<forall>(key, val)\<in>set es. length key < 2 ^ 32 \<and> length val < 2 ^ 32"
    and "length (build_block k es) < 2 ^ 32"
  shows "on_block cmp (build_block k es) (\<lambda>it. Option.bind (SeekToFirst it) read_forward) = Some es
    \<and> on_block cmp (build_block k es) (\<lambda>it. Option.bind (SeekToLast it) read_backward) = Some (rev es)"
proof -
  have fits: "fits_block k es" using assms by (simp add: fits_block_def)
  have "Option.bind (SeekToFirst it) read_forward = Some es" if "iter_on k es cmp it" for it
  proof -
    from first_entry [OF fits that] obtain it' where it': "SeekToFirst it = Some it'"
      "if es \<noteq> [] then iter_at k es cmp 0 it' else iter_past k es cmp it'" .
    then show ?thesis using read_forward_at [OF fits, of cmp 0 it'] read_past [of k es cmp it'] by (cases "es = []") auto
  qed
  moreover have "Option.bind (SeekToLast it) read_backward = Some (rev es)" if "iter_on k es cmp it" for it
  proof -
    from last_entry [OF fits that] obtain it' where it': "SeekToLast it = Some it'"
      "if es \<noteq> [] then iter_at k es cmp (length es - 1) it' else iter_past k es cmp it'" .
    then show ?thesis using read_backward_at [OF fits, of cmp "length es - 1" it'] read_past [of k es cmp it']
      by (cases "es = []") auto
  qed
  moreover obtain it where "on_block cmp (build_block k es) (\<lambda>it. Option.bind (SeekToFirst it) read_forward) =
      Option.bind (SeekToFirst it) read_forward" "iter_on k es cmp it" using on_built_block [OF fits] .
  moreover obtain it2 where "on_block cmp (build_block k es) (\<lambda>it. Option.bind (SeekToLast it) read_backward) =
      Option.bind (SeekToLast it2) read_backward" "iter_on k es cmp it2" using on_built_block [OF fits] .
  ultimately show ?thesis by simp
qed

theorem block_reads_back_witness:
  "on_block BytewiseComparator (build_block 2 [([97], [1]), ([97, 98], []), ([97, 99], [2, 3])])
     (\<lambda>it. Option.bind (SeekToLast it) read_backward) = Some [([97, 99], [2, 3]), ([97, 98], []), ([97], [1])]"
proof -
  let ?es = "[([97], [1]), ([97, 98], []), ([97, 99], [2, 3])] :: entries"
  have "length (build_block 2 ?es) < 2 ^ 32"
    using length_build [of 2 ?es]
    by (simp add: build_block_bytes restart_count_def entry_codes_def entry_code_def entry_shared_def Let_def upt_rec varint.simps)
  with block_reads_back [of 2 ?es BytewiseComparator] show ?thesis by simp
qed

text \<open>
  C38: A seek finds its place: in a block of internal keys in ascending order, reading on from the
  position of a seek gives the entries from the first one that is not below the target, all of them
  and no other. With this the binary search over the restart points, which sees only some of the
  entries, is as good as a search through all of them.
\<close>

theorem block_seek_finds:
  defines "cmp \<equiv> InternalKeyComparator BytewiseComparator"
  assumes "0 < k" and "\<forall>(key, val)\<in>set es. 8 \<le> length key \<and> length key < 2 ^ 32 \<and> length val < 2 ^ 32"
    and "sorted_wrt (\<lambda>(a, _) (b, _). Compare cmp a b < 0) es" and "8 \<le> length target"
    and "length (build_block k es) < 2 ^ 32"
  shows "on_block cmp (build_block k es) (\<lambda>it. Option.bind (iter_Seek target it) read_forward) =
    Some (dropWhile (\<lambda>(key, _). Compare cmp key target < 0) es)"
proof -
  have fits: "fits_block k es" using assms(2,3,6) by (auto simp: fits_block_def)
  have sorted: "internal.sorted_entries es"
    using assms(3,4) by (auto simp: internal.sorted_entries_def list_all_iff cmp_def)
  have drop: "dropWhile (\<lambda>(key, _). Compare cmp key target < 0) es = drop (seek_index cmp target es) es"
    by (simp add: seek_index_def dropWhile_eq_drop)
  obtain it where it: "on_block cmp (build_block k es) (\<lambda>it. Option.bind (iter_Seek target it) read_forward) =
      Option.bind (iter_Seek target it) read_forward" "iter_on k es cmp it"
    using on_built_block [OF fits] .
  from internal.seek_entry [OF fits it(2) [unfolded cmp_def] sorted assms(5), folded cmp_def] obtain it' where
    "iter_Seek target it = Some it'" and
    "if seek_index cmp target es < length es then iter_at k es cmp (seek_index cmp target es) it' else iter_past k es cmp it'"
    by blast
  then show ?thesis
    unfolding it(1) drop using read_forward_at [OF fits, of cmp _ it'] read_past [of k es cmp it']
    by (cases "seek_index cmp target es < length es") simp_all
qed

theorem block_seek_finds_witness:
  "on_block (InternalKeyComparator BytewiseComparator)
     (build_block 16 [([97, 1, 7, 0, 0, 0, 0, 0, 0], [1]), ([98, 1, 5, 0, 0, 0, 0, 0, 0], [2])])
     (\<lambda>it. Option.bind (iter_Seek [97, 1, 6, 0, 0, 0, 0, 0, 0] it) read_forward) = Some [([98, 1, 5, 0, 0, 0, 0, 0, 0], [2])]"
proof -
  let ?es = "[([97, 1, 7, 0, 0, 0, 0, 0, 0], [1]), ([98, 1, 5, 0, 0, 0, 0, 0, 0], [2])] :: entries"
  let ?cmp = "InternalKeyComparator BytewiseComparator" and ?target = "[97, 1, 6, 0, 0, 0, 0, 0, 0] :: slice"
  have len: "length (build_block 16 ?es) < 2 ^ 32"
    using length_build [of 16 ?es]
    by (simp add: build_block_bytes restart_count_def entry_codes_def entry_code_def entry_shared_def Let_def upt_rec varint.simps)
  have cmp: "Compare ?cmp [97, 1, 7, 0, 0, 0, 0, 0, 0] [98, 1, 5, 0, 0, 0, 0, 0, 0] < 0"
    "Compare ?cmp [97, 1, 7, 0, 0, 0, 0, 0, 0] ?target < 0" "\<not> Compare ?cmp [98, 1, 5, 0, 0, 0, 0, 0, 0] ?target < 0"
    by (simp_all add: internal.compare_less IKey_less ExtractUserKey_def key_tag_def DecodeFixed64_def DecodeFixed32_def)
  show ?thesis using block_seek_finds [of 16 ?es ?target] len cmp by simp
qed

text \<open>
  C40: Where a value may end. After an entry of any block, damaged or not, was accepted, its value ends
  before the array of restart points exactly if the two lengths in its header do not add up to
  \<open>2 ^ 32\<close> or more; the check compares their sum in 32 bits and lets the others pass.
\<close>

theorem block_value_inside:
  assumes "ParseNextKey it = Some (True, it')"
  defines "start \<equiv> unat (NextEntryOffset it)" and "limit \<equiv> unat (it_restarts it)"
  shows "case DecodeEntry (take (limit - start) (drop start (it_data it))) of None \<Rightarrow> False
    | Some (shared, non_shared, value_length, rest) \<Rightarrow>
        snd (it_value it') = unat value_length \<and>
        (fst (it_value it') + snd (it_value it') \<le> limit \<longleftrightarrow> unat non_shared + unat value_length < 2 ^ 32)"
proof -
  from assms(1) obtain shared non_shared value_length rest where
    d: "DecodeEntry (take (limit - start) (drop start (it_data it))) = Some (shared, non_shared, value_length, rest)" and
    v: "it_value it' = (limit - length rest + unat non_shared, unat value_length)"
    by (auto simp: ParseNextKey_def Let_def start_def limit_def split: if_splits option.splits)
  from DecodeEntry_shorter(1) [OF d] have "length rest < limit - start" by simp
  then have r: "length rest \<le> limit" by simp
  have l: "limit < 2 ^ 32" unfolding limit_def by (rule unat_u32_less)
  have "unat (word_of_nat (length rest) :: u32) = length rest" using r l by (intro unat_small) simp
  with DecodeEntry_shorter(2) [OF d] have s: "unat (non_shared + value_length) \<le> length rest"
    by (simp add: not_less word_le_nat_alt)
  have "unat non_shared + unat value_length \<le> length rest \<longleftrightarrow> unat non_shared + unat value_length < 2 ^ 32"
  proof
    assume "unat non_shared + unat value_length < 2 ^ 32"
    then have "unat (non_shared + value_length) = unat non_shared + unat value_length"
      by (simp add: unat_word_ariths)
    with s show "unat non_shared + unat value_length \<le> length rest" by simp
  qed (use r l in simp)
  then show ?thesis using r by (simp add: d v) arith
qed

text \<open>A block of 16 bytes whose only value claims four gigabytes.\<close>

definition overrun_block :: bytes where
  "overrun_block = [0, 1, 255, 255, 255, 255, 15, 97, 0, 0, 0, 0, 1, 0, 0, 0]"

lemma wraps_to_0: "(4294967296 :: u32) = 0"
  by (simp add: word_uint_eq_iff)

lemma overrun_parse:
  "ParseNextKey (SeekToRestartPoint 0 (Iter cmp overrun_block 8 1)) =
    Some (True, (Iter cmp overrun_block 8 1)\<lparr>it_current := 0, it_restart_index := 0, it_key := [97],
      it_value := (8, 2 ^ 32 - 1)\<rparr>)"
  by (simp add: overrun_block_def ParseNextKey_def SeekToRestartPoint_def GetRestartPoint_def Iter_def NextEntryOffset_def
      DecodeEntry_def GetVarint32Ptr_def GetVarint32PtrFallback_def varint_loop.simps DecodeFixed32_def Let_def restart_loop.simps
      wraps_to_0)

lemma block_value_overrun:
  "on_block cmp overrun_block (\<lambda>it. map_option (\<lambda>it'. (iter_Valid it', it_status it', snd (it_value it'), iter_value it'))
     (SeekToFirst it)) = Some (True, OK, 2 ^ 32 - 1, None)"
proof -
  have "NumRestarts overrun_block 16 = 1" by (simp add: NumRestarts_def overrun_block_def DecodeFixed32_def)
  moreover have "length overrun_block = 16" by (simp add: overrun_block_def)
  ultimately have "NewIterator cmp (Block overrun_block) = BlockIterator (Iter cmp overrun_block 8 1)"
    by (simp add: NewIterator_def Block_def Let_def)
  with \<open>length overrun_block = 16\<close> show ?thesis
    by (simp add: on_block_def SeekToFirst_def overrun_parse) (simp add: iter_Valid_def iter_value_def Iter_def)
qed

lemma block_value_inside_witness:
  "case DecodeEntry (take 8 overrun_block) of None \<Rightarrow> False
   | Some (shared, non_shared, value_length, rest) \<Rightarrow> \<not> unat non_shared + unat value_length < 2 ^ 32"
proof -
  let ?it = "SeekToRestartPoint 0 (Iter BytewiseComparator overrun_block 8 1)"
  have "NextEntryOffset ?it = 0" "it_data ?it = overrun_block" "it_restarts ?it = 8"
    by (simp_all add: SeekToRestartPoint_def NextEntryOffset_def Iter_def GetRestartPoint_def overrun_block_def DecodeFixed32_def)
  with block_value_inside [OF overrun_parse [of BytewiseComparator]]
  show ?thesis by (auto split: option.splits)
qed

end
