(* ===== verification/Ldb_SkipList.thy ===== *)
theory Ldb_SkipList
  imports Ldb_Key
begin

text \<open>
  \<open>leveldb-library/util/random.h\<close> and \<open>db/skiplist.h\<close>: the ordered set of the memtable. Nodes lie in an
  arena and are never freed, so a pointer is the number of a node, that of the head 0. What the list
  needs of its comparator is a locale. A search is a loop over two directions; that it ends follows
  from the invariant, so without it the loop has the value \<open>None\<close>. Readers run beside an insertion, hence
  the invariant is stated so that it holds after every single store of one.
\<close>

section \<open>Random numbers\<close>

definition Random :: "u32 \<Rightarrow> u32" where
  "Random s = (let seed = s AND 0x7fffffff in if seed = 0 \<or> seed = 2147483647 then 1 else seed)"

text \<open>The seed is the state and the result.\<close>

definition Random_Next :: "u32 \<Rightarrow> u32" where
  "Random_Next seed =
     (let M = (2147483647 :: u32); A = (16807 :: u64);
          product = ucast seed * A;
          seed = ucast (drop_bit 31 product + (product AND ucast M))
      in if seed > M then seed - M else seed)"

definition Random_Uniform :: "u32 \<Rightarrow> u32 \<Rightarrow> u32 \<times> u32" where
  "Random_Uniform n seed = (let seed = Random_Next seed in (seed mod n, seed))"

definition Random_OneIn :: "u32 \<Rightarrow> u32 \<Rightarrow> bool \<times> u32" where
  "Random_OneIn n seed = (let seed = Random_Next seed in (seed mod n = 0, seed))"

definition Random_Skewed :: "u32 \<Rightarrow> u32 \<Rightarrow> u32 \<times> u32" where
  "Random_Skewed max_log seed =
     (case Random_Uniform (max_log + 1) seed of (base, seed) \<Rightarrow> Random_Uniform (push_bit (unat base) 1) seed)"

section \<open>Nodes\<close>

record 'k node =
  node_key :: 'k
  node_next :: "nat option list"

record 'k skiplist =
  sl_nodes :: "'k node list"
  sl_max_height :: nat
  sl_rnd :: u32

definition kMaxHeight :: nat where
  "kMaxHeight = 12"

definition node_Next :: "'k skiplist \<Rightarrow> nat \<Rightarrow> nat \<Rightarrow> nat option" where
  "node_Next sl x n = node_next (sl_nodes sl ! x) ! n"

definition node_SetNext :: "nat \<Rightarrow> nat \<Rightarrow> nat option \<Rightarrow> 'k skiplist \<Rightarrow> 'k skiplist" where
  "node_SetNext x n p sl =
     sl\<lparr>sl_nodes := (sl_nodes sl)[x := (sl_nodes sl ! x)\<lparr>node_next := (node_next (sl_nodes sl ! x))[n := p]\<rparr>]\<rparr>"

text \<open>The links of a new node are not initialised in the code; nothing reads them before they are set.\<close>

definition NewNode :: "'k \<Rightarrow> nat \<Rightarrow> 'k skiplist \<Rightarrow> nat \<times> 'k skiplist" where
  "NewNode key height sl =
     (length (sl_nodes sl), sl\<lparr>sl_nodes := sl_nodes sl @ [\<lparr>node_key = key, node_next = replicate height None\<rparr>]\<rparr>)"

text \<open>\<open>zero\<close> is the key of the head, which is never compared.\<close>

definition SkipList :: "'k \<Rightarrow> 'k skiplist" where
  "SkipList zero =
     (let (head, sl) = NewNode zero kMaxHeight \<lparr>sl_nodes = [], sl_max_height = 1, sl_rnd = Random 0xdeadbeef\<rparr>
      in fold (\<lambda>i. node_SetNext head i None) [0..<kMaxHeight] sl)"

function height_loop :: "nat \<Rightarrow> u32 \<Rightarrow> nat \<times> u32" where
  "height_loop height rnd =
     (if height < kMaxHeight then
        let rnd = Random_Next rnd in if rnd mod 4 = 0 then height_loop (height + 1) rnd else (height, rnd)
      else (height, rnd))"
  by pat_completeness auto
termination by (relation "measure (\<lambda>(height, rnd). kMaxHeight - height)") auto

declare height_loop.simps [simp del]

definition RandomHeight :: "u32 \<Rightarrow> nat \<times> u32" where
  "RandomHeight rnd = height_loop 1 rnd"

section \<open>Searching and inserting\<close>

type_synonym 'k compare = "'k \<Rightarrow> 'k \<Rightarrow> int"

definition KeyIsAfterNode :: "'k compare \<Rightarrow> 'k skiplist \<Rightarrow> 'k \<Rightarrow> nat option \<Rightarrow> bool" where
  "KeyIsAfterNode cmp sl key n = (case n of None \<Rightarrow> False | Some n \<Rightarrow> cmp (node_key (sl_nodes sl ! n)) key < 0)"

text \<open>The array \<open>prev\<close> is filled; a caller that passes a null pointer drops it.\<close>

partial_function (option) find_loop ::
    "'k compare \<Rightarrow> 'k skiplist \<Rightarrow> 'k \<Rightarrow> nat \<Rightarrow> nat \<Rightarrow> nat list \<Rightarrow> (nat option \<times> nat list) option" where
  "find_loop cmp sl key x level prev =
     (let nxt = node_Next sl x level in
      if KeyIsAfterNode cmp sl key nxt then find_loop cmp sl key (the nxt) level prev
      else
        let prev = prev[level := x] in
        if level = 0 then Some (nxt, prev) else find_loop cmp sl key x (level - 1) prev)"

definition FindGreaterOrEqual :: "'k compare \<Rightarrow> 'k skiplist \<Rightarrow> 'k \<Rightarrow> nat list \<Rightarrow> (nat option \<times> nat list) option" where
  "FindGreaterOrEqual cmp sl key prev = find_loop cmp sl key 0 (sl_max_height sl - 1) prev"

partial_function (option) less_loop :: "'k compare \<Rightarrow> 'k skiplist \<Rightarrow> 'k \<Rightarrow> nat \<Rightarrow> nat \<Rightarrow> nat option" where
  "less_loop cmp sl key x level =
     (let nxt = node_Next sl x level in
      if nxt = None \<or> cmp (node_key (sl_nodes sl ! the nxt)) key \<ge> 0 then
        if level = 0 then Some x else less_loop cmp sl key x (level - 1)
      else less_loop cmp sl key (the nxt) level)"

definition FindLessThan :: "'k compare \<Rightarrow> 'k skiplist \<Rightarrow> 'k \<Rightarrow> nat option" where
  "FindLessThan cmp sl key = less_loop cmp sl key 0 (sl_max_height sl - 1)"

partial_function (option) last_loop :: "'k skiplist \<Rightarrow> nat \<Rightarrow> nat \<Rightarrow> nat option" where
  "last_loop sl x level =
     (case node_Next sl x level of
        None \<Rightarrow> if level = 0 then Some x else last_loop sl x (level - 1)
      | Some nxt \<Rightarrow> last_loop sl nxt level)"

definition FindLast :: "'k skiplist \<Rightarrow> nat option" where
  "FindLast sl = last_loop sl 0 (sl_max_height sl - 1)"

text \<open>One round of the loop that links a new node, its two stores apart.\<close>

definition point_node :: "nat list \<Rightarrow> nat \<Rightarrow> nat \<Rightarrow> 'k skiplist \<Rightarrow> 'k skiplist" where
  "point_node prev x i sl = node_SetNext x i (node_Next sl (prev ! i) i) sl"

definition publish_node :: "nat list \<Rightarrow> nat \<Rightarrow> nat \<Rightarrow> 'k skiplist \<Rightarrow> 'k skiplist" where
  "publish_node prev x i sl = node_SetNext (prev ! i) i (Some x) sl"

definition link_node :: "nat list \<Rightarrow> nat \<Rightarrow> nat \<Rightarrow> 'k skiplist \<Rightarrow> 'k skiplist" where
  "link_node prev x i sl = publish_node prev x i (point_node prev x i sl)"

text \<open>What comes before the loop: the search, the height, the new node.\<close>

definition insert_prepare :: "'k compare \<Rightarrow> 'k \<Rightarrow> 'k skiplist \<Rightarrow> (nat list \<times> nat \<times> nat \<times> 'k skiplist) option" where
  "insert_prepare cmp key sl =
     (case FindGreaterOrEqual cmp sl key (replicate kMaxHeight 0) of None \<Rightarrow> None
      | Some (_, prev) \<Rightarrow>
          let (height, rnd) = RandomHeight (sl_rnd sl);
              sl = sl\<lparr>sl_rnd := rnd\<rparr>;
              (prev, sl) =
                (if height > sl_max_height sl
                 then (fold (\<lambda>i prev. prev[i := 0]) [sl_max_height sl..<height] prev, sl\<lparr>sl_max_height := height\<rparr>)
                 else (prev, sl));
              (x, sl) = NewNode key height sl
          in Some (prev, height, x, sl))"

definition sl_Insert :: "'k compare \<Rightarrow> 'k \<Rightarrow> 'k skiplist \<Rightarrow> 'k skiplist option" where
  "sl_Insert cmp key sl =
     map_option (\<lambda>(prev, height, x, sl). fold (link_node prev x) [0..<height] sl) (insert_prepare cmp key sl)"

definition sl_Contains :: "'k compare \<Rightarrow> 'k \<Rightarrow> 'k skiplist \<Rightarrow> bool option" where
  "sl_Contains cmp key sl =
     (case FindGreaterOrEqual cmp sl key [] of None \<Rightarrow> None
      | Some (None, _) \<Rightarrow> Some False
      | Some (Some x, _) \<Rightarrow> Some (cmp key (node_key (sl_nodes sl ! x)) = 0))"

text \<open>The iterator is its \<open>node_\<close>.\<close>

definition sl_Valid :: "nat option \<Rightarrow> bool" where
  "sl_Valid node \<longleftrightarrow> node \<noteq> None"

definition sl_key :: "'k skiplist \<Rightarrow> nat \<Rightarrow> 'k" where
  "sl_key sl node = node_key (sl_nodes sl ! node)"

definition sl_Next :: "'k skiplist \<Rightarrow> nat \<Rightarrow> nat option" where
  "sl_Next sl node = node_Next sl node 0"

definition sl_Prev :: "'k compare \<Rightarrow> 'k skiplist \<Rightarrow> nat \<Rightarrow> nat option option" where
  "sl_Prev cmp sl node =
     map_option (\<lambda>n. if n = 0 then None else Some n) (FindLessThan cmp sl (node_key (sl_nodes sl ! node)))"

definition sl_Seek :: "'k compare \<Rightarrow> 'k \<Rightarrow> 'k skiplist \<Rightarrow> nat option option" where
  "sl_Seek cmp target sl = map_option fst (FindGreaterOrEqual cmp sl target [])"

definition sl_SeekToFirst :: "'k skiplist \<Rightarrow> nat option" where
  "sl_SeekToFirst sl = node_Next sl 0 0"

definition sl_SeekToLast :: "'k skiplist \<Rightarrow> nat option option" where
  "sl_SeekToLast sl = map_option (\<lambda>n. if n = 0 then None else Some n) (FindLast sl)"

section \<open>The random numbers\<close>

lemma Random_Next_mod:
  assumes "0 < unat s" and "unat s < 2147483647"
  shows "unat (Random_Next s) = unat s * 16807 mod 2147483647"
    and "0 < unat (Random_Next s)" and "unat (Random_Next s) < 2147483647"
proof -
  let ?M = "2147483647 :: nat"
  define p where "p = unat s * 16807"
  define q r where "q = p div 2 ^ 31" and "r = p mod 2 ^ 31"
  have p: "p < 16807 * ?M" using assms(2) by (simp add: p_def)
  have qr: "p = q * 2 ^ 31 + r" "r \<le> ?M" "q < 16807"
    using p by (auto simp: q_def r_def less_Suc_eq_le [symmetric] div_less_iff_less_mult)
  define w where "w = (ucast s :: u64) * 16807"
  have s: "unat (ucast s :: u64) = unat s" using unat_u32_less [of s] by (simp add: unsigned_ucast_eq take_bit_nat_eq_self)
  have w: "unat w = p" using p by (simp add: w_def p_def unat_word_ariths s)
  have "unat (drop_bit 31 w) = q" by (simp only: unat_drop_bit w q_def)
  moreover have "unat (w AND ucast (2147483647 :: u32)) = r"
  proof -
    have "ucast (2147483647 :: u32) = (mask 31 :: u64)" by (simp add: mask_eq_exp_minus_1)
    then show ?thesis by (simp only: unat_and_mask w r_def)
  qed
  ultimately have sum: "unat (drop_bit 31 w + (w AND ucast (2147483647 :: u32))) = q + r"
    using qr by (simp add: unat_word_ariths)
  define c where "c = (ucast (drop_bit 31 w + (w AND ucast (2147483647 :: u32))) :: u32)"
  have c: "unat c = q + r" using sum qr by (simp add: c_def unsigned_ucast_eq take_bit_nat_eq_self)
  have step: "Random_Next s = (if c > 2147483647 then c - 2147483647 else c)"
    by (simp add: Random_Next_def Let_def w_def c_def)
  have n: "unat (Random_Next s) = (if q + r > ?M then q + r - ?M else q + r)"
    using c by (auto simp: step word_less_nat_alt unat_sub_if_size word_size)
  have "p mod ?M = (q + r) mod ?M"
  proof -
    have "p = q * ?M + (q + r)" using qr(1) by simp
    then show ?thesis by (metis mod_mult_self3)
  qed
  moreover have "p mod ?M \<noteq> 0"
  proof
    assume "p mod ?M = 0"
    then have "?M dvd unat s * 16807" by (simp add: p_def mod_eq_0_iff_dvd)
    moreover have "coprime ?M (16807 :: nat)"
      by (simp add: coprime_iff_gcd_eq_1 gcd_non_0_nat)
    ultimately have "?M dvd unat s" by (simp add: coprime_dvd_mult_left_iff)
    with assms show False by (auto dest: dvd_imp_le)
  qed
  moreover have "q + r < 2 * ?M" using qr by simp
  ultimately show "unat (Random_Next s) = unat s * 16807 mod ?M" "0 < unat (Random_Next s)" "unat (Random_Next s) < ?M"
    unfolding p_def [symmetric] n by (auto simp: mod_if split: if_splits)
qed

section \<open>The invariant\<close>

text \<open>
  What a comparator must be for a skip list: a linear order on the keys that are compared.
\<close>

locale ordered_keys =
  fixes cmp :: "'k compare" and valid :: "'k \<Rightarrow> bool" and rank :: "'k \<Rightarrow> 'o::linorder"
  assumes cmp_less: "valid a \<Longrightarrow> valid b \<Longrightarrow> cmp a b < 0 \<longleftrightarrow> rank a < rank b"
    and cmp_eq: "valid a \<Longrightarrow> valid b \<Longrightarrow> cmp a b = 0 \<longleftrightarrow> rank a = rank b"

sublocale comparator_contract \<subseteq> ordered: ordered_keys "Compare cmp" valid key
  by unfold_locales (rule compare_less compare_eq; assumption)+

text \<open>The nodes reached from \<open>x\<close>, in their order, by the links \<open>f\<close>.\<close>

fun path :: "(nat \<Rightarrow> nat option) \<Rightarrow> nat \<Rightarrow> nat list \<Rightarrow> bool" where
  "path f x [] \<longleftrightarrow> f x = None"
| "path f x (y # ys) \<longleftrightarrow> f x = Some y \<and> path f y ys"

definition hd_option :: "'a list \<Rightarrow> 'a option" where
  "hd_option xs = (case xs of [] \<Rightarrow> None | x # _ \<Rightarrow> Some x)"

lemma path_append: "path f x (xs @ ys) \<Longrightarrow> path f (last (x # xs)) ys"
  by (induction xs arbitrary: x) auto

lemma path_hd: "path f x xs \<Longrightarrow> f x = hd_option xs"
  by (cases xs) (simp_all add: hd_option_def)

lemma path_cong: "path f x xs \<Longrightarrow> (\<And>y. y \<in> set (x # xs) \<Longrightarrow> g y = f y) \<Longrightarrow> path g x xs"
  by (induction xs arbitrary: x) simp_all

lemma path_insert:
  assumes "path f x (xs @ ys)" and "distinct (x # xs @ ys)" and "n \<notin> set (x # xs @ ys)"
  shows "path (f(n := hd_option ys, last (x # xs) := Some n)) x (xs @ n # ys)"
  using assms
proof (induction xs arbitrary: x)
  case Nil
  define g where "g = f(n := hd_option ys, x := Some n)"
  have g: "g x = Some n" "g n = hd_option ys" "\<And>y. y \<noteq> x \<Longrightarrow> y \<noteq> n \<Longrightarrow> g y = f y"
    using Nil.prems by (auto simp: g_def)
  have "path g n ys"
  proof (cases ys)
    case (Cons y zs)
    with Nil.prems have "path f y zs" "x \<notin> set (y # zs)" "n \<notin> set (y # zs)" by simp_all
    then have "path g y zs" by (elim path_cong) (metis g(3))
    with Cons g(2) show ?thesis by (simp add: hd_option_def)
  qed (simp add: hd_option_def g(2))
  moreover have "f(n := hd_option ys, last [x] := Some n) = g" by (simp add: g_def)
  ultimately show ?case using g(1) by (simp only: append_Nil path.simps)
next
  case (Cons z xs)
  from Cons.prems have z: "path f z (xs @ ys)" "distinct (z # xs @ ys)" "n \<notin> set (z # xs @ ys)" by simp_all
  define e where "e = last (z # xs)"
  have "e \<in> set (z # xs)" unfolding e_def by (rule last_in_set) simp
  then have "x \<noteq> e" "x \<noteq> n" "f x = Some z" "last (x # z # xs) = e" using Cons.prems by (auto simp: e_def)
  with Cons.IH [OF z, folded e_def] show ?case by simp
qed

text \<open>
  The nodes of \<open>ns\<close> are in ascending order, and at each level the links run through those that are
  linked there, which for node \<open>x\<close> are the levels below \<open>lv x\<close>: its height, or less while it is being
  linked.
\<close>

definition skip_levels :: "'k compare \<Rightarrow> ('k \<Rightarrow> bool) \<Rightarrow> 'k skiplist \<Rightarrow> (nat \<Rightarrow> nat) \<Rightarrow> nat list \<Rightarrow> bool" where
  "skip_levels cmp valid sl lv ns \<longleftrightarrow>
     sl_nodes sl \<noteq> [] \<and> length (node_next (sl_nodes sl ! 0)) = kMaxHeight
     \<and> 1 \<le> sl_max_height sl \<and> sl_max_height sl \<le> kMaxHeight \<and> distinct ns
     \<and> (\<forall>x\<in>set ns. 0 < x \<and> x < length (sl_nodes sl) \<and> lv x \<le> length (node_next (sl_nodes sl ! x))
          \<and> valid (sl_key sl x))
     \<and> sorted_wrt (\<lambda>x y. cmp (sl_key sl x) (sl_key sl y) < 0) ns
     \<and> (\<forall>l<kMaxHeight. path (\<lambda>x. node_Next sl x l) 0 (filter (\<lambda>x. l < lv x) ns))"

text \<open>The nodes of a whole list: all are linked at all their levels.\<close>

definition skip_nodes :: "'k compare \<Rightarrow> ('k \<Rightarrow> bool) \<Rightarrow> 'k skiplist \<Rightarrow> nat list \<Rightarrow> bool" where
  "skip_nodes cmp valid sl ns \<longleftrightarrow>
     skip_levels cmp valid sl (\<lambda>x. length (node_next (sl_nodes sl ! x))) ns
     \<and> (\<forall>x\<in>set ns. 1 \<le> length (node_next (sl_nodes sl ! x)) \<and> length (node_next (sl_nodes sl ! x)) \<le> sl_max_height sl)"

lemma levels_path: "skip_levels cmp valid sl lv ns \<Longrightarrow> l < kMaxHeight \<Longrightarrow> path (\<lambda>x. node_Next sl x l) 0 (filter (\<lambda>x. l < lv x) ns)"
  by (simp add: skip_levels_def)

lemma SetNext_nth:
  "sl_nodes (node_SetNext x n p sl) ! y =
    (if y = x \<and> x < length (sl_nodes sl)
     then (sl_nodes sl ! x)\<lparr>node_next := (node_next (sl_nodes sl ! x))[n := p]\<rparr> else sl_nodes sl ! y)"
  by (cases "y = x"; cases "x < length (sl_nodes sl)") (simp_all add: node_SetNext_def list_update_beyond not_less)

lemma SetNext_fields [simp]:
  "length (sl_nodes (node_SetNext x n p sl)) = length (sl_nodes sl)"
  "sl_max_height (node_SetNext x n p sl) = sl_max_height sl"
  "sl_rnd (node_SetNext x n p sl) = sl_rnd sl"
  "node_key (sl_nodes (node_SetNext x n p sl) ! y) = node_key (sl_nodes sl ! y)"
  "length (node_next (sl_nodes (node_SetNext x n p sl) ! y)) = length (node_next (sl_nodes sl ! y))"
  by (simp_all add: SetNext_nth) (simp_all add: node_SetNext_def)

lemma SetNext_nodes [simp]: "sl_nodes (node_SetNext x n p sl) = [] \<longleftrightarrow> sl_nodes sl = []"
  by (simp add: node_SetNext_def)

lemma SetNext_key [simp]: "sl_key (node_SetNext x n p sl) y = sl_key sl y"
  by (simp add: sl_key_def)

lemma Next_SetNext:
  assumes "x < length (sl_nodes sl)" and "n < length (node_next (sl_nodes sl ! x))"
  shows "node_Next (node_SetNext x n p sl) y l = (if y = x \<and> l = n then p else node_Next sl y l)"
  using assms by (simp add: node_Next_def SetNext_nth nth_list_update)

lemma new_list: "skip_nodes cmp valid (SkipList zero) []"
proof -
  define sl0 where "sl0 = \<lparr>sl_nodes = [\<lparr>node_key = zero, node_next = replicate kMaxHeight None\<rparr>], sl_max_height = 1, sl_rnd = Random 0xdeadbeef\<rparr>"
  have "sl_nodes sl \<noteq> [] \<and> length (node_next (sl_nodes sl ! 0)) = kMaxHeight \<and> sl_max_height sl = 1
      \<and> (\<forall>l<kMaxHeight. node_Next sl 0 l = None)"
    if "sl = fold (\<lambda>i. node_SetNext 0 i None) is sl0" "set is \<subseteq> {..<kMaxHeight}" for sl "is"
    using that
  proof (induction "is" arbitrary: sl rule: rev_induct)
    case Nil
    then show ?case by (simp add: sl0_def node_Next_def)
  next
    case (snoc i "is")
    define sl' where "sl' = fold (\<lambda>i. node_SetNext 0 i None) is sl0"
    have sl: "sl = node_SetNext 0 i None sl'" using snoc.prems(1) by (simp add: sl'_def)
    have i: "i < kMaxHeight" using snoc.prems(2) by simp
    note IH = snoc.IH [OF sl'_def]
    with snoc.prems(2) have sl': "sl_nodes sl' \<noteq> []" "length (node_next (sl_nodes sl' ! 0)) = kMaxHeight"
      "sl_max_height sl' = 1" "\<forall>l<kMaxHeight. node_Next sl' 0 l = None" by simp_all
    with i show ?case by (simp add: sl Next_SetNext)
  qed
  moreover have "SkipList zero = fold (\<lambda>i. node_SetNext 0 i None) [0..<kMaxHeight] sl0"
    by (simp add: SkipList_def NewNode_def sl0_def Let_def)
  moreover have "set [0..<kMaxHeight] \<subseteq> {..<kMaxHeight}" by auto
  ultimately have "sl_nodes (SkipList zero) \<noteq> []" "length (node_next (sl_nodes (SkipList zero) ! 0)) = kMaxHeight"
    "sl_max_height (SkipList zero) = 1" "\<forall>l<kMaxHeight. node_Next (SkipList zero) 0 l = None" by blast+
  moreover have "1 \<le> kMaxHeight" by (simp add: kMaxHeight_def)
  ultimately show ?thesis by (simp add: skip_nodes_def skip_levels_def)
qed

section \<open>Searching\<close>

text \<open>
  The three searches are one loop: along a level as long as the next node is \<open>before\<close> the target,
  else a level down, with a note of the node this level ended at. Nothing is asked of the links here.
\<close>

definition place :: "(nat \<Rightarrow> nat) \<Rightarrow> nat \<Rightarrow> nat list \<Rightarrow> nat" where
  "place lv l as = last (0 # filter (\<lambda>x. l < lv x) as)"

lemma from_place:
  assumes "path f 0 (filter (\<lambda>x. l < lv x) as @ bs)" and "0 < m \<longrightarrow> l < m"
  obtains ps where "path f (if 0 < m then place lv m as else 0) (ps @ bs)"
    and "set ps \<subseteq> set as" and "last ((if 0 < m then place lv m as else 0) # ps) = place lv l as"
proof (cases "0 < m \<and> filter (\<lambda>x. m < lv x) as \<noteq> []")
  case True
  define y where "y = place lv m as"
  have "y = last (filter (\<lambda>x. m < lv x) as)" using True by (simp add: y_def place_def)
  then have "y \<in> set (filter (\<lambda>x. m < lv x) as)" using True last_in_set by metis
  then have "y \<in> set (filter (\<lambda>x. l < lv x) as)" using assms(2) True by auto
  then obtain us ps where f: "filter (\<lambda>x. l < lv x) as = us @ y # ps" by (meson split_list)
  have "path f y (ps @ bs)" using path_append [of f 0 "us @ [y]" "ps @ bs"] assms(1) by (simp add: f)
  moreover have "set ps \<subseteq> set as" using f by (metis filter_is_subset set_append set_subset_Cons subset_trans sup_ge2)
  moreover have "last (y # ps) = place lv l as" by (simp add: place_def f)
  ultimately show thesis using that [of ps] True by (simp add: y_def)
next
  case False
  have start: "(if 0 < m then place lv m as else 0) = 0" using False by (auto simp: place_def)
  show thesis
    by (rule that [of "filter (\<lambda>x. l < lv x) as"]) (use assms(1) in \<open>auto simp: start place_def\<close>)
qed

locale search_loop =
  fixes nxt :: "nat \<Rightarrow> nat \<Rightarrow> nat option" and before :: "nat \<Rightarrow> bool"
    and loop :: "nat \<Rightarrow> nat \<Rightarrow> 's \<Rightarrow> 'r" and note_at :: "nat \<Rightarrow> nat \<Rightarrow> 's \<Rightarrow> 's" and result :: "nat option \<Rightarrow> nat \<Rightarrow> 's \<Rightarrow> 'r"
  assumes walks: "nxt x l = Some y \<Longrightarrow> before y \<Longrightarrow> loop x l s = loop y l s"
    and drops: "nxt x l = None \<or> \<not> before (the (nxt x l)) \<Longrightarrow>
      loop x l s = (if l = 0 then result (nxt x l) x (note_at l x s) else loop x (l - 1) (note_at l x s))"
begin

lemma walk_level:
  assumes "path (\<lambda>x. nxt x l) x (ps @ qs)" and "\<forall>y\<in>set ps. before y" and "qs = [] \<or> \<not> before (hd qs)"
  shows "loop x l s =
    (if l = 0 then result (hd_option qs) (last (x # ps)) (note_at l (last (x # ps)) s)
     else loop (last (x # ps)) (l - 1) (note_at l (last (x # ps)) s))"
  using assms(1,2)
proof (induction ps arbitrary: x)
  case Nil
  then have "nxt x l = hd_option qs" using path_hd by fastforce
  then show ?case using drops [of x l s] assms(3) by (auto simp: hd_option_def split: list.splits)
next
  case (Cons y ps)
  then have "loop x l s = loop y l s" by (intro walks) simp_all
  with Cons show ?case by simp
qed

text \<open>From the place at one level the search comes to the places at all levels below.\<close>

lemma to_places:
  assumes paths: "\<forall>l<H. path (\<lambda>x. nxt x l) 0 (filter (\<lambda>x. l < lv x) (as @ bs))"
    and as: "\<forall>y\<in>set as. before y" and bs: "\<forall>y\<in>set bs. \<not> before y"
    and "l < H" and "0 < m \<longrightarrow> l < m"
  shows "loop (if 0 < m then place lv m as else 0) l s =
    result (hd_option (filter (\<lambda>x. 0 < lv x) bs)) (place lv 0 as)
      (fold (\<lambda>i. note_at i (place lv i as)) (rev [0..<Suc l]) s)"
  using assms(4,5)
proof (induction l arbitrary: m s)
  have step: "loop (if 0 < m then place lv m as else 0) l s =
      (if l = 0 then result (hd_option (filter (\<lambda>x. l < lv x) bs)) (place lv l as) (note_at l (place lv l as) s)
       else loop (place lv l as) (l - 1) (note_at l (place lv l as) s))"
    if "l < H" "0 < m \<longrightarrow> l < m" for l m s
  proof -
    have "path (\<lambda>x. nxt x l) 0 (filter (\<lambda>x. l < lv x) as @ filter (\<lambda>x. l < lv x) bs)"
      using paths that(1) by simp
    from from_place [OF this that(2)] obtain ps where
      ps: "path (\<lambda>x. nxt x l) (if 0 < m then place lv m as else 0) (ps @ filter (\<lambda>x. l < lv x) bs)"
        "set ps \<subseteq> set as" "last ((if 0 < m then place lv m as else 0) # ps) = place lv l as" .
    have "filter (\<lambda>x. l < lv x) bs = [] \<or> \<not> before (hd (filter (\<lambda>x. l < lv x) bs))"
      using bs hd_in_set [of "filter (\<lambda>x. l < lv x) bs"] by auto
    moreover have "\<forall>y\<in>set ps. before y" using as ps(2) by blast
    ultimately show ?thesis using walk_level [OF ps(1)] ps(3) by simp
  qed
  {
    case 0
    then show ?case using step [of 0 m s] by simp
  next
    case (Suc l)
    have "loop (if 0 < m then place lv m as else 0) (Suc l) s =
        loop (if 0 < Suc l then place lv (Suc l) as else 0) l (note_at (Suc l) (place lv (Suc l) as) s)"
      using step [OF Suc.prems, of s] by simp
    also have "\<dots> = result (hd_option (filter (\<lambda>x. 0 < lv x) bs)) (place lv 0 as)
        (fold (\<lambda>i. note_at i (place lv i as)) (rev [0..<Suc l]) (note_at (Suc l) (place lv (Suc l) as) s))"
      using Suc.prems by (intro Suc.IH) simp_all
    finally show ?case by simp
  }
qed

lemma from_head:
  assumes "\<forall>l<H. path (\<lambda>x. nxt x l) 0 (filter (\<lambda>x. l < lv x) (as @ bs))"
    and "\<forall>y\<in>set as. before y" and "\<forall>y\<in>set bs. \<not> before y" and "l < H"
  shows "loop 0 l s = result (hd_option (filter (\<lambda>x. 0 < lv x) bs)) (place lv 0 as)
      (fold (\<lambda>i. note_at i (place lv i as)) (rev [0..<Suc l]) s)"
  using to_places [OF assms, of 0 s] by (simp only: less_irrefl if_False simp_thms)

end

interpretation find: search_loop "node_Next sl" "\<lambda>y. cmp (sl_key sl y) key < 0" "find_loop cmp sl key"
    "\<lambda>l x prev. prev[l := x]" "\<lambda>nxt _ prev. Some (nxt, prev)" for cmp :: "'k compare" and sl key
  by unfold_locales
    (subst find_loop.simps, auto simp: Let_def KeyIsAfterNode_def sl_key_def split: option.splits)+

interpretation less: search_loop "node_Next sl" "\<lambda>y. cmp (sl_key sl y) key < 0" "\<lambda>x l _. less_loop cmp sl key x l"
    "\<lambda>_ _ s. s" "\<lambda>_ x _. Some x" for cmp :: "'k compare" and sl key
  by unfold_locales (subst less_loop.simps, auto simp: Let_def sl_key_def not_le split: if_splits)+

interpretation last: search_loop "node_Next sl" "\<lambda>_. True" "\<lambda>x l _. last_loop sl x l"
    "\<lambda>_ _ s. s" "\<lambda>_ x _. Some x" for sl :: "'k skiplist"
  by unfold_locales (subst last_loop.simps, auto)+

lemma fold_places:
  "j < length prev \<Longrightarrow> fold (\<lambda>i prev. prev[i := f i]) (rev [0..<n]) prev ! j = (if j < n then f j else prev ! j)"
  by (induction n arbitrary: prev) (auto simp: nth_list_update less_Suc_eq)

lemma length_fold_places [simp]: "length (fold (\<lambda>i prev. prev[i := f i]) is prev) = length prev"
  by (induction "is" arbitrary: prev) simp_all

section \<open>Linking a node\<close>

abbreviation node_height :: "'k skiplist \<Rightarrow> nat \<Rightarrow> nat" where
  "node_height sl x \<equiv> length (node_next (sl_nodes sl ! x))"

text \<open>Node \<open>x\<close> is being inserted and linked at the levels below \<open>i\<close>.\<close>

definition linking :: "'k compare \<Rightarrow> ('k \<Rightarrow> bool) \<Rightarrow> 'k skiplist \<Rightarrow> nat list \<Rightarrow> nat \<Rightarrow> nat \<Rightarrow> nat list \<Rightarrow> bool" where
  "linking cmp valid sl prev x i ns \<longleftrightarrow>
     skip_levels cmp valid sl ((node_height sl)(x := i)) ns \<and> x \<in> set ns \<and> i \<le> node_height sl x
     \<and> (\<forall>y\<in>set ns. 1 \<le> node_height sl y \<and> node_height sl y \<le> sl_max_height sl)
     \<and> (\<forall>j<node_height sl x. prev ! j = place (node_height sl) j (takeWhile (\<lambda>y. y \<noteq> x) ns))"

lemma place_cases: "place lv l as = 0 \<or> place lv l as \<in> set as \<and> l < lv (place lv l as)"
proof (cases "filter (\<lambda>x. l < lv x) as = []")
  case False
  then have "last (filter (\<lambda>x. l < lv x) as) \<in> set (filter (\<lambda>x. l < lv x) as)" by (rule last_in_set)
  with False show ?thesis by (simp add: place_def)
qed (simp add: place_def)

lemma linked_whole:
  "linking cmp valid sl prev x (node_height sl x) ns \<Longrightarrow> skip_nodes cmp valid sl ns"
proof -
  have "(node_height sl)(x := node_height sl x) = node_height sl" by (rule fun_upd_triv)
  then show "linking cmp valid sl prev x (node_height sl x) ns \<Longrightarrow> skip_nodes cmp valid sl ns"
    by (auto simp: linking_def skip_nodes_def)
qed

lemma skip_nodes_levels: "skip_nodes cmp valid sl ns \<Longrightarrow> skip_levels cmp valid sl (node_height sl) ns"
  by (simp add: skip_nodes_def)

lemma skip_nodes_height:
  "skip_nodes cmp valid sl ns \<Longrightarrow> set xs \<subseteq> set ns \<Longrightarrow> filter (\<lambda>x. 0 < node_height sl x) xs = xs"
proof (rule filter_True)
  assume "skip_nodes cmp valid sl ns" "set xs \<subseteq> set ns"
  then have "\<forall>x\<in>set xs. 1 \<le> node_height sl x" by (auto simp: skip_nodes_def)
  then show "\<forall>x\<in>set xs. 0 < node_height sl x" by (simp only: One_nat_def Suc_le_eq)
qed

lemma filter_fun_upd: "x \<notin> set as \<Longrightarrow> filter (\<lambda>y. l < (f(x := i)) y) as = filter (\<lambda>y. l < f y) as"
  by (rule filter_cong) auto

text \<open>A store changes no key, no height and no link but its own.\<close>

lemma skip_levels_store:
  assumes "skip_levels cmp valid sl lv ns" and "x < length (sl_nodes sl)" and "n < node_height sl x"
    and "\<forall>y\<in>set ns. lv' y \<le> node_height sl y"
    and "\<And>l. l < kMaxHeight \<Longrightarrow> path (\<lambda>y. if y = x \<and> l = n then p else node_Next sl y l) 0 (filter (\<lambda>y. l < lv' y) ns)"
  shows "skip_levels cmp valid (node_SetNext x n p sl) lv' ns"
  using assms by (simp add: skip_levels_def Next_SetNext)

lemma linking_facts:
  assumes "linking cmp valid sl prev x i ns"
  obtains as bs where "ns = as @ x # bs" and "takeWhile (\<lambda>y. y \<noteq> x) ns = as" and "x \<notin> set as" "x \<notin> set bs" and "x \<noteq> 0"
    and "x < length (sl_nodes sl)" and "node_height sl x \<le> kMaxHeight" and "distinct (0 # ns)"
proof -
  have l: "skip_levels cmp valid sl ((node_height sl)(x := i)) ns" and x: "x \<in> set ns" "node_height sl x \<le> sl_max_height sl"
    using assms by (simp_all add: linking_def)
  from x(1) obtain as bs where ns: "ns = as @ x # bs" by (meson split_list)
  from l have d: "distinct (0 # ns)" "x < length (sl_nodes sl)" "sl_max_height sl \<le> kMaxHeight"
    using x(1) by (auto simp: skip_levels_def)
  show thesis
  proof (rule that [OF ns])
    show "takeWhile (\<lambda>y. y \<noteq> x) ns = as" using d(1) by (subst ns, subst takeWhile_append2) (auto simp: ns)
  qed (use d x ns in auto)
qed

lemma point_node_linking:
  assumes "linking cmp valid sl prev x i ns" and "i < node_height sl x"
  shows "linking cmp valid (point_node prev x i sl) prev x i ns"
    and "node_Next (point_node prev x i sl) x i = node_Next (point_node prev x i sl) (prev ! i) i"
proof -
  from linking_facts [OF assms(1)] obtain as bs where f: "ns = as @ x # bs" "takeWhile (\<lambda>y. y \<noteq> x) ns = as"
    "x \<notin> set as" "x \<notin> set bs" "x \<noteq> 0" "x < length (sl_nodes sl)" "node_height sl x \<le> kMaxHeight" "distinct (0 # ns)" .
  define lv where "lv = (node_height sl)(x := i)"
  from assms(1) have l: "skip_levels cmp valid sl lv ns" by (simp add: linking_def lv_def)
  have p: "path (\<lambda>y. if y = x \<and> l = i then q else node_Next sl y l) 0 (filter (\<lambda>y. l < lv y) ns)" if "l < kMaxHeight" for l q
  proof -
    have "path (\<lambda>y. node_Next sl y l) 0 (filter (\<lambda>y. l < lv y) ns)" using l that by (rule levels_path)
    moreover have "x \<notin> set (0 # filter (\<lambda>y. l < lv y) ns)" if "l = i" using that f(5) by (simp add: lv_def)
    ultimately show ?thesis by (elim path_cong) auto
  qed
  have "\<forall>y\<in>set ns. lv y \<le> node_height sl y" using l by (simp add: skip_levels_def)
  then have "skip_levels cmp valid (point_node prev x i sl) lv ns"
    unfolding point_node_def by (intro skip_levels_store [OF l f(6) assms(2)] p)
  then show "linking cmp valid (point_node prev x i sl) prev x i ns"
    using assms(1) by (simp add: linking_def lv_def point_node_def)
  have "prev ! i \<noteq> x" using assms f(2,3,5) place_cases [of "node_height sl" i as] by (auto simp: linking_def)
  then show "node_Next (point_node prev x i sl) x i = node_Next (point_node prev x i sl) (prev ! i) i"
    by (simp add: point_node_def Next_SetNext f(6) assms(2))
qed

lemma publish_node_linking:
  assumes "linking cmp valid sl prev x i ns" and "i < node_height sl x" and "node_Next sl x i = node_Next sl (prev ! i) i"
  shows "linking cmp valid (publish_node prev x i sl) prev x (Suc i) ns"
proof -
  from linking_facts [OF assms(1)] obtain as bs where f: "ns = as @ x # bs" "takeWhile (\<lambda>y. y \<noteq> x) ns = as"
    "x \<notin> set as" "x \<notin> set bs" "x \<noteq> 0" "x < length (sl_nodes sl)" "node_height sl x \<le> kMaxHeight" "distinct (0 # ns)" .
  define lv lv' where "lv = (node_height sl)(x := i)" and "lv' = (node_height sl)(x := Suc i)"
  define e where "e = prev ! i"
  from assms(1) have l: "skip_levels cmp valid sl lv ns" by (simp add: linking_def lv_def)
  have e: "e = place (node_height sl) i as" using assms(1,2) f(2) by (simp add: linking_def e_def)
  have e': "e \<noteq> x" "e < length (sl_nodes sl)" "i < node_height sl e"
    using place_cases [of "node_height sl" i as] l f assms(2) by (auto simp: skip_levels_def e)
  have p: "path (\<lambda>y. if y = e \<and> l = i then Some x else node_Next sl y l) 0 (filter (\<lambda>y. l < lv' y) ns)" if lt: "l < kMaxHeight" for l
  proof (cases "l = i")
    case False
    have "filter (\<lambda>y. l < lv' y) ns = filter (\<lambda>y. l < lv y) ns"
      by (rule filter_cong) (use False in \<open>auto simp: lv_def lv'_def\<close>)
    with False levels_path [OF l lt] show ?thesis by simp
  next
    case True
    define xs ys where "xs = filter (\<lambda>y. i < node_height sl y) as" and "ys = filter (\<lambda>y. i < node_height sl y) bs"
    have "filter (\<lambda>y. i < lv y) ns = xs @ ys"
      by (simp only: f(1) filter_append filter.simps lv_def filter_fun_upd [OF f(3)] filter_fun_upd [OF f(4)] xs_def ys_def) simp
    with levels_path [OF l lt] True have xy: "path (\<lambda>y. node_Next sl y i) 0 (xs @ ys)" by simp
    have ns: "filter (\<lambda>y. i < lv' y) ns = xs @ x # ys"
      by (simp only: f(1) filter_append filter.simps lv'_def filter_fun_upd [OF f(3)] filter_fun_upd [OF f(4)] xs_def ys_def) simp
    have last: "last (0 # xs) = e" by (simp add: e place_def xs_def)
    have "node_Next sl e i = hd_option ys" using path_hd [OF path_append [OF xy]] by (simp only: last)
    then have "node_Next sl x i = hd_option ys" using assms(3) by (simp add: e_def)
    then have "(\<lambda>y. node_Next sl y i)(x := hd_option ys, e := Some x) = (\<lambda>y. if y = e then Some x else node_Next sl y i)"
      by (auto simp: fun_eq_iff)
    moreover have "path ((\<lambda>y. node_Next sl y i)(x := hd_option ys, last (0 # xs) := Some x)) 0 (xs @ x # ys)"
      by (rule path_insert [OF xy]) (use f in \<open>auto simp: xs_def ys_def\<close>)
    ultimately show ?thesis by (simp only: True ns last simp_thms if_True)
  qed
  have "\<forall>y\<in>set ns. lv' y \<le> node_height sl y" using assms(2) by (simp add: lv'_def)
  then have "skip_levels cmp valid (publish_node prev x i sl) lv' ns"
    unfolding publish_node_def e_def [symmetric] by (intro skip_levels_store [OF l e'(2,3)] p)
  then show ?thesis using assms(1,2) by (simp add: linking_def lv'_def publish_node_def)
qed

lemma link_node_fields [simp]:
  "sl_key (link_node prev x i sl) y = sl_key sl y" "node_height (link_node prev x i sl) y = node_height sl y"
  by (simp_all add: link_node_def publish_node_def point_node_def)

lemma link_node_linking:
  assumes "linking cmp valid sl prev x i ns" and "i < node_height sl x"
  shows "linking cmp valid (link_node prev x i sl) prev x (Suc i) ns"
proof -
  have "i < node_height (point_node prev x i sl) x" using assms(2) by (simp add: point_node_def)
  from publish_node_linking [OF point_node_linking(1) [OF assms] this point_node_linking(2) [OF assms]]
  show ?thesis by (simp only: link_node_def)
qed

section \<open>What the operations find and insert\<close>

lemma dropWhile_up: "sorted_wrt R xs \<Longrightarrow> (\<And>x y. x \<in> set xs \<Longrightarrow> y \<in> set xs \<Longrightarrow> R x y \<Longrightarrow> P y \<Longrightarrow> P x) \<Longrightarrow> \<forall>y\<in>set (dropWhile P xs). \<not> P y"
  by (induction xs) auto

lemma find_append_none: "\<forall>x\<in>set as. \<not> P x \<Longrightarrow> List.find P (as @ bs) = List.find P bs"
  by (induction as) auto

lemma find_all: "\<forall>x\<in>set bs. P x \<Longrightarrow> List.find P bs = hd_option bs"
  by (cases bs) (auto simp: hd_option_def)

lemma RandomHeight_bounds: "1 \<le> fst (RandomHeight rnd)" "fst (RandomHeight rnd) \<le> kMaxHeight"
proof -
  have "h \<le> fst (height_loop h rnd) \<and> (h \<le> kMaxHeight \<longrightarrow> fst (height_loop h rnd) \<le> kMaxHeight)" for h rnd
  proof (induction h rnd rule: height_loop.induct)
    case (1 h rnd)
    show ?case
    proof (cases "h < kMaxHeight \<and> Random_Next rnd mod 4 = 0")
      case True
      then have "height_loop h rnd = height_loop (h + 1) (Random_Next rnd)" by (subst height_loop.simps) (simp only: Let_def simp_thms if_True)
      then show ?thesis using 1 True by auto
    next
      case False
      then have "fst (height_loop h rnd) = h" by (subst height_loop.simps) (simp only: Let_def de_Morgan_conj, auto)
      then show ?thesis by simp
    qed
  qed
  then show "1 \<le> fst (RandomHeight rnd)" "fst (RandomHeight rnd) \<le> kMaxHeight"
    by (simp_all add: RandomHeight_def kMaxHeight_def)
qed

lemma fold_head_places:
  "j < length prev \<Longrightarrow> fold (\<lambda>i prev. prev[i := 0]) [m..<h] prev ! j = (if m \<le> j \<and> j < h then (0 :: nat) else prev ! j)"
  by (induction h arbitrary: prev) (auto simp: nth_list_update less_Suc_eq)

lemma NewNode_nodes:
  assumes "NewNode key h sl = (x, sl')"
  shows "x = length (sl_nodes sl)" and "length (sl_nodes sl') = Suc (length (sl_nodes sl))"
    and "y < length (sl_nodes sl) \<Longrightarrow> sl_nodes sl' ! y = sl_nodes sl ! y" and "node_height sl' x = h" and "sl_key sl' x = key"
    and "sl_max_height sl' = sl_max_height sl" and "sl_nodes sl' \<noteq> []"
  using assms by (auto simp: NewNode_def nth_append sl_key_def)

context ordered_keys
begin

lemma levels_up:
  assumes "skip_levels cmp valid sl lv ns" and "valid key"
  shows "\<forall>y\<in>set (dropWhile (\<lambda>y. cmp (sl_key sl y) key < 0) ns). \<not> cmp (sl_key sl y) key < 0"
proof (rule dropWhile_up)
  show "sorted_wrt (\<lambda>x y. cmp (sl_key sl x) (sl_key sl y) < 0) ns" using assms(1) by (simp add: skip_levels_def)
  fix x y
  assume "x \<in> set ns" "y \<in> set ns" "cmp (sl_key sl x) (sl_key sl y) < 0" "cmp (sl_key sl y) key < 0"
  moreover from this have "valid (sl_key sl x)" "valid (sl_key sl y)" using assms(1) by (simp_all add: skip_levels_def)
  ultimately show "cmp (sl_key sl x) key < 0" using assms(2) by (simp add: cmp_less)
qed

lemma find_levels:
  assumes "skip_levels cmp valid sl lv ns" and "valid key" and "l < kMaxHeight"
  shows "find_loop cmp sl key 0 l prev =
    Some (List.find (\<lambda>y. \<not> cmp (sl_key sl y) key < 0) (filter (\<lambda>y. 0 < lv y) ns),
      fold (\<lambda>i prev. prev[i := place lv i (takeWhile (\<lambda>y. cmp (sl_key sl y) key < 0) ns)]) (rev [0..<Suc l]) prev)"
proof -
  define P where "P = (\<lambda>y. cmp (sl_key sl y) key < 0)"
  define as bs where "as = takeWhile P ns" and "bs = dropWhile P ns"
  have ns: "as @ bs = ns" by (simp add: as_def bs_def)
  have as: "\<forall>y\<in>set as. P y" by (auto simp: as_def dest: set_takeWhileD)
  have bs: "\<forall>y\<in>set bs. \<not> P y" using levels_up [OF assms(1,2)] by (simp only: bs_def P_def)
  have "\<forall>l<kMaxHeight. path (\<lambda>x. node_Next sl x l) 0 (filter (\<lambda>x. l < lv x) (as @ bs))"
    unfolding ns by (intro allI impI levels_path [OF assms(1)])
  then have "find_loop cmp sl key 0 l prev = Some (hd_option (filter (\<lambda>y. 0 < lv y) bs),
      fold (\<lambda>i prev. prev[i := place lv i as]) (rev [0..<Suc l]) prev)"
    by (rule find.from_head) (use as bs assms(3) in \<open>simp_all only: P_def\<close>)
  moreover have "List.find (\<lambda>y. \<not> P y) (filter (\<lambda>y. 0 < lv y) ns) = hd_option (filter (\<lambda>y. 0 < lv y) bs)"
    using as bs by (subst ns [symmetric]) (simp add: find_append_none find_all)
  ultimately show ?thesis by (simp only: P_def as_def)
qed

lemma FindGreaterOrEqual_nodes:
  assumes "skip_nodes cmp valid sl ns" and "valid key"
  shows "map_option fst (FindGreaterOrEqual cmp sl key prev) = Some (List.find (\<lambda>y. \<not> cmp (sl_key sl y) key < 0) ns)"
proof -
  from assms(1) have l: "skip_levels cmp valid sl (node_height sl) ns" "\<forall>x\<in>set ns. 1 \<le> node_height sl x"
    by (simp_all add: skip_nodes_def)
  then have "sl_max_height sl - 1 < kMaxHeight" by (auto simp: skip_levels_def)
  moreover have "filter (\<lambda>y. 0 < node_height sl y) ns = ns" using l(2) by (auto simp: filter_id_conv)
  ultimately show ?thesis using find_levels [OF l(1) assms(2)] by (simp add: FindGreaterOrEqual_def)
qed

lemma insert_prepare_linking:
  assumes inv: "skip_nodes cmp valid sl ns" and key: "valid key" and new: "\<forall>y\<in>set ns. cmp (sl_key sl y) key \<noteq> 0"
  obtains prev height x sl' as bs where "insert_prepare cmp key sl = Some (prev, height, x, sl')"
    and "ns = as @ bs" and "linking cmp valid sl' prev x 0 (as @ x # bs)" and "height = node_height sl' x"
    and "x = length (sl_nodes sl)" and "sl_key sl' x = key" and "\<forall>y\<in>set ns. sl_key sl' y = sl_key sl y"
proof -
  define P where "P = (\<lambda>y. cmp (sl_key sl y) key < 0)"
  define as bs where "as = takeWhile P ns" and "bs = dropWhile P ns"
  have ns: "ns = as @ bs" by (simp add: as_def bs_def)
  from inv have l: "skip_levels cmp valid sl (node_height sl) ns"
    and h: "\<forall>x\<in>set ns. 1 \<le> node_height sl x \<and> node_height sl x \<le> sl_max_height sl" by (simp_all add: skip_nodes_def)
  from l have mh: "1 \<le> sl_max_height sl" "sl_max_height sl \<le> kMaxHeight" and n: "\<forall>y\<in>set ns. 0 < y \<and> y < length (sl_nodes sl)"
    and v: "\<forall>y\<in>set ns. valid (sl_key sl y)" by (auto simp: skip_levels_def)
  obtain p where find: "FindGreaterOrEqual cmp sl key (replicate kMaxHeight 0) = Some
      (p, fold (\<lambda>i prev. prev[i := place (node_height sl) i as]) (rev [0..<sl_max_height sl]) (replicate kMaxHeight 0))"
  proof -
    have "sl_max_height sl - 1 < kMaxHeight" "Suc (sl_max_height sl - 1) = sl_max_height sl" using mh by simp_all
    from find_levels [OF l key this(1), of "replicate kMaxHeight 0", unfolded this(2)] show thesis
      by (rule that [unfolded FindGreaterOrEqual_def as_def P_def])
  qed
  define prev0 where "prev0 = fold (\<lambda>i prev. prev[i := place (node_height sl) i as]) (rev [0..<sl_max_height sl]) (replicate kMaxHeight 0)"
  obtain height rnd where rh: "RandomHeight (sl_rnd sl) = (height, rnd)" by fastforce
  with RandomHeight_bounds [of "sl_rnd sl"] have hb: "1 \<le> height" "height \<le> kMaxHeight" by simp_all
  define sl1 where "sl1 = sl\<lparr>sl_rnd := rnd, sl_max_height := max (sl_max_height sl) height\<rparr>"
  define prev where "prev = (if height > sl_max_height sl then fold (\<lambda>i prev. prev[i := 0]) [sl_max_height sl..<height] prev0 else prev0)"
  obtain x sl' where nn: "NewNode key height sl1 = (x, sl')" by fastforce
  have "(if height > sl_max_height sl then (sl\<lparr>sl_rnd := rnd\<rparr>)\<lparr>sl_max_height := height\<rparr> else sl\<lparr>sl_rnd := rnd\<rparr>) = sl1"
    by (simp add: sl1_def max_def)
  then have prep: "insert_prepare cmp key sl = Some (prev, height, x, sl')"
    using nn by (auto simp: insert_prepare_def find rh prev_def prev0_def [symmetric] Let_def split: if_splits)
  note nn' = NewNode_nodes [OF nn]
  have x: "x = length (sl_nodes sl)" using nn'(1) by (simp add: sl1_def)
  have old: "\<And>y. y < length (sl_nodes sl) \<Longrightarrow> sl_nodes sl' ! y = sl_nodes sl ! y" using nn'(3) by (simp add: sl1_def)
  have keys: "\<forall>y\<in>set ns. sl_key sl' y = sl_key sl y" using n old by (simp add: sl_key_def)
  have mh': "sl_max_height sl' = max (sl_max_height sl) height" using nn'(6) by (simp add: sl1_def)
  have x_new: "x \<notin> set ns" "x \<noteq> 0" using n x l by (auto simp: skip_levels_def)
  have heights: "\<forall>y\<in>set ns. node_height sl' y = node_height sl y" using n old by simp
  have prev: "prev ! j = place (node_height sl') j as" if "j < height" for j
  proof -
    have "filter (\<lambda>y. j < node_height sl' y) as = filter (\<lambda>y. j < node_height sl y) as"
      by (rule filter_cong) (use heights ns in auto)
    moreover have "filter (\<lambda>y. j < node_height sl y) as = []" if "\<not> j < sl_max_height sl"
      using that h ns by (force simp: filter_empty_conv)
    moreover have "prev ! j = (if j < sl_max_height sl then place (node_height sl) j as else 0)"
      using that hb by (auto simp: prev_def prev0_def fold_places fold_head_places)
    ultimately show ?thesis by (simp add: place_def)
  qed
  have levels: "skip_levels cmp valid sl' ((node_height sl')(x := 0)) (as @ x # bs)"
    unfolding skip_levels_def
  proof (intro conjI)
    show "sl_nodes sl' \<noteq> []" by (rule nn'(7))
    have "0 < length (sl_nodes sl)" using l by (simp add: skip_levels_def)
    then show "node_height sl' 0 = kMaxHeight" using old l by (simp add: skip_levels_def)
    show "1 \<le> sl_max_height sl'" "sl_max_height sl' \<le> kMaxHeight" using mh mh' hb by simp_all
    show "distinct (as @ x # bs)" using l x_new ns by (auto simp: skip_levels_def)
    show "\<forall>y\<in>set (as @ x # bs). 0 < y \<and> y < length (sl_nodes sl') \<and> ((node_height sl')(x := 0)) y \<le> node_height sl' y
        \<and> valid (sl_key sl' y)"
    proof
      fix y
      assume "y \<in> set (as @ x # bs)"
      then consider "y = x" | "y \<in> set ns" "y \<noteq> x" using x_new(1) by (auto simp: ns)
      then show "0 < y \<and> y < length (sl_nodes sl') \<and> ((node_height sl')(x := 0)) y \<le> node_height sl' y \<and> valid (sl_key sl' y)"
        using n v keys nn'(2,5) x x_new(2) key by cases (auto simp: sl1_def less_SucI)
    qed
    have sorted: "sorted_wrt (\<lambda>x y. cmp (sl_key sl x) (sl_key sl y) < 0) (as @ bs)" using l ns by (simp add: skip_levels_def)
    have "\<forall>y\<in>set as. cmp (sl_key sl y) key < 0" by (auto simp: as_def P_def dest: set_takeWhileD)
    moreover have "\<forall>y\<in>set bs. cmp key (sl_key sl y) < 0"
    proof
      fix y
      assume y: "y \<in> set bs"
      then have "y \<in> set ns" by (simp add: ns)
      moreover from levels_up [OF l key] y have "\<not> cmp (sl_key sl y) key < 0" unfolding bs_def P_def by (rule bspec)
      ultimately have "\<not> cmp (sl_key sl y) key < 0" "cmp (sl_key sl y) key \<noteq> 0" "valid (sl_key sl y)" using new v by blast+
      then show "cmp key (sl_key sl y) < 0" using key by (simp add: cmp_less cmp_eq)
    qed
    ultimately have "sorted_wrt (\<lambda>x y. cmp x y < 0) (map (sl_key sl) as @ key # map (sl_key sl) bs)"
      using sorted by (simp add: sorted_wrt_append sorted_wrt_map)
    also have "map (sl_key sl) as @ key # map (sl_key sl) bs = map (sl_key sl') (as @ x # bs)"
      using keys nn'(5) ns by simp
    finally show "sorted_wrt (\<lambda>x y. cmp (sl_key sl' x) (sl_key sl' y) < 0) (as @ x # bs)"
      by (simp only: sorted_wrt_map)
    show "\<forall>l<kMaxHeight. path (\<lambda>y. node_Next sl' y l) 0 (filter (\<lambda>y. l < ((node_height sl')(x := 0)) y) (as @ x # bs))"
    proof (intro allI impI)
      fix l'
      assume "l' < kMaxHeight"
      note old_path = levels_path [OF l this]
      have new_nodes: "filter (\<lambda>y. l' < ((node_height sl')(x := 0)) y) (as @ x # bs) = filter (\<lambda>y. l' < node_height sl y) ns"
      proof -
        have "x \<notin> set as" "x \<notin> set bs" using x_new(1) ns by simp_all
        then have "filter (\<lambda>y. l' < ((node_height sl')(x := 0)) y) (as @ x # bs) = filter (\<lambda>y. l' < node_height sl' y) ns"
          by (simp only: ns filter_append filter.simps filter_fun_upd [OF \<open>x \<notin> set as\<close>] filter_fun_upd [OF \<open>x \<notin> set bs\<close>]) simp
        also have "\<dots> = filter (\<lambda>y. l' < node_height sl y) ns" by (rule filter_cong) (use heights in auto)
        finally show ?thesis .
      qed
      have "node_Next sl' y l' = node_Next sl y l'" if "y \<in> set (0 # filter (\<lambda>y. l' < node_height sl y) ns)" for y
        using that n old l by (auto simp: node_Next_def skip_levels_def)
      from path_cong [OF old_path this] show "path (\<lambda>y. node_Next sl' y l') 0 (filter (\<lambda>y. l' < ((node_height sl')(x := 0)) y) (as @ x # bs))"
        unfolding new_nodes .
    qed
  qed
  have "takeWhile (\<lambda>y. y \<noteq> x) (as @ x # bs) = as" using x_new(1) ns by (subst takeWhile_append2) auto
  then have "linking cmp valid sl' prev x 0 (as @ x # bs)"
    using levels heights h mh' hb nn'(4) prev ns by (auto simp: linking_def fun_upd_def le_max_iff_disj)
  from that [OF prep ns this nn'(4) [symmetric] x nn'(5) keys] show thesis .
qed

lemma link_nodes:
  assumes "linking cmp valid sl prev x 0 ns" and "i \<le> node_height sl x"
  shows "linking cmp valid (fold (link_node prev x) [0..<i] sl) prev x i ns
    \<and> (\<forall>y. sl_key (fold (link_node prev x) [0..<i] sl) y = sl_key sl y)
    \<and> node_height (fold (link_node prev x) [0..<i] sl) x = node_height sl x"
  using assms(2)
proof (induction i)
  case (Suc i)
  define sl' where "sl' = fold (link_node prev x) [0..<i] sl"
  have "linking cmp valid sl' prev x i ns" "\<forall>y. sl_key sl' y = sl_key sl y" "node_height sl' x = node_height sl x"
    using Suc by (simp_all add: sl'_def)
  moreover from this have "linking cmp valid (link_node prev x i sl') prev x (Suc i) ns"
    using Suc.prems by (intro link_node_linking) simp_all
  moreover have "fold (link_node prev x) [0..<Suc i] sl = link_node prev x i sl'" by (simp add: sl'_def)
  ultimately show ?case by simp
qed (use assms(1) in simp)

text \<open>An insertion ends, keeps the invariant and adds the key.\<close>

lemma Insert_nodes:
  assumes "skip_nodes cmp valid sl ns" and "valid key" and "\<forall>y\<in>set ns. cmp (sl_key sl y) key \<noteq> 0"
  obtains sl' as x bs where "sl_Insert cmp key sl = Some sl'" and "ns = as @ bs" and "skip_nodes cmp valid sl' (as @ x # bs)"
    and "map (sl_key sl') as = map (sl_key sl) as" and "sl_key sl' x = key" and "map (sl_key sl') bs = map (sl_key sl) bs"
proof -
  from insert_prepare_linking [OF assms] obtain prev height x sl0 as bs where
    prep: "insert_prepare cmp key sl = Some (prev, height, x, sl0)" and ns: "ns = as @ bs"
    and l: "linking cmp valid sl0 prev x 0 (as @ x # bs)" and h: "height = node_height sl0 x"
    and keys: "sl_key sl0 x = key" "\<forall>y\<in>set ns. sl_key sl0 y = sl_key sl y" by metis
  define sl' where "sl' = fold (link_node prev x) [0..<height] sl0"
  from link_nodes [OF l, of height] have
    *: "linking cmp valid sl' prev x height (as @ x # bs)" "\<forall>y. sl_key sl' y = sl_key sl0 y" "node_height sl' x = height"
    by (simp_all add: sl'_def h)
  have "skip_nodes cmp valid sl' (as @ x # bs)" using linked_whole * by metis
  moreover have "sl_Insert cmp key sl = Some sl'" by (simp add: sl_Insert_def prep sl'_def)
  ultimately show thesis using that ns *(2) keys by simp
qed

text \<open>The searches of a whole list, by its keys.\<close>

lemma Contains_nodes:
  assumes "skip_nodes cmp valid sl ns" and "valid key"
  shows "sl_Contains cmp key sl = Some (\<exists>y\<in>set ns. rank (sl_key sl y) = rank key)"
proof -
  define P where "P = (\<lambda>y. cmp (sl_key sl y) key < 0)"
  from assms(1) have l: "skip_levels cmp valid sl (node_height sl) ns" by (simp add: skip_nodes_def)
  then have v: "\<forall>y\<in>set ns. valid (sl_key sl y)" and s: "sorted_wrt (\<lambda>x y. cmp (sl_key sl x) (sl_key sl y) < 0) ns"
    by (simp_all add: skip_levels_def)
  obtain prev where f: "FindGreaterOrEqual cmp sl key [] = Some (List.find (\<lambda>y. \<not> P y) ns, prev)"
    using FindGreaterOrEqual_nodes [OF assms, of "[]"] by (auto simp: P_def)
  show ?thesis
  proof (cases "List.find (\<lambda>y. \<not> P y) ns")
    case None
    then have "\<forall>y\<in>set ns. P y" by (auto simp: find_None_iff)
    then have "\<forall>y\<in>set ns. rank (sl_key sl y) \<noteq> rank key" using v assms(2) by (auto simp: P_def cmp_less)
    with None f show ?thesis by (simp add: sl_Contains_def)
  next
    case (Some x)
    then obtain i where i: "i < length ns" "x = ns ! i" "\<not> P x" "\<forall>j<i. P (ns ! j)" by (auto simp: find_Some_iff)
    have "rank (sl_key sl y) \<noteq> rank key" if y: "y \<in> set ns" "y \<noteq> x" for y
    proof -
      from y obtain j where j: "j < length ns" "y = ns ! j" by (auto simp: in_set_conv_nth)
      with y(2) i(2) have "j \<noteq> i" by auto
      then have "i < j \<or> j < i" by linarith
      then show ?thesis
      proof
        assume "i < j"
        then have "cmp (sl_key sl x) (sl_key sl y) < 0" using s i j by (simp add: sorted_wrt_iff_nth_less)
        with i j v assms(2) y(1) show ?thesis by (auto simp: P_def cmp_less)
      qed (use i j v assms(2) y(1) in \<open>auto simp: P_def cmp_less\<close>)
    qed
    moreover have "x \<in> set ns" using i by simp
    moreover from this have "cmp key (sl_key sl x) = 0 \<longleftrightarrow> rank (sl_key sl x) = rank key" using v assms(2) by (auto simp: cmp_eq)
    moreover have "sl_Contains cmp key sl = Some (cmp key (sl_key sl x) = 0)"
      using Some f by (simp add: sl_Contains_def sl_key_def)
    ultimately show ?thesis by auto
  qed
qed

lemma Seek_nodes:
  "skip_nodes cmp valid sl ns \<Longrightarrow> valid key \<Longrightarrow> sl_Seek cmp key sl = Some (List.find (\<lambda>y. \<not> cmp (sl_key sl y) key < 0) ns)"
  by (simp add: sl_Seek_def FindGreaterOrEqual_nodes)

lemma Next_nodes: "skip_nodes cmp valid sl (as @ x # bs) \<Longrightarrow> sl_Next sl x = hd_option bs"
proof -
  assume a: "skip_nodes cmp valid sl (as @ x # bs)"
  then have l: "skip_levels cmp valid sl (node_height sl) (as @ x # bs)" by (rule skip_nodes_levels)
  have "0 < kMaxHeight" by (simp add: kMaxHeight_def)
  from levels_path [OF l this] have "path (\<lambda>y. node_Next sl y 0) 0 ((as @ [x]) @ bs)"
    unfolding skip_nodes_height [OF a subset_refl] by simp
  from path_hd [OF path_append [OF this]] show ?thesis by (simp add: sl_Next_def)
qed

lemma SeekToFirst_nodes: "skip_nodes cmp valid sl ns \<Longrightarrow> sl_SeekToFirst sl = hd_option ns"
proof -
  assume a: "skip_nodes cmp valid sl ns"
  then have l: "skip_levels cmp valid sl (node_height sl) ns" by (rule skip_nodes_levels)
  have "0 < kMaxHeight" by (simp add: kMaxHeight_def)
  from path_hd [OF levels_path [OF l this]] show ?thesis
    unfolding skip_nodes_height [OF a subset_refl] by (simp add: sl_SeekToFirst_def)
qed

text \<open>The node before a place: the head stands for none.\<close>

lemma FindLessThan_nodes:
  assumes "skip_nodes cmp valid sl ns" and "valid key"
  shows "FindLessThan cmp sl key = Some (last (0 # takeWhile (\<lambda>y. cmp (sl_key sl y) key < 0) ns))"
proof -
  define P where "P = (\<lambda>y. cmp (sl_key sl y) key < 0)"
  from assms(1) have l: "skip_levels cmp valid sl (node_height sl) ns" by (rule skip_nodes_levels)
  then have lt: "sl_max_height sl - 1 < kMaxHeight" by (auto simp: skip_levels_def)
  have "\<forall>l<kMaxHeight. path (\<lambda>x. node_Next sl x l) 0 (filter (\<lambda>x. l < node_height sl x) (takeWhile P ns @ dropWhile P ns))"
    using levels_path [OF l] by (simp only: takeWhile_dropWhile_id) blast
  then have "FindLessThan cmp sl key = Some (place (node_height sl) 0 (takeWhile P ns))"
    unfolding FindLessThan_def
  proof (rule less.from_head [OF _ _ _ lt])
    show "\<forall>y\<in>set (takeWhile P ns). cmp (sl_key sl y) key < 0" by (auto simp: P_def dest: set_takeWhileD)
    show "\<forall>y\<in>set (dropWhile P ns). \<not> cmp (sl_key sl y) key < 0" using levels_up [OF l assms(2)] by (simp only: P_def)
  qed
  moreover have "filter (\<lambda>x. 0 < node_height sl x) (takeWhile P ns) = takeWhile P ns"
    by (rule skip_nodes_height [OF assms(1)]) (auto dest: set_takeWhileD)
  ultimately show ?thesis by (simp only: place_def P_def)
qed

lemma Prev_nodes:
  assumes "skip_nodes cmp valid sl (as @ x # bs)"
  shows "sl_Prev cmp sl x = Some (if as = [] then None else Some (last as))"
proof -
  from assms have l: "skip_levels cmp valid sl (node_height sl) (as @ x # bs)" by (simp add: skip_nodes_def)
  then have v: "valid (sl_key sl x)" and s: "\<forall>y\<in>set as. cmp (sl_key sl y) (sl_key sl x) < 0" and z: "0 \<notin> set as"
    by (auto simp: skip_levels_def sorted_wrt_append)
  have "\<not> cmp (sl_key sl x) (sl_key sl x) < 0" using v by (simp add: cmp_less)
  then have "takeWhile (\<lambda>y. cmp (sl_key sl y) (sl_key sl x) < 0) (as @ x # bs) = as" using s by (simp add: takeWhile_tail)
  with FindLessThan_nodes [OF assms v] have "FindLessThan cmp sl (sl_key sl x) = Some (last (0 # as))" by simp
  moreover have "last as \<noteq> 0" if "as \<noteq> []" using z that last_in_set by metis
  moreover have "sl_Prev cmp sl x = map_option (\<lambda>n. if n = 0 then None else Some n) (FindLessThan cmp sl (sl_key sl x))"
    by (simp add: sl_Prev_def sl_key_def)
  ultimately show ?thesis by (cases "as = []") simp_all
qed

lemma SeekToLast_nodes:
  assumes "skip_nodes cmp valid sl ns"
  shows "sl_SeekToLast sl = Some (if ns = [] then None else Some (last ns))"
proof -
  from assms have l: "skip_levels cmp valid sl (node_height sl) ns" by (rule skip_nodes_levels)
  then have lt: "sl_max_height sl - 1 < kMaxHeight" and z: "0 \<notin> set ns" by (auto simp: skip_levels_def)
  have "\<forall>l<kMaxHeight. path (\<lambda>x. node_Next sl x l) 0 (filter (\<lambda>x. l < node_height sl x) (ns @ []))"
    using levels_path [OF l] by simp
  then have "FindLast sl = Some (place (node_height sl) 0 ns)"
    unfolding FindLast_def by (rule last.from_head [OF _ _ _ lt]) simp_all
  moreover have "last ns \<noteq> 0" if "ns \<noteq> []" using z that last_in_set by metis
  ultimately show ?thesis by (auto simp only: sl_SeekToLast_def place_def skip_nodes_height [OF assms subset_refl] last.simps option.map split: if_splits)
qed

end

section \<open>A reader beside a writer\<close>

text \<open>
  The stores of an insertion and the loads of a search, one at a time. The writer holds a lock, so
  there is one insertion at a time; a reader holds none and is at a node and a level. \<open>sl_list\<close> are the
  nodes linked at level 0, of which there are fewer than nodes. A search for \<open>target\<close> starts at any level, since a
  reader may see an old or a new \<open>max_height_\<close>. What the writer does before its first store to a link is
  one step: no reader sees the node, and none depends on the height.
\<close>

fun links :: "nat \<Rightarrow> (nat \<Rightarrow> nat option) \<Rightarrow> nat \<Rightarrow> nat list" where
  "links 0 f x = []"
| "links (Suc n) f x = (case f x of None \<Rightarrow> [] | Some y \<Rightarrow> y # links n f y)"

definition sl_list :: "'k skiplist \<Rightarrow> nat list" where
  "sl_list sl = links (length (sl_nodes sl)) (\<lambda>x. node_Next sl x 0) 0"

record skip_writer =
  w_prev :: "nat list"
  w_node :: nat
  w_height :: nat
  w_level :: nat
  w_pointed :: bool

record 'k skip_state =
  st_list :: "'k skiplist"
  st_writer :: "skip_writer option"
  st_reader :: "(nat \<times> nat) option"

inductive skip_step :: "'k compare \<Rightarrow> ('k \<Rightarrow> bool) \<Rightarrow> 'k \<Rightarrow> 'k skip_state \<Rightarrow> 'k skip_state \<Rightarrow> bool"
  for cmp valid target where
  begin_insert: "st_writer s = None \<Longrightarrow> valid key \<Longrightarrow> \<forall>y\<in>set (sl_list (st_list s)). cmp (sl_key (st_list s) y) key \<noteq> 0 \<Longrightarrow>
    insert_prepare cmp key (st_list s) = Some (prev, height, x, sl) \<Longrightarrow>
    skip_step cmp valid target s (s\<lparr>st_list := sl,
      st_writer := Some \<lparr>w_prev = prev, w_node = x, w_height = height, w_level = 0, w_pointed = False\<rparr>\<rparr>)"
| point: "st_writer s = Some w \<Longrightarrow> \<not> w_pointed w \<Longrightarrow> w_level w < w_height w \<Longrightarrow>
    skip_step cmp valid target s (s\<lparr>st_list := point_node (w_prev w) (w_node w) (w_level w) (st_list s),
      st_writer := Some (w\<lparr>w_pointed := True\<rparr>)\<rparr>)"
| publish: "st_writer s = Some w \<Longrightarrow> w_pointed w \<Longrightarrow>
    skip_step cmp valid target s (s\<lparr>st_list := publish_node (w_prev w) (w_node w) (w_level w) (st_list s),
      st_writer := Some (w\<lparr>w_pointed := False, w_level := Suc (w_level w)\<rparr>)\<rparr>)"
| end_insert: "st_writer s = Some w \<Longrightarrow> w_level w = w_height w \<Longrightarrow>
    skip_step cmp valid target s (s\<lparr>st_writer := None\<rparr>)"
| start: "st_reader s = None \<Longrightarrow> l < kMaxHeight \<Longrightarrow> skip_step cmp valid target s (s\<lparr>st_reader := Some (0, l)\<rparr>)"
| walk: "st_reader s = Some (x, l) \<Longrightarrow> node_Next (st_list s) x l = Some y \<Longrightarrow> KeyIsAfterNode cmp (st_list s) target (Some y) \<Longrightarrow>
    skip_step cmp valid target s (s\<lparr>st_reader := Some (y, l)\<rparr>)"
| down: "st_reader s = Some (x, l) \<Longrightarrow> \<not> KeyIsAfterNode cmp (st_list s) target (node_Next (st_list s) x l) \<Longrightarrow> 0 < l \<Longrightarrow>
    skip_step cmp valid target s (s\<lparr>st_reader := Some (x, l - 1)\<rparr>)"
| return: "st_reader s = Some (x, 0) \<Longrightarrow> \<not> KeyIsAfterNode cmp (st_list s) target (node_Next (st_list s) x 0) \<Longrightarrow>
    skip_step cmp valid target s (s\<lparr>st_reader := None\<rparr>)"

definition skip_start :: "'k \<Rightarrow> 'k skip_state" where
  "skip_start zero = \<lparr>st_list = SkipList zero, st_writer = None, st_reader = None\<rparr>"

definition skip_reachable :: "'k compare \<Rightarrow> ('k \<Rightarrow> bool) \<Rightarrow> 'k \<Rightarrow> 'k \<Rightarrow> 'k skip_state \<Rightarrow> bool" where
  "skip_reachable cmp valid target zero s \<longleftrightarrow> (skip_step cmp valid target)\<^sup>*\<^sup>* (skip_start zero) s"

text \<open>The levels a node is linked at, and the invariant: a reader is at a linked node before its target.\<close>

definition st_height :: "'k skip_state \<Rightarrow> nat \<Rightarrow> nat" where
  "st_height s = (case st_writer s of None \<Rightarrow> node_height (st_list s)
    | Some w \<Rightarrow> (node_height (st_list s))(w_node w := w_level w))"

definition writer_inv :: "'k compare \<Rightarrow> ('k \<Rightarrow> bool) \<Rightarrow> 'k skip_state \<Rightarrow> nat list \<Rightarrow> bool" where
  "writer_inv cmp valid s ns \<longleftrightarrow>
     (case st_writer s of None \<Rightarrow> skip_nodes cmp valid (st_list s) ns
      | Some w \<Rightarrow> linking cmp valid (st_list s) (w_prev w) (w_node w) (w_level w) ns
          \<and> w_height w = node_height (st_list s) (w_node w)
          \<and> (w_pointed w \<longrightarrow> w_level w < w_height w
              \<and> node_Next (st_list s) (w_node w) (w_level w) = node_Next (st_list s) (w_prev w ! w_level w) (w_level w)))"

definition reader_inv :: "'k compare \<Rightarrow> 'k \<Rightarrow> 'k skip_state \<Rightarrow> nat list \<Rightarrow> bool" where
  "reader_inv cmp target s ns \<longleftrightarrow>
     (case st_reader s of None \<Rightarrow> True
      | Some (x, l) \<Rightarrow> l < kMaxHeight \<and> (x = 0 \<or> x \<in> set ns \<and> l < st_height s x \<and> cmp (sl_key (st_list s) x) target < 0))"

lemma writer_levels: "writer_inv cmp valid s ns \<Longrightarrow> skip_levels cmp valid (st_list s) (st_height s) ns"
  by (auto simp: writer_inv_def st_height_def linking_def dest: skip_nodes_levels split: option.splits)

lemma links_path: "path f x ys \<Longrightarrow> length ys \<le> n \<Longrightarrow> links n f x = ys"
proof (induction n arbitrary: x ys)
  case (Suc n)
  then show ?case by (cases ys) simp_all
qed simp

lemma list_levels:
  assumes "skip_levels cmp valid sl lv ns"
  shows "sl_list sl = filter (\<lambda>x. 0 < lv x) ns"
proof -
  have "0 < kMaxHeight" by (simp add: kMaxHeight_def)
  note p = levels_path [OF assms this]
  have d: "distinct ns" "set ns \<subseteq> {0<..<length (sl_nodes sl)}" using assms by (auto simp: skip_levels_def)
  have "length (filter (\<lambda>x. 0 < lv x) ns) = card (set (filter (\<lambda>x. 0 < lv x) ns))"
    by (rule distinct_card [symmetric]) (use d(1) in simp)
  also have "\<dots> \<le> card {0<..<length (sl_nodes sl)}" using d(2) by (intro card_mono) auto
  finally show ?thesis unfolding sl_list_def by (intro links_path [OF p]) simp
qed

text \<open>A step of the writer keeps the keys and never takes a link away.\<close>

definition writer_keeps :: "'k skip_state \<Rightarrow> nat list \<Rightarrow> 'k skip_state \<Rightarrow> nat list \<Rightarrow> bool" where
  "writer_keeps s ns s' ns' \<longleftrightarrow> set ns \<subseteq> set ns' \<and> st_reader s' = st_reader s
     \<and> list_all (\<lambda>x. st_height s x \<le> st_height s' x \<and> sl_key (st_list s') x = sl_key (st_list s) x) ns"

lemma reader_keeps: "reader_inv cmp target s ns \<Longrightarrow> writer_keeps s ns s' ns' \<Longrightarrow> reader_inv cmp target s' ns'"
  by (fastforce simp: reader_inv_def writer_keeps_def list_all_iff split: option.splits)

context ordered_keys
begin

lemma reader_next:
  assumes "skip_levels cmp valid sl lv ns" and "valid target" and "l < kMaxHeight"
    and "x = 0 \<or> x \<in> set ns \<and> l < lv x \<and> cmp (sl_key sl x) target < 0"
  obtains us vs where "filter (\<lambda>y. l < lv y) ns = us @ vs" and "node_Next sl x l = hd_option vs"
    and "\<forall>y\<in>set us. cmp (sl_key sl y) target < 0"
proof -
  note p = levels_path [OF assms(1,3)]
  from assms(4) show thesis
  proof
    assume "x = 0"
    with path_hd [OF p] show thesis using that [of "[]"] by simp
  next
    assume x: "x \<in> set ns \<and> l < lv x \<and> cmp (sl_key sl x) target < 0"
    then have "x \<in> set (filter (\<lambda>y. l < lv y) ns)" by simp
    then obtain us vs where f: "filter (\<lambda>y. l < lv y) ns = (us @ [x]) @ vs" by (metis split_list append_Cons append_Nil append_assoc)
    from p have "path (\<lambda>y. node_Next sl y l) 0 ((us @ [x]) @ vs)" by (simp only: f)
    from path_hd [OF path_append [OF this]] have "node_Next sl x l = hd_option vs" by simp
    moreover have "\<forall>y\<in>set (us @ [x]). cmp (sl_key sl y) target < 0"
    proof -
      have "sorted_wrt (\<lambda>x y. cmp (sl_key sl x) (sl_key sl y) < 0) (filter (\<lambda>y. l < lv y) ns)"
        using assms(1) by (simp add: skip_levels_def sorted_wrt_filter)
      then have "\<forall>y\<in>set us. cmp (sl_key sl y) (sl_key sl x) < 0" unfolding f by (simp add: sorted_wrt_append)
      moreover have "set (us @ [x]) \<subseteq> set ns" using f by (metis filter_is_subset set_append le_sup_iff)
      then have "\<forall>y\<in>set (us @ [x]). valid (sl_key sl y)" using assms(1) by (auto simp: skip_levels_def)
      ultimately show ?thesis using x assms(2) by (force simp: cmp_less)
    qed
    ultimately show thesis using that [of "us @ [x]" vs] f by simp
  qed
qed

text \<open>What a search returns is the answer for the list as it is at its last load.\<close>

lemma search_finds:
  assumes "skip_levels cmp valid sl lv ns" and "valid target"
    and "x = 0 \<or> x \<in> set ns \<and> 0 < lv x \<and> cmp (sl_key sl x) target < 0"
    and "\<not> KeyIsAfterNode cmp sl target (node_Next sl x 0)"
  shows "node_Next sl x 0 = List.find (\<lambda>y. \<not> cmp (sl_key sl y) target < 0) (sl_list sl)"
proof -
  have "0 < kMaxHeight" by (simp add: kMaxHeight_def)
  from reader_next [OF assms(1,2) this assms(3)] obtain us vs where
    f: "filter (\<lambda>y. 0 < lv y) ns = us @ vs" "node_Next sl x 0 = hd_option vs" "\<forall>y\<in>set us. cmp (sl_key sl y) target < 0" .
  have "List.find (\<lambda>y. \<not> cmp (sl_key sl y) target < 0) vs = hd_option vs"
    using assms(4) f(2) by (cases vs) (auto simp: hd_option_def KeyIsAfterNode_def sl_key_def)
  then show ?thesis using f by (simp add: list_levels [OF assms(1)] find_append_none)
qed

text \<open>Every step of the writer keeps its invariant, and the list but for the first link of the new node.\<close>

lemma begin_insert_inv:
  assumes inv: "writer_inv cmp valid s ns" and idle: "st_writer s = None" and key: "valid key"
    and new: "\<forall>y\<in>set (sl_list (st_list s)). cmp (sl_key (st_list s) y) key \<noteq> 0"
    and prep: "insert_prepare cmp key (st_list s) = Some (prev, height, x, sl)"
    and s': "s' = s\<lparr>st_list := sl, st_writer := Some \<lparr>w_prev = prev, w_node = x, w_height = height, w_level = 0, w_pointed = False\<rparr>\<rparr>"
  obtains ns' where "writer_inv cmp valid s' ns'" and "writer_keeps s ns s' ns'" and "sl_list (st_list s') = sl_list (st_list s)"
proof -
  from inv idle have n: "skip_nodes cmp valid (st_list s) ns" by (simp add: writer_inv_def)
  have l: "sl_list (st_list s) = ns"
    using list_levels [OF skip_nodes_levels [OF n]] skip_nodes_height [OF n subset_refl] by simp
  from insert_prepare_linking [OF n key new [unfolded l]] obtain prev' height' x' sl' as bs where
    p: "insert_prepare cmp key (st_list s) = Some (prev', height', x', sl')" and
    ns: "ns = as @ bs" and q: "linking cmp valid sl' prev' x' 0 (as @ x' # bs)" "height' = node_height sl' x'"
      "\<forall>y\<in>set ns. sl_key sl' y = sl_key (st_list s) y" by metis
  from p prep have "prev' = prev" "height' = height" "x' = x" "sl' = sl" by simp_all
  with q have k: "linking cmp valid sl prev x 0 (as @ x # bs)" and h: "height = node_height sl x"
    and keys: "\<forall>y\<in>set ns. sl_key sl y = sl_key (st_list s) y" by simp_all
  have inv': "writer_inv cmp valid s' (as @ x # bs)" using k h by (simp add: writer_inv_def s')
  have x: "x \<notin> set as" "x \<notin> set bs" using k by (simp_all add: linking_def skip_levels_def)
  show thesis
  proof (rule that [OF inv'])
    have old: "node_height sl y = node_height (st_list s) y" if "y \<in> set ns" for y
    proof -
      have "y < length (sl_nodes (st_list s))" using that n by (auto simp: skip_nodes_def skip_levels_def)
      moreover obtain sl1 where "NewNode key height sl1 = (x, sl)" "sl_nodes sl1 = sl_nodes (st_list s)"
        using prep by (auto simp: insert_prepare_def Let_def NewNode_def split: option.splits prod.splits if_splits)
      ultimately show ?thesis using NewNode_nodes(3) by metis
    qed
    then show "writer_keeps s ns s' (as @ x # bs)"
      using idle keys x ns by (auto simp: writer_keeps_def list_all_iff s' st_height_def)
    have "sl_list (st_list s') = filter (\<lambda>y. 0 < st_height s' y) (as @ x # bs)"
      by (rule list_levels [OF writer_levels [OF inv']])
    also have "\<dots> = filter (\<lambda>y. 0 < node_height sl y) ns"
    proof -
      have "st_height s' = (node_height sl)(x := 0)" by (simp add: s' st_height_def)
      then show ?thesis
        by (simp only: ns filter_append filter.simps filter_fun_upd [OF x(1)] filter_fun_upd [OF x(2)]) simp
    qed
    also have "\<dots> = filter (\<lambda>y. 0 < node_height (st_list s) y) ns" by (rule filter_cong) (simp_all add: old)
    also have "\<dots> = sl_list (st_list s)" by (simp only: l skip_nodes_height [OF n subset_refl])
    finally show "sl_list (st_list s') = sl_list (st_list s)" .
  qed
qed

lemma point_inv:
  assumes inv: "writer_inv cmp valid s ns" and w: "st_writer s = Some w" "w_level w < w_height w"
    and s': "s' = s\<lparr>st_list := point_node (w_prev w) (w_node w) (w_level w) (st_list s), st_writer := Some (w\<lparr>w_pointed := True\<rparr>)\<rparr>"
  shows "writer_inv cmp valid s' ns" and "writer_keeps s ns s' ns" and "sl_list (st_list s') = sl_list (st_list s)"
proof -
  from inv w have l: "linking cmp valid (st_list s) (w_prev w) (w_node w) (w_level w) ns" "w_level w < node_height (st_list s) (w_node w)"
    by (simp_all add: writer_inv_def)
  from point_node_linking [OF this] inv w show inv': "writer_inv cmp valid s' ns"
    by (simp add: writer_inv_def s') (simp add: point_node_def)
  have h: "st_height s' = st_height s" using w by (simp add: st_height_def s' point_node_def)
  then show "writer_keeps s ns s' ns" by (simp add: writer_keeps_def list_all_iff) (simp add: s' point_node_def)
  show "sl_list (st_list s') = sl_list (st_list s)"
    by (simp only: list_levels [OF writer_levels [OF inv']] list_levels [OF writer_levels [OF inv]] h)
qed

lemma publish_inv:
  assumes inv: "writer_inv cmp valid s ns" and w: "st_writer s = Some w" "w_pointed w"
    and s': "s' = s\<lparr>st_list := publish_node (w_prev w) (w_node w) (w_level w) (st_list s),
      st_writer := Some (w\<lparr>w_pointed := False, w_level := Suc (w_level w)\<rparr>)\<rparr>"
  shows "writer_inv cmp valid s' ns" and "writer_keeps s ns s' ns"
    and "if w_level w = 0
      then \<exists>as bs. sl_list (st_list s) = as @ bs \<and> sl_list (st_list s') = as @ w_node w # bs
      else sl_list (st_list s') = sl_list (st_list s)"
proof -
  from inv w have l: "linking cmp valid (st_list s) (w_prev w) (w_node w) (w_level w) ns" "w_level w < node_height (st_list s) (w_node w)"
    and n: "node_Next (st_list s) (w_node w) (w_level w) = node_Next (st_list s) (w_prev w ! w_level w) (w_level w)"
    and h: "w_height w = node_height (st_list s) (w_node w)"
    by (simp_all add: writer_inv_def)
  from publish_node_linking [OF l n] h show inv': "writer_inv cmp valid s' ns"
    by (simp add: writer_inv_def s') (simp add: publish_node_def)
  have lv: "st_height s' = (st_height s)(w_node w := Suc (w_level w))" "st_height s (w_node w) = w_level w"
    using w by (simp_all add: st_height_def s' publish_node_def)
  then show "writer_keeps s ns s' ns" by (simp add: writer_keeps_def list_all_iff) (simp add: s' publish_node_def)
  from linking_facts [OF l(1)] obtain as bs where ns: "ns = as @ w_node w # bs" and x: "w_node w \<notin> set as" "w_node w \<notin> set bs" by metis
  show "if w_level w = 0
      then \<exists>as bs. sl_list (st_list s) = as @ bs \<and> sl_list (st_list s') = as @ w_node w # bs
      else sl_list (st_list s') = sl_list (st_list s)"
    unfolding list_levels [OF writer_levels [OF inv']] list_levels [OF writer_levels [OF inv]] ns lv(1)
      filter_append filter.simps filter_fun_upd [OF x(1)] filter_fun_upd [OF x(2)]
    using lv(2) by auto
qed

lemma end_insert_inv:
  assumes inv: "writer_inv cmp valid s ns" and w: "st_writer s = Some w" "w_level w = w_height w" and s': "s' = s\<lparr>st_writer := None\<rparr>"
  shows "writer_inv cmp valid s' ns" and "writer_keeps s ns s' ns" and "sl_list (st_list s') = sl_list (st_list s)"
proof -
  from inv w have l: "linking cmp valid (st_list s) (w_prev w) (w_node w) (node_height (st_list s) (w_node w)) ns"
    and h: "w_level w = node_height (st_list s) (w_node w)"
    by (auto simp: writer_inv_def)
  then show inv': "writer_inv cmp valid s' ns" using linked_whole by (simp add: writer_inv_def s')
  show "writer_keeps s ns s' ns" using w h by (simp add: writer_keeps_def list_all_iff st_height_def s')
  show "sl_list (st_list s') = sl_list (st_list s)" by (simp add: s')
qed

text \<open>Every step keeps both invariants; a search step stays at linked nodes before the target.\<close>

lemma skip_step_inv:
  assumes "skip_step cmp valid target s s'" and w: "writer_inv cmp valid s ns" and r: "reader_inv cmp target s ns"
    and target: "valid target"
  obtains ns' where "writer_inv cmp valid s' ns'" and "reader_inv cmp target s' ns'"
proof -
  note l = writer_levels [OF w]
  have reader: "writer_inv cmp valid (s\<lparr>st_reader := p\<rparr>) ns" "st_height (s\<lparr>st_reader := p\<rparr>) = st_height s" for p
    using w by (auto simp: writer_inv_def st_height_def split: option.splits)
  from assms(1) show thesis
  proof cases
    case (begin_insert key prev height x sl)
    from begin_insert_inv [OF w begin_insert(2-5) begin_insert(1)] that reader_keeps [OF r] show thesis by metis
  next
    case (point x)
    from point_inv [OF w point(2,4,1)] that reader_keeps [OF r] show thesis by metis
  next
    case (publish x)
    from publish_inv [OF w publish(2,3,1)] that reader_keeps [OF r] show thesis by metis
  next
    case (end_insert x)
    from end_insert_inv [OF w end_insert(2,3,1)] that reader_keeps [OF r] show thesis by metis
  next
    case (walk x l' y)
    with r have "l' < kMaxHeight" "x = 0 \<or> x \<in> set ns \<and> l' < st_height s x \<and> cmp (sl_key (st_list s) x) target < 0"
      by (simp_all add: reader_inv_def)
    from reader_next [OF l target this] walk(3) obtain us vs where
      "filter (\<lambda>y. l' < st_height s y) ns = us @ vs" "hd_option vs = Some y" by metis
    then have "y \<in> set (filter (\<lambda>y. l' < st_height s y) ns)" by (cases vs) (simp_all add: hd_option_def)
    with walk \<open>l' < kMaxHeight\<close> have "reader_inv cmp target s' ns"
      by (simp add: reader_inv_def reader KeyIsAfterNode_def sl_key_def)
    from that [OF _ this] reader(1) walk(1) show thesis by simp
  next
    case (down x l')
    with r have "reader_inv cmp target s' ns" by (auto simp: reader_inv_def reader)
    from that [OF _ this] reader(1) down(1) show thesis by simp
  next
    case (start l')
    then have "reader_inv cmp target s' ns" by (simp add: reader_inv_def)
    from that [OF _ this] reader(1) start(1) show thesis by simp
  next
    case (return x)
    then have "reader_inv cmp target s' ns" by (simp add: reader_inv_def)
    from that [OF _ this] reader(1) return(1) show thesis by simp
  qed
qed

lemma reachable_inv:
  assumes "skip_reachable cmp valid target zero s" and "valid target"
  obtains ns where "writer_inv cmp valid s ns" and "reader_inv cmp target s ns"
proof -
  from assms(1) have "(skip_step cmp valid target)\<^sup>*\<^sup>* (skip_start zero) s" by (simp add: skip_reachable_def)
  then have "\<exists>ns. writer_inv cmp valid s ns \<and> reader_inv cmp target s ns"
  proof (induction rule: rtranclp_induct)
    case base
    have "writer_inv cmp valid (skip_start zero) [] \<and> reader_inv cmp target (skip_start zero) []"
      using new_list by (simp add: writer_inv_def reader_inv_def skip_start_def)
    then show ?case by blast
  next
    case (step s s')
    with skip_step_inv [OF step(2) _ _ assms(2)] show ?case by metis
  qed
  with that show thesis by blast
qed

text \<open>A search that returns found the first node not before its target, of the list at this moment.\<close>

lemma reader_returns:
  assumes "skip_reachable cmp valid target zero s" and "valid target" and "st_reader s = Some (x, 0)"
    and "\<not> KeyIsAfterNode cmp (st_list s) target (node_Next (st_list s) x 0)"
  shows "node_Next (st_list s) x 0 = List.find (\<lambda>y. \<not> cmp (sl_key (st_list s) y) target < 0) (sl_list (st_list s))"
proof -
  from reachable_inv [OF assms(1,2)] obtain ns where i: "writer_inv cmp valid s ns" "reader_inv cmp target s ns" .
  from i(2) assms(3) have "x = 0 \<or> x \<in> set ns \<and> 0 < st_height s x \<and> cmp (sl_key (st_list s) x) target < 0"
    by (simp add: reader_inv_def)
  from search_finds [OF writer_levels [OF i(1)] assms(2) this assms(4)] show ?thesis .
qed

text \<open>The list is ordered at every moment, and changes only by the first link of a new node.\<close>

lemma reachable_sorted:
  assumes "skip_reachable cmp valid target zero s" and "valid target"
  shows "sorted_wrt (\<lambda>x y. cmp (sl_key (st_list s) x) (sl_key (st_list s) y) < 0) (sl_list (st_list s))"
proof -
  from reachable_inv [OF assms] obtain ns where i: "writer_inv cmp valid s ns" by metis
  from writer_levels [OF i] show ?thesis
    by (simp add: list_levels [OF writer_levels [OF i]] skip_levels_def sorted_wrt_filter)
qed

lemma step_list:
  assumes "skip_reachable cmp valid target zero s" and "valid target" and "skip_step cmp valid target s s'"
  shows "sl_list (st_list s') = sl_list (st_list s)
    \<or> (\<exists>w as bs. st_writer s = Some w \<and> w_level w = 0 \<and> sl_list (st_list s) = as @ bs \<and> sl_list (st_list s') = as @ w_node w # bs)"
proof -
  from reachable_inv [OF assms(1,2)] obtain ns where w: "writer_inv cmp valid s ns" by metis
  from assms(3) show ?thesis
  proof cases
    case (begin_insert key prev height x sl)
    from begin_insert_inv [OF w begin_insert(2-5) begin_insert(1)] show ?thesis by metis
  next
    case (point x)
    from point_inv [OF w point(2,4,1)] show ?thesis by simp
  next
    case (publish x)
    from publish_inv(3) [OF w publish(2,3,1)] publish(2) show ?thesis by (metis (no_types))
  next
    case (end_insert x)
    from end_insert_inv [OF w end_insert(2,3,1)] show ?thesis by simp
  qed simp_all
qed

end

end
