(* ===== verification/Ldb_MemTable.thy ===== *)
theory Ldb_MemTable
  imports Ldb_SkipList Ldb_Env
begin

text \<open>
  \<open>leveldb-library/db/memtable.cc\<close>: a skip list of entries, each the internal key and the value with
  their lengths in front, one behind the other. A \<open>const char*\<close> is the memory from this address on. The
  interface of an ordered key is interpreted on the comparator of the entries.
\<close>

section \<open>Entries\<close>

text \<open>
  The slice behind a length and the memory behind the slice. The code assumes that the length is
  well-formed; for the null pointer of one that is not the slice is empty here.
\<close>

definition LengthPrefixed :: "bytes \<Rightarrow> slice \<times> bytes" where
  "LengthPrefixed data =
     (let window = take 5 data in
      case GetVarint32Ptr window of None \<Rightarrow> ([], [])
      | Some (len, rest) \<Rightarrow>
          let p = drop (length window - length rest) data in (take (unat len) p, drop (unat len) p))"

definition mem_compare :: "comparator \<Rightarrow> bytes \<Rightarrow> bytes \<Rightarrow> int" where
  "mem_compare user_comparator aptr bptr =
     Compare (InternalKeyComparator user_comparator) (fst (LengthPrefixed aptr)) (fst (LengthPrefixed bptr))"

definition EncodeKey :: "slice \<Rightarrow> bytes" where
  "EncodeKey target = PutVarint32 [] (word_of_nat (length target)) @ target"

section \<open>The table\<close>

text \<open>The arena only hands out memory; it has no part in what the table holds.\<close>

record memtable =
  mt_comparator :: comparator
  mt_refs :: int
  mt_table :: "bytes skiplist"

definition MemTable :: "comparator \<Rightarrow> memtable" where
  "MemTable cmp = \<lparr>mt_comparator = cmp, mt_refs = 0, mt_table = SkipList []\<rparr>"

definition mem_Ref :: "memtable \<Rightarrow> memtable" where
  "mem_Ref mt = mt\<lparr>mt_refs := mt_refs mt + 1\<rparr>"

text \<open>\<open>None\<close>: the table is deleted.\<close>

definition mem_Unref :: "memtable \<Rightarrow> memtable option" where
  "mem_Unref mt = (let mt = mt\<lparr>mt_refs := mt_refs mt - 1\<rparr> in if mt_refs mt \<le> 0 then None else Some mt)"

definition mem_entry :: "u64 \<Rightarrow> ValueType \<Rightarrow> slice \<Rightarrow> slice \<Rightarrow> bytes" where
  "mem_entry s t k value =
     EncodeVarint32 (word_of_nat (length k + 8)) @ k @ EncodeFixed64 (push_bit 8 s OR type_value t)
       @ EncodeVarint32 (word_of_nat (length value)) @ value"

text \<open>\<open>None\<close>: the insertion does not end, which no table made by these operations does.\<close>

definition mem_Add :: "u64 \<Rightarrow> ValueType \<Rightarrow> slice \<Rightarrow> slice \<Rightarrow> memtable \<Rightarrow> memtable option" where
  "mem_Add s t k value mt =
     map_option (\<lambda>table. mt\<lparr>mt_table := table\<rparr>)
       (sl_Insert (mem_compare (mt_comparator mt)) (mem_entry s t k value) (mt_table mt))"

text \<open>\<open>value\<close> and \<open>s\<close> are what the caller's variables hold before and after.\<close>

definition mem_Get :: "bytes \<times> nat \<Rightarrow> memtable \<Rightarrow> bytes \<Rightarrow> status \<Rightarrow> (bool \<times> bytes \<times> status) option" where
  "mem_Get k mt value s =
     (case sl_Seek (mem_compare (mt_comparator mt)) (memtable_key k) (mt_table mt) of None \<Rightarrow> None
      | Some None \<Rightarrow> Some (False, value, s)
      | Some (Some node) \<Rightarrow> Some (
          let entry = sl_key (mt_table mt) node;
              (ikey, rest) = LengthPrefixed entry
          in if Compare (mt_comparator mt) (take (length ikey - 8) ikey) (lookup_user_key k) = 0 then
               let tag = DecodeFixed64 (drop (length ikey - 8) ikey) in
               if tag AND 0xff = type_value kTypeValue then (True, fst (LengthPrefixed rest), s)
               else if tag AND 0xff = type_value kTypeDeletion then (True, value, NotFound [] [])
               else (False, value, s)
             else (False, value, s)))"

text \<open>The iterator is that of the list.\<close>

definition mem_Seek :: "slice \<Rightarrow> memtable \<Rightarrow> nat option option" where
  "mem_Seek k mt = sl_Seek (mem_compare (mt_comparator mt)) (EncodeKey k) (mt_table mt)"

definition mem_SeekToFirst :: "memtable \<Rightarrow> nat option" where
  "mem_SeekToFirst mt = sl_SeekToFirst (mt_table mt)"

definition mem_SeekToLast :: "memtable \<Rightarrow> nat option option" where
  "mem_SeekToLast mt = sl_SeekToLast (mt_table mt)"

definition mem_Next :: "memtable \<Rightarrow> nat \<Rightarrow> nat option" where
  "mem_Next mt node = sl_Next (mt_table mt) node"

definition mem_Prev :: "memtable \<Rightarrow> nat \<Rightarrow> nat option option" where
  "mem_Prev mt node = sl_Prev (mem_compare (mt_comparator mt)) (mt_table mt) node"

definition mem_key :: "memtable \<Rightarrow> nat \<Rightarrow> slice" where
  "mem_key mt node = fst (LengthPrefixed (sl_key (mt_table mt) node))"

definition mem_value :: "memtable \<Rightarrow> nat \<Rightarrow> slice" where
  "mem_value mt node = fst (LengthPrefixed (snd (LengthPrefixed (sl_key (mt_table mt) node))))"

section \<open>Reading entries\<close>

lemma LengthPrefixed_varint:
  assumes "length k < 2 ^ 32"
  shows "LengthPrefixed (EncodeVarint32 (word_of_nat (length k)) @ k @ r) = (k, r)"
proof -
  let ?v = "varint (length k)"
  have e: "EncodeVarint32 (word_of_nat (length k)) = ?v" using assms by (simp add: EncodeVarint32_varint unat_small)
  have "length k < 128 ^ Suc 4" using assms by simp
  then have v: "length ?v \<le> 5" using length_varint [of "length k" 4] by simp
  then have w: "take 5 (?v @ k @ r) = ?v @ take (5 - length ?v) (k @ r)" by simp
  have "GetVarint32Ptr (take 5 (?v @ k @ r)) = Some (word_of_nat (length k), take (5 - length ?v) (k @ r))"
    unfolding w using assms by (rule GetVarint32Ptr_varint)
  moreover have "length (take 5 (?v @ k @ r)) - length (take (5 - length ?v) (k @ r)) = length ?v" using v by (simp add: w)
  moreover have "unat (word_of_nat (length k) :: u32) = length k" using assms by (simp add: unat_small)
  ultimately show ?thesis by (simp add: LengthPrefixed_def e Let_def)
qed

text \<open>What the list compares: an internal key with its length in front.\<close>

definition mem_valid :: "(slice \<Rightarrow> bool) \<Rightarrow> bytes \<Rightarrow> bool" where
  "mem_valid valid x \<longleftrightarrow> (\<exists>k r. x = EncodeVarint32 (word_of_nat (length k)) @ k @ r \<and> length k < 2 ^ 32 \<and> 8 \<le> length k
     \<and> valid (ExtractUserKey k))"

definition mem_rank :: "(slice \<Rightarrow> 'k) \<Rightarrow> bytes \<Rightarrow> 'k internal_order" where
  "mem_rank key x = (let k = fst (LengthPrefixed x) in IKey (key (ExtractUserKey k)) (key_tag k))"

context comparator_contract
begin

lemma mem_ordered: "ordered_keys (mem_compare cmp) (mem_valid valid) (mem_rank key)"
proof
  fix a b
  assume "mem_valid valid a" "mem_valid valid b"
  then have "8 \<le> length (fst (LengthPrefixed a)) \<and> valid (ExtractUserKey (fst (LengthPrefixed a)))"
    "8 \<le> length (fst (LengthPrefixed b)) \<and> valid (ExtractUserKey (fst (LengthPrefixed b)))"
    by (auto simp: mem_valid_def LengthPrefixed_varint)
  from comparator_contract.compare_less [OF internal_contract this] comparator_contract.compare_eq [OF internal_contract this]
  show "mem_compare cmp a b < 0 \<longleftrightarrow> mem_rank key a < mem_rank key b" "mem_compare cmp a b = 0 \<longleftrightarrow> mem_rank key a = mem_rank key b"
    by (simp_all add: mem_compare_def mem_rank_def Let_def)
qed

end

abbreviation bytewise_mem :: "bytes compare" where
  "bytewise_mem \<equiv> mem_compare BytewiseComparator"

abbreviation any_mem :: "bytes \<Rightarrow> bool" where
  "any_mem \<equiv> mem_valid (\<lambda>_. True)"

interpretation mem: ordered_keys bytewise_mem any_mem "mem_rank (\<lambda>k. k)"
  by (rule bytewise.mem_ordered)

section \<open>What the table holds\<close>

record entry = ParsedInternalKey +
  entry_value :: slice

definition entry_ok :: "entry \<Rightarrow> bool" where
  "entry_ok e \<longleftrightarrow> length (user_key e) + 8 < 2 ^ 32 \<and> length (entry_value e) < 2 ^ 32 \<and> seq_number e \<le> kMaxSequenceNumber"

definition entry_bytes :: "entry \<Rightarrow> bytes" where
  "entry_bytes e = mem_entry (seq_number e) (value_type e) (user_key e) (entry_value e)"

definition entry_key :: "entry \<Rightarrow> slice" where
  "entry_key e = AppendInternalKey [] (ParsedInternalKey.truncate e)"

text \<open>The table holds the entries \<open>es\<close>, in this order.\<close>

definition mem_holds :: "memtable \<Rightarrow> entry list \<Rightarrow> bool" where
  "mem_holds mt es \<longleftrightarrow> mt_comparator mt = BytewiseComparator \<and> list_all entry_ok es
     \<and> (\<exists>ns. skip_nodes bytewise_mem any_mem (mt_table mt) ns \<and> map (sl_key (mt_table mt)) ns = map entry_bytes es)"

lemma entry_bytes_key:
  "entry_bytes e = EncodeVarint32 (word_of_nat (length (entry_key e))) @ entry_key e
     @ EncodeVarint32 (word_of_nat (length (entry_value e))) @ entry_value e"
  by (simp add: entry_bytes_def mem_entry_def entry_key_def AppendInternalKey_def PutFixed64_def PackSequenceAndType_def
      ParsedInternalKey.truncate_def)

lemma entry_key_facts [simp]:
  "length (entry_key e) = length (user_key e) + 8" "ExtractUserKey (entry_key e) = user_key e"
  "key_tag (entry_key e) = PackSequenceAndType (seq_number e) (value_type e)"
  by (simp_all add: entry_key_def ParsedInternalKey.truncate_def)

lemma LengthPrefixed_entry:
  assumes "entry_ok e"
  shows "LengthPrefixed (entry_bytes e) = (entry_key e, EncodeVarint32 (word_of_nat (length (entry_value e))) @ entry_value e)"
  using assms LengthPrefixed_varint [of "entry_key e"] by (simp add: entry_bytes_key entry_ok_def)

lemma LengthPrefixed_value: "entry_ok e \<Longrightarrow> LengthPrefixed (EncodeVarint32 (word_of_nat (length (entry_value e))) @ entry_value e) = (entry_value e, [])"
  using LengthPrefixed_varint [of "entry_value e" "[]"] by (simp add: entry_ok_def)

lemma mem_validI:
  "length k < 2 ^ 32 \<Longrightarrow> 8 \<le> length k \<Longrightarrow> valid (ExtractUserKey k) \<Longrightarrow> mem_valid valid (EncodeVarint32 (word_of_nat (length k)) @ k @ r)"
  unfolding mem_valid_def by blast

lemma entry_valid: "entry_ok e \<Longrightarrow> any_mem (entry_bytes e)"
  unfolding entry_bytes_key by (rule mem_validI) (simp_all add: entry_ok_def)

lemma LookupKey_memtable:
  "memtable_key (LookupKey u s) = EncodeVarint32 (word_of_nat (length (internal_key (LookupKey u s)))) @ internal_key (LookupKey u s)"
  by (simp add: LookupKey_internal) (simp add: LookupKey_def memtable_key_def AppendInternalKey_def PutFixed64_def Let_def)

lemma LookupKey_valid:
  assumes "length u + 8 < 2 ^ 32"
  shows "any_mem (memtable_key (LookupKey u s))"
    and "LengthPrefixed (memtable_key (LookupKey u s)) = (internal_key (LookupKey u s), [])"
  using assms LengthPrefixed_varint [of "internal_key (LookupKey u s)" "[]"]
    mem_validI [of "internal_key (LookupKey u s)" "\<lambda>_. True" "[]"]
  by (simp_all add: LookupKey_memtable) (simp_all add: LookupKey_internal)

lemma mem_compare_entries:
  "entry_ok a \<Longrightarrow> entry_ok b \<Longrightarrow> bytewise_mem (entry_bytes a) (entry_bytes b) =
    Compare (InternalKeyComparator BytewiseComparator) (entry_key a) (entry_key b)"
  by (simp add: mem_compare_def LengthPrefixed_entry)

lemma mem_holds_sorted:
  assumes "mem_holds mt es"
  shows "sorted_wrt (\<lambda>a b. Compare (InternalKeyComparator BytewiseComparator) (entry_key a) (entry_key b) < 0) es"
proof -
  from assms obtain ns where n: "skip_nodes bytewise_mem any_mem (mt_table mt) ns" "map (sl_key (mt_table mt)) ns = map entry_bytes es"
    and e: "\<forall>e\<in>set es. entry_ok e" by (auto simp: mem_holds_def list_all_iff)
  from n(1) have "sorted_wrt (\<lambda>a b. bytewise_mem a b < 0) (map (sl_key (mt_table mt)) ns)"
    by (simp add: skip_nodes_def skip_levels_def sorted_wrt_map)
  then have "sorted_wrt (\<lambda>a b. bytewise_mem (entry_bytes a) (entry_bytes b) < 0) es" by (simp add: n(2) sorted_wrt_map)
  then show ?thesis by (rule sorted_wrt_mono_rel [rotated]) (use e in \<open>simp add: mem_compare_entries\<close>)
qed

lemma new_mem_holds: "mem_holds (MemTable BytewiseComparator) []"
  using new_list [of bytewise_mem any_mem "[]"] by (auto simp: mem_holds_def MemTable_def intro!: exI [of _ "[]"])

text \<open>An insertion of an entry with another key or sequence number than all before.\<close>

lemma mem_Add_holds:
  assumes m: "mem_holds mt es" and e: "entry_ok e"
    and new: "\<forall>e'\<in>set es. user_key e' = user_key e \<longrightarrow> seq_number e' \<noteq> seq_number e"
  obtains mt' as bs where "mem_Add (seq_number e) (value_type e) (user_key e) (entry_value e) mt = Some mt'"
    and "es = as @ bs" and "mem_holds mt' (as @ e # bs)"
proof -
  from m obtain ns where n: "skip_nodes bytewise_mem any_mem (mt_table mt) ns" "map (sl_key (mt_table mt)) ns = map entry_bytes es"
    and es: "\<forall>e\<in>set es. entry_ok e" and c: "mt_comparator mt = BytewiseComparator" by (auto simp: mem_holds_def list_all_iff)
  have "\<forall>y\<in>set ns. bytewise_mem (sl_key (mt_table mt) y) (entry_bytes e) \<noteq> 0"
  proof
    fix y
    assume "y \<in> set ns"
    then have "sl_key (mt_table mt) y \<in> set (map entry_bytes es)" by (simp add: n(2) [symmetric])
    then obtain e' where e': "e' \<in> set es" "sl_key (mt_table mt) y = entry_bytes e'" by auto
    then have "entry_ok e'" using es by blast
    moreover have "8 \<le> length (entry_key e')" "8 \<le> length (entry_key e)" by simp_all
    note internal.compare_eq [OF this]
    moreover have "seq_number e' \<le> kMaxSequenceNumber" "seq_number e \<le> kMaxSequenceNumber" using e \<open>entry_ok e'\<close> by (simp_all add: entry_ok_def)
    note pack_inj [OF this]
    ultimately show "bytewise_mem (sl_key (mt_table mt) y) (entry_bytes e) \<noteq> 0"
      using e'(1) new e by (auto simp: e'(2) mem_compare_entries)
  qed
  from mem.Insert_nodes [OF n(1) entry_valid [OF e] this] obtain table as x bs where
    t: "sl_Insert bytewise_mem (entry_bytes e) (mt_table mt) = Some table" "ns = as @ bs"
      "skip_nodes bytewise_mem any_mem table (as @ x # bs)"
      "map (sl_key table) as = map (sl_key (mt_table mt)) as" "sl_key table x = entry_bytes e"
      "map (sl_key table) bs = map (sl_key (mt_table mt)) bs" .
  define cs ds where "cs = take (length as) es" and "ds = drop (length as) es"
  have k: "map (sl_key (mt_table mt)) as = map entry_bytes cs" "map (sl_key (mt_table mt)) bs = map entry_bytes ds"
    using n(2) [symmetric] by (simp_all add: cs_def ds_def t(2) take_map [symmetric] drop_map [symmetric])
  show thesis
  proof (rule that)
    show "mem_Add (seq_number e) (value_type e) (user_key e) (entry_value e) mt = Some (mt\<lparr>mt_table := table\<rparr>)"
      using t(1) by (simp add: mem_Add_def c entry_bytes_def)
    show "es = cs @ ds" by (simp add: cs_def ds_def)
    show "mem_holds (mt\<lparr>mt_table := table\<rparr>) (cs @ e # ds)"
      unfolding mem_holds_def
    proof (intro conjI exI)
      show "list_all entry_ok (cs @ e # ds)"
        using es e by (auto simp: list_all_iff cs_def ds_def dest: in_set_takeD in_set_dropD)
      show "skip_nodes bytewise_mem any_mem (mt_table (mt\<lparr>mt_table := table\<rparr>)) (as @ x # bs)" using t(3) by simp
      show "map (sl_key (mt_table (mt\<lparr>mt_table := table\<rparr>))) (as @ x # bs) = map entry_bytes (cs @ e # ds)"
        using t(4-6) k by simp
    qed (simp add: c)
  qed
qed

section \<open>What a lookup returns\<close>

definition get_result :: "bytes \<Rightarrow> status \<Rightarrow> entry \<Rightarrow> bool \<times> bytes \<times> status" where
  "get_result value s e =
     (case value_type e of kTypeValue \<Rightarrow> (True, entry_value e, s) | kTypeDeletion \<Rightarrow> (True, value, NotFound [] []))"

lemma type_byte:
  assumes "s \<le> kMaxSequenceNumber"
  shows "PackSequenceAndType s t AND 0xff = type_value t"
proof -
  have "PackSequenceAndType s t AND 0xff = ucast (ucast (PackSequenceAndType s t AND 0xff) :: u8)"
  proof -
    have ff: "(0xff :: u64) = mask 8" by (simp add: mask_eq_exp_minus_1)
    show ?thesis unfolding ff by (rule bit_word_eqI) (auto simp: bit_simps)
  qed
  then show ?thesis by (cases t) (simp_all only: pack_unpack(2) [OF assms], simp_all add: type_value_def)
qed

lemma find_map: "List.find P (map f xs) = map_option f (List.find (\<lambda>x. P (f x)) xs)"
  by (induction xs) auto

lemma find_cong_set: "(\<And>x. x \<in> set xs \<Longrightarrow> P x = Q x) \<Longrightarrow> List.find P xs = List.find Q xs"
  by (induction xs) auto

lemma mem_Get_find:
  assumes m: "mem_holds mt es" and u: "length u + 8 < 2 ^ 32"
  shows "mem_Get (LookupKey u s) mt value st = Some (
    case List.find (\<lambda>e. 0 \<le> Compare (InternalKeyComparator BytewiseComparator) (entry_key e) (internal_key (LookupKey u s))) es of
      None \<Rightarrow> (False, value, st)
    | Some e \<Rightarrow> if user_key e = u then get_result value st e else (False, value, st))"
proof -
  from m obtain ns where n: "skip_nodes bytewise_mem any_mem (mt_table mt) ns" "map (sl_key (mt_table mt)) ns = map entry_bytes es"
    and es: "\<forall>e\<in>set es. entry_ok e" and c: "mt_comparator mt = BytewiseComparator" by (auto simp: mem_holds_def list_all_iff)
  let ?k = "memtable_key (LookupKey u s)" and ?C = "Compare (InternalKeyComparator BytewiseComparator)"
  note lk = LookupKey_valid [OF u]
  define r where "r = List.find (\<lambda>y. \<not> bytewise_mem (sl_key (mt_table mt) y) ?k < 0) ns"
  have seek: "sl_Seek (mem_compare (mt_comparator mt)) ?k (mt_table mt) = Some r"
    unfolding c r_def by (rule mem.Seek_nodes [OF n(1) lk(1)])
  have "map_option (sl_key (mt_table mt)) r = List.find (\<lambda>x. \<not> bytewise_mem x ?k < 0) (map (sl_key (mt_table mt)) ns)"
    by (simp add: r_def find_map)
  also have "\<dots> = map_option entry_bytes (List.find (\<lambda>e. \<not> bytewise_mem (entry_bytes e) ?k < 0) es)"
    by (simp add: n(2) find_map)
  also have "List.find (\<lambda>e. \<not> bytewise_mem (entry_bytes e) ?k < 0) es
      = List.find (\<lambda>e. 0 \<le> ?C (entry_key e) (internal_key (LookupKey u s))) es"
    by (rule find_cong_set) (use es in \<open>simp add: mem_compare_def LengthPrefixed_entry lk(2) not_less\<close>)
  finally have r: "map_option (sl_key (mt_table mt)) r = map_option entry_bytes
      (List.find (\<lambda>e. 0 \<le> ?C (entry_key e) (internal_key (LookupKey u s))) es)" .
  show ?thesis
  proof (cases "List.find (\<lambda>e. 0 \<le> ?C (entry_key e) (internal_key (LookupKey u s))) es")
    case None
    with r have "r = None" by simp
    with None seek show ?thesis by (simp add: mem_Get_def)
  next
    case (Some e)
    with r obtain x where x: "r = Some x" "sl_key (mt_table mt) x = entry_bytes e" by auto
    from Some have "e \<in> set es" by (auto simp: find_Some_iff)
    then have e: "entry_ok e" using es by blast
    then have "seq_number e \<le> kMaxSequenceNumber" by (simp add: entry_ok_def)
    note tag = type_byte [OF this, of "value_type e"]
    have user: "take (length (entry_key e) - 8) (entry_key e) = user_key e" "lookup_user_key (LookupKey u s) = u"
      using entry_key_facts(2) [of e] by (simp_all add: ExtractUserKey_def lookup_user_key_def LookupKey_internal AppendInternalKey_def PutFixed64_def)
    have "Compare BytewiseComparator (user_key e) u = 0 \<longleftrightarrow> user_key e = u" by (rule bytewise.compare_eq) simp_all
    moreover have "DecodeFixed64 (drop (length (entry_key e) - 8) (entry_key e)) = PackSequenceAndType (seq_number e) (value_type e)"
      using entry_key_facts(3) [of e] by (simp only: key_tag_def)
    ultimately show ?thesis
      using seek x Some c user tag LengthPrefixed_entry [OF e] LengthPrefixed_value [OF e]
      by (cases "value_type e"; cases "user_key e = u") (auto simp: mem_Get_def get_result_def type_value_def Let_def)
  qed
qed

lemma mem_Get_newest:
  assumes m: "mem_holds mt es" and u: "length u + 8 < 2 ^ 32" and s: "s \<le> kMaxSequenceNumber"
    and e: "e \<in> set es" "user_key e = u" "seq_number e \<le> s"
    and newest: "\<And>e'. e' \<in> set es \<Longrightarrow> user_key e' = u \<Longrightarrow> seq_number e' \<le> s \<Longrightarrow> e' = e \<or> seq_number e' < seq_number e"
  shows "mem_Get (LookupKey u s) mt value st = Some (get_result value st e)"
proof -
  have es: "\<forall>e\<in>set es. entry_ok e" using m by (simp add: mem_holds_def list_all_iff)
  let ?P = "\<lambda>k. 0 \<le> Compare (InternalKeyComparator BytewiseComparator) (AppendInternalKey [] k) (internal_key (LookupKey u s))"
  have "sorted_wrt (\<lambda>a b. Compare (InternalKeyComparator BytewiseComparator) (AppendInternalKey [] a) (AppendInternalKey [] b) < 0)
      (map ParsedInternalKey.truncate es)"
    using mem_holds_sorted [OF m] by (simp add: sorted_wrt_map entry_key_def)
  moreover have "\<forall>e\<in>set (map ParsedInternalKey.truncate es). seq_number e \<le> kMaxSequenceNumber"
    using es by (auto simp: entry_ok_def ParsedInternalKey.truncate_def)
  ultimately have f: "case find ?P (map ParsedInternalKey.truncate es) of
    Some e \<Rightarrow> if user_key e = u
      then seq_number e \<le> s \<and> (\<forall>e'\<in>set (map ParsedInternalKey.truncate es). user_key e' = u \<and> seq_number e' \<le> s \<longrightarrow> seq_number e' \<le> seq_number e)
      else (\<forall>e'\<in>set (map ParsedInternalKey.truncate es). user_key e' = u \<longrightarrow> s < seq_number e')
    | None \<Rightarrow> \<forall>e'\<in>set (map ParsedInternalKey.truncate es). user_key e' = u \<longrightarrow> s < seq_number e'"
    using s by (rule find_newest)
  have t: "user_key (ParsedInternalKey.truncate x) = user_key x" "seq_number (ParsedInternalKey.truncate x) = seq_number x" for x :: entry
    by (simp_all add: ParsedInternalKey.truncate_def)
  show ?thesis
  proof (cases "List.find (\<lambda>e. ?P (ParsedInternalKey.truncate e)) es")
    case None
    with f e show ?thesis by (auto simp: find_map t)
  next
    case (Some x)
    then have x: "x \<in> set es" by (auto simp: find_Some_iff)
    from Some f e have "user_key x = u \<and> seq_number x \<le> s \<and> seq_number e \<le> seq_number x"
      by (auto simp: find_map t split: if_splits)
    with newest [OF x] have "x = e" by auto
    with Some e mem_Get_find [OF m u] show ?thesis by (simp add: entry_key_def)
  qed
qed

lemma mem_Get_none:
  assumes m: "mem_holds mt es" and u: "length u + 8 < 2 ^ 32" and s: "s \<le> kMaxSequenceNumber"
    and none: "\<And>e. e \<in> set es \<Longrightarrow> user_key e = u \<Longrightarrow> s < seq_number e"
  shows "mem_Get (LookupKey u s) mt value st = Some (False, value, st)"
proof -
  let ?P = "\<lambda>e. 0 \<le> Compare (InternalKeyComparator BytewiseComparator) (entry_key e) (internal_key (LookupKey u s))"
  have "user_key e \<noteq> u" if "List.find ?P es = Some e" for e
  proof
    assume ue: "user_key e = u"
    from that have e: "e \<in> set es" "?P e" by (auto simp: find_Some_iff)
    from m e(1) have ok: "seq_number e \<le> kMaxSequenceNumber" by (auto simp: mem_holds_def list_all_iff entry_ok_def)
    from internal_key_less [of "ParsedInternalKey.truncate e" "\<lparr>user_key = u, seq_number = s, value_type = kValueTypeForSeek\<rparr>"]
    have "Compare (InternalKeyComparator BytewiseComparator) (entry_key e) (internal_key (LookupKey u s)) < 0"
      using ok s ue none [OF e(1) ue] by (simp add: entry_key_def LookupKey_internal ParsedInternalKey.truncate_def)
    with e(2) show False by simp
  qed
  then show ?thesis unfolding mem_Get_find [OF m u] by (auto split: option.splits)
qed

section \<open>Properties\<close>

text \<open>
  C7: Readers beside a writer, whatever the order of their loads and the stores of the insertions: the list is in the order of
  its keys at every moment, and a search ends at the first node that is not below its target in the list of the
  moment of its last load, however long it ran and whatever was inserted meanwhile.
\<close>

theorem reader_sees_list:
  assumes "skip_reachable bytewise_mem any_mem target zero s" and "any_mem target" and "st_reader s = Some (x, 0)"
    and "\<not> KeyIsAfterNode bytewise_mem (st_list s) target (node_Next (st_list s) x 0)"
  shows "sorted_wrt (\<lambda>x y. bytewise_mem (sl_key (st_list s) x) (sl_key (st_list s) y) < 0) (sl_list (st_list s))
    \<and> node_Next (st_list s) x 0 = List.find (\<lambda>y. 0 \<le> bytewise_mem (sl_key (st_list s) y) target) (sl_list (st_list s))"
  using mem.reachable_sorted [OF assms(1,2)] mem.reader_returns [OF assms] by (simp add: not_less)

text \<open>A state in which a reader is at the head while a key is being inserted.\<close>

lemma reader_beside_writer:
  assumes "any_mem key"
  obtains s where "skip_reachable bytewise_mem any_mem target zero s" and "st_writer s \<noteq> None" and "st_reader s = Some (0, 0)"
    and "node_Next (st_list s) 0 0 = None"
proof -
  define s0 :: "bytes skip_state" where "s0 = skip_start zero"
  have n: "skip_nodes bytewise_mem any_mem (st_list s0) []" using new_list by (simp add: s0_def skip_start_def)
  then have l: "sl_list (st_list s0) = []" using list_levels [OF skip_nodes_levels [OF n]] by simp
  have "\<forall>y\<in>set []. bytewise_mem (sl_key (st_list s0) y) key \<noteq> 0" by simp
  from mem.insert_prepare_linking [OF n assms this] obtain prev height x sl as bs where
    p: "insert_prepare bytewise_mem key (st_list s0) = Some (prev, height, x, sl)"
    and k': "[] = as @ bs" "linking bytewise_mem any_mem sl prev x 0 (as @ x # bs)" by metis
  then have k: "linking bytewise_mem any_mem sl prev x 0 [x]" by simp
  define s1 where "s1 = s0\<lparr>st_list := sl, st_writer := Some \<lparr>w_prev = prev, w_node = x, w_height = height, w_level = 0, w_pointed = False\<rparr>\<rparr>"
  have "skip_step bytewise_mem any_mem target s0 s1"
    unfolding s1_def
    by (rule begin_insert [where prev = prev and height = height and x = x and sl = sl and key = key])
      (use assms p in \<open>simp_all add: l\<close>, simp add: s0_def skip_start_def)
  moreover have "skip_step bytewise_mem any_mem target s1 (s1\<lparr>st_reader := Some (0, 0)\<rparr>)"
    by (rule start) (simp_all add: s1_def s0_def skip_start_def kMaxHeight_def)
  ultimately have "skip_reachable bytewise_mem any_mem target zero (s1\<lparr>st_reader := Some (0, 0)\<rparr>)"
    by (simp add: skip_reachable_def s0_def)
  moreover have "node_Next sl 0 0 = None"
    using k levels_path [of bytewise_mem any_mem sl "(node_height sl)(x := 0)" "[x]" 0]
    by (simp add: linking_def kMaxHeight_def)
  ultimately show thesis using that by (simp add: s1_def)
qed

lemma reader_sees_list_witness:
  "\<exists>s :: bytes skip_state. st_writer s \<noteq> None \<and> st_reader s = Some (0, 0)
     \<and> node_Next (st_list s) 0 0 = List.find (\<lambda>y. 0 \<le> bytewise_mem (sl_key (st_list s) y) (memtable_key (LookupKey [97] 5))) (sl_list (st_list s))"
proof -
  have v: "any_mem (memtable_key (LookupKey [97] n))" for n by (rule LookupKey_valid) simp
  obtain s where s: "skip_reachable bytewise_mem any_mem (memtable_key (LookupKey [97] 5)) [] s" "st_writer s \<noteq> None"
    "st_reader s = Some (0, 0)" "node_Next (st_list s) 0 0 = None"
    using reader_beside_writer [OF v] by metis
  from reader_sees_list [OF s(1) v s(3)] s(4)
  have "node_Next (st_list s) 0 0 = List.find (\<lambda>y. 0 \<le> bytewise_mem (sl_key (st_list s) y) (memtable_key (LookupKey [97] 5))) (sl_list (st_list s))"
    by (simp add: KeyIsAfterNode_def)
  with s(2,3) show ?thesis by (intro exI [of _ s] conjI)
qed



end
