(* ===== verification/Ldb_Batch.thy ===== *)
theory Ldb_Batch
  imports Ldb_MemTable
begin

text \<open>
  \<open>leveldb-library/db/write_batch.cc\<close>: a batch of updates is a string, with a sequence number and a count
  in front of the records. What a batch does to a table is what the list of its operations does.
\<close>

section \<open>Batches\<close>

type_synonym write_batch = bytes

definition kHeader :: nat where
  "kHeader = 12"

text \<open>The count is an \<open>int\<close> in the code; here it wraps around at 32 bits like the field.\<close>

definition batch_Count :: "write_batch \<Rightarrow> u32" where
  "batch_Count b = DecodeFixed32 (drop 8 b)"

definition batch_SetCount :: "u32 \<Rightarrow> write_batch \<Rightarrow> write_batch" where
  "batch_SetCount n b = take 8 b @ EncodeFixed32 n @ drop 12 b"

definition batch_Sequence :: "write_batch \<Rightarrow> u64" where
  "batch_Sequence b = DecodeFixed64 b"

definition batch_SetSequence :: "u64 \<Rightarrow> write_batch \<Rightarrow> write_batch" where
  "batch_SetSequence seq b = EncodeFixed64 seq @ drop 8 b"

definition batch_Clear :: write_batch where
  "batch_Clear = replicate kHeader 0"

definition ApproximateSize :: "write_batch \<Rightarrow> nat" where
  "ApproximateSize b = length b"

definition batch_Contents :: "write_batch \<Rightarrow> slice" where
  "batch_Contents b = b"

definition batch_SetContents :: "slice \<Rightarrow> write_batch" where
  "batch_SetContents contents = contents"

definition batch_Put :: "slice \<Rightarrow> slice \<Rightarrow> write_batch \<Rightarrow> write_batch" where
  "batch_Put k value b =
     (let b = batch_SetCount (batch_Count b + 1) b; b = b @ [ucast (type_value kTypeValue)]
      in PutLengthPrefixedSlice (PutLengthPrefixedSlice b k) value)"

definition batch_Delete :: "slice \<Rightarrow> write_batch \<Rightarrow> write_batch" where
  "batch_Delete k b =
     (let b = batch_SetCount (batch_Count b + 1) b; b = b @ [ucast (type_value kTypeDeletion)]
      in PutLengthPrefixedSlice b k)"

definition batch_Append :: "write_batch \<Rightarrow> write_batch \<Rightarrow> write_batch" where
  "batch_Append dst src = batch_SetCount (batch_Count dst + batch_Count src) dst @ drop kHeader src"

text \<open>A handler is called with its state for each record.\<close>

record 'h batch_handler =
  on_Put :: "slice \<Rightarrow> slice \<Rightarrow> 'h \<Rightarrow> 'h"
  on_Delete :: "slice \<Rightarrow> 'h \<Rightarrow> 'h"

function iterate_loop :: "'h batch_handler \<Rightarrow> slice \<Rightarrow> u32 \<Rightarrow> 'h \<Rightarrow> status \<times> u32 \<times> 'h" where
  "iterate_loop h [] found st = (OK, found, st)"
| "iterate_loop h (tag # input) found st =
     (if tag = ucast (type_value kTypeValue) then
        (case GetLengthPrefixedSlice input of
           (Some k, input1) \<Rightarrow>
             (case GetLengthPrefixedSlice input1 of
                (Some value, input2) \<Rightarrow> iterate_loop h input2 (found + 1) (on_Put h k value st)
              | (None, _) \<Rightarrow> (Corruption ''bad WriteBatch Put'' [], found + 1, st))
         | (None, _) \<Rightarrow> (Corruption ''bad WriteBatch Put'' [], found + 1, st))
      else if tag = ucast (type_value kTypeDeletion) then
        (case GetLengthPrefixedSlice input of
           (Some k, input1) \<Rightarrow> iterate_loop h input1 (found + 1) (on_Delete h k st)
         | (None, _) \<Rightarrow> (Corruption ''bad WriteBatch Delete'' [], found + 1, st))
      else (Corruption ''unknown WriteBatch tag'' [], found + 1, st))"
  by pat_completeness auto
termination
  by (relation "measure (\<lambda>(h, input, found, st). length input)")
    (auto dest!: GetLengthPrefixedSlice_shorter [OF sym])

definition batch_Iterate :: "'h batch_handler \<Rightarrow> write_batch \<Rightarrow> 'h \<Rightarrow> status \<times> 'h" where
  "batch_Iterate h b st =
     (if length b < kHeader then (Corruption ''malformed WriteBatch (too small)'' [], st)
      else
        (case iterate_loop h (drop kHeader b) 0 st of (s, found, st) \<Rightarrow>
           if s \<noteq> OK then (s, st)
           else if found \<noteq> batch_Count b then (Corruption ''WriteBatch has wrong count'' [], st)
           else (OK, st)))"

text \<open>Inserting into a table; the state is the table and the sequence number, \<open>None\<close> if an insertion does not end.\<close>

definition MemTableInserter :: "(memtable \<times> u64) option batch_handler" where
  "MemTableInserter = \<lparr>
     on_Put = (\<lambda>k value st. case st of None \<Rightarrow> None
       | Some (mt, seq) \<Rightarrow> map_option (\<lambda>mt. (mt, seq + 1)) (mem_Add seq kTypeValue k value mt)),
     on_Delete = (\<lambda>k st. case st of None \<Rightarrow> None
       | Some (mt, seq) \<Rightarrow> map_option (\<lambda>mt. (mt, seq + 1)) (mem_Add seq kTypeDeletion k [] mt))\<rparr>"

definition InsertInto :: "write_batch \<Rightarrow> memtable \<Rightarrow> (status \<times> memtable) option" where
  "InsertInto b mt =
     (case batch_Iterate MemTableInserter b (Some (mt, batch_Sequence b)) of (s, st) \<Rightarrow>
        map_option (\<lambda>(mt, _). (s, mt)) st)"

section \<open>Batches as lists of operations\<close>

datatype batch_op = Batch_Put slice slice | Batch_Delete slice

fun op_key :: "batch_op \<Rightarrow> slice" where
  "op_key (Batch_Put k v) = k"
| "op_key (Batch_Delete k) = k"

fun op_apply :: "batch_op \<Rightarrow> write_batch \<Rightarrow> write_batch" where
  "op_apply (Batch_Put k v) b = batch_Put k v b"
| "op_apply (Batch_Delete k) b = batch_Delete k b"

definition batch_of :: "batch_op list \<Rightarrow> write_batch" where
  "batch_of ops = fold op_apply ops batch_Clear"

fun op_ok :: "batch_op \<Rightarrow> bool" where
  "op_ok (Batch_Put k v) \<longleftrightarrow> length k + 8 < 2 ^ 32 \<and> length v < 2 ^ 32"
| "op_ok (Batch_Delete k) \<longleftrightarrow> length k + 8 < 2 ^ 32"

fun op_bytes :: "batch_op \<Rightarrow> bytes" where
  "op_bytes (Batch_Put k v) = 1 # PutLengthPrefixedSlice (PutLengthPrefixedSlice [] k) v"
| "op_bytes (Batch_Delete k) = 0 # PutLengthPrefixedSlice [] k"

fun handle_op :: "'h batch_handler \<Rightarrow> batch_op \<Rightarrow> 'h \<Rightarrow> 'h" where
  "handle_op h (Batch_Put k v) st = on_Put h k v st"
| "handle_op h (Batch_Delete k) st = on_Delete h k st"

definition ops_bytes :: "batch_op list \<Rightarrow> bytes" where
  "ops_bytes ops = concat (map op_bytes ops)"

definition batch_rep :: "u64 \<Rightarrow> batch_op list \<Rightarrow> write_batch" where
  "batch_rep seq ops = EncodeFixed64 seq @ EncodeFixed32 (word_of_nat (length ops)) @ ops_bytes ops"

lemma batch_rep_fields [simp]:
  "batch_Count (batch_rep seq ops) = word_of_nat (length ops)" "batch_Sequence (batch_rep seq ops) = seq"
  "batch_SetCount n (batch_rep seq ops) = EncodeFixed64 seq @ EncodeFixed32 n @ ops_bytes ops"
  "batch_SetSequence s (batch_rep seq ops) = batch_rep s ops" "drop kHeader (batch_rep seq ops) = ops_bytes ops"
  by (simp_all add: batch_Count_def batch_Sequence_def batch_SetCount_def batch_SetSequence_def batch_rep_def kHeader_def)

lemma op_apply_rep: "op_apply p (batch_rep seq ops) = batch_rep seq (ops @ [p])"
  by (cases p)
    (simp_all add: batch_Put_def batch_Delete_def Let_def PutLengthPrefixedSlice_append [of "_ @ _"] type_value_def,
      simp_all add: batch_rep_def ops_bytes_def PutLengthPrefixedSlice_append [of "PutLengthPrefixedSlice _ _"] add.commute)

lemma batch_Clear_rep: "batch_Clear = batch_rep 0 []"
  by (simp add: batch_Clear_def batch_rep_def kHeader_def ops_bytes_def EncodeFixed64_def EncodeFixed32_def eval_nat_numeral)

lemma fold_ops_rep: "fold op_apply ops (batch_rep seq ops') = batch_rep seq (ops' @ ops)"
  by (induction ops arbitrary: ops') (simp_all add: op_apply_rep)

lemma batch_of_rep: "batch_of ops = batch_rep 0 ops"
  by (simp add: batch_of_def batch_Clear_rep fold_ops_rep)

lemma batch_Append_rep: "batch_Append (batch_rep seq ops) (batch_rep seq' ops') = batch_rep seq (ops @ ops')"
  by (simp add: batch_Append_def) (simp add: batch_rep_def ops_bytes_def)

lemma iterate_op:
  assumes "op_ok p"
  shows "iterate_loop h (op_bytes p @ r) found st = iterate_loop h r (found + 1) (handle_op h p st)"
proof (cases p)
  case (Batch_Put k v)
  with assms have "GetLengthPrefixedSlice (PutLengthPrefixedSlice [] k @ PutLengthPrefixedSlice [] v @ r) = (Some k, PutLengthPrefixedSlice [] v @ r)"
    "GetLengthPrefixedSlice (PutLengthPrefixedSlice [] v @ r) = (Some v, r)" by (simp_all add: GetLengthPrefixedSlice_Put)
  with Batch_Put show ?thesis
    by (simp add: type_value_def PutLengthPrefixedSlice_append [of "PutLengthPrefixedSlice _ _"])
next
  case (Batch_Delete k)
  with assms show ?thesis by (simp add: type_value_def GetLengthPrefixedSlice_Put)
qed

lemma iterate_ops:
  "list_all op_ok ops \<Longrightarrow> iterate_loop h (ops_bytes ops) found st = (OK, found + word_of_nat (length ops), fold (handle_op h) ops st)"
proof (induction ops arbitrary: found st)
  case (Cons p ops)
  have "ops_bytes (p # ops) = op_bytes p @ ops_bytes ops" by (simp add: ops_bytes_def)
  with Cons show ?case by (simp add: iterate_op)
qed (simp add: ops_bytes_def)

lemma Iterate_rep: "list_all op_ok ops \<Longrightarrow> batch_Iterate h (batch_rep seq ops) st = (OK, fold (handle_op h) ops st)"
proof -
  assume "list_all op_ok ops"
  from iterate_ops [OF this, of h 0 st] have "iterate_loop h (drop kHeader (batch_rep seq ops)) 0 st
      = (OK, word_of_nat (length ops), fold (handle_op h) ops st)" by simp
  moreover have "\<not> length (batch_rep seq ops) < kHeader" by (simp add: batch_rep_def kHeader_def)
  ultimately show ?thesis by (simp add: batch_Iterate_def)
qed

text \<open>The records of any string, up to the first malformed one; the handler has no part in it.\<close>

function batch_records :: "slice \<Rightarrow> status \<times> batch_op list" where
  "batch_records [] = (OK, [])"
| "batch_records (tag # input) =
     (if tag = 1 then
        (case GetLengthPrefixedSlice input of
           (Some k, input1) \<Rightarrow>
             (case GetLengthPrefixedSlice input1 of
                (Some value, input2) \<Rightarrow> map_prod id ((#) (Batch_Put k value)) (batch_records input2)
              | (None, _) \<Rightarrow> (Corruption ''bad WriteBatch Put'' [], []))
         | (None, _) \<Rightarrow> (Corruption ''bad WriteBatch Put'' [], []))
      else if tag = 0 then
        (case GetLengthPrefixedSlice input of
           (Some k, input1) \<Rightarrow> map_prod id ((#) (Batch_Delete k)) (batch_records input1)
         | (None, _) \<Rightarrow> (Corruption ''bad WriteBatch Delete'' [], []))
      else (Corruption ''unknown WriteBatch tag'' [], []))"
  by pat_completeness auto
termination
  by (relation "measure length") (auto dest!: GetLengthPrefixedSlice_shorter [OF sym])

lemma Corruption_not_OK [simp]: "Corruption m m' \<noteq> OK"
  by (simp add: Corruption_def Status_def OK_def)

lemma iterate_records:
  "iterate_loop h input found st =
    (fst (batch_records input),
     found + word_of_nat (length (snd (batch_records input))) + (if fst (batch_records input) = OK then 0 else 1),
     fold (handle_op h) (snd (batch_records input)) st)"
proof (induction input arbitrary: found st rule: batch_records.induct)
  case (2 tag input)
  consider (put) k input1 v input2 where "tag = 1" "GetLengthPrefixedSlice input = (Some k, input1)" "GetLengthPrefixedSlice input1 = (Some v, input2)"
    | (bad_value) k input1 input2 where "tag = 1" "GetLengthPrefixedSlice input = (Some k, input1)" "GetLengthPrefixedSlice input1 = (None, input2)"
    | (bad_key) input1 where "tag = 1 \<or> tag = 0" "GetLengthPrefixedSlice input = (None, input1)"
    | (delete) k input1 where "tag = 0" "GetLengthPrefixedSlice input = (Some k, input1)"
    | (other) "tag \<noteq> 0" "tag \<noteq> 1"
    by (metis option.exhaust surj_pair)
  then show ?case
  proof cases
    case put
    with 2(1) show ?thesis by (simp add: type_value_def add.assoc)
  next
    case delete
    with 2(2) show ?thesis by (simp add: type_value_def add.assoc)
  qed (auto simp: type_value_def)
qed simp

lemma Iterate_records:
  assumes "kHeader \<le> length b"
  shows "batch_Iterate h b st =
    (if fst (batch_records (drop kHeader b)) \<noteq> OK then fst (batch_records (drop kHeader b))
     else if word_of_nat (length (snd (batch_records (drop kHeader b)))) \<noteq> batch_Count b then Corruption ''WriteBatch has wrong count'' []
     else OK,
     fold (handle_op h) (snd (batch_records (drop kHeader b))) st)"
  using assms by (simp add: batch_Iterate_def iterate_records not_less)

section \<open>Inserting batches\<close>

text \<open>The entries of operations that get the sequence numbers from \<open>seq\<close> on.\<close>

fun op_entry :: "u64 \<Rightarrow> batch_op \<Rightarrow> entry" where
  "op_entry seq (Batch_Put k v) = \<lparr>user_key = k, seq_number = seq, value_type = kTypeValue, entry_value = v\<rparr>"
| "op_entry seq (Batch_Delete k) = \<lparr>user_key = k, seq_number = seq, value_type = kTypeDeletion, entry_value = []\<rparr>"

fun op_entries :: "u64 \<Rightarrow> batch_op list \<Rightarrow> entry list" where
  "op_entries seq [] = []"
| "op_entries seq (p # ops) = op_entry seq p # op_entries (seq + 1) ops"

lemma op_entry_fields [simp]: "seq_number (op_entry seq p) = seq" "user_key (op_entry seq p) = op_key p"
  by (cases p; simp)+

lemma op_entries_append: "op_entries seq (ops @ ops') = op_entries seq ops @ op_entries (seq + word_of_nat (length ops)) ops'"
  by (induction ops arbitrary: seq) (simp_all add: add.assoc add.commute)

lemma length_op_entries [simp]: "length (op_entries seq ops) = length ops"
  by (induction ops arbitrary: seq) simp_all

lemma nth_op_entries: "i < length ops \<Longrightarrow> op_entries seq ops ! i = op_entry (seq + word_of_nat i) (ops ! i)"
proof (induction ops arbitrary: seq i)
  case (Cons p ops)
  then show ?case by (cases i) (simp_all add: add.assoc)
qed simp

text \<open>The sequence numbers of so many operations do not run over the largest.\<close>

definition seq_room :: "u64 \<Rightarrow> nat \<Rightarrow> bool" where
  "seq_room seq n \<longleftrightarrow> unat seq + n \<le> 2 ^ 56"

lemma op_entry_ok: "op_ok p \<Longrightarrow> seq \<le> kMaxSequenceNumber \<Longrightarrow> entry_ok (op_entry seq p)"
  by (cases p) (simp_all add: entry_ok_def)

lemma handle_inserter:
  "handle_op MemTableInserter p (Some (mt, seq)) =
    map_option (\<lambda>mt. (mt, seq + 1)) (mem_Add (seq_number (op_entry seq p)) (value_type (op_entry seq p)) (user_key (op_entry seq p))
      (entry_value (op_entry seq p)) mt)"
  by (cases p) (simp_all add: MemTableInserter_def)

lemma insert_ops:
  assumes "mem_holds mt es" and "list_all op_ok ops" and "seq_room seq (length ops)"
    and "\<forall>e\<in>set es. unat (seq_number e) < unat seq"
  obtains mt' es' where "fold (handle_op MemTableInserter) ops (Some (mt, seq)) = Some (mt', seq + word_of_nat (length ops))"
    and "mem_holds mt' es'" and "set es' = set es \<union> set (op_entries seq ops)"
proof -
  have "\<exists>mt' es'. fold (handle_op MemTableInserter) ops (Some (mt, seq)) = Some (mt', seq + word_of_nat (length ops))
      \<and> mem_holds mt' es' \<and> set es' = set es \<union> set (op_entries seq ops)"
    using assms
  proof (induction ops arbitrary: mt es seq)
    case (Cons p ops)
    let ?e = "op_entry seq p"
    have room: "unat seq < 2 ^ 56" "unat (seq + 1) = unat seq + 1"
      using Cons.prems(3) by (simp_all add: seq_room_def unat_word_ariths)
    then have "entry_ok ?e" using Cons.prems(2) by (simp add: op_entry_ok kMaxSequenceNumber_nat)
    moreover have "\<forall>e\<in>set es. user_key e = user_key ?e \<longrightarrow> seq_number e \<noteq> seq_number ?e" using Cons.prems(4) by auto
    ultimately obtain mt1 as bs where
      a: "mem_Add (seq_number ?e) (value_type ?e) (user_key ?e) (entry_value ?e) mt = Some mt1" "es = as @ bs" "mem_holds mt1 (as @ ?e # bs)"
      by (rule mem_Add_holds [OF Cons.prems(1)])
    have "list_all op_ok ops" "seq_room (seq + 1) (length ops)" "\<forall>e\<in>set (as @ ?e # bs). unat (seq_number e) < unat (seq + 1)"
      using Cons.prems(2-4) room a(2) by (auto simp: seq_room_def less_Suc_eq)
    from Cons.IH [OF a(3) this] obtain mt' es' where
      b: "fold (handle_op MemTableInserter) ops (Some (mt1, seq + 1)) = Some (mt', seq + 1 + word_of_nat (length ops))"
        "mem_holds mt' es'" "set es' = set (as @ ?e # bs) \<union> set (op_entries (seq + 1) ops)" by blast
    have "fold (handle_op MemTableInserter) (p # ops) (Some (mt, seq)) = Some (mt', seq + word_of_nat (length (p # ops)))"
      using a(1) b(1) handle_inserter [of p mt seq] by (simp add: add.assoc)
    moreover have "set es' = set es \<union> set (op_entries seq (p # ops))" using b(3) a(2) by auto
    ultimately show ?case using b(2) by blast
  qed auto
  with that show thesis by blast
qed

lemma InsertInto_rep:
  assumes "mem_holds mt es" and "list_all op_ok ops" and "seq_room seq (length ops)"
    and "\<forall>e\<in>set es. unat (seq_number e) < unat seq"
  obtains mt' es' where "InsertInto (batch_rep seq ops) mt = Some (OK, mt')"
    and "mem_holds mt' es'" and "set es' = set es \<union> set (op_entries seq ops)"
proof -
  from insert_ops [OF assms] obtain mt' es' where
    f: "fold (handle_op MemTableInserter) ops (Some (mt, seq)) = Some (mt', seq + word_of_nat (length ops))"
    and m: "mem_holds mt' es'" "set es' = set es \<union> set (op_entries seq ops)" .
  have "InsertInto (batch_rep seq ops) mt = Some (OK, mt')"
    by (simp add: InsertInto_def Iterate_rep [OF assms(2)] f)
  with that m show thesis by blast
qed

section \<open>Properties\<close>

text \<open>
  C10: A batch gives back the operations put into it: a handler is called with those of the batch and then those of the
  batch appended to it, in their order, and the count is right.
\<close>

theorem batch_iterates:
  assumes "list_all op_ok ops" and "list_all op_ok ops'"
  shows "batch_Iterate h (batch_SetSequence seq (batch_Append (batch_of ops) (batch_of ops'))) st = (OK, fold (handle_op h) (ops @ ops') st)"
  using assms Iterate_rep [of "ops @ ops'" h seq st] by (simp add: batch_of_rep batch_Append_rep)

lemma batch_iterates_witness:
  "snd (batch_Iterate \<lparr>on_Put = (\<lambda>k v ks. k # ks), on_Delete = (\<lambda>k ks. k # ks)\<rparr>
     (batch_SetSequence 7 (batch_Append (batch_of [Batch_Put [1] [2], Batch_Delete [3]]) (batch_of [Batch_Delete [4]]))) []) = [[4], [3], [1]]"
  using batch_iterates [of "[Batch_Put [1] [2], Batch_Delete [3]]" "[Batch_Delete [4]]"
    "\<lparr>on_Put = (\<lambda>k v ks. k # ks), on_Delete = (\<lambda>k ks. k # ks)\<rparr>" 7 "[]"] by simp

end
