(* ===== verification/Ldb_Db.thy ===== *)
theory Ldb_Db
  imports Ldb_Log Ldb_Batch "HOL-Library.Sublist"
begin

text \<open>
  \<open>leveldb-library/db/db_impl.cc\<close>: writing, reading and recovering. The writer at the front of the queue
  joins the batches behind it to one, adds it to the log and inserts it into the table; a crash leaves
  the log, from which the table is built again. Writing a level-0 table, the files below and the operating
  system are parameters.
\<close>

section \<open>Writing\<close>

record db_writer =
  wr_batch :: "write_batch option"
  wr_sync :: bool

text \<open>\<open>tmp_batch_\<close> is empty whenever no write runs, so it is not part of the state.\<close>

record 'f db =
  db_mem :: memtable
  db_imm :: "memtable option"
  db_log :: "'f log_writer"
  db_last_sequence :: u64
  db_error :: status

definition RecordBackgroundError :: "status \<Rightarrow> 'f db \<Rightarrow> 'f db" where
  "RecordBackgroundError s db = (if ok (db_error db) then db\<lparr>db_error := s\<rparr> else db)"

text \<open>
  The writers behind the first: the batch so far, whether it is \<open>tmp_batch_\<close>, its size and the number of
  writers in the group.
\<close>

fun group_loop :: "bool \<Rightarrow> nat \<Rightarrow> write_batch \<Rightarrow> bool \<Rightarrow> nat \<Rightarrow> nat \<Rightarrow> db_writer list \<Rightarrow> write_batch \<times> nat" where
  "group_loop sync max_size result is_tmp sz n [] = (result, n)"
| "group_loop sync max_size result is_tmp sz n (w # ws) =
     (if wr_sync w \<and> \<not> sync then (result, n)
      else
        (case wr_batch w of None \<Rightarrow> group_loop sync max_size result is_tmp sz (Suc n) ws
         | Some b \<Rightarrow>
             let sz = sz + length b in
             if sz > max_size then (result, n)
             else
               let result = (if \<not> is_tmp then batch_Append batch_Clear result else result)
               in group_loop sync max_size (batch_Append result b) True sz (Suc n) ws))"

text \<open>The joined batch and the number of writers it is for; the first one has a batch.\<close>

definition BuildBatchGroup :: "db_writer list \<Rightarrow> write_batch \<times> nat" where
  "BuildBatchGroup writers =
     (case writers of [] \<Rightarrow> (batch_Clear, 0)
      | w # ws \<Rightarrow>
          let b = the (wr_batch w);
              sz = length b;
              max_size = (if sz \<le> push_bit 10 128 then sz + push_bit 10 128 else push_bit 20 1)
          in group_loop (wr_sync w) max_size b False sz 1 ws)"

text \<open>
  \<open>DBImpl::Write\<close> when its writer is at the front and there is room: what the lock is released for and
  what follows. \<open>sync\<close> is \<open>logfile_->Sync\<close>. The result is the status of the writers of the group and their number.
\<close>

definition write_group :: "'f file_ops \<Rightarrow> ('f \<Rightarrow> status \<times> 'f) \<Rightarrow> db_writer list \<Rightarrow> 'f db \<Rightarrow> (status \<times> nat \<times> 'f db) option" where
  "write_group ops sync writers db =
     (let (updates, n) = BuildBatchGroup writers;
          updates = batch_SetSequence (db_last_sequence db + 1) updates;
          last_sequence = db_last_sequence db + scast (batch_Count updates);
          (status, log) = AddRecord ops (db_log db) (batch_Contents updates);
          (status, sync_error, log) =
            (if ok status \<and> wr_sync (hd writers) then
               case sync (log_dest log) of (s, f) \<Rightarrow> (s, \<not> ok s, log\<lparr>log_dest := f\<rparr>)
             else (status, False, log))
      in case (if ok status then InsertInto updates (db_mem db) else Some (status, db_mem db)) of None \<Rightarrow> None
         | Some (status, mem) \<Rightarrow>
             let db = db\<lparr>db_mem := mem, db_log := log\<rparr>;
                 db = (if sync_error then RecordBackgroundError status db else db)
             in Some (status, n, db\<lparr>db_last_sequence := last_sequence\<rparr>))"

text \<open>
  The writer at the front of the queue, with the status \<open>room\<close> of \<open>MakeRoomForWrite\<close>: the status the
  writers taken off the queue return with, and those left.
\<close>

definition DB_Write :: "status \<Rightarrow> 'f file_ops \<Rightarrow> ('f \<Rightarrow> status \<times> 'f) \<Rightarrow> db_writer list \<Rightarrow> 'f db \<Rightarrow>
    (status \<times> db_writer list \<times> db_writer list \<times> 'f db) option" where
  "DB_Write room ops sync writers db =
     (case writers of [] \<Rightarrow> None
      | w # ws \<Rightarrow>
          if ok room \<and> wr_batch w \<noteq> None
          then map_option (\<lambda>(status, n, db). (status, take n writers, drop n writers, db)) (write_group ops sync writers db)
          else Some (room, [w], ws, db))"

text \<open>
  One round of \<open>MakeRoomForWrite\<close>. \<open>level0\<close> is the number of level-0 files, \<open>full\<close> whether the table uses more than
  \<open>write_buffer_size\<close>, \<open>new_log\<close> what opening the next log file returns.
\<close>

datatype room_result = Room status | Room_Delay | Room_Wait | Room_Switched

definition kL0_SlowdownWritesTrigger :: nat where
  "kL0_SlowdownWritesTrigger = 8"

definition kL0_StopWritesTrigger :: nat where
  "kL0_StopWritesTrigger = 12"

definition MakeRoom_round :: "nat \<Rightarrow> bool \<Rightarrow> status \<times> 'f \<Rightarrow> bool \<Rightarrow> bool \<Rightarrow> 'f db \<Rightarrow> room_result \<times> bool \<times> bool \<times> 'f db" where
  "MakeRoom_round level0 full new_log force allow_delay db =
     (if \<not> ok (db_error db) then (Room (db_error db), force, allow_delay, db)
      else if allow_delay \<and> level0 \<ge> kL0_SlowdownWritesTrigger then (Room_Delay, force, False, db)
      else if \<not> force \<and> \<not> full then (Room OK, force, allow_delay, db)
      else if db_imm db \<noteq> None then (Room_Wait, force, allow_delay, db)
      else if level0 \<ge> kL0_StopWritesTrigger then (Room_Wait, force, allow_delay, db)
      else
        (case new_log of (s, lfile) \<Rightarrow>
           if \<not> ok s then (Room s, force, allow_delay, db)
           else (Room_Switched, False, allow_delay,
             db\<lparr>db_log := log_Writer lfile 0, db_imm := Some (db_mem db),
               db_mem := mem_Ref (MemTable (mt_comparator (db_mem db)))\<rparr>)))"

text \<open>A new database as \<open>DB::Open\<close> makes it, with an empty log file.\<close>

definition new_db :: "'f \<Rightarrow> 'f db" where
  "new_db lfile = \<lparr>db_mem = mem_Ref (MemTable BytewiseComparator), db_imm = None, db_log = log_Writer lfile 0,
     db_last_sequence = 0, db_error = OK\<rparr>"

section \<open>Reading\<close>

text \<open>\<open>current\<close> is \<open>Version::Get\<close>, for the tables in files. The table that is read is referenced meanwhile.\<close>

definition DB_Get :: "(bytes \<times> nat \<Rightarrow> bytes \<Rightarrow> status \<times> bytes) \<Rightarrow> u64 option \<Rightarrow> slice \<Rightarrow> bytes \<Rightarrow> 'f db \<Rightarrow> (status \<times> bytes) option" where
  "DB_Get current snapshot k value db =
     (let seq = (case snapshot of Some s \<Rightarrow> s | None \<Rightarrow> db_last_sequence db);
          lkey = LookupKey k seq
      in case mem_Get lkey (db_mem db) value OK of None \<Rightarrow> None
         | Some (True, value, s) \<Rightarrow> Some (s, value)
         | Some (False, value, s) \<Rightarrow>
             (case db_imm db of None \<Rightarrow> Some (current lkey value)
              | Some imm \<Rightarrow>
                  (case mem_Get lkey imm value s of None \<Rightarrow> None
                   | Some (True, value, s) \<Rightarrow> Some (s, value)
                   | Some (False, value, s) \<Rightarrow> Some (current lkey value))))"

section \<open>Recovering\<close>

text \<open>
  The options and what lies below: \<open>mem_full\<close> whether a table has outgrown \<open>write_buffer_size\<close>,
  \<open>WriteLevel0Table\<close> the status of writing it to a file.
\<close>

record recover_env =
  paranoid_checks :: bool
  env_comparator :: comparator
  mem_full :: "memtable \<Rightarrow> bool"
  WriteLevel0Table :: "memtable \<Rightarrow> status"

definition MaybeIgnoreError :: "recover_env \<Rightarrow> status \<Rightarrow> status" where
  "MaybeIgnoreError e s = (if ok s \<or> paranoid_checks e then s else OK)"

text \<open>\<open>LogReporter::Corruption\<close> and what the reader reported to it while it read a record.\<close>

definition reporter_Corruption :: "recover_env \<Rightarrow> status \<Rightarrow> status \<Rightarrow> status" where
  "reporter_Corruption e s status = (if paranoid_checks e \<and> ok status then s else status)"

definition reported :: "recover_env \<Rightarrow> log_reader \<Rightarrow> log_reader \<Rightarrow> status \<Rightarrow> status" where
  "reported e r r' status =
     fold (reporter_Corruption e) (map snd (drop (length (reports r)) (reports r'))) status"

text \<open>The loop over the records; the result has the tables written to files.\<close>

partial_function (option) recover_loop ::
    "recover_env \<Rightarrow> log_reader \<Rightarrow> status \<Rightarrow> memtable option \<Rightarrow> u64 \<Rightarrow> memtable list \<Rightarrow>
      (status \<times> memtable option \<times> u64 \<times> memtable list) option" where
  "recover_loop e r status mem max_sequence tables =
     (let (record, r') = ReadRecord r; status = reported e r r' status in
      if record = None \<or> \<not> ok status then Some (status, mem, max_sequence, tables)
      else
        let record = the record in
        if length record < 12 then
          recover_loop e r' (reporter_Corruption e (Corruption ''log record too small'' []) status) mem max_sequence tables
        else
          let batch = batch_SetContents record;
              mem = (case mem of None \<Rightarrow> mem_Ref (MemTable (env_comparator e)) | Some mem \<Rightarrow> mem)
          in Option.bind (InsertInto batch mem) (\<lambda>(status, mem).
               let status = MaybeIgnoreError e status in
               if \<not> ok status then Some (status, Some mem, max_sequence, tables)
               else
                 let last_seq = batch_Sequence batch + scast (batch_Count batch) - 1;
                     max_sequence = (if last_seq > max_sequence then last_seq else max_sequence)
                 in if mem_full e mem then
                      let status = WriteLevel0Table e mem in
                      if \<not> ok status then Some (status, None, max_sequence, tables @ [mem])
                      else recover_loop e r' status None max_sequence (tables @ [mem])
                    else recover_loop e r' status (Some mem) max_sequence tables))"

text \<open>
  \<open>file\<close> is what opening the log returns, \<open>reuse\<close> whether it is the last one, \<open>reuse_logs\<close> is set and it can be
  opened again. The result is the status, the table that becomes \<open>mem_\<close>, the largest sequence number and
  the tables written to files.
\<close>

definition RecoverLogFile :: "recover_env \<Rightarrow> status \<times> seq_file \<Rightarrow> bool \<Rightarrow> u64 \<Rightarrow>
    (status \<times> memtable option \<times> u64 \<times> memtable list) option" where
  "RecoverLogFile e file reuse max_sequence =
     (case file of (status, f) \<Rightarrow>
        if \<not> ok status then Some (MaybeIgnoreError e status, None, max_sequence, [])
        else
          map_option (\<lambda>(status, mem, max_sequence, tables).
            if ok status \<and> reuse \<and> tables = [] then
              (status, Some (case mem of Some mem \<Rightarrow> mem | None \<Rightarrow> mem_Ref (MemTable (env_comparator e))), max_sequence, tables)
            else
              (case mem of None \<Rightarrow> (status, None, max_sequence, tables)
               | Some mem \<Rightarrow>
                   if ok status then (WriteLevel0Table e mem, None, max_sequence, tables @ [mem])
                   else (status, None, max_sequence, tables)))
            (recover_loop e (log_Reader f True True 0) OK None max_sequence []))"

section \<open>Groups\<close>

text \<open>A queue as the operations of the batches, and what the writers taken off it write.\<close>

definition writer_of :: "batch_op list option \<times> bool \<Rightarrow> db_writer" where
  "writer_of q = \<lparr>wr_batch = map_option batch_of (fst q), wr_sync = snd q\<rparr>"

lemma writer_of_fields [simp]: "wr_batch (writer_of q) = map_option batch_of (fst q)" "wr_sync (writer_of q) = snd q"
  by (simp_all add: writer_of_def)

definition queue_ops :: "(batch_op list option \<times> bool) list \<Rightarrow> batch_op list" where
  "queue_ops qs = concat (map (\<lambda>q. case fst q of None \<Rightarrow> [] | Some ops \<Rightarrow> ops) qs)"

lemma queue_ops_simps [simp]:
  "queue_ops [] = []" "queue_ops (q # qs) = (case fst q of None \<Rightarrow> [] | Some ops \<Rightarrow> ops) @ queue_ops qs"
  "queue_ops (qs @ qs') = queue_ops qs @ queue_ops qs'"
  by (simp_all add: queue_ops_def)

lemma group_loop_ops:
  "group_loop sync max_size (batch_rep seq ops) is_tmp sz n (map writer_of qs) = (b, m) \<Longrightarrow>
    \<exists>k seq'. k \<le> length qs \<and> m = n + k \<and> b = batch_rep seq' (ops @ queue_ops (take k qs))
      \<and> (sync \<or> list_all (\<lambda>q. \<not> snd q) (take k qs))"
proof (induction qs arbitrary: seq ops is_tmp sz n)
  case (Cons q qs)
  show ?case
  proof (cases "snd q \<and> \<not> sync \<or> (\<exists>ops. fst q = Some ops \<and> sz + length (batch_of ops) > max_size)")
    case True
    then have "b = batch_rep seq ops \<and> m = n" using Cons.prems by (auto simp: Let_def split: if_splits)
    then have "(0 :: nat) \<le> length (q # qs) \<and> m = n + 0 \<and> b = batch_rep seq (ops @ queue_ops (take 0 (q # qs)))
        \<and> (sync \<or> list_all (\<lambda>q. \<not> snd q) (take 0 (q # qs)))" by simp
    then show ?thesis by blast
  next
    case False
    obtain seq1 is_tmp1 sz1 where
      "group_loop sync max_size (batch_rep seq1 (ops @ queue_ops [q])) is_tmp1 sz1 (Suc n) (map writer_of qs) = (b, m)"
    proof (cases "fst q")
      case None
      with False Cons.prems that [of seq is_tmp sz] show thesis by (simp split: if_splits)
    next
      case (Some ops')
      have "batch_Append (if \<not> is_tmp then batch_Append batch_Clear (batch_rep seq ops) else batch_rep seq ops) (batch_of ops')
          = batch_rep (if is_tmp then seq else 0) (ops @ ops')"
        by (simp add: batch_Clear_rep batch_of_rep batch_Append_rep)
      with False Some Cons.prems that [of "if is_tmp then seq else 0" True "sz + length (batch_of ops')"]
      show thesis by (simp add: Let_def split: if_splits)
    qed
    from Cons.IH [OF this] obtain k seq' where
      "k \<le> length qs" "m = Suc n + k" "b = batch_rep seq' ((ops @ queue_ops [q]) @ queue_ops (take k qs))"
      "sync \<or> list_all (\<lambda>q. \<not> snd q) (take k qs)" by blast
    moreover have "sync \<or> \<not> snd q" using False by blast
    ultimately show ?thesis by (intro exI [of _ "Suc k"] exI [of _ seq']) auto
  qed
qed (auto intro: exI [of _ 0])

lemma BuildBatchGroup_ops:
  assumes "BuildBatchGroup (map writer_of ((Some ops, sync) # qs)) = (b, m)"
  shows "1 \<le> m \<and> m \<le> Suc (length qs) \<and> batch_SetSequence s b = batch_rep s (queue_ops (take m ((Some ops, sync) # qs)))
    \<and> (sync \<or> list_all (\<lambda>q. \<not> snd q) (take m ((Some ops, sync) # qs)))"
proof -
  let ?sz = "length (batch_rep 0 ops)"
  have "group_loop sync (if ?sz \<le> push_bit 10 128 then ?sz + push_bit 10 128 else push_bit 20 1)
      (batch_rep 0 ops) False ?sz 1 (map writer_of qs) = (b, m)"
    using assms by (simp add: BuildBatchGroup_def batch_of_rep Let_def)
  from group_loop_ops [OF this] obtain k seq' where k: "k \<le> length qs" "m = 1 + k"
    "b = batch_rep seq' (ops @ queue_ops (take k qs))" "sync \<or> list_all (\<lambda>q. \<not> snd q) (take k qs)" by blast
  then show ?thesis by auto
qed

section \<open>What a table says of operations\<close>

text \<open>The last operation on a key, and what a lookup returns for it.\<close>

definition last_op :: "slice \<Rightarrow> batch_op list \<Rightarrow> batch_op option" where
  "last_op u ops = List.find (\<lambda>p. op_key p = u) (rev ops)"

definition op_result :: "bytes \<Rightarrow> status \<Rightarrow> batch_op option \<Rightarrow> bool \<times> bytes \<times> status" where
  "op_result value s p =
     (case p of None \<Rightarrow> (False, value, s)
      | Some (Batch_Put k v) \<Rightarrow> (True, v, s)
      | Some (Batch_Delete k) \<Rightarrow> (True, value, NotFound [] []))"

text \<open>Those of the operations from \<open>seq\<close> on that a snapshot sees.\<close>

definition visible :: "u64 \<Rightarrow> u64 \<Rightarrow> batch_op list \<Rightarrow> batch_op list" where
  "visible seq s ops = take (Suc (unat s) - unat seq) ops"

lemma last_op_SomeD:
  "last_op u ops = Some p \<Longrightarrow> \<exists>i<length ops. p = ops ! i \<and> op_key p = u \<and> (\<forall>j<length ops. i < j \<longrightarrow> op_key (ops ! j) \<noteq> u)"
proof (induction ops rule: rev_induct)
  case (snoc q ops)
  show ?case
  proof (cases "op_key q = u")
    case True
    with snoc.prems have "p = q" by (simp add: last_op_def)
    with True show ?thesis by (intro exI [of _ "length ops"]) simp
  next
    case False
    with snoc.prems have "last_op u ops = Some p" by (simp add: last_op_def)
    from snoc.IH [OF this] obtain i where
      i: "i < length ops" "p = ops ! i" "op_key p = u" "\<forall>j<length ops. i < j \<longrightarrow> op_key (ops ! j) \<noteq> u" by blast
    then have "\<forall>j<length (ops @ [q]). i < j \<longrightarrow> op_key ((ops @ [q]) ! j) \<noteq> u"
      using False by (simp add: nth_append less_Suc_eq)
    with i show ?thesis by (intro exI [of _ i]) (simp add: nth_append)
  qed
qed (simp add: last_op_def)

lemma last_op_None: "last_op u ops = None \<longleftrightarrow> (\<forall>p\<in>set ops. op_key p \<noteq> u)"
  by (auto simp: last_op_def find_None_iff)

lemma op_entries_seq:
  assumes "seq_room seq (length ops)" and "i < length ops"
  shows "unat (seq_number (op_entries seq ops ! i)) = unat seq + i"
proof -
  have "unat (word_of_nat i :: u64) = i" using assms by (intro unat_small) (simp add: seq_room_def)
  with assms show ?thesis by (simp add: nth_op_entries unat_word_ariths seq_room_def)
qed

lemma table_of_ops:
  assumes m: "mem_holds mt es" and es: "set es = set (op_entries seq ops)" and room: "seq_room seq (length ops)"
    and u: "length u + 8 < 2 ^ 32" and s: "s \<le> kMaxSequenceNumber"
  shows "mem_Get (LookupKey u s) mt value st = Some (op_result value st (last_op u (visible seq s ops)))"
proof -
  let ?n = "Suc (unat s) - unat seq"
  have nth: "seq_number (op_entries seq ops ! i) \<le> s \<longleftrightarrow> i < ?n" if "i < length ops" for i
    using op_entries_seq [OF room that] by (auto simp: word_le_nat_alt)
  have mem: "e \<in> set es \<longleftrightarrow> (\<exists>i<length ops. e = op_entry (seq + word_of_nat i) (ops ! i))" for e
    by (auto simp: es in_set_conv_nth nth_op_entries)
  show ?thesis
  proof (cases "last_op u (visible seq s ops)")
    case None
    have "s < seq_number e" if e: "e \<in> set es" "user_key e = u" for e
    proof -
      from e(1) obtain i where i: "i < length ops" "e = op_entry (seq + word_of_nat i) (ops ! i)" by (auto simp: mem)
      have "\<not> i < ?n"
      proof
        assume "i < ?n"
        then have "ops ! i \<in> set (visible seq s ops)" using i(1) by (auto simp: visible_def in_set_conv_nth)
        with None e(2) i(2) show False by (auto simp: last_op_None)
      qed
      with nth [OF i(1)] i show ?thesis by (simp add: nth_op_entries not_le)
    qed
    from mem_Get_none [OF m u s this] None show ?thesis by (simp add: op_result_def)
  next
    case (Some p)
    then obtain i where i: "i < length (visible seq s ops)" "p = visible seq s ops ! i" "op_key p = u"
      "\<forall>j<length (visible seq s ops). i < j \<longrightarrow> op_key (visible seq s ops ! j) \<noteq> u" using last_op_SomeD by blast
    then have i': "i < length ops" "i < ?n" "p = ops ! i" by (auto simp: visible_def)
    let ?e = "op_entry (seq + word_of_nat i) p"
    have "mem_Get (LookupKey u s) mt value st = Some (get_result value st ?e)"
    proof (rule mem_Get_newest [OF m u s])
      show "?e \<in> set es" "user_key ?e = u" using i i' by (auto simp: mem)
      show "seq_number ?e \<le> s" using nth [OF i'(1)] i' by (simp add: nth_op_entries)
      fix e'
      assume e': "e' \<in> set es" "user_key e' = u" "seq_number e' \<le> s"
      then obtain j where j: "j < length ops" "e' = op_entry (seq + word_of_nat j) (ops ! j)" by (auto simp: mem)
      with e'(3) nth [OF j(1)] have jn: "j < ?n" by (simp add: nth_op_entries)
      have "\<not> i < j" using i(4) j jn e'(2) by (auto simp: visible_def)
      then consider "j = i" | "j < i" by linarith
      then show "e' = ?e \<or> seq_number e' < seq_number ?e"
      proof cases
        case 2
        with op_entries_seq [OF room j(1)] op_entries_seq [OF room i'(1)] j i' show ?thesis
          by (simp add: nth_op_entries word_less_nat_alt)
      qed (use j i' in simp)
    qed
    with Some show ?thesis by (cases p) (simp_all add: op_result_def get_result_def)
  qed
qed

section \<open>Running the queue\<close>

text \<open>
  The writers of a queue, until one of them fails: how many return with success. Between the writes there
  is room.
\<close>

partial_function (option) DB_run ::
    "'f file_ops \<Rightarrow> ('f \<Rightarrow> status \<times> 'f) \<Rightarrow> db_writer list \<Rightarrow> 'f db \<Rightarrow> (nat \<times> 'f db) option" where
  "DB_run ops sync writers db =
     (if writers = [] then Some (0, db)
      else Option.bind (DB_Write OK ops sync writers db) (\<lambda>(status, group, rest, db).
        if ok status then Option.bind (DB_run ops sync rest db) (\<lambda>(n, db). Some (length group + n, db))
        else Some (0, db)))"

text \<open>The records that groups of operations make in the log.\<close>

fun group_records :: "u64 \<Rightarrow> batch_op list list \<Rightarrow> bytes list" where
  "group_records seq [] = []"
| "group_records seq (g # gs) = batch_rep seq g # group_records (seq + word_of_nat (length g)) gs"

lemma length_group_records [simp]: "length (group_records seq gs) = length gs"
  by (induction gs arbitrary: seq) simp_all

lemma take_group_records: "take k (group_records seq gs) = group_records seq (take k gs)"
proof (induction gs arbitrary: seq k)
  case (Cons g gs)
  then show ?case by (cases k) simp_all
qed simp

text \<open>A table with the operations so far and the next sequence number.\<close>

definition db_holds :: "u64 \<Rightarrow> batch_op list \<Rightarrow> 'f db \<Rightarrow> bool" where
  "db_holds seq ops db \<longleftrightarrow> db_last_sequence db + 1 = seq + word_of_nat (length ops)
     \<and> (\<exists>es. mem_holds (db_mem db) es \<and> set es = set (op_entries seq ops))"

text \<open>The log is whole up to its end, as between two writes.\<close>

definition log_at :: "('f \<Rightarrow> bytes) \<Rightarrow> ('f \<Rightarrow> bytes) \<Rightarrow> 'f log_writer \<Rightarrow> nat \<Rightarrow> bool" where
  "log_at accepted durable w off \<longleftrightarrow> durable (log_dest w) = accepted (log_dest w) \<and> type_crc w = InitTypeCrc
     \<and> block_offset w = off \<and> off \<le> kBlockSize"

lemma scast_count: "n < 2 ^ 31 \<Longrightarrow> (scast (word_of_nat n :: u32) :: u64) = word_of_nat n"
proof -
  assume n: "n < 2 ^ 31"
  then have "sint (word_of_nat n :: u32) = int n" by (simp add: signed_of_nat signed_take_bit_int_eq_self)
  then show ?thesis by (simp add: scast_eq)
qed

lemma op_entries_before:
  assumes "seq_room seq (length ops + n)" and "e \<in> set (op_entries seq ops)"
  shows "unat (seq_number e) < unat (seq + word_of_nat (length ops))"
proof -
  from assms(2) obtain i where "i < length ops" "e = op_entries seq ops ! i" by (auto simp: in_set_conv_nth)
  moreover have "seq_room seq (length ops)" using assms(1) by (simp add: seq_room_def)
  moreover have "unat (word_of_nat (length ops) :: u64) = length ops" using assms(1) by (intro unat_small) (simp add: seq_room_def)
  ultimately show ?thesis using op_entries_seq [of seq ops i] assms(1) by (simp add: unat_word_ariths seq_room_def)
qed

text \<open>Inserting the operations of a group behind those in the table.\<close>

lemma insert_group:
  assumes m: "mem_holds mt es" and es: "set es = set (op_entries seq ops)" and g: "list_all op_ok g"
    and room: "seq_room seq (length ops + length g)"
  obtains mt' es' where "InsertInto (batch_rep (seq + word_of_nat (length ops)) g) mt = Some (OK, mt')"
    and "mem_holds mt' es'" and "set es' = set (op_entries seq (ops @ g))"
proof -
  have "seq_room (seq + word_of_nat (length ops)) (length g)"
  proof -
    have "unat (word_of_nat (length ops) :: u64) = length ops" using room by (intro unat_small) (simp add: seq_room_def)
    then show ?thesis using room by (simp add: seq_room_def unat_word_ariths)
  qed
  moreover have "\<forall>e\<in>set es. unat (seq_number e) < unat (seq + word_of_nat (length ops))"
    using op_entries_before [OF room] es by blast
  ultimately obtain mt' es' where "InsertInto (batch_rep (seq + word_of_nat (length ops)) g) mt = Some (OK, mt')"
    "mem_holds mt' es'" "set es' = set es \<union> set (op_entries (seq + word_of_nat (length ops)) g)"
    by (rule InsertInto_rep [OF m g])
  with that es show thesis by (simp add: op_entries_append)
qed

locale synced_file = writable_file +
  fixes sync :: "'a \<Rightarrow> status \<times> 'a"
  assumes sync_ok: "sync f = (s, f') \<Longrightarrow> ok s \<Longrightarrow> accepted f' = accepted f \<and> durable f' = accepted f"
    and sync_error: "sync f = (s, f') \<Longrightarrow> \<not> ok s \<Longrightarrow> begins (durable f') (accepted f)"
    and sync_grows: "sync f = (s, f') \<Longrightarrow> begins (durable f) (durable f')"
begin

text \<open>One group: what the log gets, of its record, and what the table.\<close>

lemma write_group_spec:
  fixes db :: "'a db"
  assumes holds: "db_holds seq done db" and q: "q = (Some first, snc) # qs" and room: "seq_room seq (length done + length (queue_ops q))"
    and small: "length (queue_ops q) < 2 ^ 31" and ok_ops: "list_all op_ok (queue_ops q)"
    and log: "log_at accepted durable (db_log db) off"
  obtains status m db' g r where "write_group ops sync (map writer_of q) db = Some (status, m, db')"
    and "1 \<le> m" "m \<le> length q" and "g = queue_ops (take m q)" and "r = batch_rep (seq + word_of_nat (length done)) g"
    and "db_imm db' = db_imm db"
    and "ok status \<longrightarrow> db_holds seq (done @ g) db'
        \<and> accepted (log_dest (db_log db')) = accepted (log_dest (db_log db)) @ log_bytes off (fragments off True r)
        \<and> log_at accepted durable (db_log db') (log_end off (fragments off True r))"
    and "\<not> ok status \<longrightarrow> db_mem db' = db_mem db
        \<and> begins (durable (log_dest (db_log db))) (durable (log_dest (db_log db')))
        \<and> begins (durable (log_dest (db_log db'))) (accepted (log_dest (db_log db)) @ log_bytes off (fragments off True r))"
proof -
  obtain b m where b: "BuildBatchGroup (map writer_of q) = (b, m)" by fastforce
  define seq' where "seq' = seq + word_of_nat (length done)"
  define g r where "g = queue_ops (take m q)" and "r = batch_rep seq' g"
  have last: "db_last_sequence db + 1 = seq'" using holds by (simp add: db_holds_def seq'_def)
  from BuildBatchGroup_ops [OF b [unfolded q], of seq'] have m: "1 \<le> m" "m \<le> length q" and r: "batch_SetSequence seq' b = r"
    by (simp_all add: q r_def g_def)
  have "queue_ops q = g @ queue_ops (drop m q)" by (simp add: g_def queue_ops_simps(3) [symmetric])
  then have g: "length g \<le> length (queue_ops q)" "list_all op_ok g" using ok_ops by simp_all
  have count: "scast (batch_Count r) = (word_of_nat (length g) :: u64)"
    using g(1) small by (simp add: r_def scast_count)
  from holds obtain es where es: "mem_holds (db_mem db) es" "set es = set (op_entries seq done)" by (auto simp: db_holds_def)
  have "seq_room seq (length done + length g)" using room g(1) by (simp add: seq_room_def)
  from insert_group [OF es g(2) this] obtain mt' es' where
    ins: "InsertInto r (db_mem db) = Some (OK, mt')" "mem_holds mt' es'" "set es' = set (op_entries seq (done @ g))"
    unfolding r_def seq'_def by blast
  obtain s1 w1 where add: "AddRecord ops (db_log db) r = (s1, w1)" by fastforce
  note A = AddRecord_loop_spec [OF add [unfolded AddRecord_def]] 
  have W: "durable (log_dest (db_log db)) = accepted (log_dest (db_log db))" "type_crc (db_log db) = InitTypeCrc"
    "block_offset (db_log db) = off" "off \<le> kBlockSize" using log by (simp_all add: log_at_def)
  note A = A [OF W]
  define sy where "sy \<longleftrightarrow> ok s1 \<and> snc"
  obtain s2 f2 where sync: "sync (log_dest w1) = (s2, f2)" by fastforce
  define st where "st = (if sy then s2 else s1)"
  define w2 where "w2 = (if sy then w1\<lparr>log_dest := f2\<rparr> else w1)"
  define db' where "db' = (let db = db\<lparr>db_mem := (if ok st then mt' else db_mem db), db_log := w2\<rparr>;
      db = (if sy \<and> \<not> ok s2 then RecordBackgroundError st db else db) in db\<lparr>db_last_sequence := db_last_sequence db + word_of_nat (length g)\<rparr>)"
  have fields: "db_mem db' = (if ok st then mt' else db_mem db)" "db_log db' = w2" "db_imm db' = db_imm db"
    "db_last_sequence db' = db_last_sequence db + word_of_nat (length g)"
    by (simp_all add: db'_def Let_def RecordBackgroundError_def)
  have run: "write_group ops sync (map writer_of q) db = Some (st, m, db')"
    using b r add sync count ins(1) last
    by (auto simp: write_group_def Let_def batch_Contents_def q sy_def st_def w2_def db'_def RecordBackgroundError_def ok_iff)
  have good: "db_holds seq (done @ g) db'
      \<and> accepted (log_dest (db_log db')) = accepted (log_dest (db_log db)) @ log_bytes off (fragments off True r)
      \<and> log_at accepted durable (db_log db') (log_end off (fragments off True r))" if "ok st"
  proof -
    have s1: "ok s1" using that by (auto simp: st_def sy_def split: if_splits)
    have "accepted (log_dest w2) = accepted (log_dest w1) \<and> durable (log_dest w2) = accepted (log_dest w1)
        \<and> type_crc w2 = type_crc w1 \<and> block_offset w2 = block_offset w1"
      using sync_ok [OF sync] that A s1 by (auto simp: w2_def st_def)
    moreover have "db_last_sequence db' + 1 = seq + word_of_nat (length (done @ g))"
      using last by (simp add: fields(4) seq'_def algebra_simps)
    ultimately show ?thesis using A s1 ins that by (auto simp: db_holds_def log_at_def fields)
  qed
  have bad: "db_mem db' = db_mem db \<and> begins (durable (log_dest (db_log db))) (durable (log_dest (db_log db')))
        \<and> begins (durable (log_dest (db_log db'))) (accepted (log_dest (db_log db)) @ log_bytes off (fragments off True r))"
    if "\<not> ok st"
  proof (cases "ok s1")
    case True
    with that have "sy" "\<not> ok s2" by (auto simp: st_def sy_def split: if_splits)
    with sync_error [OF sync] sync_grows [OF sync] A True that show ?thesis
      by (auto simp: fields w2_def intro: begins_trans)
  next
    case False
    then have "\<not> sy" by (simp add: sy_def)
    with A False that show ?thesis by (simp add: fields w2_def)
  qed
  from that [OF run m g_def r_def [unfolded seq'_def] fields(3)] good bad show thesis by blast
qed

text \<open>
  A whole queue: the groups \<open>gs\<close> were acknowledged, of \<open>tail\<close>, one group at most, a part may have come to
  the log.
\<close>

lemma DB_run_spec:
  fixes db :: "'a db"
  assumes "db_holds seq done db" and "seq_room seq (length done + length (queue_ops q))" and "length (queue_ops q) < 2 ^ 31"
    and "list_all op_ok (queue_ops q)" and "log_at accepted durable (db_log db) off"
  shows "\<exists>n db' gs tail n'. DB_run ops sync (map writer_of q) db = Some (n, db') \<and> db_imm db' = db_imm db
    \<and> (\<exists>es. mem_holds (db_mem db') es \<and> set es = set (op_entries seq (done @ queue_ops (take n q))))
    \<and> n \<le> n' \<and> n' \<le> length q \<and> length tail \<le> 1
    \<and> concat gs = queue_ops (take n q) \<and> concat (gs @ tail) = queue_ops (take n' q)
    \<and> begins (accepted (log_dest (db_log db)) @ log_stream off (group_records (seq + word_of_nat (length done)) gs)) (durable (log_dest (db_log db')))
    \<and> begins (durable (log_dest (db_log db'))) (accepted (log_dest (db_log db)) @ log_stream off (group_records (seq + word_of_nat (length done)) (gs @ tail)))"
    (is "\<exists>n db' gs tail n'. ?R q db done off n db' gs tail n'")
  using assms
proof (induction q arbitrary: db "done" off rule: length_induct)
  case (1 q)
  note IH = 1(1) [rule_format] and prems = 1(2-)
  from prems(1) have table: "\<exists>es. mem_holds (db_mem db) es \<and> set es = set (op_entries seq done)" by (auto simp: db_holds_def)
  have same: "durable (log_dest (db_log db)) = accepted (log_dest (db_log db))" using prems(5) by (simp add: log_at_def)
  show ?case
  proof (cases q)
    case Nil
    then have "DB_run ops sync (map writer_of q) db = Some (0, db)" by (subst DB_run.simps) simp
    then have "?R q db done off 0 db [] [] 0" using table same Nil by simp
    then show ?thesis by blast
  next
    case (Cons q1 qs)
    show ?thesis
    proof (cases "fst q1")
      case None
      have l: "length qs < length q" and same_ops: "queue_ops qs = queue_ops q" using Cons None by simp_all
      from IH [OF l prems [folded same_ops]] obtain n db' gs tail n' where r: "?R qs db done off n db' gs tail n'" by blast
      have "DB_Write OK ops sync (map writer_of q) db = Some (OK, [writer_of q1], map writer_of qs, db)"
        using Cons None by (simp add: DB_Write_def)
      then have "DB_run ops sync (map writer_of q) db = Some (Suc n, db')"
        using r Cons by (subst DB_run.simps) simp
      moreover have "queue_ops (take (Suc m) q) = queue_ops (take m qs)" for m using Cons None by simp
      ultimately have "?R q db done off (Suc n) db' gs tail (Suc n')" using r Cons by auto
      then show ?thesis by blast
    next
      case (Some first)
      with Cons have q: "q = (Some first, snd q1) # qs" by (cases q1) simp
      from write_group_spec [OF prems(1) q prems(2-5)] obtain status m db1 g r where
        w: "write_group ops sync (map writer_of q) db = Some (status, m, db1)" "1 \<le> m" "m \<le> length q" "g = queue_ops (take m q)"
          "r = batch_rep (seq + word_of_nat (length done)) g" "db_imm db1 = db_imm db"
        and good: "ok status \<longrightarrow> db_holds seq (done @ g) db1
          \<and> accepted (log_dest (db_log db1)) = accepted (log_dest (db_log db)) @ log_bytes off (fragments off True r)
          \<and> log_at accepted durable (db_log db1) (log_end off (fragments off True r))"
        and bad: "\<not> ok status \<longrightarrow> db_mem db1 = db_mem db
          \<and> begins (durable (log_dest (db_log db))) (durable (log_dest (db_log db1)))
          \<and> begins (durable (log_dest (db_log db1))) (accepted (log_dest (db_log db)) @ log_bytes off (fragments off True r))" .
      have dw: "DB_Write OK ops sync (map writer_of q) db = Some (status, take m (map writer_of q), map writer_of (drop m q), db1)"
      proof -
        obtain ws where ws: "map writer_of q = writer_of (Some first, snd q1) # ws" by (simp add: q)
        then have "DB_Write OK ops sync (map writer_of q) db = map_option
            (\<lambda>(status, n, db). (status, take n (map writer_of q), drop n (map writer_of q), db)) (write_group ops sync (map writer_of q) db)"
          unfolding DB_Write_def by simp
        then show ?thesis by (simp add: w(1) drop_map)
      qed
      have split: "queue_ops q = g @ queue_ops (drop m q)" by (simp add: w(4) queue_ops_simps(3) [symmetric])
      show ?thesis
      proof (cases "ok status")
        case True
        note good = good [rule_format, OF True]
        have "length (drop m q) < length q" using w(2,3) by simp
        moreover have "seq_room seq (length (done @ g) + length (queue_ops (drop m q)))" "length (queue_ops (drop m q)) < 2 ^ 31"
          "list_all op_ok (queue_ops (drop m q))" using prems(2-4) split by (simp_all add: add.assoc)
        ultimately obtain n db' gs tail n' where
          rest: "?R (drop m q) db1 (done @ g) (log_end off (fragments off True r)) n db' gs tail n'"
          using IH [of "drop m q" "done @ g" db1 "log_end off (fragments off True r)"] good by blast
        have "DB_run ops sync (map writer_of q) db = Some (m + n, db')"
          using dw True rest q w(3) by (subst DB_run.simps) simp
        moreover have take_q: "take (m + k) q = take m q @ take k (drop m q)" for k by (simp add: take_add)
        moreover have "seq + word_of_nat (length (done @ g)) = seq + word_of_nat (length done) + word_of_nat (length g)" by simp
        ultimately have "?R q db done off (m + n) db' (g # gs) tail (m + n')"
          using rest good w(3,5,6) w(4) [symmetric] by (elim conjE) (simp add: add.assoc)
        then show ?thesis by blast
      next
        case False
        note bad = bad [rule_format, OF False]
        have "DB_run ops sync (map writer_of q) db = Some (0, db1)"
          using dw False q by (subst DB_run.simps) simp
        then have "?R q db done off 0 db1 [] [g] m" using bad table same w(3-6) by simp
        then show ?thesis by blast
      qed
    qed
  qed
qed

end

section \<open>The posix file\<close>

interpretation posix_synced: synced_file posix_ops posix_accepted on_disk "posix_Sync dir fd" for dir fd
proof
  fix f s f'
  assume a: "posix_Sync dir fd f = (s, f')"
  obtain t g where b: "FlushBuffer f = (t, g)" by fastforce
  then have e: "Flush posix_ops f = (t, g)" by (simp add: posix_ops_def posix_Flush_def)
  show "ok s \<Longrightarrow> posix_accepted f' = posix_accepted f \<and> on_disk f' = posix_accepted f"
    using a b posix_file.flush_ok [OF e] by (auto simp: posix_Sync_def split: if_splits)
  show "\<not> ok s \<Longrightarrow> begins (on_disk f') (posix_accepted f)"
    using a b posix_file.flush_ok [OF e] posix_file.flush_error [OF e] posix_file.behind [of f]
    by (cases "ok t") (auto simp: posix_Sync_def split: if_splits)
  show "begins (on_disk f) (on_disk f')"
    using a b posix_file.flush_grows [OF e] by (auto simp: posix_Sync_def split: if_splits)
qed

section \<open>What recovery reads\<close>

text \<open>A reader only adds to its reports.\<close>

lemma ReportDrop_grows [simp]:
  "prefix rs (reports r) \<Longrightarrow> prefix rs (reports (ReportDrop n s r))"
  "prefix rs (reports r) \<Longrightarrow> prefix rs (reports (ReportCorruption n m r))"
  by (simp_all add: ReportCorruption_def ReportDrop_def)

lemma ReportDrop_shrinks:
  "prefix (reports (ReportDrop n s r)) z \<Longrightarrow> prefix (reports r) z"
  "prefix (reports (ReportCorruption n m r)) z \<Longrightarrow> prefix (reports r) z"
  by (auto simp: ReportCorruption_def ReportDrop_def split: if_splits dest: append_prefixD)

lemma refill_grows: "refill r = (t, r') \<Longrightarrow> prefix (reports r) (reports r')"
  by (auto simp: refill_def Let_def split: if_splits prod.splits)

lemma parse_physical_grows: "parse_physical x r = (t, y, r') \<Longrightarrow> prefix (reports r) (reports r')"
  by (auto simp: parse_physical_def Let_def split: if_splits)

lemma ReadPhysicalRecord_grows: "ReadPhysicalRecord x r = (t, y, r') \<Longrightarrow> prefix (reports r) (reports r')"
proof (induction x r rule: ReadPhysicalRecord.induct)
  case (1 x r)
  obtain o1 r1 where f: "refill r = (o1, r1)" by fastforce
  show ?case
    using 1(1) [OF _ f [symmetric]] 1(2) refill_grows [OF f] f
    by (subst (asm) (2) ReadPhysicalRecord.simps)
      (auto split: if_splits option.splits intro: prefix_order.trans parse_physical_grows)
qed

lemma SkipToInitialBlock_grows: "SkipToInitialBlock r = (b, r') \<Longrightarrow> prefix (reports r) (reports r')"
  by (auto simp: SkipToInitialBlock_def Let_def split: if_splits prod.splits)

lemma ReadRecord_loop_grows:
  "ReadRecord_loop fragment scratch frag pro r = (res, r') \<Longrightarrow> prefix (reports r) (reports r')"
proof (induction fragment scratch frag pro r arbitrary: res r' rule: ReadRecord_loop.induct)
  case (1 fragment scratch frag pro r)
  obtain t y r1 where p: "ReadPhysicalRecord fragment r = (t, y, r1)" by (metis prod.exhaust)
  note g = ReadPhysicalRecord_grows [OF p]
  have "prefix (reports r1) (reports r')"
  proof -
    note ih = "1.IH" [OF p [symmetric] refl refl]
    note run = "1.prems" [unfolded ReadRecord_loop.simps [of fragment] p prod.case Let_def]
    let ?r = "r1\<lparr>resyncing := False\<rparr>"
    have r: "reports ?r = reports r1" by simp
    consider (skip) "resyncing r1 \<and> t = kMiddleType" | (skip_last) "resyncing r1 \<and> t = kLastType"
      | (go) "\<not> (resyncing r1 \<and> t = kMiddleType)" "\<not> (resyncing r1 \<and> t = kLastType)" by blast
    then show ?thesis
    proof cases
      case skip
      with run have "ReadRecord_loop y scratch frag pro r1 = (res, r')" by simp
      from ih(1) [OF skip this] show ?thesis .
    next
      case skip_last
      then have n: "\<not> (resyncing r1 \<and> t = kMiddleType)" by (simp add: type_defs)
      with run skip_last have "ReadRecord_loop y scratch frag pro ?r = (res, r')" by simp
      from ih(2) [OF n skip_last this] show ?thesis by simp
    next
      case go
      note run = run [unfolded if_not_P [OF go(1)] if_not_P [OF go(2)]]
      note ih = ih(3-) [OF go refl]
      show ?thesis
      proof (cases "t = kFullType")
        case True
        with run show ?thesis by (auto split: if_splits)
      next
        case full: False
        note run = run [unfolded if_not_P [OF full]] and ih = ih [OF full]
        show ?thesis
        proof (cases "t = kFirstType")
          case True
          from ih(1) [OF True refl run [unfolded if_P [OF True]]] show ?thesis
            by (auto dest: ReportDrop_shrinks split: if_splits)
        next
          case first: False
          note run = run [unfolded if_not_P [OF first]] and ih = ih(2-) [OF first]
          show ?thesis
          proof (cases "t = kMiddleType")
            case True
            note run = run [unfolded if_P [OF True]]
            from ih(1) [OF True] ih(2) [OF True] run show ?thesis
              by (cases frag) (auto dest: ReportDrop_shrinks)
          next
            case middle: False
            note run = run [unfolded if_not_P [OF middle]] and ih = ih(3-) [OF middle]
            show ?thesis
            proof (cases "t = kLastType")
              case True
              note run = run [unfolded if_P [OF True]]
              from ih(1) [OF True] run show ?thesis by (cases frag) (auto dest: ReportDrop_shrinks)
            next
              case last: False
              note run = run [unfolded if_not_P [OF last]] and ih = ih(2-) [OF last]
              show ?thesis
              proof (cases "t = kEof")
                case True
                with run show ?thesis by auto
              next
                case eof: False
                note run = run [unfolded if_not_P [OF eof]] and ih = ih [OF eof]
                show ?thesis
                proof (cases "t = kBadRecord")
                  case True
                  note run = run [unfolded if_P [OF True]]
                  from ih(1) [OF True] ih(2) [OF True] run show ?thesis
                    by (cases frag) (auto dest: ReportDrop_shrinks)
                next
                  case bad: False
                  from ih(3) [OF bad run [unfolded if_not_P [OF bad]]] show ?thesis
                    by (auto dest: ReportDrop_shrinks)
                qed
              qed
            qed
          qed
        qed
      qed
    qed
  qed
  with g show ?case by (rule prefix_order.trans)
qed

lemma ReadRecord_grows: "ReadRecord r = (res, r') \<Longrightarrow> prefix (reports r) (reports r')"
  by (auto simp: ReadRecord_def split: if_splits prod.splits
      dest: ReadRecord_loop_grows SkipToInitialBlock_grows intro: prefix_order.trans)

lemma log_reads_grows: "log_reads r xs r' \<Longrightarrow> prefix (reports r) (reports r')"
  by (induction rule: log_reads.induct) (auto dest: ReadRecord_grows intro: prefix_order.trans)

text \<open>The table while a log is read, of the operations so far.\<close>

definition recovered :: "u64 \<Rightarrow> batch_op list \<Rightarrow> memtable option \<Rightarrow> bool" where
  "recovered seq done mem \<longleftrightarrow>
     (case mem of None \<Rightarrow> done = []
      | Some mt \<Rightarrow> \<exists>es. mem_holds mt es \<and> set es = set (op_entries seq done))"

lemma MemTable_Ref_holds: "mem_holds (mem_Ref mt) es \<longleftrightarrow> mem_holds mt es"
  by (simp add: mem_holds_def mem_Ref_def)

text \<open>The largest sequence number after groups of operations.\<close>

definition max_after :: "u64 \<Rightarrow> u64 \<Rightarrow> nat \<Rightarrow> u64" where
  "max_after maxs seq n = max maxs (seq + word_of_nat n - 1)"

lemma recover_loop_groups:
  assumes "log_reads r xs r'" and "reports r' = reports r" and "env_comparator e = BytewiseComparator" and "\<And>mt. \<not> mem_full e mt"
  shows "xs = group_records (seq + word_of_nat (length done)) gs \<Longrightarrow> recovered seq done mem \<Longrightarrow>
    list_all op_ok (concat gs) \<Longrightarrow> seq_room seq (length (done @ concat gs)) \<Longrightarrow> length (concat gs) < 2 ^ 31 \<Longrightarrow> 1 \<le> unat seq \<Longrightarrow>
    \<exists>mem' maxs'. recover_loop e r OK mem maxs tables = Some (OK, mem', maxs', tables) \<and> recovered seq (done @ concat gs) mem'
      \<and> maxs' = (if gs = [] then maxs else max_after maxs seq (length (done @ concat gs)))"
  using assms
proof (induction r xs r' arbitrary: "done" gs mem maxs rule: log_reads.induct)
  case (log_done r r')
  have "reported e r r' OK = OK" using log_done.prems(7) by (simp add: reported_def)
  with log_done show ?case by (subst recover_loop.simps) (cases gs; simp)
next
  case (log_more r x r1 xs r')
  from ReadRecord_grows [OF log_more.hyps(1)] log_reads_grows [OF log_more.hyps(2)] log_more.prems(7)
  have same: "reports r1 = reports r" by (metis prefix_order.antisym)
  then have rep: "reported e r r1 OK = OK" by (simp add: reported_def)
  from log_more.prems(1) obtain g gs' where gs: "gs = g # gs'" and x: "x = batch_rep (seq + word_of_nat (length done)) g"
    and xs: "xs = group_records (seq + word_of_nat (length (done @ g))) gs'" by (cases gs) (simp_all add: add.assoc)
  define mt where "mt = (case mem of None \<Rightarrow> mem_Ref (MemTable BytewiseComparator) | Some mem \<Rightarrow> mem)"
  obtain es where es: "mem_holds mt es" "set es = set (op_entries seq done)"
    using log_more.prems(2) new_mem_holds by (auto simp: recovered_def mt_def MemTable_Ref_holds split: option.splits)
  have "list_all op_ok g" "seq_room seq (length done + length g)"
    using log_more.prems(3,4) by (simp_all add: gs seq_room_def)
  from insert_group [OF es this] obtain mt' es' where
    ins: "InsertInto x mt = Some (OK, mt')" "mem_holds mt' es'" "set es' = set (op_entries seq (done @ g))" unfolding x by blast
  have len: "\<not> length x < 12" by (simp add: x batch_rep_def)
  have g: "length g < 2 ^ 31" using log_more.prems(5) by (simp add: gs)
  have lseq: "batch_Sequence x + scast (batch_Count x) - 1 = seq + word_of_nat (length (done @ g)) - 1"
    using g by (simp add: x scast_count add.assoc)
  define maxs1 where "maxs1 = max_after maxs seq (length (done @ g))"
  have maxs1: "maxs1 = (let l = seq + word_of_nat (length (done @ g)) - 1 in if l > maxs then l else maxs)"
    by (auto simp: maxs1_def max_after_def max_def Let_def)
  have step: "recover_loop e r OK mem maxs tables = recover_loop e r1 OK (Some mt') maxs1 tables"
  proof -
    have "InsertInto x (case mem of None \<Rightarrow> mem_Ref (MemTable (env_comparator e)) | Some mem \<Rightarrow> mem) = Some (OK, mt')"
      using ins(1) unfolding mt_def log_more.prems(8) .
    with log_more.hyps(1) rep len log_more.prems(9) lseq show ?thesis
      by (subst recover_loop.simps) (simp add: batch_SetContents_def MaybeIgnoreError_def maxs1 Let_def)
  qed
  have rec: "recovered seq (done @ g) (Some mt')" using ins(2,3) by (auto simp: recovered_def)
  have rest: "list_all op_ok (concat gs')" "seq_room seq (length ((done @ g) @ concat gs'))" "length (concat gs') < 2 ^ 31"
    using log_more.prems(3-5) by (simp_all add: gs)
  have "reports r' = reports r1" using log_more.prems(7) same by simp
  from log_more.IH [OF xs rec rest log_more.prems(6) this log_more.prems(8,9)] obtain mem' maxs' where
    r: "recover_loop e r1 OK (Some mt') maxs1 tables = Some (OK, mem', maxs', tables)" "recovered seq ((done @ g) @ concat gs') mem'"
      "maxs' = (if gs' = [] then maxs1 else max_after maxs1 seq (length ((done @ g) @ concat gs')))"
    by blast
  have "max_after maxs1 seq (length ((done @ g) @ concat gs')) = max_after maxs seq (length (done @ concat gs))"
  proof -
    have un: "unat (seq + word_of_nat n - 1) = unat seq + n - 1" if "n \<le> length (done @ concat gs)" for n
    proof -
      have "unat (word_of_nat n :: u64) = n" using that log_more.prems(4) by (intro unat_small) (simp add: seq_room_def)
      then have "unat (seq + word_of_nat n) = unat seq + n" using that log_more.prems(4) by (simp add: unat_word_ariths seq_room_def)
      moreover from this have "1 \<le> seq + word_of_nat n" using log_more.prems(6) by (simp add: word_le_nat_alt)
      ultimately show ?thesis by (simp add: unat_sub)
    qed
    have "seq + word_of_nat (length (done @ g)) - 1 \<le> seq + word_of_nat (length (done @ concat gs)) - 1"
      using un [of "length (done @ g)"] un [of "length (done @ concat gs)"] by (simp add: word_le_nat_alt gs)
    then show ?thesis by (simp add: maxs1_def max_after_def gs max.assoc)
  qed
  then have "maxs' = max_after maxs seq (length (done @ concat gs))" using r(3) by (auto simp: gs maxs1_def)
  with r step show ?case by (simp add: gs)
qed

section \<open>Properties\<close>

definition empty_file :: "string \<Rightarrow> sys_result list \<Rightarrow> posix_file" where
  "empty_file name sys = \<lparr>filename = name, buf = [], on_disk = [], script = sys\<rparr>"

lemma run_new_db:
  assumes "list_all op_ok (queue_ops q)" and "length (queue_ops q) < 2 ^ 31"
  obtains n db' gs tail n' where "DB_run posix_ops (posix_Sync dir fd) (map writer_of q) (new_db (empty_file name sys)) = Some (n, db')"
    and "db_imm db' = None" and "\<exists>es. mem_holds (db_mem db') es \<and> set es = set (op_entries 1 (queue_ops (take n q)))"
    and "n \<le> n'" "n' \<le> length q" "length tail \<le> 1" "concat gs = queue_ops (take n q)" "concat (gs @ tail) = queue_ops (take n' q)"
    and "begins (log_stream 0 (group_records 1 gs)) (on_disk (log_dest (db_log db')))"
    and "begins (on_disk (log_dest (db_log db'))) (log_stream 0 (group_records 1 (gs @ tail)))"
proof -
  let ?db = "new_db (empty_file name sys)"
  have h: "db_holds 1 [] ?db" using new_mem_holds by (auto simp: db_holds_def new_db_def MemTable_Ref_holds)
  have l: "log_at posix_accepted on_disk (db_log ?db) 0" and a: "posix_accepted (log_dest (db_log ?db)) = []"
    using new_writer [OF refl, of name sys] by (simp_all add: log_at_def new_db_def empty_file_def)
  have room: "seq_room 1 (length ([] :: batch_op list) + length (queue_ops q))" using assms(2) by (simp add: seq_room_def)
  from posix_synced.DB_run_spec [OF h room assms(2,1) l, of dir fd, unfolded a] obtain n db' gs tail n' where
    "DB_run posix_ops (posix_Sync dir fd) (map writer_of q) ?db = Some (n, db')" "db_imm db' = db_imm ?db"
    "\<exists>es. mem_holds (db_mem db') es \<and> set es = set (op_entries 1 ([] @ queue_ops (take n q)))"
    "n \<le> n'" "n' \<le> length q" "length tail \<le> 1" "concat gs = queue_ops (take n q)" "concat (gs @ tail) = queue_ops (take n' q)"
    "begins ([] @ log_stream 0 (group_records (1 + word_of_nat (length ([] :: batch_op list))) gs)) (on_disk (log_dest (db_log db')))"
    "begins (on_disk (log_dest (db_log db'))) ([] @ log_stream 0 (group_records (1 + word_of_nat (length ([] :: batch_op list))) (gs @ tail)))"
    by blast
  with that show thesis by (simp add: new_db_def)
qed

text \<open>
  C2: A new database, under any behaviour of the operating system: writers queue up with batches of
  operations, in groups as the leader joins them, until a write is not acknowledged. A read at a snapshot
  then gives what the last operation on the key wrote, among as many of the acknowledged ones, in the
  order of the queue, as the snapshot has sequence numbers, and goes to the files below only if there is none.
\<close>

theorem snapshot_read:
  assumes "list_all op_ok (queue_ops q)" and "length (queue_ops q) < 2 ^ 31"
    and "length u + 8 < 2 ^ 32" and "s \<le> kMaxSequenceNumber"
  shows "\<exists>n db. DB_run posix_ops (posix_Sync dir fd) (map writer_of q) (new_db (empty_file name sys)) = Some (n, db)
    \<and> n \<le> length q
    \<and> DB_Get current (Some s) u value db = Some (
        case last_op u (visible 1 s (queue_ops (take n q))) of
          None \<Rightarrow> current (LookupKey u s) value
        | Some (Batch_Put k v) \<Rightarrow> (OK, v)
        | Some (Batch_Delete k) \<Rightarrow> (NotFound [] [], value))"
proof -
  from run_new_db [OF assms(1,2), of dir fd name sys] obtain n db n' where
    r: "DB_run posix_ops (posix_Sync dir fd) (map writer_of q) (new_db (empty_file name sys)) = Some (n, db)" "n \<le> n'" "n' \<le> length q"
    and i: "db_imm db = None" and m: "\<exists>es. mem_holds (db_mem db) es \<and> set es = set (op_entries 1 (queue_ops (take n q)))"
    by metis
  from m obtain es where es: "mem_holds (db_mem db) es" "set es = set (op_entries 1 (queue_ops (take n q)))" by blast
  have "length (queue_ops q) = length (queue_ops (take n q)) + length (queue_ops (drop n q))"
    by (simp only: length_append [symmetric] queue_ops_simps(3) [symmetric] append_take_drop_id)
  then have "seq_room 1 (length (queue_ops (take n q)))" using assms(2) by (simp add: seq_room_def)
  from table_of_ops [OF es this assms(3,4)] have
    "mem_Get (LookupKey u s) (db_mem db) value OK = Some (op_result value OK (last_op u (visible 1 s (queue_ops (take n q)))))" .
  then have "DB_Get current (Some s) u value db = Some (
        case last_op u (visible 1 s (queue_ops (take n q))) of
          None \<Rightarrow> current (LookupKey u s) value
        | Some (Batch_Put k v) \<Rightarrow> (OK, v)
        | Some (Batch_Delete k) \<Rightarrow> (NotFound [] [], value))"
    using i by (simp add: DB_Get_def op_result_def split: option.splits batch_op.splits)
  with r show ?thesis by (metis order.trans)
qed

lemma snapshot_read_witness:
  "\<exists>n db. DB_run posix_ops (posix_Sync OK (\<lambda>_. OK)) (map writer_of [(Some [Batch_Put [97] [1], Batch_Delete [98]], True), (None, False)])
      (new_db (empty_file ''000003.log'' [Moved 3, Errno 28 ''No space left on device''])) = Some (n, db) \<and> n \<le> 2"
  using snapshot_read [of "[(Some [Batch_Put [97] [1], Batch_Delete [98]], True), (None, False)]" "[97]" 1 OK "\<lambda>_. OK" "''000003.log''"
    "[Moved 3, Errno 28 ''No space left on device'']" "\<lambda>_ v. (OK, v)" "[]"]
  by (auto simp: kMaxSequenceNumber_def)



text \<open>
  C9: The group a leader forms: the first writers of the queue, itself at least, with their operations in
  the order of the queue and the sequence number set in front; none of them asks for a sync unless the
  leader does.
\<close>

theorem group_commit:
  "case BuildBatchGroup (map writer_of ((Some ops, sync) # qs)) of (b, n) \<Rightarrow>
     1 \<le> n \<and> n \<le> Suc (length qs)
     \<and> batch_SetSequence s b = batch_SetSequence s (batch_of (queue_ops (take n ((Some ops, sync) # qs))))
     \<and> (sync \<or> list_all (\<lambda>q. \<not> snd q) (take n ((Some ops, sync) # qs)))"
proof -
  obtain b n where b: "BuildBatchGroup (map writer_of ((Some ops, sync) # qs)) = (b, n)" by fastforce
  from BuildBatchGroup_ops [OF b, of s] b show ?thesis by (simp only: prod.case batch_of_rep batch_rep_fields(4) simp_thms)
qed

text \<open>
  When a full table is switched for an empty one, no read changes: what the new table does not say the old one does.
\<close>

theorem switch_keeps_reads:
  assumes "MakeRoom_round level0 full new_log force allow db = (Room_Switched, f, a, db')"
    and "mem_holds (db_mem db) es" and "length u + 8 < 2 ^ 32" and "s \<le> kMaxSequenceNumber"
  shows "DB_Get current (Some s) u value db' = DB_Get current (Some s) u value db \<and> db_imm db' = Some (db_mem db) \<and> db_imm db = None"
proof -
  from assms(1) have i: "db_imm db = None" and db': "db_imm db' = Some (db_mem db)"
    "db_mem db' = mem_Ref (MemTable (mt_comparator (db_mem db)))"
    by (auto simp: MakeRoom_round_def split: if_splits prod.splits)
  have "mt_comparator (db_mem db) = BytewiseComparator" using assms(2) by (simp add: mem_holds_def)
  then have "mem_holds (db_mem db') []" using new_mem_holds db' by (simp add: MemTable_Ref_holds)
  from mem_Get_none [OF this assms(3,4)] have "mem_Get (LookupKey u s) (db_mem db') value OK = Some (False, value, OK)" by simp
  with i db' show ?thesis by (simp add: DB_Get_def Let_def split: option.split bool.split)
qed

lemma switch_keeps_reads_witness:
  "\<exists>db'. MakeRoom_round 0 True (OK, 7 :: nat) False True (new_db 3) = (Room_Switched, False, True, db')
     \<and> DB_Get (\<lambda>_ v. (OK, v)) (Some 5) [97] [] db' = DB_Get (\<lambda>_ v. (OK, v)) (Some 5) [97] [] (new_db (3 :: nat))"
proof -
  obtain db' where r: "MakeRoom_round 0 True (OK, 7 :: nat) False True (new_db 3) = (Room_Switched, False, True, db')"
    by (simp add: MakeRoom_round_def new_db_def kL0_SlowdownWritesTrigger_def kL0_StopWritesTrigger_def)
  have "mem_holds (db_mem (new_db (3 :: nat))) []" using new_mem_holds by (simp add: new_db_def MemTable_Ref_holds)
  from switch_keeps_reads [OF r this, of "[97]" 5] r show ?thesis by (simp add: kMaxSequenceNumber_def)
qed

end
