(* ===== verification/Ldb_VersionEdit.thy ===== *)
theory Ldb_VersionEdit
  imports Ldb_Coding Ldb_Env
begin

text \<open>
  \<open>leveldb-library/db/version_edit.cc\<close>: a change to the set of table files, as a record of the MANIFEST
  log. Its fields come one behind the other, each behind a tag. An internal key is its bytes.
\<close>

section \<open>Version edits\<close>

record FileMetaData =
  file_refs :: int
  allowed_seeks :: int
  file_number :: u64
  file_size :: u64
  smallest :: slice
  largest :: slice

record version_edit =
  ve_comparator :: slice
  log_number :: u64
  prev_log_number :: u64
  next_file_number :: u64
  last_sequence :: u64
  has_comparator :: bool
  has_log_number :: bool
  has_prev_log_number :: bool
  has_next_file_number :: bool
  has_last_sequence :: bool
  compact_pointers :: "(nat \<times> slice) list"
  deleted_files :: "(nat \<times> u64) list"
  new_files :: "(nat \<times> FileMetaData) list"

definition kNumLevels :: nat where
  "kNumLevels = 7"

datatype edit_tag = kComparator | kLogNumber | kNextFileNumber | kLastSequence | kCompactPointer | kDeletedFile | kNewFile | kPrevLogNumber

definition tag_number :: "edit_tag \<Rightarrow> u32" where
  "tag_number t = (case t of kComparator \<Rightarrow> 1 | kLogNumber \<Rightarrow> 2 | kNextFileNumber \<Rightarrow> 3 | kLastSequence \<Rightarrow> 4
     | kCompactPointer \<Rightarrow> 5 | kDeletedFile \<Rightarrow> 6 | kNewFile \<Rightarrow> 7 | kPrevLogNumber \<Rightarrow> 9)"

text \<open>It does not clear the compaction pointers.\<close>

definition edit_Clear :: "version_edit \<Rightarrow> version_edit" where
  "edit_Clear e = e\<lparr>ve_comparator := [], log_number := 0, prev_log_number := 0, last_sequence := 0, next_file_number := 0,
     has_comparator := False, has_log_number := False, has_prev_log_number := False, has_next_file_number := False,
     has_last_sequence := False, deleted_files := [], new_files := []\<rparr>"

definition VersionEdit :: version_edit where
  "VersionEdit = edit_Clear \<lparr>ve_comparator = [], log_number = 0, prev_log_number = 0, next_file_number = 0, last_sequence = 0,
     has_comparator = False, has_log_number = False, has_prev_log_number = False, has_next_file_number = False,
     has_last_sequence = False, compact_pointers = [], deleted_files = [], new_files = []\<rparr>"

definition SetComparatorName :: "slice \<Rightarrow> version_edit \<Rightarrow> version_edit" where
  "SetComparatorName name e = e\<lparr>has_comparator := True, ve_comparator := name\<rparr>"

definition SetLogNumber :: "u64 \<Rightarrow> version_edit \<Rightarrow> version_edit" where
  "SetLogNumber num e = e\<lparr>has_log_number := True, log_number := num\<rparr>"

definition SetPrevLogNumber :: "u64 \<Rightarrow> version_edit \<Rightarrow> version_edit" where
  "SetPrevLogNumber num e = e\<lparr>has_prev_log_number := True, prev_log_number := num\<rparr>"

definition SetNextFile :: "u64 \<Rightarrow> version_edit \<Rightarrow> version_edit" where
  "SetNextFile num e = e\<lparr>has_next_file_number := True, next_file_number := num\<rparr>"

definition SetLastSequence :: "u64 \<Rightarrow> version_edit \<Rightarrow> version_edit" where
  "SetLastSequence s e = e\<lparr>has_last_sequence := True, last_sequence := s\<rparr>"

definition SetCompactPointer :: "nat \<Rightarrow> slice \<Rightarrow> version_edit \<Rightarrow> version_edit" where
  "SetCompactPointer level k e = e\<lparr>compact_pointers := compact_pointers e @ [(level, k)]\<rparr>"

definition new_file :: "u64 \<Rightarrow> u64 \<Rightarrow> slice \<Rightarrow> slice \<Rightarrow> FileMetaData" where
  "new_file number sz small large =
     \<lparr>file_refs = 0, allowed_seeks = 2 ^ 30, file_number = number, file_size = sz, smallest = small, largest = large\<rparr>"

definition AddFile :: "nat \<Rightarrow> u64 \<Rightarrow> u64 \<Rightarrow> slice \<Rightarrow> slice \<Rightarrow> version_edit \<Rightarrow> version_edit" where
  "AddFile level number sz small large e = e\<lparr>new_files := new_files e @ [(level, new_file number sz small large)]\<rparr>"

text \<open>The deleted files are a \<open>std::set\<close>, here the list of its elements in their order.\<close>

fun deleted_insert :: "nat \<times> u64 \<Rightarrow> (nat \<times> u64) list \<Rightarrow> (nat \<times> u64) list" where
  "deleted_insert x [] = [x]"
| "deleted_insert x (y # ys) =
     (if fst x < fst y \<or> (fst x = fst y \<and> snd x < snd y) then x # y # ys
      else if x = y then y # ys
      else y # deleted_insert x ys)"

definition DeleteFile :: "nat \<Rightarrow> u64 \<Rightarrow> version_edit \<Rightarrow> version_edit" where
  "DeleteFile level number e = e\<lparr>deleted_files := deleted_insert (level, number) (deleted_files e)\<rparr>"

section \<open>Encoding\<close>

definition PutTag :: "bytes \<Rightarrow> edit_tag \<Rightarrow> bytes" where
  "PutTag dst t = PutVarint32 dst (tag_number t)"

definition EncodeTo :: "bytes \<Rightarrow> version_edit \<Rightarrow> bytes" where
  "EncodeTo dst e =
     (let dst = (if has_comparator e then PutLengthPrefixedSlice (PutTag dst kComparator) (ve_comparator e) else dst);
          dst = (if has_log_number e then PutVarint64 (PutTag dst kLogNumber) (log_number e) else dst);
          dst = (if has_prev_log_number e then PutVarint64 (PutTag dst kPrevLogNumber) (prev_log_number e) else dst);
          dst = (if has_next_file_number e then PutVarint64 (PutTag dst kNextFileNumber) (next_file_number e) else dst);
          dst = (if has_last_sequence e then PutVarint64 (PutTag dst kLastSequence) (last_sequence e) else dst);
          dst = fold (\<lambda>(level, k) dst.
            PutLengthPrefixedSlice (PutVarint32 (PutTag dst kCompactPointer) (word_of_nat level)) k) (compact_pointers e) dst;
          dst = fold (\<lambda>(level, number) dst.
            PutVarint64 (PutVarint32 (PutTag dst kDeletedFile) (word_of_nat level)) number) (deleted_files e) dst
      in fold (\<lambda>(level, f) dst.
            PutLengthPrefixedSlice (PutLengthPrefixedSlice (PutVarint64 (PutVarint64
              (PutVarint32 (PutTag dst kNewFile) (word_of_nat level)) (file_number f)) (file_size f)) (smallest f)) (largest f))
           (new_files e) dst)"

section \<open>Decoding\<close>

definition GetInternalKey :: "slice reader" where
  "GetInternalKey = GetLengthPrefixedSlice"

definition GetLevel :: "nat reader" where
  "GetLevel = rbind GetVarint32 (\<lambda>v. if unat v < kNumLevels then rret (unat v) else rfail)"

text \<open>What a tag adds to an edit; the failure of the reader is the message of the branch.\<close>

definition decode_field :: "u32 \<Rightarrow> version_edit \<Rightarrow> string \<times> version_edit reader" where
  "decode_field tag e =
     (if tag = tag_number kComparator then
        (''comparator name'', rbind GetLengthPrefixedSlice (\<lambda>str. rret (e\<lparr>ve_comparator := str, has_comparator := True\<rparr>)))
      else if tag = tag_number kLogNumber then
        (''log number'', rbind GetVarint64 (\<lambda>n. rret (e\<lparr>log_number := n, has_log_number := True\<rparr>)))
      else if tag = tag_number kPrevLogNumber then
        (''previous log number'', rbind GetVarint64 (\<lambda>n. rret (e\<lparr>prev_log_number := n, has_prev_log_number := True\<rparr>)))
      else if tag = tag_number kNextFileNumber then
        (''next file number'', rbind GetVarint64 (\<lambda>n. rret (e\<lparr>next_file_number := n, has_next_file_number := True\<rparr>)))
      else if tag = tag_number kLastSequence then
        (''last sequence number'', rbind GetVarint64 (\<lambda>n. rret (e\<lparr>last_sequence := n, has_last_sequence := True\<rparr>)))
      else if tag = tag_number kCompactPointer then
        (''compaction pointer'', rbind GetLevel (\<lambda>level. rbind GetInternalKey (\<lambda>k.
           rret (e\<lparr>compact_pointers := compact_pointers e @ [(level, k)]\<rparr>))))
      else if tag = tag_number kDeletedFile then
        (''deleted file'', rbind GetLevel (\<lambda>level. rbind GetVarint64 (\<lambda>number.
           rret (e\<lparr>deleted_files := deleted_insert (level, number) (deleted_files e)\<rparr>))))
      else if tag = tag_number kNewFile then
        (''new-file entry'', rbind GetLevel (\<lambda>level. rbind GetVarint64 (\<lambda>number. rbind GetVarint64 (\<lambda>sz.
           rbind GetInternalKey (\<lambda>small. rbind GetInternalKey (\<lambda>large.
             rret (e\<lparr>new_files := new_files e @ [(level, new_file number sz small large)]\<rparr>)))))))
      else (''unknown tag'', rfail))"

lemma decode_field_shorter: "snd (decode_field tag e) c = (Some e', r) \<Longrightarrow> length r \<le> length c"
proof -
  have g: "\<And>c v r. GetLengthPrefixedSlice c = (Some v, r) \<Longrightarrow> length r \<le> length c"
    "\<And>c v r. GetInternalKey c = (Some v, r) \<Longrightarrow> length r \<le> length c"
    "\<And>c v r. GetVarint64 c = (Some v, r) \<Longrightarrow> length r \<le> length c"
    "\<And>c v r. GetVarint32 c = (Some v, r) \<Longrightarrow> length r \<le> length c"
    by (auto simp: GetInternalKey_def dest!: GetLengthPrefixedSlice_shorter GetVarint64_shorter GetVarint32_shorter)
  have l: "\<And>c v r. GetLevel c = (Some v, r) \<Longrightarrow> length r \<le> length c"
    by (auto simp: GetLevel_def rbind_eq_Some split: if_splits dest!: g(4))
  show "snd (decode_field tag e) c = (Some e', r) \<Longrightarrow> length r \<le> length c"
    by (auto simp: decode_field_def rbind_eq_Some split: if_splits dest!: g(1-3) l)
qed

function decode_loop :: "version_edit \<Rightarrow> slice \<Rightarrow> string option \<times> version_edit \<times> slice" where
  "decode_loop e input =
     (case GetVarint32 input of (None, input) \<Rightarrow> (None, e, input)
      | (Some tag, input) \<Rightarrow>
          (case decode_field tag e of (msg, field) \<Rightarrow>
             (case field input of (None, input) \<Rightarrow> (Some msg, e, input)
              | (Some e, input) \<Rightarrow> decode_loop e input)))"
  by pat_completeness auto
termination
proof (relation "measure (\<lambda>(e, input). length input)", goal_cases)
  case (2 e input opt input1 tag msg field opt' input2 e')
  then have "length input1 < length input" by (auto dest: GetVarint32_shorter [OF sym])
  moreover have "snd (decode_field tag e) input1 = (Some e', input2)" using 2 by (metis snd_conv)
  then have "length input2 \<le> length input1" by (rule decode_field_shorter)
  ultimately show ?case by simp
qed simp

declare decode_loop.simps [simp del]

definition DecodeFrom :: "slice \<Rightarrow> version_edit \<Rightarrow> status \<times> version_edit" where
  "DecodeFrom src e =
     (case decode_loop (edit_Clear e) src of (msg, e, input) \<Rightarrow>
        let msg = (if msg = None \<and> input \<noteq> [] then Some ''invalid tag'' else msg)
        in (case msg of None \<Rightarrow> OK | Some m \<Rightarrow> Corruption ''VersionEdit'' m, e))"

section \<open>Decoding what was encoded\<close>

text \<open>One field after the other.\<close>

lemma decode_step:
  "decode_loop e (EncodeVarint32 (tag_number t) @ c) =
    (case snd (decode_field (tag_number t) e) c of
       (None, input) \<Rightarrow> (Some (fst (decode_field (tag_number t) e)), e, input)
     | (Some e, input) \<Rightarrow> decode_loop e input)"
  by (subst decode_loop.simps) (auto simp: GetVarint_Encode split: prod.splits option.splits)

lemma GetLevel_Encode: "level < kNumLevels \<Longrightarrow> GetLevel (EncodeVarint32 (word_of_nat level) @ r) = (Some level, r)"
proof -
  assume l: "level < kNumLevels"
  then have "unat (word_of_nat level :: u32) = level" by (intro unat_small) (simp add: kNumLevels_def)
  with l show ?thesis by (simp add: GetLevel_def GetVarint_Encode)
qed

lemma put_slice: "PutLengthPrefixedSlice b v = b @ EncodeVarint32 (word_of_nat (length v)) @ v"
  by (simp add: PutLengthPrefixedSlice_def PutVarint32_def)

lemma get_slice: "length v < 2 ^ 32 \<Longrightarrow> GetLengthPrefixedSlice (EncodeVarint32 (word_of_nat (length v)) @ v @ r) = (Some v, r)"
  using GetLengthPrefixedSlice_Put [of v r] by (simp add: put_slice)

lemmas put_defs = PutTag_def PutVarint32_def PutVarint64_def put_slice append_assoc append_Nil

lemma field_of:
  "decode_field (tag_number t) e = (case t of
     kComparator \<Rightarrow> (''comparator name'', rbind GetLengthPrefixedSlice (\<lambda>str. rret (e\<lparr>ve_comparator := str, has_comparator := True\<rparr>)))
   | kLogNumber \<Rightarrow> (''log number'', rbind GetVarint64 (\<lambda>n. rret (e\<lparr>log_number := n, has_log_number := True\<rparr>)))
   | kPrevLogNumber \<Rightarrow> (''previous log number'', rbind GetVarint64 (\<lambda>n. rret (e\<lparr>prev_log_number := n, has_prev_log_number := True\<rparr>)))
   | kNextFileNumber \<Rightarrow> (''next file number'', rbind GetVarint64 (\<lambda>n. rret (e\<lparr>next_file_number := n, has_next_file_number := True\<rparr>)))
   | kLastSequence \<Rightarrow> (''last sequence number'', rbind GetVarint64 (\<lambda>n. rret (e\<lparr>last_sequence := n, has_last_sequence := True\<rparr>)))
   | kCompactPointer \<Rightarrow> (''compaction pointer'', rbind GetLevel (\<lambda>level. rbind GetInternalKey (\<lambda>k.
       rret (e\<lparr>compact_pointers := compact_pointers e @ [(level, k)]\<rparr>))))
   | kDeletedFile \<Rightarrow> (''deleted file'', rbind GetLevel (\<lambda>level. rbind GetVarint64 (\<lambda>number.
       rret (e\<lparr>deleted_files := deleted_insert (level, number) (deleted_files e)\<rparr>))))
   | kNewFile \<Rightarrow> (''new-file entry'', rbind GetLevel (\<lambda>level. rbind GetVarint64 (\<lambda>number. rbind GetVarint64 (\<lambda>sz.
       rbind GetInternalKey (\<lambda>small. rbind GetInternalKey (\<lambda>large.
         rret (e\<lparr>new_files := new_files e @ [(level, new_file number sz small large)]\<rparr>))))))))"
  by (cases t) (simp_all add: decode_field_def tag_number_def)

lemmas get_defs = field_of GetInternalKey_def get_slice GetVarint_Encode GetLevel_Encode

lemma decode_numbers:
  "length s < 2 ^ 32 \<Longrightarrow> decode_loop e (PutLengthPrefixedSlice (PutTag [] kComparator) s @ r) =
    decode_loop (e\<lparr>ve_comparator := s, has_comparator := True\<rparr>) r"
  "decode_loop e (PutVarint64 (PutTag [] kLogNumber) n @ r) = decode_loop (e\<lparr>log_number := n, has_log_number := True\<rparr>) r"
  "decode_loop e (PutVarint64 (PutTag [] kPrevLogNumber) n @ r) = decode_loop (e\<lparr>prev_log_number := n, has_prev_log_number := True\<rparr>) r"
  "decode_loop e (PutVarint64 (PutTag [] kNextFileNumber) n @ r) = decode_loop (e\<lparr>next_file_number := n, has_next_file_number := True\<rparr>) r"
  "decode_loop e (PutVarint64 (PutTag [] kLastSequence) n @ r) = decode_loop (e\<lparr>last_sequence := n, has_last_sequence := True\<rparr>) r"
  unfolding put_defs decode_step by (simp_all add: get_defs)

lemma decode_lists:
  "level < kNumLevels \<Longrightarrow> length k < 2 ^ 32 \<Longrightarrow>
    decode_loop e (PutLengthPrefixedSlice (PutVarint32 (PutTag [] kCompactPointer) (word_of_nat level)) k @ r) =
    decode_loop (e\<lparr>compact_pointers := compact_pointers e @ [(level, k)]\<rparr>) r"
  "level < kNumLevels \<Longrightarrow>
    decode_loop e (PutVarint64 (PutVarint32 (PutTag [] kDeletedFile) (word_of_nat level)) number @ r) =
    decode_loop (e\<lparr>deleted_files := deleted_insert (level, number) (deleted_files e)\<rparr>) r"
  "level < kNumLevels \<Longrightarrow> length small < 2 ^ 32 \<Longrightarrow> length large < 2 ^ 32 \<Longrightarrow>
    decode_loop e (PutLengthPrefixedSlice (PutLengthPrefixedSlice (PutVarint64 (PutVarint64
      (PutVarint32 (PutTag [] kNewFile) (word_of_nat level)) number) sz) small) large @ r) =
    decode_loop (e\<lparr>new_files := new_files e @ [(level, new_file number sz small large)]\<rparr>) r"
  unfolding put_defs decode_step by (simp_all add: get_defs)

text \<open>Lists of fields.\<close>

lemma fold_put:
  assumes f: "\<And>x dst. f x dst = dst @ f x []"
  shows "fold f xs dst = dst @ concat (map (\<lambda>x. f x []) xs)"
proof (induction xs arbitrary: dst)
  case (Cons x xs)
  have "fold f (x # xs) dst = f x dst @ concat (map (\<lambda>x. f x []) xs)" by (simp only: fold_Cons comp_def Cons.IH)
  also have "f x dst = dst @ f x []" by (rule f)
  finally show ?case by simp
qed simp

lemma decode_each:
  assumes "\<And>x e r. x \<in> set xs \<Longrightarrow> decode_loop e (enc x @ r) = decode_loop (upd x e) r"
  shows "decode_loop e (concat (map enc xs) @ r) = decode_loop (fold upd xs e) r"
  using assms
proof (induction xs arbitrary: e)
  case (Cons x xs)
  have "decode_loop e (enc x @ concat (map enc xs) @ r) = decode_loop (upd x e) (concat (map enc xs) @ r)"
    by (rule Cons.prems) simp
  also have "\<dots> = decode_loop (fold upd xs (upd x e)) r" by (rule Cons.IH) (simp add: Cons.prems)
  finally show ?case by simp
qed simp

definition deleted_less :: "nat \<times> u64 \<Rightarrow> nat \<times> u64 \<Rightarrow> bool" where
  "deleted_less x y \<longleftrightarrow> fst x < fst y \<or> (fst x = fst y \<and> snd x < snd y)"

lemma deleted_insert_last: "\<forall>y\<in>set ys. deleted_less y x \<Longrightarrow> deleted_insert x ys = ys @ [x]"
  by (induction ys) (auto simp: deleted_less_def)

lemma fold_deleted: "sorted_wrt deleted_less (ys @ xs) \<Longrightarrow> fold deleted_insert xs ys = ys @ xs"
proof (induction xs arbitrary: ys)
  case (Cons x xs)
  then have "\<forall>y\<in>set ys. deleted_less y x" by (simp add: sorted_wrt_append)
  from deleted_insert_last [OF this] Cons show ?case by simp
qed simp

lemma deleted_insert_sorted: "sorted_wrt deleted_less xs \<Longrightarrow> sorted_wrt deleted_less (deleted_insert x xs)
    \<and> set (deleted_insert x xs) = insert x (set xs)"
proof (induction xs)
  case (Cons y ys)
  then have IH: "sorted_wrt deleted_less (deleted_insert x ys)" "set (deleted_insert x ys) = insert x (set ys)" by simp_all
  consider "deleted_less x y" | "x = y" | "deleted_less y x"
    unfolding deleted_less_def by (metis linorder_neqE prod.expand)
  then show ?case
  proof cases
    case 1
    with Cons.prems show ?thesis by (auto simp: deleted_less_def)
  next
    case 2
    with Cons.prems show ?thesis by auto
  next
    case 3
    then have "deleted_insert x (y # ys) = y # deleted_insert x ys" by (auto simp: deleted_less_def)
    with 3 IH Cons.prems show ?thesis by auto
  qed
qed simp

text \<open>An edit made by the setters, with keys that are not too long.\<close>

definition edit_ok :: "version_edit \<Rightarrow> bool" where
  "edit_ok e \<longleftrightarrow> length (ve_comparator e) < 2 ^ 32
     \<and> (has_comparator e \<or> ve_comparator e = []) \<and> (has_log_number e \<or> log_number e = 0)
     \<and> (has_prev_log_number e \<or> prev_log_number e = 0) \<and> (has_next_file_number e \<or> next_file_number e = 0)
     \<and> (has_last_sequence e \<or> last_sequence e = 0)
     \<and> list_all (\<lambda>(level, k). level < kNumLevels \<and> length k < 2 ^ 32) (compact_pointers e)
     \<and> list_all (\<lambda>(level, n). level < kNumLevels) (deleted_files e) \<and> sorted_wrt deleted_less (deleted_files e)
     \<and> list_all (\<lambda>(level, f). level < kNumLevels \<and> length (smallest f) < 2 ^ 32 \<and> length (largest f) < 2 ^ 32
          \<and> f = new_file (file_number f) (file_size f) (smallest f) (largest f)) (new_files e)"

lemma edit_ok_setters:
  "edit_ok VersionEdit"
  "edit_ok e \<Longrightarrow> length name < 2 ^ 32 \<Longrightarrow> edit_ok (SetComparatorName name e)"
  "edit_ok e \<Longrightarrow> edit_ok (SetLogNumber n e)" "edit_ok e \<Longrightarrow> edit_ok (SetPrevLogNumber n e)"
  "edit_ok e \<Longrightarrow> edit_ok (SetNextFile n e)" "edit_ok e \<Longrightarrow> edit_ok (SetLastSequence s e)"
  "edit_ok e \<Longrightarrow> level < kNumLevels \<Longrightarrow> length k < 2 ^ 32 \<Longrightarrow> edit_ok (SetCompactPointer level k e)"
  "edit_ok e \<Longrightarrow> level < kNumLevels \<Longrightarrow> length small < 2 ^ 32 \<Longrightarrow> length large < 2 ^ 32 \<Longrightarrow> edit_ok (AddFile level n sz small large e)"
  "edit_ok e \<Longrightarrow> level < kNumLevels \<Longrightarrow> edit_ok (DeleteFile level n e)"
  using deleted_insert_sorted [of "deleted_files e" "(level, n)"]
  by (auto simp: edit_ok_def VersionEdit_def edit_Clear_def SetComparatorName_def SetLogNumber_def SetPrevLogNumber_def
      SetNextFile_def SetLastSequence_def SetCompactPointer_def AddFile_def new_file_def DeleteFile_def list_all_iff)

text \<open>The encoding as the list of its fields.\<close>

definition opt_field :: "bool \<Rightarrow> bytes \<Rightarrow> bytes" where
  "opt_field present bs = (if present then bs else [])"

definition enc_pointer :: "nat \<times> slice \<Rightarrow> bytes" where
  "enc_pointer = (\<lambda>(level, k). PutLengthPrefixedSlice (PutVarint32 (PutTag [] kCompactPointer) (word_of_nat level)) k)"

definition enc_deleted :: "nat \<times> u64 \<Rightarrow> bytes" where
  "enc_deleted = (\<lambda>(level, number). PutVarint64 (PutVarint32 (PutTag [] kDeletedFile) (word_of_nat level)) number)"

definition enc_new :: "nat \<times> FileMetaData \<Rightarrow> bytes" where
  "enc_new = (\<lambda>(level, f). PutLengthPrefixedSlice (PutLengthPrefixedSlice (PutVarint64 (PutVarint64
     (PutVarint32 (PutTag [] kNewFile) (word_of_nat level)) (file_number f)) (file_size f)) (smallest f)) (largest f))"

lemma EncodeTo_fields:
  "EncodeTo [] e =
     opt_field (has_comparator e) (PutLengthPrefixedSlice (PutTag [] kComparator) (ve_comparator e)) @
     opt_field (has_log_number e) (PutVarint64 (PutTag [] kLogNumber) (log_number e)) @
     opt_field (has_prev_log_number e) (PutVarint64 (PutTag [] kPrevLogNumber) (prev_log_number e)) @
     opt_field (has_next_file_number e) (PutVarint64 (PutTag [] kNextFileNumber) (next_file_number e)) @
     opt_field (has_last_sequence e) (PutVarint64 (PutTag [] kLastSequence) (last_sequence e)) @
     concat (map enc_pointer (compact_pointers e)) @ concat (map enc_deleted (deleted_files e)) @
     concat (map enc_new (new_files e))"
proof -
  have f: "fold (\<lambda>(level, k) dst. PutLengthPrefixedSlice (PutVarint32 (PutTag dst kCompactPointer) (word_of_nat level)) k) xs dst
      = dst @ concat (map enc_pointer xs)" for xs dst
    by (subst fold_put) (auto simp: put_defs enc_pointer_def case_prod_unfold)
  have g: "fold (\<lambda>(level, number) dst. PutVarint64 (PutVarint32 (PutTag dst kDeletedFile) (word_of_nat level)) number) xs dst
      = dst @ concat (map enc_deleted xs)" for xs dst
    by (subst fold_put) (auto simp: put_defs enc_deleted_def case_prod_unfold)
  have h: "fold (\<lambda>(level, f) dst. PutLengthPrefixedSlice (PutLengthPrefixedSlice (PutVarint64 (PutVarint64
      (PutVarint32 (PutTag dst kNewFile) (word_of_nat level)) (file_number f)) (file_size f)) (smallest f)) (largest f)) xs dst
      = dst @ concat (map enc_new xs)" for xs dst
    by (subst fold_put) (auto simp: put_defs enc_new_def case_prod_unfold)
  show ?thesis unfolding EncodeTo_def Let_def f g h by (simp add: opt_field_def put_defs)
qed

lemma decode_opt:
  assumes "present \<Longrightarrow> decode_loop e (bs @ r) = decode_loop e' r" and "\<not> present \<Longrightarrow> e' = e"
  shows "decode_loop e (opt_field present bs @ r) = decode_loop e' r"
  using assms by (cases present) (simp_all add: opt_field_def)

lemma fold_append_field:
  "fold (\<lambda>x e. e\<lparr>compact_pointers := compact_pointers e @ [x]\<rparr>) ps e = e\<lparr>compact_pointers := compact_pointers e @ ps\<rparr>"
  "fold (\<lambda>x e. e\<lparr>new_files := new_files e @ [x]\<rparr>) ns e = e\<lparr>new_files := new_files e @ ns\<rparr>"
  "fold (\<lambda>x e. e\<lparr>deleted_files := deleted_insert x (deleted_files e)\<rparr>) ds e = e\<lparr>deleted_files := fold deleted_insert ds (deleted_files e)\<rparr>"
  by (induction ps arbitrary: e, simp_all) (induction ns arbitrary: e, simp_all, induction ds arbitrary: e, simp_all)

lemma decode_pointers:
  assumes "list_all (\<lambda>(level, k). level < kNumLevels \<and> length k < 2 ^ 32) xs"
  shows "decode_loop e (concat (map enc_pointer xs) @ r) = decode_loop (e\<lparr>compact_pointers := compact_pointers e @ xs\<rparr>) r"
proof -
  have "decode_loop e (concat (map enc_pointer xs) @ r) =
      decode_loop (fold (\<lambda>x e. e\<lparr>compact_pointers := compact_pointers e @ [x]\<rparr>) xs e) r"
    by (rule decode_each) (use assms in \<open>auto simp: enc_pointer_def list_all_iff decode_lists\<close>)
  then show ?thesis by (simp only: fold_append_field)
qed

lemma decode_deleted:
  assumes "list_all (\<lambda>(level, n). level < kNumLevels) xs"
  shows "decode_loop e (concat (map enc_deleted xs) @ r) =
    decode_loop (e\<lparr>deleted_files := fold deleted_insert xs (deleted_files e)\<rparr>) r"
proof -
  have "decode_loop e (concat (map enc_deleted xs) @ r) =
      decode_loop (fold (\<lambda>x e. e\<lparr>deleted_files := deleted_insert x (deleted_files e)\<rparr>) xs e) r"
    by (rule decode_each) (use assms in \<open>auto simp: enc_deleted_def list_all_iff decode_lists\<close>)
  then show ?thesis by (simp only: fold_append_field)
qed

lemma decode_new:
  assumes "list_all (\<lambda>(level, f). level < kNumLevels \<and> length (smallest f) < 2 ^ 32 \<and> length (largest f) < 2 ^ 32
          \<and> f = new_file (file_number f) (file_size f) (smallest f) (largest f)) xs"
  shows "decode_loop e (concat (map enc_new xs) @ r) = decode_loop (e\<lparr>new_files := new_files e @ xs\<rparr>) r"
proof -
  have "decode_loop e (enc_new x @ r) = decode_loop (e\<lparr>new_files := new_files e @ [x]\<rparr>) r" if "x \<in> set xs" for x e r
  proof -
    obtain level f where x: "x = (level, f)" by (cases x)
    with assms that have l: "level < kNumLevels" "length (smallest f) < 2 ^ 32" "length (largest f) < 2 ^ 32"
      and f: "new_file (file_number f) (file_size f) (smallest f) (largest f) = f"
      by (auto simp: list_all_iff)
    show ?thesis using decode_lists(3) [OF l, of e "file_number f" "file_size f" r] by (simp add: x enc_new_def f)
  qed
  then have "decode_loop e (concat (map enc_new xs) @ r) =
      decode_loop (fold (\<lambda>x e. e\<lparr>new_files := new_files e @ [x]\<rparr>) xs e) r"
    by (rule decode_each)
  then show ?thesis by (simp only: fold_append_field)
qed

lemma decode_encode:
  assumes "edit_ok e"
  shows "decode_loop (edit_Clear e0) (EncodeTo [] e) = (None, e\<lparr>compact_pointers := compact_pointers e0 @ compact_pointers e\<rparr>, [])"
proof -
  note ok = assms [unfolded edit_ok_def]
  let ?e1 = "(edit_Clear e0)\<lparr>ve_comparator := ve_comparator e, has_comparator := has_comparator e\<rparr>"
  let ?e2 = "?e1\<lparr>log_number := log_number e, has_log_number := has_log_number e\<rparr>"
  let ?e3 = "?e2\<lparr>prev_log_number := prev_log_number e, has_prev_log_number := has_prev_log_number e\<rparr>"
  let ?e4 = "?e3\<lparr>next_file_number := next_file_number e, has_next_file_number := has_next_file_number e\<rparr>"
  let ?e5 = "?e4\<lparr>last_sequence := last_sequence e, has_last_sequence := has_last_sequence e\<rparr>"
  have 1: "decode_loop (edit_Clear e0) (opt_field (has_comparator e) (PutLengthPrefixedSlice (PutTag [] kComparator) (ve_comparator e)) @ r)
      = decode_loop ?e1 r" for r
    by (rule decode_opt) (use ok in \<open>auto simp: decode_numbers edit_Clear_def\<close>)
  have 2: "decode_loop ?e1 (opt_field (has_log_number e) (PutVarint64 (PutTag [] kLogNumber) (log_number e)) @ r)
      = decode_loop ?e2 r" for r
    by (rule decode_opt) (use ok in \<open>auto simp: decode_numbers edit_Clear_def\<close>)
  have 3: "decode_loop ?e2 (opt_field (has_prev_log_number e) (PutVarint64 (PutTag [] kPrevLogNumber) (prev_log_number e)) @ r)
      = decode_loop ?e3 r" for r
    by (rule decode_opt) (use ok in \<open>auto simp: decode_numbers edit_Clear_def\<close>)
  have 4: "decode_loop ?e3 (opt_field (has_next_file_number e) (PutVarint64 (PutTag [] kNextFileNumber) (next_file_number e)) @ r)
      = decode_loop ?e4 r" for r
    by (rule decode_opt) (use ok in \<open>auto simp: decode_numbers edit_Clear_def\<close>)
  have 5: "decode_loop ?e4 (opt_field (has_last_sequence e) (PutVarint64 (PutTag [] kLastSequence) (last_sequence e)) @ r)
      = decode_loop ?e5 r" for r
    by (rule decode_opt) (use ok in \<open>auto simp: decode_numbers edit_Clear_def\<close>)
  let ?e6 = "?e5\<lparr>compact_pointers := compact_pointers ?e5 @ compact_pointers e\<rparr>"
  let ?e7 = "?e6\<lparr>deleted_files := fold deleted_insert (deleted_files e) (deleted_files ?e6)\<rparr>"
  let ?e8 = "?e7\<lparr>new_files := new_files ?e7 @ new_files e\<rparr>"
  have 6: "decode_loop ?e5 (concat (map enc_pointer (compact_pointers e)) @ r) = decode_loop ?e6 r" for r
    by (rule decode_pointers) (use ok in blast)
  have 7: "decode_loop ?e6 (concat (map enc_deleted (deleted_files e)) @ r) = decode_loop ?e7 r" for r
    by (rule decode_deleted) (use ok in blast)
  have 8: "decode_loop ?e7 (concat (map enc_new (new_files e)) @ r) = decode_loop ?e8 r" for r
    by (rule decode_new) (use ok in blast)
  have "decode_loop ?e8 [] = (None, ?e8, [])"
    by (subst decode_loop.simps) (simp add: GetVarint32_def GetVarint32Ptr_loop varint_loop.simps)
  moreover have "?e8 = e\<lparr>compact_pointers := compact_pointers e0 @ compact_pointers e\<rparr>"
    using ok by (simp add: edit_Clear_def fold_deleted)
  ultimately show ?thesis
    unfolding EncodeTo_fields 1 2 3 4 5 6 7 using 8 [of "[]"] by (simp only: append_Nil2)
qed

section \<open>What is decoded\<close>

lemma GetLengthPrefixedSlice_length: "GetLengthPrefixedSlice c = (Some v, r) \<Longrightarrow> length v < 2 ^ 32"
proof -
  assume "GetLengthPrefixedSlice c = (Some v, r)"
  then obtain len :: u32 where "length v = unat len"
    by (auto simp: GetLengthPrefixedSlice_def rbind_eq_Some split: if_splits)
  then show ?thesis using unsigned_less [of len] by simp
qed

lemma GetLevel_bound: "GetLevel c = (Some level, r) \<Longrightarrow> level < kNumLevels"
  by (auto simp: GetLevel_def rbind_eq_Some split: if_splits)

text \<open>Every branch does what a setter does.\<close>

lemma decode_field_ok:
  assumes "snd (decode_field tag e) c = (Some e', r)" and "edit_ok e"
  shows "edit_ok e'"
proof -
  have setters: "e\<lparr>ve_comparator := str, has_comparator := True\<rparr> = SetComparatorName str e"
    "e\<lparr>log_number := n, has_log_number := True\<rparr> = SetLogNumber n e"
    "e\<lparr>prev_log_number := n, has_prev_log_number := True\<rparr> = SetPrevLogNumber n e"
    "e\<lparr>next_file_number := n, has_next_file_number := True\<rparr> = SetNextFile n e"
    "e\<lparr>last_sequence := n, has_last_sequence := True\<rparr> = SetLastSequence n e"
    "e\<lparr>compact_pointers := compact_pointers e @ [(level, k)]\<rparr> = SetCompactPointer level k e"
    "e\<lparr>deleted_files := deleted_insert (level, n) (deleted_files e)\<rparr> = DeleteFile level n e"
    "e\<lparr>new_files := new_files e @ [(level, new_file n sz small large)]\<rparr> = AddFile level n sz small large e"
    for str n level k sz small large
    by (simp_all add: SetComparatorName_def SetLogNumber_def SetPrevLogNumber_def SetNextFile_def SetLastSequence_def
        SetCompactPointer_def DeleteFile_def AddFile_def)
  show ?thesis
    using assms
    by (auto simp: decode_field_def rbind_eq_Some GetInternalKey_def setters split: if_splits
        intro!: edit_ok_setters dest: GetLengthPrefixedSlice_length GetLevel_bound)
qed

lemma decode_loop_ok: "decode_loop e input = (msg, e', rest) \<Longrightarrow> edit_ok e \<Longrightarrow> edit_ok e'"
proof (induction e input rule: decode_loop.induct)
  case (1 e input)
  obtain t input1 where t: "GetVarint32 input = (t, input1)" by (cases "GetVarint32 input")
  show ?case
  proof (cases t)
    case None
    with "1.prems" t show ?thesis by (subst (asm) decode_loop.simps) simp
  next
    case (Some tag)
    obtain m field where f: "decode_field tag e = (m, field)" by (cases "decode_field tag e")
    obtain e1 input2 where r: "field input1 = (e1, input2)" by (cases "field input1")
    show ?thesis
    proof (cases e1)
      case None
      with "1.prems" t Some f r show ?thesis by (subst (asm) decode_loop.simps) simp
    next
      case (Some e2)
      with "1.prems" t \<open>t = Some tag\<close> f r have "decode_loop e2 input2 = (msg, e', rest)"
        by (subst (asm) decode_loop.simps) simp
      moreover have "edit_ok e2" using decode_field_ok [of tag e input1 e2 input2] f r Some "1.prems" by simp
      ultimately show ?thesis
        using "1.IH" [OF t [symmetric] \<open>t = Some tag\<close> f [symmetric] r [symmetric] Some] by blast
    qed
  qed
qed

lemma decode_edit_ok: "DecodeFrom src VersionEdit = (s, e) \<Longrightarrow> edit_ok e"
proof -
  assume d: "DecodeFrom src VersionEdit = (s, e)"
  have "edit_Clear VersionEdit = VersionEdit" by (simp add: edit_Clear_def VersionEdit_def)
  then have "edit_ok (edit_Clear VersionEdit)" using edit_ok_setters(1) by simp
  moreover obtain msg rest where "decode_loop (edit_Clear VersionEdit) src = (msg, e, rest)"
    using d by (auto simp: DecodeFrom_def Let_def split: prod.splits)
  ultimately show ?thesis using decode_loop_ok by blast
qed

section \<open>Properties\<close>

text \<open>
  C11: what \<open>EncodeTo\<close> writes of an edit, \<open>DecodeFrom\<close> reads back into an object that was used before:
  every field, every list and the set of deleted files, and nothing of the old contents but the compaction
  pointers, which \<open>Clear\<close> leaves and which come before those of the edit. The edit is one that the setters
  make, with levels of the database and keys shorter than \<open>2 ^ 32\<close> bytes.
\<close>

theorem version_edit_roundtrip:
  assumes "edit_ok e"
  shows "DecodeFrom (EncodeTo [] e) e0 = (OK, e\<lparr>compact_pointers := compact_pointers e0 @ compact_pointers e\<rparr>)"
  by (simp add: DecodeFrom_def decode_encode [OF assms])

theorem version_edit_roundtrip_witness:
  "\<exists>e e0. edit_ok e \<and> new_files e \<noteq> [] \<and> deleted_files e \<noteq> [] \<and> compact_pointers e0 \<noteq> []
     \<and> DecodeFrom (EncodeTo [] e) e0 = (OK, e\<lparr>compact_pointers := compact_pointers e0 @ compact_pointers e\<rparr>)"
proof -
  let ?e = "SetLogNumber 300 (AddFile 1 9 4096 [97] [122] (DeleteFile 0 7 (DeleteFile 2 5 VersionEdit)))"
  let ?used = "SetCompactPointer 3 [107] VersionEdit"
  have "edit_ok ?e" by (intro edit_ok_setters) (simp_all add: kNumLevels_def)
  moreover have "new_files ?e \<noteq> []" "deleted_files ?e \<noteq> []"
    by (simp_all add: SetLogNumber_def AddFile_def DeleteFile_def VersionEdit_def edit_Clear_def)
  moreover have "compact_pointers ?used \<noteq> []" by (simp add: SetCompactPointer_def)
  ultimately show ?thesis using version_edit_roundtrip [of ?e ?used] by blast
qed



end
