(* ===== verification/Ldb_Iterator.thy ===== *)
theory Ldb_Iterator
  imports Ldb_MemTable
begin

text \<open>
  \<open>leveldb-library/include/leveldb/iterator.h\<close>: the interface over which LevelDB stacks its iterators. The
  virtual functions of a class are a record of functions of the object; what the header promises of them is a
  locale. The iterator of a memtable is its first instance.
\<close>

section \<open>The interface\<close>

text \<open>\<open>None\<close> is an operation that does not return.\<close>

record 'i iterator_class =
  op_Valid :: "'i \<Rightarrow> bool"
  op_SeekToFirst :: "'i \<Rightarrow> 'i option"
  op_SeekToLast :: "'i \<Rightarrow> 'i option"
  op_Seek :: "slice \<Rightarrow> 'i \<Rightarrow> 'i option"
  op_Next :: "'i \<Rightarrow> 'i option"
  op_Prev :: "'i \<Rightarrow> 'i option"
  op_key :: "'i \<Rightarrow> slice"
  op_value :: "'i \<Rightarrow> slice"
  op_status :: "'i \<Rightarrow> status"

text \<open>\<open>NewEmptyIterator\<close> and \<open>NewErrorIterator\<close>: the state is the status.\<close>

definition empty_class :: "status iterator_class" where
  "empty_class = \<lparr>op_Valid = \<lambda>s. False, op_SeekToFirst = Some, op_SeekToLast = Some, op_Seek = \<lambda>_. Some,
     op_Next = Some, op_Prev = Some, op_key = \<lambda>_. [], op_value = \<lambda>_. [], op_status = \<lambda>s. s\<rparr>"

text \<open>An object of one of two classes, the call dispatched by the class.\<close>

definition either_class :: "'a iterator_class \<Rightarrow> 'b iterator_class \<Rightarrow> ('a + 'b) iterator_class" where
  "either_class A B = \<lparr>op_Valid = case_sum (op_Valid A) (op_Valid B),
     op_SeekToFirst = case_sum (map_option Inl \<circ> op_SeekToFirst A) (map_option Inr \<circ> op_SeekToFirst B),
     op_SeekToLast = case_sum (map_option Inl \<circ> op_SeekToLast A) (map_option Inr \<circ> op_SeekToLast B),
     op_Seek = (\<lambda>k. case_sum (map_option Inl \<circ> op_Seek A k) (map_option Inr \<circ> op_Seek B k)),
     op_Next = case_sum (map_option Inl \<circ> op_Next A) (map_option Inr \<circ> op_Next B),
     op_Prev = case_sum (map_option Inl \<circ> op_Prev A) (map_option Inr \<circ> op_Prev B),
     op_key = case_sum (op_key A) (op_key B), op_value = case_sum (op_value A) (op_value B),
     op_status = case_sum (op_status A) (op_status B)\<rparr>"

section \<open>What is promised of an iterator\<close>

text \<open>The first and the last of a set in the order of \<open>f\<close>, \<open>None\<close> of the empty set.\<close>

definition first_in :: "('a \<Rightarrow> 'k::linorder) \<Rightarrow> 'a set \<Rightarrow> 'a option \<Rightarrow> bool" where
  "first_in f A c = (case c of None \<Rightarrow> A = {} | Some a \<Rightarrow> a \<in> A \<and> (\<forall>b\<in>A. f a \<le> f b))"

definition last_in :: "('a \<Rightarrow> 'k::linorder) \<Rightarrow> 'a set \<Rightarrow> 'a option \<Rightarrow> bool" where
  "last_in f A c = (case c of None \<Rightarrow> A = {} | Some a \<Rightarrow> a \<in> A \<and> (\<forall>b\<in>A. f b \<le> f a))"

lemma first_in_simps [simp]:
  "first_in f A None \<longleftrightarrow> A = {}" "first_in f A (Some a) \<longleftrightarrow> a \<in> A \<and> (\<forall>b\<in>A. f a \<le> f b)"
  "last_in f A None \<longleftrightarrow> A = {}" "last_in f A (Some a) \<longleftrightarrow> a \<in> A \<and> (\<forall>b\<in>A. f b \<le> f a)"
  by (simp_all add: first_in_def last_in_def)

lemma first_in_unique: "inj_on f A \<Longrightarrow> first_in f A c \<Longrightarrow> first_in f A d \<Longrightarrow> c = d"
  by (cases c; cases d) (auto intro!: inj_onD [of f A] antisym)

lemma last_in_unique: "inj_on f A \<Longrightarrow> last_in f A c \<Longrightarrow> last_in f A d \<Longrightarrow> c = d"
  by (cases c; cases d) (auto intro!: inj_onD [of f A] antisym)

text \<open>The rank of an entry is that of its key.\<close>

definition rank_of :: "(slice \<Rightarrow> 'k) \<Rightarrow> slice \<times> slice \<Rightarrow> 'k" where
  "rank_of key e = key (fst e)"

text \<open>
  \<open>at i S c\<close>: the iterator \<open>i\<close> runs over the entries \<open>S\<close> and is positioned at the entry \<open>c\<close>, or not valid if there
  is none. Keys that may be sought are \<open>valid\<close>.
\<close>

locale iterator_contract =
  fixes ops :: "'i iterator_class" and key :: "slice \<Rightarrow> 'k::linorder" and valid :: "slice \<Rightarrow> bool"
    and at :: "'i \<Rightarrow> (slice \<times> slice) set \<Rightarrow> (slice \<times> slice) option \<Rightarrow> bool"
  assumes entries: "at i S c \<Longrightarrow> finite S \<and> inj_on (rank_of key) S \<and> (\<forall>e\<in>S. valid (fst e))"
    and position: "at i S (Some e) \<Longrightarrow> e \<in> S \<and> op_key ops i = fst e \<and> op_value ops i = snd e"
    and Valid: "at i S c \<Longrightarrow> op_Valid ops i \<longleftrightarrow> c \<noteq> None"
    and status: "at i S c \<Longrightarrow> op_status ops i = OK"
    and SeekToFirst: "at i S c \<Longrightarrow> \<exists>i' c'. op_SeekToFirst ops i = Some i' \<and> at i' S c' \<and> first_in (rank_of key) S c'"
    and SeekToLast: "at i S c \<Longrightarrow> \<exists>i' c'. op_SeekToLast ops i = Some i' \<and> at i' S c' \<and> last_in (rank_of key) S c'"
    and Seek: "at i S c \<Longrightarrow> valid k \<Longrightarrow> \<exists>i' c'. op_Seek ops k i = Some i' \<and> at i' S c'
      \<and> first_in (rank_of key) {x \<in> S. key k \<le> rank_of key x} c'"
    and Next: "at i S (Some e) \<Longrightarrow> \<exists>i' c'. op_Next ops i = Some i' \<and> at i' S c'
      \<and> first_in (rank_of key) {x \<in> S. rank_of key e < rank_of key x} c'"
    and Prev: "at i S (Some e) \<Longrightarrow> \<exists>i' c'. op_Prev ops i = Some i' \<and> at i' S c'
      \<and> last_in (rank_of key) {x \<in> S. rank_of key x < rank_of key e} c'"

text \<open>
  A client: a sequence of calls, of which \<open>Next\<close> and \<open>Prev\<close> are made only while the iterator is valid, and the
  entry it is at after each.
\<close>

datatype iter_call = Call_First | Call_Last | Call_Seek slice | Call_Next | Call_Prev

definition iter_step :: "'i iterator_class \<Rightarrow> iter_call \<Rightarrow> 'i \<Rightarrow> 'i option" where
  "iter_step ops call i =
     (case call of Call_First \<Rightarrow> op_SeekToFirst ops i | Call_Last \<Rightarrow> op_SeekToLast ops i | Call_Seek k \<Rightarrow> op_Seek ops k i
      | Call_Next \<Rightarrow> if op_Valid ops i then op_Next ops i else Some i
      | Call_Prev \<Rightarrow> if op_Valid ops i then op_Prev ops i else Some i)"

definition iter_entry :: "'i iterator_class \<Rightarrow> 'i \<Rightarrow> (slice \<times> slice) option" where
  "iter_entry ops i = (if op_Valid ops i then Some (op_key ops i, op_value ops i) else None)"

fun iter_run :: "'i iterator_class \<Rightarrow> iter_call list \<Rightarrow> 'i \<Rightarrow> (slice \<times> slice) option list option" where
  "iter_run ops [] i = Some []"
| "iter_run ops (call # calls) i =
     Option.bind (iter_step ops call i) (\<lambda>i. map_option ((#) (iter_entry ops i)) (iter_run ops calls i))"

text \<open>The same calls on a list of the entries in their order, where a position is an index.\<close>

definition list_step :: "(slice \<Rightarrow> 'k::linorder) \<Rightarrow> (slice \<times> slice) list \<Rightarrow> iter_call \<Rightarrow> nat option \<Rightarrow> nat option" where
  "list_step key xs call pos =
     (case call of Call_First \<Rightarrow> if xs = [] then None else Some 0
      | Call_Last \<Rightarrow> if xs = [] then None else Some (length xs - 1)
      | Call_Seek k \<Rightarrow> List.find (\<lambda>p. key k \<le> rank_of key (xs ! p)) [0..<length xs]
      | Call_Next \<Rightarrow> Option.bind pos (\<lambda>p. if Suc p < length xs then Some (Suc p) else None)
      | Call_Prev \<Rightarrow> Option.bind pos (\<lambda>p. if p = 0 then None else Some (p - 1)))"

fun list_run :: "(slice \<Rightarrow> 'k::linorder) \<Rightarrow> (slice \<times> slice) list \<Rightarrow> iter_call list \<Rightarrow> nat option \<Rightarrow> (slice \<times> slice) option list" where
  "list_run key xs [] pos = []"
| "list_run key xs (call # calls) pos =
     (let pos = list_step key xs call pos in map_option ((!) xs) pos # list_run key xs calls pos)"

definition calls_valid :: "(slice \<Rightarrow> bool) \<Rightarrow> iter_call list \<Rightarrow> bool" where
  "calls_valid valid calls \<longleftrightarrow> (\<forall>k. Call_Seek k \<in> set calls \<longrightarrow> valid k)"

text \<open>An index into a sorted list stands for the first or the last of a part of it.\<close>

lemma sorted_index:
  assumes "sorted_wrt (\<lambda>a b. f a < (f b :: 'k::linorder)) xs"
  shows "i < length xs \<Longrightarrow> j < length xs \<Longrightarrow> f (xs ! i) < f (xs ! j) \<longleftrightarrow> i < j"
    and "i < length xs \<Longrightarrow> j < length xs \<Longrightarrow> f (xs ! i) \<le> f (xs ! j) \<longleftrightarrow> i \<le> j"
proof -
  have l: "f (xs ! i) < f (xs ! j)" if "i < j" "j < length xs" for i j
    using assms that by (simp add: sorted_wrt_iff_nth_less)
  show "i < length xs \<Longrightarrow> j < length xs \<Longrightarrow> f (xs ! i) < f (xs ! j) \<longleftrightarrow> i < j"
    using l [of i j] l [of j i] by (cases i j rule: linorder_cases) auto
  show "i < length xs \<Longrightarrow> j < length xs \<Longrightarrow> f (xs ! i) \<le> f (xs ! j) \<longleftrightarrow> i \<le> j"
    using l [of i j] l [of j i] by (cases i j rule: linorder_cases) auto
qed

lemma sorted_strict_inj:
  assumes "sorted_wrt (\<lambda>a b. f a < (f b :: 'k::linorder)) xs"
  shows "inj_on f (set xs)"
  using assms by (induction xs) (auto simp: less_le)

lemma first_image: "first_in (f \<circ> g) {x \<in> A. P (g x)} c \<Longrightarrow> first_in f {y \<in> g ` A. P y} (map_option g c)"
  by (cases c) auto

lemma last_image: "last_in (f \<circ> g) {x \<in> A. P (g x)} c \<Longrightarrow> last_in f {y \<in> g ` A. P y} (map_option g c)"
  by (cases c) auto

lemma list_step_spec:
  fixes key :: "slice \<Rightarrow> 'k::linorder"
  assumes s: "sorted_wrt (\<lambda>a b. rank_of key a < rank_of key b) xs"
  shows "first_in (rank_of key) (set xs) (map_option ((!) xs) (list_step key xs Call_First pos))"
    and "last_in (rank_of key) (set xs) (map_option ((!) xs) (list_step key xs Call_Last pos))"
    and "first_in (rank_of key) {x \<in> set xs. key k \<le> rank_of key x} (map_option ((!) xs) (list_step key xs (Call_Seek k) pos))"
    and "p < length xs \<Longrightarrow> first_in (rank_of key) {x \<in> set xs. rank_of key (xs ! p) < rank_of key x}
      (map_option ((!) xs) (list_step key xs Call_Next (Some p)))"
    and "p < length xs \<Longrightarrow> last_in (rank_of key) {x \<in> set xs. rank_of key x < rank_of key (xs ! p)}
      (map_option ((!) xs) (list_step key xs Call_Prev (Some p)))"
proof -
  let ?f = "rank_of key \<circ> (!) xs"
  note i = sorted_index [OF s]
  have xs: "set xs = (!) xs ` {..<length xs}" by (auto simp: set_conv_nth)
  have f: "first_in (rank_of key) {x \<in> set xs. P x} (map_option ((!) xs) c)" if "first_in ?f {i \<in> {..<length xs}. P (xs ! i)} c" for P c
    unfolding xs using that by (rule first_image)
  have l: "last_in (rank_of key) {x \<in> set xs. P x} (map_option ((!) xs) c)" if "last_in ?f {i \<in> {..<length xs}. P (xs ! i)} c" for P c
    unfolding xs using that by (rule last_image)
  show "first_in (rank_of key) (set xs) (map_option ((!) xs) (list_step key xs Call_First pos))"
  proof -
    have "first_in ?f {i \<in> {..<length xs}. True} (list_step key xs Call_First pos)" by (auto simp: list_step_def i)
    from f [OF this] show ?thesis by simp
  qed
  show "last_in (rank_of key) (set xs) (map_option ((!) xs) (list_step key xs Call_Last pos))"
  proof -
    have "last_in ?f {i \<in> {..<length xs}. True} (list_step key xs Call_Last pos)" by (auto simp: list_step_def i)
    from l [OF this] show ?thesis by simp
  qed
  show "p < length xs \<Longrightarrow> first_in (rank_of key) {x \<in> set xs. rank_of key (xs ! p) < rank_of key x}
      (map_option ((!) xs) (list_step key xs Call_Next (Some p)))"
    by (rule f) (auto simp: list_step_def i)
  show "p < length xs \<Longrightarrow> last_in (rank_of key) {x \<in> set xs. rank_of key x < rank_of key (xs ! p)}
      (map_option ((!) xs) (list_step key xs Call_Prev (Some p)))"
    by (rule l) (auto simp: list_step_def i)
  show "first_in (rank_of key) {x \<in> set xs. key k \<le> rank_of key x} (map_option ((!) xs) (list_step key xs (Call_Seek k) pos))"
  proof (rule f)
    show "first_in ?f {i \<in> {..<length xs}. key k \<le> rank_of key (xs ! i)} (list_step key xs (Call_Seek k) pos)"
    proof (cases "List.find (\<lambda>p. key k \<le> rank_of key (xs ! p)) [0..<length xs]")
      case None
      moreover from this have "\<forall>j<length xs. \<not> key k \<le> rank_of key (xs ! j)" by (auto simp: find_None_iff)
      ultimately show ?thesis by (auto simp: list_step_def)
    next
      case (Some p)
      then have p: "p < length xs" "key k \<le> rank_of key (xs ! p)" "\<forall>j<p. \<not> key k \<le> rank_of key (xs ! j)"
        by (auto simp: find_Some_iff)
      have "p \<le> j" if "key k \<le> rank_of key (xs ! j)" for j using p(3) that by (meson not_less)
      with p Some show ?thesis by (auto simp: list_step_def i)
    qed
  qed
qed

lemma list_step_index: "(\<forall>p. pos = Some p \<longrightarrow> p < length xs) \<Longrightarrow> list_step key xs call pos = Some p \<Longrightarrow> p < length xs"
  by (auto simp: list_step_def find_Some_iff bind_eq_Some_conv split: iter_call.splits if_splits)

context iterator_contract
begin

lemma at_unique:
  assumes "at i S c" and "at i S d"
  shows "c = d"
proof (cases c)
  case None
  with Valid [OF assms(1)] Valid [OF assms(2)] show ?thesis by (cases d) simp_all
next
  case (Some e)
  with Valid [OF assms(1)] Valid [OF assms(2)] obtain e' where d: "d = Some e'" by auto
  have "e = e'" using position [of i S e] position [of i S e'] assms Some d by (simp add: prod_eq_iff)
  with Some d show ?thesis by simp
qed

lemma step_refines:
  assumes "at i S (map_option ((!) xs) pos)" and "set xs = S" and s: "sorted_wrt (\<lambda>a b. rank_of key a < rank_of key b) xs"
    and "\<forall>p. pos = Some p \<longrightarrow> p < length xs" and "\<forall>k. call = Call_Seek k \<longrightarrow> valid k"
  shows "\<exists>i'. iter_step ops call i = Some i' \<and> at i' S (map_option ((!) xs) (list_step key xs call pos))"
proof -
  note spec = list_step_spec [OF s, unfolded assms(2)]
  have inj: "inj_on (rank_of key) A" if "A \<subseteq> S" for A
    using sorted_strict_inj [OF s] that by (auto simp: assms(2) intro: inj_on_subset)
  have f: "\<exists>i'. r = Some i' \<and> at i' S c" if "\<exists>i' c'. r = Some i' \<and> at i' S c' \<and> first_in (rank_of key) A c'"
      "first_in (rank_of key) A c" "A \<subseteq> S" for r A c
    using that first_in_unique [OF inj [OF that(3)]] by blast
  have l: "\<exists>i'. r = Some i' \<and> at i' S c" if "\<exists>i' c'. r = Some i' \<and> at i' S c' \<and> last_in (rank_of key) A c'"
      "last_in (rank_of key) A c" "A \<subseteq> S" for r A c
    using that last_in_unique [OF inj [OF that(3)]] by blast
  show ?thesis
  proof (cases call)
    case Call_First
    show ?thesis unfolding Call_First iter_step_def iter_call.case
      by (rule f [OF SeekToFirst [OF assms(1)] spec(1) subset_refl])
  next
    case Call_Last
    show ?thesis unfolding Call_Last iter_step_def iter_call.case
      by (rule l [OF SeekToLast [OF assms(1)] spec(2) subset_refl])
  next
    case (Call_Seek k)
    with assms(5) have "valid k" by simp
    show ?thesis unfolding Call_Seek iter_step_def iter_call.case
      by (rule f [OF Seek [OF assms(1) \<open>valid k\<close>] spec(3)]) blast
  next
    case Call_Next
    show ?thesis
    proof (cases pos)
      case None
      with Valid [OF assms(1)] assms(1) show ?thesis by (simp add: Call_Next iter_step_def list_step_def)
    next
      case (Some p)
      with assms(1,4) have p: "at i S (Some (xs ! p))" "p < length xs" by simp_all
      have "op_Valid ops i" using Valid [OF p(1)] by simp
      then show ?thesis unfolding Call_Next iter_step_def iter_call.case Some
        using f [OF Next [OF p(1)] spec(4) [OF p(2)]] by simp
    qed
  next
    case Call_Prev
    show ?thesis
    proof (cases pos)
      case None
      with Valid [OF assms(1)] assms(1) show ?thesis by (simp add: Call_Prev iter_step_def list_step_def)
    next
      case (Some p)
      with assms(1,4) have p: "at i S (Some (xs ! p))" "p < length xs" by simp_all
      have "op_Valid ops i" using Valid [OF p(1)] by simp
      then show ?thesis unfolding Call_Prev iter_step_def iter_call.case Some
        using l [OF Prev [OF p(1)] spec(5) [OF p(2)]] by simp
    qed
  qed
qed

lemma entry_at: "at i S c \<Longrightarrow> iter_entry ops i = c"
  using position [of i S] Valid [of i S c] by (cases c) (auto simp: iter_entry_def prod_eq_iff)

text \<open>Any calls, in any order, give what they give on the list.\<close>

lemma run_refines:
  assumes "at i S (map_option ((!) xs) pos)" and "set xs = S" and "sorted_wrt (\<lambda>a b. rank_of key a < rank_of key b) xs"
    and "\<forall>p. pos = Some p \<longrightarrow> p < length xs" and "calls_valid valid calls"
  shows "iter_run ops calls i = Some (list_run key xs calls pos)"
  using assms
proof (induction calls arbitrary: i pos)
  case (Cons call calls)
  let ?pos = "list_step key xs call pos"
  from Cons.prems(5) have v: "\<forall>k. call = Call_Seek k \<longrightarrow> valid k" "calls_valid valid calls" by (auto simp: calls_valid_def)
  obtain i' where i': "iter_step ops call i = Some i'" "at i' S (map_option ((!) xs) ?pos)"
    using step_refines [OF Cons.prems(1-4) v(1)] by blast
  have "\<forall>p. ?pos = Some p \<longrightarrow> p < length xs" using list_step_index [OF Cons.prems(4)] by blast
  from Cons.IH [OF i'(2) Cons.prems(2,3) this v(2)] show ?case
    using i'(1) entry_at [OF i'(2)] by (simp add: Let_def)
qed simp

end

section \<open>Instances\<close>

text \<open>Nothing to iterate.\<close>

interpretation empty: iterator_contract empty_class key valid "\<lambda>s S c. s = OK \<and> S = {} \<and> c = None"
  for key :: "slice \<Rightarrow> 'k::linorder" and valid
  by unfold_locales (auto simp: empty_class_def)

text \<open>An object of either class.\<close>

definition at_either :: "('a \<Rightarrow> 's \<Rightarrow> 'c \<Rightarrow> bool) \<Rightarrow> ('b \<Rightarrow> 's \<Rightarrow> 'c \<Rightarrow> bool) \<Rightarrow> 'a + 'b \<Rightarrow> 's \<Rightarrow> 'c \<Rightarrow> bool" where
  "at_either atA atB i S c = (case i of Inl a \<Rightarrow> atA a S c | Inr b \<Rightarrow> atB b S c)"

lemma at_either_simps [simp]:
  "at_either atA atB (Inl a) S c = atA a S c" "at_either atA atB (Inr b) S c = atB b S c"
  by (simp_all add: at_either_def)

lemma either_step:
  "\<exists>i' c'. r = Some i' \<and> atA i' S c' \<and> Q c' \<Longrightarrow> \<exists>i' c'. map_option Inl r = Some i' \<and> at_either atA atB i' S c' \<and> Q c'"
  "\<exists>i' c'. t = Some i' \<and> atB i' S c' \<and> Q c' \<Longrightarrow> \<exists>i' c'. map_option Inr t = Some i' \<and> at_either atA atB i' S c' \<and> Q c'"
  by force+

lemma either_contract:
  assumes A: "iterator_contract A key valid atA" and B: "iterator_contract B key valid atB"
  shows "iterator_contract (either_class A B) key valid (at_either atA atB)"
proof
  note E = either_class_def iterator_class.simps comp_def sum.case
  fix i S c
  assume a: "at_either atA atB i S c"
  show "finite S \<and> inj_on (rank_of key) S \<and> (\<forall>e\<in>S. valid (fst e))"
    using a iterator_contract.entries [OF A] iterator_contract.entries [OF B] by (cases i) simp_all
  show "op_Valid (either_class A B) i \<longleftrightarrow> c \<noteq> None"
    using a iterator_contract.Valid [OF A] iterator_contract.Valid [OF B] by (cases i) (simp_all add: either_class_def)
  show "op_status (either_class A B) i = OK"
    using a iterator_contract.status [OF A] iterator_contract.status [OF B] by (cases i) (simp_all add: either_class_def)
  show "\<exists>i' c'. op_SeekToFirst (either_class A B) i = Some i' \<and> at_either atA atB i' S c' \<and> first_in (rank_of key) S c'"
  proof (cases i)
    case (Inl x)
    then show ?thesis using a unfolding Inl E at_either_simps by (intro either_step iterator_contract.SeekToFirst [OF A])
  next
    case (Inr x)
    then show ?thesis using a unfolding Inr E at_either_simps by (intro either_step iterator_contract.SeekToFirst [OF B])
  qed
  show "\<exists>i' c'. op_SeekToLast (either_class A B) i = Some i' \<and> at_either atA atB i' S c' \<and> last_in (rank_of key) S c'"
  proof (cases i)
    case (Inl x)
    then show ?thesis using a unfolding Inl E at_either_simps by (intro either_step iterator_contract.SeekToLast [OF A])
  next
    case (Inr x)
    then show ?thesis using a unfolding Inr E at_either_simps by (intro either_step iterator_contract.SeekToLast [OF B])
  qed
  show "\<exists>i' c'. op_Seek (either_class A B) k i = Some i' \<and> at_either atA atB i' S c' \<and> first_in (rank_of key) {x \<in> S. key k \<le> rank_of key x} c'" if "valid k" for k
  proof (cases i)
    case (Inl x)
    then show ?thesis using a that unfolding Inl E at_either_simps by (intro either_step iterator_contract.Seek [OF A])
  next
    case (Inr x)
    then show ?thesis using a that unfolding Inr E at_either_simps by (intro either_step iterator_contract.Seek [OF B])
  qed
next
  note E = either_class_def iterator_class.simps comp_def sum.case
  fix i S e
  assume a: "at_either atA atB i S (Some e)"
  show "e \<in> S \<and> op_key (either_class A B) i = fst e \<and> op_value (either_class A B) i = snd e"
    using a iterator_contract.position [OF A] iterator_contract.position [OF B] by (cases i) (simp_all add: either_class_def)
  show "\<exists>i' c'. op_Next (either_class A B) i = Some i' \<and> at_either atA atB i' S c' \<and> first_in (rank_of key) {x \<in> S. rank_of key e < rank_of key x} c'"
  proof (cases i)
    case (Inl x)
    then show ?thesis using a unfolding Inl E at_either_simps by (intro either_step iterator_contract.Next [OF A])
  next
    case (Inr x)
    then show ?thesis using a unfolding Inr E at_either_simps by (intro either_step iterator_contract.Next [OF B])
  qed
  show "\<exists>i' c'. op_Prev (either_class A B) i = Some i' \<and> at_either atA atB i' S c' \<and> last_in (rank_of key) {x \<in> S. rank_of key x < rank_of key e} c'"
  proof (cases i)
    case (Inl x)
    then show ?thesis using a unfolding Inl E at_either_simps by (intro either_step iterator_contract.Prev [OF A])
  next
    case (Inr x)
    then show ?thesis using a unfolding Inr E at_either_simps by (intro either_step iterator_contract.Prev [OF B])
  qed
qed

subsection \<open>A memtable\<close>

text \<open>\<open>MemTableIterator\<close>: the table and the node.\<close>

type_synonym mem_iter = "memtable \<times> nat option"

definition mem_iterator :: "mem_iter iterator_class" where
  "mem_iterator = \<lparr>op_Valid = (\<lambda>(mt, node). sl_Valid node),
     op_SeekToFirst = (\<lambda>(mt, node). Some (mt, mem_SeekToFirst mt)),
     op_SeekToLast = (\<lambda>(mt, node). map_option (Pair mt) (mem_SeekToLast mt)),
     op_Seek = (\<lambda>k (mt, node). map_option (Pair mt) (mem_Seek k mt)),
     op_Next = (\<lambda>(mt, node). map_option (\<lambda>n. (mt, mem_Next mt n)) node),
     op_Prev = (\<lambda>(mt, node). Option.bind node (\<lambda>n. map_option (Pair mt) (mem_Prev mt n))),
     op_key = (\<lambda>(mt, node). case node of None \<Rightarrow> [] | Some n \<Rightarrow> mem_key mt n),
     op_value = (\<lambda>(mt, node). case node of None \<Rightarrow> [] | Some n \<Rightarrow> mem_value mt n), op_status = \<lambda>_. OK\<rparr>"

definition mem_NewIterator :: "memtable \<Rightarrow> mem_iter" where
  "mem_NewIterator mt = (mt, None)"

text \<open>The order of internal keys, and the keys a memtable can look for.\<close>

definition ikey_rank :: "(slice \<Rightarrow> 'k) \<Rightarrow> slice \<Rightarrow> 'k internal_order" where
  "ikey_rank key k = IKey (key (ExtractUserKey k)) (key_tag k)"

definition ikey_valid :: "slice \<Rightarrow> bool" where
  "ikey_valid k \<longleftrightarrow> 8 \<le> length k \<and> length k < 2 ^ 32"

definition mem_pair :: "memtable \<Rightarrow> nat \<Rightarrow> slice \<times> slice" where
  "mem_pair mt x = (mem_key mt x, mem_value mt x)"

definition mem_at :: "mem_iter \<Rightarrow> (slice \<times> slice) set \<Rightarrow> (slice \<times> slice) option \<Rightarrow> bool" where
  "mem_at i S c \<longleftrightarrow> (case i of (mt, node) \<Rightarrow> mt_comparator mt = BytewiseComparator
     \<and> (\<exists>ns. skip_nodes bytewise_mem any_mem (mt_table mt) ns \<and> S = mem_pair mt ` set ns
          \<and> (case node of None \<Rightarrow> True | Some x \<Rightarrow> x \<in> set ns) \<and> c = map_option (mem_pair mt) node))"

lemma mem_key_rank: "any_mem (sl_key (mt_table mt) x) \<Longrightarrow> mem_rank (\<lambda>k. k) (sl_key (mt_table mt) x) = rank_of (ikey_rank (\<lambda>k. k)) (mem_pair mt x)"
  by (simp add: mem_rank_def rank_of_def ikey_rank_def mem_pair_def mem_key_def Let_def)

lemma mem_key_valid: "any_mem (sl_key (mt_table mt) x) \<Longrightarrow> ikey_valid (fst (mem_pair mt x))"
  by (auto simp: mem_valid_def mem_pair_def mem_key_def ikey_valid_def LengthPrefixed_varint)

lemma nodes_rank:
  assumes "skip_nodes bytewise_mem any_mem (mt_table mt) ns"
  shows "sorted_wrt (\<lambda>x y. rank_of (ikey_rank (\<lambda>k. k)) (mem_pair mt x) < rank_of (ikey_rank (\<lambda>k. k)) (mem_pair mt y)) ns"
    and "x \<in> set ns \<Longrightarrow> any_mem (sl_key (mt_table mt) x)"
proof -
  from assms have s: "sorted_wrt (\<lambda>x y. bytewise_mem (sl_key (mt_table mt) x) (sl_key (mt_table mt) y) < 0) ns"
    and v: "\<forall>x\<in>set ns. any_mem (sl_key (mt_table mt) x)" by (auto simp: skip_nodes_def skip_levels_def)
  show "x \<in> set ns \<Longrightarrow> any_mem (sl_key (mt_table mt) x)" using v by blast
  show "sorted_wrt (\<lambda>x y. rank_of (ikey_rank (\<lambda>k. k)) (mem_pair mt x) < rank_of (ikey_rank (\<lambda>k. k)) (mem_pair mt y)) ns"
    by (rule sorted_wrt_mono_rel [OF _ s]) (use v in \<open>simp add: mem.cmp_less mem_key_rank\<close>)
qed

lemma EncodeKey_valid:
  "ikey_valid k \<Longrightarrow> any_mem (EncodeKey k)" "ikey_valid k \<Longrightarrow> mem_rank (\<lambda>k. k) (EncodeKey k) = ikey_rank (\<lambda>k. k) k"
  using mem_validI [of k "\<lambda>_. True" "[]"] LengthPrefixed_varint [of k "[]"]
  by (simp_all add: EncodeKey_def PutVarint32_def ikey_valid_def mem_rank_def ikey_rank_def Let_def)

text \<open>Sorted nodes: the first and the last of a part of the list.\<close>

lemma find_first:
  assumes "sorted_wrt (\<lambda>x y. f x < (f y :: 'k::linorder)) ns"
  shows "first_in f {x \<in> set ns. P x} (List.find P ns)"
  using assms
proof (induction ns)
  case (Cons x ns)
  show ?case
  proof (cases "P x")
    case True
    with Cons.prems show ?thesis by (auto intro: less_imp_le)
  next
    case False
    then have "{y \<in> set (x # ns). P y} = {y \<in> set ns. P y}" by auto
    with Cons False show ?thesis by simp
  qed
qed simp

lemma sorted_last:
  assumes "sorted_wrt (\<lambda>x y. f x < (f y :: 'k::linorder)) ns"
  shows "last_in f (set ns) (if ns = [] then None else Some (last ns))"
  using assms by (induction ns) (auto simp: last_in_def split: if_splits intro: less_imp_le)

lemma sorted_around:
  assumes "sorted_wrt (\<lambda>x y. f x < (f y :: 'k::linorder)) (as @ x # bs)"
  shows "first_in f {y \<in> set (as @ x # bs). f x < f y} (hd_option bs)"
    and "last_in f {y \<in> set (as @ x # bs). f y < f x} (if as = [] then None else Some (last as))"
proof -
  have s: "sorted_wrt (\<lambda>x y. f x < f y) as" "sorted_wrt (\<lambda>x y. f x < f y) bs" "\<forall>y\<in>set as. f y < f x" "\<forall>y\<in>set bs. f x < f y"
    using assms by (auto simp: sorted_wrt_append)
  have a: "{y \<in> set (as @ x # bs). f x < f y} = {y \<in> set bs. True}" and b: "{y \<in> set (as @ x # bs). f y < f x} = set as"
    using s(3,4) by (auto dest: less_asym)
  show "last_in f {y \<in> set (as @ x # bs). f y < f x} (if as = [] then None else Some (last as))"
    unfolding b by (rule sorted_last [OF s(1)])
  have "List.find (\<lambda>_. True) bs = hd_option bs" by (cases bs) (simp_all add: hd_option_def)
  with find_first [OF s(2), of "\<lambda>_. True"] show "first_in f {y \<in> set (as @ x # bs). f x < f y} (hd_option bs)"
    unfolding a by simp
qed

lemma find_in: "List.find P xs = Some x \<Longrightarrow> x \<in> set xs"
  by (induction xs) (auto split: if_splits)

lemma hd_option_in: "hd_option bs = Some y \<Longrightarrow> y \<in> set bs"
  by (cases bs) (simp_all add: hd_option_def)

text \<open>The iterator of a memtable keeps the promises of the interface.\<close>

abbreviation mem_order :: "slice \<times> slice \<Rightarrow> slice internal_order" where
  "mem_order \<equiv> rank_of (ikey_rank (\<lambda>k. k))"

lemma mem_at_nodes:
  assumes "mem_at i S c"
  obtains mt node ns where "i = (mt, node)" and "mt_comparator mt = BytewiseComparator"
    and "skip_nodes bytewise_mem any_mem (mt_table mt) ns" and "S = mem_pair mt ` set ns"
    and "c = map_option (mem_pair mt) node" and "\<forall>x. node = Some x \<longrightarrow> x \<in> set ns"
    and "sorted_wrt (\<lambda>x y. (mem_order \<circ> mem_pair mt) x < (mem_order \<circ> mem_pair mt) y) ns"
    and "\<And>node'. \<forall>x. node' = Some x \<longrightarrow> x \<in> set ns \<Longrightarrow> mem_at (mt, node') S (map_option (mem_pair mt) node')"
proof -
  obtain mt node where i: "i = (mt, node)" by (cases i)
  with assms obtain ns where n: "mt_comparator mt = BytewiseComparator" "skip_nodes bytewise_mem any_mem (mt_table mt) ns"
      "S = mem_pair mt ` set ns" "c = map_option (mem_pair mt) node" "\<forall>x. node = Some x \<longrightarrow> x \<in> set ns"
    by (auto simp: mem_at_def split: option.splits)
  show thesis
  proof (rule that [OF i n])
    show "sorted_wrt (\<lambda>x y. (mem_order \<circ> mem_pair mt) x < (mem_order \<circ> mem_pair mt) y) ns"
      using nodes_rank(1) [OF n(2)] by simp
    fix node' :: "nat option"
    assume "\<forall>x. node' = Some x \<longrightarrow> x \<in> set ns"
    with n(1-3) show "mem_at (mt, node') S (map_option (mem_pair mt) node')"
      by (auto simp: mem_at_def split: option.splits)
  qed
qed

interpretation mem_iter: iterator_contract mem_iterator "ikey_rank (\<lambda>k. k)" ikey_valid mem_at
proof
  fix i S c
  assume "mem_at i S c"
  then obtain mt node ns where i: "i = (mt, node)" and mt: "mt_comparator mt = BytewiseComparator"
    and ns: "skip_nodes bytewise_mem any_mem (mt_table mt) ns" and S: "S = mem_pair mt ` set ns"
    and c: "c = map_option (mem_pair mt) node" and node: "\<forall>x. node = Some x \<longrightarrow> x \<in> set ns"
    and sorted: "sorted_wrt (\<lambda>x y. (mem_order \<circ> mem_pair mt) x < (mem_order \<circ> mem_pair mt) y) ns"
    and at: "\<And>node'. \<forall>x. node' = Some x \<longrightarrow> x \<in> set ns \<Longrightarrow> mem_at (mt, node') S (map_option (mem_pair mt) node')"
    by (rule mem_at_nodes) blast
  show "finite S \<and> inj_on mem_order S \<and> (\<forall>e\<in>S. ikey_valid (fst e))"
    using inj_on_imageI [OF sorted_strict_inj [OF sorted]] nodes_rank(2) [OF ns] by (auto simp: S mem_key_valid)
  show "op_Valid mem_iterator i \<longleftrightarrow> c \<noteq> None" by (simp add: mem_iterator_def i c sl_Valid_def)
  show "op_status mem_iterator i = OK" by (simp add: mem_iterator_def)
  show "\<exists>i' c'. op_SeekToFirst mem_iterator i = Some i' \<and> mem_at i' S c' \<and> first_in mem_order S c'"
  proof -
    have f: "mem_SeekToFirst mt = List.find (\<lambda>_. True) ns"
      by (cases ns) (simp_all add: mem_SeekToFirst_def mem.SeekToFirst_nodes [OF ns] hd_option_def)
    have "first_in mem_order {y \<in> mem_pair mt ` set ns. True} (map_option (mem_pair mt) (mem_SeekToFirst mt))"
      unfolding f by (rule first_image [where P = "\<lambda>_. True"]) (rule find_first [OF sorted])
    then have "first_in mem_order S (map_option (mem_pair mt) (mem_SeekToFirst mt))" by (simp add: S)
    with at [of "mem_SeekToFirst mt"] show ?thesis by (auto simp: mem_iterator_def i f dest: find_in)
  qed
  show "\<exists>i' c'. op_SeekToLast mem_iterator i = Some i' \<and> mem_at i' S c' \<and> last_in mem_order S c'"
  proof -
    let ?n = "if ns = [] then None else Some (last ns)"
    have f: "mem_SeekToLast mt = Some ?n" by (simp add: mem_SeekToLast_def mem.SeekToLast_nodes [OF ns])
    from last_image [of mem_order "mem_pair mt" "set ns" "\<lambda>_. True" ?n] sorted_last [OF sorted]
    have "last_in mem_order S (map_option (mem_pair mt) ?n)" by (simp add: S)
    with at [of ?n] show ?thesis by (auto simp: mem_iterator_def i f)
  qed
  show "\<exists>i' c'. op_Seek mem_iterator k i = Some i' \<and> mem_at i' S c' \<and> first_in mem_order {x \<in> S. ikey_rank (\<lambda>k. k) k \<le> mem_order x} c'"
    if k: "ikey_valid k" for k
  proof -
    let ?n = "List.find (\<lambda>y. ikey_rank (\<lambda>k. k) k \<le> mem_order (mem_pair mt y)) ns"
    have "mem_Seek k mt = Some (List.find (\<lambda>y. \<not> bytewise_mem (sl_key (mt_table mt) y) (EncodeKey k) < 0) ns)"
      using mem.Seek_nodes [OF ns EncodeKey_valid(1) [OF k]] by (simp add: mem_Seek_def mt)
    also have "List.find (\<lambda>y. \<not> bytewise_mem (sl_key (mt_table mt) y) (EncodeKey k) < 0) ns = ?n"
    proof (rule find_cong_set)
      fix y
      assume "y \<in> set ns"
      note y = nodes_rank(2) [OF ns this]
      show "(\<not> bytewise_mem (sl_key (mt_table mt) y) (EncodeKey k) < 0) = (ikey_rank (\<lambda>k. k) k \<le> mem_order (mem_pair mt y))"
        by (simp add: mem.cmp_less [OF y EncodeKey_valid(1) [OF k]] EncodeKey_valid(2) [OF k] mem_key_rank [OF y] not_less)
    qed
    finally have f: "mem_Seek k mt = Some ?n" .
    have "first_in mem_order {x \<in> S. ikey_rank (\<lambda>k. k) k \<le> mem_order x} (map_option (mem_pair mt) ?n)"
      unfolding S by (rule first_image) (rule find_first [OF sorted])
    with at [of ?n] show ?thesis by (auto simp: mem_iterator_def i f dest: find_in)
  qed
next
  fix i S e
  assume "mem_at i S (Some e)"
  then obtain mt node ns where i: "i = (mt, node)" and mt: "mt_comparator mt = BytewiseComparator"
    and ns: "skip_nodes bytewise_mem any_mem (mt_table mt) ns" and S: "S = mem_pair mt ` set ns"
    and c: "Some e = map_option (mem_pair mt) node" and node: "\<forall>x. node = Some x \<longrightarrow> x \<in> set ns"
    and sorted: "sorted_wrt (\<lambda>x y. (mem_order \<circ> mem_pair mt) x < (mem_order \<circ> mem_pair mt) y) ns"
    and at: "\<And>node'. \<forall>x. node' = Some x \<longrightarrow> x \<in> set ns \<Longrightarrow> mem_at (mt, node') S (map_option (mem_pair mt) node')"
    by (rule mem_at_nodes) blast
  from c obtain x where x: "node = Some x" "e = mem_pair mt x" by (cases node) auto
  with node obtain as bs where split: "ns = as @ x # bs" by (auto dest: split_list)
  show "e \<in> S \<and> op_key mem_iterator i = fst e \<and> op_value mem_iterator i = snd e"
    using node x by (auto simp: mem_iterator_def i S mem_pair_def)
  note around = sorted_around [OF sorted [unfolded split], folded split]
  show "\<exists>i' c'. op_Next mem_iterator i = Some i' \<and> mem_at i' S c' \<and> first_in mem_order {y \<in> S. mem_order e < mem_order y} c'"
  proof -
    have f: "mem_Next mt x = hd_option bs" by (simp add: mem_Next_def mem.Next_nodes [OF ns [unfolded split]])
    have "first_in mem_order {y \<in> S. mem_order e < mem_order y} (map_option (mem_pair mt) (hd_option bs))"
      unfolding S x(2) by (rule first_image) (use around(1) in \<open>simp add: comp_def\<close>)
    with at [of "hd_option bs"] show ?thesis by (auto simp: mem_iterator_def i f x(1) split dest: hd_option_in)
  qed
  show "\<exists>i' c'. op_Prev mem_iterator i = Some i' \<and> mem_at i' S c' \<and> last_in mem_order {y \<in> S. mem_order y < mem_order e} c'"
  proof -
    let ?n = "if as = [] then None else Some (last as)"
    have f: "mem_Prev mt x = Some ?n" by (simp add: mem_Prev_def mt mem.Prev_nodes [OF ns [unfolded split]])
    have "last_in mem_order {y \<in> S. mem_order y < mem_order e} (map_option (mem_pair mt) ?n)"
      unfolding S x(2) by (rule last_image) (use around(2) in \<open>simp add: comp_def\<close>)
    with at [of ?n] show ?thesis by (auto simp: mem_iterator_def i f x(1) split)
  qed
qed

text \<open>The iterator of a table over the entries it holds.\<close>

definition entry_pair :: "entry \<Rightarrow> slice \<times> slice" where
  "entry_pair e = (entry_key e, entry_value e)"

lemma mem_NewIterator_at:
  assumes "mem_holds mt es"
  shows "mem_at (mem_NewIterator mt) (entry_pair ` set es) None"
proof -
  from assms obtain ns where n: "skip_nodes bytewise_mem any_mem (mt_table mt) ns" "map (sl_key (mt_table mt)) ns = map entry_bytes es"
    and es: "\<forall>e\<in>set es. entry_ok e" and c: "mt_comparator mt = BytewiseComparator" by (auto simp: mem_holds_def list_all_iff)
  have "map (mem_pair mt) ns = map (\<lambda>b. (fst (LengthPrefixed b), fst (LengthPrefixed (snd (LengthPrefixed b))))) (map (sl_key (mt_table mt)) ns)"
    by (simp add: mem_pair_def mem_key_def mem_value_def)
  also have "\<dots> = map entry_pair es"
    unfolding n(2) using es by (simp add: LengthPrefixed_entry LengthPrefixed_value entry_pair_def)
  finally have "entry_pair ` set es = mem_pair mt ` set ns" by (metis set_map)
  with n(1) c show ?thesis unfolding mem_at_def mem_NewIterator_def by (simp del: set_map) blast
qed

end
