(* ===== verification/Ldb_Merger.thy ===== *)
theory Ldb_Merger
  imports Ldb_Iterator "HOL-Library.Multiset"
begin

text \<open>
  \<open>leveldb-library/table/merger.cc\<close> and \<open>iterator_wrapper.h\<close>: an iterator over the union of what several iterators
  run over, in both directions and with changes of the direction. What is promised of an iterator is proved of
  it from what is promised of its children.
\<close>

section \<open>The code\<close>

subsection \<open>Wrappers\<close>

text \<open>A child with the results of \<open>Valid\<close> and \<open>key\<close> after the last call; \<open>None\<close> is the null pointer.\<close>

record 'i wrapper =
  wr_iter :: "'i option"
  wr_valid :: bool
  wr_key :: slice

definition wr_Update :: "'i iterator_class \<Rightarrow> 'i \<Rightarrow> 'i wrapper \<Rightarrow> 'i wrapper" where
  "wr_Update ops i w =
     (let valid = op_Valid ops i
      in w\<lparr>wr_iter := Some i, wr_valid := valid, wr_key := if valid then op_key ops i else wr_key w\<rparr>)"

definition wr_Set :: "'i iterator_class \<Rightarrow> 'i option \<Rightarrow> 'i wrapper \<Rightarrow> 'i wrapper" where
  "wr_Set ops iter w = (case iter of None \<Rightarrow> w\<lparr>wr_iter := None, wr_valid := False\<rparr> | Some i \<Rightarrow> wr_Update ops i w)"

definition IteratorWrapper :: "'i wrapper" where
  "IteratorWrapper = \<lparr>wr_iter = None, wr_valid = False, wr_key = []\<rparr>"

text \<open>A call of the child and the update behind it.\<close>

definition wr_call :: "'i iterator_class \<Rightarrow> ('i \<Rightarrow> 'i option) \<Rightarrow> 'i wrapper \<Rightarrow> 'i wrapper option" where
  "wr_call ops f w = Option.bind (wr_iter w) (\<lambda>i. map_option (\<lambda>i. wr_Update ops i w) (f i))"

definition wr_value :: "'i iterator_class \<Rightarrow> 'i wrapper \<Rightarrow> slice" where
  "wr_value ops w = (case wr_iter w of None \<Rightarrow> [] | Some i \<Rightarrow> op_value ops i)"

definition wr_status :: "'i iterator_class \<Rightarrow> 'i wrapper \<Rightarrow> status" where
  "wr_status ops w = (case wr_iter w of None \<Rightarrow> OK | Some i \<Rightarrow> op_status ops i)"

subsection \<open>The merging iterator\<close>

datatype direction = kForward | kReverse

text \<open>\<open>current_\<close> is the index of a child.\<close>

record 'i merging =
  mg_children :: "'i wrapper list"
  mg_current :: "nat option"
  mg_direction :: direction

definition MergingIterator :: "'i iterator_class \<Rightarrow> 'i list \<Rightarrow> 'i merging" where
  "MergingIterator ops children =
     \<lparr>mg_children = map (\<lambda>i. wr_Set ops (Some i) IteratorWrapper) children, mg_current = None, mg_direction = kForward\<rparr>"

text \<open>The body of the loops of \<open>FindSmallest\<close> and \<open>FindLargest\<close>, which differ in the test and the order.\<close>

definition pick_child :: "(int \<Rightarrow> bool) \<Rightarrow> comparator \<Rightarrow> 'i wrapper list \<Rightarrow> nat \<Rightarrow> nat option \<Rightarrow> nat option" where
  "pick_child better cmp ws i best =
     (if wr_valid (ws ! i) then
        (case best of None \<Rightarrow> Some i
         | Some b \<Rightarrow> if better (Compare cmp (wr_key (ws ! i)) (wr_key (ws ! b))) then Some i else best)
      else best)"

definition FindSmallest :: "comparator \<Rightarrow> 'i merging \<Rightarrow> 'i merging" where
  "FindSmallest cmp m =
     m\<lparr>mg_current := fold (pick_child (\<lambda>r. r < 0) cmp (mg_children m)) [0..<length (mg_children m)] None\<rparr>"

definition FindLargest :: "comparator \<Rightarrow> 'i merging \<Rightarrow> 'i merging" where
  "FindLargest cmp m =
     m\<lparr>mg_current := fold (pick_child (\<lambda>r. 0 < r) cmp (mg_children m)) (rev [0..<length (mg_children m)]) None\<rparr>"

text \<open>The loops over the children.\<close>

fun each_child :: "(nat \<Rightarrow> 'i wrapper \<Rightarrow> 'i wrapper option) \<Rightarrow> nat \<Rightarrow> 'i wrapper list \<Rightarrow> 'i wrapper list option" where
  "each_child f i [] = Some []"
| "each_child f i (w # ws) = Option.bind (f i w) (\<lambda>w. map_option ((#) w) (each_child f (Suc i) ws))"

definition mg_Valid :: "'i merging \<Rightarrow> bool" where
  "mg_Valid m \<longleftrightarrow> mg_current m \<noteq> None"

definition mg_key :: "'i merging \<Rightarrow> slice" where
  "mg_key m = (case mg_current m of None \<Rightarrow> [] | Some k \<Rightarrow> wr_key (mg_children m ! k))"

definition mg_value :: "'i iterator_class \<Rightarrow> 'i merging \<Rightarrow> slice" where
  "mg_value ops m = (case mg_current m of None \<Rightarrow> [] | Some k \<Rightarrow> wr_value ops (mg_children m ! k))"

fun first_error :: "status list \<Rightarrow> status" where
  "first_error [] = OK"
| "first_error (s # ss) = (if ok s then first_error ss else s)"

definition mg_status :: "'i iterator_class \<Rightarrow> 'i merging \<Rightarrow> status" where
  "mg_status ops m = first_error (map (wr_status ops) (mg_children m))"

definition mg_SeekToFirst :: "'i iterator_class \<Rightarrow> comparator \<Rightarrow> 'i merging \<Rightarrow> 'i merging option" where
  "mg_SeekToFirst ops cmp m =
     map_option (\<lambda>ws. (FindSmallest cmp (m\<lparr>mg_children := ws\<rparr>))\<lparr>mg_direction := kForward\<rparr>)
       (each_child (\<lambda>_. wr_call ops (op_SeekToFirst ops)) 0 (mg_children m))"

definition mg_SeekToLast :: "'i iterator_class \<Rightarrow> comparator \<Rightarrow> 'i merging \<Rightarrow> 'i merging option" where
  "mg_SeekToLast ops cmp m =
     map_option (\<lambda>ws. (FindLargest cmp (m\<lparr>mg_children := ws\<rparr>))\<lparr>mg_direction := kReverse\<rparr>)
       (each_child (\<lambda>_. wr_call ops (op_SeekToLast ops)) 0 (mg_children m))"

definition mg_Seek :: "'i iterator_class \<Rightarrow> comparator \<Rightarrow> slice \<Rightarrow> 'i merging \<Rightarrow> 'i merging option" where
  "mg_Seek ops cmp target m =
     map_option (\<lambda>ws. (FindSmallest cmp (m\<lparr>mg_children := ws\<rparr>))\<lparr>mg_direction := kForward\<rparr>)
       (each_child (\<lambda>_. wr_call ops (op_Seek ops target)) 0 (mg_children m))"

text \<open>What the loops that change the direction do to a child.\<close>

definition turn_forward :: "'i iterator_class \<Rightarrow> comparator \<Rightarrow> slice \<Rightarrow> 'i wrapper \<Rightarrow> 'i wrapper option" where
  "turn_forward ops cmp k child =
     Option.bind (wr_call ops (op_Seek ops k) child) (\<lambda>child.
       if wr_valid child \<and> Compare cmp k (wr_key child) = 0 then wr_call ops (op_Next ops) child else Some child)"

definition turn_back :: "'i iterator_class \<Rightarrow> slice \<Rightarrow> 'i wrapper \<Rightarrow> 'i wrapper option" where
  "turn_back ops k child =
     Option.bind (wr_call ops (op_Seek ops k) child) (\<lambda>child.
       if wr_valid child then wr_call ops (op_Prev ops) child else wr_call ops (op_SeekToLast ops) child)"

definition turn_children :: "('i wrapper \<Rightarrow> 'i wrapper option) \<Rightarrow> 'i merging \<Rightarrow> 'i merging option" where
  "turn_children f m =
     map_option (\<lambda>ws. m\<lparr>mg_children := ws\<rparr>)
       (each_child (\<lambda>i child. if Some i \<noteq> mg_current m then f child else Some child) 0 (mg_children m))"

definition step_current :: "'i iterator_class \<Rightarrow> ('i \<Rightarrow> 'i option) \<Rightarrow> 'i merging \<Rightarrow> 'i merging option" where
  "step_current ops f m =
     Option.bind (mg_current m) (\<lambda>k.
       map_option (\<lambda>w. m\<lparr>mg_children := (mg_children m)[k := w]\<rparr>) (wr_call ops f (mg_children m ! k)))"

definition mg_Next :: "'i iterator_class \<Rightarrow> comparator \<Rightarrow> 'i merging \<Rightarrow> 'i merging option" where
  "mg_Next ops cmp m =
     Option.bind
       (if mg_direction m \<noteq> kForward then
          map_option (\<lambda>m. m\<lparr>mg_direction := kForward\<rparr>) (turn_children (turn_forward ops cmp (mg_key m)) m)
        else Some m)
       (\<lambda>m. map_option (FindSmallest cmp) (step_current ops (op_Next ops) m))"

definition mg_Prev :: "'i iterator_class \<Rightarrow> comparator \<Rightarrow> 'i merging \<Rightarrow> 'i merging option" where
  "mg_Prev ops cmp m =
     Option.bind
       (if mg_direction m \<noteq> kReverse then
          map_option (\<lambda>m. m\<lparr>mg_direction := kReverse\<rparr>) (turn_children (turn_back ops (mg_key m)) m)
        else Some m)
       (\<lambda>m. map_option (FindLargest cmp) (step_current ops (op_Prev ops) m))"

definition merging_class :: "'i iterator_class \<Rightarrow> comparator \<Rightarrow> 'i merging iterator_class" where
  "merging_class ops cmp = \<lparr>op_Valid = mg_Valid, op_SeekToFirst = mg_SeekToFirst ops cmp, op_SeekToLast = mg_SeekToLast ops cmp,
     op_Seek = mg_Seek ops cmp, op_Next = mg_Next ops cmp, op_Prev = mg_Prev ops cmp, op_key = mg_key,
     op_value = mg_value ops, op_status = mg_status ops\<rparr>"

text \<open>No children, one, or more.\<close>

type_synonym 'i merged = "status + 'i + 'i merging"

definition merged_class :: "'i iterator_class \<Rightarrow> comparator \<Rightarrow> 'i merged iterator_class" where
  "merged_class ops cmp = either_class empty_class (either_class ops (merging_class ops cmp))"

definition NewMergingIterator :: "'i iterator_class \<Rightarrow> 'i list \<Rightarrow> 'i merged" where
  "NewMergingIterator ops children =
     (case children of [] \<Rightarrow> Inl OK | [child] \<Rightarrow> Inr (Inl child) | _ \<Rightarrow> Inr (Inr (MergingIterator ops children)))"

section \<open>The best of a set\<close>

text \<open>\<open>first_in\<close> and \<open>last_in\<close> at once: \<open>le\<close> is the order or the reverse order.\<close>

definition best_in :: "('k \<Rightarrow> 'k \<Rightarrow> bool) \<Rightarrow> ('a \<Rightarrow> 'k) \<Rightarrow> 'a set \<Rightarrow> 'a option \<Rightarrow> bool" where
  "best_in le f A c = (case c of None \<Rightarrow> A = {} | Some a \<Rightarrow> a \<in> A \<and> (\<forall>b\<in>A. le (f a) (f b)))"

lemma best_in_simps [simp]:
  "best_in le f A None \<longleftrightarrow> A = {}" "best_in le f A (Some a) \<longleftrightarrow> a \<in> A \<and> (\<forall>b\<in>A. le (f a) (f b))"
  by (simp_all add: best_in_def)

lemma best_in_first: "best_in (\<le>) = first_in" "best_in (\<lambda>a b. b \<le> a) = last_in"
  by (intro ext, simp add: best_in_def first_in_def) (intro ext, simp add: best_in_def last_in_def)

definition dir_le :: "direction \<Rightarrow> 'k::linorder \<Rightarrow> 'k \<Rightarrow> bool" where
  "dir_le d a b = (case d of kForward \<Rightarrow> a \<le> b | kReverse \<Rightarrow> b \<le> a)"

lemma dir_le_order:
  "dir_le d a a" "dir_le d a b \<Longrightarrow> dir_le d b c \<Longrightarrow> dir_le d a c" "dir_le d a b \<or> dir_le d b a"
  "dir_le d a b \<Longrightarrow> dir_le d b a \<Longrightarrow> a = b"
  by (cases d; auto simp: dir_le_def)+

lemma best_in_dir: "(best_in (dir_le kForward) :: ('a \<Rightarrow> 'b::linorder) \<Rightarrow> _) = first_in"
  "(best_in (dir_le kReverse) :: ('a \<Rightarrow> 'b::linorder) \<Rightarrow> _) = last_in"
proof -
  have "(dir_le kForward :: 'b \<Rightarrow> _) = (\<le>)" "(dir_le kReverse :: 'b \<Rightarrow> _) = (\<lambda>a b. b \<le> a)" by (simp_all add: dir_le_def fun_eq_iff)
  then show "(best_in (dir_le kForward) :: ('a \<Rightarrow> 'b::linorder) \<Rightarrow> _) = first_in"
      "(best_in (dir_le kReverse) :: ('a \<Rightarrow> 'b::linorder) \<Rightarrow> _) = last_in" by (simp_all only: best_in_first)
qed

section \<open>Positions\<close>

definition child_at :: "('i \<Rightarrow> (slice \<times> slice) set \<Rightarrow> (slice \<times> slice) option \<Rightarrow> bool) \<Rightarrow> 'i wrapper \<Rightarrow>
    (slice \<times> slice) set \<Rightarrow> (slice \<times> slice) option \<Rightarrow> bool" where
  "child_at at w S c \<longleftrightarrow> (\<exists>i. wr_iter w = Some i \<and> at i S c) \<and> wr_valid w = (c \<noteq> None) \<and> (\<forall>e. c = Some e \<longrightarrow> wr_key w = fst e)"

text \<open>The entries are those of the children, which have none in common.\<close>

definition parted :: "(slice \<Rightarrow> 'k) \<Rightarrow> (slice \<times> slice) set \<Rightarrow> (slice \<times> slice) set list \<Rightarrow> bool" where
  "parted key S Ss \<longleftrightarrow> S = \<Union> (set Ss) \<and> inj_on (rank_of key) S
     \<and> (\<forall>i<length Ss. \<forall>j<length Ss. i \<noteq> j \<longrightarrow> Ss ! i \<inter> Ss ! j = {})"

text \<open>Every child is at the best, in a direction, of its entries with \<open>P\<close>.\<close>

definition children_at :: "('i \<Rightarrow> (slice \<times> slice) set \<Rightarrow> (slice \<times> slice) option \<Rightarrow> bool) \<Rightarrow> (slice \<Rightarrow> 'k::linorder) \<Rightarrow> direction \<Rightarrow>
    ('k \<Rightarrow> bool) \<Rightarrow> 'i wrapper list \<Rightarrow> (slice \<times> slice) set list \<Rightarrow> bool" where
  "children_at at key d P ws Ss \<longleftrightarrow> length ws = length Ss
     \<and> (\<forall>j<length ws. \<exists>c. child_at at (ws ! j) (Ss ! j) c \<and> best_in (dir_le d) (rank_of key) {x \<in> Ss ! j. P (rank_of key x)} c)"

definition merge_at :: "('i \<Rightarrow> (slice \<times> slice) set \<Rightarrow> (slice \<times> slice) option \<Rightarrow> bool) \<Rightarrow> (slice \<Rightarrow> 'k::linorder) \<Rightarrow>
    'i merging \<Rightarrow> (slice \<times> slice) set \<Rightarrow> (slice \<times> slice) option \<Rightarrow> bool" where
  "merge_at at key m S c \<longleftrightarrow> (\<exists>Ss. parted key S Ss \<and> length (mg_children m) = length Ss
     \<and> (\<forall>j<length Ss. \<exists>c. child_at at (mg_children m ! j) (Ss ! j) c)
     \<and> (case mg_current m of None \<Rightarrow> c = None
        | Some k \<Rightarrow> k < length Ss \<and> (\<exists>e. c = Some e \<and> e \<in> Ss ! k
            \<and> children_at at key (mg_direction m) (dir_le (mg_direction m) (rank_of key e)) (mg_children m) Ss)))"

text \<open>A wrapped iterator, and a call of it.\<close>

context iterator_contract
begin

lemma child_facts:
  assumes "child_at at w S c"
  shows "finite S" and "inj_on (rank_of key) S" and "e \<in> S \<Longrightarrow> valid (fst e)" and "wr_valid w \<longleftrightarrow> c \<noteq> None"
    and "c = Some e \<Longrightarrow> e \<in> S \<and> wr_key w = fst e" and "c = Some e \<Longrightarrow> wr_value ops w = snd e" and "wr_status ops w = OK"
proof -
  from assms obtain i where i: "wr_iter w = Some i" "at i S c" and w: "wr_valid w = (c \<noteq> None)" "\<forall>e. c = Some e \<longrightarrow> wr_key w = fst e"
    by (auto simp: child_at_def)
  note en = entries [OF i(2)]
  show "finite S" "inj_on (rank_of key) S" "e \<in> S \<Longrightarrow> valid (fst e)" using en by blast+
  show "wr_valid w \<longleftrightarrow> c \<noteq> None" by (rule w(1))
  show "c = Some e \<Longrightarrow> e \<in> S \<and> wr_key w = fst e" using position [of i S e] i(2) w(2) by simp
  show "c = Some e \<Longrightarrow> wr_value ops w = snd e" using position [of i S e] i by (simp add: wr_value_def)
  show "wr_status ops w = OK" using status [OF i(2)] i(1) by (simp add: wr_status_def)
qed

lemma child_call:
  assumes "child_at at w S c" and "\<And>i. at i S c \<Longrightarrow> \<exists>i' c'. f i = Some i' \<and> at i' S c' \<and> Q c'"
  shows "\<exists>w' c'. wr_call ops f w = Some w' \<and> child_at at w' S c' \<and> Q c'"
proof -
  from assms(1) obtain i where i: "wr_iter w = Some i" "at i S c" by (auto simp: child_at_def)
  from assms(2) [OF i(2)] obtain i' c' where f: "f i = Some i'" "at i' S c'" "Q c'" by blast
  have "child_at at (wr_Update ops i' w) S c'"
    using f(2) Valid [OF f(2)] position [of i' S] by (auto simp: child_at_def wr_Update_def Let_def)
  with f i(1) show ?thesis by (auto simp: wr_call_def)
qed

lemma new_child: "at i S c \<Longrightarrow> child_at at (wr_Set ops (Some i) w) S c"
  using Valid [of i S c] position [of i S] by (auto simp: child_at_def wr_Set_def wr_Update_def Let_def)

end

text \<open>The comparator of the merging iterator agrees with the order its children are sorted by.\<close>

locale merging = iterator_contract ops key valid at + ordered_keys "Compare cmp" valid key
  for ops :: "'i iterator_class" and key :: "slice \<Rightarrow> 'k::linorder" and valid at and cmp :: comparator
begin

lemma each_child_all:
  assumes "\<And>j. j < length ws \<Longrightarrow> \<exists>w. f (i + j) (ws ! j) = Some w \<and> Q j w"
  shows "\<exists>ws'. each_child f i ws = Some ws' \<and> length ws' = length ws \<and> (\<forall>j<length ws. Q j (ws' ! j))"
  using assms
proof (induction ws arbitrary: i Q)
  case (Cons w ws)
  from Cons.prems [of 0] obtain w' where w': "f i w = Some w'" "Q 0 w'" by auto
  have "\<exists>w. f (Suc i + j) (ws ! j) = Some w \<and> Q (Suc j) w" if "j < length ws" for j
    using Cons.prems [of "Suc j"] that by simp
  from Cons.IH [of "Suc i" "\<lambda>j. Q (Suc j)", OF this] obtain ws' where
    "each_child f (Suc i) ws = Some ws'" "length ws' = length ws" "\<forall>j<length ws. Q (Suc j) (ws' ! j)" by blast
  with w' show ?case by (auto simp: less_Suc_eq_0_disj)
qed simp

text \<open>The loop over the children finds the best of them.\<close>

lemma pick_best:
  assumes cs: "\<And>j. j \<in> set is \<Longrightarrow> child_at at (ws ! j) (Ss ! j) (c j)"
    and better: "\<And>a b. valid a \<Longrightarrow> valid b \<Longrightarrow> better (Compare cmp a b) \<longleftrightarrow> \<not> dir_le d (key b) (key a)"
  shows "case fold (pick_child better cmp ws) is None of None \<Rightarrow> \<forall>j\<in>set is. c j = None
    | Some k \<Rightarrow> k \<in> set is \<and> (\<exists>e. c k = Some e \<and> (\<forall>j\<in>set is. \<forall>x. c j = Some x \<longrightarrow> dir_le d (rank_of key e) (rank_of key x)))"
  using cs
proof (induction "is" rule: rev_induct)
  case (snoc i "is")
  define best where "best = fold (pick_child better cmp ws) is None"
  have f: "fold (pick_child better cmp ws) (is @ [i]) None = pick_child better cmp ws i best" by (simp add: best_def)
  have IH: "case best of None \<Rightarrow> \<forall>j\<in>set is. c j = None
    | Some k \<Rightarrow> k \<in> set is \<and> (\<exists>e. c k = Some e \<and> (\<forall>j\<in>set is. \<forall>x. c j = Some x \<longrightarrow> dir_le d (rank_of key e) (rank_of key x)))"
    unfolding best_def by (rule snoc.IH) (simp add: snoc.prems)
  have ci: "child_at at (ws ! i) (Ss ! i) (c i)" by (simp add: snoc.prems)
  have "case pick_child better cmp ws i best of None \<Rightarrow> \<forall>j\<in>set (is @ [i]). c j = None
    | Some k \<Rightarrow> k \<in> set (is @ [i]) \<and> (\<exists>e. c k = Some e
        \<and> (\<forall>j\<in>set (is @ [i]). \<forall>x. c j = Some x \<longrightarrow> dir_le d (rank_of key e) (rank_of key x)))"
  proof (cases "c i")
    case None
    then have "\<not> wr_valid (ws ! i)" using child_facts(4) [OF ci] by simp
    then show ?thesis using IH None by (auto simp: pick_child_def split: option.splits)
  next
    case (Some e)
    then have v: "wr_valid (ws ! i)" "wr_key (ws ! i) = fst e" "valid (fst e)"
      using child_facts(3-5) [OF ci] by auto
    show ?thesis
    proof (cases best)
      case None
      with IH v Some show ?thesis by (auto simp: pick_child_def dir_le_order(1))
    next
      case (Some k)
      with IH obtain e' where k: "k \<in> set is" "c k = Some e'" "\<forall>j\<in>set is. \<forall>x. c j = Some x \<longrightarrow> dir_le d (rank_of key e') (rank_of key x)"
        by auto
      have ck: "child_at at (ws ! k) (Ss ! k) (c k)" using k(1) by (simp add: snoc.prems)
      have v': "wr_key (ws ! k) = fst e'" "valid (fst e')" using child_facts(3,5) [OF ck] k(2) by auto
      have b: "better (Compare cmp (fst e) (fst e')) \<longleftrightarrow> \<not> dir_le d (rank_of key e') (rank_of key e)"
        using better [OF v(3) v'(2)] by (simp add: rank_of_def)
      show ?thesis
      proof (cases "dir_le d (rank_of key e') (rank_of key e)")
        case True
        with k v v' Some b \<open>c i = Some e\<close> show ?thesis by (auto simp: pick_child_def)
      next
        case False
        then have "dir_le d (rank_of key e) (rank_of key e')" using dir_le_order(3) by blast
        with k(3) have "\<forall>j\<in>set is. \<forall>x. c j = Some x \<longrightarrow> dir_le d (rank_of key e) (rank_of key x)"
          using dir_le_order(2) by blast
        with k v v' Some b False \<open>c i = Some e\<close> show ?thesis by (auto simp: pick_child_def dir_le_order(1))
      qed
    qed
  qed
  then show ?case by (simp only: f)
qed simp

text \<open>So the whole is at the best of all entries with \<open>P\<close>, if what is behind an entry with \<open>P\<close> has it too.\<close>

lemma best_of_all:
  assumes p: "parted key S Ss" and at: "children_at at key d P ws Ss"
    and up: "\<And>a b. P a \<Longrightarrow> dir_le d a b \<Longrightarrow> P b"
    and better: "\<And>a b. valid a \<Longrightarrow> valid b \<Longrightarrow> better (Compare cmp a b) \<longleftrightarrow> \<not> dir_le d (key b) (key a)"
    and "set is = {..<length ws}"
  shows "\<exists>c. merge_at at key \<lparr>mg_children = ws, mg_current = fold (pick_child better cmp ws) is None, mg_direction = d\<rparr> S c
    \<and> best_in (dir_le d) (rank_of key) {x \<in> S. P (rank_of key x)} c"
proof -
  note split_paired_All [simp del]
  from at have l: "length ws = length Ss" by (simp add: children_at_def)
  have "\<forall>j\<in>{..<length ws}. \<exists>c. child_at at (ws ! j) (Ss ! j) c \<and> best_in (dir_le d) (rank_of key) {x \<in> Ss ! j. P (rank_of key x)} c"
    using at unfolding children_at_def by blast
  from bchoice [OF this] obtain c where c: "\<And>j. j < length ws \<Longrightarrow> child_at at (ws ! j) (Ss ! j) (c j)"
      "\<And>j. j < length ws \<Longrightarrow> best_in (dir_le d) (rank_of key) {x \<in> Ss ! j. P (rank_of key x)} (c j)"
    by blast
  have S: "x \<in> S \<longleftrightarrow> (\<exists>j<length ws. x \<in> Ss ! j)" for x
  proof -
    have "S = \<Union> (set Ss)" using p by (simp add: parted_def)
    then show ?thesis unfolding l by (metis UnionE UnionI in_set_conv_nth)
  qed
  have pick: "case fold (pick_child better cmp ws) is None of None \<Rightarrow> \<forall>j\<in>set is. c j = None
    | Some k \<Rightarrow> k \<in> set is \<and> (\<exists>e. c k = Some e \<and> (\<forall>j\<in>set is. \<forall>x. c j = Some x \<longrightarrow> dir_le d (rank_of key e) (rank_of key x)))"
    by (rule pick_best [OF _ better]) (use c(1) assms(5) in auto)
  show ?thesis
  proof (cases "fold (pick_child better cmp ws) is None")
    case None
    with pick assms(5) have n: "c j = None" if "j < length ws" for j using that by simp
    have "\<not> P (rank_of key x)" if "x \<in> S" for x
    proof -
      from that S obtain j where j: "j < length ws" "x \<in> Ss ! j" by blast
      from c(2) [OF j(1)] have "{x \<in> Ss ! j. P (rank_of key x)} = {}" by (simp only: n [OF j(1)] best_in_simps)
      with j(2) show ?thesis by blast
    qed
    then have "{x \<in> S. P (rank_of key x)} = {}" by blast
    moreover have "merge_at at key \<lparr>mg_children = ws, mg_current = None, mg_direction = d\<rparr> S None"
      unfolding merge_at_def using p l c(1) by auto
    ultimately show ?thesis using None by (intro exI [of _ None]) simp
  next
    case (Some k)
    with pick assms(5) obtain e where k: "k < length ws" "c k = Some e"
        "\<And>j x. j < length ws \<Longrightarrow> c j = Some x \<Longrightarrow> dir_le d (rank_of key e) (rank_of key x)" by auto
    from c(2) [OF k(1)] k(2) have e: "e \<in> Ss ! k" "P (rank_of key e)" by simp_all
    have best: "dir_le d (rank_of key e) (rank_of key x)" if "x \<in> Ss ! j" "j < length ws" "P (rank_of key x)" for x j
    proof (cases "c j")
      case None
      with c(2) [OF that(2)] have "{x \<in> Ss ! j. P (rank_of key x)} = {}" by (simp only: best_in_simps)
      with that show ?thesis by blast
    next
      case (Some y)
      with c(2) [OF that(2)] that have "dir_le d (rank_of key y) (rank_of key x)" by simp
      with k(3) [OF that(2) Some] show ?thesis by (rule dir_le_order(2))
    qed
    have "children_at at key d (dir_le d (rank_of key e)) ws Ss"
      unfolding children_at_def
    proof (intro conjI allI impI exI)
      fix j
      assume j: "j < length ws"
      show "child_at at (ws ! j) (Ss ! j) (c j)" by (rule c(1) [OF j])
      have "{x \<in> Ss ! j. dir_le d (rank_of key e) (rank_of key x)} = {x \<in> Ss ! j. P (rank_of key x)}"
        using best [OF _ j] up [OF e(2)] by blast
      with c(2) [OF j] show "best_in (dir_le d) (rank_of key) {x \<in> Ss ! j. dir_le d (rank_of key e) (rank_of key x)} (c j)" by simp
    qed (rule l)
    then have "merge_at at key \<lparr>mg_children = ws, mg_current = Some k, mg_direction = d\<rparr> S (Some e)"
      unfolding merge_at_def using p l c(1) k e by auto
    moreover have "best_in (dir_le d) (rank_of key) {x \<in> S. P (rank_of key x)} (Some e)"
      using best e k(1) S by auto
    ultimately show ?thesis using Some by (intro exI [of _ "Some e"]) simp
  qed
qed

lemma FindSmallest_best:
  assumes "parted key S Ss" and "children_at at key kForward P (mg_children m) Ss" and "\<And>a b. P a \<Longrightarrow> a \<le> b \<Longrightarrow> P b"
  shows "\<exists>c. merge_at at key ((FindSmallest cmp m)\<lparr>mg_direction := kForward\<rparr>) S c \<and> first_in (rank_of key) {x \<in> S. P (rank_of key x)} c"
proof -
  have "(FindSmallest cmp m)\<lparr>mg_direction := kForward\<rparr> = \<lparr>mg_children = mg_children m,
      mg_current = fold (pick_child (\<lambda>r. r < 0) cmp (mg_children m)) [0..<length (mg_children m)] None, mg_direction = kForward\<rparr>"
    by (simp add: FindSmallest_def)
  moreover have "\<exists>c. merge_at at key \<lparr>mg_children = mg_children m,
      mg_current = fold (pick_child (\<lambda>r. r < 0) cmp (mg_children m)) [0..<length (mg_children m)] None, mg_direction = kForward\<rparr> S c
      \<and> best_in (dir_le kForward) (rank_of key) {x \<in> S. P (rank_of key x)} c"
    by (rule best_of_all [OF assms(1,2)]) (use assms(3) cmp_less in \<open>auto simp: dir_le_def not_le\<close>)
  ultimately show ?thesis by (simp add: best_in_dir)
qed

lemma FindLargest_best:
  assumes "parted key S Ss" and "children_at at key kReverse P (mg_children m) Ss" and "\<And>a b. P a \<Longrightarrow> b \<le> a \<Longrightarrow> P b"
  shows "\<exists>c. merge_at at key ((FindLargest cmp m)\<lparr>mg_direction := kReverse\<rparr>) S c \<and> last_in (rank_of key) {x \<in> S. P (rank_of key x)} c"
proof -
  have g: "0 < Compare cmp a b \<longleftrightarrow> key b < key a" if "valid a" "valid b" for a b
    using cmp_less [OF that] cmp_eq [OF that] by (cases "key a" "key b" rule: linorder_cases) auto
  have "(FindLargest cmp m)\<lparr>mg_direction := kReverse\<rparr> = \<lparr>mg_children = mg_children m,
      mg_current = fold (pick_child (\<lambda>r. 0 < r) cmp (mg_children m)) (rev [0..<length (mg_children m)]) None, mg_direction = kReverse\<rparr>"
    by (simp add: FindLargest_def)
  moreover have "\<exists>c. merge_at at key \<lparr>mg_children = mg_children m,
      mg_current = fold (pick_child (\<lambda>r. 0 < r) cmp (mg_children m)) (rev [0..<length (mg_children m)]) None, mg_direction = kReverse\<rparr> S c
      \<and> best_in (dir_le kReverse) (rank_of key) {x \<in> S. P (rank_of key x)} c"
    by (rule best_of_all [OF assms(1,2)]) (use assms(3) g in \<open>auto simp: dir_le_def not_le\<close>)
  ultimately show ?thesis by (simp add: best_in_dir)
qed

lemma merge_call:
  assumes "merge_at at key m S c"
    and "\<And>i S c. at i S c \<Longrightarrow> \<exists>i' c'. f i = Some i' \<and> at i' S c' \<and> best_in (dir_le d) (rank_of key) {x \<in> S. P (rank_of key x)} c'"
  obtains Ss ws where "parted key S Ss" and "each_child (\<lambda>_. wr_call ops f) 0 (mg_children m) = Some ws" and "children_at at key d P ws Ss"
proof -
  from assms(1) obtain Ss where Ss: "parted key S Ss" "length (mg_children m) = length Ss"
      "\<forall>j<length Ss. \<exists>c. child_at at (mg_children m ! j) (Ss ! j) c" by (auto simp: merge_at_def)
  have "\<exists>w. wr_call ops f (mg_children m ! j) = Some w
      \<and> (\<exists>c. child_at at w (Ss ! j) c \<and> best_in (dir_le d) (rank_of key) {x \<in> Ss ! j. P (rank_of key x)} c)"
    if "j < length (mg_children m)" for j
  proof -
    from Ss that obtain c where "child_at at (mg_children m ! j) (Ss ! j) c" by auto
    then have "\<exists>w c. wr_call ops f (mg_children m ! j) = Some w \<and> child_at at w (Ss ! j) c
        \<and> best_in (dir_le d) (rank_of key) {x \<in> Ss ! j. P (rank_of key x)} c"
      by (rule child_call) (rule assms(2))
    then show ?thesis by blast
  qed
  from each_child_all [of "mg_children m" "\<lambda>_. wr_call ops f" 0, OF this] obtain ws where
    "each_child (\<lambda>_. wr_call ops f) 0 (mg_children m) = Some ws" "length ws = length (mg_children m)"
    "\<forall>j<length (mg_children m). \<exists>c. child_at at (ws ! j) (Ss ! j) c \<and> best_in (dir_le d) (rank_of key) {x \<in> Ss ! j. P (rank_of key x)} c"
    by blast
  with Ss show thesis by (intro that [of Ss ws]) (simp_all add: children_at_def)
qed

text \<open>The child of the entry of the whole is at it.\<close>

lemma current_at:
  assumes "children_at at key d (dir_le d (rank_of key e)) ws Ss" and "k < length Ss" and "e \<in> Ss ! k"
  shows "child_at at (ws ! k) (Ss ! k) (Some e)"
proof -
  note split_paired_All [simp del]
  from assms(1,2) obtain c where c: "child_at at (ws ! k) (Ss ! k) c"
      "best_in (dir_le d) (rank_of key) {x \<in> Ss ! k. dir_le d (rank_of key e) (rank_of key x)} c"
    by (auto simp: children_at_def)
  have e: "e \<in> {x \<in> Ss ! k. dir_le d (rank_of key e) (rank_of key x)}" using assms(3) dir_le_order(1) by auto
  with c(2) obtain x where x: "c = Some x" by (cases c) auto
  with c(2) e have "dir_le d (rank_of key x) (rank_of key e)" "dir_le d (rank_of key e) (rank_of key x)" "x \<in> Ss ! k" by auto
  then have "x = e" using dir_le_order(4) child_facts(2) [OF c(1)] assms(3) by (auto dest: inj_onD)
  with c(1) x show ?thesis by simp
qed

text \<open>A change of the direction moves all children but the current one to the other side of its entry.\<close>

lemma turn_children_at:
  assumes "parted key S Ss" and "length (mg_children m) = length Ss" and "mg_current m = Some k" and "k < length Ss" and "e \<in> Ss ! k"
    and "children_at at key d0 (dir_le d0 (rank_of key e)) (mg_children m) Ss"
    and "\<And>w S c. child_at at w S c \<Longrightarrow> inj_on (rank_of key) S \<Longrightarrow> \<forall>x\<in>S. rank_of key x \<noteq> rank_of key e \<Longrightarrow>
      \<exists>w' c'. f w = Some w' \<and> child_at at w' S c' \<and> best_in (dir_le d) (rank_of key) {x \<in> S. dir_le d (rank_of key e) (rank_of key x)} c'"
  obtains ws where "turn_children f m = Some (m\<lparr>mg_children := ws\<rparr>)" and "children_at at key d (dir_le d (rank_of key e)) ws Ss"
proof -
  note split_paired_All [simp del]
  have other: "\<forall>x\<in>Ss ! j. rank_of key x \<noteq> rank_of key e" if "j < length Ss" "j \<noteq> k" for j
  proof
    fix x
    assume "x \<in> Ss ! j"
    moreover have "Ss ! j \<inter> Ss ! k = {}" using assms(1,4) that by (simp add: parted_def)
    ultimately have "x \<noteq> e" using assms(5) by blast
    moreover have "x \<in> S" "e \<in> S" using assms(1,4,5) that(1) \<open>x \<in> Ss ! j\<close> by (auto simp: parted_def)
    moreover have "inj_on (rank_of key) S" using assms(1) unfolding parted_def by blast
    ultimately show "rank_of key x \<noteq> rank_of key e" by (auto dest: inj_onD)
  qed
  have "\<exists>w. (if Some j \<noteq> mg_current m then f (mg_children m ! j) else Some (mg_children m ! j)) = Some w
      \<and> (\<exists>c. child_at at w (Ss ! j) c \<and> best_in (dir_le d) (rank_of key) {x \<in> Ss ! j. dir_le d (rank_of key e) (rank_of key x)} c)"
    if j: "j < length (mg_children m)" for j
  proof -
    show ?thesis
    proof (cases "j = k")
      case True
      with current_at [OF assms(6,4,5)] assms(3,5) show ?thesis
        by (intro exI [of _ "mg_children m ! j"]) (auto simp: dir_le_order(1))
    next
      case False
      from assms(6) j obtain c where c: "child_at at (mg_children m ! j) (Ss ! j) c" by (auto simp: children_at_def)
      from False show ?thesis using assms(7) [OF c child_facts(2) [OF c]] other [of j] j assms(2,3) by auto
    qed
  qed
  from each_child_all [of "mg_children m" "\<lambda>j w. if Some j \<noteq> mg_current m then f w else Some w" 0, simplified, OF this]
  obtain ws where w: "each_child (\<lambda>j w. if Some j \<noteq> mg_current m then f w else Some w) 0 (mg_children m) = Some ws"
    "length ws = length (mg_children m)"
    "\<forall>j<length (mg_children m). \<exists>c. child_at at (ws ! j) (Ss ! j) c \<and>
        best_in (dir_le d) (rank_of key) {x \<in> Ss ! j. dir_le d (rank_of key e) (rank_of key x)} c" by auto
  show thesis
  proof (rule that)
    show "turn_children f m = Some (m\<lparr>mg_children := ws\<rparr>)" by (simp add: turn_children_def w(1))
    show "children_at at key d (dir_le d (rank_of key e)) ws Ss" using w(2,3) assms(2) by (simp add: children_at_def)
  qed
qed

text \<open>The step of the current child.\<close>

lemma step_current_at:
  assumes "parted key S Ss" and "mg_current m = Some k" and "k < length Ss" and "e \<in> Ss ! k"
    and "children_at at key d (dir_le d (rank_of key e)) (mg_children m) Ss"
    and f: "\<And>i S. at i S (Some e) \<Longrightarrow> \<exists>i' c'. f i = Some i' \<and> at i' S c' \<and>
      best_in (dir_le d) (rank_of key) {x \<in> S. dir_le d (rank_of key e) (rank_of key x) \<and> rank_of key e \<noteq> rank_of key x} c'"
  obtains ws where "step_current ops f m = Some (m\<lparr>mg_children := ws\<rparr>)"
    and "children_at at key d (\<lambda>r. dir_le d (rank_of key e) r \<and> rank_of key e \<noteq> r) ws Ss"
proof -
  note split_paired_All [simp del]
  let ?P = "\<lambda>r. dir_le d (rank_of key e) r \<and> rank_of key e \<noteq> r"
  have l: "length (mg_children m) = length Ss" using assms(5) by (simp add: children_at_def)
  have cs: "\<exists>c. child_at at (mg_children m ! j) (Ss ! j) c
      \<and> best_in (dir_le d) (rank_of key) {x \<in> Ss ! j. dir_le d (rank_of key e) (rank_of key x)} c" if "j < length Ss" for j
    using assms(5) that l by (simp add: children_at_def)
  have "child_at at (mg_children m ! k) (Ss ! k) (Some e)" by (rule current_at [OF assms(5,3,4)])
  then have "\<exists>w c. wr_call ops f (mg_children m ! k) = Some w \<and> child_at at w (Ss ! k) c
      \<and> best_in (dir_le d) (rank_of key) {x \<in> Ss ! k. ?P (rank_of key x)} c"
    by (rule child_call) (rule f)
  then obtain w c where w: "wr_call ops f (mg_children m ! k) = Some w" "child_at at w (Ss ! k) c"
      "best_in (dir_le d) (rank_of key) {x \<in> Ss ! k. ?P (rank_of key x)} c" by blast
  show thesis
  proof (rule that)
    show "step_current ops f m = Some (m\<lparr>mg_children := (mg_children m)[k := w]\<rparr>)"
      by (simp add: step_current_def assms(2) w(1))
    show "children_at at key d ?P ((mg_children m)[k := w]) Ss"
      unfolding children_at_def
    proof (intro conjI allI impI)
      fix j
      assume "j < length ((mg_children m)[k := w])"
      then have j: "j < length Ss" by (simp add: l)
      show "\<exists>c. child_at at ((mg_children m)[k := w] ! j) (Ss ! j) c
          \<and> best_in (dir_le d) (rank_of key) {x \<in> Ss ! j. ?P (rank_of key x)} c"
      proof (cases "j = k")
        case True
        with w(2,3) j l show ?thesis by auto
      next
        case False
        have "{x \<in> Ss ! j. ?P (rank_of key x)} = {x \<in> Ss ! j. dir_le d (rank_of key e) (rank_of key x)}"
        proof -
          have "rank_of key e \<noteq> rank_of key x" if "x \<in> Ss ! j" for x
          proof
            assume "rank_of key e = rank_of key x"
            moreover have "x \<in> S" "e \<in> S" using assms(1,3,4) that j by (auto simp: parted_def)
            moreover have "inj_on (rank_of key) S" using assms(1) unfolding parted_def by blast
            ultimately have "e = x" by (auto dest: inj_onD)
            moreover have "Ss ! j \<inter> Ss ! k = {}" using assms(1,3) j False by (simp add: parted_def)
            ultimately show False using that assms(4) by blast
          qed
          then show ?thesis by blast
        qed
        with cs [OF j] False show ?thesis by simp
      qed
    qed (simp add: l)
  qed
qed

lemma dir_strict:
  "(\<lambda>r. dir_le kForward a r \<and> a \<noteq> r) = (\<lambda>r. a < r)" "(\<lambda>r. dir_le kReverse a r \<and> a \<noteq> r) = (\<lambda>r. r < a)"
  by (auto simp: dir_le_def fun_eq_iff)

lemma turn_forward_child:
  assumes "child_at at w S c" and "\<forall>x\<in>S. rank_of key x \<noteq> rank_of key e" and "valid (fst e)"
  shows "\<exists>w' c'. turn_forward ops cmp (fst e) w = Some w' \<and> child_at at w' S c'
    \<and> best_in (dir_le kForward) (rank_of key) {x \<in> S. dir_le kForward (rank_of key e) (rank_of key x)} c'"
proof -
  have "\<exists>w' c'. wr_call ops (op_Seek ops (fst e)) w = Some w' \<and> child_at at w' S c' \<and> first_in (rank_of key) {x \<in> S. key (fst e) \<le> rank_of key x} c'"
    using assms(1) by (rule child_call) (rule Seek [OF _ assms(3)])
  then obtain w' c' where w: "wr_call ops (op_Seek ops (fst e)) w = Some w'" "child_at at w' S c'"
      "first_in (rank_of key) {x \<in> S. key (fst e) \<le> rank_of key x} c'" by blast
  have "\<not> (wr_valid w' \<and> Compare cmp (fst e) (wr_key w') = 0)"
  proof
    assume a: "wr_valid w' \<and> Compare cmp (fst e) (wr_key w') = 0"
    then obtain x where x: "c' = Some x" using child_facts(4) [OF w(2)] by (cases c') auto
    with child_facts(5) [OF w(2)] have y: "x \<in> S" "wr_key w' = fst x" by auto
    have "valid (fst x)" by (rule child_facts(3) [OF w(2) y(1)])
    from cmp_eq [OF assms(3) this] a y assms(2) show False by (auto simp: rank_of_def)
  qed
  then have "turn_forward ops cmp (fst e) w = Some w'" by (auto simp: turn_forward_def w(1))
  moreover have "best_in (dir_le kForward) (rank_of key) {x \<in> S. dir_le kForward (rank_of key e) (rank_of key x)} c'"
    using w(3) by (simp add: best_in_dir dir_le_def rank_of_def)
  ultimately show ?thesis using w(2) by blast
qed

lemma turn_back_child:
  assumes "child_at at w S c" and "\<forall>x\<in>S. rank_of key x \<noteq> rank_of key e" and "valid (fst e)"
  shows "\<exists>w' c'. turn_back ops (fst e) w = Some w' \<and> child_at at w' S c'
    \<and> best_in (dir_le kReverse) (rank_of key) {x \<in> S. dir_le kReverse (rank_of key e) (rank_of key x)} c'"
proof -
  note split_paired_All [simp del]
  have "\<exists>w' c'. wr_call ops (op_Seek ops (fst e)) w = Some w' \<and> child_at at w' S c' \<and> first_in (rank_of key) {x \<in> S. key (fst e) \<le> rank_of key x} c'"
    using assms(1) by (rule child_call) (rule Seek [OF _ assms(3)])
  then obtain w' c' where w: "wr_call ops (op_Seek ops (fst e)) w = Some w'" "child_at at w' S c'"
      "first_in (rank_of key) {x \<in> S. rank_of key e \<le> rank_of key x} c'" by (auto simp: rank_of_def)
  have goal: "\<exists>w'' c''. turn_back ops (fst e) w = Some w'' \<and> child_at at w'' S c'' \<and> last_in (rank_of key) {x \<in> S. rank_of key x \<le> rank_of key e} c''"
  proof (cases c')
    case None
    then have "\<not> wr_valid w'" using child_facts(4) [OF w(2)] by simp
    have "\<exists>w'' c''. wr_call ops (op_SeekToLast ops) w' = Some w'' \<and> child_at at w'' S c'' \<and> last_in (rank_of key) S c''"
      using w(2) by (rule child_call) (rule SeekToLast)
    moreover have "S = {x \<in> S. rank_of key x \<le> rank_of key e}"
      using w(3) None by (auto simp: not_le dest: less_imp_le)
    ultimately show ?thesis using \<open>\<not> wr_valid w'\<close> by (simp add: turn_back_def w(1))
  next
    case (Some x)
    then have "wr_valid w'" using child_facts(4) [OF w(2)] by simp
    have "child_at at w' S (Some x)" using w(2) Some by simp
    then have "\<exists>w'' c''. wr_call ops (op_Prev ops) w' = Some w'' \<and> child_at at w'' S c''
        \<and> last_in (rank_of key) {y \<in> S. rank_of key y < rank_of key x} c''"
      by (rule child_call) (rule Prev)
    moreover have "{y \<in> S. rank_of key y < rank_of key x} = {y \<in> S. rank_of key y \<le> rank_of key e}"
    proof (intro Collect_cong conj_cong refl)
      fix y
      assume "y \<in> S"
      with w(3) Some assms(2) have "rank_of key e \<le> rank_of key y \<longrightarrow> rank_of key x \<le> rank_of key y" "rank_of key e \<le> rank_of key x"
        "rank_of key y \<noteq> rank_of key e" by auto
      then show "rank_of key y < rank_of key x \<longleftrightarrow> rank_of key y \<le> rank_of key e" by (auto simp: not_le)
    qed
    ultimately show ?thesis using \<open>wr_valid w'\<close> by (simp add: turn_back_def w(1))
  qed
  then show ?thesis by (simp add: best_in_dir) (simp add: dir_le_def)
qed

lemma FindSmallest_direction [simp]: "mg_direction (FindSmallest cmp m) = mg_direction m" "mg_direction (FindLargest cmp m) = mg_direction m"
  by (simp_all add: FindSmallest_def FindLargest_def)

lemma merge_next:
  assumes "merge_at at key m S (Some e)"
  shows "\<exists>m' c'. mg_Next ops cmp m = Some m' \<and> merge_at at key m' S c' \<and> first_in (rank_of key) {x \<in> S. rank_of key e < rank_of key x} c'"
proof -
  from assms obtain Ss k where m: "parted key S Ss" "length (mg_children m) = length Ss" "mg_current m = Some k" "k < length Ss" "e \<in> Ss ! k"
      "children_at at key (mg_direction m) (dir_le (mg_direction m) (rank_of key e)) (mg_children m) Ss"
      and c: "\<forall>j<length Ss. \<exists>c. child_at at (mg_children m ! j) (Ss ! j) c"
    by (auto simp: merge_at_def split: option.splits)
  have e: "valid (fst e)" using c m(4,5) child_facts(3) by blast
  have k: "mg_key m = fst e" using child_facts(5) [OF current_at [OF m(6,4,5)]] by (simp add: mg_key_def m(3))
  have "\<exists>ws. (if mg_direction m \<noteq> kForward then
          map_option (\<lambda>m. m\<lparr>mg_direction := kForward\<rparr>) (turn_children (turn_forward ops cmp (mg_key m)) m)
        else Some m) = Some (m\<lparr>mg_children := ws, mg_direction := kForward\<rparr>)
      \<and> children_at at key kForward (dir_le kForward (rank_of key e)) ws Ss"
  proof (cases "mg_direction m = kForward")
    case True
    with m(6) show ?thesis by (intro exI [of _ "mg_children m"]) (auto intro: merging.equality)
  next
    case False
    obtain ws where "turn_children (turn_forward ops cmp (mg_key m)) m = Some (m\<lparr>mg_children := ws\<rparr>)"
        "children_at at key kForward (dir_le kForward (rank_of key e)) ws Ss"
      by (rule turn_children_at [OF m, where f = "turn_forward ops cmp (mg_key m)" and d = kForward])
        (use turn_forward_child [OF _ _ e] k in simp_all)
    with False show ?thesis by auto
  qed
  then obtain ws where ws: "(if mg_direction m \<noteq> kForward then
          map_option (\<lambda>m. m\<lparr>mg_direction := kForward\<rparr>) (turn_children (turn_forward ops cmp (mg_key m)) m)
        else Some m) = Some (m\<lparr>mg_children := ws, mg_direction := kForward\<rparr>)"
      "children_at at key kForward (dir_le kForward (rank_of key e)) ws Ss" by blast
  let ?m = "m\<lparr>mg_children := ws, mg_direction := kForward\<rparr>"
  obtain ws' where ws': "step_current ops (op_Next ops) ?m = Some (?m\<lparr>mg_children := ws'\<rparr>)"
      "children_at at key kForward (\<lambda>r. rank_of key e < r) ws' Ss"
  proof (rule step_current_at [OF m(1), of ?m k e kForward "op_Next ops", unfolded dir_strict])
    show "\<exists>i' c'. op_Next ops i = Some i' \<and> at i' S c' \<and> best_in (dir_le kForward) (rank_of key)
        {x \<in> S. dir_le kForward (rank_of key e) (rank_of key x) \<and> rank_of key e \<noteq> rank_of key x} c'" if "at i S (Some e)" for i S
      using Next [OF that] by (simp add: best_in_dir) (simp add: dir_le_def order_less_le)
  qed (use m ws(2) in simp_all)
  define M where "M = FindSmallest cmp (?m\<lparr>mg_children := ws'\<rparr>)"
  have "M\<lparr>mg_direction := kForward\<rparr> = M" by (rule merging.equality) (simp_all add: M_def)
  moreover have "\<exists>c. merge_at at key (M\<lparr>mg_direction := kForward\<rparr>) S c
      \<and> first_in (rank_of key) {x \<in> S. rank_of key e < rank_of key x} c"
    unfolding M_def by (rule FindSmallest_best [OF m(1)]) (use ws'(2) in auto)
  moreover have "mg_Next ops cmp m = Some M" unfolding mg_Next_def ws(1) by (simp add: ws'(1) M_def)
  ultimately show ?thesis by simp
qed

lemma merge_prev:
  assumes "merge_at at key m S (Some e)"
  shows "\<exists>m' c'. mg_Prev ops cmp m = Some m' \<and> merge_at at key m' S c' \<and> last_in (rank_of key) {x \<in> S. rank_of key x < rank_of key e} c'"
proof -
  from assms obtain Ss k where m: "parted key S Ss" "length (mg_children m) = length Ss" "mg_current m = Some k" "k < length Ss" "e \<in> Ss ! k"
      "children_at at key (mg_direction m) (dir_le (mg_direction m) (rank_of key e)) (mg_children m) Ss"
      and c: "\<forall>j<length Ss. \<exists>c. child_at at (mg_children m ! j) (Ss ! j) c"
    by (auto simp: merge_at_def split: option.splits)
  have e: "valid (fst e)" using c m(4,5) child_facts(3) by blast
  have k: "mg_key m = fst e" using child_facts(5) [OF current_at [OF m(6,4,5)]] by (simp add: mg_key_def m(3))
  have "\<exists>ws. (if mg_direction m \<noteq> kReverse then
          map_option (\<lambda>m. m\<lparr>mg_direction := kReverse\<rparr>) (turn_children (turn_back ops (mg_key m)) m)
        else Some m) = Some (m\<lparr>mg_children := ws, mg_direction := kReverse\<rparr>)
      \<and> children_at at key kReverse (dir_le kReverse (rank_of key e)) ws Ss"
  proof (cases "mg_direction m = kReverse")
    case True
    with m(6) show ?thesis by (intro exI [of _ "mg_children m"]) (auto intro: merging.equality)
  next
    case False
    obtain ws where "turn_children (turn_back ops (mg_key m)) m = Some (m\<lparr>mg_children := ws\<rparr>)"
        "children_at at key kReverse (dir_le kReverse (rank_of key e)) ws Ss"
      by (rule turn_children_at [OF m, where f = "turn_back ops (mg_key m)" and d = kReverse])
        (use turn_back_child [OF _ _ e] k in simp_all)
    with False show ?thesis by auto
  qed
  then obtain ws where ws: "(if mg_direction m \<noteq> kReverse then
          map_option (\<lambda>m. m\<lparr>mg_direction := kReverse\<rparr>) (turn_children (turn_back ops (mg_key m)) m)
        else Some m) = Some (m\<lparr>mg_children := ws, mg_direction := kReverse\<rparr>)"
      "children_at at key kReverse (dir_le kReverse (rank_of key e)) ws Ss" by blast
  let ?m = "m\<lparr>mg_children := ws, mg_direction := kReverse\<rparr>"
  obtain ws' where ws': "step_current ops (op_Prev ops) ?m = Some (?m\<lparr>mg_children := ws'\<rparr>)"
      "children_at at key kReverse (\<lambda>r. r < rank_of key e) ws' Ss"
  proof (rule step_current_at [OF m(1), of ?m k e kReverse "op_Prev ops", unfolded dir_strict])
    show "\<exists>i' c'. op_Prev ops i = Some i' \<and> at i' S c' \<and> best_in (dir_le kReverse) (rank_of key)
        {x \<in> S. dir_le kReverse (rank_of key e) (rank_of key x) \<and> rank_of key e \<noteq> rank_of key x} c'" if "at i S (Some e)" for i S
      using Prev [OF that] by (simp add: best_in_dir) (simp add: dir_le_def order_less_le eq_commute)
  qed (use m ws(2) in simp_all)
  define M where "M = FindLargest cmp (?m\<lparr>mg_children := ws'\<rparr>)"
  have "M\<lparr>mg_direction := kReverse\<rparr> = M" by (rule merging.equality) (simp_all add: M_def)
  moreover have "\<exists>c. merge_at at key (M\<lparr>mg_direction := kReverse\<rparr>) S c
      \<and> last_in (rank_of key) {x \<in> S. rank_of key x < rank_of key e} c"
    unfolding M_def by (rule FindLargest_best [OF m(1)]) (use ws'(2) in auto)
  moreover have "mg_Prev ops cmp m = Some M" unfolding mg_Prev_def ws(1) by (simp add: ws'(1) M_def)
  ultimately show ?thesis by simp
qed

lemma merge_seeks:
  assumes "merge_at at key m S c"
  shows "\<exists>m' c'. mg_SeekToFirst ops cmp m = Some m' \<and> merge_at at key m' S c' \<and> first_in (rank_of key) S c'"
    and "\<exists>m' c'. mg_SeekToLast ops cmp m = Some m' \<and> merge_at at key m' S c' \<and> last_in (rank_of key) S c'"
    and "valid k \<Longrightarrow> \<exists>m' c'. mg_Seek ops cmp k m = Some m' \<and> merge_at at key m' S c' \<and> first_in (rank_of key) {x \<in> S. key k \<le> rank_of key x} c'"
proof -
  obtain Ss ws where f: "parted key S Ss" "each_child (\<lambda>_. wr_call ops (op_SeekToFirst ops)) 0 (mg_children m) = Some ws"
      "children_at at key kForward (\<lambda>_. True) ws Ss"
    by (rule merge_call [OF assms, where f = "op_SeekToFirst ops" and d = kForward and P = "\<lambda>_. True"])
      (use SeekToFirst in \<open>simp_all add: best_in_dir\<close>)
  from FindSmallest_best [OF f(1), of "\<lambda>_. True" "m\<lparr>mg_children := ws\<rparr>"] f(3)
  show "\<exists>m' c'. mg_SeekToFirst ops cmp m = Some m' \<and> merge_at at key m' S c' \<and> first_in (rank_of key) S c'"
    by (simp add: mg_SeekToFirst_def f(2))
next
  obtain Ss ws where f: "parted key S Ss" "each_child (\<lambda>_. wr_call ops (op_SeekToLast ops)) 0 (mg_children m) = Some ws"
      "children_at at key kReverse (\<lambda>_. True) ws Ss"
    by (rule merge_call [OF assms, where f = "op_SeekToLast ops" and d = kReverse and P = "\<lambda>_. True"])
      (use SeekToLast in \<open>simp_all add: best_in_dir\<close>)
  from FindLargest_best [OF f(1), of "\<lambda>_. True" "m\<lparr>mg_children := ws\<rparr>"] f(3)
  show "\<exists>m' c'. mg_SeekToLast ops cmp m = Some m' \<and> merge_at at key m' S c' \<and> last_in (rank_of key) S c'"
    by (simp add: mg_SeekToLast_def f(2))
next
  assume k: "valid k"
  obtain Ss ws where f: "parted key S Ss" "each_child (\<lambda>_. wr_call ops (op_Seek ops k)) 0 (mg_children m) = Some ws"
      "children_at at key kForward (\<lambda>r. key k \<le> r) ws Ss"
    by (rule merge_call [OF assms, where f = "op_Seek ops k" and d = kForward and P = "\<lambda>r. key k \<le> r"])
      (use Seek [OF _ k] in \<open>simp_all add: best_in_dir\<close>)
  from FindSmallest_best [OF f(1), of "\<lambda>r. key k \<le> r" "m\<lparr>mg_children := ws\<rparr>"] f(3)
  show "\<exists>m' c'. mg_Seek ops cmp k m = Some m' \<and> merge_at at key m' S c' \<and> first_in (rank_of key) {x \<in> S. key k \<le> rank_of key x} c'"
    by (simp add: mg_Seek_def f(2))
qed

lemma merge_status: "list_all (\<lambda>w. wr_status ops w = OK) ws \<Longrightarrow> first_error (map (wr_status ops) ws) = OK"
  by (induction ws) (simp_all add: ok_def OK_def)

text \<open>The merging iterator keeps the promises its children keep.\<close>

lemma merging_contract: "iterator_contract (merging_class ops cmp) key valid (merge_at at key)"
proof
  note ops = merging_class_def iterator_class.simps
  fix m S c
  assume a: "merge_at at key m S c"
  then obtain Ss where Ss: "parted key S Ss" "length (mg_children m) = length Ss"
      "\<forall>j<length Ss. \<exists>c. child_at at (mg_children m ! j) (Ss ! j) c" by (auto simp: merge_at_def)
  have parts: "\<exists>c. child_at at (mg_children m ! j) (Ss ! j) c" if "j < length Ss" for j using Ss(3) that by blast
  have S: "S = \<Union> (set Ss)" "inj_on (rank_of key) S" using Ss(1) unfolding parted_def by blast+
  have "finite A \<and> (\<forall>x\<in>A. valid (fst x))" if A: "A \<in> set Ss" for A
  proof -
    from A obtain j where "j < length Ss" "A = Ss ! j" by (auto simp: in_set_conv_nth)
    with parts obtain c where "child_at at (mg_children m ! j) A c" by blast
    from child_facts(1,3) [OF this] show ?thesis by blast
  qed
  then have "finite S" "\<forall>x\<in>S. valid (fst x)" unfolding S(1) by (blast intro: finite_Union)+
  with S(2) show "finite S \<and> inj_on (rank_of key) S \<and> (\<forall>x\<in>S. valid (fst x))" by blast
  show "op_Valid (merging_class ops cmp) m \<longleftrightarrow> c \<noteq> None"
    using a by (auto simp: ops mg_Valid_def merge_at_def split: option.splits)
  have "list_all (\<lambda>w. wr_status ops w = OK) (mg_children m)"
    unfolding list_all_length Ss(2)
  proof (intro allI impI)
    fix j
    assume "j < length Ss"
    then obtain c where "child_at at (mg_children m ! j) (Ss ! j) c" using parts by blast
    then show "wr_status ops (mg_children m ! j) = OK" by (rule child_facts(7))
  qed
  then show "op_status (merging_class ops cmp) m = OK" by (simp add: ops mg_status_def merge_status)
  show "\<exists>m' c'. op_SeekToFirst (merging_class ops cmp) m = Some m' \<and> merge_at at key m' S c' \<and> first_in (rank_of key) S c'"
    unfolding ops by (rule merge_seeks(1) [OF a])
  show "\<exists>m' c'. op_SeekToLast (merging_class ops cmp) m = Some m' \<and> merge_at at key m' S c' \<and> last_in (rank_of key) S c'"
    unfolding ops by (rule merge_seeks(2) [OF a])
  show "\<exists>m' c'. op_Seek (merging_class ops cmp) k m = Some m' \<and> merge_at at key m' S c'
      \<and> first_in (rank_of key) {x \<in> S. key k \<le> rank_of key x} c'" if "valid k" for k
    unfolding ops by (rule merge_seeks(3) [OF a that])
next
  note ops = merging_class_def iterator_class.simps
  fix m S e
  assume a: "merge_at at key m S (Some e)"
  then obtain Ss k where m: "parted key S Ss" "mg_current m = Some k" "k < length Ss" "e \<in> Ss ! k"
      "children_at at key (mg_direction m) (dir_le (mg_direction m) (rank_of key e)) (mg_children m) Ss"
    by (auto simp: merge_at_def split: option.splits)
  note at = current_at [OF m(5,3,4)]
  have "e \<in> S" using m(1,3,4) by (auto simp: parted_def)
  then show "e \<in> S \<and> op_key (merging_class ops cmp) m = fst e \<and> op_value (merging_class ops cmp) m = snd e"
    using child_facts(5,6) [OF at] by (simp add: ops mg_key_def mg_value_def m(2))
  show "\<exists>m' c'. op_Next (merging_class ops cmp) m = Some m' \<and> merge_at at key m' S c'
      \<and> first_in (rank_of key) {x \<in> S. rank_of key e < rank_of key x} c'"
    unfolding ops by (rule merge_next [OF a])
  show "\<exists>m' c'. op_Prev (merging_class ops cmp) m = Some m' \<and> merge_at at key m' S c'
      \<and> last_in (rank_of key) {x \<in> S. rank_of key x < rank_of key e} c'"
    unfolding ops by (rule merge_prev [OF a])
qed

end

sublocale merging \<subseteq> merged: iterator_contract "merging_class ops cmp" key valid "merge_at at key"
  by (rule merging_contract)

text \<open>No child, one child, or more.\<close>

definition merged_at :: "('i \<Rightarrow> (slice \<times> slice) set \<Rightarrow> (slice \<times> slice) option \<Rightarrow> bool) \<Rightarrow> (slice \<Rightarrow> 'k::linorder) \<Rightarrow>
    'i merged \<Rightarrow> (slice \<times> slice) set \<Rightarrow> (slice \<times> slice) option \<Rightarrow> bool" where
  "merged_at at key = at_either (\<lambda>s S c. s = OK \<and> S = {} \<and> c = None) (at_either at (merge_at at key))"

context merging
begin

lemma merged_contract: "iterator_contract (merged_class ops cmp) key valid (merged_at at key)"
  unfolding merged_class_def merged_at_def
  by (intro either_contract empty.iterator_contract_axioms iterator_contract_axioms merging_contract)

lemma NewMergingIterator_at:
  assumes "parted key S Ss" and "list_all2 (\<lambda>i A. at i A None) children Ss"
  shows "merged_at at key (NewMergingIterator ops children) S None"
proof -
  have l: "length children = length Ss" by (rule list_all2_lengthD [OF assms(2)])
  have m: "merge_at at key (MergingIterator ops children) S None"
    unfolding merge_at_def
  proof (intro exI [of _ Ss] conjI allI impI)
    fix j
    assume "j < length Ss"
    then have "at (children ! j) (Ss ! j) None" using assms(2) l by (auto simp: list_all2_conv_all_nth)
    from new_child [OF this] \<open>j < length Ss\<close> l show "\<exists>c. child_at at (mg_children (MergingIterator ops children) ! j) (Ss ! j) c"
      by (auto simp: MergingIterator_def)
  qed (use assms(1) l in \<open>simp_all add: MergingIterator_def\<close>)
  consider "children = []" | i where "children = [i]" | i i' rest where "children = i # i' # rest"
    by (cases children rule: remdups_adj.cases) auto
  then show ?thesis
  proof cases
    case 1
    with l assms(1) show ?thesis by (simp add: merged_at_def NewMergingIterator_def parted_def)
  next
    case 2
    with l obtain A where "Ss = [A]" by (cases Ss) auto
    with 2 assms show ?thesis by (simp add: merged_at_def NewMergingIterator_def parted_def)
  next
    case 3
    with m show ?thesis by (simp add: merged_at_def NewMergingIterator_def)
  qed
qed

end

section \<open>Memtables\<close>

interpretation mem_merge: merging mem_iterator "ikey_rank (\<lambda>k. k)" ikey_valid mem_at "InternalKeyComparator BytewiseComparator"
proof (intro merging.intro mem_iter.iterator_contract_axioms ordered_keys.intro)
  fix a b
  assume "ikey_valid a" "ikey_valid b"
  then have "8 \<le> length a" "8 \<le> length b" by (simp_all add: ikey_valid_def)
  from internal.compare_less [OF this] internal.compare_eq [OF this]
  show "Compare (InternalKeyComparator BytewiseComparator) a b < 0 \<longleftrightarrow> ikey_rank (\<lambda>k. k) a < ikey_rank (\<lambda>k. k) b"
    "Compare (InternalKeyComparator BytewiseComparator) a b = 0 \<longleftrightarrow> ikey_rank (\<lambda>k. k) a = ikey_rank (\<lambda>k. k) b"
    by (simp_all add: ikey_rank_def)
qed

interpretation mem_merged: iterator_contract "merged_class mem_iterator (InternalKeyComparator BytewiseComparator)"
  "ikey_rank (\<lambda>k. k)" ikey_valid "merged_at mem_at (ikey_rank (\<lambda>k. k))"
  by (rule mem_merge.merged_contract)

lemma parted_distinct:
  assumes "distinct (concat xss)" and "inj_on (rank_of key) (set (concat xss))"
  shows "parted key (set (concat xss)) (map set xss)"
proof -
  have "set (xss ! i) \<inter> set (xss ! j) = {}" if "i < j" "j < length xss" for i j
  proof -
    have "xss = take j xss @ xss ! j # drop (Suc j) xss" using that(2) by (rule id_take_nth_drop)
    then have "distinct (concat (take j xss) @ concat (xss ! j # drop (Suc j) xss))" using assms(1) by (metis concat_append)
    then have "set (concat (take j xss)) \<inter> set (xss ! j) = {}" by auto
    moreover have "xss ! i \<in> set (take j xss)" using that by (auto simp: in_set_conv_nth intro!: exI [of _ i])
    ultimately show ?thesis by auto
  qed
  then have "set (xss ! i) \<inter> set (xss ! j) = {}" if "i < length xss" "j < length xss" "i \<noteq> j" for i j
    using that by (cases i j rule: linorder_cases) auto
  with assms(2) show ?thesis by (simp add: parted_def)
qed

section \<open>Properties\<close>

text \<open>
  C3: the merging iterator over memtables is an iterator over one sorted list: for any sequence of seeks, steps
  forward and steps backward, with every change of the direction, it is valid after each call where the list
  is, and at the same entry. The list is the sorted permutation of the entries of all tables, no two of which
  have the same user key and sequence number.
\<close>

theorem merging_is_sorted_list:
  assumes "list_all2 mem_holds mts ess" and "mset xs = mset (map entry_pair (concat ess))"
    and "sorted_wrt (\<lambda>a b. mem_order a < mem_order b) xs" and "calls_valid ikey_valid calls"
  shows "iter_run (merged_class mem_iterator (InternalKeyComparator BytewiseComparator)) calls
      (NewMergingIterator mem_iterator (map mem_NewIterator mts)) = Some (list_run (ikey_rank (\<lambda>k. k)) xs calls None)"
proof (rule mem_merged.run_refines [OF _ refl assms(3) _ assms(4)])
  let ?xss = "map (map entry_pair) ess"
  have m: "mset xs = mset (concat ?xss)" by (simp only: assms(2) map_concat)
  have inj: "inj_on mem_order (set xs)" by (rule sorted_strict_inj [OF assms(3)])
  have "distinct xs" using assms(3) by (induction xs) auto
  then have "distinct (concat ?xss)" by (simp only: mset_eq_imp_distinct_iff [OF m])
  moreover have s: "set xs = set (concat ?xss)" by (rule mset_eq_setD [OF m])
  ultimately have "parted (ikey_rank (\<lambda>k. k)) (set xs) (map set ?xss)"
    using parted_distinct [of ?xss "ikey_rank (\<lambda>k. k)"] inj by simp
  moreover have "list_all2 (\<lambda>i A. mem_at i A None) (map mem_NewIterator mts) (map set ?xss)"
    unfolding list_all2_map1 list_all2_map2 using assms(1) by (rule list_all2_mono) (simp add: mem_NewIterator_at)
  ultimately show "merged_at mem_at (ikey_rank (\<lambda>k. k)) (NewMergingIterator mem_iterator (map mem_NewIterator mts)) (set xs)
      (map_option ((!) xs) None)"
    using mem_merge.NewMergingIterator_at by simp
qed simp

lemma one_entry:
  assumes "entry_ok e"
  obtains mt where "mem_Add (seq_number e) (value_type e) (user_key e) (entry_value e) (MemTable BytewiseComparator) = Some mt"
    and "mem_holds mt [e]"
  by (rule mem_Add_holds [OF new_mem_holds assms]) auto

theorem merging_is_sorted_list_witness:
  "\<exists>mt mt' xs. mem_Add 1 kTypeValue [97] [1] (MemTable BytewiseComparator) = Some mt
     \<and> mem_Add 2 kTypeValue [98] [2] (MemTable BytewiseComparator) = Some mt' \<and> length xs = 2
     \<and> iter_run (merged_class mem_iterator (InternalKeyComparator BytewiseComparator)) [Call_Last, Call_Prev, Call_Next, Call_Next]
         (NewMergingIterator mem_iterator [mem_NewIterator mt, mem_NewIterator mt']) = Some [Some (xs ! 1), Some (xs ! 0), Some (xs ! 1), None]"
proof -
  let ?e = "\<lparr>user_key = [97], seq_number = 1, value_type = kTypeValue, entry_value = [1]\<rparr>"
  let ?f = "\<lparr>user_key = [98], seq_number = 2, value_type = kTypeValue, entry_value = [2]\<rparr>"
  have "entry_ok ?e" "entry_ok ?f" by (simp_all add: entry_ok_def kMaxSequenceNumber_def)
  then obtain mt mt' where t: "mem_Add 1 kTypeValue [97] [1] (MemTable BytewiseComparator) = Some mt" "mem_holds mt [?e]"
      "mem_Add 2 kTypeValue [98] [2] (MemTable BytewiseComparator) = Some mt'" "mem_holds mt' [?f]"
    by (metis (no_types) one_entry entry.select_convs ParsedInternalKey.select_convs)
  let ?xs = "[entry_pair ?e, entry_pair ?f]"
  have "iter_run (merged_class mem_iterator (InternalKeyComparator BytewiseComparator)) [Call_Last, Call_Prev, Call_Next, Call_Next]
      (NewMergingIterator mem_iterator (map mem_NewIterator [mt, mt'])) =
      Some (list_run (ikey_rank (\<lambda>k. k)) ?xs [Call_Last, Call_Prev, Call_Next, Call_Next] None)"
    by (rule merging_is_sorted_list [of "[mt, mt']" "[[?e], [?f]]"])
      (use t in \<open>simp_all add: rank_of_def ikey_rank_def entry_pair_def IKey_less calls_valid_def\<close>)
  moreover have "list_run (ikey_rank (\<lambda>k. k)) ?xs [Call_Last, Call_Prev, Call_Next, Call_Next] None =
      [Some (?xs ! 1), Some (?xs ! 0), Some (?xs ! 1), None]" by (simp add: list_step_def)
  ultimately show ?thesis using t(1,3) by (intro exI [of _ mt] exI [of _ mt'] exI [of _ ?xs]) simp
qed

end
