(* ===== verification/Ldb_DbIter.thy ===== *)
theory Ldb_DbIter
  imports Ldb_Merger
begin

text \<open>
  \<open>leveldb-library/db/db_iter.cc\<close>: the iterator a client of the database gets. It runs over the entries of an
  internal iterator, which are versions of user keys, and shows of every user key the newest version that the
  snapshot sees, unless it is a deletion. What is promised of an iterator is proved of it, over this view, from
  what is promised of the internal one.
\<close>

section \<open>The code\<close>

definition kReadBytesPeriod :: u32 where
  "kReadBytesPeriod = 1048576"

text \<open>
  The direction has the values of the merging iterator's. \<open>saved_key_\<close> is also the \<open>skip\<close> of every call of
  \<open>FindNextUserEntry\<close>. \<open>di_samples\<close> are the calls of \<open>RecordReadSample\<close>, with which the database counts reads.
\<close>

record 'i dbiter =
  di_iter :: 'i
  di_status :: status
  di_saved_key :: slice
  di_saved_value :: slice
  di_direction :: direction
  di_valid :: bool
  di_rnd :: u32
  di_bytes :: nat
  di_samples :: "slice list"

definition RandomCompactionPeriod :: "u32 \<Rightarrow> u32 \<times> u32" where
  "RandomCompactionPeriod rnd = Random_Uniform (2 * kReadBytesPeriod) rnd"

definition DBIter :: "'i \<Rightarrow> u32 \<Rightarrow> 'i dbiter" where
  "DBIter iter seed =
     (case RandomCompactionPeriod (Random seed) of (bytes, rnd) \<Rightarrow>
        \<lparr>di_iter = iter, di_status = OK, di_saved_key = [], di_saved_value = [], di_direction = kForward, di_valid = False,
         di_rnd = rnd, di_bytes = unat bytes, di_samples = []\<rparr>)"

definition di_key :: "'i iterator_class \<Rightarrow> 'i dbiter \<Rightarrow> slice" where
  "di_key ops it = (if di_direction it = kForward then ExtractUserKey (op_key ops (di_iter it)) else di_saved_key it)"

definition di_value :: "'i iterator_class \<Rightarrow> 'i dbiter \<Rightarrow> slice" where
  "di_value ops it = (if di_direction it = kForward then op_value ops (di_iter it) else di_saved_value it)"

definition di_get_status :: "'i iterator_class \<Rightarrow> 'i dbiter \<Rightarrow> status" where
  "di_get_status ops it = (if ok (di_status it) then op_status ops (di_iter it) else di_status it)"

definition ClearSavedValue :: "'i dbiter \<Rightarrow> 'i dbiter" where
  "ClearSavedValue it = it\<lparr>di_saved_value := []\<rparr>"

partial_function (option) sample_loop :: "slice \<Rightarrow> nat \<Rightarrow> 'i dbiter \<Rightarrow> 'i dbiter option" where
  "sample_loop k bytes_read it =
     (if di_bytes it < bytes_read then
        (case RandomCompactionPeriod (di_rnd it) of (bytes, rnd) \<Rightarrow>
           sample_loop k bytes_read (it\<lparr>di_rnd := rnd, di_bytes := di_bytes it + unat bytes, di_samples := di_samples it @ [k]\<rparr>))
      else Some it)"

definition ParseKey :: "'i iterator_class \<Rightarrow> 'i dbiter \<Rightarrow> (ParsedInternalKey option \<times> 'i dbiter) option" where
  "ParseKey ops it =
     (let k = op_key ops (di_iter it);
          bytes_read = length k + length (op_value ops (di_iter it))
      in Option.bind (sample_loop k bytes_read it) (\<lambda>it.
           let it = it\<lparr>di_bytes := di_bytes it - bytes_read\<rparr>
           in case ParseInternalKey k of
                None \<Rightarrow> Some (None, it\<lparr>di_status := Corruption ''corrupted internal key in DBIter'' []\<rparr>)
              | Some ikey \<Rightarrow> Some (Some ikey, it)))"

text \<open>The condition at the head of both loops.\<close>

definition visible_key :: "u64 \<Rightarrow> ParsedInternalKey option \<Rightarrow> ParsedInternalKey option" where
  "visible_key sequence ikey = Option.bind ikey (\<lambda>k. if seq_number k \<le> sequence then Some k else None)"

text \<open>One entry of \<open>FindNextUserEntry\<close>: the iterator to return with, or whether to skip on.\<close>

definition next_entry :: "comparator \<Rightarrow> u64 \<Rightarrow> bool \<Rightarrow> ParsedInternalKey option \<Rightarrow> 'i dbiter \<Rightarrow> 'i dbiter + bool \<times> 'i dbiter" where
  "next_entry cmp sequence skipping ikey it =
     (case visible_key sequence ikey of
        None \<Rightarrow> Inr (skipping, it)
      | Some k \<Rightarrow>
          (case value_type k of
             kTypeDeletion \<Rightarrow> Inr (True, it\<lparr>di_saved_key := user_key k\<rparr>)
           | kTypeValue \<Rightarrow>
               if skipping \<and> Compare cmp (user_key k) (di_saved_key it) \<le> 0 then Inr (skipping, it)
               else Inl (it\<lparr>di_valid := True, di_saved_key := []\<rparr>)))"

partial_function (option) FindNextUserEntry ::
  "'i iterator_class \<Rightarrow> comparator \<Rightarrow> u64 \<Rightarrow> bool \<Rightarrow> 'i dbiter \<Rightarrow> 'i dbiter option" where
  "FindNextUserEntry ops cmp sequence skipping it =
     Option.bind (ParseKey ops it) (\<lambda>r.
       case next_entry cmp sequence skipping (fst r) (snd r) of
         Inl it \<Rightarrow> Some it
       | Inr r \<Rightarrow>
           Option.bind (op_Next ops (di_iter (snd r))) (\<lambda>i.
             if op_Valid ops i then FindNextUserEntry ops cmp sequence (fst r) ((snd r)\<lparr>di_iter := i\<rparr>)
             else Some ((snd r)\<lparr>di_iter := i, di_saved_key := [], di_valid := False\<rparr>)))"

text \<open>One entry of \<open>FindPrevUserEntry\<close>: a break with nothing done, or the type and what is saved.\<close>

definition prev_entry :: "'i iterator_class \<Rightarrow> comparator \<Rightarrow> u64 \<Rightarrow> ValueType \<Rightarrow> ParsedInternalKey option \<Rightarrow> 'i dbiter \<Rightarrow>
    (ValueType \<times> 'i dbiter) option" where
  "prev_entry ops cmp sequence value_ty ikey it =
     (case visible_key sequence ikey of
        None \<Rightarrow> Some (value_ty, it)
      | Some k \<Rightarrow>
          if value_ty \<noteq> kTypeDeletion \<and> Compare cmp (user_key k) (di_saved_key it) < 0 then None
          else if value_type k = kTypeDeletion then Some (value_type k, ClearSavedValue (it\<lparr>di_saved_key := []\<rparr>))
          else Some (value_type k, it\<lparr>di_saved_key := ExtractUserKey (op_key ops (di_iter it)),
                 di_saved_value := op_value ops (di_iter it)\<rparr>))"

partial_function (option) find_prev_loop ::
  "'i iterator_class \<Rightarrow> comparator \<Rightarrow> u64 \<Rightarrow> ValueType \<Rightarrow> 'i dbiter \<Rightarrow> (ValueType \<times> 'i dbiter) option" where
  "find_prev_loop ops cmp sequence value_ty it =
     Option.bind (ParseKey ops it) (\<lambda>r.
       case prev_entry ops cmp sequence value_ty (fst r) (snd r) of
         None \<Rightarrow> Some (value_ty, snd r)
       | Some r \<Rightarrow>
           Option.bind (op_Prev ops (di_iter (snd r))) (\<lambda>i.
             if op_Valid ops i then find_prev_loop ops cmp sequence (fst r) ((snd r)\<lparr>di_iter := i\<rparr>)
             else Some (fst r, (snd r)\<lparr>di_iter := i\<rparr>)))"

definition FindPrevUserEntry :: "'i iterator_class \<Rightarrow> comparator \<Rightarrow> u64 \<Rightarrow> 'i dbiter \<Rightarrow> 'i dbiter option" where
  "FindPrevUserEntry ops cmp sequence it =
     map_option (\<lambda>(value_ty, it).
         if value_ty = kTypeDeletion
         then (ClearSavedValue (it\<lparr>di_valid := False, di_saved_key := []\<rparr>))\<lparr>di_direction := kForward\<rparr>
         else it\<lparr>di_valid := True\<rparr>)
       (if op_Valid ops (di_iter it) then find_prev_loop ops cmp sequence kTypeDeletion it else Some (kTypeDeletion, it))"

definition di_Next :: "'i iterator_class \<Rightarrow> comparator \<Rightarrow> u64 \<Rightarrow> 'i dbiter \<Rightarrow> 'i dbiter option" where
  "di_Next ops cmp sequence it =
     (if di_direction it = kReverse then
        Option.bind (if op_Valid ops (di_iter it) then op_Next ops (di_iter it) else op_SeekToFirst ops (di_iter it)) (\<lambda>i.
          let it = it\<lparr>di_direction := kForward, di_iter := i\<rparr>
          in if op_Valid ops i then FindNextUserEntry ops cmp sequence True it
             else Some (it\<lparr>di_valid := False, di_saved_key := []\<rparr>))
      else FindNextUserEntry ops cmp sequence True (it\<lparr>di_saved_key := ExtractUserKey (op_key ops (di_iter it))\<rparr>))"

text \<open>The scan back over the entries of the current key: false if there is nothing in front of them.\<close>

partial_function (option) back_loop :: "'i iterator_class \<Rightarrow> comparator \<Rightarrow> 'i dbiter \<Rightarrow> (bool \<times> 'i dbiter) option" where
  "back_loop ops cmp it =
     Option.bind (op_Prev ops (di_iter it)) (\<lambda>i.
       if \<not> op_Valid ops i then Some (False, ClearSavedValue (it\<lparr>di_iter := i, di_valid := False, di_saved_key := []\<rparr>))
       else if Compare cmp (ExtractUserKey (op_key ops i)) (di_saved_key it) < 0 then Some (True, it\<lparr>di_iter := i\<rparr>)
       else back_loop ops cmp (it\<lparr>di_iter := i\<rparr>))"

definition di_Prev :: "'i iterator_class \<Rightarrow> comparator \<Rightarrow> u64 \<Rightarrow> 'i dbiter \<Rightarrow> 'i dbiter option" where
  "di_Prev ops cmp sequence it =
     (if di_direction it = kForward then
        Option.bind (back_loop ops cmp (it\<lparr>di_saved_key := ExtractUserKey (op_key ops (di_iter it))\<rparr>)) (\<lambda>(go_on, it).
          if go_on then FindPrevUserEntry ops cmp sequence (it\<lparr>di_direction := kReverse\<rparr>) else Some it)
      else FindPrevUserEntry ops cmp sequence it)"

definition di_Seek :: "'i iterator_class \<Rightarrow> comparator \<Rightarrow> u64 \<Rightarrow> slice \<Rightarrow> 'i dbiter \<Rightarrow> 'i dbiter option" where
  "di_Seek ops cmp sequence target it =
     (let it = ClearSavedValue (it\<lparr>di_direction := kForward\<rparr>);
          it = it\<lparr>di_saved_key := AppendInternalKey [] \<lparr>user_key = target, seq_number = sequence, value_type = kValueTypeForSeek\<rparr>\<rparr>
      in Option.bind (op_Seek ops (di_saved_key it) (di_iter it)) (\<lambda>i.
           let it = it\<lparr>di_iter := i\<rparr>
           in if op_Valid ops i then FindNextUserEntry ops cmp sequence False it else Some (it\<lparr>di_valid := False\<rparr>)))"

definition di_SeekToFirst :: "'i iterator_class \<Rightarrow> comparator \<Rightarrow> u64 \<Rightarrow> 'i dbiter \<Rightarrow> 'i dbiter option" where
  "di_SeekToFirst ops cmp sequence it =
     (let it = ClearSavedValue (it\<lparr>di_direction := kForward\<rparr>)
      in Option.bind (op_SeekToFirst ops (di_iter it)) (\<lambda>i.
           let it = it\<lparr>di_iter := i\<rparr>
           in if op_Valid ops i then FindNextUserEntry ops cmp sequence False it else Some (it\<lparr>di_valid := False\<rparr>)))"

definition di_SeekToLast :: "'i iterator_class \<Rightarrow> comparator \<Rightarrow> u64 \<Rightarrow> 'i dbiter \<Rightarrow> 'i dbiter option" where
  "di_SeekToLast ops cmp sequence it =
     (let it = ClearSavedValue (it\<lparr>di_direction := kReverse\<rparr>)
      in Option.bind (op_SeekToLast ops (di_iter it)) (\<lambda>i. FindPrevUserEntry ops cmp sequence (it\<lparr>di_iter := i\<rparr>)))"

definition dbiter_class :: "'i iterator_class \<Rightarrow> comparator \<Rightarrow> u64 \<Rightarrow> 'i dbiter iterator_class" where
  "dbiter_class ops cmp sequence = \<lparr>op_Valid = di_valid, op_SeekToFirst = di_SeekToFirst ops cmp sequence,
     op_SeekToLast = di_SeekToLast ops cmp sequence, op_Seek = di_Seek ops cmp sequence, op_Next = di_Next ops cmp sequence,
     op_Prev = di_Prev ops cmp sequence, op_key = di_key ops, op_value = di_value ops, op_status = di_get_status ops\<rparr>"

section \<open>The samples\<close>

text \<open>The generator of LevelDB does not give a period of no bytes twice in a row, so the loop ends.\<close>

lemma period_not_0:
  assumes "0 < unat s" and "unat s < 2147483647" and "unat (Random_Next s) mod 2097152 = 0"
  shows "0 < unat (Random_Next (Random_Next s)) mod 2097152"
proof -
  define n where "n = unat (Random_Next s)"
  have n: "0 < n" "n < 2147483647" "n mod 2097152 = 0" using Random_Next_mod [OF assms(1,2)] assms(3) by (simp_all add: n_def)
  define c where "c = n div 2097152"
  have c: "n = c * 2097152" "1 \<le> c" "c \<le> 1023" using n by (auto simp: c_def)
  define a b where "a = c * 16807 div 1024" and "b = c * 16807 mod 1024"
  have ab: "c * 16807 = a * 1024 + b" "b \<le> 1023" by (auto simp: a_def b_def less_Suc_eq_le [symmetric])
  have a: "1 \<le> a" "a \<le> 16790" using c by (auto simp: a_def div_le_mono less_eq_div_iff_mult_less_eq)
  have "n * 16807 = (a + b * 2097152) + a * 2147483647" using ab(1) c(1) by simp
  then have "n * 16807 mod 2147483647 = (a + b * 2097152) mod 2147483647" by (simp only: mod_mult_self1)
  also have "\<dots> = a + b * 2097152" using a ab(2) by (intro mod_less) simp
  finally have "n * 16807 mod 2147483647 = a + b * 2097152" .
  moreover have "(a + b * 2097152) mod 2097152 = a" using a(2) by simp
  ultimately show ?thesis
    using Random_Next_mod(1) [of "Random_Next s"] n a(1) by (simp add: n_def)
qed

definition good_seed :: "u32 \<Rightarrow> bool" where
  "good_seed s \<longleftrightarrow> 0 < unat s \<and> unat s < 2147483647"

text \<open>What the loop leaves alone: all but the generator, the bytes and the samples.\<close>

definition same_place :: "'i dbiter \<Rightarrow> 'i dbiter \<Rightarrow> bool" where
  "same_place it it' \<longleftrightarrow> di_iter it' = di_iter it \<and> di_status it' = di_status it \<and> di_saved_key it' = di_saved_key it
     \<and> di_saved_value it' = di_saved_value it \<and> di_direction it' = di_direction it \<and> di_valid it' = di_valid it"

lemma period_facts:
  assumes "good_seed rnd" and "RandomCompactionPeriod rnd = (bytes, rnd')"
  shows "good_seed rnd'" and "unat bytes = 0 \<Longrightarrow> 0 < unat (fst (RandomCompactionPeriod rnd'))"
proof -
  have p: "RandomCompactionPeriod r = (Random_Next r mod 2097152, Random_Next r)" for r
    by (simp add: RandomCompactionPeriod_def Random_Uniform_def kReadBytesPeriod_def Let_def)
  have m: "unat (w mod 2097152 :: u32) = unat w mod 2097152" for w by (simp add: unat_mod_distrib)
  show "good_seed rnd'" using Random_Next_mod [of rnd] assms by (auto simp: good_seed_def p)
  show "unat bytes = 0 \<Longrightarrow> 0 < unat (fst (RandomCompactionPeriod rnd'))"
    using period_not_0 [of rnd] assms by (auto simp: good_seed_def p m)
qed

lemma sample_loop_ends:
  assumes "good_seed (di_rnd it)"
  shows "\<exists>it'. sample_loop k n it = Some it' \<and> same_place it it' \<and> good_seed (di_rnd it')"
  using assms
proof (induction "2 * (n - di_bytes it) + (if unat (fst (RandomCompactionPeriod (di_rnd it))) = 0 then 1 else 0)"
    arbitrary: it rule: less_induct)
  case less
  show ?case
  proof (cases "di_bytes it < n")
    case False
    with less.prems show ?thesis by (subst sample_loop.simps) (simp add: same_place_def)
  next
    case True
    obtain bytes rnd where r: "RandomCompactionPeriod (di_rnd it) = (bytes, rnd)" by (cases "RandomCompactionPeriod (di_rnd it)")
    note facts = period_facts [OF less.prems r]
    let ?it = "it\<lparr>di_rnd := rnd, di_bytes := di_bytes it + unat bytes, di_samples := di_samples it @ [k]\<rparr>"
    have "2 * (n - di_bytes ?it) + (if unat (fst (RandomCompactionPeriod (di_rnd ?it))) = 0 then 1 else 0)
        < 2 * (n - di_bytes it) + (if unat (fst (RandomCompactionPeriod (di_rnd it))) = 0 then 1 else 0)"
      using facts(2) r True by (cases "unat bytes = 0") auto
    from less.hyps [OF this] facts(1) obtain it' where
      it': "sample_loop k n ?it = Some it'" "same_place ?it it'" "good_seed (di_rnd it')" by auto
    have "same_place it it'" using it'(2) by (simp add: same_place_def)
    moreover have "sample_loop k n it = Some it'" using True r it'(1) by (subst sample_loop.simps) simp
    ultimately show ?thesis using it'(3) by blast
  qed
qed

lemma ParseKey_place:
  assumes "good_seed (di_rnd it)" and "ParseInternalKey (op_key ops (di_iter it)) = Some k"
  shows "\<exists>it'. ParseKey ops it = Some (Some k, it') \<and> same_place it it' \<and> good_seed (di_rnd it')"
proof -
  let ?n = "length (op_key ops (di_iter it)) + length (op_value ops (di_iter it))"
  obtain it' where it': "sample_loop (op_key ops (di_iter it)) ?n it = Some it'" "same_place it it'" "good_seed (di_rnd it')"
    using sample_loop_ends [OF assms(1)] by blast
  have "ParseKey ops it = Some (Some k, it'\<lparr>di_bytes := di_bytes it' - ?n\<rparr>)"
    using it'(1) assms(2) by (simp add: ParseKey_def Let_def)
  moreover have "same_place it (it'\<lparr>di_bytes := di_bytes it' - ?n\<rparr>)"
    using it'(2) by (simp add: same_place_def)
  ultimately show ?thesis using it'(3) by auto
qed

section \<open>What the snapshot sees\<close>

definition seen :: "u64 \<Rightarrow> slice \<times> slice \<Rightarrow> bool" where
  "seen s e \<longleftrightarrow> visible_key s (ParseInternalKey (fst e)) \<noteq> None"

definition value_entry :: "slice \<times> slice \<Rightarrow> bool" where
  "value_entry e \<longleftrightarrow> map_option value_type (ParseInternalKey (fst e)) = Some kTypeValue"

definition user_rank :: "(slice \<Rightarrow> 'k) \<Rightarrow> slice \<times> slice \<Rightarrow> 'k" where
  "user_rank key e = key (ExtractUserKey (fst e))"

text \<open>The newest versions that are seen, and are values.\<close>

definition live :: "(slice \<Rightarrow> 'k::linorder) \<Rightarrow> u64 \<Rightarrow> (slice \<times> slice) set \<Rightarrow> (slice \<times> slice) set" where
  "live key s S = {e \<in> S. seen s e \<and> value_entry e
     \<and> (\<forall>x\<in>S. seen s x \<and> user_rank key x = user_rank key e \<longrightarrow> rank_of (ikey_rank key) e \<le> rank_of (ikey_rank key) x)}"

definition user_entry :: "slice \<times> slice \<Rightarrow> slice \<times> slice" where
  "user_entry e = (ExtractUserKey (fst e), snd e)"

definition user_view :: "(slice \<Rightarrow> 'k::linorder) \<Rightarrow> u64 \<Rightarrow> (slice \<times> slice) set \<Rightarrow> (slice \<times> slice) set" where
  "user_view key s S = user_entry ` live key s S"

definition proper_entries :: "(slice \<Rightarrow> bool) \<Rightarrow> (slice \<times> slice) set \<Rightarrow> bool" where
  "proper_entries valid S \<longleftrightarrow> (\<forall>e\<in>S. ParseInternalKey (fst e) \<noteq> None \<and> valid (ExtractUserKey (fst e)))"

lemma user_entry_rank [simp]: "rank_of key (user_entry e) = user_rank key e"
  by (simp add: rank_of_def user_entry_def user_rank_def)

lemma parsed:
  assumes "ParseInternalKey k = Some p"
  shows "ExtractUserKey k = user_key p" and "key_tag k = PackSequenceAndType (seq_number p) (value_type p)"
    and "seq_number p \<le> kMaxSequenceNumber"
  using assms by (auto simp: ParseInternalKey_iff)

text \<open>The order of versions: by user keys, the versions of one by age.\<close>

lemma ikey_rank_order:
  "user_rank key a < user_rank key b \<Longrightarrow> rank_of (ikey_rank key) a < rank_of (ikey_rank key) b"
  "rank_of (ikey_rank key) a \<le> rank_of (ikey_rank key) b \<Longrightarrow> user_rank key a \<le> (user_rank key b :: 'k::linorder)"
  by (auto simp: rank_of_def ikey_rank_def user_rank_def IKey_less less_eq_internal_order_def)

text \<open>The key of a seek comes before the versions of the user key that are seen, behind those that are not.\<close>

lemma seek_rank_less:
  assumes "s \<le> kMaxSequenceNumber" and "seen s e"
  shows "ikey_rank key (AppendInternalKey [] \<lparr>user_key = u, seq_number = s, value_type = kValueTypeForSeek\<rparr>) \<le> rank_of (ikey_rank key) e
    \<longleftrightarrow> key u \<le> (user_rank key e :: 'k::linorder)"
proof -
  from assms(2) obtain p where p: "ParseInternalKey (fst e) = Some p" "seq_number p \<le> s"
    by (auto simp: seen_def visible_key_def bind_eq_Some_conv split: if_splits)
  note pk = parsed [OF p(1)]
  have "PackSequenceAndType (seq_number p) (value_type p) \<le> PackSequenceAndType s kTypeValue"
    using pack_order [OF assms(1) pk(3), of kTypeValue "value_type p"] p(2) by (auto simp: not_less [symmetric])
  then show ?thesis
    by (auto simp: ikey_rank_def rank_of_def user_rank_def pk less_eq_internal_order_def IKey_less kValueTypeForSeek_def)
qed

lemma seek_rank_user:
  "ikey_rank key (AppendInternalKey [] \<lparr>user_key = u, seq_number = s, value_type = t\<rparr>) \<le> rank_of (ikey_rank key) e
    \<Longrightarrow> key u \<le> (user_rank key e :: 'k::linorder)"
  by (auto simp: ikey_rank_def rank_of_def user_rank_def less_eq_internal_order_def IKey_less)

section \<open>Positions\<close>

text \<open>
  Going forward the internal iterator is at the entry shown; going back it is at the last version seen of the
  keys in front of it.
\<close>

definition db_at :: "('i \<Rightarrow> (slice \<times> slice) set \<Rightarrow> (slice \<times> slice) option \<Rightarrow> bool) \<Rightarrow> (slice \<Rightarrow> 'k::linorder) \<Rightarrow> (slice \<Rightarrow> bool) \<Rightarrow>
    u64 \<Rightarrow> 'i dbiter \<Rightarrow> (slice \<times> slice) set \<Rightarrow> (slice \<times> slice) option \<Rightarrow> bool" where
  "db_at at key valid s it S e \<longleftrightarrow> proper_entries valid S \<and> good_seed (di_rnd it) \<and> di_status it = OK
     \<and> (\<exists>c. at (di_iter it) S c \<and>
         (case e of None \<Rightarrow> \<not> di_valid it
          | Some e \<Rightarrow> di_valid it \<and> e \<in> live key s S \<and>
              (case di_direction it of kForward \<Rightarrow> c = Some e
               | kReverse \<Rightarrow> di_saved_key it = ExtractUserKey (fst e) \<and> di_saved_value it = snd e
                   \<and> last_in (rank_of (ikey_rank key)) {x \<in> S. seen s x \<and> user_rank key x < user_rank key e} c)))"

definition view_at :: "('i \<Rightarrow> (slice \<times> slice) set \<Rightarrow> (slice \<times> slice) option \<Rightarrow> bool) \<Rightarrow> (slice \<Rightarrow> 'k::linorder) \<Rightarrow> (slice \<Rightarrow> bool) \<Rightarrow>
    u64 \<Rightarrow> 'i dbiter \<Rightarrow> (slice \<times> slice) set \<Rightarrow> (slice \<times> slice) option \<Rightarrow> bool" where
  "view_at at key valid s it U c \<longleftrightarrow> (\<exists>S e. U = user_view key s S \<and> c = map_option user_entry e \<and> db_at at key valid s it S e)"

locale snapshot_iterator = iterator_contract ops "ikey_rank key" ivalid at + ordered_keys "Compare cmp" uvalid key
  for ops :: "'i iterator_class" and key :: "slice \<Rightarrow> 'k::linorder" and ivalid at and cmp :: comparator and uvalid +
  fixes s :: u64
  assumes sequence: "s \<le> kMaxSequenceNumber"
    and lookup_valid: "uvalid u \<Longrightarrow> ivalid (AppendInternalKey [] \<lparr>user_key = u, seq_number = s, value_type = kValueTypeForSeek\<rparr>)"
begin

abbreviation r :: "slice \<times> slice \<Rightarrow> 'k internal_order" where
  "r \<equiv> rank_of (ikey_rank key)"

abbreviation u :: "slice \<times> slice \<Rightarrow> 'k" where
  "u \<equiv> user_rank key"

lemma compare_keys_le: "uvalid a \<Longrightarrow> uvalid b \<Longrightarrow> Compare cmp a b \<le> 0 \<longleftrightarrow> key a \<le> key b"
  using cmp_less [of a b] cmp_eq [of a b] by (auto simp: order_le_less)

text \<open>An entry the internal iterator is at.\<close>

lemma parse_at:
  assumes "proper_entries uvalid S" and "at (di_iter it) S (Some x)" and "good_seed (di_rnd it)"
  obtains k it' where "ParseKey ops it = Some (Some k, it')" and "same_place it it'" and "good_seed (di_rnd it')"
    and "user_key k = ExtractUserKey (fst x)" and "uvalid (user_key k)" and "key (user_key k) = u x"
    and "visible_key s (Some k) = (if seen s x then Some k else None)" and "value_type k = kTypeValue \<longleftrightarrow> value_entry x"
proof -
  from position [OF assms(2)] have x: "x \<in> S" "op_key ops (di_iter it) = fst x" by simp_all
  with assms(1) obtain k where k: "ParseInternalKey (fst x) = Some k" "uvalid (ExtractUserKey (fst x))"
    by (auto simp: proper_entries_def)
  from ParseKey_place [OF assms(3), of ops k] x(2) k(1) obtain it' where
    it': "ParseKey ops it = Some (Some k, it')" "same_place it it'" "good_seed (di_rnd it')" by auto
  show thesis
    by (rule that [OF it']) (use k parsed(1) [OF k(1)] in \<open>auto simp: user_rank_def seen_def visible_key_def value_entry_def\<close>)
qed

text \<open>Going forward: what may be skipped, and what must be.\<close>

definition skip_inv :: "(slice \<times> slice) set \<Rightarrow> slice \<times> slice \<Rightarrow> bool \<Rightarrow> slice \<Rightarrow> bool" where
  "skip_inv S x skipping saved \<longleftrightarrow>
     (if skipping then uvalid saved \<and> (\<forall>y\<in>S. seen s y \<longrightarrow> (if r y < r x then u y \<le> key saved else key saved \<le> u y))
      else \<forall>y\<in>S. seen s y \<and> r y < r x \<longrightarrow> u y < u x)"

lemma live_at:
  assumes "skip_inv S x skipping saved" and "x \<in> S" and "seen s x" and "value_entry x" and "skipping \<Longrightarrow> key saved < u x"
  shows "x \<in> live key s S"
proof -
  have "r x \<le> r y" if y: "y \<in> S" "seen s y" "u y = u x" for y
  proof (rule ccontr)
    assume "\<not> r x \<le> r y"
    then have "r y < r x" by simp
    with assms(1) y have "if skipping then u y \<le> key saved else u y < u x" by (auto simp: skip_inv_def split: if_splits)
    with assms(5) y(3) show False by (auto split: if_splits)
  qed
  with assms show ?thesis by (auto simp: live_def)
qed

lemma live_seen: "e \<in> live key s S \<Longrightarrow> e \<in> S \<and> seen s e \<and> value_entry e"
  by (simp add: live_def)

lemma live_newest: "e \<in> live key s S \<Longrightarrow> x \<in> S \<Longrightarrow> seen s x \<Longrightarrow> u x = u e \<Longrightarrow> r e \<le> r x"
  by (simp add: live_def)

lemma find_next:
  assumes "proper_entries uvalid S" and "good_seed (di_rnd it)" and "di_status it = OK" and "di_direction it = kForward"
    and "at (di_iter it) S (Some x)" and "skip_inv S x skipping (di_saved_key it)"
  shows "\<exists>it' e. FindNextUserEntry ops cmp s skipping it = Some it' \<and> db_at at key uvalid s it' S e
    \<and> first_in u {y \<in> live key s S. r x \<le> r y \<and> (skipping \<longrightarrow> key (di_saved_key it) < u y)} e"
  using assms
proof (induction "card {y \<in> S. r x \<le> r y}" arbitrary: x skipping it rule: less_induct)
  case less
  note split_paired_All [simp del]
  note S = entries [OF less.prems(5)]
  have x: "x \<in> S" using position [OF less.prems(5)] by simp
  obtain k it1 where k: "ParseKey ops it = Some (Some k, it1)" "same_place it it1" "good_seed (di_rnd it1)"
      "user_key k = ExtractUserKey (fst x)" "uvalid (user_key k)" "key (user_key k) = u x"
      "visible_key s (Some k) = (if seen s x then Some k else None)" "value_type k = kTypeValue \<longleftrightarrow> value_entry x"
    by (rule parse_at [OF less.prems(1,5,2)]) blast
  let ?L = "{y \<in> live key s S. r x \<le> r y \<and> (skipping \<longrightarrow> key (di_saved_key it) < u y)}"
  show ?case
  proof (cases "seen s x \<and> value_entry x \<and> (skipping \<longrightarrow> key (di_saved_key it) < u x)")
    case True
    let ?it = "it1\<lparr>di_valid := True, di_saved_key := []\<rparr>"
    have c: "Compare cmp (user_key k) (di_saved_key it) \<le> 0 \<longleftrightarrow> u x \<le> key (di_saved_key it)" if skipping
      using compare_keys_le [OF k(5)] less.prems(6) that by (simp add: skip_inv_def k(6))
    have "next_entry cmp s skipping (Some k) it1 = Inl ?it"
      using True k(2,7,8) c by (auto simp: next_entry_def same_place_def split: ValueType.split)
    then have "FindNextUserEntry ops cmp s skipping it = Some ?it" by (subst FindNextUserEntry.simps) (simp add: k(1))
    moreover have "x \<in> live key s S" using live_at [OF less.prems(6) x] True by blast
    moreover from this have "db_at at key uvalid s ?it S (Some x)"
      using less.prems(1,3,4,5) k(2,3) by (auto simp: db_at_def same_place_def)
    moreover have "first_in u ?L (Some x)" using \<open>x \<in> live key s S\<close> True by (auto intro: ikey_rank_order(2))
    ultimately show ?thesis by blast
  next
    case False
    define sk where "sk = (skipping \<or> (seen s x \<and> \<not> value_entry x))"
    define it2 where "it2 = (if seen s x \<and> \<not> value_entry x then it1\<lparr>di_saved_key := user_key k\<rparr> else it1)"
    have nv: "value_type k = kTypeDeletion \<longleftrightarrow> \<not> value_entry x" using k(8) by (cases "value_type k") auto
    have c: "Compare cmp (user_key k) (di_saved_key it) \<le> 0 \<longleftrightarrow> u x \<le> key (di_saved_key it)" if skipping
      using compare_keys_le [OF k(5)] less.prems(6) that by (simp add: skip_inv_def k(6))
    have ne: "next_entry cmp s skipping (Some k) it1 = Inr (sk, it2)"
      using False k(2,7) nv k(8) c by (auto simp: next_entry_def same_place_def sk_def it2_def split: ValueType.split)
    have place: "di_iter it2 = di_iter it" "good_seed (di_rnd it2)" "di_status it2 = OK" "di_direction it2 = kForward"
      using k(2,3) less.prems(3,4) by (auto simp: it2_def same_place_def)
    have saved: "di_saved_key it2 = (if seen s x \<and> \<not> value_entry x then user_key k else di_saved_key it)"
      using k(2) by (auto simp: it2_def same_place_def)
    obtain i c' where n: "op_Next ops (di_iter it) = Some i" "at i S c'" "first_in r {y \<in> S. r x < r y} c'"
      using Next [OF less.prems(5)] by blast
    have L: "?L = {y \<in> live key s S. r x < r y \<and> (sk \<longrightarrow> key (di_saved_key it2) < u y)}"
    proof (rule Collect_cong, rule conj_cong [OF refl])
      fix y
      assume y: "y \<in> live key s S"
      note sn = live_seen [OF y]
      have "y \<noteq> x" if "skipping \<longrightarrow> key (di_saved_key it) < u y" using sn False that by auto
      then have ne: "r x \<le> r y \<longleftrightarrow> r x < r y" if "skipping \<longrightarrow> key (di_saved_key it) < u y"
        using S x sn that by (auto simp: order_le_less inj_on_def)
      show "(r x \<le> r y \<and> (skipping \<longrightarrow> key (di_saved_key it) < u y)) = (r x < r y \<and> (sk \<longrightarrow> key (di_saved_key it2) < u y))"
      proof (cases "seen s x \<and> \<not> value_entry x")
        case False
        then show ?thesis using ne by (auto simp: sk_def saved)
      next
        case True
        then have s2: "sk" "key (di_saved_key it2) = u x" by (simp_all add: sk_def saved k(6))
        have le: "skipping \<Longrightarrow> key (di_saved_key it) \<le> u x"
          using less.prems(6) x True by (auto simp: skip_inv_def)
        have "u y \<noteq> u x" if "r x < r y" using live_newest [OF y x] True that by auto
        then have "r x < r y \<longleftrightarrow> u x < u y" using ikey_rank_order [of key x y] ikey_rank_order(1) [of key x y] by (auto simp: order_le_less)
        with ne le s2 show ?thesis by (auto dest: order_le_less_trans)
      qed
    qed
    show ?thesis
    proof (cases c')
      case None
      let ?it = "it2\<lparr>di_iter := i, di_saved_key := [], di_valid := False\<rparr>"
      have "\<not> op_Valid ops i" using Valid [OF n(2)] None by simp
      then have "FindNextUserEntry ops cmp s skipping it = Some ?it"
        by (subst FindNextUserEntry.simps) (simp add: k(1) ne place n(1))
      moreover have "db_at at key uvalid s ?it S None" using less.prems(1) place n(2) by (auto simp: db_at_def)
      moreover have "first_in u ?L None"
      proof -
        have "{y \<in> S. r x < r y} = {}" using n(3) None by (simp only: first_in_simps)
        then show ?thesis unfolding L by (auto dest: live_seen)
      qed
      ultimately show ?thesis by blast
    next
      case (Some z)
      then have z: "z \<in> S" "r x < r z" and zl: "\<And>y. y \<in> S \<Longrightarrow> r x < r y \<Longrightarrow> r z \<le> r y" using n(3) by auto
      have up: "r y < r z \<longleftrightarrow> r y \<le> r x" if "y \<in> S" for y using zl [OF that] z(2) by (auto simp: not_less [symmetric])
      let ?it = "it2\<lparr>di_iter := i\<rparr>"
      have "op_Valid ops i" using Valid [OF n(2)] Some by simp
      then have step: "FindNextUserEntry ops cmp s skipping it = FindNextUserEntry ops cmp s sk ?it"
        by (subst FindNextUserEntry.simps) (simp add: k(1) ne place n(1))
      have inv: "skip_inv S z sk (di_saved_key ?it)"
      proof -
        have xy: "y = x" if "y \<in> S" "r y = r x" for y using S x that by (auto dest: inj_onD)
        consider "seen s x \<and> \<not> value_entry x" | "\<not> (seen s x \<and> \<not> value_entry x)" skipping
          | "\<not> (seen s x \<and> \<not> value_entry x)" "\<not> skipping" by blast
        then show ?thesis
        proof cases
          case 1
          then show ?thesis using up k(5,6)
            by (auto simp: skip_inv_def sk_def saved not_le intro: ikey_rank_order(2) dest: less_imp_le)
        next
          case 2
          have "if r y < r z then u y \<le> key (di_saved_key it) else key (di_saved_key it) \<le> u y" if "y \<in> S" "seen s y" for y
          proof (cases "y = x")
            case True
            with False 2 that z(2) show ?thesis by auto
          next
            case ne: False
            then have "r y \<noteq> r x" using xy that(1) by blast
            then have "r y < r z \<longleftrightarrow> r y < r x" using up [OF that(1)] by auto
            with less.prems(6) 2 that show ?thesis by (auto simp: skip_inv_def)
          qed
          with less.prems(6) 2 show ?thesis by (auto simp: skip_inv_def sk_def saved)
        next
          case 3
          have "u y < u z" if "y \<in> S" "seen s y" "r y < r z" for y
          proof -
            have "y \<noteq> x" using 3 False that(2) by blast
            then have "r y \<noteq> r x" "r y \<le> r x" using xy [OF that(1)] up [OF that(1)] that(3) by auto
            then have "r y < r x" by simp
            then have "u y < u x" using less.prems(6) 3 that by (auto simp: skip_inv_def)
            also have "u x \<le> u z" using z(2) by (auto intro: ikey_rank_order(2))
            finally show ?thesis .
          qed
          with 3 show ?thesis by (auto simp: skip_inv_def sk_def)
        qed
      qed
      have "{y \<in> S. r z \<le> r y} \<subseteq> {y \<in> S. r x \<le> r y}" using order_trans [OF less_imp_le [OF z(2)]] by blast
      moreover have "x \<in> {y \<in> S. r x \<le> r y}" "x \<notin> {y \<in> S. r z \<le> r y}" using x z(2) by auto
      ultimately have "{y \<in> S. r z \<le> r y} \<subset> {y \<in> S. r x \<le> r y}" by blast
      then have "card {y \<in> S. r z \<le> r y} < card {y \<in> S. r x \<le> r y}" using S by (intro psubset_card_mono) auto
      from less.hyps [OF this less.prems(1), of ?it sk] n(2) Some inv place obtain it' e where
        it': "FindNextUserEntry ops cmp s sk ?it = Some it'" "db_at at key uvalid s it' S e"
        "first_in u {y \<in> live key s S. r z \<le> r y \<and> (sk \<longrightarrow> key (di_saved_key it2) < u y)} e" by auto
      have "{y \<in> live key s S. r z \<le> r y \<and> (sk \<longrightarrow> key (di_saved_key it2) < u y)} = ?L"
        unfolding L using up by (auto simp: not_less [symmetric] dest: live_seen)
      with step it' show ?thesis by auto
    qed
  qed
qed

text \<open>Going back: what the entries behind the position, those with \<open>P\<close>, have left.\<close>

definition back_inv :: "(slice \<times> slice) set \<Rightarrow> slice \<times> slice \<Rightarrow> (slice \<times> slice \<Rightarrow> bool) \<Rightarrow> ValueType \<Rightarrow> 'i dbiter \<Rightarrow> bool" where
  "back_inv S x0 P value_ty it \<longleftrightarrow>
     (case value_ty of
        kTypeDeletion \<Rightarrow> \<forall>e\<in>live key s S. \<not> (P e \<and> r e \<le> r x0)
      | kTypeValue \<Rightarrow> \<exists>l\<in>S. seen s l \<and> value_entry l \<and> P l \<and> r l \<le> r x0 \<and> (\<forall>y\<in>S. seen s y \<and> P y \<longrightarrow> r l \<le> r y)
          \<and> di_saved_key it = ExtractUserKey (fst l) \<and> di_saved_value it = snd l
          \<and> (\<forall>e\<in>live key s S. P e \<and> r e \<le> r x0 \<longrightarrow> u e \<le> u l))"

definition prev_result :: "(slice \<times> slice) set \<Rightarrow> slice \<times> slice \<Rightarrow> ValueType \<Rightarrow> 'i dbiter \<Rightarrow> bool" where
  "prev_result S x0 value_ty it \<longleftrightarrow> good_seed (di_rnd it) \<and> di_status it = OK \<and> di_direction it = kReverse \<and>
     (\<exists>c. at (di_iter it) S c \<and>
       (case value_ty of
          kTypeDeletion \<Rightarrow> \<forall>e\<in>live key s S. \<not> r e \<le> r x0
        | kTypeValue \<Rightarrow> \<exists>l\<in>live key s S. r l \<le> r x0 \<and> di_saved_key it = ExtractUserKey (fst l) \<and> di_saved_value it = snd l
            \<and> (\<forall>e\<in>live key s S. r e \<le> r x0 \<longrightarrow> u e \<le> u l)
            \<and> last_in r {y \<in> S. seen s y \<and> u y < u l} c))"

text \<open>The last version read is the newest of its key if all in front of the position have another key.\<close>

lemma back_live:
  assumes "l \<in> S" and "seen s l" and "value_entry l" and "\<forall>y\<in>S. seen s y \<and> P y \<longrightarrow> r l \<le> r y"
    and "\<forall>y\<in>S. seen s y \<and> \<not> P y \<longrightarrow> u y < u l"
  shows "l \<in> live key s S"
proof -
  have "r l \<le> r y" if "y \<in> S" "seen s y" "u y = u l" for y
    using assms(4,5) that by (cases "P y") auto
  with assms(1-3) show ?thesis by (auto simp: live_def)
qed

lemma back_step:
  assumes inv: "back_inv S x0 (\<lambda>e. r x < r e) ty it" and x: "x \<in> S" "r x \<le> r x0" and inj: "inj_on r S"
    and go: "\<And>l. ty = kTypeValue \<Longrightarrow> l \<in> S \<Longrightarrow> di_saved_key it = ExtractUserKey (fst l) \<Longrightarrow> seen s x \<Longrightarrow> \<not> u x < u l"
    and ty2: "ty2 = (if seen s x then if value_entry x then kTypeValue else kTypeDeletion else ty)"
    and saved: "seen s x \<Longrightarrow> value_entry x \<Longrightarrow> di_saved_key it2 = ExtractUserKey (fst x) \<and> di_saved_value it2 = snd x"
    and kept: "\<not> seen s x \<Longrightarrow> di_saved_key it2 = di_saved_key it \<and> di_saved_value it2 = di_saved_value it"
  shows "back_inv S x0 (\<lambda>e. r x \<le> r e) ty2 it2"
proof -
  have xy: "r x \<le> r y \<longleftrightarrow> y = x \<or> r x < r y" if "y \<in> S" for y
    using inj x(1) that by (auto simp: order_le_less inj_on_def)
  have front: "e = x \<or> r x < r e" if "e \<in> live key s S" "r x \<le> r e" for e
    using xy live_seen that by blast
  have before: "u e \<le> u x" if e: "e \<in> live key s S" "r x < r e" "r e \<le> r x0" "seen s x" for e
  proof (cases ty)
    case kTypeDeletion
    with inv e show ?thesis by (auto simp: back_inv_def)
  next
    case kTypeValue
    with inv obtain l where l: "l \<in> S" "di_saved_key it = ExtractUserKey (fst l)"
        "\<And>e. e \<in> live key s S \<Longrightarrow> r x < r e \<Longrightarrow> r e \<le> r x0 \<Longrightarrow> u e \<le> u l" by (auto simp: back_inv_def)
    from go [OF kTypeValue l(1,2) e(4)] l(3) [OF e(1-3)] show ?thesis by simp
  qed
  show ?thesis
  proof (cases "seen s x")
    case False
    have 1: "r x \<le> r e \<longleftrightarrow> r x < r e" if "e \<in> live key s S" for e
    proof -
      have "e \<noteq> x" using live_seen [OF that] False by blast
      with front [OF that] show ?thesis by (auto intro: less_imp_le)
    qed
    have 2: "r x \<le> r y \<longleftrightarrow> r x < r y" if "y \<in> S" "seen s y" for y using xy [OF that(1)] that(2) False by auto
    show ?thesis
    proof (cases ty)
      case kTypeDeletion
      with inv False 1 show ?thesis by (auto simp: back_inv_def ty2)
    next
      case kTypeValue
      with inv obtain l where "l \<in> S" "seen s l" "value_entry l" "r x < r l" "r l \<le> r x0" "\<forall>y\<in>S. seen s y \<and> r x < r y \<longrightarrow> r l \<le> r y"
          "di_saved_key it = ExtractUserKey (fst l)" "di_saved_value it = snd l"
          "\<forall>e\<in>live key s S. r x < r e \<and> r e \<le> r x0 \<longrightarrow> u e \<le> u l" by (auto simp: back_inv_def)
      with 1 2 kept [OF False] show ?thesis unfolding back_inv_def ty2 using False kTypeValue by (auto intro!: bexI [of _ l])
    qed
  next
    case seen: True
    show ?thesis
    proof (cases "value_entry x")
      case True
      have "u e \<le> u x" if "e \<in> live key s S" "r x \<le> r e" "r e \<le> r x0" for e
        using front [OF that(1,2)] before [OF that(1) _ that(3) seen] by auto
      with x seen True saved show ?thesis by (auto simp: back_inv_def ty2 intro!: bexI [of _ x])
    next
      case False
      have "\<not> (r x \<le> r e \<and> r e \<le> r x0)" if e: "e \<in> live key s S" for e
      proof
        assume b: "r x \<le> r e \<and> r e \<le> r x0"
        have "e \<noteq> x" using live_seen [OF e] False by blast
        with front [OF e] b have "r x < r e" by blast
        with before [OF e] b seen have "u e \<le> u x" by blast
        moreover have "u x \<le> u e" using b by (auto intro: ikey_rank_order(2))
        ultimately have "r e \<le> r x" using live_newest [OF e x(1) seen] by simp
        with \<open>r x < r e\<close> show False by simp
      qed
      with seen False show ?thesis by (auto simp: back_inv_def ty2)
    qed
  qed
qed

text \<open>A break, or the end of the entries.\<close>

lemma back_done:
  assumes inv: "back_inv S x0 P kTypeValue it" and at: "at (di_iter it) S c"
    and front: "\<And>l y. l \<in> S \<Longrightarrow> di_saved_key it = ExtractUserKey (fst l) \<Longrightarrow> y \<in> S \<Longrightarrow> \<not> P y \<Longrightarrow> u y < u l"
    and c: "\<And>l. l \<in> S \<Longrightarrow> (\<forall>y\<in>S. seen s y \<and> u y < u l \<longrightarrow> \<not> P y) \<Longrightarrow> di_saved_key it = ExtractUserKey (fst l) \<Longrightarrow>
      last_in r {y \<in> S. seen s y \<and> u y < u l} c"
    and it: "good_seed (di_rnd it)" "di_status it = OK" "di_direction it = kReverse"
  shows "prev_result S x0 kTypeValue it"
proof -
  from inv obtain l where l: "l \<in> S" "seen s l" "value_entry l" "P l" "r l \<le> r x0" "\<forall>y\<in>S. seen s y \<and> P y \<longrightarrow> r l \<le> r y"
      "di_saved_key it = ExtractUserKey (fst l)" "di_saved_value it = snd l" "\<forall>e\<in>live key s S. P e \<and> r e \<le> r x0 \<longrightarrow> u e \<le> u l"
    by (auto simp: back_inv_def)
  have "l \<in> live key s S" by (rule back_live [OF l(1-3,6)]) (use front [OF l(1,7)] in blast)
  moreover have "u e \<le> u l" if "e \<in> live key s S" "r e \<le> r x0" for e
    using l(9) that front [OF l(1,7), of e] live_seen [OF that(1)] by (cases "P e") (auto dest: less_imp_le)
  moreover have "\<forall>y\<in>S. seen s y \<and> u y < u l \<longrightarrow> \<not> P y"
    using l(6) ikey_rank_order(1) [of key _ l] by (auto simp: not_le [symmetric])
  from c [OF l(1) this l(7)] have "last_in r {y \<in> S. seen s y \<and> u y < u l} c" .
  ultimately show ?thesis unfolding prev_result_def using l(5,7,8) at it by (auto intro!: exI [of _ c] bexI [of _ l])
qed

lemma find_prev:
  assumes "proper_entries uvalid S" and "good_seed (di_rnd it)" and "di_status it = OK" and "di_direction it = kReverse"
    and "at (di_iter it) S (Some x)" and "r x \<le> r x0" and "back_inv S x0 (\<lambda>e. r x < r e) ty it"
  shows "\<exists>ty' it'. find_prev_loop ops cmp s ty it = Some (ty', it') \<and> prev_result S x0 ty' it'"
  using assms
proof (induction "card {y \<in> S. r y \<le> r x}" arbitrary: x ty it rule: less_induct)
  case less
  note split_paired_All [simp del]
  note S = entries [OF less.prems(5)]
  have x: "x \<in> S" and ops: "op_key ops (di_iter it) = fst x" "op_value ops (di_iter it) = snd x"
    using position [OF less.prems(5)] by simp_all
  obtain k it1 where k: "ParseKey ops it = Some (Some k, it1)" "same_place it it1" "good_seed (di_rnd it1)"
      "user_key k = ExtractUserKey (fst x)" "uvalid (user_key k)" "key (user_key k) = u x"
      "visible_key s (Some k) = (if seen s x then Some k else None)" "value_type k = kTypeValue \<longleftrightarrow> value_entry x"
    by (rule parse_at [OF less.prems(1,5,2)]) blast
  have place1: "di_iter it1 = di_iter it" "di_status it1 = OK" "di_direction it1 = kReverse"
      "di_saved_key it1 = di_saved_key it" "di_saved_value it1 = di_saved_value it"
    using k(2) less.prems(3,4) by (simp_all add: same_place_def)
  have nv: "value_type k = kTypeDeletion \<longleftrightarrow> \<not> value_entry x" using k(8) by (cases "value_type k") auto
  have cmp_saved: "Compare cmp (user_key k) (di_saved_key it1) < 0 \<longleftrightarrow> u x < u l" if "l \<in> S" "di_saved_key it = ExtractUserKey (fst l)" for l
  proof -
    have "uvalid (ExtractUserKey (fst l))" using less.prems(1) that(1) by (auto simp: proper_entries_def)
    from cmp_less [OF k(5) this] show ?thesis by (simp add: place1 that(2) k(6)) (simp add: user_rank_def)
  qed
  show ?case
  proof (cases "ty = kTypeValue \<and> seen s x \<and> (\<exists>l\<in>S. di_saved_key it = ExtractUserKey (fst l) \<and> u x < u l)")
    case True
    then have "prev_entry ops cmp s ty (Some k) it1 = None"
      using cmp_saved k(7) by (auto simp: prev_entry_def)
    then have "find_prev_loop ops cmp s ty it = Some (ty, it1)" by (subst find_prev_loop.simps) (simp add: k(1))
    moreover have "prev_result S x0 kTypeValue it1"
    proof (rule back_done [where P = "\<lambda>e. r x < r e" and c = "Some x"])
      show "back_inv S x0 (\<lambda>e. r x < r e) kTypeValue it1" using less.prems(7) True by (simp add: back_inv_def place1)
      show "at (di_iter it1) S (Some x)" using less.prems(5) by (simp add: place1)
      have u: "u x < u l" if "l \<in> S" "di_saved_key it1 = ExtractUserKey (fst l)" for l
        using True that place1(4) by (auto simp: user_rank_def)
      show "u y < u l" if "l \<in> S" "di_saved_key it1 = ExtractUserKey (fst l)" "y \<in> S" "\<not> r x < r y" for l y
        using u [OF that(1,2)] ikey_rank_order(2) [of key y x] that(4) by (auto simp: not_less)
      show "last_in r {y \<in> S. seen s y \<and> u y < u l} (Some x)"
        if "l \<in> S" "\<forall>y\<in>S. seen s y \<and> u y < u l \<longrightarrow> \<not> r x < r y" "di_saved_key it1 = ExtractUserKey (fst l)" for l
        using u [OF that(1,3)] that(2) x True by (auto simp: not_less)
    qed (use k(3) place1 in simp_all)
    ultimately show ?thesis using True by blast
  next
    case False
    define ty2 where "ty2 = (if seen s x then if value_entry x then kTypeValue else kTypeDeletion else ty)"
    define it2 where "it2 = (if seen s x then if value_entry x then
        it1\<lparr>di_saved_key := ExtractUserKey (fst x), di_saved_value := snd x\<rparr>
        else ClearSavedValue (it1\<lparr>di_saved_key := []\<rparr>) else it1)"
    have nobreak: "\<not> (ty \<noteq> kTypeDeletion \<and> Compare cmp (user_key k) (di_saved_key it1) < 0)" if "seen s x"
    proof (cases ty)
      case kTypeValue
      with less.prems(7) obtain l where l: "l \<in> S" "di_saved_key it = ExtractUserKey (fst l)" by (auto simp: back_inv_def)
      with cmp_saved [OF l] False kTypeValue that show ?thesis by auto
    qed simp
    have pe: "prev_entry ops cmp s ty (Some k) it1 = Some (ty2, it2)"
      using nobreak k(7,8) nv by (auto simp: prev_entry_def ty2_def it2_def ops place1)
    have place: "di_iter it2 = di_iter it" "good_seed (di_rnd it2)" "di_status it2 = OK" "di_direction it2 = kReverse"
      using k(3) place1 by (auto simp: it2_def ClearSavedValue_def)
    have inv: "back_inv S x0 (\<lambda>e. r x \<le> r e) ty2 it2"
      by (rule back_step [OF less.prems(7) x less.prems(6) _ _ ty2_def])
        (use S False place1 in \<open>auto simp: it2_def\<close>)
    obtain i c' where n: "op_Prev ops (di_iter it) = Some i" "at i S c'" "last_in r {y \<in> S. r y < r x} c'"
      using Prev [OF less.prems(5)] by blast
    show ?thesis
    proof (cases c')
      case None
      let ?it = "it2\<lparr>di_iter := i\<rparr>"
      have "\<not> op_Valid ops i" using Valid [OF n(2)] None by simp
      then have "find_prev_loop ops cmp s ty it = Some (ty2, ?it)"
        by (subst find_prev_loop.simps) (simp add: k(1) pe place n(1))
      moreover have all: "r x \<le> r y" if "y \<in> S" for y
      proof -
        have "{y \<in> S. r y < r x} = {}" using n(3) None by (simp only: first_in_simps)
        with that show ?thesis by (auto simp: not_less)
      qed
      have "prev_result S x0 ty2 ?it"
      proof (cases ty2)
        case kTypeDeletion
        with inv all place n(2) show ?thesis by (auto simp: prev_result_def back_inv_def dest: live_seen)
      next
        case kTypeValue
        show ?thesis unfolding kTypeValue
        proof (rule back_done [where P = "\<lambda>e. r x \<le> r e" and c = None])
          show "back_inv S x0 (\<lambda>e. r x \<le> r e) kTypeValue ?it" using inv kTypeValue by (simp add: back_inv_def)
          show "at (di_iter ?it) S None" using n(2) None by simp
        qed (use all place in auto)
      qed
      with calculation show ?thesis by blast
    next
      case (Some z)
      then have z: "z \<in> S" "r z < r x" and zl: "\<And>y. y \<in> S \<Longrightarrow> r y < r x \<Longrightarrow> r y \<le> r z" using n(3) by auto
      have up: "r z < r y \<longleftrightarrow> r x \<le> r y" if "y \<in> S" for y using zl [OF that] z(2) by (auto simp: not_less [symmetric])
      let ?it = "it2\<lparr>di_iter := i\<rparr>"
      have "op_Valid ops i" using Valid [OF n(2)] Some by simp
      then have step: "find_prev_loop ops cmp s ty it = find_prev_loop ops cmp s ty2 ?it"
        by (subst find_prev_loop.simps) (simp add: k(1) pe place n(1))
      have "back_inv S x0 (\<lambda>e. r z < r e) ty2 ?it"
        using inv up live_seen by (simp add: back_inv_def split: ValueType.splits)
      moreover have "{y \<in> S. r y \<le> r z} \<subset> {y \<in> S. r y \<le> r x}"
      proof -
        have "{y \<in> S. r y \<le> r z} \<subseteq> {y \<in> S. r y \<le> r x}" using order_trans [OF _ less_imp_le [OF z(2)]] by blast
        moreover have "x \<in> {y \<in> S. r y \<le> r x}" "x \<notin> {y \<in> S. r y \<le> r z}" using x z(2) by auto
        ultimately show ?thesis by blast
      qed
      then have "card {y \<in> S. r y \<le> r z} < card {y \<in> S. r y \<le> r x}" using S by (intro psubset_card_mono) auto
      moreover have "r z \<le> r x0" using z(2) less.prems(6) by simp
      ultimately show ?thesis
        unfolding step using less.hyps [of z ?it ty2] less.prems(1) n(2) Some place by simp
    qed
  qed
qed

lemma find_prev_entry:
  assumes "proper_entries uvalid S" and "good_seed (di_rnd it)" and "di_status it = OK" and "di_direction it = kReverse"
    and "at (di_iter it) S c"
  shows "\<exists>it' e. FindPrevUserEntry ops cmp s it = Some it' \<and> db_at at key uvalid s it' S e
    \<and> last_in u {y \<in> live key s S. \<exists>x. c = Some x \<and> r y \<le> r x} e"
proof (cases c)
  case None
  let ?it = "(ClearSavedValue (it\<lparr>di_valid := False, di_saved_key := []\<rparr>))\<lparr>di_direction := kForward\<rparr>"
  have "FindPrevUserEntry ops cmp s it = Some ?it" using Valid [OF assms(5)] None by (simp add: FindPrevUserEntry_def)
  moreover have "db_at at key uvalid s ?it S None" using assms by (auto simp: db_at_def ClearSavedValue_def)
  ultimately show ?thesis using None by (intro exI [of _ ?it] exI [of _ None]) simp
next
  case (Some x)
  note split_paired_All [simp del]
  have "op_Valid ops (di_iter it)" using Valid [OF assms(5)] Some by simp
  moreover have "at (di_iter it) S (Some x)" using assms(5) Some by simp
  moreover have "back_inv S x (\<lambda>e. r x < r e) kTypeDeletion it" by (auto simp: back_inv_def)
  ultimately obtain ty it' where l: "find_prev_loop ops cmp s kTypeDeletion it = Some (ty, it')" "prev_result S x ty it'"
    using find_prev [OF assms(1-4) _ order_refl] by blast
  show ?thesis
  proof (cases ty)
    case kTypeDeletion
    let ?it = "(ClearSavedValue (it'\<lparr>di_valid := False, di_saved_key := []\<rparr>))\<lparr>di_direction := kForward\<rparr>"
    have "FindPrevUserEntry ops cmp s it = Some ?it" using \<open>op_Valid ops (di_iter it)\<close> l(1) kTypeDeletion by (simp add: FindPrevUserEntry_def)
    moreover have "db_at at key uvalid s ?it S None" using assms(1) l(2) by (auto simp: db_at_def prev_result_def ClearSavedValue_def)
    moreover have "{y \<in> live key s S. \<exists>x. c = Some x \<and> r y \<le> r x} = {}" using l(2) kTypeDeletion Some by (auto simp: prev_result_def)
    ultimately show ?thesis by (intro exI [of _ ?it] exI [of _ None]) simp
  next
    case kTypeValue
    let ?it = "it'\<lparr>di_valid := True\<rparr>"
    from l(2) kTypeValue obtain c' e where e: "at (di_iter it') S c'" "e \<in> live key s S" "r e \<le> r x"
        "di_saved_key it' = ExtractUserKey (fst e)" "di_saved_value it' = snd e" "\<forall>y\<in>live key s S. r y \<le> r x \<longrightarrow> u y \<le> u e"
        "last_in r {y \<in> S. seen s y \<and> u y < u e} c'" and it': "good_seed (di_rnd it')" "di_status it' = OK" "di_direction it' = kReverse"
      by (auto simp: prev_result_def)
    have "FindPrevUserEntry ops cmp s it = Some ?it" using \<open>op_Valid ops (di_iter it)\<close> l(1) kTypeValue by (simp add: FindPrevUserEntry_def)
    moreover have "db_at at key uvalid s ?it S (Some e)"
      unfolding db_at_def using assms(1) e it' by (auto intro!: exI [of _ c'])
    moreover have "last_in u {y \<in> live key s S. \<exists>x. c = Some x \<and> r y \<le> r x} (Some e)" using e Some by auto
    ultimately show ?thesis by blast
  qed
qed

text \<open>The scan back from an entry to those of the keys in front of it.\<close>

lemma back_scan:
  assumes "proper_entries uvalid S" and "at (di_iter it) S (Some x)" and "e \<in> S" and "di_saved_key it = ExtractUserKey (fst e)"
    and "u e \<le> u x"
  shows "\<exists>go it'. back_loop ops cmp it = Some (go, it') \<and>
    (if go then \<exists>i z. it' = it\<lparr>di_iter := i\<rparr> \<and> at i S (Some z) \<and> last_in r {y \<in> S. u y < u e} (Some z)
     else \<exists>i. it' = ClearSavedValue (it\<lparr>di_iter := i, di_valid := False, di_saved_key := []\<rparr>) \<and> at i S None \<and> {y \<in> S. u y < u e} = {})"
  using assms
proof (induction "card {y \<in> S. r y < r x}" arbitrary: x it rule: less_induct)
  case less
  note split_paired_All [simp del]
  note S = entries [OF less.prems(2)]
  obtain i c' where n: "op_Prev ops (di_iter it) = Some i" "at i S c'" "last_in r {y \<in> S. r y < r x} c'"
    using Prev [OF less.prems(2)] by blast
  have front: "r y < r x" if "u y < u e" for y using ikey_rank_order(1) [of key y x] that less.prems(5) by simp
  show ?case
  proof (cases c')
    case None
    have "{y \<in> S. r y < r x} = {}" using n(3) None by (simp only: first_in_simps)
    then have "{y \<in> S. u y < u e} = {}" using front by blast
    moreover have "back_loop ops cmp it = Some (False, ClearSavedValue (it\<lparr>di_iter := i, di_valid := False, di_saved_key := []\<rparr>))"
      using Valid [OF n(2)] None by (subst back_loop.simps) (simp add: n(1))
    ultimately show ?thesis using n(2) None by (intro exI [of _ False]) auto
  next
    case (Some z)
    then have z: "z \<in> S" "r z < r x" and zl: "\<And>y. y \<in> S \<Longrightarrow> r y < r x \<Longrightarrow> r y \<le> r z" using n(3) by auto
    have at: "at i S (Some z)" using n(2) Some by simp
    have v: "op_Valid ops i" "op_key ops i = fst z" using Valid [OF at] position [OF at] by simp_all
    have uv: "uvalid (ExtractUserKey (fst z))" "uvalid (ExtractUserKey (fst e))"
      using less.prems(1,3) z(1) by (auto simp: proper_entries_def)
    have c: "Compare cmp (ExtractUserKey (op_key ops i)) (di_saved_key it) < 0 \<longleftrightarrow> u z < u e"
      using cmp_less [OF uv] by (simp add: v(2) less.prems(4) user_rank_def)
    show ?thesis
    proof (cases "u z < u e")
      case True
      then have "back_loop ops cmp it = Some (True, it\<lparr>di_iter := i\<rparr>)"
        using v(1) c by (subst back_loop.simps) (simp add: n(1))
      moreover have "last_in r {y \<in> S. u y < u e} (Some z)" using z(1) True zl front by auto
      with at have "\<exists>i' z'. it\<lparr>di_iter := i\<rparr> = it\<lparr>di_iter := i'\<rparr> \<and> at i' S (Some z') \<and> last_in r {y \<in> S. u y < u e} (Some z')"
        by blast
      ultimately show ?thesis by (intro exI [of _ True] exI [of _ "it\<lparr>di_iter := i\<rparr>"] conjI) (assumption, simp only: if_True)
    next
      case False
      then have step: "back_loop ops cmp it = back_loop ops cmp (it\<lparr>di_iter := i\<rparr>)"
        using v(1) c by (subst back_loop.simps) (simp add: n(1))
      have "{y \<in> S. r y < r z} \<subset> {y \<in> S. r y < r x}"
      proof -
        have "{y \<in> S. r y < r z} \<subseteq> {y \<in> S. r y < r x}" using less_trans [OF _ z(2)] by blast
        moreover have "z \<in> {y \<in> S. r y < r x}" "z \<notin> {y \<in> S. r y < r z}" using z by auto
        ultimately show ?thesis by blast
      qed
      then have "card {y \<in> S. r y < r z} < card {y \<in> S. r y < r x}" using S by (intro psubset_card_mono) auto
      note hyp = less.hyps [OF this less.prems(1), of "it\<lparr>di_iter := i\<rparr>"]
      have "at (di_iter (it\<lparr>di_iter := i\<rparr>)) S (Some z)" "di_saved_key (it\<lparr>di_iter := i\<rparr>) = ExtractUserKey (fst e)" "u e \<le> u z"
        using at less.prems(4) False by simp_all
      with hyp less.prems(3) have "\<exists>go it'. back_loop ops cmp (it\<lparr>di_iter := i\<rparr>) = Some (go, it') \<and>
        (if go then \<exists>j y. it' = it\<lparr>di_iter := i, di_iter := j\<rparr> \<and> at j S (Some y) \<and> last_in r {y \<in> S. u y < u e} (Some y)
         else \<exists>j. it' = ClearSavedValue (it\<lparr>di_iter := i, di_iter := j, di_valid := False, di_saved_key := []\<rparr>) \<and> at j S None \<and> {y \<in> S. u y < u e} = {})"
        by blast
      moreover have "it\<lparr>di_iter := i, di_iter := j\<rparr> = it\<lparr>di_iter := j\<rparr>" for j by simp
      ultimately show ?thesis unfolding step by (simp only:)
    qed
  qed
qed

subsection \<open>The operations\<close>

lemma di_SeekToFirst_view:
  assumes "db_at at key uvalid s it S e0"
  shows "\<exists>it' e. di_SeekToFirst ops cmp s it = Some it' \<and> db_at at key uvalid s it' S e \<and> first_in u (live key s S) e"
proof -
  from assms obtain c where p: "proper_entries uvalid S" "good_seed (di_rnd it)" "di_status it = OK" "at (di_iter it) S c"
    by (auto simp: db_at_def)
  obtain i c' where n: "op_SeekToFirst ops (di_iter it) = Some i" "at i S c'" "first_in r S c'" using SeekToFirst [OF p(4)] by blast
  let ?it = "it\<lparr>di_direction := kForward, di_saved_value := [], di_iter := i\<rparr>"
  show ?thesis
  proof (cases c')
    case None
    have "di_SeekToFirst ops cmp s it = Some (?it\<lparr>di_valid := False\<rparr>)"
      using Valid [OF n(2)] None by (simp add: di_SeekToFirst_def ClearSavedValue_def Let_def n(1))
    moreover have "db_at at key uvalid s (?it\<lparr>di_valid := False\<rparr>) S None" using p n(2) by (auto simp: db_at_def)
    moreover have "live key s S = {}" using n(3) None by (auto simp: live_def)
    ultimately show ?thesis by (intro exI [of _ "?it\<lparr>di_valid := False\<rparr>"] exI [of _ None]) simp
  next
    case (Some x)
    note split_paired_All [simp del]
    have "di_SeekToFirst ops cmp s it = FindNextUserEntry ops cmp s False ?it"
      using Valid [OF n(2)] Some by (simp add: di_SeekToFirst_def ClearSavedValue_def Let_def n(1))
    moreover have "skip_inv S x False (di_saved_key ?it)" using n(3) Some by (auto simp: skip_inv_def not_less [symmetric])
    with find_next [OF p(1), of ?it x False] p n(2) Some
    have "\<exists>it' e. FindNextUserEntry ops cmp s False ?it = Some it' \<and> db_at at key uvalid s it' S e
        \<and> first_in u {y \<in> live key s S. r x \<le> r y} e" by simp
    moreover have "{y \<in> live key s S. r x \<le> r y} = live key s S" using n(3) Some live_seen by auto
    ultimately show ?thesis by simp
  qed
qed

lemma di_SeekToLast_view:
  assumes "db_at at key uvalid s it S e0"
  shows "\<exists>it' e. di_SeekToLast ops cmp s it = Some it' \<and> db_at at key uvalid s it' S e \<and> last_in u (live key s S) e"
proof -
  note split_paired_All [simp del]
  from assms obtain c where p: "proper_entries uvalid S" "good_seed (di_rnd it)" "di_status it = OK" "at (di_iter it) S c"
    by (auto simp: db_at_def)
  obtain i c' where n: "op_SeekToLast ops (di_iter it) = Some i" "at i S c'" "last_in r S c'" using SeekToLast [OF p(4)] by blast
  let ?it = "it\<lparr>di_direction := kReverse, di_saved_value := [], di_iter := i\<rparr>"
  have "di_SeekToLast ops cmp s it = FindPrevUserEntry ops cmp s ?it"
    by (simp add: di_SeekToLast_def ClearSavedValue_def Let_def n(1))
  moreover have "{y \<in> live key s S. \<exists>x. c' = Some x \<and> r y \<le> r x} = live key s S"
    using n(3) live_seen by (cases c') auto
  ultimately show ?thesis using find_prev_entry [OF p(1), of ?it c'] p n(2) by simp
qed

lemma di_Seek_view:
  assumes "db_at at key uvalid s it S e0" and k: "uvalid k"
  shows "\<exists>it' e. di_Seek ops cmp s k it = Some it' \<and> db_at at key uvalid s it' S e \<and> first_in u {y \<in> live key s S. key k \<le> u y} e"
proof -
  note split_paired_All [simp del]
  from assms(1) obtain c where p: "proper_entries uvalid S" "good_seed (di_rnd it)" "di_status it = OK" "at (di_iter it) S c"
    by (auto simp: db_at_def)
  let ?k = "AppendInternalKey [] \<lparr>user_key = k, seq_number = s, value_type = kValueTypeForSeek\<rparr>"
  obtain i c' where n: "op_Seek ops ?k (di_iter it) = Some i" "at i S c'" "first_in r {x \<in> S. ikey_rank key ?k \<le> r x} c'"
    using Seek [OF p(4) lookup_valid [OF k]] by blast
  have lk: "ikey_rank key ?k \<le> r y \<longleftrightarrow> key k \<le> u y" if "seen s y" for y by (rule seek_rank_less [OF sequence that])
  let ?it = "it\<lparr>di_direction := kForward, di_saved_value := [], di_saved_key := ?k, di_iter := i\<rparr>"
  show ?thesis
  proof (cases c')
    case None
    have "di_Seek ops cmp s k it = Some (?it\<lparr>di_valid := False\<rparr>)"
      using Valid [OF n(2)] None by (simp add: di_Seek_def ClearSavedValue_def Let_def n(1))
    moreover have "db_at at key uvalid s (?it\<lparr>di_valid := False\<rparr>) S None" using p n(2) by (auto simp: db_at_def)
    moreover have "{y \<in> live key s S. key k \<le> u y} = {}"
    proof -
      have "{x \<in> S. ikey_rank key ?k \<le> r x} = {}" using n(3) None by (simp only: first_in_simps)
      then show ?thesis using lk live_seen by blast
    qed
    ultimately show ?thesis by (intro exI [of _ "?it\<lparr>di_valid := False\<rparr>"] exI [of _ None]) simp
  next
    case (Some x)
    then have x: "x \<in> S" "ikey_rank key ?k \<le> r x" "\<And>y. y \<in> S \<Longrightarrow> ikey_rank key ?k \<le> r y \<Longrightarrow> r x \<le> r y" using n(3) by auto
    have ux: "key k \<le> u x" by (rule seek_rank_user [OF x(2)])
    have "di_Seek ops cmp s k it = FindNextUserEntry ops cmp s False ?it"
      using Valid [OF n(2)] Some by (simp add: di_Seek_def ClearSavedValue_def Let_def n(1))
    moreover have "skip_inv S x False (di_saved_key ?it)"
    proof -
      have "u y < u x" if "y \<in> S" "seen s y" "r y < r x" for y
      proof -
        have "\<not> ikey_rank key ?k \<le> r y" using x(3) [OF that(1)] that(3) by auto
        with lk [OF that(2)] have "u y < key k" by simp
        with ux show ?thesis by simp
      qed
      then show ?thesis by (simp add: skip_inv_def)
    qed
    with find_next [OF p(1), of ?it x False] p n(2) Some
    have "\<exists>it' e. FindNextUserEntry ops cmp s False ?it = Some it' \<and> db_at at key uvalid s it' S e
        \<and> first_in u {y \<in> live key s S. r x \<le> r y} e" by simp
    moreover have "{y \<in> live key s S. r x \<le> r y} = {y \<in> live key s S. key k \<le> u y}"
      using x(2,3) lk live_seen order_trans by blast
    ultimately show ?thesis by simp
  qed
qed

lemma di_Next_view:
  assumes "db_at at key uvalid s it S (Some e)"
  shows "\<exists>it' e'. di_Next ops cmp s it = Some it' \<and> db_at at key uvalid s it' S e' \<and> first_in u {y \<in> live key s S. u e < u y} e'"
proof -
  note split_paired_All [simp del] split_paired_Ex [simp del]
  from assms obtain c where p: "proper_entries uvalid S" "good_seed (di_rnd it)" "di_status it = OK" "at (di_iter it) S c"
    and e: "e \<in> live key s S" and d: "case di_direction it of kForward \<Rightarrow> c = Some e
               | kReverse \<Rightarrow> di_saved_key it = ExtractUserKey (fst e) \<and> di_saved_value it = snd e
                   \<and> last_in r {x \<in> S. seen s x \<and> u x < u e} c"
    by (auto simp: db_at_def)
  note eS = live_seen [OF e]
  have ue: "uvalid (ExtractUserKey (fst e))" "key (ExtractUserKey (fst e)) = u e"
    using p(1) eS by (auto simp: proper_entries_def user_rank_def)
  show ?thesis
  proof (cases "di_direction it")
    case kForward
    let ?it = "it\<lparr>di_saved_key := ExtractUserKey (fst e)\<rparr>"
    have at: "at (di_iter it) S (Some e)" using p(4) d kForward by simp
    have "di_Next ops cmp s it = FindNextUserEntry ops cmp s True ?it"
      using position [OF at] kForward by (simp add: di_Next_def)
    moreover have "skip_inv S e True (di_saved_key ?it)"
      using ue by (auto simp: skip_inv_def not_less intro: ikey_rank_order(2) less_imp_le)
    with find_next [OF p(1), of ?it e True] p at kForward ue(2)
    have "\<exists>it' e'. FindNextUserEntry ops cmp s True ?it = Some it' \<and> db_at at key uvalid s it' S e'
        \<and> first_in u {y \<in> live key s S. r e \<le> r y \<and> u e < u y} e'" by simp
    moreover have "{y \<in> live key s S. r e \<le> r y \<and> u e < u y} = {y \<in> live key s S. u e < u y}"
      by (auto intro: less_imp_le ikey_rank_order(1))
    ultimately show ?thesis by simp
  next
    case kReverse
    with d have saved: "di_saved_key it = ExtractUserKey (fst e)" and c: "last_in r {x \<in> S. seen s x \<and> u x < u e} c" by simp_all
    have step: "\<exists>i c'. (if op_Valid ops (di_iter it) then op_Next ops (di_iter it) else op_SeekToFirst ops (di_iter it)) = Some i
        \<and> at i S c' \<and> first_in r {y \<in> S. \<forall>z. c = Some z \<longrightarrow> r z < r y} c'"
    proof (cases c)
      case None
      with Valid [OF p(4)] SeekToFirst [OF p(4)] show ?thesis by simp
    next
      case (Some z)
      with p(4) have "at (di_iter it) S (Some z)" by simp
      from Valid [OF this] Next [OF this] Some show ?thesis by simp
    qed
    then obtain i c' where n: "(if op_Valid ops (di_iter it) then op_Next ops (di_iter it) else op_SeekToFirst ops (di_iter it)) = Some i"
        "at i S c'" "first_in r {y \<in> S. \<forall>z. c = Some z \<longrightarrow> r z < r y} c'" by blast
    have behind: "\<forall>z. c = Some z \<longrightarrow> r z < r y" if "u e \<le> u y" for y
      using c that ikey_rank_order(1) [of key _ y] by (cases c) auto
    have "e \<in> {y \<in> S. \<forall>z. c = Some z \<longrightarrow> r z < r y}" using behind [of e] eS by simp
    then have "c' \<noteq> None" using n(3) by (cases c') auto
    then obtain x where x: "c' = Some x" by blast
    with n(3) have xS: "x \<in> S" and xl: "\<And>y. y \<in> S \<Longrightarrow> \<forall>z. c = Some z \<longrightarrow> r z < r y \<Longrightarrow> r x \<le> r y" and xz: "\<forall>z. c = Some z \<longrightarrow> r z < r x"
      by auto
    let ?it = "it\<lparr>di_direction := kForward, di_iter := i\<rparr>"
    have "di_Next ops cmp s it = FindNextUserEntry ops cmp s True ?it"
      using Valid [OF n(2)] x kReverse by (simp add: di_Next_def n(1) Let_def)
    moreover have "skip_inv S x True (di_saved_key ?it)"
    proof -
      have "if r y < r x then u y \<le> u e else u e \<le> u y" if y: "y \<in> S" "seen s y" for y
      proof (cases "u y < u e")
        case True
        with y c obtain z where "c = Some z" "r y \<le> r z" by (cases c) auto
        with xz True show ?thesis by auto
      next
        case False
        then have "r x \<le> r y" using xl [OF y(1)] behind [of y] by simp
        with False show ?thesis by (auto simp: not_less)
      qed
      with ue saved show ?thesis by (simp add: skip_inv_def)
    qed
    with find_next [OF p(1), of ?it x True] p n(2) x saved ue(2)
    have "\<exists>it' e'. FindNextUserEntry ops cmp s True ?it = Some it' \<and> db_at at key uvalid s it' S e'
        \<and> first_in u {y \<in> live key s S. r x \<le> r y \<and> u e < u y} e'" by simp
    moreover have "{y \<in> live key s S. r x \<le> r y \<and> u e < u y} = {y \<in> live key s S. u e < u y}"
      using xl behind live_seen less_imp_le by blast
    ultimately show ?thesis by simp
  qed
qed

lemma di_Prev_view:
  assumes "db_at at key uvalid s it S (Some e)"
  shows "\<exists>it' e'. di_Prev ops cmp s it = Some it' \<and> db_at at key uvalid s it' S e' \<and> last_in u {y \<in> live key s S. u y < u e} e'"
proof -
  note split_paired_All [simp del] split_paired_Ex [simp del]
  from assms obtain c where p: "proper_entries uvalid S" "good_seed (di_rnd it)" "di_status it = OK" "at (di_iter it) S c"
    and e: "e \<in> live key s S" and d: "case di_direction it of kForward \<Rightarrow> c = Some e
               | kReverse \<Rightarrow> di_saved_key it = ExtractUserKey (fst e) \<and> di_saved_value it = snd e
                   \<and> last_in r {x \<in> S. seen s x \<and> u x < u e} c"
    by (auto simp: db_at_def)
  note eS = live_seen [OF e]
  show ?thesis
  proof (cases "di_direction it")
    case kReverse
    with d have c: "last_in r {x \<in> S. seen s x \<and> u x < u e} c" by simp
    have "di_Prev ops cmp s it = FindPrevUserEntry ops cmp s it" using kReverse by (simp add: di_Prev_def)
    moreover have "{y \<in> live key s S. \<exists>x. c = Some x \<and> r y \<le> r x} = {y \<in> live key s S. u y < u e}"
    proof (cases c)
      case None
      then have "{x \<in> S. seen s x \<and> u x < u e} = {}" using c by (simp only: first_in_simps)
      with None show ?thesis using live_seen by blast
    next
      case (Some z)
      then have z: "u z < u e" "\<And>y. y \<in> S \<Longrightarrow> seen s y \<Longrightarrow> u y < u e \<Longrightarrow> r y \<le> r z" using c by auto
      have "u y < u e" if "r y \<le> r z" for y using ikey_rank_order(2) [OF that] z(1) by simp
      with z(2) Some show ?thesis using live_seen by auto
    qed
    ultimately show ?thesis using find_prev_entry [OF p(1-3) kReverse p(4)] by simp
  next
    case kForward
    let ?it = "it\<lparr>di_saved_key := ExtractUserKey (fst e)\<rparr>"
    have at: "at (di_iter it) S (Some e)" using p(4) d kForward by simp
    have "di_Prev ops cmp s it = Option.bind (back_loop ops cmp ?it) (\<lambda>(go_on, it).
          if go_on then FindPrevUserEntry ops cmp s (it\<lparr>di_direction := kReverse\<rparr>) else Some it)"
      using position [OF at] kForward by (simp add: di_Prev_def)
    moreover obtain go it1 where b: "back_loop ops cmp ?it = Some (go, it1)"
      and g: "if go then \<exists>i z. it1 = ?it\<lparr>di_iter := i\<rparr> \<and> at i S (Some z) \<and> last_in r {y \<in> S. u y < u e} (Some z)
       else \<exists>i. it1 = ClearSavedValue (?it\<lparr>di_iter := i, di_valid := False, di_saved_key := []\<rparr>) \<and> at i S None \<and> {y \<in> S. u y < u e} = {}"
      using back_scan [OF p(1), of ?it e e] at eS by auto
    ultimately have run: "di_Prev ops cmp s it = (if go then FindPrevUserEntry ops cmp s (it1\<lparr>di_direction := kReverse\<rparr>) else Some it1)"
      by simp
    show ?thesis
    proof (cases go)
      case True
      with g obtain i z where z: "it1 = ?it\<lparr>di_iter := i\<rparr>" "at i S (Some z)" "last_in r {y \<in> S. u y < u e} (Some z)" by auto
      have "{y \<in> live key s S. \<exists>x. Some z = Some x \<and> r y \<le> r x} = {y \<in> live key s S. u y < u e}"
      proof -
        have "u y < u e" if "r y \<le> r z" for y using ikey_rank_order(2) [OF that] z(3) by auto
        with z(3) show ?thesis using live_seen by auto
      qed
      with find_prev_entry [OF p(1), of "it1\<lparr>di_direction := kReverse\<rparr>" "Some z"] p(2,3) z(1,2) run True show ?thesis by simp
    next
      case False
      with g obtain i where i: "it1 = ClearSavedValue (?it\<lparr>di_iter := i, di_valid := False, di_saved_key := []\<rparr>)" "at i S None"
          "{y \<in> S. u y < u e} = {}" by auto
      have "db_at at key uvalid s it1 S None" using p i(1,2) by (auto simp: db_at_def ClearSavedValue_def)
      moreover have "{y \<in> live key s S. u y < u e} = {}" using i(3) live_seen by blast
      ultimately show ?thesis using run False by (intro exI [of _ it1] exI [of _ None]) simp
    qed
  qed
qed

lemma live_inj:
  assumes "inj_on r S"
  shows "inj_on u (live key s S)"
proof (rule inj_onI)
  fix a b
  assume ab: "a \<in> live key s S" "b \<in> live key s S" "u a = u b"
  note a = live_seen [OF ab(1)] and b = live_seen [OF ab(2)]
  have "r a \<le> r b" "r b \<le> r a" using live_newest [OF ab(1), of b] live_newest [OF ab(2), of a] a b ab(3) by simp_all
  with assms a b show "a = b" by (auto dest: inj_onD)
qed

lemma view_first: "first_in u {e \<in> live key s S. P (u e)} e' \<Longrightarrow> first_in (rank_of key) {x \<in> user_view key s S. P (rank_of key x)} (map_option user_entry e')"
  unfolding user_view_def by (rule first_image) (simp add: comp_def)

lemma view_last: "last_in u {e \<in> live key s S. P (u e)} e' \<Longrightarrow> last_in (rank_of key) {x \<in> user_view key s S. P (rank_of key x)} (map_option user_entry e')"
  unfolding user_view_def by (rule last_image) (simp add: comp_def)

text \<open>The iterator of the database keeps the promises, over what the snapshot sees.\<close>

lemma dbiter_contract: "iterator_contract (dbiter_class ops cmp s) key uvalid (view_at at key uvalid s)"
proof
  note ops = dbiter_class_def iterator_class.simps
  fix it U c
  assume a: "view_at at key uvalid s it U c"
  then obtain S e where U: "U = user_view key s S" "c = map_option user_entry e" and d: "db_at at key uvalid s it S e"
    by (auto simp: view_at_def)
  have view: "view_at at key uvalid s it' U (map_option user_entry e')" if "db_at at key uvalid s it' S e'" for it' e'
    using that U(1) by (auto simp: view_at_def)
  from d obtain c' where p: "proper_entries uvalid S" "di_status it = OK" "at (di_iter it) S c'" by (auto simp: db_at_def)
  note S = entries [OF p(3)]
  have "inj_on (rank_of key) U"
    unfolding U user_view_def using live_inj [of S] S by (intro inj_on_imageI) (simp add: comp_def)
  moreover have "finite U" using S by (simp add: U user_view_def live_def)
  moreover have "\<forall>e\<in>U. uvalid (fst e)"
    using p(1) live_seen by (fastforce simp: U user_view_def user_entry_def proper_entries_def)
  ultimately show "finite U \<and> inj_on (rank_of key) U \<and> (\<forall>e\<in>U. uvalid (fst e))" by blast
  show "op_Valid (dbiter_class ops cmp s) it \<longleftrightarrow> c \<noteq> None"
    using d by (cases e) (auto simp: ops db_at_def U)
  show "op_status (dbiter_class ops cmp s) it = OK"
    using status [OF p(3)] p(2) by (simp add: ops di_get_status_def)
  show "\<exists>i' c'. op_SeekToFirst (dbiter_class ops cmp s) it = Some i' \<and> view_at at key uvalid s i' U c' \<and> first_in (rank_of key) U c'"
    unfolding ops using di_SeekToFirst_view [OF d] view view_first [of S "\<lambda>_. True"] U(1) by fastforce
  show "\<exists>i' c'. op_SeekToLast (dbiter_class ops cmp s) it = Some i' \<and> view_at at key uvalid s i' U c' \<and> last_in (rank_of key) U c'"
    unfolding ops using di_SeekToLast_view [OF d] view view_last [of S "\<lambda>_. True"] U(1) by fastforce
  show "\<exists>i' c'. op_Seek (dbiter_class ops cmp s) k it = Some i' \<and> view_at at key uvalid s i' U c'
      \<and> first_in (rank_of key) {x \<in> U. key k \<le> rank_of key x} c'" if "uvalid k" for k
    unfolding ops using di_Seek_view [OF d that] view view_first [of S "\<lambda>r. key k \<le> r"] U(1) by fastforce
next
  note ops = dbiter_class_def iterator_class.simps
  fix it U e'
  assume a: "view_at at key uvalid s it U (Some e')"
  then obtain S eo where "U = user_view key s S" "Some e' = map_option user_entry eo" "db_at at key uvalid s it S eo"
    unfolding view_at_def by blast
  then obtain e where U: "U = user_view key s S" "e' = user_entry e" and d: "db_at at key uvalid s it S (Some e)"
    by (cases eo) auto
  have view: "view_at at key uvalid s it' U (map_option user_entry e')" if "db_at at key uvalid s it' S e'" for it' e'
    using that U(1) by (auto simp: view_at_def)
  from d obtain c' where e: "e \<in> live key s S" and p: "at (di_iter it) S c'" and c: "case di_direction it of kForward \<Rightarrow> c' = Some e
               | kReverse \<Rightarrow> di_saved_key it = ExtractUserKey (fst e) \<and> di_saved_value it = snd e
                   \<and> last_in r {x \<in> S. seen s x \<and> u x < u e} c'" by (auto simp: db_at_def)
  have "di_key ops it = fst e' \<and> di_value ops it = snd e'"
    using c p position [of "di_iter it" S e] by (cases "di_direction it") (auto simp: di_key_def di_value_def U user_entry_def)
  with e show "e' \<in> U \<and> op_key (dbiter_class ops cmp s) it = fst e' \<and> op_value (dbiter_class ops cmp s) it = snd e'"
    by (simp add: ops U user_view_def)
  have r': "rank_of key e' = u e" by (simp add: U)
  show "\<exists>i' c'. op_Next (dbiter_class ops cmp s) it = Some i' \<and> view_at at key uvalid s i' U c'
      \<and> first_in (rank_of key) {x \<in> U. rank_of key e' < rank_of key x} c'"
    unfolding ops r' using di_Next_view [OF d] view view_first [of S "\<lambda>r. u e < r"] U(1) by fastforce
  show "\<exists>i' c'. op_Prev (dbiter_class ops cmp s) it = Some i' \<and> view_at at key uvalid s i' U c'
      \<and> last_in (rank_of key) {x \<in> U. rank_of key x < rank_of key e'} c'"
    unfolding ops r' using di_Prev_view [OF d] view view_last [of S "\<lambda>r. r < u e"] U(1) by fastforce
qed

end

sublocale snapshot_iterator \<subseteq> snapshot: iterator_contract "dbiter_class ops cmp s" key uvalid "view_at at key uvalid s"
  by (rule dbiter_contract)

end
