(* ===== verification/Ldb_DbScan.thy ===== *)
theory Ldb_DbScan
  imports Ldb_DbIter Ldb_Db
begin

text \<open>
  \<open>DBImpl::NewIterator\<close> of \<open>leveldb-library/db/db_impl.cc\<close>: the iterators of the tables, merged, under the iterator
  of the database. What a client reads with it is what the operations written leave.
\<close>

section \<open>The code\<close>

text \<open>
  \<open>tables\<close> are the iterators \<open>Version::AddIterators\<close> adds for the tables in files, of the class \<open>tops\<close>, \<open>cmp\<close> is the
  comparator of the user. The tables in memory are referenced for as long as the iterator lives; the state is that of
  the database and of \<open>seed_\<close>.
\<close>

definition NewInternalIterator :: "'t iterator_class \<Rightarrow> 't list \<Rightarrow> 'f db \<times> u32 \<Rightarrow>
    (mem_iter + 't) merged \<times> u64 \<times> u32 \<times> 'f db \<times> u32" where
  "NewInternalIterator tops tables st =
     (case st of (db, seed) \<Rightarrow>
        let latest_snapshot = db_last_sequence db;
            lst = [Inl (mem_NewIterator (db_mem db))];
            lst = (case db_imm db of None \<Rightarrow> lst | Some imm \<Rightarrow> lst @ [Inl (mem_NewIterator imm)]);
            lst = lst @ map Inr tables;
            internal_iter = NewMergingIterator (either_class mem_iterator tops) lst;
            db = db\<lparr>db_mem := mem_Ref (db_mem db), db_imm := map_option mem_Ref (db_imm db)\<rparr>
        in (internal_iter, latest_snapshot, seed + 1, db, seed + 1))"

definition internal_class :: "'t iterator_class \<Rightarrow> comparator \<Rightarrow> (mem_iter + 't) merged iterator_class" where
  "internal_class tops cmp = merged_class (either_class mem_iterator tops) (InternalKeyComparator cmp)"

text \<open>The iterator and the sequence number it reads at, which is a part of it that does not change.\<close>

definition DB_NewIterator :: "'t iterator_class \<Rightarrow> 't list \<Rightarrow> u64 option \<Rightarrow> 'f db \<times> u32 \<Rightarrow>
    (mem_iter + 't) merged dbiter \<times> u64 \<times> 'f db \<times> u32" where
  "DB_NewIterator tops tables snapshot st =
     (case NewInternalIterator tops tables st of (iter, latest_snapshot, seed, st) \<Rightarrow>
        (DBIter iter seed, (case snapshot of Some s \<Rightarrow> s | None \<Rightarrow> latest_snapshot), st))"

definition client_class :: "'t iterator_class \<Rightarrow> comparator \<Rightarrow> u64 \<Rightarrow> (mem_iter + 't) merged dbiter iterator_class" where
  "client_class tops cmp = dbiter_class (internal_class tops cmp) cmp"

section \<open>The contracts\<close>

text \<open>The iterators of memtables beside those of other tables, of which there is none.\<close>

abbreviation any_table_at :: "mem_iter + 't \<Rightarrow> (slice \<times> slice) set \<Rightarrow> (slice \<times> slice) option \<Rightarrow> bool" where
  "any_table_at \<equiv> at_either mem_at (\<lambda>_ _ _. False)"

interpretation any_merge: merging "either_class mem_iterator tops" "ikey_rank (\<lambda>k. k)" ikey_valid any_table_at
    "InternalKeyComparator BytewiseComparator"
  for tops :: "'t iterator_class"
proof (intro merging.intro either_contract mem_iter.iterator_contract_axioms mem_merge.ordered_keys_axioms)
  show "iterator_contract tops (ikey_rank (\<lambda>k. k)) ikey_valid (\<lambda>_ _ _. False)" by unfold_locales simp_all
qed

abbreviation internal_at :: "(mem_iter + 't) merged \<Rightarrow> (slice \<times> slice) set \<Rightarrow> (slice \<times> slice) option \<Rightarrow> bool" where
  "internal_at \<equiv> merged_at any_table_at (ikey_rank (\<lambda>k. k))"

definition user_key_ok :: "slice \<Rightarrow> bool" where
  "user_key_ok u \<longleftrightarrow> length u + 8 < 2 ^ 32"

lemma memtable_snapshot:
  assumes "s \<le> kMaxSequenceNumber"
  shows "snapshot_iterator (internal_class tops BytewiseComparator) (\<lambda>k. k) ikey_valid internal_at BytewiseComparator user_key_ok s"
  unfolding internal_class_def
proof (intro snapshot_iterator.intro snapshot_iterator_axioms.intro any_merge.merged_contract)
  show "ordered_keys (Compare BytewiseComparator) user_key_ok (\<lambda>k. k)"
    by unfold_locales (simp_all add: bytewise.compare_less bytewise.compare_eq)
qed (use assms in \<open>simp_all add: user_key_ok_def ikey_valid_def\<close>)

text \<open>A read without a snapshot at the end of time.\<close>

interpretation newest: snapshot_iterator "internal_class tops BytewiseComparator" "\<lambda>k. k" ikey_valid internal_at
    BytewiseComparator user_key_ok kMaxSequenceNumber
  for tops :: "'t iterator_class"
  by (rule memtable_snapshot) simp

text \<open>A new iterator of the database.\<close>

lemma good_seed_Random: "good_seed (Random s)"
proof -
  have "s AND 0x7fffffff \<le> 0x7fffffff" by (rule word_and_le1)
  then have "unat (s AND 0x7fffffff) \<le> 2147483647" by (simp add: word_le_nat_alt)
  moreover have "unat (s AND 0x7fffffff) = 2147483647 \<longleftrightarrow> s AND 0x7fffffff = 2147483647"
    by (simp add: word_unat_eq_iff)
  ultimately show ?thesis by (auto simp: good_seed_def Random_def Let_def unat_gt_0)
qed

lemma DBIter_fields [simp]:
  "di_iter (DBIter i seed) = i" "di_status (DBIter i seed) = OK" "di_valid (DBIter i seed) = False" "good_seed (di_rnd (DBIter i seed))"
  using period_facts(1) [OF good_seed_Random [of seed]] by (simp_all add: DBIter_def split: prod.split)

text \<open>The entries of a table, each parsed and with a key to seek.\<close>

lemma entry_parses: "entry_ok e \<Longrightarrow> ParseInternalKey (entry_key e) = Some (ParsedInternalKey.truncate e)"
  by (simp add: ParseInternalKey_iff entry_key_def entry_ok_def ParsedInternalKey.truncate_def)

lemma proper_pairs: "list_all entry_ok es \<Longrightarrow> proper_entries user_key_ok (entry_pair ` set es)"
  by (auto simp: proper_entries_def entry_pair_def entry_parses list_all_iff user_key_ok_def entry_ok_def)

lemma entry_pair_rank: "mem_order (entry_pair e) = IKey (user_key e) (PackSequenceAndType (seq_number e) (value_type e))"
  by (simp add: rank_of_def ikey_rank_def entry_pair_def)

lemma DB_NewIterator_at:
  assumes "mem_holds (db_mem db) es" and "case db_imm db of None \<Rightarrow> es' = [] | Some imm \<Rightarrow> mem_holds imm es'"
    and "entry_pair ` set es \<inter> entry_pair ` set es' = {}" and "inj_on mem_order (entry_pair ` (set es \<union> set es'))"
  shows "db_at internal_at (\<lambda>k. k) user_key_ok s (fst (DB_NewIterator tops [] (Some s) (db, seed))) (entry_pair ` (set es \<union> set es')) None"
proof -
  let ?S = "entry_pair ` (set es \<union> set es')"
  have m: "any_table_at (Inl (mem_NewIterator mt)) (entry_pair ` set xs) None" if "mem_holds mt xs" for mt and xs
    using mem_NewIterator_at [OF that] by simp
  have "list_all entry_ok (es @ es')" using assms(1,2) by (auto simp: mem_holds_def split: option.splits)
  then have "proper_entries user_key_ok ?S" using proper_pairs [of "es @ es'"] by simp
  moreover have "internal_at (di_iter (fst (DB_NewIterator tops [] (Some s) (db, seed)))) ?S None"
  proof (cases "db_imm db")
    case None
    then have "parted (ikey_rank (\<lambda>k. k)) ?S [entry_pair ` set es]" using assms(2,4) by (simp add: parted_def)
    from any_merge.NewMergingIterator_at [OF this, of "[Inl (mem_NewIterator (db_mem db))]" tops] None m [OF assms(1)]
    show ?thesis by (simp add: DB_NewIterator_def NewInternalIterator_def Let_def)
  next
    case (Some imm)
    then have "parted (ikey_rank (\<lambda>k. k)) ?S [entry_pair ` set es, entry_pair ` set es']"
      using assms(3,4) by (auto simp: parted_def image_Un less_Suc_eq)
    from any_merge.NewMergingIterator_at [OF this, of "[Inl (mem_NewIterator (db_mem db)), Inl (mem_NewIterator imm)]" tops]
      Some m [OF assms(1)] m [of imm es'] assms(2)
    show ?thesis by (simp add: DB_NewIterator_def NewInternalIterator_def Let_def)
  qed
  ultimately show ?thesis
    by (auto simp: db_at_def) (simp_all add: DB_NewIterator_def NewInternalIterator_def Let_def)
qed

section \<open>What the operations leave\<close>

definition op_pair :: "batch_op list \<Rightarrow> slice \<Rightarrow> (slice \<times> slice) option" where
  "op_pair ops u = (case last_op u ops of Some (Batch_Put k v) \<Rightarrow> Some (k, v) | _ \<Rightarrow> None)"

text \<open>The pairs of a key and the value last put, in the order of the keys.\<close>

definition op_pairs :: "batch_op list \<Rightarrow> (slice \<times> slice) list" where
  "op_pairs ops = List.map_filter (op_pair ops) (sort (remdups (map Ldb_Batch.op_key ops)))"

lemma last_op_iff:
  "last_op u ops = Some p \<longleftrightarrow> (\<exists>i<length ops. p = ops ! i \<and> Ldb_Batch.op_key p = u \<and> (\<forall>j<length ops. i < j \<longrightarrow> Ldb_Batch.op_key (ops ! j) \<noteq> u))"
proof
  assume "\<exists>i<length ops. p = ops ! i \<and> Ldb_Batch.op_key p = u \<and> (\<forall>j<length ops. i < j \<longrightarrow> Ldb_Batch.op_key (ops ! j) \<noteq> u)"
  then obtain i where i: "i < length ops" "p = ops ! i" "op_key p = u" "\<forall>j<length ops. i < j \<longrightarrow> Ldb_Batch.op_key (ops ! j) \<noteq> u" by blast
  then have "last_op u ops \<noteq> None" by (auto simp: last_op_None)
  then obtain q where q: "last_op u ops = Some q" by blast
  from last_op_SomeD [OF this] obtain j where
    j: "j < length ops" "q = ops ! j" "op_key q = u" "\<forall>i<length ops. j < i \<longrightarrow> Ldb_Batch.op_key (ops ! i) \<noteq> u" by blast
  from i j have "i = j" by (cases i j rule: linorder_cases) auto
  with q i(2) j(2) show "last_op u ops = Some p" by simp
qed (rule last_op_SomeD)

lemma last_op_key: "last_op u ops = Some p \<Longrightarrow> Ldb_Batch.op_key p = u \<and> p \<in> set ops"
  unfolding last_op_iff by auto

lemma map_filter_set: "set (List.map_filter f xs) = {y. \<exists>x\<in>set xs. f x = Some y}"
  by (induction xs) (auto simp: map_filter_simps split: option.splits)

lemma op_pair_iff: "op_pair ops x = Some (u, v) \<longleftrightarrow> x = u \<and> last_op u ops = Some (Batch_Put u v)"
  using last_op_key [of x ops] by (auto simp: op_pair_def split: option.splits batch_op.splits)

lemma op_pairs_set: "(u, v) \<in> set (op_pairs ops) \<longleftrightarrow> last_op u ops = Some (Batch_Put u v)"
  using last_op_key [of u ops "Batch_Put u v"] unfolding op_pairs_def map_filter_set
  by (auto simp: op_pair_iff intro!: bexI [of _ u]) force

lemma op_pairs_sorted: "sorted_wrt (\<lambda>a b. fst a < fst b) (op_pairs ops)"
proof -
  have f: "fst x = u" if "op_pair ops u = Some x" for u x
    using that op_pair_iff [of ops u "fst x" "snd x"] by simp
  have "sorted_wrt (\<lambda>a b. fst a < fst b) (List.map_filter (op_pair ops) us)" if "sorted_wrt (<) us" for us
    using that
  proof (induction us)
    case (Cons u us)
    have "fst y \<in> set us" if "y \<in> set (List.map_filter (op_pair ops) us)" for y using that f unfolding map_filter_set by blast
    moreover have "sorted_wrt (\<lambda>a b. fst a < fst b) (List.map_filter (op_pair ops) us)" "\<forall>y\<in>set us. u < y" using Cons by simp_all
    ultimately show ?case using f [of u] by (cases "op_pair ops u") (auto simp: map_filter_simps)
  qed (simp add: map_filter_simps)
  moreover have "sorted_wrt (<) (sort (remdups (map Ldb_Batch.op_key ops)))" by (simp add: strict_sorted_iff)
  ultimately show ?thesis by (simp add: op_pairs_def)
qed

text \<open>What a snapshot sees of the entries that operations make.\<close>

lemma user_view_ops:
  assumes "seq_room seq (length ops)" and "s \<le> kMaxSequenceNumber" and "list_all entry_ok (op_entries seq ops)"
  shows "user_view (\<lambda>k. k) s (entry_pair ` set (op_entries seq ops)) = set (op_pairs (visible seq s ops))"
proof (rule set_eqI)
  fix x :: "slice \<times> slice"
  let ?n = "Suc (unat s) - unat seq" and ?e = "op_entries seq ops"
  define p where "p i = entry_pair (?e ! i)" for i
  have S: "entry_pair ` set ?e = p ` {..<length ops}"
    by (auto simp: p_def in_set_conv_nth) (metis image_eqI in_set_conv_nth length_op_entries lessThan_iff)
  have ok: "entry_ok (?e ! i)" if "i < length ops" for i using assms(3) that by (simp add: list_all_length)
  have parse: "ParseInternalKey (fst (p i)) = Some (ParsedInternalKey.truncate (?e ! i))" if "i < length ops" for i
    using entry_parses [OF ok [OF that]] by (simp add: p_def entry_pair_def)
  have e: "?e ! i = op_entry (seq + word_of_nat i) (ops ! i)" if "i < length ops" for i by (rule nth_op_entries [OF that])
  have u: "user_rank (\<lambda>k. k) (p i) = Ldb_Batch.op_key (ops ! i)" if "i < length ops" for i
    by (simp add: user_rank_def p_def entry_pair_def e [OF that])
  have seen: "seen s (p i) \<longleftrightarrow> i < ?n" if "i < length ops" for i
    using op_entries_seq [OF assms(1) that]
    by (auto simp: seen_def visible_key_def parse [OF that] ParsedInternalKey.truncate_def word_le_nat_alt)
  have val: "value_entry (p i) \<longleftrightarrow> (\<exists>v. ops ! i = Batch_Put (Ldb_Batch.op_key (ops ! i)) v)" if "i < length ops" for i
    by (cases "ops ! i") (simp_all add: value_entry_def parse [OF that] ParsedInternalKey.truncate_def e [OF that])
  have r: "mem_order (p i) \<le> mem_order (p j) \<longleftrightarrow> j \<le> i"
    if "i < length ops" "j < length ops" "Ldb_Batch.op_key (ops ! i) = Ldb_Batch.op_key (ops ! j)" for i j
  proof -
    have q: "seq_number (?e ! i) < seq_number (?e ! j) \<longleftrightarrow> i < j" "seq_number (?e ! i) = seq_number (?e ! j) \<longleftrightarrow> i = j"
      using op_entries_seq [OF assms(1) that(1)] op_entries_seq [OF assms(1) that(2)]
      by (simp_all add: word_less_nat_alt word_unat_eq_iff)
    have "seq_number (?e ! i) \<le> kMaxSequenceNumber" "seq_number (?e ! j) \<le> kMaxSequenceNumber"
      using ok that by (simp_all add: entry_ok_def)
    then have "mem_order (p j) < mem_order (p i) \<longleftrightarrow> i < j"
      using that(3) q unfolding p_def entry_pair_rank IKey_less by (auto simp: pack_order e that(1,2))
    then show ?thesis by (simp only: not_less [symmetric])
  qed
  have live: "p i \<in> live (\<lambda>k. k) s (p ` {..<length ops}) \<longleftrightarrow> i < ?n \<and> (\<exists>v. ops ! i = Batch_Put (Ldb_Batch.op_key (ops ! i)) v)
      \<and> (\<forall>j<length ops. j < ?n \<and> Ldb_Batch.op_key (ops ! j) = Ldb_Batch.op_key (ops ! i) \<longrightarrow> j \<le> i)" if "i < length ops" for i
    unfolding live_def using that by (auto simp: seen val u r)
  have pair: "user_entry (p i) = (k, v)" if "i < length ops" "ops ! i = Batch_Put k v" for i k v
    using that by (simp add: user_entry_def p_def entry_pair_def e)
  obtain k v where x: "x = (k, v)" by (cases x)
  have vis: "visible seq s ops ! i = ops ! i" "i < length (visible seq s ops) \<longleftrightarrow> i < length ops \<and> i < ?n" if "i < ?n" for i
    using that by (simp_all add: visible_def)
  show "x \<in> user_view (\<lambda>k. k) s (entry_pair ` set ?e) \<longleftrightarrow> x \<in> set (op_pairs (visible seq s ops))"
  proof
    assume "x \<in> user_view (\<lambda>k. k) s (entry_pair ` set ?e)"
    then obtain i where i: "i < length ops" "x = user_entry (p i)" "p i \<in> live (\<lambda>k. k) s (p ` {..<length ops})"
      by (auto simp: user_view_def S live_def)
    with live [OF i(1)] obtain w where w: "i < ?n" "ops ! i = Batch_Put (Ldb_Batch.op_key (ops ! i)) w"
      "\<forall>j<length ops. j < ?n \<and> Ldb_Batch.op_key (ops ! j) = Ldb_Batch.op_key (ops ! i) \<longrightarrow> j \<le> i" by blast
    have kv: "Ldb_Batch.op_key (ops ! i) = k" "w = v" using pair [OF i(1) w(2)] x i(2) by simp_all
    have "last_op k (visible seq s ops) = Some (Batch_Put k v)"
      unfolding last_op_iff using w i(1) kv by (intro exI [of _ i]) (auto simp: visible_def)
    then show "x \<in> set (op_pairs (visible seq s ops))" by (simp add: x op_pairs_set)
  next
    assume "x \<in> set (op_pairs (visible seq s ops))"
    then have "last_op k (visible seq s ops) = Some (Batch_Put k v)" by (simp add: x op_pairs_set)
    then obtain i where i: "i < length ops" "i < ?n" "ops ! i = Batch_Put k v"
        "\<forall>j<length ops. j < ?n \<and> i < j \<longrightarrow> Ldb_Batch.op_key (ops ! j) \<noteq> k"
      unfolding last_op_iff by (auto simp: visible_def)
    have "p i \<in> live (\<lambda>k. k) s (p ` {..<length ops})"
      unfolding live [OF i(1)] using i by (auto simp: not_le [symmetric])
    with pair [OF i(1,3)] show "x \<in> user_view (\<lambda>k. k) s (entry_pair ` set ?e)"
      by (auto simp: user_view_def S x intro!: image_eqI [of _ _ "p i"])
  qed
qed

lemma op_entries_inj:
  assumes "seq_room seq (length ops)" and "list_all entry_ok (op_entries seq ops)"
  shows "inj_on (mem_order \<circ> entry_pair) (set (op_entries seq ops))"
proof (rule inj_onI)
  fix a b
  assume ab: "a \<in> set (op_entries seq ops)" "b \<in> set (op_entries seq ops)" "(mem_order \<circ> entry_pair) a = (mem_order \<circ> entry_pair) b"
  then have "seq_number a \<le> kMaxSequenceNumber" "seq_number b \<le> kMaxSequenceNumber"
    using assms(2) by (simp_all add: list_all_iff entry_ok_def)
  from pack_order [OF this] pack_order [OF this(2,1)] ab(3) have "seq_number a = seq_number b"
    by (simp add: entry_pair_rank) (metis less_irrefl less_linear)
  moreover obtain i j where "i < length ops" "j < length ops" "a = op_entries seq ops ! i" "b = op_entries seq ops ! j"
    using ab by (auto simp: in_set_conv_nth)
  ultimately show "a = b" using op_entries_seq [OF assms(1)] by (metis add_left_cancel)
qed

text \<open>A scan of a database whose tables in memory hold, the one or the other, all operations from \<open>seq\<close> on.\<close>

lemma scan_ops:
  assumes m: "mem_holds (db_mem db) es" and i: "case db_imm db of None \<Rightarrow> es' = [] | Some imm \<Rightarrow> mem_holds imm es'"
    and es: "set es \<union> set es' = set (op_entries seq ops)" and d: "set es \<inter> set es' = {}"
    and room: "seq_room seq (length ops)" and s: "s \<le> kMaxSequenceNumber" and calls: "calls_valid user_key_ok calls"
  shows "iter_run (client_class tops BytewiseComparator s) calls (fst (DB_NewIterator tops [] (Some s) (db, seed)))
    = Some (list_run (\<lambda>k. k) (op_pairs (visible seq s ops)) calls None)"
proof -
  let ?E = "set (op_entries seq ops)"
  have "\<forall>e\<in>set es \<union> set es'. entry_ok e" using m i by (auto simp: mem_holds_def list_all_iff split: option.splits)
  then have ok: "list_all entry_ok (op_entries seq ops)" unfolding es by (simp add: list_all_iff)
  note inj = op_entries_inj [OF room ok]
  then have "inj_on entry_pair ?E" by (rule inj_on_imageI2)
  then have "entry_pair ` set es \<inter> entry_pair ` set es' = entry_pair ` (set es \<inter> set es')"
    using es by (intro inj_on_image_Int [symmetric]) auto
  with d have dis: "entry_pair ` set es \<inter> entry_pair ` set es' = {}" by simp
  have io: "inj_on mem_order (entry_pair ` (set es \<union> set es'))" unfolding es by (rule inj_on_imageI [OF inj])
  note at = DB_NewIterator_at [OF m i dis io, of s tops seed, unfolded es]
  have "view_at internal_at (\<lambda>k. k) user_key_ok s (fst (DB_NewIterator tops [] (Some s) (db, seed)))
      (set (op_pairs (visible seq s ops))) (map_option ((!) (op_pairs (visible seq s ops))) None)"
    unfolding view_at_def using at user_view_ops [OF room s ok] by (intro exI [of _ "entry_pair ` ?E"] exI [of _ None]) simp
  from iterator_contract.run_refines [OF snapshot_iterator.dbiter_contract [OF memtable_snapshot [OF s]] this refl _ _ calls]
  show ?thesis using op_pairs_sorted by (simp add: client_class_def rank_of_def)
qed

section \<open>Properties\<close>

text \<open>
  C4: A new database, under any behaviour of the operating system: writers queue up with batches of operations
  until a write is not acknowledged, and the full table may then be switched for an empty one. An iterator at a
  snapshot, over all tables, is then an iterator over one sorted list: for any sequence of seeks, steps forward
  and steps backward, with every change of the direction, it is valid after each call where the list is, and at
  the same key and value. The list has the keys whose last operation is a put, with the value put, among as many
  of the acknowledged operations, in the order of the queue, as the snapshot has sequence numbers.
\<close>

theorem snapshot_scan:
  assumes "list_all op_ok (queue_ops q)" and "length (queue_ops q) < 2 ^ 31"
    and "s \<le> kMaxSequenceNumber" and "calls_valid user_key_ok calls"
  shows "\<exists>n db. DB_run posix_ops (posix_Sync dir fd) (map writer_of q) (new_db (empty_file name sys)) = Some (n, db)
    \<and> n \<le> length q
    \<and> (\<forall>db'. db' = db \<or> (\<exists>level0 full new_log force allow f a. MakeRoom_round level0 full new_log force allow db = (Room_Switched, f, a, db'))
        \<longrightarrow> iter_run (client_class tops BytewiseComparator s) calls (fst (DB_NewIterator tops [] (Some s) (db', seed)))
              = Some (list_run (\<lambda>k. k) (op_pairs (visible 1 s (queue_ops (take n q)))) calls None))"
proof -
  obtain n db where r: "DB_run posix_ops (posix_Sync dir fd) (map writer_of q) (new_db (empty_file name sys)) = Some (n, db)" "n \<le> length q"
    and i: "db_imm db = None" and m: "\<exists>es. mem_holds (db_mem db) es \<and> set es = set (op_entries 1 (queue_ops (take n q)))"
    by (rule run_new_db [OF assms(1,2), of dir fd name sys]) (blast intro: order.trans)
  from m obtain es where es: "mem_holds (db_mem db) es" "set es = set (op_entries 1 (queue_ops (take n q)))" by blast
  have "length (queue_ops q) = length (queue_ops (take n q)) + length (queue_ops (drop n q))"
    by (simp only: length_append [symmetric] queue_ops_simps(3) [symmetric] append_take_drop_id)
  then have room: "seq_room 1 (length (queue_ops (take n q)))" using assms(2) by (simp add: seq_room_def)
  have scan: "iter_run (client_class tops BytewiseComparator s) calls (fst (DB_NewIterator tops [] (Some s) (db', seed)))
      = Some (list_run (\<lambda>k. k) (op_pairs (visible 1 s (queue_ops (take n q)))) calls None)"
    if "mem_holds (db_mem db') ms" "case db_imm db' of None \<Rightarrow> is = [] | Some imm \<Rightarrow> mem_holds imm is" "set ms \<union> set is = set es" "set ms \<inter> set is = {}"
    for db' ms "is"
    using scan_ops [OF that(1,2) _ that(4) room assms(3,4)] that(3) es(2) by simp
  have "iter_run (client_class tops BytewiseComparator s) calls (fst (DB_NewIterator tops [] (Some s) (db', seed)))
      = Some (list_run (\<lambda>k. k) (op_pairs (visible 1 s (queue_ops (take n q)))) calls None)"
    if sw: "MakeRoom_round level0 full new_log force allow db = (Room_Switched, f, a, db')" for level0 full new_log force allow f a db'
  proof -
    have "db_imm db' = Some (db_mem db)" "db_mem db' = mem_Ref (MemTable (mt_comparator (db_mem db)))"
      using sw by (auto simp: MakeRoom_round_def split: if_splits prod.splits)
    moreover have "mt_comparator (db_mem db) = BytewiseComparator" using es(1) by (simp add: mem_holds_def)
    ultimately have "mem_holds (db_mem db') []" "db_imm db' = Some (db_mem db)" using new_mem_holds by (simp_all add: MemTable_Ref_holds)
    from scan [OF this(1), of es] this(2) es(1) show ?thesis by simp
  qed
  moreover have "iter_run (client_class tops BytewiseComparator s) calls (fst (DB_NewIterator tops [] (Some s) (db, seed)))
      = Some (list_run (\<lambda>k. k) (op_pairs (visible 1 s (queue_ops (take n q)))) calls None)"
    using scan [OF es(1), of "[]"] i by simp
  ultimately show ?thesis using r by blast
qed

lemma snapshot_scan_witness:
  "\<exists>n db. DB_run posix_ops (posix_Sync OK (\<lambda>_. OK)) (map writer_of [(Some [Batch_Put [97] [1], Batch_Delete [98]], True), (None, False)])
      (new_db (empty_file ''000003.log'' [Moved 3, Errno 28 ''No space left on device''])) = Some (n, db) \<and> n \<le> 2
    \<and> iter_run (client_class mem_iterator BytewiseComparator 2) [Call_First, Call_Next, Call_Last, Call_Prev, Call_Seek [97, 0]]
        (fst (DB_NewIterator mem_iterator [] (Some 2) (db, 0)))
      = Some (list_run (\<lambda>k. k) (op_pairs (visible 1 2 (queue_ops (take n [(Some [Batch_Put [97] [1], Batch_Delete [98]], True), (None, False)]))))
          [Call_First, Call_Next, Call_Last, Call_Prev, Call_Seek [97, 0]] None)"
  using snapshot_scan [of "[(Some [Batch_Put [97] [1], Batch_Delete [98]], True), (None, False)]" 2
      "[Call_First, Call_Next, Call_Last, Call_Prev, Call_Seek [97, 0]]" OK "\<lambda>_. OK" "''000003.log''"
      "[Moved 3, Errno 28 ''No space left on device'']" mem_iterator 0]
  by (auto simp: kMaxSequenceNumber_def calls_valid_def user_key_ok_def)

end
