(* ===== verification/Ldb_Format.thy ===== *)
theory Ldb_Format
  imports Ldb_Crc32c Ldb_Env
begin

text \<open>
  \<open>leveldb-library/table/format.cc\<close>, with the files of \<open>env.h\<close> that are read at any place: the handles of the
  blocks of a table, its footer, and reading a block with its type and checksum. Compression is what the Snappy
  library does, which is a parameter.
\<close>

section \<open>Files that are read\<close>

text \<open>
  \<open>Read\<close> with an offset and a number of bytes. The mapped file adds them in 64 bits, so a sum that wraps around passes
  its check: then the result lies outside of the mapping, and there is none here.
\<close>

type_synonym random_file = "u64 \<Rightarrow> u64 \<Rightarrow> (status \<times> slice) option"

definition mmap_Read :: "string \<Rightarrow> bytes \<Rightarrow> random_file" where
  "mmap_Read name contents offset n =
     (if offset + n > word_of_nat (length contents) then Some (PosixError name 22 ''Invalid argument'', [])
      else if unat offset + unat n \<le> length contents then Some (OK, take (unat n) (drop (unat offset) contents))
      else None)"

text \<open>What a client relies on: a range inside the file is read.\<close>

definition reads :: "random_file \<Rightarrow> bytes \<Rightarrow> bool" where
  "reads file contents \<longleftrightarrow> (\<forall>offset n. unat offset + unat n \<le> length contents \<longrightarrow>
     file offset n = Some (OK, take (unat n) (drop (unat offset) contents)))"

lemma mmap_reads:
  assumes "length contents < 2 ^ 64"
  shows "reads (mmap_Read name contents) contents"
  unfolding reads_def
proof (intro allI impI)
  fix offset n :: u64
  assume r: "unat offset + unat n \<le> length contents"
  then have "unat (offset + n) = unat offset + unat n" using assms by (simp add: unat_word_ariths)
  moreover have "unat (word_of_nat (length contents) :: u64) = length contents" using assms by (intro unat_small) simp
  ultimately have "\<not> offset + n > word_of_nat (length contents)" using r by (simp add: word_less_nat_alt)
  then show "mmap_Read name contents offset n = Some (OK, take (unat n) (drop (unat offset) contents))"
    using r by (simp add: mmap_Read_def)
qed

section \<open>Snappy\<close>

record snappy =
  RawCompress :: "bytes \<Rightarrow> bytes"
  GetUncompressedLength :: "bytes \<Rightarrow> nat option"
  RawUncompress :: "bytes \<Rightarrow> bytes option"

text \<open>The functions of \<open>port_stdcxx.h\<close>; without the library there is none.\<close>

definition Snappy_Compress :: "snappy option \<Rightarrow> bytes \<Rightarrow> bytes option" where
  "Snappy_Compress lib input = map_option (\<lambda>l. RawCompress l input) lib"

definition Snappy_GetUncompressedLength :: "snappy option \<Rightarrow> bytes \<Rightarrow> nat option" where
  "Snappy_GetUncompressedLength lib input = Option.bind lib (\<lambda>l. GetUncompressedLength l input)"

definition Snappy_Uncompress :: "snappy option \<Rightarrow> bytes \<Rightarrow> bytes option" where
  "Snappy_Uncompress lib input = Option.bind lib (\<lambda>l. RawUncompress l input)"

text \<open>What the library promises: what it compressed, of a length that 32 bits hold, it gives back, and knows its length.\<close>

definition snappy_ok :: "snappy option \<Rightarrow> bool" where
  "snappy_ok lib \<longleftrightarrow> (\<forall>input output. length input < 2 ^ 32 \<longrightarrow> Snappy_Compress lib input = Some output \<longrightarrow>
     Snappy_GetUncompressedLength lib output = Some (length input) \<and> Snappy_Uncompress lib output = Some input)"

lemma no_snappy: "snappy_ok None"
  by (simp add: snappy_ok_def Snappy_Compress_def)

section \<open>Handles and the footer\<close>

record block_handle =
  bh_offset :: u64
  bh_size :: u64

definition BlockHandle_EncodeTo :: "block_handle \<Rightarrow> bytes \<Rightarrow> bytes" where
  "BlockHandle_EncodeTo h dst = PutVarint64 (PutVarint64 dst (bh_offset h)) (bh_size h)"

text \<open>The result has the rest of the input; an error leaves an object that is not used.\<close>

definition BlockHandle_DecodeFrom :: "slice \<Rightarrow> status + block_handle \<times> slice" where
  "BlockHandle_DecodeFrom input =
     (case GetVarint64 input of
        (Some offset, input) \<Rightarrow>
          (case GetVarint64 input of
             (Some sz, input) \<Rightarrow> Inr (\<lparr>bh_offset = offset, bh_size = sz\<rparr>, input)
           | (None, _) \<Rightarrow> Inl (Corruption ''bad block handle'' []))
      | (None, _) \<Rightarrow> Inl (Corruption ''bad block handle'' []))"

record footer =
  metaindex_handle :: block_handle
  index_handle :: block_handle

definition kMaxEncodedLength :: nat where
  "kMaxEncodedLength = 10 + 10"

definition kEncodedLength :: nat where
  "kEncodedLength = 2 * kMaxEncodedLength + 8"

definition kTableMagicNumber :: u64 where
  "kTableMagicNumber = 0xdb4775248b80fb57"

definition kBlockTrailerSize :: nat where
  "kBlockTrailerSize = 5"

definition resize :: "nat \<Rightarrow> bytes \<Rightarrow> bytes" where
  "resize n dst = take n (dst @ replicate (n - length dst) 0)"

definition Footer_EncodeTo :: "footer \<Rightarrow> bytes \<Rightarrow> bytes" where
  "Footer_EncodeTo f dst =
     (let dst = BlockHandle_EncodeTo (metaindex_handle f) dst;
          dst = BlockHandle_EncodeTo (index_handle f) dst;
          dst = resize (2 * kMaxEncodedLength) dst;
          dst = PutFixed32 dst (ucast (kTableMagicNumber AND 0xffffffff))
      in PutFixed32 dst (ucast (drop_bit 32 kTableMagicNumber)))"

text \<open>It reads the last eight of 48 bytes, which has no defined result for a shorter input.\<close>

definition Footer_DecodeFrom :: "slice \<Rightarrow> (status + footer \<times> slice) option" where
  "Footer_DecodeFrom input =
     (if length input < kEncodedLength then None
      else
        let magic_lo = DecodeFixed32 (drop (kEncodedLength - 8) input);
            magic_hi = DecodeFixed32 (drop (kEncodedLength - 4) input);
            magic = push_bit 32 (ucast magic_hi) OR ucast magic_lo
        in if magic \<noteq> kTableMagicNumber then Some (Inl (Corruption ''not an sstable (bad magic number)'' []))
           else
             Some (case BlockHandle_DecodeFrom input of Inl s \<Rightarrow> Inl s
               | Inr (m, rest) \<Rightarrow>
                   (case BlockHandle_DecodeFrom rest of Inl s \<Rightarrow> Inl s
                    | Inr (i, rest) \<Rightarrow> Inr (\<lparr>metaindex_handle = m, index_handle = i\<rparr>, drop kEncodedLength input))))"

section \<open>Reading a block\<close>

text \<open>
  The size and the length of the trailer are added in 64 bits, so for the size in a damaged handle the byte of
  the type may lie outside of what was read: then there is no defined result.
\<close>

definition ReadBlock :: "snappy option \<Rightarrow> random_file \<Rightarrow> bool \<Rightarrow> block_handle \<Rightarrow> (status \<times> slice) option" where
  "ReadBlock lib file verify_checksums h =
     (let len = bh_size h + word_of_nat kBlockTrailerSize; n = unat (bh_size h) in
      case file (bh_offset h) len of None \<Rightarrow> None | Some (s, contents) \<Rightarrow>
        if \<not> ok s then Some (s, [])
        else if word_of_nat (length contents) \<noteq> len then Some (Corruption ''truncated block read'' [], [])
        else if length contents < n + kBlockTrailerSize then None
        else if verify_checksums \<and> crc_Value 0 (take (n + 1) contents) \<noteq> crc_Unmask (DecodeFixed32 (drop (n + 1) contents))
        then Some (Corruption ''block checksum mismatch'' [], [])
        else if contents ! n = 0 then Some (OK, take n contents)
        else if contents ! n = 1 then
          (case Snappy_GetUncompressedLength lib (take n contents) of
             None \<Rightarrow> Some (Corruption ''corrupted compressed block contents'' [], [])
           | Some _ \<Rightarrow>
               (case Snappy_Uncompress lib (take n contents) of
                  None \<Rightarrow> Some (Corruption ''corrupted compressed block contents'' [], [])
                | Some ubuf \<Rightarrow> Some (OK, ubuf)))
        else Some (Corruption ''bad block type'' [], []))"

text \<open>Two sums that are not checked, as a damaged table has them: nothing defined comes back.\<close>

lemma damaged_size_read_outside: "ReadBlock lib (mmap_Read name contents) verify \<lparr>bh_offset = 0, bh_size = - 5\<rparr> = None"
  by (simp add: ReadBlock_def mmap_Read_def kBlockTrailerSize_def Let_def)

lemma mapped_read_outside: "length contents < 2 ^ 64 \<Longrightarrow> mmap_Read name contents (- 8) 8 = None"
  by (simp add: mmap_Read_def)

section \<open>What is read back\<close>

definition handle_bytes :: "block_handle \<Rightarrow> bytes" where
  "handle_bytes h = EncodeVarint64 (bh_offset h) @ EncodeVarint64 (bh_size h)"

lemma BlockHandle_EncodeTo_bytes: "BlockHandle_EncodeTo h dst = dst @ handle_bytes h"
  by (simp add: BlockHandle_EncodeTo_def PutVarint64_def handle_bytes_def)

lemma BlockHandle_decodes: "BlockHandle_DecodeFrom (handle_bytes h @ r) = Inr (h, r)"
  by (simp add: BlockHandle_DecodeFrom_def handle_bytes_def varint64_codec.dec_enc)

lemma handle_bytes_length: "0 < length (handle_bytes h)" "length (handle_bytes h) \<le> 20"
proof -
  have ne: "varint n \<noteq> []" for n by (subst varint.simps) simp
  have "length (EncodeVarint64 v) \<le> 10 \<and> 0 < length (EncodeVarint64 v)" for v
    using ne length_varint [of "unat v" 9] unat_u64_less [of v] by (simp add: EncodeVarint64_varint)
  from this [of "bh_offset h"] this [of "bh_size h"] show "0 < length (handle_bytes h)" "length (handle_bytes h) \<le> 20"
    by (simp_all add: handle_bytes_def)
qed

definition footer_bytes :: "footer \<Rightarrow> bytes" where
  "footer_bytes f = Footer_EncodeTo f []"

lemma footer_bytes_eq:
  "\<exists>pad. footer_bytes f = handle_bytes (metaindex_handle f) @ handle_bytes (index_handle f) @ pad @
      EncodeFixed32 0x8b80fb57 @ EncodeFixed32 0xdb477524
    \<and> length (handle_bytes (metaindex_handle f) @ handle_bytes (index_handle f) @ pad) = 40"
proof -
  let ?h = "handle_bytes (metaindex_handle f) @ handle_bytes (index_handle f)"
  have l: "length ?h \<le> 40" using handle_bytes_length(2) [of "metaindex_handle f"] handle_bytes_length(2) [of "index_handle f"] by simp
  then have "resize 40 ?h = ?h @ replicate (40 - length ?h) 0" by (simp add: resize_def)
  then have "footer_bytes f = ?h @ replicate (40 - length ?h) 0 @ EncodeFixed32 0x8b80fb57 @ EncodeFixed32 0xdb477524"
    by (simp add: footer_bytes_def Footer_EncodeTo_def Let_def BlockHandle_EncodeTo_bytes kMaxEncodedLength_def PutFixed32_def kTableMagicNumber_def)
  with l show ?thesis by (intro exI [of _ "replicate (40 - length ?h) 0"]) simp
qed

lemma footer_length [simp]: "length (footer_bytes f) = 48"
  using footer_bytes_eq [of f] by auto

lemma Footer_decodes: "Footer_DecodeFrom (footer_bytes f @ r) = Some (Inr (f, r))"
proof -
  obtain pad where f: "footer_bytes f = handle_bytes (metaindex_handle f) @ handle_bytes (index_handle f) @ pad @
      EncodeFixed32 0x8b80fb57 @ EncodeFixed32 0xdb477524"
    and l: "length (handle_bytes (metaindex_handle f) @ handle_bytes (index_handle f) @ pad) = 40" using footer_bytes_eq by blast
  let ?h = "handle_bytes (metaindex_handle f) @ handle_bytes (index_handle f) @ pad"
  have d: "drop 40 (footer_bytes f @ r) = EncodeFixed32 0x8b80fb57 @ EncodeFixed32 0xdb477524 @ r"
    "drop 44 (footer_bytes f @ r) = EncodeFixed32 0xdb477524 @ r"
    using l by (simp_all add: f)
  have "DecodeFixed32 (drop 40 (footer_bytes f @ r)) = 0x8b80fb57" "DecodeFixed32 (drop 44 (footer_bytes f @ r)) = 0xdb477524"
    unfolding d by simp_all
  moreover have "BlockHandle_DecodeFrom (footer_bytes f @ r) = Inr (metaindex_handle f, handle_bytes (index_handle f) @ pad @
      EncodeFixed32 0x8b80fb57 @ EncodeFixed32 0xdb477524 @ r)" by (simp add: f BlockHandle_decodes)
  moreover have "drop 48 (footer_bytes f @ r) = r" by simp
  ultimately show ?thesis
    by (simp add: Footer_DecodeFrom_def kEncodedLength_def kMaxEncodedLength_def Let_def BlockHandle_decodes kTableMagicNumber_def)
qed

text \<open>The block \<open>data\<close> lies in the file where the handle says, whole and not damaged.\<close>

definition stored :: "snappy option \<Rightarrow> bytes \<Rightarrow> block_handle \<Rightarrow> slice \<Rightarrow> bool" where
  "stored lib contents h data \<longleftrightarrow> (\<exists>pre raw ty post. contents = pre @ raw @ [ty] @ EncodeFixed32 (crc_Mask (crc32c (raw @ [ty]))) @ post
     \<and> length contents < 2 ^ 64 \<and> unat (bh_offset h) = length pre \<and> unat (bh_size h) = length raw
     \<and> (if ty = 0 then data = raw else ty = 1 \<and> Snappy_Uncompress lib raw = Some data \<and> Snappy_GetUncompressedLength lib raw \<noteq> None))"

text \<open>A block that is not compressed can be read with any library.\<close>

lemma stored_plain:
  assumes "stored None contents h data"
  shows "stored lib contents h data" and "length data \<le> length contents"
proof -
  obtain pre raw ty post where p: "contents = pre @ raw @ [ty] @ EncodeFixed32 (crc_Mask (crc32c (raw @ [ty]))) @ post"
    "length contents < 2 ^ 64" "unat (bh_offset h) = length pre" "unat (bh_size h) = length raw" "ty = 0" "data = raw"
    using assms by (auto simp: stored_def Snappy_Uncompress_def split: if_splits)
  then show "stored lib contents h data" unfolding stored_def by (intro exI [of _ pre] exI [of _ raw] exI [of _ ty] exI [of _ post]) simp
  show "length data \<le> length contents" using p(1,6) by simp
qed

lemma stored_append:
  assumes "stored lib contents h data" and "length (contents @ tail) < 2 ^ 64"
  shows "stored lib (contents @ tail) h data"
proof -
  from assms(1) obtain pre raw ty post where p: "contents = pre @ raw @ [ty] @ EncodeFixed32 (crc_Mask (crc32c (raw @ [ty]))) @ post"
    "unat (bh_offset h) = length pre \<and> unat (bh_size h) = length raw
      \<and> (if ty = 0 then data = raw else ty = 1 \<and> Snappy_Uncompress lib raw = Some data \<and> Snappy_GetUncompressedLength lib raw \<noteq> None)"
    unfolding stored_def by blast
  from p(1) have "contents @ tail = pre @ raw @ [ty] @ EncodeFixed32 (crc_Mask (crc32c (raw @ [ty]))) @ (post @ tail)" by simp
  with p(2) assms(2) show ?thesis unfolding stored_def by blast
qed

lemma ReadBlock_stored:
  assumes "stored lib contents h data" and "reads file contents"
  shows "ReadBlock lib file verify h = Some (OK, data)"
proof -
  from assms(1) obtain pre raw ty post where c: "contents = pre @ raw @ [ty] @ EncodeFixed32 (crc_Mask (crc32c (raw @ [ty]))) @ post"
    and l: "length contents < 2 ^ 64" and h: "unat (bh_offset h) = length pre" "unat (bh_size h) = length raw"
    and ty: "if ty = 0 then data = raw else ty = 1 \<and> Snappy_Uncompress lib raw = Some data \<and> Snappy_GetUncompressedLength lib raw \<noteq> None"
    unfolding stored_def by blast
  let ?b = "raw @ [ty] @ EncodeFixed32 (crc_Mask (crc32c (raw @ [ty])))"
  let ?len = "bh_size h + word_of_nat kBlockTrailerSize :: u64"
  have len: "length ?b = length raw + 5" by simp
  have n: "unat ?len = length ?b" unfolding len using l by (simp add: c unat_word_ariths kBlockTrailerSize_def h(2))
  have n2: "word_of_nat (length ?b) = ?len" unfolding n [symmetric] by (rule word_of_nat_unat)
  have "file (bh_offset h) ?len = Some (OK, take (unat ?len) (drop (unat (bh_offset h)) contents))"
    using assms(2) h(1) n by (simp add: reads_def c)
  also have "take (unat ?len) (drop (unat (bh_offset h)) contents) = ?b" unfolding n h(1) by (simp add: c)
  finally have f: "file (bh_offset h) ?len = Some (OK, ?b)" .
  have t: "take (length raw + 1) ?b = raw @ [ty]" "drop (length raw + 1) ?b = EncodeFixed32 (crc_Mask (crc32c (raw @ [ty])))"
    "take (length raw) ?b = raw" "?b ! length raw = ty" by (simp_all add: nth_append)
  have "DecodeFixed32 (EncodeFixed32 (crc_Mask (crc32c (raw @ [ty])))) = crc_Mask (crc32c (raw @ [ty]))"
    using Decode_Encode32 [of _ "[]"] by simp
  then have "crc_Value 0 (take (length raw + 1) ?b) = crc_Unmask (DecodeFixed32 (drop (length raw + 1) ?b))"
    unfolding t(1,2) by (simp add: crc_Value_crc32c)
  then show ?thesis
    using ty unfolding ReadBlock_def Let_def f option.case prod.case h(2) n2 t(3,4)
    by (auto simp: kBlockTrailerSize_def split: if_splits)
qed

end
