(* ===== verification/Ldb_BlockIter.thy ===== *)
theory Ldb_BlockIter
  imports Ldb_Block_Spec Ldb_Iterator
begin

text \<open>
  The iterator of a block, of \<open>leveldb-library/table/block.cc\<close>, as an object of the interface. Over a block that was
  built from entries in the order of a comparator it keeps what the interface promises.
\<close>

section \<open>The class\<close>

text \<open>\<open>iter_value\<close> has no result for a value that reaches behind the block, as one of a damaged block may.\<close>

definition block_iter_class :: "block_iter iterator_class" where
  "block_iter_class = \<lparr>op_Valid = iter_Valid, op_SeekToFirst = SeekToFirst, op_SeekToLast = SeekToLast, op_Seek = iter_Seek,
     op_Next = iter_Next, op_Prev = iter_Prev, op_key = it_key,
     op_value = (\<lambda>it. case iter_value it of Some v \<Rightarrow> v | None \<Rightarrow> []), op_status = it_status\<rparr>"

text \<open>What \<open>Block::NewIterator\<close> returns: an iterator with an error or none, or one over entries.\<close>

definition some_iterator :: "iterator \<Rightarrow> status + block_iter" where
  "some_iterator it = (case it of EmptyIterator s \<Rightarrow> Inl s | BlockIterator i \<Rightarrow> Inr i)"

definition any_block_class :: "(status + block_iter) iterator_class" where
  "any_block_class = either_class empty_class block_iter_class"

section \<open>Positions\<close>

definition block_sorted :: "(slice \<Rightarrow> 'k::linorder) \<Rightarrow> (slice \<Rightarrow> bool) \<Rightarrow> entries \<Rightarrow> bool" where
  "block_sorted key valid es \<longleftrightarrow> (\<forall>e\<in>set es. valid (fst e)) \<and> sorted_wrt (\<lambda>a b. rank_of key a < rank_of key b) es"

definition block_at :: "comparator \<Rightarrow> (slice \<Rightarrow> 'k::linorder) \<Rightarrow> (slice \<Rightarrow> bool) \<Rightarrow>
    block_iter \<Rightarrow> (slice \<times> slice) set \<Rightarrow> (slice \<times> slice) option \<Rightarrow> bool" where
  "block_at cmp key valid it S c \<longleftrightarrow> (\<exists>k es. fits_block k es \<and> block_sorted key valid es \<and> S = set es
     \<and> (case c of None \<Rightarrow> iter_past k es cmp it | Some e \<Rightarrow> \<exists>i. iter_at k es cmp i it \<and> e = es ! i))"

definition any_block_at :: "comparator \<Rightarrow> (slice \<Rightarrow> 'k::linorder) \<Rightarrow> (slice \<Rightarrow> bool) \<Rightarrow>
    status + block_iter \<Rightarrow> (slice \<times> slice) set \<Rightarrow> (slice \<times> slice) option \<Rightarrow> bool" where
  "any_block_at cmp key valid = at_either (\<lambda>s S c. s = OK \<and> S = {} \<and> c = None) (block_at cmp key valid)"

lemma block_atI:
  assumes "fits_block k es" and "block_sorted key valid es"
    and "if i < length es then iter_at k es cmp i it else iter_past k es cmp it"
  shows "block_at cmp key valid it (set es) (if i < length es then Some (es ! i) else None)"
  using assms unfolding block_at_def by (intro exI [of _ k] exI [of _ es]) auto

lemma sorted_nth:
  assumes "block_sorted key valid es" and "i < length es" and "j < length es"
  shows "rank_of key (es ! i) < rank_of key (es ! j) \<longleftrightarrow> i < j" and "rank_of key (es ! i) \<le> rank_of key (es ! j) \<longleftrightarrow> i \<le> j"
  using sorted_index [of "rank_of key" es i j] assms by (simp_all add: block_sorted_def)

text \<open>The entries on one side of a position in a sorted list.\<close>

lemma first_from:
  assumes "block_sorted key valid es" and "\<And>j. j < length es \<Longrightarrow> P (es ! j) \<longleftrightarrow> i \<le> j"
  shows "first_in (rank_of key) {x \<in> set es. P x} (if i < length es then Some (es ! i) else None)"
proof (cases "i < length es")
  case True
  have "rank_of key (es ! i) \<le> rank_of key x" if x: "x \<in> set es" "P x" for x
  proof -
    from x(1) obtain j where "j < length es" "x = es ! j" by (metis in_set_conv_nth)
    with assms(2) [of j] x(2) sorted_nth(2) [OF assms(1) True] show ?thesis by simp
  qed
  with assms(2) [OF True] True show ?thesis by simp
next
  case False
  have "\<not> P x" if "x \<in> set es" for x
  proof -
    from that obtain j where "j < length es" "x = es ! j" by (metis in_set_conv_nth)
    with assms(2) [of j] False show ?thesis by simp
  qed
  then have "{x \<in> set es. P x} = {}" by blast
  with False show ?thesis by simp
qed

lemma last_until:
  assumes "block_sorted key valid es" and "\<And>j. j < length es \<Longrightarrow> P (es ! j) \<longleftrightarrow> j < i" and "i \<le> length es"
  shows "last_in (rank_of key) {x \<in> set es. P x} (if 0 < i then Some (es ! (i - 1)) else None)"
proof (cases "0 < i")
  case True
  then have i: "i - 1 < length es" using assms(3) by simp
  have "rank_of key x \<le> rank_of key (es ! (i - 1))" if x: "x \<in> set es" "P x" for x
  proof -
    from x(1) obtain j where "j < length es" "x = es ! j" by (metis in_set_conv_nth)
    with assms(2) [of j] x(2) sorted_nth(2) [OF assms(1) _ i, of j] show ?thesis by simp
  qed
  with assms(2) [OF i] True i show ?thesis by simp
next
  case False
  have "\<not> P x" if "x \<in> set es" for x
  proof -
    from that obtain j where "j < length es" "x = es ! j" by (metis in_set_conv_nth)
    with assms(2) [of j] False show ?thesis by simp
  qed
  then have "{x \<in> set es. P x} = {}" by blast
  with False show ?thesis by simp
qed

lemma block_at_cases:
  assumes "block_at cmp key valid it S c"
  obtains k es i where "fits_block k es" and "block_sorted key valid es" and "S = set es" and "iter_on k es cmp it"
    and "i \<le> length es" and "c = (if i < length es then Some (es ! i) else None)"
    and "if i < length es then iter_at k es cmp i it else iter_past k es cmp it"
proof -
  from assms obtain k es where k: "fits_block k es" "block_sorted key valid es" "S = set es"
    and c: "case c of None \<Rightarrow> iter_past k es cmp it | Some e \<Rightarrow> \<exists>i. iter_at k es cmp i it \<and> e = es ! i"
    by (auto simp: block_at_def)
  show thesis
  proof (cases c)
    case None
    with c k show ?thesis by (intro that [of k es "length es"]) (simp_all add: iter_past_def)
  next
    case (Some e)
    with c obtain i where "iter_at k es cmp i it" "e = es ! i" by auto
    with Some k show ?thesis by (intro that [of k es i]) (simp_all add: iter_at_def)
  qed
qed

lemma iter_on_status: "iter_on k es cmp it \<Longrightarrow> it_status it = OK"
  by (simp add: iter_on_def)

context comparator_contract
begin

lemma block_contract: "iterator_contract block_iter_class key valid (block_at cmp key valid)"
proof
  note ops = block_iter_class_def iterator_class.simps
  fix it S c
  assume "block_at cmp key valid it S c"
  then obtain k es i where k: "fits_block k es" "block_sorted key valid es" "S = set es" "iter_on k es cmp it"
    and i: "i \<le> length es" "c = (if i < length es then Some (es ! i) else None)"
      "if i < length es then iter_at k es cmp i it else iter_past k es cmp it" by (rule block_at_cases)
  note at = block_atI [OF k(1,2), where cmp = cmp, folded k(3)]
  have "inj_on (rank_of key) S" using k(2,3) by (simp add: sorted_strict_inj block_sorted_def)
  then show "finite S \<and> inj_on (rank_of key) S \<and> (\<forall>e\<in>S. valid (fst e))" using k(2,3) by (simp add: block_sorted_def)
  show "op_Valid block_iter_class it \<longleftrightarrow> c \<noteq> None"
    using i(2,3) at_contents(1) [OF k(1)] past_invalid by (auto simp: ops split: if_splits)
  show "op_status block_iter_class it = OK" using iter_on_status [OF k(4)] by (simp add: ops)
  obtain it' where it': "SeekToFirst it = Some it'" "if es \<noteq> [] then iter_at k es cmp 0 it' else iter_past k es cmp it'"
    by (rule first_entry [OF k(1,4)])
  have "first_in (rank_of key) S (if 0 < length es then Some (es ! 0) else None)"
    using first_from [OF k(2), of "\<lambda>_. True" 0] k(3) by simp
  with at [of 0 it'] it' show "\<exists>i' c'. op_SeekToFirst block_iter_class it = Some i' \<and> block_at cmp key valid i' S c' \<and> first_in (rank_of key) S c'"
    unfolding ops by (metis length_greater_0_conv)
  obtain it' where it': "SeekToLast it = Some it'" "if es \<noteq> [] then iter_at k es cmp (length es - 1) it' else iter_past k es cmp it'"
    by (rule last_entry [OF k(1,4)])
  have "last_in (rank_of key) S (if 0 < length es then Some (es ! (length es - 1)) else None)"
    using last_until [OF k(2), of "\<lambda>_. True" "length es"] k(3) by simp
  with at [of "length es - 1" it'] it' show "\<exists>i' c'. op_SeekToLast block_iter_class it = Some i' \<and> block_at cmp key valid i' S c' \<and> last_in (rank_of key) S c'"
    unfolding ops by (cases "es = []") auto
  fix t
  assume t: "valid t"
  let ?j = "seek_index cmp t es"
  have v: "valid (fst (es ! j))" if "j < length es" for j using k(2) that by (simp add: block_sorted_def)
  have less: "Compare cmp (fst (es ! j)) t < 0 \<longleftrightarrow> rank_of key (es ! j) < key t" if "j < length es" for j
    using compare_less [OF v [OF that] t] by (simp add: rank_of_def)
  have sorted: "sorted_entries es"
    using k(2) unfolding sorted_entries_def block_sorted_def list_all_iff
    by (auto simp: sorted_wrt_iff_nth_less case_prod_unfold compare_less v rank_of_def)
  obtain it' where it': "iter_Seek t it = Some it'" "if ?j < length es then iter_at k es cmp ?j it' else iter_past k es cmp it'"
    using seek_entry [OF k(1,4) sorted t] by blast
  have "key t \<le> rank_of key (es ! j) \<longleftrightarrow> ?j \<le> j" if j: "j < length es" for j
  proof -
    have "Compare cmp (fst (es ! j)) t < 0 \<longleftrightarrow> j < ?j"
      using entries_below [OF sorted t j] seek_index_step [of j cmp t es] j by (metis less_imp_le)
    then show ?thesis unfolding less [OF j] by (simp add: not_less [symmetric])
  qed
  from first_from [OF k(2) this] have "first_in (rank_of key) {x \<in> S. key t \<le> rank_of key x} (if ?j < length es then Some (es ! ?j) else None)"
    by (simp add: k(3))
  with at [OF it'(2)] it'(1) show "\<exists>i' c'. op_Seek block_iter_class t it = Some i' \<and> block_at cmp key valid i' S c'
      \<and> first_in (rank_of key) {x \<in> S. key t \<le> rank_of key x} c'" unfolding ops by blast
next
  note ops = block_iter_class_def iterator_class.simps
  fix it S e
  assume "block_at cmp key valid it S (Some e)"
  then obtain k es i where k: "fits_block k es" "block_sorted key valid es" "S = set es" "iter_on k es cmp it"
    and i: "i < length es" "e = es ! i" "iter_at k es cmp i it" by (rule block_at_cases) (auto split: if_splits)
  note at = block_atI [OF k(1,2), where cmp = cmp, folded k(3)]
  note contents = at_contents [OF k(1) i(3)]
  show "e \<in> S \<and> op_key block_iter_class it = fst e \<and> op_value block_iter_class it = snd e"
    using contents i(1,2) k(3) by (simp add: ops)
  obtain it' where it': "iter_Next it = Some it'" "if Suc i < length es then iter_at k es cmp (Suc i) it' else iter_past k es cmp it'"
    by (rule next_entry [OF k(1) i(3)])
  have "first_in (rank_of key) {x \<in> S. rank_of key e < rank_of key x} (if Suc i < length es then Some (es ! Suc i) else None)"
    unfolding k(3) by (rule first_from [OF k(2)]) (simp add: i(2) sorted_nth(1) [OF k(2) i(1)] Suc_le_eq)
  with at [OF it'(2)] it'(1) show "\<exists>i' c'. op_Next block_iter_class it = Some i' \<and> block_at cmp key valid i' S c'
      \<and> first_in (rank_of key) {x \<in> S. rank_of key e < rank_of key x} c'" unfolding ops by blast
  obtain it' where it': "iter_Prev it = Some it'" "if 0 < i then iter_at k es cmp (i - 1) it' else iter_past k es cmp it'"
    by (rule prev_entry [OF k(1) i(3)])
  have "last_in (rank_of key) {x \<in> S. rank_of key x < rank_of key e} (if 0 < i then Some (es ! (i - 1)) else None)"
    unfolding k(3) by (rule last_until [OF k(2)]) (use i in \<open>simp_all add: sorted_nth(1) [OF k(2) _ i(1)]\<close>)
  moreover have "block_at cmp key valid it' S (if 0 < i then Some (es ! (i - 1)) else None)"
    using at [of "i - 1" it'] block_atI [OF k(1,2), of "length es" cmp it', folded k(3)] it'(2) i(1) by (cases "0 < i") (simp_all add: less_imp_diff_less del: One_nat_def)
  ultimately show "\<exists>i' c'. op_Prev block_iter_class it = Some i' \<and> block_at cmp key valid i' S c'
      \<and> last_in (rank_of key) {x \<in> S. rank_of key x < rank_of key e} c'" using it'(1) unfolding ops by blast
qed

lemma any_block_contract: "iterator_contract any_block_class key valid (any_block_at cmp key valid)"
  unfolding any_block_class_def any_block_at_def by (intro either_contract empty.iterator_contract_axioms block_contract)

end

text \<open>A new iterator over a block that was built.\<close>

lemma NewIterator_at:
  assumes "fits_block k es" and "block_sorted key valid es"
  shows "any_block_at cmp key valid (some_iterator (NewIterator cmp (Block (build_block k es)))) (set es) None"
proof -
  obtain it where it: "on_block cmp (build_block k es) Some = Some it" "iter_on k es cmp it"
    by (rule on_built_block [OF assms(1)])
  from it(1) have n: "NewIterator cmp (Block (build_block k es)) = BlockIterator it"
    by (simp add: on_block_def split: iterator.splits)
  then have "it_current it = it_restarts it"
    by (auto simp: NewIterator_def Let_def Iter_def split: if_splits)
  with it(2) have "iter_past k es cmp it" by (simp add: iter_past_def)
  with block_atI [OF assms, of "length es" cmp it] show ?thesis
    by (simp add: any_block_at_def n some_iterator_def)
qed

end
