(* ===== verification/Ldb_TableBuilder.thy ===== *)
theory Ldb_TableBuilder
  imports Ldb_Format Ldb_BlockIter Ldb_Filter
begin

text \<open>
  \<open>leveldb-library/table/table_builder.cc\<close>: the writer of tables. Entries go into data blocks; a block that is large
  enough is written, and its place becomes an entry of the index once the next key is known, so that the index
  has short keys that separate the blocks. The filter, the index and the footer follow.
\<close>

section \<open>The code\<close>

datatype compression_type = kNoCompression | kSnappyCompression

text \<open>Those of the options that tables depend on; a filter policy has a name.\<close>

record table_options =
  opt_comparator :: comparator
  opt_paranoid_checks :: bool
  opt_block_size :: nat
  opt_block_restart_interval :: int
  opt_compression :: compression_type
  opt_filter_policy :: "(slice \<times> filter_policy) option"

record 'f table_builder =
  tb_options :: table_options
  tb_file :: 'f
  tb_offset :: u64
  tb_status :: status
  tb_data_block :: block_builder
  tb_index_block :: block_builder
  tb_last_key :: bytes
  tb_num_entries :: int
  tb_closed :: bool
  tb_filter_block :: "filter_builder option"
  tb_pending_index_entry :: bool
  tb_pending_handle :: block_handle

definition BlockHandle :: block_handle where
  "BlockHandle = \<lparr>bh_offset = NOT 0, bh_size = NOT 0\<rparr>"

definition TableBuilder :: "table_options \<Rightarrow> 'f \<Rightarrow> 'f table_builder" where
  "TableBuilder opts file =
     \<lparr>tb_options = opts, tb_file = file, tb_offset = 0, tb_status = OK,
      tb_data_block = BlockBuilder (opt_block_restart_interval opts), tb_index_block = BlockBuilder 1,
      tb_last_key = [], tb_num_entries = 0, tb_closed = False,
      tb_filter_block = map_option (\<lambda>(name, policy). StartBlock 0 (FilterBlockBuilder policy)) (opt_filter_policy opts),
      tb_pending_index_entry = False, tb_pending_handle = BlockHandle\<rparr>"

definition tb_ok :: "'f table_builder \<Rightarrow> bool" where
  "tb_ok b \<longleftrightarrow> ok (tb_status b)"

definition type_byte :: "compression_type \<Rightarrow> u8" where
  "type_byte ty = (case ty of kNoCompression \<Rightarrow> 0 | kSnappyCompression \<Rightarrow> 1)"

definition WriteRawBlock :: "'f file_ops \<Rightarrow> slice \<Rightarrow> compression_type \<Rightarrow> 'f table_builder \<Rightarrow> block_handle \<times> 'f table_builder" where
  "WriteRawBlock fops block_contents ty b =
     (let handle = \<lparr>bh_offset = tb_offset b, bh_size = word_of_nat (length block_contents)\<rparr>;
          (status, file) = Append fops (tb_file b) block_contents;
          b = b\<lparr>tb_status := status, tb_file := file\<rparr>
      in if ok status then
           let crc = crc_Value 0 block_contents;
               crc = Extend 0 crc [type_byte ty];
               trailer = type_byte ty # EncodeFixed32 (crc_Mask crc);
               (status, file) = Append fops (tb_file b) trailer;
               b = b\<lparr>tb_status := status, tb_file := file\<rparr>
           in (handle, if ok status then b\<lparr>tb_offset := tb_offset b + word_of_nat (length block_contents + kBlockTrailerSize)\<rparr> else b)
         else (handle, b))"

text \<open>The contents of a block, compressed if that is supported and saves enough.\<close>

definition block_contents :: "snappy option \<Rightarrow> compression_type \<Rightarrow> slice \<Rightarrow> slice \<times> compression_type" where
  "block_contents lib ty raw =
     (case ty of kNoCompression \<Rightarrow> (raw, ty)
      | kSnappyCompression \<Rightarrow>
          (case Snappy_Compress lib raw of
             None \<Rightarrow> (raw, kNoCompression)
           | Some compressed \<Rightarrow>
               if length compressed < length raw - length raw div 8 then (compressed, ty) else (raw, kNoCompression)))"

definition WriteBlock :: "snappy option \<Rightarrow> 'f file_ops \<Rightarrow> block_builder \<Rightarrow> 'f table_builder \<Rightarrow>
    block_builder \<times> block_handle \<times> 'f table_builder" where
  "WriteBlock lib fops block b =
     (let (raw, block) = block_Finish block;
          (contents, ty) = block_contents lib (opt_compression (tb_options b)) raw;
          (handle, b) = WriteRawBlock fops contents ty b
      in (block_Reset block, handle, b))"

definition tb_Flush :: "snappy option \<Rightarrow> 'f file_ops \<Rightarrow> 'f table_builder \<Rightarrow> 'f table_builder" where
  "tb_Flush lib fops b =
     (if \<not> tb_ok b \<or> block_empty (tb_data_block b) then b
      else
        let (block, handle, b) = WriteBlock lib fops (tb_data_block b) b;
            b = b\<lparr>tb_data_block := block, tb_pending_handle := handle\<rparr>;
            b = (if tb_ok b
                 then case Flush fops (tb_file b) of (status, file) \<Rightarrow> b\<lparr>tb_pending_index_entry := True, tb_status := status, tb_file := file\<rparr>
                 else b)
        in b\<lparr>tb_filter_block := map_option (StartBlock (tb_offset b)) (tb_filter_block b)\<rparr>)"

text \<open>The entry of the index for the last block that was written, behind a key that separates it from what follows.\<close>

definition add_index_entry :: "bytes \<Rightarrow> 'f table_builder \<Rightarrow> 'f table_builder" where
  "add_index_entry last_key b =
     b\<lparr>tb_last_key := last_key, tb_index_block := block_Add last_key (BlockHandle_EncodeTo (tb_pending_handle b) []) (tb_index_block b),
       tb_pending_index_entry := False\<rparr>"

definition tb_Add :: "snappy option \<Rightarrow> 'f file_ops \<Rightarrow> slice \<Rightarrow> slice \<Rightarrow> 'f table_builder \<Rightarrow> 'f table_builder" where
  "tb_Add lib fops key val b =
     (if \<not> tb_ok b then b
      else
        let b = (if tb_pending_index_entry b
                 then add_index_entry (FindShortestSeparator (opt_comparator (tb_options b)) (tb_last_key b) key) b else b);
            b = b\<lparr>tb_filter_block := map_option (AddKey key) (tb_filter_block b), tb_last_key := key,
                  tb_num_entries := tb_num_entries b + 1, tb_data_block := block_Add key val (tb_data_block b)\<rparr>
        in if CurrentSizeEstimate (tb_data_block b) \<ge> opt_block_size (tb_options b) then tb_Flush lib fops b else b)"

definition filter_key :: "slice \<Rightarrow> slice" where
  "filter_key name = [102, 105, 108, 116, 101, 114, 46] @ name"

text \<open>The blocks behind the data: each is written if there was no error before.\<close>

definition WriteFilterBlock :: "'f file_ops \<Rightarrow> 'f table_builder \<Rightarrow> block_handle \<times> 'f table_builder" where
  "WriteFilterBlock fops b =
     (case (tb_ok b, tb_filter_block b) of
        (True, Some f) \<Rightarrow>
          (let (contents, f) = filter_Finish f in WriteRawBlock fops contents kNoCompression (b\<lparr>tb_filter_block := Some f\<rparr>))
      | _ \<Rightarrow> (BlockHandle, b))"

definition WriteMetaindexBlock :: "snappy option \<Rightarrow> 'f file_ops \<Rightarrow> block_handle \<Rightarrow> 'f table_builder \<Rightarrow> block_handle \<times> 'f table_builder" where
  "WriteMetaindexBlock lib fops filter_block_handle b =
     (if tb_ok b then
        let block = BlockBuilder (opt_block_restart_interval (tb_options b));
            block = (case (tb_filter_block b, opt_filter_policy (tb_options b)) of
                       (Some _, Some (name, policy)) \<Rightarrow> block_Add (filter_key name) (BlockHandle_EncodeTo filter_block_handle []) block
                     | _ \<Rightarrow> block);
            (block, handle, b) = WriteBlock lib fops block b
        in (handle, b)
      else (BlockHandle, b))"

definition WriteIndexBlock :: "snappy option \<Rightarrow> 'f file_ops \<Rightarrow> 'f table_builder \<Rightarrow> block_handle \<times> 'f table_builder" where
  "WriteIndexBlock lib fops b =
     (if tb_ok b then
        let b = (if tb_pending_index_entry b
                 then add_index_entry (FindShortSuccessor (opt_comparator (tb_options b)) (tb_last_key b)) b else b);
            (block, handle, b) = WriteBlock lib fops (tb_index_block b) b
        in (handle, b\<lparr>tb_index_block := block\<rparr>)
      else (BlockHandle, b))"

definition WriteFooter :: "'f file_ops \<Rightarrow> block_handle \<Rightarrow> block_handle \<Rightarrow> 'f table_builder \<Rightarrow> 'f table_builder" where
  "WriteFooter fops metaindex_block_handle index_block_handle b =
     (if tb_ok b then
        let footer_encoding = Footer_EncodeTo \<lparr>metaindex_handle = metaindex_block_handle, index_handle = index_block_handle\<rparr> [];
            (status, file) = Append fops (tb_file b) footer_encoding;
            b = b\<lparr>tb_status := status, tb_file := file\<rparr>
        in if ok status then b\<lparr>tb_offset := tb_offset b + word_of_nat (length footer_encoding)\<rparr> else b
      else b)"

definition tb_Finish :: "snappy option \<Rightarrow> 'f file_ops \<Rightarrow> 'f table_builder \<Rightarrow> status \<times> 'f table_builder" where
  "tb_Finish lib fops b =
     (let b = (tb_Flush lib fops b)\<lparr>tb_closed := True\<rparr>;
          (filter_block_handle, b) = WriteFilterBlock fops b;
          (metaindex_block_handle, b) = WriteMetaindexBlock lib fops filter_block_handle b;
          (index_block_handle, b) = WriteIndexBlock lib fops b;
          b = WriteFooter fops metaindex_block_handle index_block_handle b
      in (tb_status b, b))"

text \<open>
  Comparators are compared by their addresses. The data block points to the options; the index block to a copy with
  an interval of 1. If a filter policy is dropped while there is a filter, \<open>Finish\<close> reads its name from a null pointer.
\<close>

definition tb_ChangeOptions :: "bool \<Rightarrow> table_options \<Rightarrow> 'f table_builder \<Rightarrow> status \<times> 'f table_builder" where
  "tb_ChangeOptions same_comparator opts b =
     (if \<not> same_comparator then (InvalidArgument ''changing comparator while building table'' [], b)
      else (OK, b\<lparr>tb_options := opts, tb_data_block := (tb_data_block b)\<lparr>bb_interval := opt_block_restart_interval opts\<rparr>\<rparr>))"

definition tb_Abandon :: "'f table_builder \<Rightarrow> 'f table_builder" where
  "tb_Abandon b = b\<lparr>tb_closed := True\<rparr>"

definition NumEntries :: "'f table_builder \<Rightarrow> u64" where
  "NumEntries b = word_of_int (tb_num_entries b)"

definition FileSize :: "'f table_builder \<Rightarrow> u64" where
  "FileSize b = tb_offset b"

text \<open>A table of a list of entries, as its clients write one.\<close>

definition build_table :: "snappy option \<Rightarrow> 'f file_ops \<Rightarrow> table_options \<Rightarrow> entries \<Rightarrow> 'f \<Rightarrow> status \<times> 'f table_builder" where
  "build_table lib fops opts es file =
     tb_Finish lib fops (fold (\<lambda>(key, val). tb_Add lib fops key val) es (TableBuilder opts file))"

section \<open>What is written\<close>

definition entries_small :: "entries \<Rightarrow> bool" where
  "entries_small es \<longleftrightarrow> (\<forall>(key, val)\<in>set es. length key < 2 ^ 32 \<and> length val < 2 ^ 32)"

lemma entries_small_simps [simp]:
  "entries_small []" "entries_small (e # es) \<longleftrightarrow> length (fst e) < 2 ^ 32 \<and> length (snd e) < 2 ^ 32 \<and> entries_small es"
  "entries_small (es @ es') \<longleftrightarrow> entries_small es \<and> entries_small es'"
  by (auto simp: entries_small_def)

text \<open>The room that entries take in a block, at most.\<close>

definition entries_room :: "entries \<Rightarrow> nat" where
  "entries_room es = (\<Sum>(key, val)\<leftarrow>es. length key + length val + 32)"

lemma entries_room_simps [simp]:
  "entries_room [] = 0" "entries_room (e # es) = length (fst e) + length (snd e) + 32 + entries_room es"
  "entries_room (es @ es') = entries_room es + entries_room es'"
  by (simp_all add: entries_room_def case_prod_unfold)

lemma room_small: "entries_room es < 2 ^ 32 \<Longrightarrow> entries_small es"
  by (induction es) auto

lemma room_fits:
  assumes "0 < k" and "entries_room es + 8 < 2 ^ 32"
  shows "fits_block k es"
proof -
  have small: "entries_small es" using assms(2) by (intro room_small) simp
  have code: "length (entry_code k es i) \<le> length (fst (es ! i)) + length (snd (es ! i)) + 15" if "i < length es" for i
  proof -
    have "length (fst (es ! i)) < 2 ^ 32" "length (snd (es ! i)) < 2 ^ 32"
      using small that nth_mem [OF that] by (auto simp: entries_small_def case_prod_unfold)
    moreover have "entry_shared k es i \<le> length (fst (es ! i))" by (simp add: entry_shared_def diff_index_le(2))
    moreover have "length (varint n) \<le> 5" if "n < 2 ^ 32" for n
      using length_varint [of n 4] that by simp
    ultimately have "length (varint (entry_shared k es i)) \<le> 5" "length (varint (length (fst (es ! i)) - entry_shared k es i)) \<le> 5"
      "length (varint (length (snd (es ! i)))) \<le> 5" by simp_all
    then show ?thesis by (simp add: entry_code_def Let_def)
  qed
  have start: "entry_start k es n + 4 * n \<le> entries_room (take n es)" if "n \<le> length es" for n
    using that
  proof (induction n)
    case (Suc n)
    with code [of n] show ?case by (simp add: entry_start_Suc take_Suc_conv_app_nth)
  qed simp
  have "restart_count k (length es) \<le> Suc (length es)"
  proof (cases "length es")
    case (Suc n)
    have "n div k \<le> n" by (rule div_le_dividend)
    then have "n div k \<le> Suc n" by (rule le_SucI)
    with Suc show ?thesis by (simp add: restart_count_def)
  qed (simp add: restart_count_def)
  with start [of "length es"] assms(2) build_block_bytes [OF assms(1) small [unfolded entries_small_def]]
  have "length (build_block k es) < 2 ^ 32" by (simp add: entry_start_def)
  with small assms(1) show ?thesis by (simp add: fits_block_def entries_small_def)
qed

lemma fits_smallD: "fits_block k es \<Longrightarrow> 0 < k" "fits_block k es \<Longrightarrow> entries_small es" "fits_block k es \<Longrightarrow> length (build_block k es) < 2 ^ 32"
  by (simp_all add: fits_block_def entries_small_def)

lemma builder_adds:
  assumes "0 < k" and "entries_small es"
  shows "builder_entries k (fold (\<lambda>(key, val). block_Add key val) es (BlockBuilder (int k))) es"
  using assms(2)
proof (induction es rule: rev_induct)
  case (snoc e es)
  with builder_add [OF assms(1), of _ es "fst e" "snd e"] show ?case by (cases e) simp
qed (simp add: builder_new)

lemma builder_finish:
  assumes "0 < k" and "entries_small es" and "builder_entries k b es"
  shows "fst (block_Finish b) = build_block k es" and "builder_entries k (block_Reset (snd (block_Finish b))) []"
proof -
  show "fst (block_Finish b) = build_block k es"
    using builder_adds [OF assms(1,2)] assms(3)
    by (simp add: build_block_def block_Finish_def Let_def builder_entries_def)
  show "builder_entries k (block_Reset (snd (block_Finish b))) []"
    using assms(3) builder_new [of k] by (simp add: builder_entries_def block_Reset_def block_Finish_def Let_def BlockBuilder_def)
qed

text \<open>All but the file, the offset and the status.\<close>

definition same_blocks :: "'f table_builder \<Rightarrow> 'f table_builder \<Rightarrow> bool" where
  "same_blocks b b' \<longleftrightarrow> tb_options b' = tb_options b \<and> tb_data_block b' = tb_data_block b \<and> tb_index_block b' = tb_index_block b
     \<and> tb_last_key b' = tb_last_key b \<and> tb_filter_block b' = tb_filter_block b
     \<and> tb_pending_index_entry b' = tb_pending_index_entry b \<and> tb_pending_handle b' = tb_pending_handle b"

lemma block_contents_read:
  assumes "snappy_ok lib" and "length raw < 2 ^ 32" and "block_contents lib ty raw = (c, ty')"
  shows "if type_byte ty' = 0 then raw = c
    else type_byte ty' = 1 \<and> Snappy_Uncompress lib c = Some raw \<and> Snappy_GetUncompressedLength lib c \<noteq> None"
  using assms by (auto simp: block_contents_def snappy_ok_def type_byte_def split: compression_type.splits option.splits if_splits)

context writable_file
begin

lemma append_result:
  assumes "Append ops f d = (s, f')" and "ok s"
  shows "accepted f' = accepted f @ d" and "s = OK"
  using append_ok [OF assms] assms(2) by (simp_all add: ok_iff)

lemma WriteRawBlock_ok:
  assumes "WriteRawBlock ops c ty b = (h, b')" and "tb_ok b'"
  shows "accepted (tb_file b') = accepted (tb_file b) @ c @ [type_byte ty] @ EncodeFixed32 (crc_Mask (crc32c (c @ [type_byte ty])))"
    and "h = \<lparr>bh_offset = tb_offset b, bh_size = word_of_nat (length c)\<rparr>"
    and "tb_offset b' = tb_offset b + word_of_nat (length c + kBlockTrailerSize)" and "tb_status b' = OK" and "same_blocks b b'"
proof -
  obtain s1 f1 where a: "Append ops (tb_file b) c = (s1, f1)" by fastforce
  have s1: "ok s1" using assms by (auto simp: WriteRawBlock_def Let_def a tb_ok_def split: if_splits)
  have "Extend 0 (crc_Value 0 c) [type_byte ty] = crc32c (c @ [type_byte ty])"
    unfolding crc_Value_def Extend_append [of _ _ _ _ _ 0] by (simp add: crc_Value_crc32c [unfolded crc_Value_def])
  moreover obtain s2 f2 where t: "Append ops f1 (type_byte ty # EncodeFixed32 (crc_Mask (crc32c (c @ [type_byte ty])))) = (s2, f2)" by fastforce
  ultimately have w: "WriteRawBlock ops c ty b = (\<lparr>bh_offset = tb_offset b, bh_size = word_of_nat (length c)\<rparr>,
      if ok s2 then b\<lparr>tb_status := s2, tb_file := f2, tb_offset := tb_offset b + word_of_nat (length c + kBlockTrailerSize)\<rparr>
      else b\<lparr>tb_status := s2, tb_file := f2\<rparr>)"
    using s1 by (simp add: WriteRawBlock_def Let_def a)
  with assms have s2: "ok s2" by (auto simp: tb_ok_def split: if_splits)
  with w assms(1) have b': "b' = b\<lparr>tb_status := s2, tb_file := f2, tb_offset := tb_offset b + word_of_nat (length c + kBlockTrailerSize)\<rparr>"
    and h: "h = \<lparr>bh_offset = tb_offset b, bh_size = word_of_nat (length c)\<rparr>" by simp_all
  show "h = \<lparr>bh_offset = tb_offset b, bh_size = word_of_nat (length c)\<rparr>" by (rule h)
  show "accepted (tb_file b') = accepted (tb_file b) @ c @ [type_byte ty] @ EncodeFixed32 (crc_Mask (crc32c (c @ [type_byte ty])))"
    using append_result(1) [OF a s1] append_result(1) [OF t s2] by (simp add: b')
  show "tb_offset b' = tb_offset b + word_of_nat (length c + kBlockTrailerSize)" "tb_status b' = OK" "same_blocks b b'"
    using append_result(2) [OF t s2] by (simp_all add: b' same_blocks_def)
qed

text \<open>A block that was written: \<open>written\<close> says that the offset is the length of the file.\<close>

definition written :: "'f table_builder \<Rightarrow> bool" where
  "written b \<longleftrightarrow> unat (tb_offset b) = length (accepted (tb_file b))"

lemma WriteRawBlock_stored:
  assumes "WriteRawBlock ops c ty b = (h, b')" and "tb_ok b'" and "written b" and "length (accepted (tb_file b')) < 2 ^ 64"
    and "if type_byte ty = 0 then data = c else type_byte ty = 1 \<and> Snappy_Uncompress lib c = Some data \<and> Snappy_GetUncompressedLength lib c \<noteq> None"
  shows "stored lib (accepted (tb_file b')) h data" and "written b'" and "bh_offset h = tb_offset b"
    and "\<exists>more. accepted (tb_file b') = accepted (tb_file b) @ more" and "unat (tb_offset b) < unat (tb_offset b')"
proof -
  note w = WriteRawBlock_ok [OF assms(1,2)]
  have len: "length (accepted (tb_file b')) = length (accepted (tb_file b)) + (length c + 5)" by (simp add: w(1))
  have c: "unat (word_of_nat (length c) :: u64) = length c" "unat (word_of_nat (length c + 5) :: u64) = length c + 5"
    using assms(4) len by (simp_all only: unat_of_nat take_bit_nat_eq_self_iff) (simp_all add: take_bit_nat_eq_self_iff)
  show "written b'" using assms(3,4) len c(2) by (simp add: written_def w(3) kBlockTrailerSize_def unat_word_ariths)
  then show "unat (tb_offset b) < unat (tb_offset b')" using assms(3) len by (simp add: written_def)
  show "stored lib (accepted (tb_file b')) h data"
    unfolding stored_def using assms(3-5) c(1) w(1,2)
    by (intro exI [of _ "accepted (tb_file b)"] exI [of _ c] exI [of _ "type_byte ty"] exI [of _ "[]"]) (simp add: written_def)
  show "bh_offset h = tb_offset b" "\<exists>more. accepted (tb_file b') = accepted (tb_file b) @ more" using w(1,2) by simp_all
qed

lemma WriteBlock_stored:
  assumes "WriteBlock lib ops block b = (block', h, b')" and "tb_ok b'" and "written b" and "length (accepted (tb_file b')) < 2 ^ 64"
    and "fits_block k es" and "builder_entries k block es" and "snappy_ok lib"
  shows "stored lib (accepted (tb_file b')) h (build_block k es)" and "written b'" and "bh_offset h = tb_offset b"
    and "\<exists>more. accepted (tb_file b') = accepted (tb_file b) @ more" and "builder_entries k block' []"
    and "tb_status b' = OK" and "same_blocks b b'" and "unat (tb_offset b) < unat (tb_offset b')"
proof -
  note f = builder_finish [OF fits_smallD(1,2) [OF assms(5)] assms(6)]
  obtain c ty where c: "block_contents lib (opt_compression (tb_options b)) (build_block k es) = (c, ty)" by fastforce
  with assms(1) f(1) have w: "WriteRawBlock ops c ty b = (h, b')" and block': "block' = block_Reset (snd (block_Finish block))"
    by (auto simp: WriteBlock_def Let_def split: prod.splits)
  note rd = block_contents_read [OF assms(7) fits_smallD(3) [OF assms(5)] c]
  from WriteRawBlock_stored [OF w assms(2-4), of "build_block k es" lib] rd
  show "stored lib (accepted (tb_file b')) h (build_block k es)" "written b'" "bh_offset h = tb_offset b"
    "\<exists>more. accepted (tb_file b') = accepted (tb_file b) @ more" "unat (tb_offset b) < unat (tb_offset b')" by simp_all
  show "builder_entries k block' []" using f(2) block' by simp
  show "tb_status b' = OK" "same_blocks b b'" using WriteRawBlock_ok(4,5) [OF w assms(2)] by simp_all
qed

end

section \<open>The builder while entries are added\<close>

text \<open>
  An entry \<open>x\<close> behind the block \<open>blk\<close>, whose entry in the index is \<open>i\<close>: no key that falls between the block and its key in the
  index is of the \<open>same\<close> group of keys (that of a user key) as \<open>x\<close>.
\<close>

definition behind :: "(slice \<Rightarrow> 'k::linorder) \<Rightarrow> (slice \<Rightarrow> bool) \<Rightarrow> (slice \<Rightarrow> slice \<Rightarrow> bool) \<Rightarrow> entries \<Rightarrow>
    slice \<times> slice \<Rightarrow> slice \<times> slice \<Rightarrow> bool" where
  "behind key valid same blk i x \<longleftrightarrow> rank_of key i < rank_of key x
     \<and> (\<forall>c. valid c \<longrightarrow> (\<forall>y\<in>set blk. rank_of key y < key c) \<longrightarrow> key c \<le> rank_of key i \<longrightarrow> \<not> same c (fst x))"

text \<open>
  The index \<open>ix\<close> of the first blocks of \<open>bs\<close>, at the handles \<open>hs\<close>: its keys are not below those of their block, and
  below all that follow.
\<close>

definition separates :: "(slice \<Rightarrow> 'k::linorder) \<Rightarrow> (slice \<Rightarrow> bool) \<Rightarrow> (slice \<Rightarrow> slice \<Rightarrow> bool) \<Rightarrow>
    entries \<Rightarrow> block_handle list \<Rightarrow> entries list \<Rightarrow> entries \<Rightarrow> bool" where
  "separates key valid same ix hs bs cur \<longleftrightarrow> (\<forall>i<length ix. snd (ix ! i) = handle_bytes (hs ! i) \<and> valid (fst (ix ! i)) \<and> length (fst (ix ! i)) \<le> length (fst (last (bs ! i)))
     \<and> (\<forall>x\<in>set (bs ! i). rank_of key x \<le> rank_of key (ix ! i))
     \<and> (\<forall>x\<in>set (concat (drop (Suc i) bs) @ cur). behind key valid same (bs ! i) (ix ! i) x))"

definition table_sorted :: "(slice \<Rightarrow> 'k::linorder) \<Rightarrow> (slice \<Rightarrow> bool) \<Rightarrow> entries \<Rightarrow> bool" where
  "table_sorted key valid es \<longleftrightarrow> (\<forall>e\<in>set es. valid (fst e)) \<and> sorted_wrt (\<lambda>a b. rank_of key a < rank_of key b) es \<and> entries_room es < 2 ^ 30"

lemma index_room:
  assumes "separates key valid same ix hs bs cur" and "length ix = length bs" and "[] \<notin> set bs"
  shows "entries_room ix \<le> 2 * entries_room (concat bs)"
proof -
  have "entries_room (take n ix) \<le> 2 * entries_room (concat (take n bs))" if "n \<le> length bs" for n
    using that
  proof (induction n)
    case (Suc n)
    have "bs ! n \<in> set bs" using Suc.prems by simp
    with assms(3) have "bs ! n \<noteq> []" by metis
    then obtain ys y where y: "bs ! n = ys @ [y]" by (cases "bs ! n" rule: rev_cases) auto
    have "n < length ix" using assms(2) Suc.prems by simp
    with assms(1) have "length (fst (ix ! n)) \<le> length (fst (last (bs ! n)))" "snd (ix ! n) = handle_bytes (hs ! n)"
      unfolding separates_def by blast+
    then have "length (fst (ix ! n)) \<le> length (fst y)" "length (snd (ix ! n)) \<le> 20"
      using y handle_bytes_length(2) [of "hs ! n"] by simp_all
    then have "entries_room [ix ! n] \<le> 2 * entries_room (bs ! n)" by (simp add: y)
    with Suc assms(2) show ?case by (simp add: take_Suc_conv_app_nth)
  qed simp
  from this [of "length bs"] assms(2) show ?thesis by simp
qed

text \<open>A whole table file: where its blocks lie and what they hold.\<close>

definition metaindex_entries :: "table_options \<Rightarrow> block_handle \<Rightarrow> entries" where
  "metaindex_entries opts h = (case opt_filter_policy opts of None \<Rightarrow> [] | Some (name, pol) \<Rightarrow> [(filter_key name, handle_bytes h)])"

definition table_of :: "(slice \<Rightarrow> 'k::linorder) \<Rightarrow> (slice \<Rightarrow> bool) \<Rightarrow> (slice \<Rightarrow> slice \<Rightarrow> bool) \<Rightarrow> snappy option \<Rightarrow> table_options \<Rightarrow>
    entries list \<Rightarrow> block_handle list \<Rightarrow> entries \<Rightarrow> bytes \<Rightarrow> bool" where
  "table_of key valid same lib opts bs hs ix contents \<longleftrightarrow> (\<exists>pre mh ih fh off.
     [] \<notin> set bs \<and> length hs = length bs \<and> length ix = length bs \<and> separates key valid same ix hs bs []
     \<and> contents = pre @ footer_bytes \<lparr>metaindex_handle = mh, index_handle = ih\<rparr>
     \<and> (\<forall>i<length bs. stored lib contents (hs ! i) (build_block (nat (opt_block_restart_interval opts)) (bs ! i)))
     \<and> stored lib contents ih (build_block 1 ix)
     \<and> stored lib contents mh (build_block (nat (opt_block_restart_interval opts)) (metaindex_entries opts fh))
     \<and> (\<forall>name pol. opt_filter_policy opts = Some (name, pol) \<longrightarrow>
          stored None contents fh (build_filters pol (zip (map bh_offset hs) (map (map fst) bs) @ [(off, [])])))
     \<and> sorted_wrt (<) (map (unat \<circ> bh_offset) hs @ [unat off]))"

text \<open>What the options must be: the comparator, a restart interval, a name of the filter policy that a key has room for.\<close>

definition table_setup :: "comparator \<Rightarrow> snappy option \<Rightarrow> table_options \<Rightarrow> bool" where
  "table_setup cmp lib opts \<longleftrightarrow> snappy_ok lib \<and> opt_comparator opts = cmp \<and> 0 < opt_block_restart_interval opts
     \<and> (\<forall>name pol. opt_filter_policy opts = Some (name, pol) \<longrightarrow> length name < 2 ^ 31)"

lemma metaindex_fits:
  assumes "table_setup cmp lib opts"
  shows "fits_block (nat (opt_block_restart_interval opts)) (metaindex_entries opts h)"
proof (rule room_fits)
  show "0 < nat (opt_block_restart_interval opts)" using assms by (simp add: table_setup_def)
  have "length (handle_bytes h) \<le> 20" by (rule handle_bytes_length(2))
  moreover have "length (filter_key name) < 2 ^ 31 + 7" if "opt_filter_policy opts = Some (name, pol)" for name pol
    using assms that by (auto simp: table_setup_def filter_key_def)
  ultimately show "entries_room (metaindex_entries opts h) + 8 < 2 ^ 32"
    by (fastforce simp: metaindex_entries_def split: option.splits prod.splits)
qed

lemma block_in_table:
  assumes "table_sorted key valid (concat bs)" and "b \<in> set bs"
  shows "block_sorted key valid b" and "entries_room b < 2 ^ 30"
proof -
  obtain xs ys where "bs = xs @ b # ys" using split_list [OF assms(2)] by blast
  with assms(1) show "block_sorted key valid b" "entries_room b < 2 ^ 30"
    by (simp_all add: table_sorted_def block_sorted_def sorted_wrt_append ball_Un del: set_concat)
qed

locale table_writer = writable_file ops accepted durable + comparator_contract cmp valid key
  for ops :: "'f file_ops" and accepted durable cmp valid and key :: "slice \<Rightarrow> 'k::linorder" +
  fixes same :: "slice \<Rightarrow> slice \<Rightarrow> bool" and lib :: "snappy option" and opts :: table_options
  assumes separator_group: "valid a \<Longrightarrow> valid b \<Longrightarrow> valid c \<Longrightarrow> key a < key c \<Longrightarrow> key c \<le> key (FindShortestSeparator cmp a b) \<Longrightarrow>
      key a < key b \<Longrightarrow> \<not> same c b"
    and group_between: "valid a \<Longrightarrow> valid b \<Longrightarrow> valid c \<Longrightarrow> same a c \<Longrightarrow> key a \<le> key b \<Longrightarrow> key b \<le> key c \<Longrightarrow> same a b"
    and separator_shorter: "length (FindShortestSeparator cmp a b) \<le> length a"
    and successor_shorter: "length (FindShortSuccessor cmp a) \<le> length a"
begin

abbreviation K :: nat where
  "K \<equiv> nat (opt_block_restart_interval opts)"

lemma setupD:
  assumes "table_setup cmp lib opts"
  shows "0 < K" and "int K = opt_block_restart_interval opts" and "snappy_ok lib" and "opt_comparator opts = cmp"
    and "opt_filter_policy opts = Some (name, pol) \<Longrightarrow> length name < 2 ^ 31"
  using assms by (auto simp: table_setup_def)

text \<open>The filters so far: those of the blocks written, and the keys since.\<close>

definition filters_hold :: "'f table_builder \<Rightarrow> entries list \<Rightarrow> block_handle list \<Rightarrow> entries \<Rightarrow> bool" where
  "filters_hold b bs hs cur \<longleftrightarrow> tb_filter_block b = map_option (\<lambda>(name, pol). filter_block (tb_offset b, map fst cur)
     (fold filter_block (zip (map bh_offset hs) (map (map fst) bs)) (FilterBlockBuilder pol))) (opt_filter_policy opts)"

text \<open>The blocks \<open>bs\<close> are written at \<open>hs\<close>, the entries \<open>cur\<close> are in the data block, the index has \<open>ix\<close>.\<close>

definition tb_holds :: "'f table_builder \<Rightarrow> entries list \<Rightarrow> block_handle list \<Rightarrow> entries \<Rightarrow> entries \<Rightarrow> bool" where
  "tb_holds b bs hs cur ix \<longleftrightarrow> table_setup cmp lib opts \<and> tb_options b = opts \<and> tb_status b = OK \<and> written b \<and> length hs = length bs \<and> [] \<notin> set bs
     \<and> (\<forall>i<length bs. stored lib (accepted (tb_file b)) (hs ! i) (build_block K (bs ! i)))
     \<and> sorted_wrt (<) (map (unat \<circ> bh_offset) hs @ [unat (tb_offset b)])
     \<and> builder_entries K (tb_data_block b) cur \<and> builder_entries 1 (tb_index_block b) ix \<and> separates key valid same ix hs bs cur
     \<and> (if tb_pending_index_entry b then cur = [] \<and> length bs = Suc (length ix) \<and> tb_pending_handle b = last hs
        else length ix = length bs \<and> (bs \<noteq> [] \<longrightarrow> cur \<noteq> []))
     \<and> (concat bs @ cur \<noteq> [] \<longrightarrow> tb_last_key b = fst (last (concat bs @ cur)))
     \<and> filters_hold b bs hs cur"

lemma holds_setup: "tb_holds b bs hs cur ix \<Longrightarrow> table_setup cmp lib opts"
  by (simp add: tb_holds_def)

lemma new_holds: "table_setup cmp lib opts \<Longrightarrow> accepted f = [] \<Longrightarrow> tb_holds (TableBuilder opts f) [] [] [] []"
  using builder_new [of K] builder_new [of 1] setupD(2)
  by (auto simp: tb_holds_def TableBuilder_def written_def separates_def filters_hold_def filter_block_def split: prod.split)

lemma data_empty: "builder_entries k b es \<Longrightarrow> block_empty b \<longleftrightarrow> es = []"
  by (cases "length es") (auto simp: builder_entries_def block_empty_def entry_codes_def)

lemma Flush_nothing: "tb_holds b bs hs [] ix \<Longrightarrow> tb_Flush lib ops b = b"
  using data_empty [of K "tb_data_block b" "[]"] by (simp add: tb_Flush_def tb_holds_def)

lemma separates_block:
  assumes "separates key valid same ix hs bs cur" and "length ix \<le> length bs" and "length hs = length bs"
  shows "separates key valid same ix (hs @ [h]) (bs @ [cur]) []"
  using assms unfolding separates_def by (auto simp: nth_append)

lemma Flush_holds:
  assumes "tb_holds b bs hs cur ix" and "cur \<noteq> []" and "tb_ok (tb_Flush lib ops b)" and "entries_room cur < 2 ^ 30"
    and "length (accepted (tb_file (tb_Flush lib ops b))) < 2 ^ 64"
  shows "\<exists>h. tb_holds (tb_Flush lib ops b) (bs @ [cur]) (hs @ [h]) [] ix \<and> tb_pending_index_entry (tb_Flush lib ops b)"
proof -
  note su = setupD [OF holds_setup [OF assms(1)]]
  from assms(1,2) have b: "tb_options b = opts" "tb_status b = OK" "written b" "length hs = length bs" "[] \<notin> set bs"
    "\<And>i. i < length bs \<Longrightarrow> stored lib (accepted (tb_file b)) (hs ! i) (build_block K (bs ! i))"
    "sorted_wrt (<) (map (unat \<circ> bh_offset) hs @ [unat (tb_offset b)])"
    "builder_entries K (tb_data_block b) cur" "builder_entries 1 (tb_index_block b) ix" "separates key valid same ix hs bs cur"
    "\<not> tb_pending_index_entry b" "length ix = length bs" "tb_last_key b = fst (last (concat bs @ cur))" "filters_hold b bs hs cur"
    by (auto simp: tb_holds_def split: if_splits)
  obtain block h b1 where w: "WriteBlock lib ops (tb_data_block b) b = (block, h, b1)" by (metis prod_cases3)
  let ?b2 = "b1\<lparr>tb_data_block := block, tb_pending_handle := h\<rparr>"
  obtain s f where fl: "Flush ops (tb_file b1) = (s, f)" by fastforce
  let ?b3 = "if tb_ok ?b2 then ?b2\<lparr>tb_pending_index_entry := True, tb_status := s, tb_file := f\<rparr> else ?b2"
  have ne: "\<not> block_empty (tb_data_block b)" using data_empty [OF b(8)] assms(2) by simp
  have flush: "tb_Flush lib ops b = ?b3\<lparr>tb_filter_block := map_option (StartBlock (tb_offset b1)) (tb_filter_block b1)\<rparr>"
    using ne b(2) by (simp add: tb_Flush_def w fl tb_ok_def Let_def)
  with assms(3) have ok1: "tb_ok b1" "ok s" by (auto simp: tb_ok_def split: if_splits)
  note fo = flush_ok [OF fl ok1(2)]
  have acc: "accepted (tb_file (tb_Flush lib ops b)) = accepted (tb_file b1)" using ok1 fo by (simp add: flush tb_ok_def)
  with assms(5) have len: "length (accepted (tb_file b1)) < 2 ^ 64" by simp
  have "fits_block K cur" using assms(4) by (intro room_fits su(1)) simp
  note wb = WriteBlock_stored [OF w ok1(1) b(3) len this b(8) su(3)]
  obtain more where more: "accepted (tb_file b1) = accepted (tb_file b) @ more" using wb(4) by blast
  have st: "stored lib (accepted (tb_file b1)) ((hs @ [h]) ! i) (build_block K ((bs @ [cur]) ! i))" if "i < Suc (length bs)" for i
    using stored_append [OF b(6)] more len wb(1) b(4) that by (cases "i = length bs") (simp_all add: nth_append)
  have offs: "sorted_wrt (<) (map (unat \<circ> bh_offset) (hs @ [h]) @ [unat (tb_offset b1)])"
    using b(7) wb(3,8) by (auto simp: sorted_wrt_append intro: less_trans)
  have same: "same_blocks b b1" by (rule wb(7))
  have filt: "map_option (StartBlock (tb_offset b1)) (tb_filter_block b1) = map_option (\<lambda>(name, pol). filter_block (tb_offset b1, [])
      (fold filter_block (zip (map bh_offset (hs @ [h])) (map (map fst) (bs @ [cur]))) (FilterBlockBuilder pol))) (opt_filter_policy opts)"
    using b(4,14) wb(3) same by (cases "opt_filter_policy opts") (auto simp: filters_hold_def same_blocks_def filter_block_def)
  have "tb_holds (tb_Flush lib ops b) (bs @ [cur]) (hs @ [h]) [] ix"
    unfolding tb_holds_def flush using ok1 fo b wb st offs same assms(2) separates_block [OF b(10)] filt holds_setup [OF assms(1)]
    by (simp add: tb_ok_def same_blocks_def written_def ok_iff filters_hold_def)
  moreover have "tb_pending_index_entry (tb_Flush lib ops b)" using ok1 by (simp add: flush tb_ok_def)
  ultimately show ?thesis by blast
qed

lemma Flush_back:
  assumes "tb_ok (tb_Flush lib ops b)"
  shows "tb_ok b" and "\<exists>more. accepted (tb_file (tb_Flush lib ops b)) = accepted (tb_file b) @ more"
proof -
  have "tb_ok b \<and> (\<exists>more. accepted (tb_file (tb_Flush lib ops b)) = accepted (tb_file b) @ more)"
  proof (cases "\<not> tb_ok b \<or> block_empty (tb_data_block b)")
    case True
    with assms show ?thesis by (auto simp: tb_Flush_def)
  next
    case False
    obtain block h b1 where w: "WriteBlock lib ops (tb_data_block b) b = (block, h, b1)" by (metis prod_cases3)
    obtain s f where fl: "Flush ops (tb_file b1) = (s, f)" by fastforce
    let ?b2 = "b1\<lparr>tb_data_block := block, tb_pending_handle := h\<rparr>"
    let ?b3 = "if tb_ok ?b2 then ?b2\<lparr>tb_pending_index_entry := True, tb_status := s, tb_file := f\<rparr> else ?b2"
    have flush: "tb_Flush lib ops b = ?b3\<lparr>tb_filter_block := map_option (StartBlock (tb_offset b1)) (tb_filter_block b1)\<rparr>"
      using False by (simp add: tb_Flush_def w fl tb_ok_def Let_def)
    with assms have ok1: "tb_ok b1" "ok s" by (auto simp: tb_ok_def split: if_splits)
    obtain c ty where "WriteRawBlock ops c ty b = (h, b1)" using w by (auto simp: WriteBlock_def Let_def split: prod.splits)
    from WriteRawBlock_ok(1) [OF this ok1(1)] flush_ok [OF fl ok1(2)] False ok1 show ?thesis by (simp add: flush tb_ok_def)
  qed
  then show "tb_ok b" "\<exists>more. accepted (tb_file (tb_Flush lib ops b)) = accepted (tb_file b) @ more" by blast+
qed

text \<open>The entry of the index for a block that waits for it.\<close>

lemma separates_entry:
  assumes "separates key valid same ix hs bs []" and "length bs = Suc (length ix)" and "length hs = length bs"
    and "valid sep" and "length sep \<le> length (fst (last (last bs)))" and "\<forall>x\<in>set (last bs). rank_of key x \<le> key sep"
  shows "separates key valid same (ix @ [(sep, handle_bytes (last hs))]) hs bs []"
proof -
  have "bs ! length ix = last bs" "hs ! length ix = last hs" "bs \<noteq> []"
    using assms(2,3) by (cases bs rule: rev_cases; cases hs rule: rev_cases; simp add: nth_append)+
  moreover have "drop (Suc (length ix)) bs = []" using assms(2) by simp
  ultimately show ?thesis using assms unfolding separates_def by (auto simp: nth_append less_Suc_eq rank_of_def)
qed

lemma behind_later:
  assumes "behind key valid same blk i x" and "rank_of key x < rank_of key e" and "valid (fst x)" and "valid (fst e)"
  shows "behind key valid same blk i e"
  unfolding behind_def
proof (intro conjI allI impI)
  have ix: "rank_of key i < rank_of key x" using assms(1) by (simp add: behind_def)
  then show "rank_of key i < rank_of key e" using assms(2) by (rule less_trans)
  fix c
  assume c: "valid c" "\<forall>y\<in>set blk. rank_of key y < key c" "key c \<le> rank_of key i"
  with assms(1) have "\<not> same c (fst x)" by (simp add: behind_def)
  moreover have "key c \<le> key (fst x)" using c(3) ix by (simp add: rank_of_def)
  ultimately show "\<not> same c (fst e)" using group_between [OF c(1) assms(3,4)] assms(2) by (metis less_imp_le rank_of_def)
qed

lemma separates_snoc:
  assumes "separates key valid same ix hs bs cur" and "\<And>i. i < length ix \<Longrightarrow> behind key valid same (bs ! i) (ix ! i) e"
  shows "separates key valid same ix hs bs (cur @ [e])"
  using assms unfolding separates_def by auto

lemma last_block:
  assumes "[] \<notin> set bs" and "bs \<noteq> []"
  shows "last (concat bs) = last (last bs)" and "last bs \<noteq> []" and "last (concat bs) \<in> set (last bs)" and "set (last bs) \<subseteq> set (concat bs)"
proof -
  obtain xs x where x: "bs = xs @ [x]" using assms(2) by (cases bs rule: rev_cases) auto
  with assms(1) have "x \<noteq> []" by auto
  then show "last (concat bs) = last (last bs)" "last bs \<noteq> []" "last (concat bs) \<in> set (last bs)" "set (last bs) \<subseteq> set (concat bs)"
    by (simp_all add: x)
qed

lemma table_last:
  assumes "table_sorted key valid es" and "x \<in> set es"
  shows "rank_of key x \<le> rank_of key (last es)" and "valid (fst (last es))" and "length (fst (last es)) < 2 ^ 32"
proof -
  from assms(2) obtain ys y where y: "es = ys @ [y]" by (cases es rule: rev_cases) auto
  with assms show "rank_of key x \<le> rank_of key (last es)" by (auto simp: table_sorted_def sorted_wrt_append)
  show "valid (fst (last es))" "length (fst (last es)) < 2 ^ 32" using assms(1) by (simp_all add: y table_sorted_def)
qed

lemma pending_entry:
  assumes "tb_holds b bs hs cur ix" and "tb_pending_index_entry b" and "table_sorted key valid (concat bs)"
    and "valid sep" and "length sep \<le> length (tb_last_key b)" and "key (tb_last_key b) \<le> key sep"
  defines "b' \<equiv> add_index_entry sep b" and "ix' \<equiv> ix @ [(sep, handle_bytes (last hs))]"
  shows "separates key valid same ix' hs bs []" and "builder_entries 1 (tb_index_block b') ix'" and "length ix' = length bs"
    and "bs \<noteq> []" and "cur = []"
proof -
  from assms(1,2) have b: "length hs = length bs" "[] \<notin> set bs" "builder_entries 1 (tb_index_block b) ix" "separates key valid same ix hs bs cur"
    "cur = []" "length bs = Suc (length ix)" "tb_pending_handle b = last hs" "concat bs \<noteq> [] \<longrightarrow> tb_last_key b = fst (last (concat bs))"
    by (auto simp: tb_holds_def split: if_splits)
  then show "bs \<noteq> []" "cur = []" by auto
  note l = last_block [OF b(2) \<open>bs \<noteq> []\<close>]
  have lk: "tb_last_key b = fst (last (concat bs))" using b(8) l(3,4) by fastforce
  have lb: "last (concat bs) \<in> set (concat bs)" using l(3,4) by blast
  have sep': "length sep \<le> length (fst (last (last bs)))" using assms(5) by (simp add: lk l(1))
  have sep: "length sep < 2 ^ 32" using table_last(3) [OF assms(3) lb] assms(5) lk by simp
  have "rank_of key x \<le> key sep" if "x \<in> set (last bs)" for x
  proof -
    have "x \<in> set (concat bs)" using that l(4) by blast
    from table_last(1) [OF assms(3) this] assms(6) show ?thesis by (simp add: rank_of_def lk)
  qed
  show "separates key valid same ix' hs bs []"
    unfolding ix'_def using b(4,5) by (intro separates_entry) (use b assms(4) sep' \<open>\<And>x. x \<in> set (last bs) \<Longrightarrow> rank_of key x \<le> key sep\<close> in simp_all)
  have "length (handle_bytes (last hs)) < 2 ^ 32" using handle_bytes_length(2) [of "last hs"] by simp
  from builder_add [OF _ b(3) sep this]
  show "builder_entries 1 (tb_index_block b') ix'" by (simp add: b'_def ix'_def add_index_entry_def BlockHandle_EncodeTo_bytes b(7))
  show "length ix' = length bs" using b(6) by (simp add: ix'_def)
qed

lemma Add_holds:
  assumes "tb_holds b bs hs cur ix" and "table_sorted key valid (concat bs @ cur @ [(k, v)])"
    and "tb_ok (tb_Add lib ops k v b)" and "length (accepted (tb_file (tb_Add lib ops k v b))) < 2 ^ 64"
  shows "\<exists>bs' hs' cur' ix'. tb_holds (tb_Add lib ops k v b) bs' hs' cur' ix' \<and> concat bs' @ cur' = concat bs @ cur @ [(k, v)]"
proof -
  note su = setupD [OF holds_setup [OF assms(1)]]
  let ?e = "(k, v)"
  from assms(1) have b: "tb_options b = opts" "tb_status b = OK" "written b" "length hs = length bs" "[] \<notin> set bs"
    "\<forall>i<length bs. stored lib (accepted (tb_file b)) (hs ! i) (build_block K (bs ! i))"
    "sorted_wrt (<) (map (unat \<circ> bh_offset) hs @ [unat (tb_offset b)])"
    "builder_entries K (tb_data_block b) cur" "filters_hold b bs hs cur" "concat bs @ cur \<noteq> [] \<longrightarrow> tb_last_key b = fst (last (concat bs @ cur))"
    by (auto simp: tb_holds_def)
  have srt: "table_sorted key valid (concat bs)" "table_sorted key valid (concat bs @ cur)" "valid k" "length k < 2 ^ 32" "length v < 2 ^ 32"
    "\<And>x. x \<in> set (concat bs @ cur) \<Longrightarrow> rank_of key x < rank_of key ?e" "\<And>x. x \<in> set (concat bs @ cur) \<Longrightarrow> valid (fst x)"
    using assms(2) by (auto simp: table_sorted_def sorted_wrt_append rank_of_def)
  define b1 where "b1 = (if tb_pending_index_entry b
    then add_index_entry (FindShortestSeparator (opt_comparator (tb_options b)) (tb_last_key b) k) b else b)"
  have same1: "tb_options b1 = opts" "tb_status b1 = OK" "tb_file b1 = tb_file b" "tb_offset b1 = tb_offset b" "tb_data_block b1 = tb_data_block b"
    "tb_filter_block b1 = tb_filter_block b" "\<not> tb_pending_index_entry b1" using b(1,2) by (auto simp: b1_def add_index_entry_def)
  have "\<exists>ix'. builder_entries 1 (tb_index_block b1) ix' \<and> length ix' = length bs \<and> separates key valid same ix' hs bs (cur @ [?e])"
  proof (cases "tb_pending_index_entry b")
    case True
    let ?sep = "FindShortestSeparator cmp (tb_last_key b) k"
    have bs: "cur = []" "bs \<noteq> []" using assms(1) True by (auto simp: tb_holds_def)
    note l = last_block [OF b(5) bs(2)]
    have lk: "tb_last_key b = fst (last (concat bs))" using b(10) l(3,4) bs(1) by fastforce
    have lb: "last (concat bs) \<in> set (concat bs)" using l(3,4) by blast
    have lst: "valid (tb_last_key b)" "key (tb_last_key b) < key k"
      using table_last(2) [OF srt(1) lb] srt(6) [of "last (concat bs)"] lb lk by (simp_all add: rank_of_def del: set_concat)
    note sp = separator [OF lst(1) srt(3) lst(2)]
    note pe = pending_entry [OF assms(1) True srt(1) sp [THEN conjunct1] separator_shorter]
    have le: "key (tb_last_key b) \<le> key ?sep" using sp by blast
    have "separates key valid same (ix @ [(?sep, handle_bytes (last hs))]) hs bs ([] @ [?e])"
    proof (rule separates_snoc [OF pe(1) [OF le]])
      fix i
      assume "i < length (ix @ [(?sep, handle_bytes (last hs))])"
      then consider "i < length ix" | "i = length ix" by fastforce
      then show "behind key valid same (bs ! i) ((ix @ [(?sep, handle_bytes (last hs))]) ! i) ?e"
      proof cases
        case 1
        have si: "Suc i < length bs" using assms(1) True 1 by (auto simp: tb_holds_def)
        then have "last (drop (Suc i) bs) \<in> set (drop (Suc i) bs)" by (intro last_in_set) simp
        then have "last bs \<in> set (drop (Suc i) bs)" using last_drop [OF si] by simp
        then have "last (last bs) \<in> set (concat (drop (Suc i) bs))" using last_in_set [OF l(2)] by (auto intro: bexI [of _ "last bs"])
        then have bh: "behind key valid same (bs ! i) (ix ! i) (last (last bs))" using assms(1) 1 by (auto simp: tb_holds_def separates_def)
        have lm: "last (last bs) \<in> set (concat bs @ cur)" using l(1,3,4) unfolding set_append by (simp only: Un_iff) blast
        from behind_later [OF bh srt(6) [OF lm] srt(7) [OF lm]] srt(3) show ?thesis using 1 by (simp add: nth_append)
      next
        case 2
        have "bs ! length ix = last bs" using assms(1) True bs(2) by (auto simp: tb_holds_def last_conv_nth)
        moreover have "key (tb_last_key b) < key c" if "\<forall>y\<in>set (last bs). rank_of key y < key c" for c
          using that l(1,3) lk by (auto simp: rank_of_def)
        ultimately show ?thesis
          using 2 sp separator_group [OF lst(1) srt(3) _ _ _ lst(2)] by (auto simp: behind_def rank_of_def)
      qed
    qed
    with pe(2,3) [OF le] bs(1) show ?thesis using True b(1) by (auto simp: b1_def su(4))
  next
    case False
    with assms(1) have f: "length ix = length bs" "bs \<noteq> [] \<longrightarrow> cur \<noteq> []" "separates key valid same ix hs bs cur" "builder_entries 1 (tb_index_block b) ix"
      by (auto simp: tb_holds_def)
    have "separates key valid same ix hs bs (cur @ [?e])"
    proof (rule separates_snoc [OF f(3)])
      fix i
      assume i: "i < length ix"
      then have "cur \<noteq> []" using f(1,2) by auto
      then have "last cur \<in> set cur" by simp
      with f(3) i have bh: "behind key valid same (bs ! i) (ix ! i) (last cur)" by (auto simp: separates_def)
      have lm: "last cur \<in> set (concat bs @ cur)" using \<open>last cur \<in> set cur\<close> by simp
      from behind_later [OF bh srt(6) [OF lm] srt(7) [OF lm]] srt(3) show "behind key valid same (bs ! i) (ix ! i) ?e" by simp
    qed
    with f False show ?thesis by (auto simp: b1_def)
  qed
  then obtain ix' where ix': "builder_entries 1 (tb_index_block b1) ix'" "length ix' = length bs" "separates key valid same ix' hs bs (cur @ [?e])" by blast
  define b2 where "b2 = b1\<lparr>tb_filter_block := map_option (AddKey k) (tb_filter_block b1), tb_last_key := k,
                  tb_num_entries := tb_num_entries b1 + 1, tb_data_block := block_Add k v (tb_data_block b1)\<rparr>"
  have filt: "map_option (AddKey k) (tb_filter_block b) = map_option (\<lambda>(name, pol). filter_block (tb_offset b, map fst (cur @ [?e]))
     (fold filter_block (zip (map bh_offset hs) (map (map fst) bs)) (FilterBlockBuilder pol))) (opt_filter_policy opts)"
    using b(9) by (cases "opt_filter_policy opts") (auto simp: filters_hold_def filter_block_def)
  have h2: "tb_holds b2 bs hs (cur @ [?e]) ix'"
    unfolding tb_holds_def b2_def using b ix' same1 builder_add [OF su(1) b(8) srt(4,5)] filt holds_setup [OF assms(1)]
    by (simp add: written_def filters_hold_def)
  have add: "tb_Add lib ops k v b = (if CurrentSizeEstimate (tb_data_block b2) \<ge> opt_block_size (tb_options b2) then tb_Flush lib ops b2 else b2)"
    using b(2) by (simp add: tb_Add_def tb_ok_def Let_def b1_def b2_def)
  show ?thesis
  proof (cases "CurrentSizeEstimate (tb_data_block b2) \<ge> opt_block_size (tb_options b2)")
    case True
    then have fl: "tb_Add lib ops k v b = tb_Flush lib ops b2" using add by simp
    have "entries_room (cur @ [?e]) < 2 ^ 30" using assms(2) by (simp add: table_sorted_def)
    from Flush_holds [OF h2 _ _ this] assms(3,4) fl obtain h where "tb_holds (tb_Flush lib ops b2) (bs @ [cur @ [?e]]) (hs @ [h]) [] ix'" by auto
    then show ?thesis unfolding fl by (intro exI [of _ "bs @ [cur @ [?e]]"] exI [of _ "hs @ [h]"] exI [of _ "[]"] exI [of _ ix']) simp
  next
    case False
    with add h2 show ?thesis by (intro exI [of _ bs] exI [of _ hs] exI [of _ "cur @ [?e]"] exI [of _ ix']) simp
  qed
qed

lemma Add_back:
  assumes "tb_ok (tb_Add lib ops k v b)"
  shows "tb_ok b" and "\<exists>more. accepted (tb_file (tb_Add lib ops k v b)) = accepted (tb_file b) @ more"
proof -
  show ok: "tb_ok b" using assms by (auto simp: tb_Add_def split: if_splits)
  define b1 where "b1 = (if tb_pending_index_entry b
    then add_index_entry (FindShortestSeparator (opt_comparator (tb_options b)) (tb_last_key b) k) b else b)"
  define b2 where "b2 = b1\<lparr>tb_filter_block := map_option (AddKey k) (tb_filter_block b1), tb_last_key := k,
                  tb_num_entries := tb_num_entries b1 + 1, tb_data_block := block_Add k v (tb_data_block b1)\<rparr>"
  have "tb_Add lib ops k v b = (if CurrentSizeEstimate (tb_data_block b2) \<ge> opt_block_size (tb_options b2) then tb_Flush lib ops b2 else b2)"
    using ok by (simp add: tb_Add_def Let_def b1_def b2_def)
  moreover have "tb_file b2 = tb_file b" by (simp add: b2_def b1_def add_index_entry_def)
  ultimately show "\<exists>more. accepted (tb_file (tb_Add lib ops k v b)) = accepted (tb_file b) @ more"
    using Flush_back(2) [of b2] assms by (auto split: if_splits)
qed

lemma Adds_hold:
  assumes "table_setup cmp lib opts" and "accepted f = []" and "table_sorted key valid es"
  defines "b \<equiv> fold (\<lambda>(key, val). tb_Add lib ops key val) es (TableBuilder opts f)"
  assumes "tb_ok b" and "length (accepted (tb_file b)) < 2 ^ 64"
  shows "\<exists>bs hs cur ix. tb_holds b bs hs cur ix \<and> concat bs @ cur = es"
  using assms(3,5,6) unfolding b_def
proof (induction es rule: rev_induct)
  case Nil
  show ?case using new_holds [OF assms(1,2)] by (intro exI [of _ "[]"]) simp
next
  case (snoc e es)
  let ?b = "fold (\<lambda>(key, val). tb_Add lib ops key val) es (TableBuilder opts f)"
  obtain k v where e: "e = (k, v)" by fastforce
  from snoc.prems(2) have ok: "tb_ok (tb_Add lib ops k v ?b)" by (simp add: e)
  note bk = Add_back [OF ok]
  have "length (accepted (tb_file ?b)) < 2 ^ 64" using bk(2) snoc.prems(3) by (auto simp: e)
  moreover have "table_sorted key valid es" using snoc.prems(1) by (simp add: table_sorted_def sorted_wrt_append)
  ultimately obtain bs hs cur ix where h: "tb_holds ?b bs hs cur ix" "concat bs @ cur = es" using snoc.IH bk(1) by blast
  then have "concat bs @ cur @ [(k, v)] = es @ [e]" by (simp add: e)
  with Add_holds [OF h(1) _ ok] snoc.prems(1,3) show ?case by (simp add: e)
qed

lemma WriteBlock_grows:
  assumes "WriteBlock lib ops block b = (block', h, b')" and "tb_ok b'"
  shows "\<exists>more. accepted (tb_file b') = accepted (tb_file b) @ more"
proof -
  obtain c ty where "WriteRawBlock ops c ty b = (h, b')" using assms(1) by (auto simp: WriteBlock_def Let_def split: prod.splits)
  from WriteRawBlock_ok(1) [OF this assms(2)] show ?thesis by simp
qed

text \<open>No step takes anything out of the file.\<close>

lemma WriteFilterBlock_grows:
  assumes "WriteFilterBlock ops b = (h, b')" and "tb_ok b'"
  shows "length (accepted (tb_file b)) \<le> length (accepted (tb_file b'))"
proof (cases "tb_ok b \<and> tb_filter_block b \<noteq> None")
  case True
  then obtain c f where "WriteRawBlock ops c kNoCompression (b\<lparr>tb_filter_block := Some f\<rparr>) = (h, b')"
    using assms(1) by (auto simp: WriteFilterBlock_def split: prod.splits)
  from WriteRawBlock_ok(1) [OF this assms(2)] show ?thesis by simp
next
  case False
  with assms show ?thesis by (auto simp: WriteFilterBlock_def split: bool.splits)
qed

lemma WriteMetaindexBlock_grows:
  assumes "WriteMetaindexBlock lib ops fh b = (h, b')" and "tb_ok b'"
  shows "length (accepted (tb_file b)) \<le> length (accepted (tb_file b'))"
proof -
  have "tb_ok b" using assms by (cases "tb_ok b") (auto simp: WriteMetaindexBlock_def)
  with assms(1) obtain mb blk where "WriteBlock lib ops mb b = (blk, h, b')"
    by (auto simp: WriteMetaindexBlock_def Let_def split: prod.splits)
  from WriteBlock_grows [OF this assms(2)] show ?thesis by auto
qed

lemma WriteIndexBlock_grows:
  assumes "WriteIndexBlock lib ops b = (h, b')" and "tb_ok b'"
  shows "length (accepted (tb_file b)) \<le> length (accepted (tb_file b'))"
proof -
  have ok: "tb_ok b" using assms by (cases "tb_ok b") (auto simp: WriteIndexBlock_def)
  define bi where "bi = (if tb_pending_index_entry b
    then add_index_entry (FindShortSuccessor (opt_comparator (tb_options b)) (tb_last_key b)) b else b)"
  obtain blk bw where "WriteBlock lib ops (tb_index_block bi) bi = (blk, h, bw)" "b' = bw\<lparr>tb_index_block := blk\<rparr>"
    using assms(1) ok by (auto simp: WriteIndexBlock_def Let_def bi_def split: prod.splits)
  moreover have "tb_file bi = tb_file b" by (simp add: bi_def add_index_entry_def)
  ultimately show ?thesis using WriteBlock_grows [of _ _ _ _ bw] assms(2) by (fastforce simp: tb_ok_def)
qed

lemma WriteFooter_grows:
  assumes "WriteFooter ops mh ih b = b'" and "tb_ok b'"
  shows "length (accepted (tb_file b)) \<le> length (accepted (tb_file b'))"
proof (cases "tb_ok b")
  case True
  obtain s f where foot: "Append ops (tb_file b) (Footer_EncodeTo \<lparr>metaindex_handle = mh, index_handle = ih\<rparr> []) = (s, f)" by fastforce
  have "ok s \<and> tb_file b' = f" using assms True foot by (auto simp: WriteFooter_def Let_def tb_ok_def split: if_splits)
  with append_ok [OF foot] show ?thesis by simp
qed (use assms in \<open>simp add: WriteFooter_def\<close>)

lemma holds_closed: "tb_holds (b\<lparr>tb_closed := c\<rparr>) = tb_holds b"
  by (intro ext) (simp add: tb_holds_def written_def filters_hold_def)

text \<open>The blocks behind the data.\<close>

lemma Finish_blocks:
  assumes "tb_holds b bs hs [] ix" and "table_sorted key valid (concat bs)"
    and "WriteFilterBlock ops b = (fh, b1)" and "WriteMetaindexBlock lib ops fh b1 = (mh, b2)" and "WriteIndexBlock lib ops b2 = (ih, b3)"
    and "WriteFooter ops mh ih b3 = b4" and "tb_ok b4" and "length (accepted (tb_file b4)) < 2 ^ 64"
  shows "\<exists>ix. table_of key valid same lib opts bs hs ix (accepted (tb_file b4))"
proof -
  note su = setupD [OF holds_setup [OF assms(1)]]
  from assms(1) have b: "tb_options b = opts" "tb_status b = OK" "written b" "length hs = length bs" "[] \<notin> set bs"
    "\<And>i. i < length bs \<Longrightarrow> stored lib (accepted (tb_file b)) (hs ! i) (build_block K (bs ! i))"
    "sorted_wrt (<) (map (unat \<circ> bh_offset) hs @ [unat (tb_offset b)])"
    "builder_entries 1 (tb_index_block b) ix" "separates key valid same ix hs bs []" "filters_hold b bs hs []"
    "concat bs \<noteq> [] \<longrightarrow> tb_last_key b = fst (last (concat bs))"
    by (auto simp: tb_holds_def)
  txt \<open>No step failed, so each wrote behind the one before.\<close>
  have ok3: "tb_ok b3" using assms(6,7) by (cases "tb_ok b3") (auto simp: WriteFooter_def)
  have ok2: "tb_ok b2" using assms(5) ok3 by (cases "tb_ok b2") (auto simp: WriteIndexBlock_def)
  have ok1: "tb_ok b1" using assms(4) ok2 by (cases "tb_ok b1") (auto simp: WriteMetaindexBlock_def)
  have ok0: "tb_ok b" using b(2) by (simp add: tb_ok_def)
  obtain s f where foot: "Append ops (tb_file b3) (footer_bytes \<lparr>metaindex_handle = mh, index_handle = ih\<rparr>) = (s, f)" by fastforce
  have "ok s \<and> tb_file b4 = f" using assms(6,7) ok3 foot by (auto simp: WriteFooter_def Let_def footer_bytes_def tb_ok_def split: if_splits)
  then have a4: "accepted (tb_file b4) = accepted (tb_file b3) @ footer_bytes \<lparr>metaindex_handle = mh, index_handle = ih\<rparr>"
    using append_ok [OF foot] by simp
  define bi where "bi = (if tb_pending_index_entry b2
    then add_index_entry (FindShortSuccessor (opt_comparator (tb_options b2)) (tb_last_key b2)) b2 else b2)"
  obtain blk bw where wi: "WriteBlock lib ops (tb_index_block bi) bi = (blk, ih, bw)" "b3 = bw\<lparr>tb_index_block := blk\<rparr>"
    using assms(5) ok2 by (auto simp: WriteIndexBlock_def Let_def bi_def split: prod.splits)
  have okw: "tb_ok bw" "tb_file b3 = tb_file bw" using ok3 wi(2) by (simp_all add: tb_ok_def)
  have bi: "tb_file bi = tb_file b2" "tb_offset bi = tb_offset b2" by (simp_all add: bi_def add_index_entry_def)
  obtain m3 where m3: "accepted (tb_file bw) = accepted (tb_file b2) @ m3" using WriteBlock_grows [OF wi(1) okw(1)] by (auto simp: bi(1))
  define mb where "mb = (case (tb_filter_block b1, opt_filter_policy (tb_options b1)) of
      (Some _, Some (name, policy)) \<Rightarrow> block_Add (filter_key name) (BlockHandle_EncodeTo fh []) (BlockBuilder (opt_block_restart_interval (tb_options b1)))
    | _ \<Rightarrow> BlockBuilder (opt_block_restart_interval (tb_options b1)))"
  obtain blk' where wm: "WriteBlock lib ops mb b1 = (blk', mh, b2)"
    using assms(4) ok1 by (auto simp: WriteMetaindexBlock_def Let_def mb_def split: prod.splits)
  obtain m2 where m2: "accepted (tb_file b2) = accepted (tb_file b1) @ m2" using WriteBlock_grows [OF wm ok2] by blast
  have len: "length (accepted (tb_file b3)) < 2 ^ 64" "length (accepted (tb_file b2)) < 2 ^ 64" "length (accepted (tb_file b1)) < 2 ^ 64"
    using assms(8) a4 m3 m2 okw(2) by simp_all
  txt \<open>The filter.\<close>
  have filt: "written b1 \<and> tb_options b1 = opts \<and> tb_index_block b1 = tb_index_block b \<and> tb_last_key b1 = tb_last_key b
      \<and> tb_pending_index_entry b1 = tb_pending_index_entry b \<and> tb_pending_handle b1 = tb_pending_handle b
      \<and> (tb_filter_block b1 = None \<longleftrightarrow> opt_filter_policy opts = None) \<and> (\<exists>m1. accepted (tb_file b1) = accepted (tb_file b) @ m1)
      \<and> (\<forall>name pol. opt_filter_policy opts = Some (name, pol) \<longrightarrow> stored None (accepted (tb_file b1)) fh
          (build_filters pol (zip (map bh_offset hs) (map (map fst) bs) @ [(tb_offset b, [])])))"
  proof (cases "opt_filter_policy opts")
    case None
    then have "tb_filter_block b = None" using b(10) by (simp add: filters_hold_def)
    then have "b1 = b" using assms(3) by (auto simp: WriteFilterBlock_def split: bool.splits)
    with b(1,3) None \<open>tb_filter_block b = None\<close> show ?thesis by simp
  next
    case (Some np)
    then obtain name pol where np: "opt_filter_policy opts = Some (name, pol)" by (cases np) auto
    let ?fb = "fold filter_block (zip (map bh_offset hs) (map (map fst) bs) @ [(tb_offset b, [])]) (FilterBlockBuilder pol)"
    have fb: "tb_filter_block b = Some ?fb" using b(10) np by (simp add: filters_hold_def)
    obtain c fb' where fin: "filter_Finish ?fb = (c, fb')" by fastforce
    let ?b = "b\<lparr>tb_filter_block := Some fb'\<rparr>"
    have w: "WriteRawBlock ops c kNoCompression ?b = (fh, b1)" using assms(3) ok0 fb fin by (simp add: WriteFilterBlock_def)
    have "written ?b" using b(3) by (simp add: written_def)
    from WriteRawBlock_stored [OF w ok1 this len(3), of c None] WriteRawBlock_ok(5) [OF w ok1] fin np b(1)
    show ?thesis by (simp add: type_byte_def same_blocks_def build_filters_def)
  qed
  then obtain m1 where m1: "accepted (tb_file b1) = accepted (tb_file b) @ m1" by blast
  txt \<open>The metaindex.\<close>
  have mbe: "builder_entries K mb (metaindex_entries opts fh)" and mbs: "fits_block K (metaindex_entries opts fh)"
  proof -
    show "fits_block K (metaindex_entries opts fh)" by (rule metaindex_fits [OF holds_setup [OF assms(1)]])
    have h: "length (handle_bytes fh) \<le> 20" by (rule handle_bytes_length(2))
    have "length (filter_key name) < 2 ^ 32" if "opt_filter_policy opts = Some (name, pol)" for name pol
      using su(5) [OF that] by (simp add: filter_key_def)
    with h show "builder_entries K mb (metaindex_entries opts fh)"
      using builder_new [of K] builder_add [OF su(1) builder_new, of "filter_key name" "handle_bytes fh" for name] su(2) filt
      by (auto simp: mb_def metaindex_entries_def BlockHandle_EncodeTo_bytes split: option.splits prod.splits)
  qed
  note sm = WriteBlock_stored [OF wm ok2 conjunct1 [OF filt] len(2) mbs mbe su(3)]
  have same2: "tb_options b2 = opts" "tb_index_block b2 = tb_index_block b" "tb_last_key b2 = tb_last_key b"
    "tb_pending_index_entry b2 = tb_pending_index_entry b" "tb_pending_handle b2 = tb_pending_handle b"
    using sm(7) filt by (simp_all add: same_blocks_def)
  txt \<open>The index.\<close>
  have "\<exists>ix'. builder_entries 1 (tb_index_block bi) ix' \<and> length ix' = length bs \<and> separates key valid same ix' hs bs []"
  proof (cases "tb_pending_index_entry b")
    case True
    then have ne: "bs \<noteq> []" using assms(1) by (auto simp: tb_holds_def)
    note l = last_block [OF b(5) ne]
    have lb: "last (concat bs) \<in> set (concat bs)" using l(3,4) by blast
    then have "tb_last_key b = fst (last (concat bs))" using b(11) by (metis empty_iff list.set(1))
    with table_last(2) [OF assms(2) lb] have "valid (tb_last_key b)" by simp
    note sc = successor [OF this]
    note pe = pending_entry [OF assms(1) True assms(2) sc [THEN conjunct1] successor_shorter sc [THEN conjunct2]]
    have "tb_index_block bi = tb_index_block (add_index_entry (FindShortSuccessor cmp (tb_last_key b)) b)"
      using True same2 by (simp add: bi_def add_index_entry_def su(4))
    with pe(1-3) show ?thesis by metis
  next
    case False
    then have "length ix = length bs" using assms(1) by (simp add: tb_holds_def)
    with b(8,9) False same2 show ?thesis by (auto simp: bi_def)
  qed
  then obtain ix' where ix': "builder_entries 1 (tb_index_block bi) ix'" "length ix' = length bs" "separates key valid same ix' hs bs []" by blast
  have ixs: "fits_block 1 ix'"
    using index_room [OF ix'(3,2) b(5)] assms(2) by (intro room_fits) (simp_all add: table_sorted_def)
  have wbi: "written bi" using sm(2) bi by (simp add: written_def)
  note si = WriteBlock_stored [OF wi(1) okw(1) wbi len(1) [unfolded okw(2)] ixs ix'(1) su(3), simplified]
  let ?F = "accepted (tb_file b4)"
  have F: "?F = accepted (tb_file bw) @ footer_bytes \<lparr>metaindex_handle = mh, index_handle = ih\<rparr>" using a4 okw(2) by simp
  have st: "stored lib' ?F h d" if "stored lib' (accepted (tb_file bx)) h d" "accepted (tb_file bw) = accepted (tb_file bx) @ m" for lib' bx h d m
    using stored_append [OF that(1), of "m @ footer_bytes \<lparr>metaindex_handle = mh, index_handle = ih\<rparr>"] that(2) assms(8) by (simp add: F)
  have "stored lib ?F (hs ! i) (build_block K (bs ! i))" if "i < length bs" for i
    using st [OF b(6) [OF that]] m1 m2 m3 by simp
  moreover have "stored lib ?F ih (build_block 1 ix')" using st [OF si(1)] by simp
  moreover have "stored lib ?F mh (build_block K (metaindex_entries opts fh))" using st [OF sm(1)] m3 by simp
  moreover have "stored None ?F fh (build_filters pol (zip (map bh_offset hs) (map (map fst) bs) @ [(tb_offset b, [])]))"
    if "opt_filter_policy opts = Some (name, pol)" for name pol
    using st [of None b1 fh] filt that m2 m3 by auto
  ultimately have "table_of key valid same lib opts bs hs ix' ?F"
    unfolding table_of_def using b(4,5,7) ix'(2,3) F
    by (intro exI [of _ "accepted (tb_file bw)"] exI [of _ mh] exI [of _ ih] exI [of _ fh] exI [of _ "tb_offset b"]) auto
  then show ?thesis by blast
qed

text \<open>A table that was built without an error.\<close>

lemma build_table_of:
  assumes "accepted f = []" and "table_sorted key valid es" and "build_table lib ops opts es f = (s, b)" and "ok s"
    and "length (accepted (tb_file b)) < 2 ^ 64" and "table_setup cmp lib opts"
  obtains bs hs ix where "table_of key valid same lib opts bs hs ix (accepted (tb_file b))" and "concat bs = es"
proof -
  define b0 where "b0 = fold (\<lambda>(key, val). tb_Add lib ops key val) es (TableBuilder opts f)"
  define bf where "bf = (tb_Flush lib ops b0)\<lparr>tb_closed := True\<rparr>"
  obtain fh b1 where w1: "WriteFilterBlock ops bf = (fh, b1)" by fastforce
  obtain mh b2 where w2: "WriteMetaindexBlock lib ops fh b1 = (mh, b2)" by fastforce
  obtain ih b3 where w3: "WriteIndexBlock lib ops b2 = (ih, b3)" by fastforce
  have w4: "WriteFooter ops mh ih b3 = b" and s: "s = tb_status b"
    using assms(3) w1 w2 w3 by (auto simp: build_table_def tb_Finish_def b0_def [symmetric] bf_def [symmetric] Let_def)
  have ok: "tb_ok b" using assms(4) s by (simp add: tb_ok_def)
  have ok3: "tb_ok b3" using w4 ok by (cases "tb_ok b3") (auto simp: WriteFooter_def)
  have ok2: "tb_ok b2" using w3 ok3 by (cases "tb_ok b2") (auto simp: WriteIndexBlock_def)
  have ok1: "tb_ok b1" using w2 ok2 by (cases "tb_ok b1") (auto simp: WriteMetaindexBlock_def)
  have "tb_ok bf" using w1 ok1 by (cases "tb_ok bf") (auto simp: WriteFilterBlock_def)
  then have okf: "tb_ok (tb_Flush lib ops b0)" by (simp add: bf_def tb_ok_def)
  note bk = Flush_back [OF okf]
  have "length (accepted (tb_file bf)) \<le> length (accepted (tb_file b1))" using WriteFilterBlock_grows [OF w1 ok1] .
  also have "\<dots> \<le> length (accepted (tb_file b2))" using WriteMetaindexBlock_grows [OF w2 ok2] .
  also have "\<dots> \<le> length (accepted (tb_file b3))" using WriteIndexBlock_grows [OF w3 ok3] .
  also have "\<dots> \<le> length (accepted (tb_file b))" using WriteFooter_grows [OF w4 ok] .
  finally have lenf: "length (accepted (tb_file (tb_Flush lib ops b0))) < 2 ^ 64" using assms(5) by (simp add: bf_def)
  then have len0: "length (accepted (tb_file b0)) < 2 ^ 64" using bk(2) by auto
  obtain bs hs cur ix where h: "tb_holds b0 bs hs cur ix" and es: "concat bs @ cur = es"
    using Adds_hold [OF assms(6,1,2), folded b0_def, OF bk(1) len0] by blast
  have "\<exists>bs' hs'. tb_holds bf bs' hs' [] ix \<and> concat bs' = es"
  proof (cases "cur = []")
    case True
    with Flush_nothing h es show ?thesis by (auto simp: bf_def holds_closed intro!: exI [of _ bs])
  next
    case False
    have "entries_room cur < 2 ^ 30" using assms(2) by (auto simp: table_sorted_def es [symmetric])
    from Flush_holds [OF h False okf this lenf] es show ?thesis by (auto simp: bf_def holds_closed intro!: exI [of _ "bs @ [cur]"])
  qed
  then obtain bs' hs' where h': "tb_holds bf bs' hs' [] ix" and es': "concat bs' = es" by blast
  from Finish_blocks [OF h' _ w1 w2 w3 w4 ok assms(5)] es' assms(2) that show thesis by blast
qed

end

end
