(* ===== verification/Ldb_TwoLevel.thy ===== *)
theory Ldb_TwoLevel
  imports Ldb_Merger
begin

text \<open>
  \<open>leveldb-library/table/two_level_iterator.cc\<close>: an iterator over the blocks that the values of an index iterator
  stand for. It keeps what the interface promises if the index and the iterators of the blocks do, and the keys
  of the index separate the blocks.
\<close>

section \<open>The code\<close>

text \<open>\<open>bf\<close> is \<open>block_function_\<close> with its first two arguments; it has no result where it reads what it may not.\<close>

record ('i, 'd) two_level =
  tl_index :: "'i wrapper"
  tl_data :: "'d wrapper"
  tl_handle :: slice
  tl_status :: status

definition TwoLevelIterator :: "'i iterator_class \<Rightarrow> 'i \<Rightarrow> ('i, 'd) two_level" where
  "TwoLevelIterator iops index_iter =
     \<lparr>tl_index = wr_Set iops (Some index_iter) IteratorWrapper, tl_data = IteratorWrapper, tl_handle = [], tl_status = OK\<rparr>"

definition SaveError :: "status \<Rightarrow> ('i, 'd) two_level \<Rightarrow> ('i, 'd) two_level" where
  "SaveError s t = (if ok (tl_status t) \<and> \<not> ok s then t\<lparr>tl_status := s\<rparr> else t)"

definition SetDataIterator :: "'d iterator_class \<Rightarrow> 'd option \<Rightarrow> ('i, 'd) two_level \<Rightarrow> ('i, 'd) two_level" where
  "SetDataIterator dops data_iter t =
     (let t = (if wr_iter (tl_data t) \<noteq> None then SaveError (wr_status dops (tl_data t)) t else t)
      in t\<lparr>tl_data := wr_Set dops data_iter (tl_data t)\<rparr>)"

definition InitDataBlock :: "'i iterator_class \<Rightarrow> 'd iterator_class \<Rightarrow> (slice \<Rightarrow> 'd option) \<Rightarrow>
    ('i, 'd) two_level \<Rightarrow> ('i, 'd) two_level option" where
  "InitDataBlock iops dops bf t =
     (if \<not> wr_valid (tl_index t) then Some (SetDataIterator dops None t)
      else
        let handle = wr_value iops (tl_index t) in
        if wr_iter (tl_data t) \<noteq> None \<and> handle = tl_handle t then Some t
        else map_option (\<lambda>d. SetDataIterator dops (Some d) (t\<lparr>tl_handle := handle\<rparr>)) (bf handle))"

text \<open>A call of the index iterator, and one of the data iterator if there is one.\<close>

definition on_index :: "'i iterator_class \<Rightarrow> ('i \<Rightarrow> 'i option) \<Rightarrow> ('i, 'd) two_level \<Rightarrow> ('i, 'd) two_level option" where
  "on_index iops f t = map_option (\<lambda>w. t\<lparr>tl_index := w\<rparr>) (wr_call iops f (tl_index t))"

definition on_data :: "'d iterator_class \<Rightarrow> ('d \<Rightarrow> 'd option) \<Rightarrow> ('i, 'd) two_level \<Rightarrow> ('i, 'd) two_level option" where
  "on_data dops f t =
     (if wr_iter (tl_data t) \<noteq> None then map_option (\<lambda>w. t\<lparr>tl_data := w\<rparr>) (wr_call dops f (tl_data t)) else Some t)"

text \<open>The two loops differ in how they move the index and enter a block.\<close>

partial_function (option) skip_empty :: "'i iterator_class \<Rightarrow> 'd iterator_class \<Rightarrow> (slice \<Rightarrow> 'd option) \<Rightarrow>
    ('i \<Rightarrow> 'i option) \<Rightarrow> ('d \<Rightarrow> 'd option) \<Rightarrow> ('i, 'd) two_level \<Rightarrow> ('i, 'd) two_level option" where
  "skip_empty iops dops bf move enter t =
     (if wr_iter (tl_data t) = None \<or> \<not> wr_valid (tl_data t) then
        if \<not> wr_valid (tl_index t) then Some (SetDataIterator dops None t)
        else Option.bind (on_index iops move t) (\<lambda>t. Option.bind (InitDataBlock iops dops bf t) (\<lambda>t.
          Option.bind (on_data dops enter t) (skip_empty iops dops bf move enter)))
      else Some t)"

definition SkipEmptyDataBlocksForward :: "'i iterator_class \<Rightarrow> 'd iterator_class \<Rightarrow> (slice \<Rightarrow> 'd option) \<Rightarrow>
    ('i, 'd) two_level \<Rightarrow> ('i, 'd) two_level option" where
  "SkipEmptyDataBlocksForward iops dops bf = skip_empty iops dops bf (op_Next iops) (op_SeekToFirst dops)"

definition SkipEmptyDataBlocksBackward :: "'i iterator_class \<Rightarrow> 'd iterator_class \<Rightarrow> (slice \<Rightarrow> 'd option) \<Rightarrow>
    ('i, 'd) two_level \<Rightarrow> ('i, 'd) two_level option" where
  "SkipEmptyDataBlocksBackward iops dops bf = skip_empty iops dops bf (op_Prev iops) (op_SeekToLast dops)"

definition tl_Seek :: "'i iterator_class \<Rightarrow> 'd iterator_class \<Rightarrow> (slice \<Rightarrow> 'd option) \<Rightarrow> slice \<Rightarrow>
    ('i, 'd) two_level \<Rightarrow> ('i, 'd) two_level option" where
  "tl_Seek iops dops bf target t =
     Option.bind (on_index iops (op_Seek iops target) t) (\<lambda>t. Option.bind (InitDataBlock iops dops bf t) (\<lambda>t.
       Option.bind (on_data dops (op_Seek dops target) t) (SkipEmptyDataBlocksForward iops dops bf)))"

definition tl_SeekToFirst :: "'i iterator_class \<Rightarrow> 'd iterator_class \<Rightarrow> (slice \<Rightarrow> 'd option) \<Rightarrow>
    ('i, 'd) two_level \<Rightarrow> ('i, 'd) two_level option" where
  "tl_SeekToFirst iops dops bf t =
     Option.bind (on_index iops (op_SeekToFirst iops) t) (\<lambda>t. Option.bind (InitDataBlock iops dops bf t) (\<lambda>t.
       Option.bind (on_data dops (op_SeekToFirst dops) t) (SkipEmptyDataBlocksForward iops dops bf)))"

definition tl_SeekToLast :: "'i iterator_class \<Rightarrow> 'd iterator_class \<Rightarrow> (slice \<Rightarrow> 'd option) \<Rightarrow>
    ('i, 'd) two_level \<Rightarrow> ('i, 'd) two_level option" where
  "tl_SeekToLast iops dops bf t =
     Option.bind (on_index iops (op_SeekToLast iops) t) (\<lambda>t. Option.bind (InitDataBlock iops dops bf t) (\<lambda>t.
       Option.bind (on_data dops (op_SeekToLast dops) t) (SkipEmptyDataBlocksBackward iops dops bf)))"

definition tl_Next :: "'i iterator_class \<Rightarrow> 'd iterator_class \<Rightarrow> (slice \<Rightarrow> 'd option) \<Rightarrow>
    ('i, 'd) two_level \<Rightarrow> ('i, 'd) two_level option" where
  "tl_Next iops dops bf t =
     Option.bind (wr_call dops (op_Next dops) (tl_data t)) (\<lambda>w. SkipEmptyDataBlocksForward iops dops bf (t\<lparr>tl_data := w\<rparr>))"

definition tl_Prev :: "'i iterator_class \<Rightarrow> 'd iterator_class \<Rightarrow> (slice \<Rightarrow> 'd option) \<Rightarrow>
    ('i, 'd) two_level \<Rightarrow> ('i, 'd) two_level option" where
  "tl_Prev iops dops bf t =
     Option.bind (wr_call dops (op_Prev dops) (tl_data t)) (\<lambda>w. SkipEmptyDataBlocksBackward iops dops bf (t\<lparr>tl_data := w\<rparr>))"

definition tl_get_status :: "'i iterator_class \<Rightarrow> 'd iterator_class \<Rightarrow> ('i, 'd) two_level \<Rightarrow> status" where
  "tl_get_status iops dops t =
     (if \<not> ok (wr_status iops (tl_index t)) then wr_status iops (tl_index t)
      else if wr_iter (tl_data t) \<noteq> None \<and> \<not> ok (wr_status dops (tl_data t)) then wr_status dops (tl_data t)
      else tl_status t)"

definition two_level_class :: "'i iterator_class \<Rightarrow> 'd iterator_class \<Rightarrow> (slice \<Rightarrow> 'd option) \<Rightarrow> ('i, 'd) two_level iterator_class" where
  "two_level_class iops dops bf = \<lparr>op_Valid = (\<lambda>t. wr_valid (tl_data t)), op_SeekToFirst = tl_SeekToFirst iops dops bf,
     op_SeekToLast = tl_SeekToLast iops dops bf, op_Seek = tl_Seek iops dops bf, op_Next = tl_Next iops dops bf,
     op_Prev = tl_Prev iops dops bf, op_key = (\<lambda>t. wr_key (tl_data t)), op_value = (\<lambda>t. wr_value dops (tl_data t)),
     op_status = tl_get_status iops dops\<rparr>"

section \<open>Blocks and their index\<close>

text \<open>
  The entries \<open>S\<close> are those of the blocks \<open>B h\<close> of the handles \<open>h\<close> in the index \<open>I\<close>; the key of a handle in the index is
  not below the keys of its block, and below those of the blocks behind.
\<close>

definition indexed :: "(slice \<Rightarrow> 'k::linorder) \<Rightarrow> ('d \<Rightarrow> (slice \<times> slice) set \<Rightarrow> (slice \<times> slice) option \<Rightarrow> bool) \<Rightarrow> (slice \<Rightarrow> 'd option) \<Rightarrow>
    (slice \<times> slice) set \<Rightarrow> (slice \<Rightarrow> (slice \<times> slice) set) \<Rightarrow> (slice \<times> slice) set \<Rightarrow> bool" where
  "indexed key dat bf I B S \<longleftrightarrow> S = (\<Union>i\<in>I. B (snd i)) \<and> (\<forall>i\<in>I. \<exists>d. bf (snd i) = Some d \<and> dat d (B (snd i)) None)
     \<and> (\<forall>i\<in>I. \<forall>x\<in>B (snd i). rank_of key x \<le> rank_of key i)
     \<and> (\<forall>i\<in>I. \<forall>j\<in>I. rank_of key i < rank_of key j \<longrightarrow> (\<forall>x\<in>B (snd j). rank_of key i < rank_of key x))"

definition no_data :: "('i, 'd) two_level \<Rightarrow> bool" where
  "no_data t \<longleftrightarrow> wr_iter (tl_data t) = None \<and> \<not> wr_valid (tl_data t)"

definition tl_at :: "('i \<Rightarrow> (slice \<times> slice) set \<Rightarrow> (slice \<times> slice) option \<Rightarrow> bool) \<Rightarrow>
    ('d \<Rightarrow> (slice \<times> slice) set \<Rightarrow> (slice \<times> slice) option \<Rightarrow> bool) \<Rightarrow> (slice \<Rightarrow> 'k::linorder) \<Rightarrow> (slice \<Rightarrow> 'd option) \<Rightarrow>
    ('i, 'd) two_level \<Rightarrow> (slice \<times> slice) set \<Rightarrow> (slice \<times> slice) option \<Rightarrow> bool" where
  "tl_at iat dat key bf t S c \<longleftrightarrow> (\<exists>I B ci. indexed key dat bf I B S \<and> child_at iat (tl_index t) I ci \<and> tl_status t = OK
     \<and> (case c of None \<Rightarrow> no_data t
        | Some e \<Rightarrow> \<exists>i. ci = Some i \<and> tl_handle t = snd i \<and> child_at dat (tl_data t) (B (snd i)) (Some e)))"

locale two_level = index: iterator_contract iops key valid iat + data: iterator_contract dops key valid dat
  for iops :: "'i iterator_class" and dops :: "'d iterator_class" and key :: "slice \<Rightarrow> 'k::linorder" and valid iat dat +
  fixes bf :: "slice \<Rightarrow> 'd option"
begin

abbreviation r :: "slice \<times> slice \<Rightarrow> 'k" where
  "r \<equiv> rank_of key"

text \<open>Before the data iterator is set: there is none, or it is that of a block.\<close>

definition mid :: "(slice \<times> slice) set \<Rightarrow> (slice \<Rightarrow> (slice \<times> slice) set) \<Rightarrow> ('i, 'd) two_level \<Rightarrow> bool" where
  "mid I B t \<longleftrightarrow> tl_status t = OK \<and> (no_data t \<or> (\<exists>i\<in>I. \<exists>c. tl_handle t = snd i \<and> child_at dat (tl_data t) (B (snd i)) c))"

lemma Set_data:
  assumes "mid I B t"
  shows "SetDataIterator dops d t = t\<lparr>tl_data := wr_Set dops d (tl_data t)\<rparr>"
  using assms data.child_facts(7) by (fastforce simp: mid_def no_data_def SetDataIterator_def SaveError_def ok_def OK_def Let_def)

lemma InitDataBlock_at:
  assumes "indexed key dat bf I B S" and "child_at iat (tl_index t) I ci" and "mid I B t"
  obtains t' where "InitDataBlock iops dops bf t = Some t'" and "tl_index t' = tl_index t" and "tl_status t' = OK"
    and "case ci of None \<Rightarrow> no_data t' | Some i \<Rightarrow> tl_handle t' = snd i \<and> (\<exists>c. child_at dat (tl_data t') (B (snd i)) c)"
proof -
  have set: "SetDataIterator dops d (t\<lparr>tl_handle := h\<rparr>) = t\<lparr>tl_handle := h, tl_data := wr_Set dops d (tl_data t)\<rparr>" for d h
    using assms(3) data.child_facts(7)
    by (fastforce simp: mid_def no_data_def SetDataIterator_def SaveError_def ok_def OK_def Let_def)
  note v = index.child_facts(4) [OF assms(2)]
  show thesis
  proof (cases ci)
    case None
    then have "InitDataBlock iops dops bf t = Some (t\<lparr>tl_data := wr_Set dops None (tl_data t)\<rparr>)"
      using v by (simp add: InitDataBlock_def Set_data [OF assms(3)])
    from that [OF this] None assms(3) show ?thesis by (simp add: mid_def no_data_def wr_Set_def)
  next
    case (Some i)
    then have i: "i \<in> I" "wr_value iops (tl_index t) = snd i"
      using index.child_facts(5) [OF assms(2) Some] index.child_facts(6) [OF assms(2) Some] by simp_all
    have h: "wr_valid (tl_index t)" using v Some by simp
    show ?thesis
    proof (cases "wr_iter (tl_data t) \<noteq> None \<and> snd i = tl_handle t")
      case True
      then have "InitDataBlock iops dops bf t = Some t" using h i(2) by (simp add: InitDataBlock_def Let_def)
      moreover have "\<exists>c. child_at dat (tl_data t) (B (snd i)) c" using True assms(3) by (auto simp: mid_def no_data_def)
      moreover have "tl_status t = OK" using assms(3) by (simp add: mid_def)
      ultimately show ?thesis using that [of t] True Some by simp
    next
      case False
      obtain d where d: "bf (snd i) = Some d" "dat d (B (snd i)) None" using assms(1) i(1) by (auto simp: indexed_def)
      have "InitDataBlock iops dops bf t = Some (t\<lparr>tl_handle := snd i, tl_data := wr_Set dops (Some d) (tl_data t)\<rparr>)"
        using h i(2) d(1) False unfolding InitDataBlock_def Let_def set [symmetric] by auto
      from that [OF this] data.new_child [OF d(2)] assms(3) Some show ?thesis by (auto simp: mid_def)
    qed
  qed
qed

text \<open>Entering the block of the current index entry.\<close>

lemma enter_block:
  assumes "indexed key dat bf I B S" and "child_at iat (tl_index t) I ci" and "mid I B t"
    and "\<And>i d c. ci = Some i \<Longrightarrow> dat d (B (snd i)) c \<Longrightarrow> \<exists>d' c'. f d = Some d' \<and> dat d' (B (snd i)) c' \<and> Q i c'"
  shows "\<exists>t'. Option.bind (InitDataBlock iops dops bf t) (on_data dops f) = Some t' \<and> tl_index t' = tl_index t \<and> tl_status t' = OK
    \<and> (case ci of None \<Rightarrow> no_data t' | Some i \<Rightarrow> tl_handle t' = snd i \<and> (\<exists>c. child_at dat (tl_data t') (B (snd i)) c \<and> Q i c))"
proof -
  obtain t1 where init: "InitDataBlock iops dops bf t = Some t1" "tl_index t1 = tl_index t" "tl_status t1 = OK"
    "case ci of None \<Rightarrow> no_data t1 | Some i \<Rightarrow> tl_handle t1 = snd i \<and> (\<exists>c. child_at dat (tl_data t1) (B (snd i)) c)"
    by (rule InitDataBlock_at [OF assms(1-3)])
  show ?thesis
  proof (cases ci)
    case None
    with init show ?thesis by (simp add: on_data_def no_data_def)
  next
    case (Some i)
    with init(4) obtain c where c: "tl_handle t1 = snd i" "child_at dat (tl_data t1) (B (snd i)) c" by auto
    have "\<exists>w' c'. wr_call dops f (tl_data t1) = Some w' \<and> child_at dat w' (B (snd i)) c' \<and> Q i c'"
      by (rule data.child_call [OF c(2)]) (rule assms(4) [OF Some])
    then obtain w' c' where
      "wr_call dops f (tl_data t1) = Some w'" "child_at dat w' (B (snd i)) c'" "Q i c'" by blast
    moreover have "wr_iter (tl_data t1) \<noteq> None" using c(2) by (auto simp: child_at_def)
    ultimately show ?thesis using init(1-3) c(1) Some by (auto simp: on_data_def)
  qed
qed

lemma blocks_order:
  assumes "indexed key dat bf I B S" and "i \<in> I" and "j \<in> I" and "\<not> dir_le d (r j) (r i)" and "x \<in> B (snd i)" and "y \<in> B (snd j)"
  shows "dir_le d (r x) (r y)"
proof (cases d)
  case kForward
  with assms(4) have "r i < r j" by (simp add: dir_le_def)
  with assms(1-3,5,6) have "r x \<le> r i" "r i < r y" by (auto simp: indexed_def)
  then show ?thesis using kForward by (simp add: dir_le_def)
next
  case kReverse
  with assms(4) have "r j < r i" by (simp add: dir_le_def)
  with assms(1-3,5,6) have "r y \<le> r j" "r j < r x" by (auto simp: indexed_def)
  then show ?thesis using kReverse by (simp add: dir_le_def)
qed

text \<open>
  The loop, in either direction: it ends at the best of all entries with \<open>P\<close> if the data iterator is at the best in
  its block, those of the blocks beyond have all \<open>P\<close> and those before have not.
\<close>

definition skip_ready :: "direction \<Rightarrow> (slice \<times> slice \<Rightarrow> bool) \<Rightarrow> (slice \<times> slice) set \<Rightarrow> (slice \<Rightarrow> (slice \<times> slice) set) \<Rightarrow>
    (slice \<times> slice) set \<Rightarrow> (slice \<times> slice) option \<Rightarrow> ('i, 'd) two_level \<Rightarrow> bool" where
  "skip_ready d P I B S ci t \<longleftrightarrow>
     (case ci of None \<Rightarrow> no_data t \<and> {x \<in> S. P x} = {}
      | Some i \<Rightarrow> tl_handle t = snd i
          \<and> (\<exists>c. child_at dat (tl_data t) (B (snd i)) c \<and> best_in (dir_le d) r {x \<in> B (snd i). P x} c)
          \<and> (\<forall>j\<in>I. \<not> dir_le d (r j) (r i) \<longrightarrow> (\<forall>x\<in>B (snd j). P x)) \<and> (\<forall>j\<in>I. \<not> dir_le d (r i) (r j) \<longrightarrow> (\<forall>x\<in>B (snd j). \<not> P x)))"

lemma skip_none:
  assumes "indexed key dat bf I B S" and "child_at iat (tl_index t) I None" and "tl_status t = OK" and "no_data t"
  shows "\<exists>t'. skip_empty iops dops bf move enter t = Some t' \<and> tl_at iat dat key bf t' S None"
proof -
  have "\<not> wr_valid (tl_index t)" using index.child_facts(4) [OF assms(2)] by simp
  moreover have "mid I B t" using assms(3,4) by (simp add: mid_def)
  ultimately have "skip_empty iops dops bf move enter t = Some (t\<lparr>tl_data := wr_Set dops None (tl_data t)\<rparr>)"
    using assms(4) by (subst skip_empty.simps) (simp add: no_data_def Set_data)
  moreover have "tl_at iat dat key bf (t\<lparr>tl_data := wr_Set dops None (tl_data t)\<rparr>) S None"
    unfolding tl_at_def using assms by (intro exI [of _ I] exI [of _ B] exI [of _ None]) (simp add: no_data_def wr_Set_def)
  ultimately show ?thesis by blast
qed

lemma skip_ends:
  assumes ix: "indexed key dat bf I B S" and "child_at iat (tl_index t) I ci" and "tl_status t = OK" and "skip_ready d P I B S ci t"
    and move: "\<And>i e. iat i I (Some e) \<Longrightarrow> \<exists>i' c'. move i = Some i' \<and> iat i' I c' \<and> best_in (dir_le d) r {x \<in> I. \<not> dir_le d (r x) (r e)} c'"
    and enter: "\<And>b A c. dat b A c \<Longrightarrow> \<exists>b' c'. enter b = Some b' \<and> dat b' A c' \<and> best_in (dir_le d) r A c'"
  shows "\<exists>t' c. skip_empty iops dops bf move enter t = Some t' \<and> tl_at iat dat key bf t' S c \<and> best_in (dir_le d) r {x \<in> S. P x} c"
proof (cases ci)
  case None
  with assms(4) have "no_data t" "best_in (dir_le d) r {x \<in> S. P x} None" by (simp_all only: skip_ready_def option.case best_in_simps)
  with assms(2,3) skip_none [OF ix] None show ?thesis by blast
next
  case (Some i)
  from assms(2-4) Some show ?thesis
  proof (induction "card {j \<in> I. \<not> dir_le d (r j) (r i)}" arbitrary: t ci i rule: less_induct)
    case less
    note split_paired_All [simp del] split_paired_Ex [simp del]
    from less.prems(1) obtain ii where "iat ii I ci" by (auto simp: child_at_def)
    note I = index.entries [OF this]
    have i: "i \<in> I" "child_at iat (tl_index t) I (Some i)" using index.child_facts(5) [OF less.prems(1)] less.prems(1,4) by auto
    from less.prems(3,4) obtain c where h: "tl_handle t = snd i" and c: "child_at dat (tl_data t) (B (snd i)) c"
      "best_in (dir_le d) r {x \<in> B (snd i). P x} c"
      and P: "\<And>j x. j \<in> I \<Longrightarrow> \<not> dir_le d (r j) (r i) \<Longrightarrow> x \<in> B (snd j) \<Longrightarrow> P x"
        "\<And>j x. j \<in> I \<Longrightarrow> \<not> dir_le d (r i) (r j) \<Longrightarrow> x \<in> B (snd j) \<Longrightarrow> \<not> P x"
      by (auto simp: skip_ready_def)
    have S: "S = (\<Union>i\<in>I. B (snd i))" using ix by (simp add: indexed_def)
    have same: "j = i" if "j \<in> I" "dir_le d (r i) (r j)" "dir_le d (r j) (r i)" for j
      using dir_le_order(4) [OF that(2,3)] that(1) i(1) I by (auto dest: inj_onD)
    show ?case
    proof (cases c)
      case (Some e)
      then have "skip_empty iops dops bf move enter t = Some t"
        using data.child_facts(4) [OF c(1)] c(1) by (subst skip_empty.simps) (auto simp: child_at_def)
      moreover have "tl_at iat dat key bf t S (Some e)"
        unfolding tl_at_def using ix i(2) less.prems(2) h c(1) Some
        by (intro exI [of _ I] exI [of _ B] exI [of _ "Some i"]) simp
      moreover have "dir_le d (r e) (r x)" if x: "x \<in> S" "P x" for x
      proof -
        from x(1) S obtain j where j: "j \<in> I" "x \<in> B (snd j)" by blast
        have e: "e \<in> B (snd i)" using c(2) Some by simp
        show ?thesis
        proof (cases "dir_le d (r j) (r i)")
          case True
          with same [OF j(1)] P(2) [OF j(1) _ j(2)] x(2) have "j = i" by blast
          with c(2) Some j(2) x(2) show ?thesis by simp
        next
          case False
          from blocks_order [OF ix i(1) j(1) False e j(2)] show ?thesis .
        qed
      qed
      moreover have "e \<in> S" "P e" using c(2) Some S i(1) by auto
      ultimately show ?thesis by (intro exI [of _ t] exI [of _ "Some e"]) simp
    next
      case None
      have nv: "\<not> wr_valid (tl_data t)" "wr_valid (tl_index t)"
        using data.child_facts(4) [OF c(1)] index.child_facts(4) [OF i(2)] None by simp_all
      have none: "\<not> P x" if "x \<in> B (snd i)" for x using c(2) None that by auto
      have "\<exists>w ci'. wr_call iops move (tl_index t) = Some w \<and> child_at iat w I ci' \<and> best_in (dir_le d) r {x \<in> I. \<not> dir_le d (r x) (r i)} ci'"
        by (rule index.child_call [OF i(2)]) (rule move)
      then obtain w ci' where
        w: "wr_call iops move (tl_index t) = Some w" "child_at iat w I ci'" "best_in (dir_le d) r {x \<in> I. \<not> dir_le d (r x) (r i)} ci'" by blast
      let ?t = "t\<lparr>tl_index := w\<rparr>"
      have mid: "mid I B ?t" using less.prems(2) i(1) h c(1) by (auto simp: mid_def)
      obtain t1 where t1: "Option.bind (InitDataBlock iops dops bf ?t) (on_data dops enter) = Some t1" "tl_index t1 = w" "tl_status t1 = OK"
        and ci': "case ci' of None \<Rightarrow> no_data t1 | Some j \<Rightarrow> tl_handle t1 = snd j
          \<and> (\<exists>c. child_at dat (tl_data t1) (B (snd j)) c \<and> best_in (dir_le d) r (B (snd j)) c)"
        using enter_block [OF ix _ mid, of ci' enter "\<lambda>j c. best_in (dir_le d) r (B (snd j)) c"] enter w(2) by auto
      have step: "skip_empty iops dops bf move enter t = skip_empty iops dops bf move enter t1"
        using nv w(1) t1(1) by (subst skip_empty.simps) (auto simp: on_index_def bind_eq_Some_conv)
      show ?thesis
      proof (cases ci')
        case None
        have "\<not> P x" if x: "x \<in> S" for x
        proof -
          from x S obtain j where j: "j \<in> I" "x \<in> B (snd j)" by blast
          have "{x \<in> I. \<not> dir_le d (r x) (r i)} = {}" using w(3) None by simp
          with j(1) have "dir_le d (r j) (r i)" by blast
          with same [OF j(1)] P(2) [OF j(1) _ j(2)] none j(2) show ?thesis by blast
        qed
        then have best: "best_in (dir_le d) r {x \<in> S. P x} None" by simp
        have "\<exists>t'. skip_empty iops dops bf move enter t1 = Some t' \<and> tl_at iat dat key bf t' S None"
          using None ci' w(2) t1(2,3) by (intro skip_none [OF ix]) simp_all
        with best show ?thesis unfolding step by blast
      next
        case (Some j)
        then have j: "j \<in> I" "\<not> dir_le d (r j) (r i)" "\<And>x. x \<in> I \<Longrightarrow> \<not> dir_le d (r x) (r i) \<Longrightarrow> dir_le d (r j) (r x)"
          using w(3) by auto
        have ij: "dir_le d (r i) (r j)" using j(2) dir_le_order(3) by blast
        have "{x \<in> I. \<not> dir_le d (r x) (r j)} \<subset> {x \<in> I. \<not> dir_le d (r x) (r i)}"
        proof -
          have "{x \<in> I. \<not> dir_le d (r x) (r j)} \<subseteq> {x \<in> I. \<not> dir_le d (r x) (r i)}" using dir_le_order(2) [OF _ ij] by blast
          moreover have "j \<in> {x \<in> I. \<not> dir_le d (r x) (r i)}" "j \<notin> {x \<in> I. \<not> dir_le d (r x) (r j)}" using j(1,2) by (simp_all add: dir_le_order(1))
          ultimately show ?thesis by blast
        qed
        then have card: "card {x \<in> I. \<not> dir_le d (r x) (r j)} < card {x \<in> I. \<not> dir_le d (r x) (r i)}" using I by (intro psubset_card_mono) auto
        have all: "P x" if "x \<in> B (snd j)" for x using P(1) [OF j(1,2) that] .
        have "skip_ready d P I B S (Some j) t1"
        proof -
          have "{x \<in> B (snd j). P x} = B (snd j)" using all by blast
          moreover have "P x" if "k \<in> I" "\<not> dir_le d (r k) (r j)" "x \<in> B (snd k)" for k x
            using P(1) [OF that(1) _ that(3)] dir_le_order(2) [OF _ ij, of "r k"] that(2) by blast
          moreover have "\<not> P x" if k: "k \<in> I" "\<not> dir_le d (r j) (r k)" "x \<in> B (snd k)" for k x
          proof -
            have "dir_le d (r k) (r i)" using j(3) [OF k(1)] k(2) by blast
            with same [OF k(1)] P(2) [OF k(1) _ k(3)] none k(3) show ?thesis by blast
          qed
          ultimately show ?thesis using ci' Some by (simp add: skip_ready_def)
        qed
        from less.hyps [OF card _ t1(3) this refl] w(2) Some t1(2) show ?thesis unfolding step by simp
      qed
    qed
  qed
qed

text \<open>The calls: one of the index, one of the data iterator, and the loop.\<close>

lemma skip_forward:
  assumes "indexed key dat bf I B S" and "child_at iat (tl_index t) I ci" and "tl_status t = OK" and "skip_ready kForward P I B S ci t"
  shows "\<exists>t' c. SkipEmptyDataBlocksForward iops dops bf t = Some t' \<and> tl_at iat dat key bf t' S c \<and> first_in r {x \<in> S. P x} c"
  unfolding SkipEmptyDataBlocksForward_def best_in_dir(1) [symmetric]
proof (rule skip_ends [OF assms])
  show "\<exists>i' c'. op_Next iops i = Some i' \<and> iat i' I c' \<and> best_in (dir_le kForward) r {x \<in> I. \<not> dir_le kForward (r x) (r e)} c'"
    if "iat i I (Some e)" for i e using index.Next [OF that] by (simp add: best_in_dir dir_le_def not_le)
  show "\<exists>b' c'. op_SeekToFirst dops b = Some b' \<and> dat b' A c' \<and> best_in (dir_le kForward) r A c'" if "dat b A c" for b A c
    using data.SeekToFirst [OF that] by (simp add: best_in_dir)
qed

lemma skip_backward:
  assumes "indexed key dat bf I B S" and "child_at iat (tl_index t) I ci" and "tl_status t = OK" and "skip_ready kReverse P I B S ci t"
  shows "\<exists>t' c. SkipEmptyDataBlocksBackward iops dops bf t = Some t' \<and> tl_at iat dat key bf t' S c \<and> last_in r {x \<in> S. P x} c"
  unfolding SkipEmptyDataBlocksBackward_def best_in_dir(2) [symmetric]
proof (rule skip_ends [OF assms])
  show "\<exists>i' c'. op_Prev iops i = Some i' \<and> iat i' I c' \<and> best_in (dir_le kReverse) r {x \<in> I. \<not> dir_le kReverse (r x) (r e)} c'"
    if "iat i I (Some e)" for i e using index.Prev [OF that] by (simp add: best_in_dir dir_le_def not_le)
  show "\<exists>b' c'. op_SeekToLast dops b = Some b' \<and> dat b' A c' \<and> best_in (dir_le kReverse) r A c'" if "dat b A c" for b A c
    using data.SeekToLast [OF that] by (simp add: best_in_dir)
qed

lemma tl_at_mid:
  assumes "tl_at iat dat key bf t S c"
  obtains I B ci where "indexed key dat bf I B S" and "child_at iat (tl_index t) I ci" and "mid I B t"
    and "\<forall>w. mid I B (t\<lparr>tl_index := w\<rparr>)"
proof -
  from assms obtain I B ci where m: "indexed key dat bf I B S" "child_at iat (tl_index t) I ci" "tl_status t = OK"
    "case c of None \<Rightarrow> no_data t | Some e \<Rightarrow> \<exists>i. ci = Some i \<and> tl_handle t = snd i \<and> child_at dat (tl_data t) (B (snd i)) (Some e)"
    by (auto simp: tl_at_def)
  have "mid I B t"
  proof (cases c)
    case None
    with m(3,4) show ?thesis by (simp add: mid_def)
  next
    case (Some e)
    with m(4) obtain i where "ci = Some i" "tl_handle t = snd i" "child_at dat (tl_data t) (B (snd i)) (Some e)" by auto
    with index.child_facts(5) [OF m(2)] m(3) show ?thesis unfolding mid_def by blast
  qed
  with m that show thesis by (simp add: mid_def no_data_def)
qed

text \<open>A seek of the index and in the block it finds.\<close>

lemma seek_block:
  assumes "tl_at iat dat key bf t S c"
    and "\<And>i I c. iat i I c \<Longrightarrow> \<exists>i' c'. fi i = Some i' \<and> iat i' I c' \<and> best_in (dir_le d) r {x \<in> I. P x} c'"
    and "\<And>b A c. dat b A c \<Longrightarrow> \<exists>b' c'. fd b = Some b' \<and> dat b' A c' \<and> best_in (dir_le d) r {x \<in> A. P x} c'"
    and "\<And>i x. r x \<le> r i \<Longrightarrow> P x \<Longrightarrow> d = kForward \<Longrightarrow> P i" and "\<And>i x. r i < r x \<Longrightarrow> P i \<Longrightarrow> d = kForward \<Longrightarrow> P x"
    and "d = kReverse \<Longrightarrow> P = (\<lambda>_. True)"
  obtains I B ci t1 where "indexed key dat bf I B S" and "child_at iat (tl_index t1) I ci" and "tl_status t1 = OK"
    and "Option.bind (on_index iops fi t) (\<lambda>t. Option.bind (InitDataBlock iops dops bf t) (on_data dops fd)) = Some t1"
    and "skip_ready d P I B S ci t1"
proof -
  obtain I B c0 where m: "indexed key dat bf I B S" "child_at iat (tl_index t) I c0" "\<forall>w. mid I B (t\<lparr>tl_index := w\<rparr>)"
    by (rule tl_at_mid [OF assms(1)])
  note split_paired_All [simp del] split_paired_Ex [simp del]
  have "\<exists>w ci. wr_call iops fi (tl_index t) = Some w \<and> child_at iat w I ci \<and> best_in (dir_le d) r {x \<in> I. P x} ci"
    by (rule index.child_call [OF m(2)]) (rule assms(2))
  then obtain w ci where w: "wr_call iops fi (tl_index t) = Some w" "child_at iat w I ci" "best_in (dir_le d) r {x \<in> I. P x} ci" by blast
  obtain t1 where t1: "Option.bind (InitDataBlock iops dops bf (t\<lparr>tl_index := w\<rparr>)) (on_data dops fd) = Some t1" "tl_index t1 = w" "tl_status t1 = OK"
    and ci: "case ci of None \<Rightarrow> no_data t1 | Some j \<Rightarrow> tl_handle t1 = snd j
      \<and> (\<exists>c. child_at dat (tl_data t1) (B (snd j)) c \<and> best_in (dir_le d) r {x \<in> B (snd j). P x} c)"
    using enter_block [OF m(1) _ m(3) [rule_format], of w ci fd "\<lambda>j c. best_in (dir_le d) r {x \<in> B (snd j). P x} c"] assms(3) w(2) by auto
  have S: "S = (\<Union>i\<in>I. B (snd i))" "\<And>i x. i \<in> I \<Longrightarrow> x \<in> B (snd i) \<Longrightarrow> r x \<le> r i"
    "\<And>i j x. i \<in> I \<Longrightarrow> j \<in> I \<Longrightarrow> r i < r j \<Longrightarrow> x \<in> B (snd j) \<Longrightarrow> r i < r x" using m(1) by (auto simp: indexed_def)
  have up: "P i" if "i \<in> I" "x \<in> B (snd i)" "P x" for i x
    using assms(4) [OF S(2) [OF that(1,2)] that(3)] assms(6) by (cases d) simp_all
  have "skip_ready d P I B S ci t1"
  proof (cases ci)
    case None
    then have "{x \<in> I. P x} = {}" using w(3) by (simp only: best_in_simps)
    then have "{x \<in> S. P x} = {}" using up S(1) by blast
    with None ci show ?thesis by (simp add: skip_ready_def)
  next
    case (Some i)
    then have i: "i \<in> I" "P i" "\<And>j. j \<in> I \<Longrightarrow> P j \<Longrightarrow> dir_le d (r i) (r j)" using w(3) by auto
    have "P x" if j: "j \<in> I" "\<not> dir_le d (r j) (r i)" "x \<in> B (snd j)" for j x
      using assms(5) [of i x] S(3) [OF i(1) j(1) _ j(3)] i(2) j(2) assms(6) by (cases d) (simp_all add: dir_le_def not_le)
    moreover have "\<not> P x" if "j \<in> I" "\<not> dir_le d (r i) (r j)" "x \<in> B (snd j)" for j x
      using i(3) [OF that(1)] up [OF that(1,3)] that(2) by blast
    ultimately show ?thesis using Some ci by (simp add: skip_ready_def)
  qed
  moreover have "Option.bind (on_index iops fi t) (\<lambda>t. Option.bind (InitDataBlock iops dops bf t) (on_data dops fd)) = Some t1"
    using w(1) t1(1) by (simp add: on_index_def)
  ultimately show thesis using that m(1) w(2) t1(2,3) by blast
qed

text \<open>A step in the block.\<close>

lemma step_block:
  assumes "tl_at iat dat key bf t S (Some e)"
    and "\<And>b A. dat b A (Some e) \<Longrightarrow> \<exists>b' c'. f b = Some b' \<and> dat b' A c' \<and> best_in (dir_le d) r {x \<in> A. \<not> dir_le d (r x) (r e)} c'"
  obtains I B ci w where "indexed key dat bf I B S" and "child_at iat (tl_index t) I ci" and "tl_status t = OK"
    and "wr_call dops f (tl_data t) = Some w" and "skip_ready d (\<lambda>x. \<not> dir_le d (r x) (r e)) I B S ci (t\<lparr>tl_data := w\<rparr>)"
proof -
  from assms(1) obtain I B i where m: "indexed key dat bf I B S" "child_at iat (tl_index t) I (Some i)" "tl_status t = OK"
    "tl_handle t = snd i" "child_at dat (tl_data t) (B (snd i)) (Some e)" by (auto simp: tl_at_def)
  note split_paired_All [simp del] split_paired_Ex [simp del]
  have "\<exists>w c. wr_call dops f (tl_data t) = Some w \<and> child_at dat w (B (snd i)) c \<and> best_in (dir_le d) r {x \<in> B (snd i). \<not> dir_le d (r x) (r e)} c"
    by (rule data.child_call [OF m(5)]) (rule assms(2))
  then obtain w c where w: "wr_call dops f (tl_data t) = Some w" "child_at dat w (B (snd i)) c"
    "best_in (dir_le d) r {x \<in> B (snd i). \<not> dir_le d (r x) (r e)} c" by blast
  have i: "i \<in> I" "e \<in> B (snd i)" using index.child_facts(5) [OF m(2)] data.child_facts(5) [OF m(5)] by blast+
  have S: "\<And>i x. i \<in> I \<Longrightarrow> x \<in> B (snd i) \<Longrightarrow> r x \<le> r i"
    "\<And>i j x. i \<in> I \<Longrightarrow> j \<in> I \<Longrightarrow> r i < r j \<Longrightarrow> x \<in> B (snd j) \<Longrightarrow> r i < r x" using m(1) by (auto simp: indexed_def)
  have "\<not> dir_le d (r x) (r e)" if j: "j \<in> I" "\<not> dir_le d (r j) (r i)" "x \<in> B (snd j)" for j x
    using S(2) [of i j x] S(1) [of i e] S(2) [of j i e] S(1) [of j x] i j by (cases d) (auto simp: dir_le_def not_le)
  moreover have "dir_le d (r x) (r e)" if j: "j \<in> I" "\<not> dir_le d (r i) (r j)" "x \<in> B (snd j)" for j x
    by (rule blocks_order [OF m(1) j(1) i(1) j(2) j(3) i(2)])
  ultimately have "skip_ready d (\<lambda>x. \<not> dir_le d (r x) (r e)) I B S (Some i) (t\<lparr>tl_data := w\<rparr>)"
    using w(2,3) m(4) by (auto simp: skip_ready_def)
  with that m(1-3) w(1) show thesis by blast
qed

text \<open>The two-level iterator keeps the promises.\<close>

lemma two_level_contract: "iterator_contract (two_level_class iops dops bf) key valid (tl_at iat dat key bf)"
proof
  note ops = two_level_class_def iterator_class.simps
  fix t S c
  assume a: "tl_at iat dat key bf t S c"
  then obtain I B ci where m: "indexed key dat bf I B S" "child_at iat (tl_index t) I ci" "tl_status t = OK"
    "case c of None \<Rightarrow> no_data t | Some e \<Rightarrow> \<exists>i. ci = Some i \<and> tl_handle t = snd i \<and> child_at dat (tl_data t) (B (snd i)) (Some e)"
    by (auto simp: tl_at_def)
  note I = index.child_facts(1,2) [OF m(2)]
  have B: "finite (B (snd i)) \<and> inj_on r (B (snd i)) \<and> (\<forall>x\<in>B (snd i). valid (fst x))" if "i \<in> I" for i
    using m(1) that data.entries unfolding indexed_def by blast
  have S: "S = (\<Union>i\<in>I. B (snd i))" using m(1) by (simp add: indexed_def)
  have "inj_on r S"
  proof (rule inj_onI)
    fix x y
    assume xy: "x \<in> S" "y \<in> S" "r x = r y"
    then obtain i j where ij: "i \<in> I" "x \<in> B (snd i)" "j \<in> I" "y \<in> B (snd j)" unfolding S by blast
    have "r x < r y" if "r i < r j"
      using m(1) ij that unfolding indexed_def by (meson le_less_trans)
    moreover have "r y < r x" if "r j < r i"
      using m(1) ij that unfolding indexed_def by (meson le_less_trans)
    ultimately have "r i = r j" using xy(3) by (cases "r i" "r j" rule: linorder_cases) auto
    then have "i = j" using I(2) ij(1,3) by (auto dest: inj_onD)
    with B [OF ij(1)] ij xy(3) show "x = y" by (auto dest: inj_onD)
  qed
  with B I(1) show "finite S \<and> inj_on r S \<and> (\<forall>e\<in>S. valid (fst e))" unfolding S by auto
  show "op_Valid (two_level_class iops dops bf) t \<longleftrightarrow> c \<noteq> None"
    using m(4) by (cases c) (auto simp: ops no_data_def child_at_def)
  show "op_status (two_level_class iops dops bf) t = OK"
    using index.child_facts(7) [OF m(2)] data.child_facts(7) m(3,4)
    by (cases c) (fastforce simp: ops tl_get_status_def no_data_def OK_def ok_def)+
  obtain I B ci t1 where f: "indexed key dat bf I B S" "child_at iat (tl_index t1) I ci" "tl_status t1 = OK"
    "Option.bind (on_index iops (op_SeekToFirst iops) t) (\<lambda>t. Option.bind (InitDataBlock iops dops bf t) (on_data dops (op_SeekToFirst dops))) = Some t1"
    "skip_ready kForward (\<lambda>_. True) I B S ci t1"
    by (rule seek_block [OF a, where d = kForward and P = "\<lambda>_. True" and fi = "op_SeekToFirst iops" and fd = "op_SeekToFirst dops"])
      (use index.SeekToFirst data.SeekToFirst in \<open>simp_all add: best_in_dir\<close>)
  from skip_forward [OF f(1-3,5)] f(4)
  show "\<exists>i' c'. op_SeekToFirst (two_level_class iops dops bf) t = Some i' \<and> tl_at iat dat key bf i' S c' \<and> first_in r S c'"
    by (auto simp: ops tl_SeekToFirst_def bind_eq_Some_conv)
  obtain I B ci t1 where f: "indexed key dat bf I B S" "child_at iat (tl_index t1) I ci" "tl_status t1 = OK"
    "Option.bind (on_index iops (op_SeekToLast iops) t) (\<lambda>t. Option.bind (InitDataBlock iops dops bf t) (on_data dops (op_SeekToLast dops))) = Some t1"
    "skip_ready kReverse (\<lambda>_. True) I B S ci t1"
    by (rule seek_block [OF a, where d = kReverse and P = "\<lambda>_. True" and fi = "op_SeekToLast iops" and fd = "op_SeekToLast dops"])
      (use index.SeekToLast data.SeekToLast in \<open>simp_all add: best_in_dir\<close>)
  from skip_backward [OF f(1-3,5)] f(4)
  show "\<exists>i' c'. op_SeekToLast (two_level_class iops dops bf) t = Some i' \<and> tl_at iat dat key bf i' S c' \<and> last_in r S c'"
    by (auto simp: ops tl_SeekToLast_def bind_eq_Some_conv)
  fix k
  assume k: "valid k"
  obtain I B ci t1 where f: "indexed key dat bf I B S" "child_at iat (tl_index t1) I ci" "tl_status t1 = OK"
    "Option.bind (on_index iops (op_Seek iops k) t) (\<lambda>t. Option.bind (InitDataBlock iops dops bf t) (on_data dops (op_Seek dops k))) = Some t1"
    "skip_ready kForward (\<lambda>x. key k \<le> r x) I B S ci t1"
    by (rule seek_block [OF a, where d = kForward and P = "\<lambda>x. key k \<le> r x" and fi = "op_Seek iops k" and fd = "op_Seek dops k"])
      (use index.Seek [OF _ k] data.Seek [OF _ k] in \<open>auto simp: best_in_dir intro: order.trans\<close>)
  from skip_forward [OF f(1-3,5)] f(4)
  show "\<exists>i' c'. op_Seek (two_level_class iops dops bf) k t = Some i' \<and> tl_at iat dat key bf i' S c'
      \<and> first_in r {x \<in> S. key k \<le> r x} c'"
    by (auto simp: ops tl_Seek_def bind_eq_Some_conv)
next
  note ops = two_level_class_def iterator_class.simps
  fix t S e
  assume a: "tl_at iat dat key bf t S (Some e)"
  then obtain I B i where m: "indexed key dat bf I B S" "child_at iat (tl_index t) I (Some i)" "child_at dat (tl_data t) (B (snd i)) (Some e)"
    by (auto simp: tl_at_def)
  have "i \<in> I" using index.child_facts(5) [OF m(2)] by blast
  then show "e \<in> S \<and> op_key (two_level_class iops dops bf) t = fst e \<and> op_value (two_level_class iops dops bf) t = snd e"
    using data.child_facts(5,6) [OF m(3)] m(1) by (auto simp: ops indexed_def)
  obtain I B ci w where f: "indexed key dat bf I B S" "child_at iat (tl_index t) I ci" "tl_status t = OK"
    "wr_call dops (op_Next dops) (tl_data t) = Some w" "skip_ready kForward (\<lambda>x. \<not> dir_le kForward (r x) (r e)) I B S ci (t\<lparr>tl_data := w\<rparr>)"
    by (rule step_block [OF a, where d = kForward and f = "op_Next dops"])
      (use data.Next in \<open>simp_all add: best_in_dir dir_le_def not_le\<close>)
  have "\<exists>t' c. SkipEmptyDataBlocksForward iops dops bf (t\<lparr>tl_data := w\<rparr>) = Some t' \<and> tl_at iat dat key bf t' S c
      \<and> first_in r {x \<in> S. \<not> dir_le kForward (r x) (r e)} c"
    by (rule skip_forward [OF f(1) _ _ f(5)]) (use f(2,3) in simp_all)
  with f(4) show "\<exists>i' c'. op_Next (two_level_class iops dops bf) t = Some i' \<and> tl_at iat dat key bf i' S c'
      \<and> first_in r {x \<in> S. r e < r x} c'"
    by (simp add: ops tl_Next_def dir_le_def not_le)
  obtain I B ci w where f: "indexed key dat bf I B S" "child_at iat (tl_index t) I ci" "tl_status t = OK"
    "wr_call dops (op_Prev dops) (tl_data t) = Some w" "skip_ready kReverse (\<lambda>x. \<not> dir_le kReverse (r x) (r e)) I B S ci (t\<lparr>tl_data := w\<rparr>)"
    by (rule step_block [OF a, where d = kReverse and f = "op_Prev dops"])
      (use data.Prev in \<open>simp_all add: best_in_dir dir_le_def not_le\<close>)
  have "\<exists>t' c. SkipEmptyDataBlocksBackward iops dops bf (t\<lparr>tl_data := w\<rparr>) = Some t' \<and> tl_at iat dat key bf t' S c
      \<and> last_in r {x \<in> S. \<not> dir_le kReverse (r x) (r e)} c"
    by (rule skip_backward [OF f(1) _ _ f(5)]) (use f(2,3) in simp_all)
  with f(4) show "\<exists>i' c'. op_Prev (two_level_class iops dops bf) t = Some i' \<and> tl_at iat dat key bf i' S c'
      \<and> last_in r {x \<in> S. r x < r e} c'"
    by (simp add: ops tl_Prev_def dir_le_def not_le)
qed

lemma TwoLevelIterator_at:
  assumes "indexed key dat bf I B S" and "iat i I None"
  shows "tl_at iat dat key bf (TwoLevelIterator iops i) S None"
  unfolding tl_at_def using assms index.new_child [OF assms(2), of IteratorWrapper]
  by (intro exI [of _ I] exI [of _ B] exI [of _ None]) (simp add: TwoLevelIterator_def no_data_def IteratorWrapper_def)

end

sublocale two_level \<subseteq> two: iterator_contract "two_level_class iops dops bf" key valid "tl_at iat dat key bf"
  by (rule two_level_contract)

end
