(* ===== verification/Ldb_Table.thy ===== *)
theory Ldb_Table
  imports Ldb_TableBuilder Ldb_TwoLevel
begin

text \<open>
  \<open>leveldb-library/table/table.cc\<close>: the reader of tables, and that it gives back what the builder wrote.
\<close>

section \<open>The code\<close>

record table =
  tab_options :: table_options
  tab_file :: random_file
  tab_filter :: "filter_reader option"
  tab_metaindex_handle :: block_handle
  tab_index_block :: block

text \<open>
  There is no result where the code reads what it may not. A filter that cannot be read is left out; the filter
  policy is that of the options.
\<close>

definition ReadFilter :: "snappy option \<Rightarrow> filter_policy \<Rightarrow> slice \<Rightarrow> table \<Rightarrow> table option" where
  "ReadFilter lib policy filter_handle_value t =
     (case BlockHandle_DecodeFrom filter_handle_value of
        Inl _ \<Rightarrow> Some t
      | Inr (filter_handle, _) \<Rightarrow>
          (case ReadBlock lib (tab_file t) (opt_paranoid_checks (tab_options t)) filter_handle of
             None \<Rightarrow> None
           | Some (s, contents) \<Rightarrow>
               if ok s then Some (t\<lparr>tab_filter := Some (FilterBlockReader policy contents)\<rparr>) else Some t))"

definition ReadMeta :: "snappy option \<Rightarrow> footer \<Rightarrow> table \<Rightarrow> table option" where
  "ReadMeta lib f t =
     (case opt_filter_policy (tab_options t) of
        None \<Rightarrow> Some t
      | Some (name, policy) \<Rightarrow>
          (case ReadBlock lib (tab_file t) (opt_paranoid_checks (tab_options t)) (metaindex_handle f) of
             None \<Rightarrow> None
           | Some (s, contents) \<Rightarrow>
               if \<not> ok s then Some t
               else
                 let iter = some_iterator (NewIterator BytewiseComparator (Block contents)); key = filter_key name in
                 Option.bind (op_Seek any_block_class key iter) (\<lambda>iter.
                   if op_Valid any_block_class iter \<and> op_key any_block_class iter = key
                   then ReadFilter lib policy (op_value any_block_class iter) t else Some t)))"

definition Table_Open :: "snappy option \<Rightarrow> table_options \<Rightarrow> random_file \<Rightarrow> u64 \<Rightarrow> (status \<times> table option) option" where
  "Table_Open lib opts file sz =
     (if sz < word_of_nat kEncodedLength then Some (Corruption ''file is too short to be an sstable'' [], None)
      else case file (sz - word_of_nat kEncodedLength) (word_of_nat kEncodedLength) of None \<Rightarrow> None | Some (s, footer_input) \<Rightarrow>
        if \<not> ok s then Some (s, None)
        else case Footer_DecodeFrom footer_input of
          None \<Rightarrow> None
        | Some (Inl s) \<Rightarrow> Some (s, None)
        | Some (Inr (f, _)) \<Rightarrow>
            (case ReadBlock lib file (opt_paranoid_checks opts) (index_handle f) of
               None \<Rightarrow> None
             | Some (s, contents) \<Rightarrow>
                 if ok s then
                   map_option (\<lambda>t. (s, Some t)) (ReadMeta lib f
                     \<lparr>tab_options = opts, tab_file = file, tab_filter = None, tab_metaindex_handle = metaindex_handle f,
                      tab_index_block = Block contents\<rparr>)
                 else Some (s, None)))"

text \<open>The iterator of a block or of an error, where there is no cache of blocks.\<close>

definition BlockReader :: "snappy option \<Rightarrow> table \<Rightarrow> bool \<Rightarrow> slice \<Rightarrow> (status + block_iter) option" where
  "BlockReader lib t verify_checksums index_value =
     (case BlockHandle_DecodeFrom index_value of
        Inl s \<Rightarrow> Some (Inl s)
      | Inr (handle, _) \<Rightarrow>
          map_option (\<lambda>(s, contents).
            if ok s then some_iterator (NewIterator (opt_comparator (tab_options t)) (Block contents)) else Inl s)
            (ReadBlock lib (tab_file t) verify_checksums handle))"

definition index_iterator :: "table \<Rightarrow> status + block_iter" where
  "index_iterator t = some_iterator (NewIterator (opt_comparator (tab_options t)) (tab_index_block t))"

type_synonym table_iter = "(status + block_iter, status + block_iter) two_level"

definition Table_NewIterator :: "table \<Rightarrow> table_iter" where
  "Table_NewIterator t = TwoLevelIterator any_block_class (index_iterator t)"

definition table_iter_class :: "snappy option \<Rightarrow> table \<Rightarrow> bool \<Rightarrow> table_iter iterator_class" where
  "table_iter_class lib t verify_checksums = two_level_class any_block_class any_block_class (BlockReader lib t verify_checksums)"

text \<open>The filter is asked where there is one and the handle can be read.\<close>

definition filter_may_match :: "table \<Rightarrow> slice \<Rightarrow> slice \<Rightarrow> bool option" where
  "filter_may_match t handle_value k =
     (case (tab_filter t, BlockHandle_DecodeFrom handle_value) of
        (Some filter_reader, Inr (handle, _)) \<Rightarrow> block_KeyMayMatch filter_reader (bh_offset handle) k
      | _ \<Rightarrow> Some True)"

text \<open>The status and the entry that \<open>handle_result\<close> is called with, if it is called.\<close>

definition InternalGet :: "snappy option \<Rightarrow> table \<Rightarrow> bool \<Rightarrow> slice \<Rightarrow> (status \<times> (slice \<times> slice) option) option" where
  "InternalGet lib t verify_checksums k =
     Option.bind (op_Seek any_block_class k (index_iterator t)) (\<lambda>iiter.
     Option.bind
       (if op_Valid any_block_class iiter then
          Option.bind (filter_may_match t (op_value any_block_class iiter) k) (\<lambda>may_match.
            if \<not> may_match then Some (OK, None)
            else
              Option.bind (BlockReader lib t verify_checksums (op_value any_block_class iiter)) (\<lambda>block_iter.
              Option.bind (op_Seek any_block_class k block_iter) (\<lambda>block_iter.
                Some (op_status any_block_class block_iter, iter_entry any_block_class block_iter))))
        else Some (OK, None))
       (\<lambda>(s, found). Some (if ok s then op_status any_block_class iiter else s, found)))"

definition ApproximateOffsetOf :: "table \<Rightarrow> slice \<Rightarrow> u64 option" where
  "ApproximateOffsetOf t key =
     map_option (\<lambda>index_iter.
       if op_Valid any_block_class index_iter then
         (case BlockHandle_DecodeFrom (op_value any_block_class index_iter) of
            Inr (handle, _) \<Rightarrow> bh_offset handle
          | Inl _ \<Rightarrow> bh_offset (tab_metaindex_handle t))
       else bh_offset (tab_metaindex_handle t))
       (op_Seek any_block_class key (index_iterator t))"

section \<open>Reading what was written\<close>

text \<open>Where the reader looks for the filter of a block, in a table with the blocks \<open>bs\<close> at \<open>hs\<close>.\<close>

definition filter_of_table :: "table_options \<Rightarrow> entries list \<Rightarrow> block_handle list \<Rightarrow> u64 \<Rightarrow> filter_reader option" where
  "filter_of_table opts bs hs off = map_option (\<lambda>(name, pol). FilterBlockReader pol
     (build_filters pol (zip (map bh_offset hs) (map (map fst) bs) @ [(off, [])]))) (opt_filter_policy opts)"

lemma ReadFilter_stored:
  assumes "stored lib F h data" and "reads (tab_file t) F"
  shows "ReadFilter lib pol (handle_bytes h) t = Some (t\<lparr>tab_filter := Some (FilterBlockReader pol data)\<rparr>)"
  using BlockHandle_decodes [of h "[]"] ReadBlock_stored [OF assms] by (simp add: ReadFilter_def)

interpretation meta_iter: iterator_contract any_block_class "\<lambda>k. k" "\<lambda>_. True" "any_block_at BytewiseComparator (\<lambda>k. k) (\<lambda>_. True)"
  by (rule bytewise.any_block_contract)

text \<open>The metaindex has at most one entry; it is used if it has the name of the policy.\<close>

lemma ReadMeta_built:
  assumes "stored lib F mh (build_block k (metaindex_entries opts fh))" and "fits_block k (metaindex_entries opts fh)"
    and "\<And>name pol. opt_filter_policy opts = Some (name, pol) \<Longrightarrow> stored None F fh (flts pol)"
    and "reads (tab_file t) F" and "metaindex_handle f = mh" and "tab_filter t = None"
  shows "\<exists>flt. ReadMeta lib f t = Some (t\<lparr>tab_filter := flt\<rparr>) \<and> (opt_filter_policy (tab_options t) = opt_filter_policy opts
    \<longrightarrow> flt = map_option (\<lambda>(name, pol). FilterBlockReader pol (flts pol)) (opt_filter_policy opts))"
proof (cases "opt_filter_policy (tab_options t)")
  case None
  with assms(6) show ?thesis by (auto simp: ReadMeta_def intro!: exI [of _ None])
next
  case (Some np)
  then obtain name pol where np: "opt_filter_policy (tab_options t) = Some (name, pol)" by (cases np) auto
  let ?es = "metaindex_entries opts fh" and ?key = "filter_key name"
  let ?iter = "some_iterator (NewIterator BytewiseComparator (Block (build_block k ?es)))"
  let ?at = "any_block_at BytewiseComparator (\<lambda>k. k) (\<lambda>_. True)"
  note split_paired_All [simp del] split_paired_Ex [simp del]
  have new: "?at ?iter (set ?es) None"
    by (rule NewIterator_at [OF assms(2)]) (simp add: block_sorted_def metaindex_entries_def split: option.split prod.split)
  obtain it c where it: "op_Seek any_block_class ?key ?iter = Some it" "?at it (set ?es) c"
    "first_in (rank_of (\<lambda>k. k)) {x \<in> set ?es. ?key \<le> rank_of (\<lambda>k. k) x} c" using meta_iter.Seek [OF new, of ?key] by blast
  have read: "ReadMeta lib f t = (if op_Valid any_block_class it \<and> op_key any_block_class it = ?key
      then ReadFilter lib pol (op_value any_block_class it) t else Some t)"
    using ReadBlock_stored [OF assms(1,4)] np it(1) assms(5) by (simp add: ReadMeta_def Let_def)
  show ?thesis
  proof (cases "op_Valid any_block_class it \<and> op_key any_block_class it = ?key")
    case True
    with meta_iter.Valid [OF it(2)] obtain e where c: "c = Some e" by auto
    note e = meta_iter.position [OF it(2) [unfolded c]]
    then obtain name' pol' where o: "opt_filter_policy opts = Some (name', pol')" "snd e = handle_bytes fh"
      by (cases "opt_filter_policy opts") (auto simp: metaindex_entries_def split: prod.splits)
    from read True e o(2) ReadFilter_stored [OF stored_plain(1) [OF assms(3) [OF o(1)]] assms(4), where pol = pol and lib = lib]
    have "ReadMeta lib f t = Some (t\<lparr>tab_filter := Some (FilterBlockReader pol (flts pol'))\<rparr>)" by simp
    with o(1) np show ?thesis by auto
  next
    case False
    with read assms(6) have "ReadMeta lib f t = Some (t\<lparr>tab_filter := None\<rparr>)" by simp
    moreover have "opt_filter_policy (tab_options t) \<noteq> opt_filter_policy opts"
    proof
      assume "opt_filter_policy (tab_options t) = opt_filter_policy opts"
      with np have es: "?es = [(?key, handle_bytes fh)]" by (simp add: metaindex_entries_def)
      have "{x \<in> set ?es. ?key \<le> rank_of (\<lambda>k. k) x} = {(?key, handle_bytes fh)}" unfolding es by (auto simp: rank_of_def)
      with it(3) have "c = Some (?key, handle_bytes fh)" by (cases c) auto
      with meta_iter.position [of it "set ?es"] meta_iter.Valid [OF it(2)] it(2) False show False by auto
    qed
    ultimately show ?thesis by blast
  qed
qed

lemma Table_Open_built:
  assumes "table_of key valid same lib opts bs hs ix F" and "table_setup cmp lib opts" and "reads file F" and "length F < 2 ^ 64"
  obtains t off where "Table_Open lib ropts file (word_of_nat (length F)) = Some (OK, Some t)"
    and "tab_options t = ropts" and "tab_file t = file" and "tab_index_block t = Block (build_block 1 ix)"
    and "opt_filter_policy ropts = opt_filter_policy opts \<Longrightarrow> tab_filter t = filter_of_table opts bs hs off"
    and "sorted_wrt (<) (map (unat \<circ> bh_offset) hs @ [unat off])"
    and "\<And>name pol. opt_filter_policy opts = Some (name, pol) \<Longrightarrow>
      length (build_filters pol (zip (map bh_offset hs) (map (map fst) bs) @ [(off, [])])) \<le> length F"
proof -
  from assms(1) obtain pre mh ih fh off where F: "F = pre @ footer_bytes \<lparr>metaindex_handle = mh, index_handle = ih\<rparr>"
    and st: "stored lib F ih (build_block 1 ix)"
      "stored lib F mh (build_block (nat (opt_block_restart_interval opts)) (metaindex_entries opts fh))"
      "\<And>name pol. opt_filter_policy opts = Some (name, pol) \<Longrightarrow>
        stored None F fh (build_filters pol (zip (map bh_offset hs) (map (map fst) bs) @ [(off, [])]))"
    and off: "sorted_wrt (<) (map (unat \<circ> bh_offset) hs @ [unat off])"
    unfolding table_of_def by blast
  let ?filters = "\<lambda>pol. build_filters pol (zip (map bh_offset hs) (map (map fst) bs) @ [(off, [])])"
  let ?size = "word_of_nat (length F) :: u64"
  let ?t = "\<lparr>tab_options = ropts, tab_file = file, tab_filter = None, tab_metaindex_handle = mh, tab_index_block = Block (build_block 1 ix)\<rparr>"
  have len: "unat ?size = length F" using assms(4) by (intro unat_small) simp
  have l48: "48 \<le> length F" by (simp add: F)
  then have "\<not> ?size < 48" by (simp add: word_less_nat_alt len)
  moreover have "unat (?size - 48) = length F - 48" using l48 len by (simp add: unat_sub_if' word_le_nat_alt)
  then have at: "unat (?size - 48) = length pre" by (simp add: F)
  moreover have "file (?size - 48) 48 = Some (OK, take 48 (drop (length pre) F))"
    using assms(3) at by (simp add: reads_def F)
  moreover have "take 48 (drop (length pre) F) = footer_bytes \<lparr>metaindex_handle = mh, index_handle = ih\<rparr>" by (simp add: F)
  moreover note Footer_decodes [of "\<lparr>metaindex_handle = mh, index_handle = ih\<rparr>" "[]"]
  moreover note ReadBlock_stored [OF st(1) assms(3)]
  ultimately have "Table_Open lib ropts file ?size = map_option (\<lambda>t. (OK, Some t)) (ReadMeta lib \<lparr>metaindex_handle = mh, index_handle = ih\<rparr>
      ?t)"
    by (simp add: Table_Open_def kEncodedLength_def kMaxEncodedLength_def)
  moreover have "\<exists>flt. ReadMeta lib \<lparr>metaindex_handle = mh, index_handle = ih\<rparr> ?t = Some (?t\<lparr>tab_filter := flt\<rparr>)
      \<and> (opt_filter_policy (tab_options ?t) = opt_filter_policy opts
        \<longrightarrow> flt = map_option (\<lambda>(name, pol). FilterBlockReader pol (?filters pol)) (opt_filter_policy opts))"
    by (rule ReadMeta_built [OF st(2) metaindex_fits [OF assms(2)]]) (use st(3) assms(3) in simp_all)
  then obtain flt where "ReadMeta lib \<lparr>metaindex_handle = mh, index_handle = ih\<rparr> ?t = Some (?t\<lparr>tab_filter := flt\<rparr>)"
    "opt_filter_policy ropts = opt_filter_policy opts
      \<longrightarrow> flt = map_option (\<lambda>(name, pol). FilterBlockReader pol (?filters pol)) (opt_filter_policy opts)" by auto
  ultimately show thesis using stored_plain(2) [OF st(3)] by (intro that [of "?t\<lparr>tab_filter := flt\<rparr>" off]) (simp_all add: filter_of_table_def off)
qed

text \<open>The blocks by their handles.\<close>

definition block_of :: "entries \<Rightarrow> entries list \<Rightarrow> slice \<Rightarrow> (slice \<times> slice) set" where
  "block_of ix bs h = (case List.find (\<lambda>i. snd (ix ! i) = h) [0..<length ix] of None \<Rightarrow> {} | Some i \<Rightarrow> set (bs ! i))"

lemma later_block: "i < j \<Longrightarrow> j < length bs \<Longrightarrow> bs ! j \<in> set (drop (Suc i) bs)"
  by (auto simp: in_set_conv_nth intro!: exI [of _ "j - Suc i"])

lemma separatesD:
  assumes "separates key valid same ix hs bs []" and "i < length ix"
  shows "snd (ix ! i) = handle_bytes (hs ! i)" and "valid (fst (ix ! i))" and "\<And>x. x \<in> set (bs ! i) \<Longrightarrow> rank_of key x \<le> rank_of key (ix ! i)"
    and "\<And>j x. i < j \<Longrightarrow> j < length bs \<Longrightarrow> x \<in> set (bs ! j) \<Longrightarrow> behind key valid same (bs ! i) (ix ! i) x"
proof -
  show "snd (ix ! i) = handle_bytes (hs ! i)" "valid (fst (ix ! i))" "\<And>x. x \<in> set (bs ! i) \<Longrightarrow> rank_of key x \<le> rank_of key (ix ! i)"
    using assms unfolding separates_def by blast+
  fix j x
  assume "i < j" "j < length bs" "x \<in> set (bs ! j)"
  then have "x \<in> set (concat (drop (Suc i) bs) @ [])" using later_block [of i j bs] by auto
  with assms show "behind key valid same (bs ! i) (ix ! i) x" unfolding separates_def by blast
qed

lemma index_sorted:
  assumes "separates key valid same ix hs bs []" and "length ix = length bs" and "[] \<notin> set bs"
  shows "block_sorted key valid ix"
  unfolding block_sorted_def
proof (intro conjI)
  show "\<forall>e\<in>set ix. valid (fst e)" using separatesD(2) [OF assms(1)] by (metis in_set_conv_nth)
  show "sorted_wrt (\<lambda>a b. rank_of key a < rank_of key b) ix"
    unfolding sorted_wrt_iff_nth_less
  proof (intro allI impI)
    fix i j
    assume ij: "i < j" "j < length ix"
    then have "bs ! j \<in> set bs" using assms(2) by simp
    with assms(3) obtain x where x: "x \<in> set (bs ! j)" by (cases "bs ! j") auto
    then have "rank_of key (ix ! i) < rank_of key x"
      using separatesD(4) [OF assms(1) _ ij(1) _ x] ij assms(2) by (simp add: behind_def)
    also have "\<dots> \<le> rank_of key (ix ! j)" using separatesD(3) [OF assms(1) ij(2) x] .
    finally show "rank_of key (ix ! i) < rank_of key (ix ! j)" .
  qed
qed

lemma block_of_index:
  assumes "separates key valid same ix hs bs []" and "length hs = length ix" and "sorted_wrt (<) (map (unat \<circ> bh_offset) hs @ off)"
    and "i < length ix"
  shows "block_of ix bs (snd (ix ! i)) = set (bs ! i)"
proof -
  have s: "sorted_wrt (<) (map (unat \<circ> bh_offset) hs)" using assms(3) by (simp add: sorted_wrt_append)
  have uniq: "j = i" if j: "j < length ix" "snd (ix ! j) = snd (ix ! i)" for j
  proof (rule ccontr)
    assume "j \<noteq> i"
    have "handle_bytes (hs ! j) = handle_bytes (hs ! i)"
      using separatesD(1) [OF assms(1) j(1)] separatesD(1) [OF assms(1,4)] j(2) by simp
    then have "hs ! j = hs ! i"
      using BlockHandle_decodes [of "hs ! j" "[]"] BlockHandle_decodes [of "hs ! i" "[]"] by simp
    moreover have "unat (bh_offset (hs ! m)) < unat (bh_offset (hs ! n))" if "m < n" "n < length ix" for m n
      using assms(2) s that by (simp add: sorted_wrt_iff_nth_less)
    ultimately show False using \<open>j \<noteq> i\<close> j(1) assms(4) by (metis nat_neq_iff less_irrefl)
  qed
  have "snd (ix ! j) \<noteq> snd (ix ! i)" if "j < i" for j using uniq [of j] that assms(4) by force
  then have "List.find (\<lambda>j. snd (ix ! j) = snd (ix ! i)) [0..<length ix] = Some i"
    using assms(4) by (auto simp: find_Some_iff intro!: exI [of _ i])
  then show ?thesis by (simp add: block_of_def)
qed

context comparator_contract
begin

lemma blocks_two_level: "two_level any_block_class any_block_class key valid (any_block_at cmp key valid) (any_block_at cmp key valid)"
  by (intro two_level.intro any_block_contract)

lemma block_reader_at:
  assumes "stored lib F h (build_block k es)" and "reads (tab_file t) F" and "opt_comparator (tab_options t) = cmp"
    and "fits_block k es" and "block_sorted key valid es"
  shows "\<exists>it. BlockReader lib t verify (handle_bytes h) = Some it \<and> any_block_at cmp key valid it (set es) None"
  using BlockHandle_decodes [of h "[]"] ReadBlock_stored [OF assms(1,2)] NewIterator_at [OF assms(4,5), of cmp] assms(3)
  by (simp add: BlockReader_def)

lemma table_indexed:
  assumes "table_of key valid same lib opts bs hs ix F" and "table_setup cmp lib opts" and "table_sorted key valid (concat bs)"
    and "reads (tab_file t) F" and "opt_comparator (tab_options t) = cmp" and "tab_index_block t = Block (build_block 1 ix)"
  shows "indexed key (any_block_at cmp key valid) (BlockReader lib t verify) (set ix) (block_of ix bs) (set (concat bs))"
    and "any_block_at cmp key valid (index_iterator t) (set ix) None"
    and "\<And>i. i < length ix \<Longrightarrow> block_of ix bs (snd (ix ! i)) = set (bs ! i)"
proof -
  from assms(1) obtain off :: u64 where ix: "[] \<notin> set bs" "length hs = length bs" "length ix = length bs" "separates key valid same ix hs bs []"
    and st: "\<And>i. i < length bs \<Longrightarrow> stored lib F (hs ! i) (build_block (nat (opt_block_restart_interval opts)) (bs ! i))"
    and off: "sorted_wrt (<) (map (unat \<circ> bh_offset) hs @ [unat off])"
    unfolding table_of_def by blast
  note sep = separatesD [OF ix(4)]
  have "length hs = length ix" using ix(2,3) by simp
  note bo = block_of_index [OF ix(4) this off]
  have sorted_ix: "block_sorted key valid ix" by (rule index_sorted [OF ix(4,3,1)])
  have fits_ix: "fits_block 1 ix"
    using index_room [OF ix(4,3,1)] assms(3) by (intro room_fits) (simp_all add: table_sorted_def)
  show "\<And>i. i < length ix \<Longrightarrow> block_of ix bs (snd (ix ! i)) = set (bs ! i)" by (rule bo)
  show "any_block_at cmp key valid (index_iterator t) (set ix) None"
    using NewIterator_at [OF fits_ix sorted_ix, of cmp] assms(5,6) by (simp add: index_iterator_def)
  have "fits_block (nat (opt_block_restart_interval opts)) (bs ! i)" if "i < length bs" for i
    using block_in_table(2) [OF assms(3), of "bs ! i"] assms(2) that by (intro room_fits) (simp_all add: table_setup_def)
  note rd = block_reader_at [OF st assms(4,5) this block_in_table(1) [OF assms(3)]]
  note split_paired_All [simp del] split_paired_Ex [simp del]
  show "indexed key (any_block_at cmp key valid) (BlockReader lib t verify) (set ix) (block_of ix bs) (set (concat bs))"
    unfolding indexed_def
  proof (intro conjI ballI impI)
    have nth: "set xs = (!) xs ` {..<length xs}" for xs :: "'z list" by (auto simp: set_conv_nth)
    have "(\<Union>i\<in>set ix. block_of ix bs (snd i)) = (\<Union>i\<in>{..<length ix}. set (bs ! i))"
      using bo by (simp add: nth [of ix])
    also have "\<dots> = set (concat bs)" using ix(3) by (simp add: nth [of bs])
    finally show "set (concat bs) = (\<Union>i\<in>set ix. block_of ix bs (snd i))" by simp
    fix e
    assume "e \<in> set ix"
    then obtain i where i: "i < length ix" "e = ix ! i" by (metis in_set_conv_nth)
    show "\<exists>d. BlockReader lib t verify (snd e) = Some d \<and> any_block_at cmp key valid d (block_of ix bs (snd e)) None"
      using rd [of i] i ix(3) sep(1) [OF i(1)] bo [OF i(1)] by simp
    show "rank_of key x \<le> rank_of key e" if "x \<in> block_of ix bs (snd e)" for x
      using that sep(3) [OF i(1)] bo [OF i(1)] i(2) by simp
    fix e' x
    assume e': "e' \<in> set ix" "rank_of key e < rank_of key e'" "x \<in> block_of ix bs (snd e')"
    then obtain j where j: "j < length ix" "e' = ix ! j" by (metis in_set_conv_nth)
    have "i < j" using sorted_nth(1) [OF sorted_ix i(1) j(1)] e'(2) i(2) j(2) by simp
    then show "rank_of key e < rank_of key x"
      using sep(4) [OF i(1) \<open>i < j\<close>] j ix(3) bo [OF j(1)] e'(3) i(2) by (simp add: behind_def)
  qed
qed

text \<open>A lookup gives the first entry that is not below the key, or nothing if that is of another group.\<close>

lemma InternalGet_built:
  assumes "table_of key valid same lib opts bs hs ix F" and "table_setup cmp lib opts" and "table_sorted key valid (concat bs)"
    and "reads (tab_file t) F" and "opt_comparator (tab_options t) = cmp" and "tab_index_block t = Block (build_block 1 ix)"
    and "valid k"
    and "\<And>i. i < length bs \<Longrightarrow> \<exists>m. filter_may_match t (handle_bytes (hs ! i)) k = Some m
      \<and> (m \<or> (\<forall>x\<in>set (bs ! i). \<not> same k (fst x)))"
  shows "\<exists>r c. InternalGet lib t verify k = Some (OK, r) \<and> first_in (rank_of key) {x \<in> set (concat bs). key k \<le> rank_of key x} c
    \<and> (r = c \<or> r = None \<and> (\<forall>e. c = Some e \<longrightarrow> \<not> same k (fst e)))"
proof -
  let ?r = "rank_of key" and ?at = "any_block_at cmp key valid" and ?S = "set (concat bs)"
  note seek = iterator_contract.Seek [OF any_block_contract] and pos = iterator_contract.position [OF any_block_contract]
    and val = iterator_contract.Valid [OF any_block_contract] and stat = iterator_contract.status [OF any_block_contract]
    and ent = iterator_contract.entry_at [OF any_block_contract]
  from assms(1) have ix: "[] \<notin> set bs" "length hs = length bs" "length ix = length bs" "separates key valid same ix hs bs []"
    unfolding table_of_def by blast+
  note sep = separatesD [OF ix(4)]
  note split_paired_All [simp del] split_paired_Ex [simp del]
  note tab = table_indexed [OF assms(1-6)]
  have sorted_ix: "block_sorted key valid ix" by (rule index_sorted [OF ix(4,3,1)])
  have sorted: "sorted_wrt (\<lambda>a b. ?r a < ?r b) (concat bs)" using assms(3) by (simp add: table_sorted_def)
  obtain c where c: "first_in ?r {x \<in> ?S. key k \<le> ?r x} c" using list_step_spec(3) [OF sorted, of k] by blast
  have in_S: "\<exists>i. i < length bs \<and> x \<in> set (bs ! i)" if "x \<in> ?S" for x using that by (auto simp: in_set_conv_nth [of _ bs])
  obtain it ci where it: "op_Seek any_block_class k (index_iterator t) = Some it" "?at it (set ix) ci"
    "first_in ?r {x \<in> set ix. key k \<le> ?r x} ci" using seek [OF tab(2) assms(7)] by blast
  show ?thesis
  proof (cases ci)
    case None
    have "InternalGet lib t verify k = Some (OK, None)"
      using it(1) val [OF it(2)] stat [OF it(2)] None by (simp add: InternalGet_def)
    moreover have "c = None"
    proof (rule ccontr)
      assume "c \<noteq> None"
      with c obtain x where x: "x \<in> ?S" "key k \<le> ?r x" by (cases c) auto
      from in_S [OF x(1)] obtain i where i: "i < length bs" "x \<in> set (bs ! i)" by blast
      then have "key k \<le> ?r (ix ! i)" using sep(3) [of i x] ix(3) x(2) by simp
      with it(3) None i(1) ix(3) show False by auto
    qed
    ultimately show ?thesis using c by blast
  next
    case (Some e)
    with it(3) obtain j where j: "j < length ix" "e = ix ! j" "key k \<le> ?r e" by (auto simp: in_set_conv_nth)
    have before: "?r (ix ! i) < key k" if "i < j" for i
      using it(3) Some that j sorted_nth(2) [OF sorted_ix j(1), of i] by (auto simp: not_le [symmetric])
    have later: "j \<le> i" if "i < length bs" "x \<in> set (bs ! i)" "key k \<le> ?r x" for i x
    proof (rule ccontr)
      assume "\<not> j \<le> i"
      then have "?r (ix ! i) < key k" by (intro before) simp
      moreover have "?r x \<le> ?r (ix ! i)" using sep(3) [of i x] that(1,2) ix(3) by simp
      ultimately show False using that(3) by simp
    qed
    have "e \<in> set ix" using j(1,2) by simp
    then have "\<exists>d. BlockReader lib t verify (snd e) = Some d \<and> ?at d (block_of ix bs (snd e)) None"
      using tab(1) unfolding indexed_def by blast
    then obtain d where d: "BlockReader lib t verify (snd e) = Some d" "?at d (set (bs ! j)) None"
      using tab(3) [OF j(1)] j(2) by auto
    obtain d' cd where d': "op_Seek any_block_class k d = Some d'" "?at d' (set (bs ! j)) cd"
      "first_in ?r {x \<in> set (bs ! j). key k \<le> ?r x} cd" using seek [OF d(2) assms(7)] by blast
    have snd_e: "snd e = handle_bytes (hs ! j)" using sep(1) [OF j(1)] j(2) by simp
    obtain m where m: "filter_may_match t (handle_bytes (hs ! j)) k = Some m" "m \<or> (\<forall>x\<in>set (bs ! j). \<not> same k (fst x))"
      using assms(8) [of j] j(1) ix(3) by auto
    have handle: "op_Valid any_block_class it" "op_value any_block_class it = snd e"
      using val [OF it(2)] pos [of it "set ix" e] it(2) Some by simp_all
    have get: "InternalGet lib t verify k = Some (OK, if m then cd else None)"
      using it(1) handle stat [OF it(2)] m(1) snd_e d(1) d'(1) stat [OF d'(2)] ent [OF d'(2)]
      by (simp add: InternalGet_def)
    show ?thesis
    proof (cases cd)
      case None
      have "\<not> same k (fst x)" if x: "c = Some x" for x
      proof -
        have xS: "x \<in> ?S" "key k \<le> ?r x" using c x by auto
        from in_S [OF xS(1)] obtain i where i: "i < length bs" "x \<in> set (bs ! i)" by blast
        have no: "\<forall>y\<in>set (bs ! j). ?r y < key k" using d'(3) None by (auto simp: not_le)
        then have "i \<noteq> j" using i(2) xS(2) by auto
        with later [OF i xS(2)] have "behind key valid same (bs ! j) (ix ! j) x" using sep(4) [OF j(1) _ i(1,2)] by simp
        with no assms(7) j(2,3) show ?thesis by (simp add: behind_def)
      qed
      with get None c show ?thesis by auto
    next
      case (Some x)
      have x: "x \<in> set (bs ! j)" "key k \<le> ?r x" using d'(3) Some by auto
      have jb: "j < length bs" using j(1) ix(3) by simp
      have "?r x \<le> ?r y" if y: "y \<in> ?S" "key k \<le> ?r y" for y
      proof -
        from in_S [OF y(1)] obtain i where i: "i < length bs" "y \<in> set (bs ! i)" by blast
        show ?thesis
        proof (cases "i = j")
          case True
          with i(2) y(2) d'(3) Some show ?thesis by auto
        next
          case False
          with later [OF i y(2)] have "behind key valid same (bs ! j) (ix ! j) y" using sep(4) [OF j(1) _ i(1,2)] by simp
          then have "?r (ix ! j) < ?r y" by (simp add: behind_def)
          with sep(3) [OF j(1) x(1)] show ?thesis by simp
        qed
      qed
      moreover have "x \<in> ?S" using x(1) jb by auto
      ultimately have "first_in ?r {x \<in> ?S. key k \<le> ?r x} cd" using x(2) Some by simp
      moreover have "inj_on ?r {x \<in> ?S. key k \<le> ?r x}"
        using sorted_strict_inj [OF sorted] by (rule inj_on_subset) blast
      ultimately have "c = cd" using c first_in_unique by blast
      moreover have "\<not> m \<longrightarrow> \<not> same k (fst x)" using m(2) x(1) by blast
      ultimately have "(if m then cd else None) = c \<or> (if m then cd else None) = None \<and> (\<forall>e. c = Some e \<longrightarrow> \<not> same k (fst e))"
        using Some by simp
      with get c show ?thesis by blast
    qed
  qed
qed

end

lemma find_first_in:
  fixes key :: "slice \<Rightarrow> 'k::linorder"
  assumes "sorted_wrt (\<lambda>a b. rank_of key a < rank_of key b) es"
  shows "first_in (rank_of key) {x \<in> set es. key k \<le> rank_of key x} (List.find (\<lambda>x. key k \<le> rank_of key x) es)"
  using assms
proof (induction es)
  case (Cons e es)
  then show ?case by (cases "key k \<le> rank_of key e"; cases "List.find (\<lambda>x. key k \<le> rank_of key x) es") (auto simp: less_imp_le)
qed simp

section \<open>The tables of the database\<close>

text \<open>Internal keys, on a file of the operating system.\<close>

abbreviation internal_cmp :: comparator where
  "internal_cmp \<equiv> InternalKeyComparator BytewiseComparator"

abbreviation ikey :: "slice \<Rightarrow> slice internal_order" where
  "ikey \<equiv> \<lambda>k. IKey (ExtractUserKey k) (key_tag k)"

abbreviation any_ikey :: "slice \<Rightarrow> bool" where
  "any_ikey \<equiv> \<lambda>k. 8 \<le> length k"

abbreviation same_user :: "slice \<Rightarrow> slice \<Rightarrow> bool" where
  "same_user \<equiv> \<lambda>a b. ExtractUserKey a = ExtractUserKey b"

lemma separator_user_key:
  assumes "any_ikey a" and "any_ikey b" and "ikey a < ikey c" and "ikey c \<le> ikey (FindShortestSeparator internal_cmp a b)"
    and "ikey a < ikey b"
  shows "ExtractUserKey c \<noteq> ExtractUserKey b"
proof -
  let ?t = "Bytewise_FindShortestSeparator (ExtractUserKey a) (ExtractUserKey b)"
  let ?sep = "FindShortestSeparator internal_cmp a b"
  have "?sep \<noteq> a" using assms(3,4) by auto
  then have sep: "?sep = PutFixed64 ?t (PackSequenceAndType kMaxSequenceNumber kValueTypeForSeek)"
    and t: "length ?t < length (ExtractUserKey a)"
    by (auto simp: InternalKeyComparator_def internal_FindShortestSeparator_def Let_def BytewiseComparator_def split: if_splits)
  have "ExtractUserKey a < ExtractUserKey b"
    using t bytewise_separator_none [of "ExtractUserKey a" "ExtractUserKey b"] by (cases "ExtractUserKey a < ExtractUserKey b") auto
  then have "?t < ExtractUserKey b" using bytewise.separator [of "ExtractUserKey a" "ExtractUserKey b"] by (simp add: BytewiseComparator_def)
  moreover have "ExtractUserKey c \<le> ?t" using assms(4) unfolding sep by (auto simp: IKey_less less_eq_internal_order_def le_less)
  ultimately show ?thesis by auto
qed

interpretation posix_table: table_writer posix_ops posix_accepted on_disk internal_cmp any_ikey ikey same_user lib opts for lib opts
proof
  show "\<lbrakk>any_ikey a; any_ikey b; any_ikey c; ikey a < ikey c; ikey c \<le> ikey (FindShortestSeparator internal_cmp a b); ikey a < ikey b\<rbrakk>
    \<Longrightarrow> \<not> same_user c b" for a b c using separator_user_key by blast
  show "\<lbrakk>any_ikey a; any_ikey b; any_ikey c; same_user a c; ikey a \<le> ikey b; ikey b \<le> ikey c\<rbrakk> \<Longrightarrow> same_user a b" for a b c
    by (auto simp: less_eq_internal_order_def IKey_less)
qed (rule shorter_separator)+

interpretation table_iter: two_level any_block_class any_block_class ikey any_ikey "any_block_at internal_cmp ikey any_ikey"
    "any_block_at internal_cmp ikey any_ikey" "BlockReader lib t verify" for lib t verify
  by (rule internal.blocks_two_level)

text \<open>No call of the system fails when there are no answers left in its script.\<close>

lemma posix_no_error:
  assumes "script f = []"
  shows "\<exists>f'. Append posix_ops f d = (OK, f') \<and> script f' = []" and "\<exists>f'. Flush posix_ops f = (OK, f') \<and> script f' = []"
  using assms by (auto simp: posix_ops_def posix_Append_def posix_Flush_def FlushBuffer_def WriteUnbuffered_def
      WriteUnbuffered_loop.simps Let_def)

lemma filter_matches:
  assumes "opt_filter_policy opts = map_option (\<lambda>n. (name, InternalFilterPolicy (bloom_policy n))) bits"
    and "\<forall>n. bits = Some n \<longrightarrow> n < 2 ^ 31"
    and "table_sorted ikey any_ikey (concat bs)" and "length hs = length bs" and "[] \<notin> set bs" and "i < length bs"
    and "sorted_wrt (<) (map (unat \<circ> bh_offset) hs @ [unat (off :: u64)])"
    and "\<And>name pol. opt_filter_policy opts = Some (name, pol) \<Longrightarrow>
      length (build_filters pol (zip (map bh_offset hs) (map (map fst) bs) @ [(off, [])])) < 2 ^ 32"
    and "tab_filter t = filter_of_table opts bs hs off"
  shows "\<exists>m. filter_may_match t (handle_bytes (hs ! i)) k = Some m \<and> (m \<or> (\<forall>x\<in>set (bs ! i). \<not> same_user k (fst x)))"
proof (cases bits)
  case None
  with assms(1,9) show ?thesis by (intro exI [of _ True]) (simp add: filter_may_match_def filter_of_table_def)
next
  case (Some n)
  let ?pol = "InternalFilterPolicy (bloom_policy n)"
  let ?blocks = "zip (map bh_offset hs) (map (map fst) bs) @ [(off, [])]"
  have pol: "opt_filter_policy opts = Some (name, ?pol)" using assms(1) Some by simp
  have fm: "filter_may_match t (handle_bytes (hs ! i)) k = block_KeyMayMatch (FilterBlockReader ?pol (build_filters ?pol ?blocks)) (bh_offset (hs ! i)) k"
    using assms(9) pol BlockHandle_decodes [of "hs ! i" "[]"] by (simp add: filter_may_match_def filter_of_table_def)
  have keys: "concat (map snd ?blocks) = map fst (concat bs)" using assms(4) by (simp add: map_concat)
  have "entries_room xs \<ge> length xs" for xs by (induction xs) auto
  then have "length (concat bs) < 2 ^ 30" using assms(3) by (auto simp: table_sorted_def simp del: length_concat intro: le_less_trans)
  then have room: "\<forall>m \<le> length (concat (map snd ?blocks)). (m < 2 ^ 31 \<and> n < 2 ^ 31) \<and> m < 2 ^ 31"
  proof -
    have "length (concat (map snd ?blocks)) < 2 ^ 30" unfolding keys length_map by (rule \<open>length (concat bs) < 2 ^ 30\<close>)
    then show ?thesis using assms(2) Some by (auto simp del: length_concat)
  qed
  have valid: "list_all any_ikey (concat (map snd ?blocks))"
    unfolding keys using assms(3) by (simp add: list_all_iff table_sorted_def)
  have "map fst ?blocks = map bh_offset hs @ [off]" using assms(4) by simp
  then have "map (unat \<circ> fst) ?blocks = map (unat \<circ> bh_offset) hs @ [unat off]"
    by (simp only: map_map [symmetric]) simp
  then have "sorted (map (unat \<circ> fst) ?blocks)" using assms(7) by (simp add: strict_sorted_imp_sorted)
  note numbers = numbers_sorted [OF this]
  have blk: "(bh_offset (hs ! i), map fst (bs ! i)) \<in> set ?blocks"
    using assms(4,6) nth_mem [of i "zip (map bh_offset hs) (map (map fst) bs)"] by simp
  note fits = assms(8) [OF pol]
  have asked: "\<exists>m. block_KeyMayMatch (FilterBlockReader ?pol (build_filters ?pol ?blocks)) (bh_offset (hs ! i)) k = Some m
      \<and> (same_user k (fst x) \<longrightarrow> m)" if x: "x \<in> set (bs ! i)" for x
  proof -
    have "fst x \<in> set (snd (bh_offset (hs ! i), map fst (bs ! i)))" using x by simp
    from internal_bloom.filter_block_matches [OF room valid numbers fits blk this]
    obtain ks where ks: "length ks < 2 ^ 31 \<and> n < 2 ^ 31" "list_all any_ikey ks" "fst x \<in> set ks"
      "block_KeyMayMatch (FilterBlockReader ?pol (build_filters ?pol ?blocks)) (bh_offset (hs ! i)) k =
        Some (KeyMayMatch ?pol k (CreateFilter ?pol ks (int (length ks)) []))" by auto
    have "KeyMayMatch ?pol k flt = KeyMayMatch ?pol (fst x) flt" if "same_user k (fst x)" for flt
      using that by (simp add: InternalFilterPolicy_def)
    with ks(4) internal_bloom.matches [OF ks(1-3)] show ?thesis by simp
  qed
  have "bs ! i \<in> set bs" using assms(6) by simp
  with assms(5) have "bs ! i \<noteq> []" by metis
  then have "hd (bs ! i) \<in> set (bs ! i)" by simp
  from asked [OF this] obtain m where m: "filter_may_match t (handle_bytes (hs ! i)) k = Some m" using fm by auto
  with asked fm have "m" if "x \<in> set (bs ! i)" "same_user k (fst x)" for x using that by fastforce
  with m show ?thesis by blast
qed

section \<open>A table\<close>

text \<open>Without errors a block is written: what follows keeps the lengths only.\<close>

definition grown :: "posix_file \<Rightarrow> nat \<Rightarrow> posix_file \<Rightarrow> bool" where
  "grown f n f' \<longleftrightarrow> script f' = [] \<and> length (posix_accepted f') = length (posix_accepted f) + n"

lemma grown_Append: "script f = [] \<Longrightarrow> \<exists>f'. Append posix_ops f d = (OK, f') \<and> grown f (length d) f'"
  using posix_no_error(1) [of f d] posix_file.append_ok [of f d OK] by (auto simp: grown_def)

lemma grown_Flush: "script f = [] \<Longrightarrow> \<exists>f'. Flush posix_ops f = (OK, f') \<and> grown f 0 f'"
  using posix_no_error(2) [of f] posix_file.flush_ok [of f OK] by (auto simp: grown_def)

lemma raw_grown:
  assumes "script (tb_file b) = []"
  shows "\<exists>f'. WriteRawBlock posix_ops c ty b = (\<lparr>bh_offset = tb_offset b, bh_size = word_of_nat (length c)\<rparr>,
      b\<lparr>tb_status := OK, tb_file := f', tb_offset := tb_offset b + word_of_nat (length c + 5)\<rparr>) \<and> grown (tb_file b) (length c + 5) f'"
proof -
  obtain f1 where f1: "Append posix_ops (tb_file b) c = (OK, f1)" "grown (tb_file b) (length c) f1" using grown_Append [OF assms] by blast
  let ?t = "type_byte ty # EncodeFixed32 (crc_Mask (Extend 0 (crc_Value 0 c) [type_byte ty]))"
  obtain f2 where "Append posix_ops f1 ?t = (OK, f2)" "grown f1 (length ?t) f2" using grown_Append [of f1 ?t] f1(2) by (auto simp: grown_def)
  with f1 show ?thesis by (intro exI [of _ f2]) (simp add: WriteRawBlock_def Let_def grown_def kBlockTrailerSize_def)
qed

lemma block_grown:
  fixes block
  assumes "script (tb_file b) = []"
  defines "c \<equiv> fst (block_Finish block)"
  shows "\<exists>f'. WriteBlock None posix_ops block b = (block_Reset (snd (block_Finish block)), \<lparr>bh_offset = tb_offset b, bh_size = word_of_nat (length c)\<rparr>,
      b\<lparr>tb_status := OK, tb_file := f', tb_offset := tb_offset b + word_of_nat (length c + 5)\<rparr>) \<and> grown (tb_file b) (length c + 5) f'"
proof -
  obtain ty where "block_contents None (opt_compression (tb_options b)) c = (c, ty)"
    by (cases "opt_compression (tb_options b)") (auto simp: block_contents_def Snappy_Compress_def)
  then show ?thesis using raw_grown [OF assms(1), of c ty] by (auto simp: WriteBlock_def Let_def c_def split: prod.splits)
qed

definition example_options :: table_options where
  "example_options = \<lparr>opt_comparator = internal_cmp, opt_paranoid_checks = True, opt_block_size = 4096, opt_block_restart_interval = 16,
     opt_compression = kSnappyCompression, opt_filter_policy = Some ([98], InternalFilterPolicy (bloom_policy 10))\<rparr>"

definition example_key :: slice where "example_key = [97, 1, 2, 0, 0, 0, 0, 0, 0]"

definition example_file :: posix_file where
  "example_file = \<lparr>filename = [], buf = [], on_disk = [], script = []\<rparr>"

lemmas small_varints = put_varint [of 0, simplified] put_varint [of 1, simplified] put_varint [of 2, simplified] put_varint [of 8, simplified] put_varint [of 9, simplified]
  varint_first(1)

lemma example_Add: "tb_Add None posix_ops example_key [120] (TableBuilder example_options f) =
   \<lparr>tb_options = example_options, tb_file = f, tb_offset = 0, tb_status = OK,
      tb_data_block = \<lparr>bb_interval = 16, bb_buffer = [0, 9, 1] @ example_key @ [120], bb_restarts = [0], bb_counter = 1, bb_finished = False, bb_last_key = example_key\<rparr>,
      tb_index_block = BlockBuilder 1,
      tb_last_key = example_key, tb_num_entries = 1, tb_closed = False,
      tb_filter_block = Some \<lparr>fb_policy = InternalFilterPolicy (bloom_policy 10), fb_keys = example_key, fb_start = [0], fb_result = [], fb_offsets = []\<rparr>,
      tb_pending_index_entry = False, tb_pending_handle = BlockHandle\<rparr>"
  by (simp add: tb_Add_def TableBuilder_def tb_ok_def Let_def block_Add_def BlockBuilder_def example_key_def small_varints
   CurrentSizeEstimate_def example_options_def AddKey_def FilterBlockBuilder_def StartBlock_def StartBlock_loop.simps)

lemma example_options_simps: "opt_comparator example_options = internal_cmp" "opt_block_restart_interval example_options = 16" "opt_compression example_options = kSnappyCompression"
  "opt_filter_policy example_options = Some ([98], InternalFilterPolicy (bloom_policy 10))" by (simp_all add: example_options_def)

lemma example_filter: "\<exists>c fb'. filter_Finish \<lparr>fb_policy = InternalFilterPolicy (bloom_policy 10), fb_keys = example_key, fb_start = [0], fb_result = [], fb_offsets = []\<rparr> = (c, fb') \<and> length c = 18"
  by (simp add: filter_Finish_def GenerateFilter_def Let_def InternalFilterPolicy_def bloom_policy_def bloom_CreateFilter_def BloomFilterPolicy_def PutFixed32_def)

lemma example_successor: "FindShortSuccessor internal_cmp example_key = example_key"
  by (simp add: InternalKeyComparator_def internal_FindShortSuccessor_def example_key_def ExtractUserKey_def BytewiseComparator_def Bytewise_FindShortSuccessor_def successor_loop.simps)

lemma example_handles: "handle_bytes \<lparr>bh_offset = 0, bh_size = 21\<rparr> = [0, 21]" "handle_bytes \<lparr>bh_offset = 26, bh_size = 18\<rparr> = [26, 18]"
  by (simp_all add: handle_bytes_def EncodeVarint64_varint varint_first(1))


lemma example_key_length: "length example_key = 9"
  by (simp add: example_key_def)

lemma example_built:
  assumes "script f = []"
  shows "\<exists>b. build_table None posix_ops example_options [(example_key, [120])] f = (OK, b) \<and> length (posix_accepted (tb_file b)) = length (posix_accepted f) + 150"
proof -
  let ?b0 = "tb_Add None posix_ops example_key [120] (TableBuilder example_options f)"
  let ?D = "tb_data_block ?b0"
  have D: "length (fst (block_Finish ?D)) = 21" "\<not> block_empty ?D"
    by (simp_all add: example_Add block_Finish_def Let_def PutFixed32_def block_empty_def example_key_length)
  obtain f1 where f1: "WriteBlock None posix_ops ?D ?b0 = (block_Reset (snd (block_Finish ?D)), \<lparr>bh_offset = 0, bh_size = 21\<rparr>,
      ?b0\<lparr>tb_status := OK, tb_file := f1, tb_offset := 26\<rparr>)" "grown f 26 f1"
    using block_grown [of ?b0 ?D] assms D(1) by (auto simp: example_Add)
  obtain f2 where f2: "Flush posix_ops f1 = (OK, f2)" "grown f1 0 f2" using grown_Flush [of f1] f1(2) by (auto simp: grown_def)
  let ?D' = "block_Reset (snd (block_Finish ?D))"
  define b1 where "b1 = tb_Flush None posix_ops ?b0\<lparr>tb_closed := True\<rparr>"
  have "tb_Flush None posix_ops ?b0 = ?b0\<lparr>tb_data_block := ?D', tb_pending_handle := \<lparr>bh_offset = 0, bh_size = 21\<rparr>, tb_pending_index_entry := True,
    tb_status := OK, tb_file := f2, tb_offset := 26\<rparr>"
    using D(2) f1(1) f2(1) by (simp add: tb_Flush_def tb_ok_def Let_def example_Add StartBlock_def StartBlock_loop.simps kFilterBase_def kFilterBaseLg_def)
  then have b1: "tb_options b1 = example_options" "tb_status b1 = OK" "tb_file b1 = f2" "tb_offset b1 = 26" "tb_pending_index_entry b1" "tb_pending_handle b1 = \<lparr>bh_offset = 0, bh_size = 21\<rparr>"
    "tb_index_block b1 = BlockBuilder 1" "tb_last_key b1 = example_key"
    "tb_filter_block b1 = Some \<lparr>fb_policy = InternalFilterPolicy (bloom_policy 10), fb_keys = example_key, fb_start = [0], fb_result = [], fb_offsets = []\<rparr>"
    by (simp_all add: b1_def example_Add)
  obtain c fb' where c: "filter_Finish \<lparr>fb_policy = InternalFilterPolicy (bloom_policy 10), fb_keys = example_key, fb_start = [0], fb_result = [], fb_offsets = []\<rparr> = (c, fb')" "length c = 18"
    using example_filter by blast
  obtain f3 where f3: "WriteFilterBlock posix_ops b1 = (\<lparr>bh_offset = 26, bh_size = 18\<rparr>, b1\<lparr>tb_filter_block := Some fb', tb_status := OK, tb_file := f3, tb_offset := 49\<rparr>)" "grown f2 23 f3"
    using raw_grown [of "b1\<lparr>tb_filter_block := Some fb'\<rparr>" c kNoCompression] f2(2) c b1 by (auto simp: WriteFilterBlock_def tb_ok_def grown_def)
  define b2 where "b2 = b1\<lparr>tb_filter_block := Some fb', tb_status := OK, tb_file := f3, tb_offset := 49\<rparr>"
  have b2: "tb_options b2 = example_options" "tb_status b2 = OK" "tb_file b2 = f3" "tb_offset b2 = 49" "tb_pending_index_entry b2"
    "tb_pending_handle b2 = \<lparr>bh_offset = 0, bh_size = 21\<rparr>" "tb_index_block b2 = BlockBuilder 1" "tb_last_key b2 = example_key"
    "tb_filter_block b2 = Some fb'" by (simp_all add: b2_def b1)
  let ?M = "block_Add (filter_key [98]) (BlockHandle_EncodeTo \<lparr>bh_offset = 26, bh_size = 18\<rparr> []) (BlockBuilder 16)"
  have M: "length (fst (block_Finish ?M)) = 21"
    by (simp add: block_Finish_def Let_def PutFixed32_def block_Add_def BlockBuilder_def BlockHandle_EncodeTo_bytes example_handles filter_key_def small_varints)
  have meta: "WriteMetaindexBlock None posix_ops \<lparr>bh_offset = 26, bh_size = 18\<rparr> b2 = (case WriteBlock None posix_ops ?M b2 of (blk, r) \<Rightarrow> r)"
    by (simp add: WriteMetaindexBlock_def tb_ok_def b2 example_options_simps split: prod.split)
  obtain f4 where f4: "WriteMetaindexBlock None posix_ops \<lparr>bh_offset = 26, bh_size = 18\<rparr> b2 = (\<lparr>bh_offset = 49, bh_size = 21\<rparr>, b2\<lparr>tb_status := OK, tb_file := f4, tb_offset := 75\<rparr>)" "grown f3 26 f4"
    using block_grown [of b2 ?M] f3(2) M b2(1-4) by (auto simp: meta grown_def)
  let ?b3 = "add_index_entry example_key (b2\<lparr>tb_status := OK, tb_file := f4, tb_offset := 75\<rparr>)"
  have I: "length (fst (block_Finish (tb_index_block ?b3))) = 22"
    by (simp add: block_Finish_def Let_def PutFixed32_def block_Add_def BlockBuilder_def BlockHandle_EncodeTo_bytes example_handles small_varints add_index_entry_def b2 example_key_length)
  have b3: "tb_status ?b3 = OK" "tb_file ?b3 = f4" "tb_offset ?b3 = 75" by (simp_all add: b2 add_index_entry_def)
  obtain f5 b4 where f5: "WriteIndexBlock None posix_ops (b2\<lparr>tb_status := OK, tb_file := f4, tb_offset := 75\<rparr>) = (\<lparr>bh_offset = 75, bh_size = 22\<rparr>, b4)" "grown f4 27 f5"
     "tb_status b4 = OK" "tb_file b4 = f5"
    using block_grown [of ?b3 "tb_index_block ?b3"] f4(2) I b2 b3 by (auto simp: WriteIndexBlock_def tb_ok_def grown_def example_options_simps Let_def example_successor)
  let ?foot = "Footer_EncodeTo \<lparr>metaindex_handle = \<lparr>bh_offset = 49, bh_size = 21\<rparr>, index_handle = \<lparr>bh_offset = 75, bh_size = 22\<rparr>\<rparr> []"
  obtain f6 where f6: "Append posix_ops f5 ?foot = (OK, f6)" "grown f5 48 f6"
    using grown_Append [of f5 ?foot] f5(2) by (auto simp: grown_def footer_bytes_def [symmetric])
  have "build_table None posix_ops example_options [(example_key, [120])] f = (OK, WriteFooter posix_ops \<lparr>bh_offset = 49, bh_size = 21\<rparr> \<lparr>bh_offset = 75, bh_size = 22\<rparr> b4)"
    and "tb_file (WriteFooter posix_ops \<lparr>bh_offset = 49, bh_size = 21\<rparr> \<lparr>bh_offset = 75, bh_size = 22\<rparr> b4) = f6"
    using f3(1) f4(1) f5 f6(1) by (simp_all add: build_table_def tb_Finish_def Let_def b1_def [symmetric] b2_def [symmetric] WriteFooter_def tb_ok_def)
  moreover have "grown f 150 f6" using f1(2) f2(2) f3(2) f4(2) f5(2) f6(2) by (simp add: grown_def)
  ultimately show ?thesis by (auto simp: grown_def)
qed


section \<open>Properties\<close>

text \<open>
  C5: A table gives back what was put into it. Entries are added, in the order of their internal keys, to a builder on a
  file of the operating system, with any sizes of blocks, compressed or not, with or without a filter, and the builder
  finishes without an error. Then the file can be opened as a table, and any calls of its iterator give what they give
  on the list of the entries.
\<close>

theorem table_iterates:
  assumes "posix_accepted f = []" and "table_sorted ikey any_ikey es" and "table_setup internal_cmp lib opts"
    and "build_table lib posix_ops opts es f = (s, b)" and "ok s" and "length (posix_accepted (tb_file b)) < 2 ^ 64"
    and "reads file (posix_accepted (tb_file b))" and "opt_comparator ropts = internal_cmp" and "calls_valid any_ikey calls"
  shows "\<exists>t. Table_Open lib ropts file (word_of_nat (length (posix_accepted (tb_file b)))) = Some (OK, Some t)
    \<and> iter_run (table_iter_class lib t verify) calls (Table_NewIterator t) = Some (list_run ikey es calls None)"
proof -
  obtain bs hs ix where tab: "table_of ikey any_ikey same_user lib opts bs hs ix (posix_accepted (tb_file b))" and es: "concat bs = es"
    by (rule posix_table.build_table_of [OF assms(1,2,4-6,3)])
  obtain t where t: "Table_Open lib ropts file (word_of_nat (length (posix_accepted (tb_file b)))) = Some (OK, Some t)"
    "tab_options t = ropts" "tab_file t = file" "tab_index_block t = Block (build_block 1 ix)"
    by (rule Table_Open_built [OF tab assms(3,7,6), of ropts])
  have srt: "table_sorted ikey any_ikey (concat bs)" "set (concat bs) = set es" using assms(2) es by simp_all
  have rd: "reads (tab_file t) (posix_accepted (tb_file b))" "opt_comparator (tab_options t) = internal_cmp" using assms(7,8) t by simp_all
  note ti = internal.table_indexed [OF tab assms(3) srt(1) rd t(4)]
  have "iter_run (table_iter_class lib t verify) calls (Table_NewIterator t) = Some (list_run ikey es calls None)"
    unfolding table_iter_class_def Table_NewIterator_def
    using table_iter.TwoLevelIterator_at [OF ti(1) [where verify = verify] ti(2), unfolded es] assms(2,9)
    by (intro table_iter.two.run_refines) (simp_all add: table_sorted_def srt(2))
  with t(1) show ?thesis by blast
qed

theorem table_iterates_witness:
  "\<exists>b t. build_table None posix_ops example_options [(example_key, [120])] example_file = (OK, b)
    \<and> Table_Open None example_options (mmap_Read [] (posix_accepted (tb_file b))) (word_of_nat (length (posix_accepted (tb_file b)))) = Some (OK, Some t)
    \<and> iter_run (table_iter_class None t True) [Call_First, Call_Next, Call_Seek example_key, Call_Prev] (Table_NewIterator t) =
      Some [Some (example_key, [120]), None, Some (example_key, [120]), None]"
proof -
  have f: "script example_file = []" "posix_accepted example_file = []" by (simp_all add: example_file_def posix_accepted_def)
  obtain b where b: "build_table None posix_ops example_options [(example_key, [120])] example_file = (OK, b)"
    "length (posix_accepted (tb_file b)) = 150" using example_built [OF f(1)] f(2) by auto
  have len: "length (posix_accepted (tb_file b)) < 2 ^ 64" using b(2) by simp
  have "table_sorted ikey any_ikey [(example_key, [120])]" "table_setup internal_cmp None example_options"
    by (simp_all add: table_sorted_def example_key_length table_setup_def example_options_simps no_snappy)
  from table_iterates [OF f(2) this b(1) _ len mmap_reads [OF len], of example_options
      "[Call_First, Call_Next, Call_Seek example_key, Call_Prev]" "[]" True]
  show ?thesis using b(1)
    by (simp add: example_options_simps calls_valid_def example_key_length list_step_def rank_of_def)
qed

text \<open>
  C6: A lookup in a table gives the first entry that is not below the key. Where the filter says that the key is not in
  its block, or the key falls between two blocks, nothing is given: then that entry, if there is one, is of another user key.
\<close>

theorem table_finds:
  assumes "posix_accepted f = []" and "table_sorted ikey any_ikey es" and "table_setup internal_cmp lib opts"
    and "opt_filter_policy opts = map_option (\<lambda>n. (name, InternalFilterPolicy (bloom_policy n))) bits" and "\<forall>n. bits = Some n \<longrightarrow> n < 2 ^ 31"
    and "build_table lib posix_ops opts es f = (s, b)" and "ok s" and "length (posix_accepted (tb_file b)) < 2 ^ 32"
    and "reads file (posix_accepted (tb_file b))" and "any_ikey k"
  defines "c \<equiv> List.find (\<lambda>x. ikey k \<le> rank_of ikey x) es"
  shows "\<exists>t r. Table_Open lib opts file (word_of_nat (length (posix_accepted (tb_file b)))) = Some (OK, Some t)
    \<and> InternalGet lib t verify k = Some (OK, r) \<and> (r = c \<or> r = None \<and> (\<forall>x. c = Some x \<longrightarrow> ExtractUserKey k \<noteq> ExtractUserKey (fst x)))"
proof -
  have len: "length (posix_accepted (tb_file b)) < 2 ^ 64" using assms(8) by simp
  obtain bs hs ix where tab: "table_of ikey any_ikey same_user lib opts bs hs ix (posix_accepted (tb_file b))" and es: "concat bs = es"
    by (rule posix_table.build_table_of [OF assms(1,2,6,7) len assms(3)])
  obtain t off where t: "Table_Open lib opts file (word_of_nat (length (posix_accepted (tb_file b)))) = Some (OK, Some t)"
    "tab_options t = opts" "tab_file t = file" "tab_index_block t = Block (build_block 1 ix)" "tab_filter t = filter_of_table opts bs hs off"
    and off: "sorted_wrt (<) (map (unat \<circ> bh_offset) hs @ [unat off])"
    and small: "\<And>name pol. opt_filter_policy opts = Some (name, pol) \<Longrightarrow>
      length (build_filters pol (zip (map bh_offset hs) (map (map fst) bs) @ [(off, [])])) \<le> length (posix_accepted (tb_file b))"
    by (rule Table_Open_built [OF tab assms(3,9) len, of opts]) blast
  have srt: "table_sorted ikey any_ikey (concat bs)" using assms(2) es by simp
  have rd: "reads (tab_file t) (posix_accepted (tb_file b))" "opt_comparator (tab_options t) = internal_cmp"
    using assms(3,9) t by (simp_all add: table_setup_def)
  have ix: "length hs = length bs" "[] \<notin> set bs" using tab unfolding table_of_def by blast+
  have fm: "\<exists>m. filter_may_match t (handle_bytes (hs ! i)) k = Some m \<and> (m \<or> (\<forall>x\<in>set (bs ! i). \<not> same_user k (fst x)))"
    if "i < length bs" for i
    using assms(8) by (intro filter_matches [OF assms(4,5) srt ix that off _ t(5)]) (blast intro: le_less_trans small)
  obtain r c' where r: "InternalGet lib t verify k = Some (OK, r)" "first_in (rank_of ikey) {x \<in> set (concat bs). ikey k \<le> rank_of ikey x} c'"
    "r = c' \<or> r = None \<and> (\<forall>x. c' = Some x \<longrightarrow> \<not> same_user k (fst x))"
    using internal.InternalGet_built [OF tab assms(3) srt rd t(4) assms(10) fm, where verify = verify] by blast
  have es_sorted: "sorted_wrt (\<lambda>a b. rank_of ikey a < rank_of ikey b) es" using assms(2) by (simp add: table_sorted_def)
  have "inj_on (rank_of ikey) {x \<in> set es. ikey k \<le> rank_of ikey x}"
    using sorted_strict_inj [OF es_sorted] by (rule inj_on_subset) blast
  then have "c' = c" using r(2) find_first_in [OF es_sorted, of k] first_in_unique unfolding c_def es by blast
  with t(1) r(1,3) show ?thesis by blast
qed

theorem table_finds_witness:
  "\<exists>b t. build_table None posix_ops example_options [(example_key, [120])] example_file = (OK, b)
    \<and> Table_Open None example_options (mmap_Read [] (posix_accepted (tb_file b))) (word_of_nat (length (posix_accepted (tb_file b)))) = Some (OK, Some t)
    \<and> InternalGet None t True example_key = Some (OK, Some (example_key, [120]))"
proof -
  have f: "script example_file = []" "posix_accepted example_file = []" by (simp_all add: example_file_def posix_accepted_def)
  obtain b where b: "build_table None posix_ops example_options [(example_key, [120])] example_file = (OK, b)"
    "length (posix_accepted (tb_file b)) = 150" using example_built [OF f(1)] f(2) by auto
  have len: "length (posix_accepted (tb_file b)) < 2 ^ 32" "length (posix_accepted (tb_file b)) < 2 ^ 64" using b(2) by simp_all
  have "table_sorted ikey any_ikey [(example_key, [120])]" "table_setup internal_cmp None example_options"
    by (simp_all add: table_sorted_def example_key_length table_setup_def example_options_simps no_snappy)
  from table_finds [OF f(2) this, of "[98]" "Some 10" OK b "mmap_Read [] (posix_accepted (tb_file b))" example_key True] b(1) len(1) mmap_reads [OF len(2), of "[]"]
  show ?thesis by (simp add: example_options_simps example_key_length rank_of_def)
qed

end
