(* ===== verification/Spec2Isabelle.thy ===== *)
theory Spec2Isabelle
  imports Prelude Mem Cbs Der Der_Values Cbb_Doc Oid Cbb_SetOf Ber Unicode Ldb_Log Ldb_Filter Ldb_Block_Spec Ldb_Db Ldb_VersionEdit Ldb_DbScan Ldb_Table
begin

text \<open>
  A development about the C and C++ code that the LoopChat application ships under
  \<open>src/LoopChat/Pods\<close>. The application is a chat client in Swift; what it stores and sends passes
  through two libraries whose core is modelled here: the byte-string layer of BoringSSL
  (\<open>BoringSSL-GRPC/src/crypto/bytestring\<close>), on which its TLS stack parses and writes, and LevelDB
  (\<open>leveldb-library\<close>), in which the Firestore and database clients keep their data on the device.

  Conventions. A pointer with a length is the list of the bytes it delimits; a function that moves
  such a cursor returns the rest. Machine integers are words of their width wherever a wrap, a mask or
  a shift matters, natural numbers where the code only counts bytes of objects in memory. A record
  stands for a struct or the fields of a class, threaded through its operations; \<open>None\<close> or a status
  is an error return. Assertions are compiled out in the builds that are shipped and are not part of
  the operations; where a theorem needs what an assertion says, it has it as a hypothesis. Loops are recursions with proved
  termination; those that may not end, the searches in a block and in a skip list, the loops over an
  iterator and the runs of the database, are partial functions with \<open>None\<close> for no result, and the theorems
  about them state that there is one. The only fuel is in \<open>sl_list\<close> of \<open>Ldb_SkipList\<close>, which follows the links of
  level 0 for as many steps as there are nodes; that is enough, as the nodes of the list are distinct.

  BoringSSL.
  \<^item> \<open>Mem\<close>: \<open>crypto/mem.c\<close>, the allocation wrappers with the wrap of their sizes, constant-time comparison
    and the bounded string functions.
  \<^item> \<open>Cbs\<close>, \<open>Der\<close>, \<open>Der_Values\<close>: \<open>bytestring/cbs.c\<close>. \<open>Cbs\<close> has the cursor and all getters; \<open>Der\<close> specifies tags,
    lengths and elements of DER and proves that the parser accepts these encodings and no others,
    that they are prefix-free and that a failure leaves the cursor alone; \<open>Der_Values\<close> does it for
    integers and booleans. The recurring shape is the locale \<open>canonical_codec\<close> of \<open>Prelude\<close>: a decoder that
    inverts an encoder and accepts nothing else.
  \<^item> \<open>Cbb\<close>, \<open>Cbb_Spec\<close>, \<open>Cbb_Asn1\<close>, \<open>Cbb_Doc\<close>: \<open>bytestring/cbb.c\<close>. \<open>Cbb\<close> has the buffer, its growth, the chain of open
    children with their unfilled length prefixes and the writers; \<open>Cbb_Spec\<close> relates such a state to a
    list of open pieces and has the locales a writer satisfies; \<open>Cbb_Asn1\<close> proves every writer to
    satisfy them; \<open>Cbb_Doc\<close> has the theorems about whole documents, errors and fixed buffers. The
    allocator is a parameter, any function from sizes to success.
  \<^item> \<open>Oid\<close>, \<open>Cbb_SetOf\<close>, \<open>Ber\<close>, \<open>Unicode\<close>: object identifiers as text, the sorting of a SET OF, the conversion of
    BER to DER in \<open>ber.c\<close> with a defect of the search that decides whether to convert, and the Unicode
    readers and writers of \<open>unicode.c\<close>.

  LevelDB.
  \<^item> \<open>Ldb_Coding\<close>, \<open>Ldb_Crc32c\<close>: \<open>util/coding.cc\<close> and \<open>util/crc32c.cc\<close>, the integers of all formats, and the checksum
    with its five tables, proved to be the bitwise CRC.
  \<^item> \<open>Ldb_Env\<close>: \<open>util/status.cc\<close> and, of \<open>util/env_posix.cc\<close>, the buffered writable file and the sequential
    file. What the operating system answers is a script in the state; the theorems hold for every
    script. What the log needs of a file is the locale \<open>writable_file\<close>.
  \<^item> \<open>Ldb_Log\<close>: \<open>db/log_writer.cc\<close> and \<open>db/log_reader.cc\<close>, the write-ahead log. It reads back as the records
    that are whole, after a cut at any byte and after any failures of the file.
  \<^item> \<open>Ldb_Key\<close>: \<open>util/comparator.cc\<close> and \<open>db/dbformat.cc\<close>, comparators, internal keys and lookup keys. The
    locale \<open>comparator_contract\<close> is what the other components know of a comparator; the bytewise
    comparator satisfies it, and the comparator of internal keys over any that does.
  \<^item> \<open>Ldb_Filter\<close>: \<open>util/hash.cc\<close>, \<open>util/bloom.cc\<close> and \<open>table/filter_block.cc\<close>. The locale \<open>filter_contract\<close> is
    what a filter policy promises, its instances the Bloom filter and the wrapper for internal
    keys, its client the filter block, which never denies a key of its table.
  \<^item> \<open>Ldb_Block\<close>, \<open>Ldb_Block_Spec\<close>: \<open>table/block_builder.cc\<close> and \<open>table/block.cc\<close>. The first has builder and
    iterator, the second relates the positions of the iterator to the entries of the block, for
    reading in both directions and for seeks under any comparator that keeps its contract.

  \<^item> \<open>Ldb_SkipList\<close>: \<open>util/random.h\<close> and \<open>db/skiplist.h\<close>. What the list asks of its keys is the locale
    \<open>ordered_keys\<close>, which every \<open>comparator_contract\<close> gives; the three searches are instances of one locale
    \<open>search_loop\<close>. Besides whole insertions there is a step relation in which the stores of an insertion and
    the loads of a search interleave one by one, with the invariant that holds after every store.
  \<^item> \<open>Ldb_MemTable\<close>, \<open>Ldb_Batch\<close>: \<open>db/memtable.cc\<close> and \<open>db/write_batch.cc\<close>, the entries over the skip list, lookups at
    a sequence number, and the batches of operations that are logged and inserted.
  \<^item> \<open>Ldb_Db\<close>: of \<open>db/db_impl.cc\<close> the group commit of \<open>Write\<close>, a round of \<open>MakeRoomForWrite\<close>, \<open>Get\<close> down to the table
    files, and \<open>RecoverLogFile\<close>. It composes the log, the files, the batches and the memtable: what is
    acknowledged is read back at every snapshot and survives a crash. What syncs a file is the locale
    \<open>synced_file\<close>. \<open>Version::Get\<close>, \<open>WriteLevel0Table\<close>, the memory a table uses and the answers of the system
    calls are parameters.
  \<^item> \<open>Ldb_VersionEdit\<close>: \<open>db/version_edit.cc\<close>, the records of the MANIFEST.
  \<^item> \<open>Ldb_Iterator\<close>, \<open>Ldb_Merger\<close>: \<open>include/leveldb/iterator.h\<close>, the iterator of a memtable and \<open>table/merger.cc\<close>.
    The virtual functions of an iterator are a record of functions; what the header promises of them is the
    locale \<open>iterator_contract\<close>, under which every client sees a cursor in a sorted list. The merging
    iterator keeps the promises if its children do (\<open>sublocale merging\<close>), and the memtables do.
  \<^item> \<open>Ldb_DbIter\<close>, \<open>Ldb_DbScan\<close>: \<open>db/db_iter.cc\<close> and \<open>DBImpl::NewIterator\<close>. The first has the iterator of the database
    over any internal iterator, and the locale \<open>snapshot_iterator\<close> with the proof that it keeps the same promises
    over the newest versions a snapshot sees; the second composes it with the merged memtables, so that a scan in
    any direction is a walk over the sorted list of what the acknowledged operations leave. The iterators of
    \<open>Version::AddIterators\<close> are a parameter, and the theorem is about a database with no table in files.
  \<^item> \<open>Ldb_BlockIter\<close>, \<open>Ldb_TwoLevel\<close>: the iterator of a block as an object of that interface, and
    \<open>table/two_level_iterator.cc\<close>, the iterator over the blocks that an index points to. The locale \<open>two_level\<close> has
    iterators that keep the promises for the index and for the blocks; with an index that separates the blocks
    (\<open>indexed\<close>) the two-level iterator keeps them too.
  \<^item> \<open>Ldb_Format\<close>, \<open>Ldb_TableBuilder\<close>, \<open>Ldb_Table\<close>: \<open>table/format.cc\<close>, \<open>table/table_builder.cc\<close> and \<open>table/table.cc\<close>, the
    files in which sorted entries are kept. \<open>stored\<close> says that a block lies whole in a file where its handle says,
    \<open>tb_holds\<close> what a builder holds between two calls, \<open>table_of\<close> what a finished file contains. The locale
    \<open>table_writer\<close> has a file and a comparator that keep their contracts, and separators that are not longer and do not fall
    among the keys of another user key. A table that was built reads back as its entries, in any order of seeks and
    steps, and a lookup finds what is there, with filters or without. The Snappy library is a parameter that gives back
    what it compressed; a file that is read is a function from ranges to bytes.

  \<open>Prelude\<close> has the types and the lemmas on words and bytes that all of them share, \<open>Memcmp\<close> the comparison
  of byte strings of the C library. This theory adds what spans the reading and the writing side.

  Bounds. Lengths of what is in memory are below \<open>2 ^ 64\<close> where the code adds them in \<open>size_t\<close>; blocks and
  filter blocks below \<open>2 ^ 32\<close> bytes, as their offsets are 32-bit; the entries of a table below \<open>2 ^ 30\<close> bytes with 32 more
  for each, so that every block of it is; the number of keys of a filter below
  \<open>2 ^ 31\<close>, as it is an \<open>int\<close>; sequence numbers up to \<open>kMaxSequenceNumber\<close>. Each is a hypothesis where it is
  needed.

  Not modelled. In the modelled files: \<open>Close\<close>, locks, threads and the random access files of
  \<open>env_posix.cc\<close> that are not mapped, reading a block through a cache, the strings for debugging of \<open>dbformat.cc\<close> and \<open>version_edit.cc\<close>, failures of \<open>std::string\<close> to
  grow, and memory as such (who frees what, the arena). The atomic links of the skip list are sequentially
  consistent in the model; the writer's lock is that there is one insertion at a time. Of LevelDB: the
  cache, versions and compactions. Of BoringSSL: the cryptographic algorithms, X.509, the TLS state machines. gRPC, Abseil, nanopb, the
  Firebase libraries and the application are outside this development.
\<close>

section \<open>What is written is read back\<close>

text \<open>
  C18: a signed integer written with \<open>CBB_add_asn1_int64\<close> is read back by \<open>CBS_get_asn1_int64\<close>,
  which stops right behind it.
\<close>

theorem int64_write_read:
  assumes "- (2 ^ 63) \<le> v" and "v < 2 ^ 63" and "CBB_init al cap = (True, s0)" and "cap < size_max"
    and "CBB_add_asn1_int64 al 0 v s0 = (True, s)" and "CBB_finish al 0 given s = (Some out, s')"
  shows "CBS_get_asn1_int64 (out @ r) = (Some v, r)"
proof -
  note w = strict_writer.axioms(1) [OF int64_writer [OF assms(1,2)]]
  from value_output [OF w init_repr(1) [OF assms(3,4)] assms(5,6)]
  show ?thesis using int64_codec.dec_enc [of v r] assms(1,2) by simp
qed

theorem int64_write_read_witness:
  "CBS_get_asn1_int64 ([2, 2, 0xff, 0x7f] @ [9]) = (Some (- 129), [9])"
proof -
  let ?al = "\<lambda>_ :: nat. True"
  let ?init = "snd (CBB_init ?al 0)"
  let ?s = "snd (CBB_add_asn1_int64 ?al 0 (- 129) ?init)"
  let ?f = "CBB_finish ?al 0 True ?s"
  have "fst (CBB_init ?al 0)" by code_simp
  then have s0: "CBB_init ?al 0 = (True, ?init)" by (rule run_ok)
  have "fst (CBB_add_asn1_int64 ?al 0 (- 129) ?init)" by code_simp
  then have w: "CBB_add_asn1_int64 ?al 0 (- 129) ?init = (True, ?s)" by (rule run_ok)
  have "fst ?f = Some [2, 2, 0xff, 0x7f]" by code_simp
  then have "?f = (Some [2, 2, 0xff, 0x7f], snd ?f)" by (rule run_result)
  from int64_write_read [OF _ _ s0 _ w this] show ?thesis by (simp add: size_max_def)
qed

end
